(* ===== verification/Prelude.thy ===== *)
theory Prelude
  imports Main "HOL-Library.Word" "HOL-Library.AList" "HOL-Library.Multiset"
begin

section \<open>Prelude: shared types, the fault monad and list lemmas\<close>

text \<open>
  What every component shares.
  \<^item> Machine integers: \<open>u8\<close>, \<open>u16\<close>, \<open>u32\<close>, \<open>u64\<close> are words whose
    arithmetic wraps, as Rust's does in a release build. Sizes of collections that live in
    memory (\<open>usize\<close> lengths and indices) are \<open>nat\<close>.
  \<^item> Faults: a Rust \<open>panic!\<close> (an \<open>unwrap\<close>, \<open>expect\<close>, \<open>assert!\<close>, a
    failed index), a \<open>process::abort\<close> and undefined behaviour (a read of uninitialised
    memory) are values of \<open>fault\<close>; code that can fault returns \<open>fault + 'a\<close>.
  \<^item> Poll results of futures, and the \<open>OnceCell\<close> of a thread.
  \<^item> Generic list lemmas used by the ring buffer, the executor and the collectives.
\<close>

subsection \<open>Machine integers\<close>

type_synonym u8 = "8 word"
type_synonym u16 = "16 word"
type_synonym u32 = "32 word"
type_synonym u64 = "64 word"

lemma u64_less_iff: "(a :: u64) < b \<longleftrightarrow> unat a < unat b"
  by (rule word_less_nat_alt)

lemma unat_u64_bound: "unat (a :: u64) < 2 ^ 64"
  using unsigned_less[of a] by simp

lemma unat_u64_Suc: "Suc (unat (a :: u64)) < 2 ^ 64 \<Longrightarrow> unat (a + 1) = Suc (unat a)"
  by (simp add: unat_word_ariths(1))

lemma u64_less_Suc: "(a :: u64) \<noteq> -1 \<Longrightarrow> a < a + 1"
proof -
  assume "a \<noteq> -1"
  then have "a < -1" by (simp flip: word_order.not_eq_extremum)
  then have "unat a < 2 ^ 64 - 1" by (simp add: u64_less_iff unsigned_minus_1_eq_mask mask_eq_exp_minus_1)
  then show ?thesis by (simp add: u64_less_iff unat_u64_Suc)
qed

lemma of_nat_u64_pos [simp]: "n < 2 ^ 64 \<Longrightarrow> 0 < (of_nat n :: u64) \<longleftrightarrow> 0 < n"
  by (simp add: u64_less_iff unat_of_nat)

lemma unat_of_nat_u64 [simp]: "n < 2 ^ 64 \<Longrightarrow> unat (of_nat n :: u64) = n"
  by (simp add: unat_of_nat)

subsection \<open>Faults\<close>

datatype fault = Panic string | Abort string | UB string

type_synonym 'a run = "fault + 'a"

definition run_bind :: "'a run \<Rightarrow> ('a \<Rightarrow> 'b run) \<Rightarrow> 'b run" where
  "run_bind m f = (case m of Inl e \<Rightarrow> Inl e | Inr x \<Rightarrow> f x)"

named_theorems run_simps \<open>rewriting of the fault monad\<close>

lemma run_bind_Inr [simp, run_simps]: "run_bind (Inr x) f = f x"
  by (simp add: run_bind_def)

lemma run_bind_Inl [simp, run_simps]: "run_bind (Inl e) f = Inl e"
  by (simp add: run_bind_def)

lemma run_bind_assoc [run_simps]: "run_bind (run_bind m f) g = run_bind m (\<lambda>x. run_bind (f x) g)"
  by (simp add: run_bind_def split: sum.split)

lemma run_bind_eq_Inr [run_simps]: "run_bind m f = Inr y \<longleftrightarrow> (\<exists>x. m = Inr x \<and> f x = Inr y)"
  by (simp add: run_bind_def split: sum.split)

lemma run_bind_cong [fundef_cong]:
  "m = m' \<Longrightarrow> (\<And>x. m' = Inr x \<Longrightarrow> f x = f' x) \<Longrightarrow> run_bind m f = run_bind m' f'"
  by (simp add: run_bind_def split: sum.split)

text \<open>\<open>Option::unwrap\<close> and \<open>Option::expect\<close> with the message they panic with.\<close>

definition unwrap_or_panic :: "string \<Rightarrow> 'a option \<Rightarrow> 'a run" where
  "unwrap_or_panic msg x = (case x of None \<Rightarrow> Inl (Panic msg) | Some v \<Rightarrow> Inr v)"

lemma unwrap_or_panic_simps [simp]:
  "unwrap_or_panic msg (Some v) = Inr v"
  "unwrap_or_panic msg None = Inl (Panic msg)"
  by (simp_all add: unwrap_or_panic_def)

subsection \<open>Futures\<close>

text \<open>
  \<open>std::task::Poll\<close>, and the type of a \<open>Future::poll\<close>: it takes the future's own state
  and the rest of the world (the context's waker included) and answers, with both updated, or faults.
\<close>

datatype 'a poll = Ready 'a | Pending

fun is_ready :: "'a poll \<Rightarrow> bool" where
  "is_ready (Ready v) = True"
| "is_ready Pending = False"

type_synonym ('f, 'a, 'w) fut_poll = "'f \<Rightarrow> 'w \<Rightarrow> ('a poll \<times> 'f \<times> 'w) run"

text \<open>
  \<open>ready_in p k v f\<close>: whatever the world does, the future \<open>f\<close> is pending for \<open>k\<close>
  polls and then ready with \<open>v\<close>.
\<close>

fun ready_in :: "('f, 'a, 'w) fut_poll \<Rightarrow> nat \<Rightarrow> 'a \<Rightarrow> 'f \<Rightarrow> bool" where
  "ready_in p 0 v f = (\<forall>w. \<exists>f' w'. p f w = Inr (Ready v, f', w'))"
| "ready_in p (Suc k) v f = (\<forall>w. \<exists>f' w'. p f w = Inr (Pending, f', w') \<and> ready_in p k v f')"

lemma ready_in_0D: "ready_in p 0 v f \<Longrightarrow> \<exists>f' w'. p f w = Inr (Ready v, f', w')"
  by simp

lemma ready_in_SucD: "ready_in p (Suc k) v f \<Longrightarrow> \<exists>f' w'. p f w = Inr (Pending, f', w') \<and> ready_in p k v f'"
  by simp

subsection \<open>\<open>std::cell::OnceCell\<close>\<close>

text \<open>
  The cell is a field of the state \<open>'s\<close>, read by \<open>get\<close> and written by \<open>put\<close>. The value of \<open>get_or_init\<close> is
  computed with the state, and the cell is looked at again when it is there: a cell filled in between is
  a reentrant initialisation.
\<close>

definition cell_set :: "('s \<Rightarrow> 'v option) \<Rightarrow> ('v \<Rightarrow> 's \<Rightarrow> 's) \<Rightarrow> 'v \<Rightarrow> 's \<Rightarrow> ('v + unit) \<times> 's" where
  "cell_set get put v s = (case get s of None \<Rightarrow> (Inr (), put v s) | Some _ \<Rightarrow> (Inl v, s))"

definition once_get_or_init :: "('s \<Rightarrow> 'v option) \<Rightarrow> ('v \<Rightarrow> 's \<Rightarrow> 's) \<Rightarrow> ('s \<Rightarrow> 'v run \<times> 's) \<Rightarrow> 's \<Rightarrow> 'v run \<times> 's" where
  "once_get_or_init get put f s =
     (case get s of
        Some v \<Rightarrow> (Inr v, s)
      | None \<Rightarrow>
          (case f s of
             (Inl e, s) \<Rightarrow> (Inl e, s)
           | (Inr v, s) \<Rightarrow>
               (case cell_set get put v s of
                  (Inl _, s) \<Rightarrow> (Inl (Panic ''reentrant init''), s)
                | (Inr _, s) \<Rightarrow> (Inr v, s))))"

subsection \<open>Circular index arithmetic\<close>

text \<open>The \<open>n\<close> consecutive slots of a ring of size \<open>m\<close> that start at slot \<open>t\<close>.\<close>

definition ring_slots :: "nat \<Rightarrow> nat \<Rightarrow> nat \<Rightarrow> nat list" where
  "ring_slots m t n = map (\<lambda>k. (t + k) mod m) [0..<n]"

lemma length_ring_slots [simp]: "length (ring_slots m t n) = n"
  by (simp add: ring_slots_def)

lemma ring_slots_nth [simp]: "k < n \<Longrightarrow> ring_slots m t n ! k = (t + k) mod m"
  by (simp add: ring_slots_def)

lemma ring_slots_0 [simp]: "ring_slots m t 0 = []"
  by (simp add: ring_slots_def)

lemma ring_slots_snoc: "ring_slots m t (Suc n) = ring_slots m t n @ [(t + n) mod m]"
  by (simp add: ring_slots_def)

lemma ring_slots_Cons:
  assumes "t < m"
  shows "ring_slots m t (Suc n) = t # ring_slots m (Suc t mod m) n"
proof (rule nth_equalityI)
  fix i assume "i < length (ring_slots m t (Suc n))"
  then show "ring_slots m t (Suc n) ! i = (t # ring_slots m (Suc t mod m) n) ! i"
    using assms by (cases i) (simp_all add: mod_simps del: upt_Suc)
qed simp

lemma ring_slots_bound: "0 < m \<Longrightarrow> i \<in> set (ring_slots m t n) \<Longrightarrow> i < m"
  by (auto simp: ring_slots_def)

lemma mod_less_bound: "(i::nat) < m \<Longrightarrow> j mod m < m"
  by (rule mod_less_divisor) simp

lemma mod_less_length: "i < length b \<Longrightarrow> j mod length b < length b"
  by (rule mod_less_bound)

lemma mod_add_inj:
  fixes m t j k :: nat
  assumes "j < m" "k < m" "(t + j) mod m = (t + k) mod m"
  shows "j = k"
proof -
  have *: "a = b" if "a \<le> b" "b < m" "(t + a) mod m = (t + b) mod m" for a b
  proof -
    from that(1,3) have "m dvd (t + b) - (t + a)" by (metis add_le_cancel_left mod_eq_dvd_iff_nat)
    with that(1) have "m dvd b - a" by simp
    with that(1,2) show ?thesis by (auto dest: dvd_imp_le)
  qed
  from assms show ?thesis using *[of j k] *[of k j] by (cases "j \<le> k") auto
qed

lemma mod_add_neq:
  fixes m t k :: nat
  assumes "0 < k" "k < m" "t < m"
  shows "(t + k) mod m \<noteq> t"
  using mod_add_inj[of k m 0 t] assms by auto

text \<open>Stepping the read index forward brings it closer to the write index.\<close>

lemma ring_distance_decreases:
  fixes m head tail :: nat
  assumes "head < m" "tail < m" "tail \<noteq> head"
  shows "(head + m - Suc tail mod m) mod m < (head + m - tail) mod m"
proof (cases "Suc tail = m")
  case True
  with assms have "Suc head < m" by auto
  with True have "(head + m - Suc tail mod m) mod m = head" "(head + m - tail) mod m = Suc head"
    by (auto simp: Suc_diff_le)
  then show ?thesis by simp
next
  case False
  with assms have t: "Suc tail mod m = Suc tail" by simp
  show ?thesis
  proof (cases "tail < head")
    case True
    have "(head + m - Suc tail) mod m = head - Suc tail" "(head + m - tail) mod m = head - tail"
      using True assms by (simp_all add: mod_if)
    with t True show ?thesis by simp
  next
    case False
    with assms have "head + m - tail < m" "head + m - Suc tail < head + m - tail" by auto
    with t show ?thesis by simp
  qed
qed

subsection \<open>Association lists\<close>

lemma set_delete_sub: "set (AList.delete k xs) \<subseteq> set xs"
  by (induction xs) auto

lemma set_update_sub: "set (AList.update k v xs) \<subseteq> insert (k, v) (set xs)"
  by (induction xs) auto

lemma mset_delete:
  "distinct (map fst xs) \<Longrightarrow> map_of xs k = Some v \<Longrightarrow> mset xs = add_mset (k, v) (mset (AList.delete k xs))"
proof (induction xs)
  case (Cons x xs)
  show ?case
  proof (cases "fst x = k")
    case True
    then have "AList.delete k xs = xs" using Cons.prems(1) by (intro delete_id) auto
    with True Cons.prems show ?thesis by (cases x) simp
  next
    case False
    with Cons show ?thesis by (cases x) auto
  qed
qed simp

lemma mset_update:
  "distinct (map fst xs) \<Longrightarrow> map_of xs k = Some v \<Longrightarrow> mset (AList.update k v' xs) = add_mset (k, v') (mset (AList.delete k xs))"
proof (induction xs)
  case (Cons x xs)
  show ?case
  proof (cases "fst x = k")
    case True
    then have "AList.delete k xs = xs" using Cons.prems(1) by (intro delete_id) auto
    with True Cons.prems show ?thesis by (cases x) simp
  next
    case False
    with Cons show ?thesis by (cases x) auto
  qed
qed simp

subsection \<open>Text\<close>

text \<open>The value of a decimal digit, as \<open>char::to_digit\<close> gives it.\<close>

definition digit_value :: "char \<Rightarrow> nat option" where
  "digit_value c = (let k = of_char c in if 48 \<le> k \<and> k \<le> 57 then Some (k - 48) else None)"

end
