(* ===== verification/Spsc.thy ===== *)
theory Spsc
  imports Prelude
begin

section \<open>The single-thread SPSC channel (\<open>pluvio_runtime/src/executor/spsc.rs\<close>)\<close>

text \<open>
  The ring buffer behind the executor's task queues. A slot of the boxed slice is an
  \<open>'a option\<close>: \<open>None\<close> is an uninitialised (or moved-out) \<open>MaybeUninit\<close>,
  \<open>Some v\<close> an initialised one, so that \<open>assume_init_read\<close> of a slot that holds
  nothing is the fault \<open>UB\<close>. One slot is always kept free as a sentinel.

  The theory holds the operations of \<open>Inner\<close>, \<open>Sender\<close> and \<open>Receiver\<close>, the
  representation invariant \<open>spsc_wf\<close>, the abstraction \<open>contents\<close> to a list, the
  refinement of every operation to the list queue, and the interface \<open>task_channel\<close>
  through which the executor uses the channel.
\<close>

subsection \<open>Error types\<close>

datatype 'a send_error = SendError 'a

datatype 'a try_send_error = TrySendFull 'a | TrySendDisconnected 'a

datatype recv_error = RecvError

datatype try_recv_error = TryRecvEmpty | TryRecvDisconnected

datatype recv_timeout_error = RecvTimeout | RecvTimeoutDisconnected

subsection \<open>The shared ring\<close>

record 'a inner =
  in_magic_start :: u64
  in_buf :: "'a option list"
  in_buf_len :: nat
  in_head :: nat
  in_tail :: nat
  in_unbounded :: bool
  in_sender_count :: nat
  in_receiver_alive :: bool
  in_magic_end :: u64

definition INNER_MAGIC_START :: u64 where
  "INNER_MAGIC_START = 0x535053434D414748"

definition INNER_MAGIC_END :: u64 where
  "INNER_MAGIC_END = 0x535053434D414754"

definition new_bounded :: "nat \<Rightarrow> 'a inner run" where
  "new_bounded cp =
     (if cp = 0 then Inl (Panic ''cap must be > 0'')
      else Inr \<lparr>in_magic_start = INNER_MAGIC_START,
        in_buf = replicate (cp + 1) None, in_buf_len = cp + 1,
        in_head = 0, in_tail = 0, in_unbounded = False,
        in_sender_count = 1, in_receiver_alive = True, in_magic_end = INNER_MAGIC_END\<rparr>)"

definition new_unbounded :: "nat \<Rightarrow> 'a inner" where
  "new_unbounded initial_cap =
     (let cp = max initial_cap 1
      in \<lparr>in_magic_start = INNER_MAGIC_START,
        in_buf = replicate (cp + 1) None, in_buf_len = cp + 1,
        in_head = 0, in_tail = 0, in_unbounded = True,
        in_sender_count = 1, in_receiver_alive = True, in_magic_end = INNER_MAGIC_END\<rparr>)"

definition any_sender_alive :: "'a inner \<Rightarrow> bool" where
  "any_sender_alive c = (0 < in_sender_count c)"

definition inc_sender :: "'a inner \<Rightarrow> 'a inner" where
  "inc_sender c = c\<lparr>in_sender_count := in_sender_count c + 1\<rparr>"

text \<open>\<open>saturating_sub\<close> on \<open>usize\<close> is truncating subtraction.\<close>

definition dec_sender :: "'a inner \<Rightarrow> 'a inner" where
  "dec_sender c = c\<lparr>in_sender_count := in_sender_count c - 1\<rparr>"

definition check_magic :: "string \<Rightarrow> 'a inner \<Rightarrow> unit run" where
  "check_magic whr c =
     (if in_magic_start c \<noteq> INNER_MAGIC_START \<or> in_magic_end c \<noteq> INNER_MAGIC_END
      then Inl (Abort whr) else Inr ())"

definition blen :: "'a inner \<Rightarrow> nat" where
  "blen c = length (in_buf c)"

definition ring_inc :: "'a inner \<Rightarrow> nat \<Rightarrow> nat" where
  "ring_inc c i =
     (let m = blen c
      in if m = 0 then 0
         else let i_mod = i mod m in if i_mod + 1 = m then 0 else i_mod + 1)"

definition inner_is_empty :: "'a inner \<Rightarrow> bool" where
  "inner_is_empty c = (in_head c = in_tail c)"

definition inner_is_full :: "'a inner \<Rightarrow> bool" where
  "inner_is_full c = (ring_inc c (in_head c) = in_tail c)"

definition inner_cap :: "'a inner \<Rightarrow> nat" where
  "inner_cap c = blen c - 1"

definition inner_len :: "'a inner \<Rightarrow> nat" where
  "inner_len c =
     (let h = in_head c; t = in_tail c; m = blen c
      in if m = 0 then 0
         else let h = h mod m; t = t mod m
              in if t \<le> h then h - t else m - t + h)"

text \<open>
  The copy loop of \<open>try_grow\<close>: \<open>n\<close> elements are moved out of the old buffer,
  from \<open>t\<close> on in ring order, and written to the new buffer from \<open>i\<close> on.
\<close>

fun grow_copy :: "'a inner \<Rightarrow> nat \<Rightarrow> nat \<Rightarrow> nat \<Rightarrow> 'a option list \<Rightarrow> 'a option list run" where
  "grow_copy c 0 i t new_buf = Inr new_buf"
| "grow_copy c (Suc n) i t new_buf =
     (if t < length (in_buf c) then
        case in_buf c ! t of
          None \<Rightarrow> Inl (UB ''assume_init_read of an uninitialised slot'')
        | Some v \<Rightarrow>
            (if i < length new_buf
             then grow_copy c n (Suc i) (ring_inc c t) (new_buf[i := Some v])
             else Inl (Panic ''index out of bounds''))
      else Inl (Panic ''index out of bounds''))"

definition try_grow :: "'a inner \<Rightarrow> 'a inner run" where
  "try_grow c =
     (if \<not> in_unbounded c \<or> \<not> inner_is_full c then Inr c
      else let old_len = blen c; old_cap = old_len - 1;
               new_cap = max (old_cap * 2) 2; new_len = new_cap + 1;
               new_buf = replicate new_len None;
               count = inner_len c
           in run_bind (grow_copy c count 0 (in_tail c) new_buf) (\<lambda>new_buf.
                Inr (c\<lparr>in_tail := 0, in_head := count, in_buf := new_buf,
                       in_buf_len := new_len\<rparr>)))"

definition write_at :: "'a inner \<Rightarrow> nat \<Rightarrow> 'a \<Rightarrow> 'a inner run" where
  "write_at c idx val =
     (let m = blen c
      in if m = 0 then Inl (Panic ''SPSC buffer is empty (len=0)'')
         else Inr (c\<lparr>in_buf := (in_buf c)[idx mod m := Some val]\<rparr>))"

text \<open>
  \<open>assume_init_read\<close> moves the value out: the slot is uninitialised afterwards, so a second
  read of it (which would duplicate a non-\<open>Copy\<close> value) is \<open>UB\<close> again.
\<close>

definition read_at :: "'a inner \<Rightarrow> nat \<Rightarrow> ('a \<times> 'a inner) run" where
  "read_at c idx =
     (let m = blen c
      in if m = 0 then Inl (Panic ''SPSC buffer is empty (len=0)'')
         else case in_buf c ! (idx mod m) of
                None \<Rightarrow> Inl (UB ''assume_init_read of an uninitialised slot'')
              | Some v \<Rightarrow> Inr (v, c\<lparr>in_buf := (in_buf c)[idx mod m := None]\<rparr>))"

text \<open>
  \<open>Drop for Inner\<close>: the loop from \<open>tail\<close> to \<open>head\<close> drops each element in place.
  The result is the list of dropped elements and the emptied ring.
\<close>

function drop_loop :: "'a option list \<Rightarrow> nat \<Rightarrow> nat \<Rightarrow> ('a list \<times> 'a option list) run" where
  "drop_loop b head tail =
     (let m = length b
      in if tail = head \<or> m \<le> head \<or> m \<le> tail then Inr ([], b)
         else case b ! tail of
                None \<Rightarrow> Inl (UB ''assume_init_drop of an uninitialised slot'')
              | Some v \<Rightarrow> run_bind (drop_loop (b[tail := None]) head ((tail + 1) mod m))
                  (\<lambda>(vs, b'). Inr (v # vs, b')))"
  by pat_completeness auto
termination
  by (relation "measure (\<lambda>(b, head, tail). (head + length b - tail) mod length b)")
    (auto simp: ring_distance_decreases)

definition drop_inner :: "'a inner \<Rightarrow> ('a list \<times> 'a inner) run" where
  "drop_inner c =
     (let m = blen c
      in if m = 0 then Inr ([], c)
         else let head = in_head c mod m; tail = in_tail c mod m
              in run_bind (drop_loop (in_buf c) head tail) (\<lambda>(vs, b).
                   Inr (vs, c\<lparr>in_buf := b, in_tail := head\<rparr>)))"

subsection \<open>Channel construction\<close>

definition bounded_channel :: "nat \<Rightarrow> 'a inner run" where
  "bounded_channel cp = new_bounded cp"

definition unbounded_channel :: "'a inner" where
  "unbounded_channel = new_unbounded 32"

subsection \<open>Sender\<close>

definition try_send :: "'a inner \<Rightarrow> 'a \<Rightarrow> (('a try_send_error + unit) \<times> 'a inner) run" where
  "try_send c msg =
     run_bind (check_magic ''Sender::try_send'' c) (\<lambda>_.
       if \<not> in_receiver_alive c then Inr (Inl (TrySendDisconnected msg), c)
       else run_bind (if inner_is_full c then try_grow c else Inr c) (\<lambda>c.
         if inner_is_full c then Inr (Inl (TrySendFull msg), c)
         else let h = in_head c
              in run_bind (write_at c h msg) (\<lambda>c.
                   Inr (Inr (), c\<lparr>in_head := ring_inc c h\<rparr>))))"

definition send :: "'a inner \<Rightarrow> 'a \<Rightarrow> (('a send_error + unit) \<times> 'a inner) run" where
  "send c msg =
     run_bind (try_send c msg) (\<lambda>(r, c).
       case r of
         Inr _ \<Rightarrow> Inr (Inr (), c)
       | Inl (TrySendDisconnected m) \<Rightarrow> Inr (Inl (SendError m), c)
       | Inl (TrySendFull m) \<Rightarrow> Inr (Inl (SendError m), c))"

definition sender_len :: "'a inner \<Rightarrow> nat" where
  "sender_len c = inner_len c"

definition sender_is_empty :: "'a inner \<Rightarrow> bool" where
  "sender_is_empty c = inner_is_empty c"

definition sender_is_disconnected :: "'a inner \<Rightarrow> bool" where
  "sender_is_disconnected c = (\<not> in_receiver_alive c)"

definition sender_capacity :: "'a inner \<Rightarrow> nat" where
  "sender_capacity c = inner_cap c"

definition drop_sender :: "'a inner \<Rightarrow> 'a inner" where
  "drop_sender c = dec_sender c"

definition clone_sender :: "'a inner \<Rightarrow> 'a inner" where
  "clone_sender c = inc_sender c"

subsection \<open>Receiver\<close>

definition try_recv :: "'a inner \<Rightarrow> ((try_recv_error + 'a) \<times> 'a inner) run" where
  "try_recv c =
     run_bind (check_magic ''Receiver::try_recv'' c) (\<lambda>_.
       if inner_is_empty c then
         (if \<not> any_sender_alive c then Inr (Inl TryRecvDisconnected, c)
          else Inr (Inl TryRecvEmpty, c))
       else let t = in_tail c
            in run_bind (read_at c t) (\<lambda>(v, c). Inr (Inr v, c\<lparr>in_tail := ring_inc c t\<rparr>)))"

text \<open>
  The spinning receives. The channel is not \<open>Send\<close>, so nothing else runs while the loop
  spins; \<open>None\<close> is a loop that never returns. \<open>clock k\<close> is the \<open>k\<close>-th reading
  of \<open>Instant::now()\<close>.
\<close>

partial_function (option) recv :: "'a inner \<Rightarrow> ((recv_error + 'a) \<times> 'a inner) run option" where
  "recv c =
     (case try_recv c of
        Inl e \<Rightarrow> Some (Inl e)
      | Inr (Inr v, c') \<Rightarrow> Some (Inr (Inr v, c'))
      | Inr (Inl TryRecvDisconnected, c') \<Rightarrow> Some (Inr (Inl RecvError, c'))
      | Inr (Inl TryRecvEmpty, c') \<Rightarrow> recv c')"

partial_function (option) recv_deadline ::
  "(nat \<Rightarrow> nat) \<Rightarrow> nat \<Rightarrow> 'a inner \<Rightarrow> nat \<Rightarrow> ((recv_timeout_error + 'a) \<times> 'a inner) run option" where
  "recv_deadline clock k c deadline =
     (case try_recv c of
        Inl e \<Rightarrow> Some (Inl e)
      | Inr (Inr v, c') \<Rightarrow> Some (Inr (Inr v, c'))
      | Inr (Inl TryRecvDisconnected, c') \<Rightarrow> Some (Inr (Inl RecvTimeoutDisconnected, c'))
      | Inr (Inl TryRecvEmpty, c') \<Rightarrow>
          (if deadline \<le> clock k then Some (Inr (Inl RecvTimeout, c'))
           else recv_deadline clock (Suc k) c' deadline))"

declare recv.simps [code] recv_deadline.simps [code]

definition recv_timeout ::
  "(nat \<Rightarrow> nat) \<Rightarrow> 'a inner \<Rightarrow> nat \<Rightarrow> ((recv_timeout_error + 'a) \<times> 'a inner) run option" where
  "recv_timeout clock c timeout = recv_deadline clock 1 c (clock 0 + timeout)"

definition receiver_len :: "'a inner \<Rightarrow> nat" where
  "receiver_len c = inner_len c"

definition receiver_is_empty :: "'a inner \<Rightarrow> bool" where
  "receiver_is_empty c = inner_is_empty c"

definition receiver_is_disconnected :: "'a inner \<Rightarrow> bool" where
  "receiver_is_disconnected c = (\<not> any_sender_alive c)"

definition receiver_capacity :: "'a inner \<Rightarrow> nat" where
  "receiver_capacity c = inner_cap c"

definition drop_receiver :: "'a inner \<Rightarrow> 'a inner" where
  "drop_receiver c = c\<lparr>in_receiver_alive := False\<rparr>"

text \<open>\<open>Clone for Receiver\<close> clones the \<open>Rc\<close> only: no count is kept of receivers.\<close>

definition clone_receiver :: "'a inner \<Rightarrow> 'a inner" where
  "clone_receiver c = c"

subsection \<open>Representation invariant and abstraction\<close>

text \<open>
  \<open>ring_rep b t xs\<close>: read in ring order from slot \<open>t\<close>, the buffer \<open>b\<close> holds
  exactly \<open>xs\<close>, every other slot is uninitialised, and the sentinel slot is free.
\<close>

definition ring_rep :: "'a option list \<Rightarrow> nat \<Rightarrow> 'a list \<Rightarrow> bool" where
  "ring_rep b t xs \<longleftrightarrow> t < length b \<and> length xs < length b \<and>
     (\<forall>k<length b. b ! ((t + k) mod length b) = (if k < length xs then Some (xs ! k) else None))"

definition contents :: "'a inner \<Rightarrow> 'a list" where
  "contents c = map (\<lambda>i. the (in_buf c ! i)) (ring_slots (blen c) (in_tail c) (inner_len c))"

definition spsc_rep :: "'a inner \<Rightarrow> 'a list \<Rightarrow> bool" where
  "spsc_rep c xs \<longleftrightarrow> in_magic_start c = INNER_MAGIC_START \<and> in_magic_end c = INNER_MAGIC_END \<and>
     in_buf_len c = blen c \<and> 2 \<le> blen c \<and>
     ring_rep (in_buf c) (in_tail c) xs \<and> in_head c = (in_tail c + length xs) mod blen c"

definition spsc_wf :: "'a inner \<Rightarrow> bool" where
  "spsc_wf c \<longleftrightarrow> spsc_rep c (contents c)"

named_theorems spsc_defs \<open>definitions of the observers of the ring\<close>

lemmas [spsc_defs] = blen_def ring_inc_def inner_is_empty_def inner_is_full_def inner_cap_def
  inner_len_def any_sender_alive_def Let_def

lemma spsc_rep_bounds:
  assumes "spsc_rep c xs"
  shows "in_head c < blen c" "in_tail c < blen c" "length xs < blen c" "2 \<le> blen c"
  using assms by (auto simp: spsc_rep_def ring_rep_def blen_def intro: mod_less_bound)

lemma ring_inc_eq: "0 < blen c \<Longrightarrow> ring_inc c i = Suc i mod blen c"
  by (simp add: ring_inc_def Let_def mod_Suc)

lemma mod_distance:
  fixes t n m :: nat
  assumes "t < m" "n < m"
  shows "(if t \<le> (t + n) mod m then (t + n) mod m - t else m - t + (t + n) mod m) = n"
  using assms by (cases "t + n < m") (auto simp: mod_if)

lemma inner_len_rep: "spsc_rep c xs \<Longrightarrow> inner_len c = length xs"
  using mod_distance[of "in_tail c" "blen c" "length xs"] spsc_rep_bounds[of c xs]
  by (auto simp: inner_len_def Let_def spsc_rep_def)

lemma contents_rep: "spsc_rep c xs \<Longrightarrow> contents c = xs"
  by (rule nth_equalityI)
    (simp_all add: contents_def inner_len_rep, auto simp: spsc_rep_def ring_rep_def blen_def)

lemma spsc_rep_iff: "spsc_rep c xs \<longleftrightarrow> spsc_wf c \<and> contents c = xs"
  by (auto simp: spsc_wf_def contents_rep)

lemma is_empty_rep: "spsc_rep c xs \<Longrightarrow> inner_is_empty c \<longleftrightarrow> xs = []"
proof -
  assume r: "spsc_rep c xs"
  note b = spsc_rep_bounds[OF r]
  have "in_head c = in_tail c \<longleftrightarrow> length xs = 0"
    using r b mod_add_inj[of "length xs" "blen c" 0 "in_tail c"] by (auto simp: spsc_rep_def)
  then show ?thesis by (simp add: inner_is_empty_def)
qed

lemma is_full_rep: "spsc_rep c xs \<Longrightarrow> inner_is_full c \<longleftrightarrow> length xs = inner_cap c"
proof -
  assume r: "spsc_rep c xs"
  note b = spsc_rep_bounds[OF r]
  have "ring_inc c (in_head c) = (in_tail c + Suc (length xs)) mod blen c"
    using r b by (simp add: ring_inc_eq spsc_rep_def mod_simps)
  moreover have "(in_tail c + Suc (length xs)) mod blen c = in_tail c \<longleftrightarrow> Suc (length xs) = blen c"
  proof (cases "Suc (length xs) < blen c")
    case True
    then show ?thesis using b mod_add_inj[of "Suc (length xs)" "blen c" 0 "in_tail c"] by auto
  next
    case False
    with b have "Suc (length xs) = blen c" by simp
    then show ?thesis using b by simp
  qed
  ultimately show ?thesis using b by (auto simp: inner_is_full_def inner_cap_def)
qed

subsection \<open>The slot updates\<close>

lemma ring_rep_snoc:
  assumes "ring_rep b t xs" "Suc (length xs) < length b"
  shows "ring_rep (b[(t + length xs) mod length b := Some v]) t (xs @ [v])"
proof -
  have "b[(t + length xs) mod length b := Some v] ! ((t + k) mod length b) =
      (if k < length (xs @ [v]) then Some ((xs @ [v]) ! k) else None)" if k: "k < length b" for k
  proof (cases "k = length xs")
    case True
    then show ?thesis using k mod_less_length[OF k, of "t + length xs"] by (simp add: nth_append)
  next
    case False
    then have "(t + k) mod length b \<noteq> (t + length xs) mod length b"
      using k assms mod_add_inj[of k "length b" "length xs" t] by auto
    then show ?thesis using k False assms by (auto simp: ring_rep_def nth_append less_Suc_eq)
  qed
  with assms show ?thesis by (auto simp: ring_rep_def)
qed

lemma ring_rep_tl:
  assumes "ring_rep b t (x # xs)"
  shows "b ! t = Some x" "ring_rep (b[t := None]) (Suc t mod length b) xs"
proof -
  have t: "t < length b" and l: "length xs < length b"
    and nth: "\<And>k. k < length b \<Longrightarrow> b ! ((t + k) mod length b) = (if k < Suc (length xs) then Some ((x # xs) ! k) else None)"
    using assms by (auto simp: ring_rep_def)
  show "b ! t = Some x" using nth[of 0] t by (cases b) auto
  have "b[t := None] ! ((Suc t mod length b + k) mod length b) =
      (if k < length xs then Some (xs ! k) else None)" if k: "k < length b" for k
  proof (cases "Suc k = length b")
    case True
    have "(Suc t mod length b + k) mod length b = (Suc t + k) mod length b" by (rule mod_add_left_eq)
    also have "Suc t + k = t + length b" using True by simp
    finally have "(Suc t mod length b + k) mod length b = t" using t by simp
    then show ?thesis using t l k True by auto
  next
    case False
    with k t have "(t + Suc k) mod length b \<noteq> t" by (intro mod_add_neq) auto
    moreover have "(Suc t mod length b + k) mod length b = (t + Suc k) mod length b"
      by (simp add: mod_simps)
    ultimately show ?thesis using nth[of "Suc k"] k False by auto
  qed
  with t l show "ring_rep (b[t := None]) (Suc t mod length b) xs"
    by (auto simp: ring_rep_def intro: mod_less_bound)
qed

subsection \<open>Refinement of the operations to the list queue\<close>

lemma ring_rep_replicate: "t < n \<Longrightarrow> ring_rep (replicate n None) t []"
  by (auto simp: ring_rep_def mod_less_bound)

lemma new_unbounded_rep: "spsc_rep (new_unbounded cp) []"
  by (simp add: new_unbounded_def spsc_rep_def ring_rep_replicate blen_def Let_def del: replicate_Suc)

lemma new_bounded_rep: "0 < cp \<Longrightarrow> \<exists>c. new_bounded cp = Inr c \<and> spsc_rep c [] \<and> inner_cap c = cp"
  by (simp add: new_bounded_def spsc_rep_def ring_rep_replicate blen_def inner_cap_def del: replicate_Suc)

lemma check_magic_rep: "spsc_rep c xs \<Longrightarrow> check_magic w c = Inr ()"
  by (simp add: check_magic_def spsc_rep_def)

text \<open>The copy loop moves the elements, in order, to the front of the new buffer.\<close>

lemma grow_copy_rep:
  assumes "\<And>k. k < length ys \<Longrightarrow> in_buf c ! ((t + k) mod blen c) = Some (ys ! k)"
    and "t < blen c" and "i + length ys \<le> length nb"
  shows "grow_copy c (length ys) i t nb = Inr (take i nb @ map Some ys @ drop (i + length ys) nb)"
  using assms
proof (induction ys arbitrary: i t nb)
  case Nil
  then show ?case by simp
next
  case (Cons y ys)
  have t: "t < length (in_buf c)" and y: "in_buf c ! t = Some y"
    using Cons.prems(1)[of 0] Cons.prems(2) by (auto simp: blen_def)
  have inc: "ring_inc c t = Suc t mod blen c" using Cons.prems(2) by (intro ring_inc_eq) auto
  have "grow_copy c (length ys) (Suc i) (ring_inc c t) (nb[i := Some y]) =
      Inr (take (Suc i) (nb[i := Some y]) @ map Some ys @ drop (Suc i + length ys) (nb[i := Some y]))"
  proof (rule Cons.IH)
    show "in_buf c ! ((ring_inc c t + k) mod blen c) = Some (ys ! k)" if "k < length ys" for k
      using Cons.prems(1)[of "Suc k"] that by (simp add: inc mod_simps)
    show "ring_inc c t < blen c" unfolding inc by (rule mod_less_bound[OF Cons.prems(2)])
    show "Suc i + length ys \<le> length (nb[i := Some y])" using Cons.prems(3) by simp
  qed
  with t y Cons.prems(3) show ?case
    by (simp add: take_Suc_conv_app_nth)
qed

lemma try_grow_noop: "\<not> in_unbounded c \<or> \<not> inner_is_full c \<Longrightarrow> try_grow c = Inr c"
  by (auto simp: try_grow_def)

lemma try_grow_rep:
  assumes r: "spsc_rep c xs" and "in_unbounded c" and "inner_is_full c"
  obtains c' where "try_grow c = Inr c'" "spsc_rep c' xs" "inner_cap c' = max (inner_cap c * 2) 2"
    "in_unbounded c'" "in_sender_count c' = in_sender_count c" "in_receiver_alive c' = in_receiver_alive c"
proof -
  note b = spsc_rep_bounds[OF r]
  let ?n = "max (inner_cap c * 2) 2 + 1"
  let ?nb = "map Some xs @ drop (length xs) (replicate ?n None)"
  let ?c = "c\<lparr>in_tail := 0, in_head := length xs, in_buf := ?nb, in_buf_len := ?n\<rparr>"
  have len: "length xs < ?n" using b by (auto simp: inner_cap_def)
  have "grow_copy c (length xs) 0 (in_tail c) (replicate ?n None) = Inr ?nb"
    using grow_copy_rep[of xs c "in_tail c" 0 "replicate ?n None"] r b len
    by (auto simp: spsc_rep_def ring_rep_def blen_def)
  then have g: "try_grow c = Inr ?c"
    using assms by (simp add: try_grow_def Let_def inner_len_rep inner_cap_def)
  have "ring_rep ?nb 0 xs"
    using len by (auto simp: ring_rep_def nth_append simp del: replicate_Suc drop_replicate)
  with r b len have "spsc_rep ?c xs" by (auto simp: spsc_rep_def blen_def)
  moreover have "inner_cap ?c = max (inner_cap c * 2) 2" using len by (simp add: inner_cap_def blen_def)
  ultimately show thesis using that[OF g] assms by simp
qed

lemma write_at_head_rep:
  assumes r: "spsc_rep c xs" and "\<not> inner_is_full c"
  shows "\<exists>c'. write_at c (in_head c) v = Inr c' \<and> in_head c' = in_head c \<and>
    spsc_rep (c'\<lparr>in_head := ring_inc c' (in_head c)\<rparr>) (xs @ [v]) \<and> blen c' = blen c \<and>
    in_unbounded c' = in_unbounded c \<and> in_sender_count c' = in_sender_count c \<and>
    in_receiver_alive c' = in_receiver_alive c"
proof -
  note b = spsc_rep_bounds[OF r]
  let ?c = "c\<lparr>in_buf := (in_buf c)[in_head c := Some v]\<rparr>"
  have "write_at c (in_head c) v = Inr ?c"
    using b by (simp add: write_at_def Let_def)
  moreover have "Suc (length xs) < length (in_buf c)"
    using b assms is_full_rep[OF r] by (auto simp: inner_cap_def blen_def)
  then have "ring_rep ((in_buf c)[in_head c := Some v]) (in_tail c) (xs @ [v])"
    using r ring_rep_snoc[of "in_buf c" "in_tail c" xs v] by (simp add: spsc_rep_def blen_def)
  then have "spsc_rep (?c\<lparr>in_head := ring_inc ?c (in_head c)\<rparr>) (xs @ [v])"
    using r b by (auto simp: spsc_rep_def ring_inc_def blen_def Let_def mod_Suc mod_simps)
  ultimately show ?thesis by (auto simp: blen_def)
qed

lemma try_send_disconnected:
  "spsc_rep c xs \<Longrightarrow> \<not> in_receiver_alive c \<Longrightarrow> try_send c v = Inr (Inl (TrySendDisconnected v), c)"
  by (simp add: try_send_def check_magic_rep)

lemma try_send_full:
  "spsc_rep c xs \<Longrightarrow> in_receiver_alive c \<Longrightarrow> \<not> in_unbounded c \<Longrightarrow> length xs = inner_cap c \<Longrightarrow>
   try_send c v = Inr (Inl (TrySendFull v), c)"
  by (simp add: try_send_def check_magic_rep is_full_rep try_grow_noop)

text \<open>
  The channel is refined to the list queue: \<open>same_channel\<close> says that the part of the state
  beside the queue is unchanged.
\<close>

definition same_channel :: "'a inner \<Rightarrow> 'a inner \<Rightarrow> bool" where
  "same_channel c c' \<longleftrightarrow> in_unbounded c' = in_unbounded c \<and>
     in_sender_count c' = in_sender_count c \<and> in_receiver_alive c' = in_receiver_alive c"

lemma same_channel_refl [simp]: "same_channel c c"
  by (simp add: same_channel_def)

lemma same_channel_trans: "same_channel a b \<Longrightarrow> same_channel b c \<Longrightarrow> same_channel a c"
  by (simp add: same_channel_def)

lemma try_send_no_grow:
  assumes r: "spsc_rep c xs" and "in_receiver_alive c" and nf: "\<not> inner_is_full c"
  shows "\<exists>c'. try_send c v = Inr (Inr (), c') \<and> spsc_rep c' (xs @ [v]) \<and> same_channel c c' \<and>
    inner_cap c' = inner_cap c"
proof -
  from write_at_head_rep[OF r nf, of v] obtain c' where
    "write_at c (in_head c) v = Inr c'" "in_head c' = in_head c"
    "spsc_rep (c'\<lparr>in_head := ring_inc c' (in_head c)\<rparr>) (xs @ [v])" "blen c' = blen c"
    "in_unbounded c' = in_unbounded c" "in_sender_count c' = in_sender_count c"
    "in_receiver_alive c' = in_receiver_alive c" by blast
  with assms show ?thesis
    by (simp add: try_send_def check_magic_rep Let_def same_channel_def inner_cap_def blen_def)
qed

lemma try_send_ok:
  assumes r: "spsc_rep c xs" and "in_receiver_alive c" and "in_unbounded c \<or> length xs < inner_cap c"
  shows "\<exists>c'. try_send c v = Inr (Inr (), c') \<and> spsc_rep c' (xs @ [v]) \<and> same_channel c c'"
proof (cases "inner_is_full c")
  case False
  with try_send_no_grow[OF r assms(2)] show ?thesis by blast
next
  case True
  with r assms(3) have u: "in_unbounded c" by (auto simp: is_full_rep)
  from try_grow_rep[OF r u True] obtain c1 where g: "try_grow c = Inr c1" "spsc_rep c1 xs"
    "inner_cap c1 = max (inner_cap c * 2) 2" "same_channel c c1"
    using u by (auto simp: same_channel_def)
  have "length xs = inner_cap c" using True r by (simp add: is_full_rep)
  then have nf: "\<not> inner_is_full c1"
    using g spsc_rep_bounds[OF r] by (auto simp: is_full_rep inner_cap_def)
  have ra: "in_receiver_alive c1" using g assms(2) by (simp add: same_channel_def)
  from try_send_no_grow[OF g(2) ra nf, of v] obtain c2 where c2: "try_send c1 v = Inr (Inr (), c2)"
    "spsc_rep c2 (xs @ [v])" "same_channel c1 c2" by blast
  have "try_send c v = try_send c1 v"
    using True nf g r assms(2) ra by (simp add: try_send_def check_magic_rep)
  with c2 g show ?thesis by (auto intro: same_channel_trans)
qed

lemma send_ok:
  assumes "spsc_rep c xs" "in_receiver_alive c" "in_unbounded c \<or> length xs < inner_cap c"
  shows "\<exists>c'. send c v = Inr (Inr (), c') \<and> spsc_rep c' (xs @ [v]) \<and> same_channel c c'"
  using try_send_ok[OF assms, of v] by (auto simp: send_def)

lemma try_recv_empty:
  "spsc_rep c [] \<Longrightarrow>
   try_recv c = Inr (Inl (if any_sender_alive c then TryRecvEmpty else TryRecvDisconnected), c)"
  by (simp add: try_recv_def check_magic_rep is_empty_rep)

lemma try_recv_Cons:
  assumes r: "spsc_rep c (x # xs)"
  shows "\<exists>c'. try_recv c = Inr (Inr x, c') \<and> spsc_rep c' xs \<and> same_channel c c' \<and>
    inner_cap c' = inner_cap c"
proof -
  note b = spsc_rep_bounds[OF r]
  let ?c = "c\<lparr>in_buf := (in_buf c)[in_tail c := None]\<rparr>"
  have rr: "ring_rep (in_buf c) (in_tail c) (x # xs)" using r by (simp add: spsc_rep_def)
  note tl = ring_rep_tl[OF rr]
  have "read_at c (in_tail c) = Inr (x, ?c)"
    using b tl by (simp add: read_at_def Let_def)
  moreover have "ring_inc ?c (in_tail c) = Suc (in_tail c) mod length (in_buf c)"
    using b by (subst ring_inc_eq) (auto simp: blen_def)
  then have "spsc_rep (?c\<lparr>in_tail := ring_inc ?c (in_tail c)\<rparr>) xs"
    using r b tl by (simp add: spsc_rep_def blen_def mod_simps)
  ultimately show ?thesis
    using r by (simp add: try_recv_def check_magic_rep is_empty_rep Let_def same_channel_def inner_cap_def blen_def)
qed

lemma spsc_rep_counts [simp]:
  "spsc_rep (inc_sender c) xs = spsc_rep c xs"
  "spsc_rep (dec_sender c) xs = spsc_rep c xs"
  "spsc_rep (drop_receiver c) xs = spsc_rep c xs"
  by (simp_all add: inc_sender_def dec_sender_def drop_receiver_def spsc_rep_def blen_def)

lemma contents_counts [simp]:
  "contents (inc_sender c) = contents c"
  "contents (dec_sender c) = contents c"
  by (simp_all add: inc_sender_def dec_sender_def contents_def inner_len_def blen_def)

text \<open>Dropping the ring drops exactly the queued elements, each once, in order.\<close>

lemma drop_loop_rep:
  "ring_rep b t xs \<Longrightarrow> h = (t + length xs) mod length b \<Longrightarrow>
   drop_loop b h t = Inr (xs, replicate (length b) None)"
proof (induction xs arbitrary: b t)
  case Nil
  have "b ! k = None" if k: "k < length b" for k
  proof -
    have "(t + (k + length b - t)) mod length b = k"
      using k Nil.prems(1) by (simp add: ring_rep_def)
    then have "(t + (k + length b - t) mod length b) mod length b = k"
      by (simp add: mod_simps)
    with Nil.prems(1) k mod_less_length[OF k] show ?thesis
      by (metis (no_types, lifting) list.size(3) not_less_zero ring_rep_def)
  qed
  then have "b = replicate (length b) None" by (intro nth_equalityI) auto
  with Nil.prems show ?case by (auto simp: ring_rep_def)
next
  case (Cons x xs)
  note tl = ring_rep_tl[OF Cons.prems(1)]
  have b: "t < length b" "Suc (length xs) < length b" using Cons.prems(1) by (auto simp: ring_rep_def)
  have h: "h < length b" "h \<noteq> t"
    using Cons.prems(2) b mod_less_length[OF b(1)] mod_add_neq[of "Suc (length xs)" "length b" t] by simp_all
  have "drop_loop (b[t := None]) h (Suc t mod length b) = Inr (xs, replicate (length b) None)"
    using Cons.IH[OF tl(2)] Cons.prems(2) by (simp add: mod_simps)
  with b h tl show ?case by (subst drop_loop.simps) (auto simp: Let_def)
qed

lemma drop_inner_rep:
  assumes "spsc_rep c xs"
  shows "\<exists>c'. drop_inner c = Inr (xs, c') \<and> spsc_rep c' []"
proof -
  note b = spsc_rep_bounds[OF assms]
  have "drop_loop (in_buf c) (in_head c) (in_tail c) = Inr (xs, replicate (blen c) None)"
    using assms drop_loop_rep[of "in_buf c" "in_tail c" xs "in_head c"] by (simp add: spsc_rep_def blen_def)
  with assms b show ?thesis
    by (auto simp: drop_inner_def Let_def spsc_rep_def ring_rep_replicate blen_def)
qed

declare drop_loop.simps [simp del]

subsection \<open>The blocking receives\<close>

lemma recv_Cons: "spsc_rep c (x # xs) \<Longrightarrow> \<exists>c'. recv c = Some (Inr (Inr x, c')) \<and> spsc_rep c' xs"
  using try_recv_Cons[of c x xs] by (subst recv.simps) auto

lemma recv_disconnected: "spsc_rep c [] \<Longrightarrow> \<not> any_sender_alive c \<Longrightarrow> recv c = Some (Inr (Inl RecvError, c))"
  by (subst recv.simps) (simp add: try_recv_empty)

lemma recv_hangs:
  assumes "spsc_rep c []" "any_sender_alive c"
  shows "recv c = None"
proof (rule ccontr)
  assume "recv c \<noteq> None"
  then obtain r where ret: "recv c = Some r" by auto
  have "\<not> (spsc_rep c [] \<and> any_sender_alive c)"
  proof (rule recv.raw_induct[where P = "\<lambda>c r. \<not> (spsc_rep c [] \<and> any_sender_alive c)", OF _ ret])
    fix f :: "'a inner \<Rightarrow> ((recv_error + 'a) \<times> 'a inner) run option" and c r
    assume IH: "\<And>c r. f c = Some r \<Longrightarrow> \<not> (spsc_rep c [] \<and> any_sender_alive c)"
      and eq: "(case try_recv c of
        Inl e \<Rightarrow> Some (Inl e)
      | Inr (Inl TryRecvEmpty, c') \<Rightarrow> f c'
      | Inr (Inl TryRecvDisconnected, c') \<Rightarrow> Some (Inr (Inl RecvError, c'))
      | Inr (Inr v, c') \<Rightarrow> Some (Inr (Inr v, c'))) = Some r"
    show "\<not> (spsc_rep c [] \<and> any_sender_alive c)"
    proof
      assume "spsc_rep c [] \<and> any_sender_alive c"
      moreover from this eq have "f c = Some r" by (simp add: try_recv_empty)
      ultimately show False using IH by blast
    qed
  qed
  with assms show False by blast
qed

lemma recv_deadline_returns:
  assumes "spsc_rep c xs" "k \<le> j" "deadline \<le> clock j"
  shows "\<exists>r c'. recv_deadline clock k c deadline = Some (Inr (r, c')) \<and>
    (case xs of x # _ \<Rightarrow> r = Inr x
     | [] \<Rightarrow> r = Inl (if any_sender_alive c then RecvTimeout else RecvTimeoutDisconnected) \<and> c' = c)"
proof (cases xs)
  case (Cons y ys)
  with assms(1) try_recv_Cons[of c y ys] show ?thesis by (subst recv_deadline.simps) auto
next
  case Nil
  with assms(2,3) show ?thesis
  proof (induction rule: inc_induct)
    case base
    with Nil assms(1) show ?case by (subst recv_deadline.simps) (auto simp: try_recv_empty)
  next
    case (step k)
    with Nil assms(1) show ?case by (subst recv_deadline.simps) (auto simp: try_recv_empty)
  qed
qed

subsection \<open>The interface the executor uses\<close>

text \<open>
  The executor only sends to the two task queues and drains them with \<open>try_recv\<close>. The
  interface \<open>task_channel\<close> states what it relies on: a send appends, a receive pops the front,
  none of them faults on a well-formed queue and each keeps it well-formed.
  \<open>chan_drain\<close> is the loop \<open>while let Ok(id) = receiver.try_recv()\<close> and
  \<open>chan_take\<close> the batch loop that stops after \<open>n\<close> receives.
\<close>

fun chan_take :: "('c \<Rightarrow> ('a option \<times> 'c) run) \<Rightarrow> nat \<Rightarrow> 'c \<Rightarrow> ('a list \<times> 'c) run" where
  "chan_take rcv 0 c = Inr ([], c)"
| "chan_take rcv (Suc n) c =
     run_bind (rcv c) (\<lambda>(r, c).
       case r of
         None \<Rightarrow> Inr ([], c)
       | Some v \<Rightarrow> run_bind (chan_take rcv n c) (\<lambda>(vs, c). Inr (v # vs, c)))"

partial_function (option) chan_drain ::
  "('c \<Rightarrow> ('a option \<times> 'c) run) \<Rightarrow> 'a list \<Rightarrow> 'c \<Rightarrow> ('a list \<times> 'c) run option" where
  "chan_drain rcv acc c =
     (case rcv c of
        Inl e \<Rightarrow> Some (Inl e)
      | Inr (None, c') \<Rightarrow> Some (Inr (acc, c'))
      | Inr (Some v, c') \<Rightarrow> chan_drain rcv (acc @ [v]) c')"

declare chan_drain.simps [code]

locale task_channel =
  fixes wf :: "'c \<Rightarrow> bool"
    and cont :: "'c \<Rightarrow> 'a list"
    and enq :: "'c \<Rightarrow> 'a \<Rightarrow> 'c run"
    and deq :: "'c \<Rightarrow> ('a option \<times> 'c) run"
  assumes enq_law: "wf c \<Longrightarrow> \<exists>c'. enq c v = Inr c' \<and> wf c' \<and> cont c' = cont c @ [v]"
    and deq_empty: "wf c \<Longrightarrow> cont c = [] \<Longrightarrow> deq c = Inr (None, c)"
    and deq_Cons: "wf c \<Longrightarrow> cont c = v # vs \<Longrightarrow> \<exists>c'. deq c = Inr (Some v, c') \<and> wf c' \<and> cont c' = vs"
begin

lemma take_spec:
  "wf c \<Longrightarrow> \<exists>c'. chan_take deq n c = Inr (take n (cont c), c') \<and> wf c' \<and> cont c' = drop n (cont c)"
proof (induction n arbitrary: c)
  case (Suc n)
  show ?case
  proof (cases "cont c")
    case Nil
    with Suc.prems deq_empty[of c] show ?thesis by auto
  next
    case (Cons v vs)
    from deq_Cons[OF Suc.prems this] obtain c1 where "deq c = Inr (Some v, c1)" "wf c1" "cont c1 = vs"
      by blast
    with Suc.IH[of c1] Cons show ?thesis by auto
  qed
qed auto

lemma drain_spec:
  "wf c \<Longrightarrow> \<exists>c'. chan_drain deq acc c = Some (Inr (acc @ cont c, c')) \<and> wf c' \<and> cont c' = []"
proof (induction "cont c" arbitrary: c acc)
  case Nil
  with deq_empty[of c] show ?case by (subst chan_drain.simps) auto
next
  case (Cons v vs)
  from deq_Cons[OF Cons.prems Cons.hyps(2)[symmetric]] obtain c1 where
    c1: "deq c = Inr (Some v, c1)" "wf c1" "cont c1 = vs" by blast
  with Cons.hyps(1)[of c1 "acc @ [v]"] Cons.hyps(2)[symmetric] show ?case
    by (subst chan_drain.simps) auto
qed

end

text \<open>The executor's view of the two ends: \<open>send(..).expect(..)\<close> and \<open>if let Ok(v) = try_recv()\<close>.\<close>

definition send_expect :: "'a inner \<Rightarrow> 'a \<Rightarrow> 'a inner run" where
  "send_expect c v =
     run_bind (send c v) (\<lambda>(r, c).
       case r of Inr _ \<Rightarrow> Inr c | Inl _ \<Rightarrow> Inl (Panic ''Failed to send task''))"

definition recv_ok :: "'a inner \<Rightarrow> ('a option \<times> 'a inner) run" where
  "recv_ok c =
     run_bind (try_recv c) (\<lambda>(r, c).
       case r of Inr v \<Rightarrow> Inr (Some v, c) | Inl _ \<Rightarrow> Inr (None, c))"

definition queue_wf :: "'a inner \<Rightarrow> bool" where
  "queue_wf c \<longleftrightarrow> spsc_wf c \<and> in_unbounded c \<and> in_receiver_alive c"

lemma queue_wf_rep: "queue_wf c \<longleftrightarrow> spsc_rep c (contents c) \<and> in_unbounded c \<and> in_receiver_alive c"
  by (simp add: queue_wf_def spsc_wf_def)

interpretation spsc_chan: task_channel queue_wf contents send_expect recv_ok
proof
  fix c :: "'a inner" and v
  assume "queue_wf c"
  then have "spsc_rep c (contents c)" "in_unbounded c" "in_receiver_alive c" by (simp_all add: queue_wf_rep)
  from send_ok[OF this(1,3), of v] this show
    "\<exists>c'. send_expect c v = Inr c' \<and> queue_wf c' \<and> contents c' = contents c @ [v]"
    by (auto simp: send_expect_def queue_wf_def spsc_rep_iff same_channel_def)
next
  fix c :: "'a inner"
  assume "queue_wf c" "contents c = []"
  then have "spsc_rep c []" by (simp add: queue_wf_rep)
  then show "recv_ok c = Inr (None, c)" by (simp add: recv_ok_def try_recv_empty)
next
  fix c :: "'a inner" and v vs
  assume a: "queue_wf c" "contents c = v # vs"
  then have "spsc_rep c (v # vs)" by (simp add: queue_wf_rep)
  from try_recv_Cons[OF this] a show "\<exists>c'. recv_ok c = Inr (Some v, c') \<and> queue_wf c' \<and> contents c' = vs"
    by (auto simp: recv_ok_def queue_wf_def spsc_rep_iff same_channel_def)
qed

lemma queue_wf_unbounded_channel:
  "queue_wf (unbounded_channel :: 'a inner)" "contents (unbounded_channel :: 'a inner) = []"
  using new_unbounded_rep[of 32, where 'a = 'a]
  by (auto simp: queue_wf_def spsc_rep_iff unbounded_channel_def new_unbounded_def Let_def)

lemma queue_wf_counts [simp]: "queue_wf (inc_sender c) = queue_wf c" "queue_wf (dec_sender c) = queue_wf c"
  by (simp_all add: queue_wf_rep) (simp_all add: inc_sender_def dec_sender_def)

subsection \<open>Histories\<close>

text \<open>
  A history of calls on one channel, in the order the thread makes them. \<open>chan_run\<close> answers
  the messages accepted, the messages received and the final channel.
\<close>

datatype 'a chan_op = OpTrySend 'a | OpTryRecv | OpCloneSender | OpDropSender | OpDropReceiver

fun chan_run :: "'a chan_op list \<Rightarrow> 'a inner \<Rightarrow> ('a list \<times> 'a list \<times> 'a inner) run" where
  "chan_run [] c = Inr ([], [], c)"
| "chan_run (OpTrySend v # os) c =
     run_bind (try_send c v) (\<lambda>(r, c). run_bind (chan_run os c) (\<lambda>(snt, rcvd, c).
       Inr (case r of Inr _ \<Rightarrow> v # snt | Inl _ \<Rightarrow> snt, rcvd, c)))"
| "chan_run (OpTryRecv # os) c =
     run_bind (try_recv c) (\<lambda>(r, c). run_bind (chan_run os c) (\<lambda>(snt, rcvd, c).
       Inr (snt, case r of Inr v \<Rightarrow> v # rcvd | Inl _ \<Rightarrow> rcvd, c)))"
| "chan_run (OpCloneSender # os) c = chan_run os (clone_sender c)"
| "chan_run (OpDropSender # os) c = chan_run os (drop_sender c)"
| "chan_run (OpDropReceiver # os) c = chan_run os (drop_receiver c)"

text \<open>The sender handles after a history, from those before it.\<close>

fun senders_after :: "'a chan_op list \<Rightarrow> nat \<Rightarrow> nat" where
  "senders_after [] k = k"
| "senders_after (OpCloneSender # os) k = senders_after os (k + 1)"
| "senders_after (OpDropSender # os) k = senders_after os (k - 1)"
| "senders_after (_ # os) k = senders_after os k"

subsection \<open>Properties of the channel\<close>

text \<open>
  The abstract channel: a list with an optional bound. \<open>q_send\<close> is what a send must answer.
\<close>

definition q_send :: "bool \<Rightarrow> nat option \<Rightarrow> 'a list \<Rightarrow> 'a \<Rightarrow> ('a try_send_error + unit) \<times> 'a list" where
  "q_send alive bound xs v =
     (if \<not> alive then (Inl (TrySendDisconnected v), xs)
      else case bound of
        Some n \<Rightarrow> if n \<le> length xs then (Inl (TrySendFull v), xs) else (Inr (), xs @ [v])
      | None \<Rightarrow> (Inr (), xs @ [v]))"

definition q_recv :: "bool \<Rightarrow> 'a list \<Rightarrow> (try_recv_error + 'a) \<times> 'a list" where
  "q_recv senders xs =
     (case xs of
        [] \<Rightarrow> (Inl (if senders then TryRecvEmpty else TryRecvDisconnected), [])
      | x # xs \<Rightarrow> (Inr x, xs))"

definition chan_bound :: "'a inner \<Rightarrow> nat option" where
  "chan_bound c = (if in_unbounded c then None else Some (inner_cap c))"

text \<open>
  C8 (refinement). On every well-formed channel \<open>try_send\<close> neither panics, aborts nor touches
  uninitialised memory, keeps the channel well-formed, and answers exactly what the abstract bounded
  (or unbounded) list queue answers: disconnected when the receiver is gone, full exactly at the
  capacity of a bounded channel, otherwise the message is appended, across the growth of an
  unbounded ring included. Capacity, flavour and reference counts are unchanged.
\<close>

theorem try_send_refines:
  assumes "spsc_wf c"
  shows "\<exists>r c'. try_send c v = Inr (r, c') \<and> spsc_wf c' \<and> same_channel c c' \<and>
    chan_bound c' = chan_bound c \<and>
    (r, contents c') = q_send (in_receiver_alive c) (chan_bound c) (contents c) v"
proof -
  from assms have r: "spsc_rep c (contents c)" by (simp add: spsc_wf_def)
  consider "\<not> in_receiver_alive c"
    | "in_receiver_alive c" "in_unbounded c"
    | "in_receiver_alive c" "\<not> in_unbounded c" "length (contents c) = inner_cap c"
    | "in_receiver_alive c" "\<not> in_unbounded c" "length (contents c) < inner_cap c"
    using spsc_rep_bounds(3)[OF r] by (fastforce simp: inner_cap_def)
  then show ?thesis
  proof cases
    case 1
    with assms try_send_disconnected[OF r] show ?thesis by (simp add: q_send_def)
  next
    case 2
    with try_send_ok[OF r, of v] show ?thesis
      by (auto simp: q_send_def chan_bound_def spsc_rep_iff same_channel_def)
  next
    case 3
    with assms try_send_full[OF r] show ?thesis by (simp add: q_send_def chan_bound_def)
  next
    case 4
    with r have "\<not> inner_is_full c" by (simp add: is_full_rep)
    from try_send_no_grow[OF r 4(1) this, of v] 4 show ?thesis
      by (auto simp: q_send_def chan_bound_def spsc_rep_iff same_channel_def)
  qed
qed

text \<open>
  C9 (refinement). On every well-formed channel \<open>try_recv\<close> does not fault and answers what the
  list queue answers: the oldest message if there is one, otherwise \<open>Empty\<close> while a sender
  lives and \<open>Disconnected\<close> after the last one is dropped.
\<close>

theorem try_recv_refines:
  assumes "spsc_wf c"
  shows "\<exists>r c'. try_recv c = Inr (r, c') \<and> spsc_wf c' \<and> same_channel c c' \<and>
    chan_bound c' = chan_bound c \<and>
    (r, contents c') = q_recv (any_sender_alive c) (contents c)"
proof (cases "contents c")
  case Nil
  with assms have "spsc_rep c []" by (simp add: spsc_rep_iff)
  with assms Nil show ?thesis by (simp add: try_recv_empty q_recv_def)
next
  case (Cons x xs)
  with assms have "spsc_rep c (x # xs)" by (simp add: spsc_rep_iff)
  from try_recv_Cons[OF this] Cons show ?thesis
    by (auto simp: q_recv_def spsc_rep_iff same_channel_def chan_bound_def)
qed

text \<open>C1 at a full bounded channel of capacity one: the second send is refused.\<close>

theorem try_send_refines_witness:
  "\<exists>c. new_bounded 1 = Inr c \<and> spsc_wf c \<and>
     (\<exists>r c'. try_send c (7::nat) = Inr (r, c') \<and> contents c' = [7] \<and> r = Inr ())"
proof -
  obtain c :: "nat inner" where c: "new_bounded 1 = Inr c" "spsc_rep c []" "inner_cap c = 1"
    using new_bounded_rep[of 1] by auto
  then have "spsc_wf c" "contents c = []" "in_receiver_alive c" "chan_bound c = Some 1"
    by (auto simp: spsc_rep_iff new_bounded_def chan_bound_def)
  with try_send_refines[of c 7] c show ?thesis by (auto simp: q_send_def)
qed

theorem try_recv_refines_witness:
  "spsc_wf (unbounded_channel :: nat inner) \<and>
   (\<exists>r c'. try_recv (unbounded_channel :: nat inner) = Inr (r, c') \<and> r = Inl TryRecvEmpty)"
proof -
  have "spsc_wf (unbounded_channel :: nat inner)" "contents (unbounded_channel :: nat inner) = []"
    using queue_wf_unbounded_channel by (auto simp: queue_wf_def)
  moreover have "any_sender_alive (unbounded_channel :: nat inner)"
    by (simp add: any_sender_alive_def unbounded_channel_def new_unbounded_def Let_def)
  ultimately show ?thesis using try_recv_refines[of "unbounded_channel :: nat inner"]
    by (auto simp: q_recv_def)
qed

lemma spsc_wf_counts [simp]:
  "spsc_wf (clone_sender c) = spsc_wf c" "spsc_wf (drop_sender c) = spsc_wf c"
  "spsc_wf (drop_receiver c) = spsc_wf c"
  "contents (clone_sender c) = contents c" "contents (drop_sender c) = contents c"
  "contents (drop_receiver c) = contents c"
  by (simp_all add: spsc_wf_def clone_sender_def drop_sender_def)
    (simp_all add: drop_receiver_def spsc_rep_def contents_def inner_len_def blen_def)

lemma wf_try_send:
  assumes "spsc_wf c"
  obtains (ok) c' where "try_send c v = Inr (Inr (), c')" "spsc_wf c'" "contents c' = contents c @ [v]" "same_channel c c'"
  | (err) e where "try_send c v = Inr (Inl e, c)"
proof -
  from assms have r: "spsc_rep c (contents c)" by (simp add: spsc_wf_def)
  show thesis
  proof (cases "in_receiver_alive c \<and> (in_unbounded c \<or> length (contents c) < inner_cap c)")
    case True
    with try_send_ok[OF r, of v] ok show thesis by (auto simp: spsc_rep_iff)
  next
    case False
    with spsc_rep_bounds(3)[OF r] have
      "\<not> in_receiver_alive c \<or> (\<not> in_unbounded c \<and> length (contents c) = inner_cap c)"
      by (auto simp: inner_cap_def)
    with try_send_disconnected[OF r] try_send_full[OF r] err show thesis by metis
  qed
qed

lemma wf_try_recv:
  assumes "spsc_wf c"
  obtains (ok) v vs c' where "contents c = v # vs" "try_recv c = Inr (Inr v, c')" "spsc_wf c'" "contents c' = vs" "same_channel c c'"
  | (err) e where "contents c = []" "try_recv c = Inr (Inl e, c)"
proof (cases "contents c")
  case Nil
  with assms have "spsc_rep c []" by (simp add: spsc_rep_iff)
  from try_recv_empty[OF this] Nil err show thesis by blast
next
  case (Cons x xs)
  with assms have "spsc_rep c (x # xs)" by (simp add: spsc_rep_iff)
  from try_recv_Cons[OF this] Cons ok show thesis by (auto simp: spsc_rep_iff)
qed

lemma handle_counts:
  "in_sender_count (clone_sender c) = in_sender_count c + 1" "in_sender_count (drop_sender c) = in_sender_count c - 1"
  "in_sender_count (drop_receiver c) = in_sender_count c" "\<not> in_receiver_alive (drop_receiver c)"
  "in_receiver_alive (clone_sender c) = in_receiver_alive c" "in_receiver_alive (drop_sender c) = in_receiver_alive c"
  by (simp_all add: clone_sender_def inc_sender_def drop_sender_def dec_sender_def drop_receiver_def)

text \<open>
  C10 (safety). Over every history of sends, receives, clones and drops on a well-formed channel, no
  call faults, and the messages received followed by those still queued are the messages queued at the
  start followed by those accepted: nothing is lost, duplicated or reordered, whatever the ring did
  meanwhile (wrap-around, growth). The sender count is that of the clones and drops alone, and the
  receiver lives until it is dropped.
\<close>

theorem chan_history_fifo:
  "spsc_wf c \<Longrightarrow> \<exists>snt rcvd c'. chan_run os c = Inr (snt, rcvd, c') \<and> spsc_wf c' \<and>
     rcvd @ contents c' = contents c @ snt \<and> in_sender_count c' = senders_after os (in_sender_count c) \<and>
     (in_receiver_alive c' \<longleftrightarrow> in_receiver_alive c \<and> OpDropReceiver \<notin> set os)"
proof (induction os c rule: chan_run.induct)
  case (2 v os c)
  from 2(2) show ?case
  proof (cases rule: wf_try_send[of c v])
    case (ok c')
    with 2(1)[of "(Inr (), c')" "Inr ()" c'] show ?thesis by (auto simp: same_channel_def)
  next
    case (err e)
    with 2(1)[of "(Inl e, c)" "Inl e" c] 2(2) show ?thesis by (auto simp: same_channel_def)
  qed
next
  case (3 os c)
  from 3(2) show ?case
  proof (cases rule: wf_try_recv[of c])
    case (ok v vs c')
    with 3(1)[of "(Inr v, c')" "Inr v" c'] show ?thesis by (auto simp: same_channel_def)
  next
    case (err e)
    with 3(1)[of "(Inl e, c)" "Inl e" c] 3(2) show ?thesis by (auto simp: same_channel_def)
  qed
qed (auto simp: handle_counts)

theorem chan_history_fifo_witness:
  "\<exists>snt rcvd c'. chan_run [OpTrySend (1::nat), OpTrySend 2, OpTryRecv] (new_unbounded 1) = Inr (snt, rcvd, c') \<and>
     rcvd @ contents c' = snt \<and> snt = [1, 2]"
proof -
  have "spsc_rep (new_unbounded 1 :: nat inner) []" by (rule new_unbounded_rep)
  then have wf: "spsc_wf (new_unbounded 1 :: nat inner)" "contents (new_unbounded 1 :: nat inner) = []"
    by (simp_all add: spsc_rep_iff)
  have "\<exists>c'. chan_run [OpTrySend (1::nat), OpTrySend 2, OpTryRecv] (new_unbounded 1) = Inr ([1, 2], [1], c')"
    by (simp add: new_unbounded_def try_send_def try_recv_def check_magic_def write_at_def read_at_def
      try_grow_def spsc_defs numeral_2_eq_2)
  with chan_history_fifo[OF wf(1), of "[OpTrySend 1, OpTrySend 2, OpTryRecv]"] wf show ?thesis by auto
qed

text \<open>
  \<open>Receiver::recv\<close> spins for ever exactly when the queue is empty while a sender
  lives (no other code of the thread can run meanwhile); in every other case it returns: the oldest
  message, or \<open>RecvError\<close> when the queue is empty and the last sender is gone.
\<close>

theorem recv_returns_iff:
  assumes "spsc_wf c"
  shows "(recv c = None \<longleftrightarrow> contents c = [] \<and> any_sender_alive c) \<and>
    (contents c = [] \<and> \<not> any_sender_alive c \<longrightarrow> recv c = Some (Inr (Inl RecvError, c))) \<and>
    (contents c \<noteq> [] \<longrightarrow> (\<exists>c'. recv c = Some (Inr (Inr (hd (contents c)), c')) \<and>
       spsc_wf c' \<and> contents c' = tl (contents c)))"
proof (cases "contents c")
  case Nil
  with assms have "spsc_rep c []" by (simp add: spsc_rep_iff)
  with Nil recv_hangs[of c] recv_disconnected[of c] show ?thesis by (cases "any_sender_alive c") auto
next
  case (Cons x xs)
  with assms have "spsc_rep c (x # xs)" by (simp add: spsc_rep_iff)
  with Cons recv_Cons[of c x xs] show ?thesis by (auto simp: spsc_rep_iff)
qed

theorem recv_returns_iff_witness:
  "recv (unbounded_channel :: nat inner) = None \<and>
   recv (drop_sender unbounded_channel :: nat inner) = Some (Inr (Inl RecvError, drop_sender unbounded_channel))"
proof -
  have "spsc_wf (unbounded_channel :: nat inner)" "contents (unbounded_channel :: nat inner) = []"
    using queue_wf_unbounded_channel by (auto simp: queue_wf_def)
  moreover have "any_sender_alive (unbounded_channel :: nat inner)"
    "\<not> any_sender_alive (drop_sender unbounded_channel :: nat inner)"
    by (simp_all add: any_sender_alive_def unbounded_channel_def new_unbounded_def Let_def
      drop_sender_def dec_sender_def)
  ultimately show ?thesis using recv_returns_iff[of "unbounded_channel :: nat inner"]
      recv_returns_iff[of "drop_sender unbounded_channel :: nat inner"] by simp
qed

text \<open>
  \<open>recv_timeout\<close> always returns when the clock reaches the deadline at some
  reading: with the oldest message if there is one, otherwise with \<open>Disconnected\<close> or
  \<open>Timeout\<close> and the channel untouched.
\<close>

theorem recv_timeout_returns:
  assumes "spsc_wf c" "1 \<le> j" "clock 0 + timeout \<le> clock j"
  shows "\<exists>r c'. recv_timeout clock c timeout = Some (Inr (r, c')) \<and>
    (case contents c of x # _ \<Rightarrow> r = Inr x
     | [] \<Rightarrow> r = Inl (if any_sender_alive c then RecvTimeout else RecvTimeoutDisconnected) \<and> c' = c)"
  using assms recv_deadline_returns[of c "contents c" 1 j "clock 0 + timeout" clock]
  by (simp add: recv_timeout_def spsc_wf_def)

theorem recv_timeout_returns_witness:
  "\<exists>r c'. recv_timeout (\<lambda>k. 10 * k) (unbounded_channel :: nat inner) 25 = Some (Inr (r, c')) \<and>
     r = Inl RecvTimeout"
proof -
  have "spsc_wf (unbounded_channel :: nat inner)" "contents (unbounded_channel :: nat inner) = []"
    using queue_wf_unbounded_channel by (auto simp: queue_wf_def)
  moreover have "any_sender_alive (unbounded_channel :: nat inner)"
    by (simp add: any_sender_alive_def unbounded_channel_def new_unbounded_def Let_def)
  ultimately show ?thesis
    using recv_timeout_returns[of "unbounded_channel :: nat inner" 3 "\<lambda>k. 10 * k" 25] by simp
qed

text \<open>
  Dropping the shared ring drops every message still queued exactly once, oldest first,
  reads no uninitialised slot and leaves the ring empty.
\<close>

theorem drop_inner_once:
  assumes "spsc_wf c"
  shows "\<exists>c'. drop_inner c = Inr (contents c, c') \<and> spsc_wf c' \<and> contents c' = []"
  using assms drop_inner_rep[of c "contents c"] by (auto simp: spsc_wf_def[of c] spsc_rep_iff[of _ "[]"])

theorem drop_inner_once_witness: "\<exists>c'. drop_inner (unbounded_channel :: nat inner) = Inr ([], c')"
  using drop_inner_once[of "unbounded_channel :: nat inner"] queue_wf_unbounded_channel[where 'a = nat]
  by (auto simp: queue_wf_def)

text \<open>
  Receivers are not counted: after a receiver is cloned, dropping either handle makes
  every later send fail with \<open>Disconnected\<close>, although the other receiver is still there and
  still receives what was queued before.
\<close>

theorem receiver_clone_drop_disconnects:
  assumes "spsc_wf c"
  defines "d \<equiv> drop_receiver (clone_receiver c)"
  shows "try_send d v = Inr (Inl (TrySendDisconnected v), d) \<and> spsc_wf d \<and> contents d = contents c"
proof -
  have "spsc_rep d (contents c)" using assms(1) by (simp add: d_def clone_receiver_def spsc_wf_def)
  then show ?thesis using try_send_disconnected[of d] by (auto simp: spsc_rep_iff d_def drop_receiver_def)
qed

theorem receiver_clone_drop_disconnects_witness:
  "\<exists>d. d = drop_receiver (clone_receiver (unbounded_channel :: nat inner)) \<and>
     try_send d 3 = Inr (Inl (TrySendDisconnected 3), d)"
  using receiver_clone_drop_disconnects[of "unbounded_channel :: nat inner" 3] queue_wf_unbounded_channel
  by (auto simp: queue_wf_def)

end
