(* ===== verification/Select.thy ===== *)
theory Select
  imports Prelude
begin

section \<open>\<open>select\<close> (\<open>pluvio_runtime/src/select.rs\<close>)\<close>

text \<open>
  The combinator that polls two futures and answers with the first to complete. The futures are
  parameters: their poll functions \<open>p1\<close>, \<open>p2\<close> and their drop functions \<open>d1\<close>,
  \<open>d2\<close>, all acting on a world \<open>'w\<close>. Assigning \<open>None\<close> to a slot drops what it held.
\<close>

datatype ('a, 'b) either = Left 'a | Right 'b

record ('f, 'g) select2 =
  future1 :: "'f option"
  future2 :: "'g option"

definition select2_new :: "'f \<Rightarrow> 'g \<Rightarrow> ('f, 'g) select2" where
  "select2_new f1 f2 = \<lparr>future1 = Some f1, future2 = Some f2\<rparr>"

text \<open>The drop that assigning \<open>None\<close> to an \<open>Option<F>\<close> performs.\<close>

definition drop_opt :: "('f \<Rightarrow> 'w \<Rightarrow> 'w) \<Rightarrow> 'f option \<Rightarrow> 'w \<Rightarrow> 'w" where
  "drop_opt d x w = (case x of None \<Rightarrow> w | Some f \<Rightarrow> d f w)"

text \<open>
  The first half polls \<open>future1\<close> when it is there; \<open>Some\<close> is the early return.
\<close>

definition poll_slot :: "('f, 'a, 'w) fut_poll \<Rightarrow> 'f option \<Rightarrow> 'w \<Rightarrow> ('a option \<times> 'f option \<times> 'w) run" where
  "poll_slot p slot w =
     (case slot of
        None \<Rightarrow> Inr (None, None, w)
      | Some f \<Rightarrow> run_bind (p f w) (\<lambda>(r, f', w').
          Inr (case r of Ready v \<Rightarrow> Some v | Pending \<Rightarrow> None, Some f', w')))"

definition select2_poll ::
  "('f, 'a, 'w) fut_poll \<Rightarrow> ('f \<Rightarrow> 'w \<Rightarrow> 'w) \<Rightarrow> ('g, 'b, 'w) fut_poll \<Rightarrow> ('g \<Rightarrow> 'w \<Rightarrow> 'w) \<Rightarrow>
   (('f, 'g) select2, ('a, 'b) either, 'w) fut_poll" where
  "select2_poll p1 d1 p2 d2 s w =
     run_bind (poll_slot p1 (future1 s) w) (\<lambda>(r1, f1, w).
       case r1 of
         Some v \<Rightarrow> Inr (Ready (Left v), \<lparr>future1 = None, future2 = None\<rparr>,
                        drop_opt d2 (future2 s) (drop_opt d1 f1 w))
       | None \<Rightarrow>
           run_bind (poll_slot p2 (future2 s) w) (\<lambda>(r2, f2, w).
             case r2 of
               Some v \<Rightarrow> Inr (Ready (Right v), \<lparr>future1 = None, future2 = None\<rparr>,
                              drop_opt d2 f2 (drop_opt d1 f1 w))
             | None \<Rightarrow> Inr (Pending, \<lparr>future1 = f1, future2 = f2\<rparr>, w)))"

definition select :: "'f \<Rightarrow> 'g \<Rightarrow> ('f, 'g) select2" where
  "select f1 f2 = select2_new f1 f2"

lemma poll_slot_Some:
  "poll_slot p (Some f) w = run_bind (p f w) (\<lambda>(r, f', w').
     Inr (case r of Ready v \<Rightarrow> Some v | Pending \<Rightarrow> None, Some f', w'))"
  by (simp add: poll_slot_def)

lemma select2_pending:
  assumes "p1 f w = Inr (Pending, f', w1)" "p2 g w1 = Inr (Pending, g', w2)"
  shows "select2_poll p1 d1 p2 d2 (select2_new f g) w = Inr (Pending, select2_new f' g', w2)"
  using assms by (simp add: select2_poll_def poll_slot_def select2_new_def)

lemma select2_left:
  assumes "p1 f w = Inr (Ready v, f', w1)"
  shows "select2_poll p1 d1 p2 d2 (select2_new f g) w =
    Inr (Ready (Left v), \<lparr>future1 = None, future2 = None\<rparr>, d2 g (d1 f' w1))"
  using assms by (simp add: select2_poll_def poll_slot_def select2_new_def drop_opt_def)

lemma select2_right:
  assumes "p1 f w = Inr (Pending, f', w1)" "p2 g w1 = Inr (Ready v, g', w2)"
  shows "select2_poll p1 d1 p2 d2 (select2_new f g) w =
    Inr (Ready (Right v), \<lparr>future1 = None, future2 = None\<rparr>, d2 g' (d1 f' w2))"
  using assms by (simp add: select2_poll_def poll_slot_def select2_new_def drop_opt_def)

text \<open>
  If the first future is ready at its \<open>m\<close>-th poll and the second at its
  \<open>n\<close>-th (counting from 0, whatever the world does), then \<open>select\<close> of both is ready at
  its \<open>min m n\<close>-th poll, with the first one's value on a tie: no completion is missed, and the
  future polled first wins.
\<close>

theorem select_first_ready:
  "ready_in p1 m a f \<Longrightarrow> ready_in p2 n b g \<Longrightarrow>
   ready_in (select2_poll p1 d1 p2 d2) (min m n) (if m \<le> n then Left a else Right b) (select f g)"
proof (induction m arbitrary: n f g)
  case 0
  then show ?case by (auto simp: select_def) (metis select2_left)
next
  case (Suc m)
  show ?case
  proof (cases n)
    case 0
    with Suc.prems have "\<exists>s w'. select2_poll p1 d1 p2 d2 (select2_new f g) w = Inr (Ready (Right b), s, w')" for w
      by simp (metis select2_right)
    with 0 show ?thesis by (simp add: select_def)
  next
    case (Suc k)
    have "\<exists>s w'. select2_poll p1 d1 p2 d2 (select2_new f g) w = Inr (Pending, s, w') \<and>
        ready_in (select2_poll p1 d1 p2 d2) (min m k) (if m \<le> k then Left a else Right b) s" for w
    proof -
      from Suc.prems(1) obtain f' w1 where 1: "p1 f w = Inr (Pending, f', w1)" "ready_in p1 m a f'"
        by (auto dest: spec[of _ w])
      from Suc.prems(2) \<open>n = Suc k\<close> obtain g' w2 where
        2: "p2 g w1 = Inr (Pending, g', w2)" "ready_in p2 k b g'" by (auto dest: spec[of _ w1])
      from Suc.IH[OF 1(2) 2(2)] select2_pending[of p1 f w f' w1 p2 g g' w2, OF 1(1) 2(1)] show ?thesis by (auto simp: select_def)
    qed
    with Suc show ?thesis by (simp add: select_def)
  qed
qed

text \<open>Two countdown futures, the second one faster.\<close>

fun countdown :: "(nat, unit, unit) fut_poll" where
  "countdown 0 w = Inr (Ready (), 0, w)"
| "countdown (Suc k) w = Inr (Pending, k, w)"

theorem select_first_ready_witness:
  "ready_in (select2_poll countdown (\<lambda>_ w. w) countdown (\<lambda>_ w. w)) 1 (Right ()) (select 3 1)"
proof -
  have "ready_in countdown 3 () 3" "ready_in countdown 1 () 1"
    by (simp_all add: numeral_3_eq_3)
  from select_first_ready[OF this, of "\<lambda>_ w. w" "\<lambda>_ w. w"] show ?thesis by simp
qed

text \<open>
  When \<open>select\<close> answers, both futures have been dropped, each exactly once and
  after the last poll (without the drops the same poll ends in the world \<open>w1\<close>), and the
  combinator is inert: a later poll answers \<open>Pending\<close>, polls and drops nothing.
\<close>

theorem select_drops_both:
  assumes "select2_poll p1 d1 p2 d2 (select f g) w = Inr (Ready r, s, w')"
  shows "(\<exists>f' g' w1. select2_poll p1 (\<lambda>_ w. w) p2 (\<lambda>_ w. w) (select f g) w = Inr (Ready r, s, w1) \<and>
      w' = d2 g' (d1 f' w1)) \<and> future1 s = None \<and> future2 s = None \<and>
    select2_poll p1 d1 p2 d2 s w'' = Inr (Pending, s, w'')"
proof -
  note sel = select_def select2_new_def select2_poll_def poll_slot_def drop_opt_def
  obtain r1 f1 w1 where p1: "p1 f w = Inr (r1, f1, w1)"
    using assms by (auto simp: sel run_bind_eq_Inr)
  show ?thesis
  proof (cases r1)
    case (Ready v)
    with p1 assms show ?thesis by (auto simp: sel)
  next
    case Pending
    with p1 assms obtain r2 g2 w2 where "p2 g w1 = Inr (r2, g2, w2)" by (auto simp: sel run_bind_eq_Inr)
    with Pending p1 assms show ?thesis by (cases r2) (auto simp: sel)
  qed
qed

text \<open>At work: a future that is ready at once, with a drop counter as the world.\<close>

theorem select_drops_both_witness:
  "\<exists>s. select2_poll (\<lambda>f w. Inr (Ready f, f, w)) (\<lambda>_. Suc) (\<lambda>g w. Inr (Pending, g, w)) (\<lambda>_. Suc)
     (select (5::nat) True) 0 = Inr (Ready (Left 5 :: (nat, bool) either), s, 2) \<and> future2 s = None"
proof -
  have "select2_poll (\<lambda>f w. Inr (Ready f, f, w)) (\<lambda>_. Suc) (\<lambda>g w. Inr (Pending, g, w)) (\<lambda>_. Suc)
     (select (5::nat) True) 0 = Inr (Ready (Left 5 :: (nat, bool) either), \<lparr>future1 = None, future2 = None\<rparr>, 2)"
    by (simp add: select_def select2_left)
  from this select_drops_both[OF this] show ?thesis by auto
qed

end
