(* ===== verification/Track.thy ===== *)
theory Track
  imports Prelude
begin

section \<open>Track ids (\<open>pluvio_runtime/src/track.rs\<close>)\<close>

text \<open>
  The thread-local track-id allocator and the future wrapper that gives each task its own id. The
  two thread-locals are the record \<open>track_tls\<close>; the executor's machine extends it, so the wrapped
  future's poll may use any other part of the thread's state.
\<close>

record track_id_allocator =
  available_ids :: "u64 list"
  next_id :: u64

record track_tls =
  track_allocator :: track_id_allocator
  current_track_id :: u64

definition track_allocator_new :: track_id_allocator where
  "track_allocator_new = \<lparr>available_ids = [], next_id = 1\<rparr>"

definition acquire :: "track_id_allocator \<Rightarrow> u64 \<times> track_id_allocator" where
  "acquire a =
     (case available_ids a of
        i # is \<Rightarrow> (i, a\<lparr>available_ids := is\<rparr>)
      | [] \<Rightarrow> (next_id a, a\<lparr>next_id := next_id a + 1\<rparr>))"

definition release :: "track_id_allocator \<Rightarrow> u64 \<Rightarrow> track_id_allocator" where
  "release a i = (if i \<noteq> 0 then a\<lparr>available_ids := available_ids a @ [i]\<rparr> else a)"

definition acquire_track_id :: "'z track_tls_scheme \<Rightarrow> u64 \<times> 'z track_tls_scheme" where
  "acquire_track_id s = (let (i, a) = acquire (track_allocator s) in (i, s\<lparr>track_allocator := a\<rparr>))"

definition release_track_id :: "'z track_tls_scheme \<Rightarrow> u64 \<Rightarrow> 'z track_tls_scheme" where
  "release_track_id s i = s\<lparr>track_allocator := release (track_allocator s) i\<rparr>"

definition set_current_track_id :: "'z track_tls_scheme \<Rightarrow> u64 \<Rightarrow> 'z track_tls_scheme" where
  "set_current_track_id s i = s\<lparr>current_track_id := i\<rparr>"

definition get_current_track_id :: "'z track_tls_scheme \<Rightarrow> u64" where
  "get_current_track_id s = current_track_id s"

record 'f tracked_future =
  tf_inner :: 'f
  tf_track_id :: "u64 option"

definition tracked_poll ::
  "('f, 'a, 'z track_tls_scheme) fut_poll \<Rightarrow> ('f tracked_future, 'a, 'z track_tls_scheme) fut_poll" where
  "tracked_poll p t s =
     (let (track_id, s) =
        (case tf_track_id t of
           None \<Rightarrow> acquire_track_id s
         | Some i \<Rightarrow> (i, s));
        previous_track_id = get_current_track_id s;
        s = set_current_track_id s track_id
      in run_bind (p (tf_inner t) s) (\<lambda>(result, inner, s).
        let s = set_current_track_id s previous_track_id
        in if is_ready result
           then Inr (result, \<lparr>tf_inner = inner, tf_track_id = None\<rparr>, release_track_id s track_id)
           else Inr (result, \<lparr>tf_inner = inner, tf_track_id = Some track_id\<rparr>, s)))"

definition tracked :: "'f \<Rightarrow> 'f tracked_future" where
  "tracked f = \<lparr>tf_inner = f, tf_track_id = None\<rparr>"

datatype 'f maybe_tracked_fut = Tracked "'f tracked_future" | Untracked 'f

definition maybe_tracked_poll ::
  "('f, 'a, 'z track_tls_scheme) fut_poll \<Rightarrow> ('f maybe_tracked_fut, 'a, 'z track_tls_scheme) fut_poll" where
  "maybe_tracked_poll p m s =
     (case m of
        Tracked tf \<Rightarrow> run_bind (tracked_poll p tf s) (\<lambda>(r, tf, s). Inr (r, Tracked tf, s))
      | Untracked f \<Rightarrow> run_bind (p f s) (\<lambda>(r, f, s). Inr (r, Untracked f, s)))"

definition maybe_tracked :: "'f \<Rightarrow> bool \<Rightarrow> 'f maybe_tracked_fut" where
  "maybe_tracked f enable_tracking =
     (if enable_tracking then Tracked \<lparr>tf_inner = f, tf_track_id = None\<rparr> else Untracked f)"

subsection \<open>Distinct ids\<close>

text \<open>
  \<open>track_inv a held\<close>: the ids \<open>held\<close> by futures that are under way and the ids in the pool
  are pairwise distinct, non-zero (0 is the main track) and below \<open>next_id\<close>, which has not wrapped.
\<close>

definition track_inv :: "track_id_allocator \<Rightarrow> u64 list \<Rightarrow> bool" where
  "track_inv a held \<longleftrightarrow> distinct (held @ available_ids a) \<and> 0 < next_id a \<and>
     (\<forall>i \<in> set (held @ available_ids a). 0 < i \<and> i < next_id a)"

lemma track_inv_new: "track_inv track_allocator_new []"
  by (simp add: track_inv_def track_allocator_new_def)

lemma acquire_inv:
  assumes inv: "track_inv a held" and room: "unat (next_id a) + 1 < 2 ^ 64"
    and acq: "acquire a = (i, a')"
  shows "track_inv a' (i # held)" "i \<noteq> 0" "i \<notin> set held" "unat (next_id a') \<le> unat (next_id a) + 1"
proof -
  have "track_inv a' (i # held) \<and> i \<noteq> 0 \<and> i \<notin> set held \<and> unat (next_id a') \<le> unat (next_id a) + 1"
  proof (cases "available_ids a")
    case Nil
    then have a': "i = next_id a" "available_ids a' = []" "next_id a' = next_id a + 1"
      using acq by (auto simp: acquire_def)
    have "unat (next_id a + 1) = Suc (unat (next_id a))" using room by (simp add: unat_u64_Suc)
    with Nil a' inv show ?thesis by (auto simp: track_inv_def u64_less_iff)
  next
    case (Cons j js)
    with acq inv show ?thesis by (auto simp: acquire_def track_inv_def)
  qed
  then show "track_inv a' (i # held)" "i \<noteq> 0" "i \<notin> set held" "unat (next_id a') \<le> unat (next_id a) + 1"
    by simp_all
qed

lemma release_inv: "track_inv a (i # held) \<Longrightarrow> track_inv (release a i) held"
  by (auto simp: track_inv_def release_def)

lemma next_id_release [simp]: "next_id (release a i) = next_id a"
  by (simp add: release_def)

lemma track_inv_swap: "track_inv a (xs @ ys @ zs) = track_inv a (ys @ xs @ zs)"
  by (auto simp: track_inv_def)

text \<open>
  \<open>track_safe p own c\<close>: a poll of a future by \<open>p\<close> keeps the invariant, whatever ids
  \<open>others\<close> hold, when \<open>own f\<close> are the ids the future \<open>f\<close> holds, and it takes at most
  \<open>c\<close> fresh ids.
\<close>

definition track_safe ::
  "('f, 'a, 'z track_tls_scheme) fut_poll \<Rightarrow> ('f \<Rightarrow> u64 list) \<Rightarrow> nat \<Rightarrow> bool" where
  "track_safe p own c \<longleftrightarrow> (\<forall>f s r f' s' others.
     p f s = Inr (r, f', s') \<longrightarrow> track_inv (track_allocator s) (own f @ others) \<longrightarrow>
     unat (next_id (track_allocator s)) + c < 2 ^ 64 \<longrightarrow>
     track_inv (track_allocator s') (own f' @ others) \<and>
     unat (next_id (track_allocator s')) \<le> unat (next_id (track_allocator s)) + c)"

definition tracked_ids :: "('f \<Rightarrow> u64 list) \<Rightarrow> 'f tracked_future \<Rightarrow> u64 list" where
  "tracked_ids own t = (case tf_track_id t of None \<Rightarrow> [] | Some i \<Rightarrow> [i]) @ own (tf_inner t)"

text \<open>The state in which the wrapped future is polled, and the id it is polled under.\<close>

lemma tracked_poll_entry:
  fixes t :: "'f tracked_future" and s :: "'z track_tls_scheme"
  assumes inv: "track_inv (track_allocator s) (tracked_ids own t @ others)"
    and room: "unat (next_id (track_allocator s)) + 1 < 2 ^ 64"
  obtains i s1 where
    "(case tf_track_id t of None \<Rightarrow> acquire_track_id s | Some i \<Rightarrow> (i, s)) = (i, s1)"
    "track_inv (track_allocator s1) (i # own (tf_inner t) @ others)"
    "unat (next_id (track_allocator s1)) \<le> unat (next_id (track_allocator s)) + 1"
    "current_track_id s1 = current_track_id s"
proof (cases "tf_track_id t")
  case None
  obtain i a where a: "acquire (track_allocator s) = (i, a)" by fastforce
  with None inv room acquire_inv[of "track_allocator s" "own (tf_inner t) @ others" i a] show thesis
    by (intro that[of i "s\<lparr>track_allocator := a\<rparr>"]) (auto simp: acquire_track_id_def tracked_ids_def)
next
  case (Some i)
  with inv room show thesis by (intro that[of i s]) (auto simp: tracked_ids_def)
qed

lemma tracked_poll_step:
  fixes p :: "('f, 'a, 'z track_tls_scheme) fut_poll"
  assumes p: "track_safe p own c" and run: "tracked_poll p t s = Inr (r, t', s')"
    and inv: "track_inv (track_allocator s) (tracked_ids own t @ others)"
    and room: "unat (next_id (track_allocator s)) + (c + 1) < 2 ^ 64"
  shows "track_inv (track_allocator s') (tracked_ids own t' @ others) \<and>
    unat (next_id (track_allocator s')) \<le> unat (next_id (track_allocator s)) + (c + 1) \<and>
    current_track_id s' = current_track_id s \<and> (tf_track_id t' = None \<longleftrightarrow> is_ready r) \<and>
    (\<exists>s1 s2. p (tf_inner t) s1 = Inr (r, tf_inner t', s2) \<and>
       0 < current_track_id s1 \<and> current_track_id s1 \<notin> set (own (tf_inner t) @ others))"
proof -
  obtain i s1 where s1:
    "(case tf_track_id t of None \<Rightarrow> acquire_track_id s | Some i \<Rightarrow> (i, s)) = (i, s1)"
    "track_inv (track_allocator s1) (i # own (tf_inner t) @ others)"
    "unat (next_id (track_allocator s1)) \<le> unat (next_id (track_allocator s)) + 1"
    "current_track_id s1 = current_track_id s"
    using tracked_poll_entry[OF inv] room by auto
  let ?s1 = "s1\<lparr>current_track_id := i\<rparr>"
  from run s1(1) obtain f' s2 where q: "p (tf_inner t) ?s1 = Inr (r, f', s2)"
    by (auto simp: tracked_poll_def Let_def set_current_track_id_def run_bind_eq_Inr split: if_splits)
  let ?s2 = "s2\<lparr>current_track_id := current_track_id s1\<rparr>"
  from run s1(1) q have t': "tf_inner t' = f'" "tf_track_id t' = (if is_ready r then None else Some i)"
    "s' = (if is_ready r then release_track_id ?s2 i else ?s2)"
    by (auto simp: tracked_poll_def Let_def set_current_track_id_def get_current_track_id_def split: if_splits)
  have i: "0 < i" "i \<notin> set (own (tf_inner t) @ others)" using s1(2) by (auto simp: track_inv_def)
  have "track_inv (track_allocator ?s1) (own (tf_inner t) @ [i] @ others)"
    using s1(2) track_inv_swap[of "track_allocator s1" "[i]"] by simp
  moreover have "unat (next_id (track_allocator ?s1)) + c < 2 ^ 64" using room s1(3) by simp
  ultimately have 2: "track_inv (track_allocator s2) (own f' @ [i] @ others)"
    "unat (next_id (track_allocator s2)) \<le> unat (next_id (track_allocator s1)) + c"
    using p[unfolded track_safe_def, rule_format, OF q, of "[i] @ others"] by simp_all
  then have 3: "track_inv (track_allocator s2) (i # own f' @ others)"
    using track_inv_swap[of "track_allocator s2" "own f'" "[i]"] by simp
  have "track_inv (track_allocator s') (tracked_ids own t' @ others)"
    using t' 3 release_inv[OF 3] by (auto simp: tracked_ids_def release_track_id_def)
  moreover have "unat (next_id (track_allocator s')) \<le> unat (next_id (track_allocator s)) + (c + 1)"
    using t' 2 s1(3) by (auto simp: release_track_id_def)
  moreover have "current_track_id s' = current_track_id s" using t' s1(4) by (auto simp: release_track_id_def)
  moreover have "tf_track_id t' = None \<longleftrightarrow> is_ready r" using t' by simp
  moreover have "p (tf_inner t) ?s1 = Inr (r, tf_inner t', s2) \<and> 0 < current_track_id ?s1 \<and>
      current_track_id ?s1 \<notin> set (own (tf_inner t) @ others)" using q t' i by simp
  ultimately show ?thesis by blast
qed

text \<open>
  Wrapping a future in a \<open>TrackedFuture\<close> preserves id safety: if polls of the
  inner future keep the ids of all futures under way distinct and non-zero, so do polls of the wrapper,
  which takes its id on the first poll and gives it back when the inner future is ready; each poll
  restores the thread's current track id, and the inner future runs under an id that is not the main
  track's and that no other future holds (as long as fewer than \<open>2^64\<close> ids were ever taken).
\<close>

theorem tracked_poll_safe:
  fixes p :: "('f, 'a, 'z track_tls_scheme) fut_poll"
  assumes p: "track_safe p own c"
  shows "track_safe (tracked_poll p) (tracked_ids own) (c + 1) \<and>
    (\<forall>t s r t' s' others. tracked_poll p t s = Inr (r, t', s') \<longrightarrow>
       track_inv (track_allocator s) (tracked_ids own t @ others) \<longrightarrow>
       unat (next_id (track_allocator s)) + (c + 1) < 2 ^ 64 \<longrightarrow>
       current_track_id s' = current_track_id s \<and>
       (tf_track_id t' = None \<longleftrightarrow> is_ready r) \<and>
       (\<exists>s1 s2. p (tf_inner t) s1 = Inr (r, tf_inner t', s2) \<and>
          0 < current_track_id s1 \<and> current_track_id s1 \<notin> set (own (tf_inner t) @ others)))"
  unfolding track_safe_def[of "tracked_poll p"]
  by (intro conjI allI impI) (use tracked_poll_step[OF p] in blast)+

text \<open>A future that is ready at once, wrapped, in the initial thread state.\<close>

theorem tracked_poll_safe_witness:
  "\<exists>t' s'. tracked_poll (\<lambda>f s. Inr (Ready (3::nat), f, s)) (tracked ())
     \<lparr>track_allocator = track_allocator_new, current_track_id = 0\<rparr> = Inr (Ready 3, t', s') \<and>
     tf_track_id t' = None \<and> current_track_id s' = 0"
proof -
  let ?p = "\<lambda>f s. Inr (Ready (3::nat), f, s)" and ?s = "\<lparr>track_allocator = track_allocator_new, current_track_id = 0\<rparr>"
  have safe: "track_safe (?p :: (unit, nat, track_tls) fut_poll) (\<lambda>_. []) 0"
    by (simp add: track_safe_def)
  obtain t' s' where run: "tracked_poll ?p (tracked ()) ?s = Inr (Ready 3, t', s')"
    by (simp add: tracked_poll_def tracked_def acquire_track_id_def acquire_def track_allocator_new_def Let_def)
  have "track_inv (track_allocator ?s) (tracked_ids (\<lambda>_. []) (tracked ()) @ [])"
    "unat (next_id (track_allocator ?s)) + (0 + 1) < 2 ^ 64"
    using track_inv_new by (simp_all add: tracked_ids_def tracked_def track_allocator_new_def)
  with run tracked_poll_safe[OF safe] show ?thesis by fastforce
qed

end
