(* ===== verification/Reactor.thy ===== *)
theory Reactor
  imports Prelude
begin

section \<open>The reactor interface (\<open>pluvio_runtime/src/reactor/mod.rs\<close>)\<close>

text \<open>
  The trait a reactor implements, \<open>poll\<close> and \<open>status\<close>. The executor polls a reactor only
  while its status is \<open>Running\<close>. The locale \<open>reactor_contract\<close> states what makes that
  sound: the status reports exactly whether work is pending, and polling without pending work does
  nothing; then skipping the poll of a stopped reactor changes nothing, over any sequence of polls.
\<close>

datatype reactor_status = Running | Stopped

text \<open>The executor's gate: poll only a running reactor. A poll answers the wakers it woke.\<close>

definition gated_poll :: "('r \<Rightarrow> reactor_status) \<Rightarrow> ('e \<Rightarrow> 'r \<Rightarrow> 'k list \<times> 'r) \<Rightarrow> 'e \<Rightarrow> 'r \<Rightarrow> 'k list \<times> 'r" where
  "gated_poll status poll e r = (if status r = Running then poll e r else ([], r))"

fun poll_seq :: "('e \<Rightarrow> 'r \<Rightarrow> 'k list \<times> 'r) \<Rightarrow> 'e list \<Rightarrow> 'r \<Rightarrow> 'k list \<times> 'r" where
  "poll_seq poll [] r = ([], r)"
| "poll_seq poll (e # es) r =
     (let (ws, r) = poll e r; (ws', r) = poll_seq poll es r in (ws @ ws', r))"

locale reactor_contract =
  fixes inv :: "'r \<Rightarrow> bool"
    and pending :: "'r \<Rightarrow> nat"
    and status :: "'r \<Rightarrow> reactor_status"
    and poll :: "'e \<Rightarrow> 'r \<Rightarrow> 'k list \<times> 'r"
  assumes status_law: "inv r \<Longrightarrow> status r = Running \<longleftrightarrow> 0 < pending r"
    and poll_inv: "inv r \<Longrightarrow> inv (snd (poll e r))"
    and poll_idle: "inv r \<Longrightarrow> pending r = 0 \<Longrightarrow> poll e r = ([], r)"
begin

lemma gated_poll_eq: "inv r \<Longrightarrow> gated_poll status poll e r = poll e r"
  using status_law[of r] poll_idle[of r e] by (auto simp: gated_poll_def)

lemma gated_seq_eq: "inv r \<Longrightarrow> poll_seq (gated_poll status poll) es r = poll_seq poll es r"
proof (induction es arbitrary: r)
  case (Cons e es)
  with poll_inv[of r e] show ?case by (auto simp: gated_poll_eq split: prod.split)
qed simp

lemma poll_seq_inv: "inv r \<Longrightarrow> inv (snd (poll_seq poll es r))"
proof (induction es arbitrary: r)
  case (Cons e es)
  from poll_inv[OF Cons.prems, of e] Cons.IH show ?case by (auto simp: split_beta)
qed simp

end

end
