(* ===== verification/Timer.thy ===== *)
theory Timer
  imports Reactor "HOL-Library.Multiset"
begin

section \<open>The timer reactor (\<open>pluvio_timer/src/lib.rs\<close>)\<close>

text \<open>
  Timers, the \<open>Delay\<close> future and \<open>Timeout\<close>. An \<open>Instant\<close> is a number of nanoseconds
  (\<open>nat\<close>); a reading of \<open>Instant::now()\<close> is an argument. A \<open>Waker\<close> is any value
  \<open>'k\<close>: waking is the reactor answering which wakers it woke. The process-wide counter of
  \<open>TimerHandle::new\<close> is part of the state passed around, as is the \<open>BTreeMap\<close>: an association
  list kept strictly ascending by key. Both atomic counters are words that wrap.
\<close>

subsection \<open>Handles and their order\<close>

datatype timer_handle = TimerHandle (th_deadline: nat) (th_id: u64)

instantiation timer_handle :: linorder
begin

definition less_eq_timer_handle :: "timer_handle \<Rightarrow> timer_handle \<Rightarrow> bool" where
  "less_eq_timer_handle a b \<longleftrightarrow> th_deadline a < th_deadline b \<or>
     (th_deadline a = th_deadline b \<and> th_id a \<le> th_id b)"

definition less_timer_handle :: "timer_handle \<Rightarrow> timer_handle \<Rightarrow> bool" where
  "less_timer_handle a b \<longleftrightarrow> th_deadline a < th_deadline b \<or>
     (th_deadline a = th_deadline b \<and> th_id a < th_id b)"

instance
  by standard (auto simp: less_eq_timer_handle_def less_timer_handle_def timer_handle.expand)

end

definition max_at :: "nat \<Rightarrow> timer_handle" where
  "max_at deadline = TimerHandle deadline (-1)"

lemma le_max_at [simp]: "h \<le> max_at now \<longleftrightarrow> th_deadline h \<le> now"
  by (auto simp: less_eq_timer_handle_def max_at_def)

subsection \<open>The ordered map\<close>

text \<open>The operations of \<open>BTreeMap\<close> the reactor uses, on the ascending association list.\<close>

fun bt_insert :: "'k::linorder \<Rightarrow> 'v \<Rightarrow> ('k \<times> 'v) list \<Rightarrow> ('k \<times> 'v) list" where
  "bt_insert k v [] = [(k, v)]"
| "bt_insert k v ((j, w) # m) =
     (if k < j then (k, v) # (j, w) # m
      else if k = j then (k, v) # m
      else (j, w) # bt_insert k v m)"

fun bt_remove :: "'k::linorder \<Rightarrow> ('k \<times> 'v) list \<Rightarrow> 'v option \<times> ('k \<times> 'v) list" where
  "bt_remove k [] = (None, [])"
| "bt_remove k ((j, w) # m) =
     (if k = j then (Some w, m) else let (r, m') = bt_remove k m in (r, (j, w) # m'))"

definition bt_range_le :: "'k::linorder \<Rightarrow> ('k \<times> 'v) list \<Rightarrow> ('k \<times> 'v) list" where
  "bt_range_le k m = takeWhile (\<lambda>(j, _). j \<le> k) m"

definition bt_ok :: "('k::linorder \<times> 'v) list \<Rightarrow> bool" where
  "bt_ok m \<longleftrightarrow> sorted_wrt (<) (map fst m)"

lemma bt_ok_Cons: "bt_ok (kv # m) \<longleftrightarrow> (\<forall>x \<in> set m. fst kv < fst x) \<and> bt_ok m"
  by (auto simp: bt_ok_def)

lemma set_bt_insert_subset: "set (bt_insert k v m) \<subseteq> insert (k, v) (set m)"
  by (induction m) (auto split: if_splits)

lemma bt_ok_insert [simp]: "bt_ok m \<Longrightarrow> bt_ok (bt_insert k v m)"
proof (induction m)
  case (Cons a m)
  then show ?case using set_bt_insert_subset[of k v m]
    by (cases a) (fastforce simp: bt_ok_Cons)
qed (simp add: bt_ok_def)

lemma mset_bt_insert: "k \<notin> fst ` set m \<Longrightarrow> mset (bt_insert k v m) = add_mset (k, v) (mset m)"
  by (induction m) auto

lemma bt_remove_absent: "k \<notin> fst ` set m \<Longrightarrow> bt_remove k m = (None, m)"
  by (induction m) auto

lemma bt_remove_spec:
  "bt_ok m \<Longrightarrow> bt_remove k m = (map_of m k, filter (\<lambda>x. fst x \<noteq> k) m)"
proof (induction m)
  case (Cons a m)
  then show ?case
    by (cases a) (force simp: bt_ok_Cons intro!: filter_True[symmetric])
qed simp

lemma bt_ok_filter: "bt_ok m \<Longrightarrow> bt_ok (filter P m)"
  by (induction m) (auto simp: bt_ok_Cons)

lemma bt_ok_distinct: "bt_ok m \<Longrightarrow> distinct (map fst m)"
  by (induction m) (auto simp: bt_ok_Cons)

lemma bt_range_le_filter: "bt_ok m \<Longrightarrow> bt_range_le k m = filter (\<lambda>x. fst x \<le> k) m"
proof (induction m)
  case (Cons a m)
  show ?case
  proof (cases "fst a \<le> k")
    case True
    with Cons show ?thesis by (auto simp: bt_range_le_def bt_ok_Cons split_beta)
  next
    case False
    then have "\<forall>x \<in> set m. \<not> fst x \<le> k" using Cons.prems by (force simp: bt_ok_Cons)
    with False show ?thesis by (simp add: bt_range_le_def split_beta)
  qed
qed (simp add: bt_range_le_def)

lemma filter_bt_gt: "bt_ok m \<Longrightarrow> filter (\<lambda>x. \<not> fst x \<le> k) m = dropWhile (\<lambda>(j, _). j \<le> k) m"
proof (induction m)
  case (Cons a m)
  show ?case
  proof (cases "fst a \<le> k")
    case False
    then have "\<forall>x \<in> set m. \<not> fst x \<le> k" using Cons.prems by (force simp: bt_ok_Cons)
    with False show ?thesis by (simp add: split_beta)
  qed (use Cons in \<open>auto simp: bt_ok_Cons split_beta\<close>)
qed simp

lemma mset_remove_key:
  "distinct (map fst m) \<Longrightarrow> mset m =
     (case map_of m k of None \<Rightarrow> {#} | Some v \<Rightarrow> {#(k, v)#}) + mset (filter (\<lambda>x. fst x \<noteq> k) m)"
proof (induction m)
  case (Cons a m)
  show ?case
  proof (cases "fst a = k")
    case True
    with Cons.prems have "\<forall>x \<in> set m. fst x \<noteq> k" by (metis distinct.simps(2) list.simps(9) image_eqI set_map)
    then have "filter (\<lambda>x. fst x \<noteq> k) m = m" by simp
    with True show ?thesis by (cases a) simp
  next
    case False
    with Cons show ?thesis by (cases a) (simp split: option.split)
  qed
qed simp

subsection \<open>The reactor\<close>

record 'k timer_reactor =
  timers :: "(timer_handle \<times> 'k) list"
  timer_count_atomic :: u64

definition timer_reactor_new :: "'k timer_reactor" where
  "timer_reactor_new = \<lparr>timers = [], timer_count_atomic = 0\<rparr>"

text \<open>\<open>TimerHandle::new\<close> with the counter before and after.\<close>

definition timer_handle_new :: "u64 \<Rightarrow> nat \<Rightarrow> timer_handle \<times> u64" where
  "timer_handle_new counter deadline = (TimerHandle deadline counter, counter + 1)"

definition register_timer ::
  "u64 \<Rightarrow> 'k timer_reactor \<Rightarrow> nat \<Rightarrow> 'k \<Rightarrow> timer_handle \<times> u64 \<times> 'k timer_reactor" where
  "register_timer counter r deadline waker =
     (let (handle, counter) = timer_handle_new counter deadline
      in (handle, counter, r\<lparr>timers := bt_insert handle waker (timers r),
            timer_count_atomic := timer_count_atomic r + 1\<rparr>))"

definition cancel_timer :: "'k timer_reactor \<Rightarrow> timer_handle \<Rightarrow> bool \<times> 'k timer_reactor" where
  "cancel_timer r handle =
     (let (v, m) = bt_remove handle (timers r); removed = (v \<noteq> None); r = r\<lparr>timers := m\<rparr>
      in if removed then (removed, r\<lparr>timer_count_atomic := timer_count_atomic r - 1\<rparr>)
         else (removed, r))"

definition timer_count :: "'k timer_reactor \<Rightarrow> nat" where
  "timer_count r = length (timers r)"

text \<open>The loop over the expired handles; the wakers woken, in order.\<close>

fun wake_loop :: "timer_handle list \<Rightarrow> 'k timer_reactor \<Rightarrow> 'k list \<times> 'k timer_reactor" where
  "wake_loop [] r = ([], r)"
| "wake_loop (handle # expired) r =
     (let (v, m) = bt_remove handle (timers r); r = r\<lparr>timers := m\<rparr>
      in case v of
           Some waker \<Rightarrow>
             (let (ws, r) = wake_loop expired (r\<lparr>timer_count_atomic := timer_count_atomic r - 1\<rparr>)
              in (waker # ws, r))
         | None \<Rightarrow> wake_loop expired r)"

definition wake_expired_timers :: "'k timer_reactor \<Rightarrow> nat \<Rightarrow> nat \<times> 'k list \<times> 'k timer_reactor" where
  "wake_expired_timers r now =
     (case timers r of
        [] \<Rightarrow> (0, [], r)
      | (first_handle, _) # _ \<Rightarrow>
          if now < th_deadline first_handle then (0, [], r)
          else let expired = map fst (bt_range_le (max_at now) (timers r));
                   count = length expired;
                   (woken, r) = wake_loop expired r
               in (count, woken, r))"

definition timer_poll :: "'k timer_reactor \<Rightarrow> nat \<Rightarrow> 'k list \<times> 'k timer_reactor" where
  "timer_poll r now = snd (wake_expired_timers r now)"

definition timer_status :: "'k timer_reactor \<Rightarrow> reactor_status" where
  "timer_status r = (if 0 < timer_count_atomic r then Running else Stopped)"

subsection \<open>\<open>Delay\<close>\<close>

record delay =
  dl_deadline :: nat
  dl_handle :: "timer_handle option"

definition delay_new_at :: "nat \<Rightarrow> delay" where
  "delay_new_at deadline = \<lparr>dl_deadline = deadline, dl_handle = None\<rparr>"

definition delay_new :: "nat \<Rightarrow> nat \<Rightarrow> delay" where
  "delay_new now duration = delay_new_at (now + duration)"

definition delay_deadline :: "delay \<Rightarrow> nat" where
  "delay_deadline d = dl_deadline d"

definition delay_remaining :: "delay \<Rightarrow> nat \<Rightarrow> nat" where
  "delay_remaining d now = dl_deadline d - now"

definition sleep :: "nat \<Rightarrow> nat \<Rightarrow> delay" where
  "sleep now duration = delay_new now duration"

text \<open>The state a delay acts on: the handle counter and the thread's reactor.\<close>

type_synonym 'k timer_state = "u64 \<times> 'k timer_reactor"

definition delay_poll ::
  "delay \<Rightarrow> nat \<Rightarrow> 'k \<Rightarrow> 'k timer_state \<Rightarrow> unit poll \<times> delay \<times> 'k timer_state" where
  "delay_poll d now waker st =
     (if dl_deadline d \<le> now then (Ready (), d, st)
      else case dl_handle d of
        None \<Rightarrow>
          (let (handle, counter, r) = register_timer (fst st) (snd st) (dl_deadline d) waker
           in (Pending, d\<lparr>dl_handle := Some handle\<rparr>, (counter, r)))
      | Some _ \<Rightarrow> (Pending, d, st))"

definition delay_drop :: "delay \<Rightarrow> 'k timer_state \<Rightarrow> 'k timer_state" where
  "delay_drop d st =
     (case dl_handle d of
        Some handle \<Rightarrow> (fst st, snd (cancel_timer (snd st) handle))
      | None \<Rightarrow> st)"

subsection \<open>\<open>Timeout\<close>\<close>

datatype timeout_error = TimeoutError

record 'f timeout_fut =
  to_future :: "'f option"
  to_delay :: delay

definition timeout_new_at :: "nat \<Rightarrow> 'f \<Rightarrow> 'f timeout_fut" where
  "timeout_new_at deadline f = \<lparr>to_future = Some f, to_delay = delay_new_at deadline\<rparr>"

definition timeout_new :: "nat \<Rightarrow> nat \<Rightarrow> 'f \<Rightarrow> 'f timeout_fut" where
  "timeout_new now duration f = \<lparr>to_future = Some f, to_delay = delay_new now duration\<rparr>"

definition timeout :: "nat \<Rightarrow> nat \<Rightarrow> 'f \<Rightarrow> 'f timeout_fut" where
  "timeout now duration f = timeout_new now duration f"

definition timeout_at :: "nat \<Rightarrow> 'f \<Rightarrow> 'f timeout_fut" where
  "timeout_at deadline f = timeout_new_at deadline f"

text \<open>
  The user's future is a parameter: its poll \<open>p\<close> and its drop \<open>dr\<close>. \<open>now\<close> is read by the
  delay, after the user's future was polled.
\<close>

definition timeout_poll ::
  "('f, 'a, 'k timer_state) fut_poll \<Rightarrow> ('f \<Rightarrow> 'k timer_state \<Rightarrow> 'k timer_state) \<Rightarrow> nat \<Rightarrow> 'k \<Rightarrow>
   ('f timeout_fut, timeout_error + 'a, 'k timer_state) fut_poll" where
  "timeout_poll p dr now waker t st =
     run_bind
       (case to_future t of
          None \<Rightarrow> Inr (None, None, st)
        | Some f \<Rightarrow> run_bind (p f st) (\<lambda>(res, f, st).
            case res of
              Ready v \<Rightarrow> Inr (Some v, None, dr f st)
            | Pending \<Rightarrow> Inr (None, Some f, st)))
       (\<lambda>(res, fut, st).
          case res of
            Some v \<Rightarrow> Inr (Ready (Inr v), t\<lparr>to_future := fut\<rparr>, st)
          | None \<Rightarrow>
              (case delay_poll (to_delay t) now waker st of
                 (Ready _, d, st) \<Rightarrow>
                   Inr (Ready (Inl TimeoutError), \<lparr>to_future = None, to_delay = d\<rparr>,
                        (case fut of None \<Rightarrow> st | Some f \<Rightarrow> dr f st))
               | (Pending, d, st) \<Rightarrow> Inr (Pending, \<lparr>to_future = fut, to_delay = d\<rparr>, st)))"

subsection \<open>Invariant and behaviour of the reactor\<close>

text \<open>
  The map is ordered, the atomic counter counts it and has not wrapped, and every handle in it was
  made before the counter's present value.
\<close>

definition timer_ok :: "'k timer_reactor \<Rightarrow> bool" where
  "timer_ok r \<longleftrightarrow> bt_ok (timers r) \<and> timer_count_atomic r = of_nat (length (timers r)) \<and>
     length (timers r) < 2 ^ 64"

definition timer_inv :: "'k timer_state \<Rightarrow> bool" where
  "timer_inv st \<longleftrightarrow> timer_ok (snd st) \<and> (\<forall>x \<in> set (timers (snd st)). th_id (fst x) < fst st)"

lemma timer_inv_new: "timer_inv (counter, timer_reactor_new)"
  by (simp add: timer_inv_def timer_ok_def timer_reactor_new_def bt_ok_def)

text \<open>Expired timers are a prefix of the map; waking removes exactly that prefix.\<close>

lemma wake_loop_prefix:
  "timers r = es @ rest \<Longrightarrow>
   wake_loop (map fst es) r =
     (map snd es, r\<lparr>timers := rest, timer_count_atomic := timer_count_atomic r - of_nat (length es)\<rparr>)"
proof (induction es arbitrary: r)
  case (Cons e es)
  then show ?case by (cases e) (simp add: algebra_simps)
qed simp

lemma wake_expired_spec:
  assumes "timer_ok r"
  shows "wake_expired_timers r now =
    (let es = filter (\<lambda>x. th_deadline (fst x) \<le> now) (timers r)
     in (length es, map snd es,
         r\<lparr>timers := filter (\<lambda>x. now < th_deadline (fst x)) (timers r),
           timer_count_atomic := timer_count_atomic r - of_nat (length es)\<rparr>))"
proof (cases "timers r")
  case Nil
  then show ?thesis by (simp add: wake_expired_timers_def)
next
  case (Cons a m)
  have ok: "bt_ok (timers r)" using assms by (simp add: timer_ok_def)
  let ?es = "filter (\<lambda>x. th_deadline (fst x) \<le> now) (timers r)"
  have rng: "bt_range_le (max_at now) (timers r) = ?es" using bt_range_le_filter[OF ok] by simp
  have "filter (\<lambda>x. now < th_deadline (fst x)) (timers r) = dropWhile (\<lambda>(j, _). j \<le> max_at now) (timers r)"
    using filter_bt_gt[OF ok, of "max_at now"] by (simp add: not_le)
  then have split: "timers r = ?es @ filter (\<lambda>x. now < th_deadline (fst x)) (timers r)"
    using rng takeWhile_dropWhile_id[of "\<lambda>(j, _). j \<le> max_at now" "timers r"] by (simp add: bt_range_le_def)
  show ?thesis
  proof (cases "now < th_deadline (fst a)")
    case True
    with ok Cons have late: "\<forall>x \<in> set m. now < th_deadline (fst x)"
      by (force simp: bt_ok_Cons less_timer_handle_def)
    then have "filter (\<lambda>x. th_deadline (fst x) \<le> now) m = []" "filter (\<lambda>x. now < th_deadline (fst x)) m = m"
      by (auto simp: filter_empty_conv intro!: filter_True)
    with True Cons show ?thesis by (simp add: wake_expired_timers_def split_beta)
  next
    case False
    with Cons rng wake_loop_prefix[OF split] show ?thesis
      by (simp add: wake_expired_timers_def split_beta Let_def)
  qed
qed

lemma timer_poll_spec:
  "timer_ok r \<Longrightarrow> timer_poll r now =
     (map snd (filter (\<lambda>x. th_deadline (fst x) \<le> now) (timers r)),
      r\<lparr>timers := filter (\<lambda>x. now < th_deadline (fst x)) (timers r),
        timer_count_atomic := timer_count_atomic r -
          of_nat (length (filter (\<lambda>x. th_deadline (fst x) \<le> now) (timers r)))\<rparr>)"
  by (simp add: timer_poll_def wake_expired_spec Let_def)

lemma length_filter_split:
  "length (filter (\<lambda>x. now < th_deadline (fst x)) m) + length (filter (\<lambda>x. th_deadline (fst x) \<le> now) m) = length m"
  using sum_length_filter_compl[of "\<lambda>x. now < th_deadline (fst x)" m] by (simp add: not_less)

lemma timer_ok_poll:
  assumes "timer_ok r"
  shows "timer_ok (snd (timer_poll r now))"
proof -
  have "of_nat (length (timers r)) - of_nat (length (filter (\<lambda>x. th_deadline (fst x) \<le> now) (timers r))) =
      (of_nat (length (filter (\<lambda>x. now < th_deadline (fst x)) (timers r))) :: u64)"
    using arg_cong[OF length_filter_split[of now "timers r"], of "of_nat :: nat \<Rightarrow> u64"]
    by (simp add: algebra_simps)
  with assms show ?thesis
    using le_less_trans[OF length_filter_le[of "\<lambda>x. now < th_deadline (fst x)" "timers r"], of "2 ^ 64"]
    by (simp add: timer_poll_spec timer_ok_def bt_ok_filter)
qed

lemma timer_status_iff: "timer_ok r \<Longrightarrow> timer_status r = Running \<longleftrightarrow> 0 < timer_count r"
  using of_nat_u64_pos[of "length (timers r)"] by (simp add: timer_status_def timer_ok_def timer_count_def)

interpretation timer_re: reactor_contract timer_ok timer_count timer_status "\<lambda>now r. timer_poll r now"
proof
  fix r :: "'k timer_reactor" and now
  show "timer_ok r \<Longrightarrow> timer_status r = Running \<longleftrightarrow> 0 < timer_count r" by (rule timer_status_iff)
  show "timer_ok r \<Longrightarrow> timer_ok (snd (timer_poll r now))" by (rule timer_ok_poll)
  show "timer_ok r \<Longrightarrow> timer_count r = 0 \<Longrightarrow> timer_poll r now = ([], r)"
    by (simp add: timer_poll_def wake_expired_timers_def timer_count_def)
qed

subsection \<open>Histories of the reactor\<close>

text \<open>
  The calls on one reactor in the order the thread makes them. The history answers the timers
  registered, the wakers woken with the time of the poll that woke them, and the wakers whose timers
  were cancelled.
\<close>

datatype 'k timer_op = TRegister nat 'k | TCancel timer_handle | TPoll nat

record 'k timer_log =
  tl_registered :: "(timer_handle \<times> 'k) list"
  tl_woken :: "('k \<times> nat) list"
  tl_cancelled :: "'k list"

fun timer_step :: "'k timer_op \<Rightarrow> 'k timer_state \<Rightarrow> 'k timer_log \<times> 'k timer_state" where
  "timer_step (TRegister deadline waker) (counter, r) =
     (let (h, counter, r) = register_timer counter r deadline waker
      in (\<lparr>tl_registered = [(h, waker)], tl_woken = [], tl_cancelled = []\<rparr>, (counter, r)))"
| "timer_step (TCancel h) (counter, r) =
     (\<lparr>tl_registered = [], tl_woken = [],
       tl_cancelled = (case map_of (timers r) h of None \<Rightarrow> [] | Some k \<Rightarrow> [k])\<rparr>,
      (counter, snd (cancel_timer r h)))"
| "timer_step (TPoll now) (counter, r) =
     (let (ws, r) = timer_poll r now
      in (\<lparr>tl_registered = [], tl_woken = map (\<lambda>k. (k, now)) ws, tl_cancelled = []\<rparr>, (counter, r)))"

fun timer_hist :: "'k timer_op list \<Rightarrow> 'k timer_state \<Rightarrow> 'k timer_log \<times> 'k timer_state" where
  "timer_hist [] st = (\<lparr>tl_registered = [], tl_woken = [], tl_cancelled = []\<rparr>, st)"
| "timer_hist (x # xs) st =
     (let (l, st) = timer_step x st; (l', st) = timer_hist xs st
      in (\<lparr>tl_registered = tl_registered l @ tl_registered l',
            tl_woken = tl_woken l @ tl_woken l',
            tl_cancelled = tl_cancelled l @ tl_cancelled l'\<rparr>, st))"

text \<open>Room for \<open>n\<close> more registrations before a 64-bit counter wraps.\<close>

definition timer_room :: "nat \<Rightarrow> 'k timer_state \<Rightarrow> bool" where
  "timer_room n st \<longleftrightarrow> unat (fst st) + n < 2 ^ 64 \<and> length (timers (snd st)) + n < 2 ^ 64"

definition is_register :: "'k timer_op \<Rightarrow> bool" where
  "is_register x \<longleftrightarrow> (\<exists>d k. x = TRegister d k)"

lemma register_timer_spec:
  assumes inv: "timer_inv (counter, r)" and room: "timer_room (Suc n) (counter, r)"
    and reg: "register_timer counter r deadline waker = (h, counter', r')"
  shows "timer_inv (counter', r')" "timer_room n (counter', r')" "h = TimerHandle deadline counter"
    "mset (timers r') = add_mset (h, waker) (mset (timers r))"
proof -
  have r': "h = TimerHandle deadline counter" "counter' = counter + 1"
    "r' = r\<lparr>timers := bt_insert h waker (timers r), timer_count_atomic := timer_count_atomic r + 1\<rparr>"
    using reg by (auto simp: register_timer_def timer_handle_new_def Let_def)
  have fresh: "h \<notin> fst ` set (timers r)" using inv r'(1) by (fastforce simp: timer_inv_def)
  then show m: "mset (timers r') = add_mset (h, waker) (mset (timers r))" using r' by (simp add: mset_bt_insert)
  then have l: "length (timers r') = Suc (length (timers r))" by (metis size_add_mset size_mset)
  from m have st: "set (timers r') = insert (h, waker) (set (timers r))" by (metis set_mset_add_mset_insert set_mset_mset)
  have c: "unat counter' = Suc (unat counter)" using room r'(2) by (simp add: timer_room_def unat_u64_Suc)
  show "h = TimerHandle deadline counter" by (rule r')
  show "timer_room n (counter', r')" using room c l by (simp add: timer_room_def)
  have "timer_ok r'" using inv room r' l by (auto simp: timer_inv_def timer_ok_def timer_room_def)
  moreover have "\<forall>x \<in> set (timers r'). th_id (fst x) < counter'"
    using inv c st r'(1) by (auto simp: timer_inv_def u64_less_iff less_SucI)
  ultimately show "timer_inv (counter', r')" by (simp add: timer_inv_def)
qed

lemma cancel_timer_spec:
  assumes "timer_ok r"
  shows "cancel_timer r h = (map_of (timers r) h \<noteq> None,
    r\<lparr>timers := filter (\<lambda>x. fst x \<noteq> h) (timers r),
      timer_count_atomic := of_nat (length (filter (\<lambda>x. fst x \<noteq> h) (timers r)))\<rparr>)"
proof -
  have ok: "bt_ok (timers r)" using assms by (simp add: timer_ok_def)
  note m = mset_remove_key[OF bt_ok_distinct[OF ok], of h]
  show ?thesis
  proof (cases "map_of (timers r) h")
    case None
    with m have "filter (\<lambda>x. fst x \<noteq> h) (timers r) = timers r"
      by (auto simp: map_of_eq_None_iff intro!: filter_True)
    with None assms show ?thesis by (simp add: cancel_timer_def bt_remove_spec[OF ok] timer_ok_def)
  next
    case (Some k)
    with m have "mset (timers r) = add_mset (h, k) (mset (filter (\<lambda>x. fst x \<noteq> h) (timers r)))" by simp
    then have "length (timers r) = Suc (length (filter (\<lambda>x. fst x \<noteq> h) (timers r)))"
      by (metis size_add_mset size_mset)
    with Some assms show ?thesis by (simp add: cancel_timer_def bt_remove_spec[OF ok] timer_ok_def)
  qed
qed

lemma timer_inv_cancel: "timer_inv (counter, r) \<Longrightarrow> timer_inv (counter, snd (cancel_timer r h))"
  using le_less_trans[OF length_filter_le[of "\<lambda>x. fst x \<noteq> h" "timers r"], of "2 ^ 64"]
  by (auto simp: timer_inv_def cancel_timer_spec) (auto simp: timer_ok_def bt_ok_filter)

lemma timer_inv_poll: "timer_inv (counter, r) \<Longrightarrow> timer_inv (counter, snd (timer_poll r now))"
  using timer_ok_poll[of r now] by (auto simp: timer_inv_def) (auto simp: timer_poll_spec)

text \<open>What one call does to the pending timers: nothing is created or lost but what it reports.\<close>

lemma timer_step_spec:
  assumes inv: "timer_inv st" and room: "timer_room (n + (if is_register x then 1 else 0)) st"
    and step: "timer_step x st = (l, st')"
  shows "timer_inv st' \<and> timer_room n st' \<and>
    mset (timers (snd st)) + mset (tl_registered l) = mset (timers (snd st')) +
      (mset (timers (snd st)) + mset (tl_registered l) - mset (timers (snd st'))) \<and>
    image_mset snd (mset (timers (snd st)) + mset (tl_registered l) - mset (timers (snd st'))) =
      mset (map fst (tl_woken l)) + mset (tl_cancelled l) \<and>
    (\<forall>(k, now) \<in> set (tl_woken l). \<exists>h. (h, k) \<in> set (timers (snd st)) \<and> th_deadline h \<le> now)"
proof (cases x)
  case (TRegister d k)
  obtain counter r where st: "st = (counter, r)" by fastforce
  obtain h counter' r' where reg: "register_timer counter r d k = (h, counter', r')" by (metis prod_cases3)
  from step TRegister st reg have "st' = (counter', r')" "tl_registered l = [(h, k)]" "tl_woken l = []" "tl_cancelled l = []"
    by auto
  with register_timer_spec[OF _ _ reg, of n] inv room st TRegister show ?thesis by (simp add: is_register_def)
next
  case (TCancel h)
  obtain counter r where st: "st = (counter, r)" by fastforce
  from step TCancel st have st': "st' = (counter, snd (cancel_timer r h))" "tl_registered l = []" "tl_woken l = []"
    "tl_cancelled l = (case map_of (timers r) h of None \<Rightarrow> [] | Some k \<Rightarrow> [k])" by auto
  have ok: "timer_ok r" using inv st by (simp add: timer_inv_def)
  have dist: "distinct (map fst (timers r))" using ok by (simp add: timer_ok_def bt_ok_distinct)
  have "timer_room n st'" using room st st' TCancel length_filter_le[of "\<lambda>x. fst x \<noteq> h" "timers r"]
    by (auto simp: timer_room_def cancel_timer_spec[OF ok] is_register_def intro: le_less_trans[rotated])
  with st st' timer_inv_cancel[of counter r h] inv mset_remove_key[OF dist, of h] show ?thesis
    by (auto simp: cancel_timer_spec[OF ok] simp del: mset_filter split: option.splits)
next
  case (TPoll now)
  obtain counter r where st: "st = (counter, r)" by fastforce
  have ok: "timer_ok r" using inv st by (simp add: timer_inv_def)
  let ?es = "filter (\<lambda>x. th_deadline (fst x) \<le> now) (timers r)" and ?rest = "filter (\<lambda>x. now < th_deadline (fst x)) (timers r)"
  from step TPoll st have st': "st' = (counter, snd (timer_poll r now))" "tl_registered l = []"
    "tl_woken l = map (\<lambda>k. (k, now)) (map snd ?es)" "tl_cancelled l = []"
    using timer_poll_spec[OF ok, of now] by auto
  have "timer_room n st'" using room st st' TPoll length_filter_le[of "\<lambda>x. now < th_deadline (fst x)" "timers r"]
    by (auto simp: timer_room_def timer_poll_spec[OF ok] is_register_def intro: le_less_trans[rotated])
  moreover have "mset (timers r) = mset ?rest + mset ?es"
    using multiset_partition[of "mset (timers r)" "\<lambda>x. now < th_deadline (fst x)"] by (simp add: not_less)
  moreover have "image_mset snd (mset ?es) = mset (map fst (tl_woken l))" using st'(3) by (simp add: o_def)
  ultimately show ?thesis
    using st st' timer_inv_poll[of counter r now] inv by (auto simp: timer_poll_spec[OF ok] simp del: mset_filter)
qed

lemma timer_step_conserves:
  assumes "timer_inv st" "timer_room (n + (if is_register x then 1 else 0)) st" "timer_step x st = (l, st')"
  shows "timer_inv st'" "timer_room n st'"
    "mset (map snd (timers (snd st))) + mset (map snd (tl_registered l)) =
     mset (map fst (tl_woken l)) + mset (tl_cancelled l) + mset (map snd (timers (snd st')))"
    "set (timers (snd st')) \<subseteq> set (timers (snd st)) \<union> set (tl_registered l)"
    "(k, now) \<in> set (tl_woken l) \<Longrightarrow> \<exists>h. (h, k) \<in> set (timers (snd st)) \<and> th_deadline h \<le> now"
proof -
  note spec = timer_step_spec[OF assms]
  let ?A = "mset (timers (snd st)) + mset (tl_registered l)" and ?B = "mset (timers (snd st'))"
  from spec show "timer_inv st'" "timer_room n st'" by simp_all
  from spec have A: "?A = ?B + (?A - ?B)" by simp
  from arg_cong[OF this, of "image_mset snd"] spec show
    "mset (map snd (timers (snd st))) + mset (map snd (tl_registered l)) =
     mset (map fst (tl_woken l)) + mset (tl_cancelled l) + mset (map snd (timers (snd st')))"
    by (simp add: ac_simps)
  from arg_cong[OF A, of set_mset] show "set (timers (snd st')) \<subseteq> set (timers (snd st)) \<union> set (tl_registered l)"
    by (metis Un_upper1 set_mset_mset set_mset_union)
  assume "(k, now) \<in> set (tl_woken l)"
  with spec show "\<exists>h. (h, k) \<in> set (timers (snd st)) \<and> th_deadline h \<le> now" by blast
qed

lemma mset_chain:
  fixes a :: "'a multiset"
  assumes "a + r1 = w1 + c1 + m1" "m1 + r2 = w2 + c2 + m2"
  shows "a + (r1 + r2) = w1 + w2 + (c1 + c2) + m2"
proof -
  have "a + (r1 + r2) = w1 + c1 + m1 + r2" using assms(1) by (simp flip: add.assoc)
  also have "\<dots> = w1 + c1 + (m1 + r2)" by (simp add: add.assoc)
  also have "\<dots> = w1 + w2 + (c1 + c2) + m2" unfolding assms(2) by (simp add: ac_simps)
  finally show ?thesis .
qed

lemma timer_history_mset:
  assumes "timer_inv st" "timer_room (length (filter is_register ops)) st" "timer_hist ops st = (l, st')"
  shows "timer_inv st' \<and>
    mset (map snd (timers (snd st))) + mset (map snd (tl_registered l)) =
      mset (map fst (tl_woken l)) + mset (tl_cancelled l) + mset (map snd (timers (snd st'))) \<and>
    (\<forall>(k, now) \<in> set (tl_woken l).
       \<exists>h. (h, k) \<in> set (timers (snd st)) \<union> set (tl_registered l) \<and> th_deadline h \<le> now)"
  using assms
proof (induction ops arbitrary: st l st')
  case (Cons x ops)
  obtain l1 st1 where 1: "timer_step x st = (l1, st1)" by (metis surj_pair)
  obtain l2 st2 where 2: "timer_hist ops st1 = (l2, st2)" by (metis surj_pair)
  let ?n = "length (filter is_register ops)"
  have room: "timer_room (?n + (if is_register x then 1 else 0)) st" using Cons.prems(2) by (simp split: if_splits)
  note step = timer_step_conserves[OF Cons.prems(1) room 1]
  note rest = Cons.IH[OF step(1,2) 2]
  have l: "tl_registered l = tl_registered l1 @ tl_registered l2" "tl_woken l = tl_woken l1 @ tl_woken l2"
    "tl_cancelled l = tl_cancelled l1 @ tl_cancelled l2" "st' = st2"
    using Cons.prems(3) 1 2 by auto
  have "\<exists>h. (h, k) \<in> set (timers (snd st)) \<union> set (tl_registered l) \<and> th_deadline h \<le> now"
    if "(k, now) \<in> set (tl_woken l)" for k now
  proof -
    from that l(2) consider "(k, now) \<in> set (tl_woken l1)" | "(k, now) \<in> set (tl_woken l2)" by auto
    then show ?thesis
    proof cases
      case 1
      from step(5)[OF this] show ?thesis by blast
    next
      case 2
      with rest obtain h where "(h, k) \<in> set (timers (snd st1)) \<union> set (tl_registered l2)" "th_deadline h \<le> now"
        by blast
      with step(4) l(1) show ?thesis by auto
    qed
  qed
  moreover have "mset (map snd (timers (snd st))) + mset (map snd (tl_registered l)) =
      mset (map fst (tl_woken l)) + mset (tl_cancelled l) + mset (map snd (timers (snd st')))"
    using mset_chain[OF step(3)] rest l by simp
  ultimately show ?case using rest l by blast
qed auto

text \<open>
  C13 (safety). Over every history of registrations, cancellations and polls of the timer reactor
  (with fewer than \<open>2^64\<close> registrations), every waker that was registered is either still
  pending, or was woken exactly as often as it was registered and not cancelled: no wake-up is lost
  or duplicated; and no waker is woken before the deadline of a timer it was registered for.
\<close>

theorem timer_history_conserves:
  assumes "timer_inv st" "timer_room (length (filter is_register ops)) st" "timer_hist ops st = (l, st')"
  shows "timer_inv st' \<and>
    mset (map snd (timers (snd st))) + mset (map snd (tl_registered l)) =
      mset (map fst (tl_woken l)) + mset (tl_cancelled l) + mset (map snd (timers (snd st'))) \<and>
    (\<forall>(k, now) \<in> set (tl_woken l).
       \<exists>h. (h, k) \<in> set (timers (snd st)) \<union> set (tl_registered l) \<and> th_deadline h \<le> now)"
  using timer_history_mset[OF assms] .

text \<open>Two timers, one cancelled, one expired.\<close>

theorem timer_history_conserves_witness:
  "\<exists>l st'. timer_hist [TRegister 10 ''a'', TRegister 20 ''b'', TCancel (TimerHandle 20 2), TPoll 15]
     (1, timer_reactor_new) = (l, st') \<and> tl_woken l = [(''a'', 15)] \<and> tl_cancelled l = [''b''] \<and> timer_inv st'"
proof -
  let ?ops = "[TRegister 10 ''a'', TRegister 20 ''b'', TCancel (TimerHandle 20 2), TPoll 15]"
  have "\<exists>l st'. timer_hist ?ops (1, timer_reactor_new) = (l, st') \<and> tl_woken l = [(''a'', 15)] \<and> tl_cancelled l = [''b'']"
    by (simp add: register_timer_def timer_handle_new_def timer_reactor_new_def cancel_timer_def timer_poll_def
        wake_expired_timers_def bt_range_le_def max_at_def less_timer_handle_def less_eq_timer_handle_def)
  then obtain l st' where run: "timer_hist ?ops (1, timer_reactor_new) = (l, st')"
    "tl_woken l = [(''a'', 15)]" "tl_cancelled l = [''b'']" by blast
  have "timer_room (length (filter is_register ?ops)) (1, timer_reactor_new)"
    by (simp add: timer_room_def is_register_def timer_reactor_new_def)
  from timer_history_conserves[OF timer_inv_new this run(1)] run show ?thesis by blast
qed

text \<open>
  A poll at time \<open>now\<close> wakes exactly the timers whose deadline has passed,
  earliest deadline first (ties in registration order), removes them and keeps the others; the number
  it reports is the number woken, and the status is \<open>Running\<close> exactly while timers are pending.
\<close>

theorem wake_expired_exact:
  assumes "timer_ok r" "wake_expired_timers r now = (n, woken, r')"
  shows "\<exists>es. timers r = es @ timers r' \<and> woken = map snd es \<and> n = length es \<and>
    sorted_wrt (<) (map fst es) \<and> (\<forall>x \<in> set es. th_deadline (fst x) \<le> now) \<and>
    (\<forall>x \<in> set (timers r'). now < th_deadline (fst x)) \<and>
    timer_ok r' \<and> (timer_status r' = Running \<longleftrightarrow> timers r' \<noteq> [])"
proof -
  have ok: "bt_ok (timers r)" using assms(1) by (simp add: timer_ok_def)
  let ?es = "filter (\<lambda>x. th_deadline (fst x) \<le> now) (timers r)"
  have r': "n = length ?es" "woken = map snd ?es" "timers r' = filter (\<lambda>x. now < th_deadline (fst x)) (timers r)"
    using assms(2) wake_expired_spec[OF assms(1), of now] by (auto simp: Let_def)
  have "timers r = ?es @ timers r'"
    using bt_range_le_filter[OF ok, of "max_at now"] filter_bt_gt[OF ok, of "max_at now"] r'(3)
      takeWhile_dropWhile_id[of "\<lambda>(j, _). j \<le> max_at now" "timers r"] by (simp add: bt_range_le_def not_le)
  moreover have "timer_ok r'" using timer_ok_poll[OF assms(1), of now] assms(2) by (simp add: timer_poll_def)
  moreover from this have "timer_status r' = Running \<longleftrightarrow> timers r' \<noteq> []"
    by (simp add: timer_status_iff timer_count_def)
  moreover have "sorted_wrt (<) (map fst ?es)" using bt_ok_filter[OF ok] by (simp add: bt_ok_def)
  ultimately show ?thesis using r' by (intro exI[of _ ?es]) auto
qed

theorem wake_expired_exact_witness:
  "\<exists>es. [(TimerHandle 5 1, ''a''), (TimerHandle 9 2, ''b'')] = es @ [(TimerHandle 9 2, ''b'')] \<and> map snd es = [''a'']"
proof -
  let ?r = "\<lparr>timers = [(TimerHandle 5 1, ''a''), (TimerHandle 9 2, ''b'')], timer_count_atomic = 2\<rparr>"
  have "timer_ok ?r" by (simp add: timer_ok_def bt_ok_def less_timer_handle_def)
  moreover have "wake_expired_timers ?r 7 = (1, [''a''], \<lparr>timers = [(TimerHandle 9 2, ''b'')], timer_count_atomic = 1\<rparr>)"
    by (simp add: wake_expired_timers_def bt_range_le_def less_eq_timer_handle_def max_at_def)
  ultimately show ?thesis using wake_expired_exact[of ?r 7] by fastforce
qed

text \<open>
  The executor's gate is sound for the timer reactor: over any sequence of poll
  times, polling only while the status is \<open>Running\<close> wakes the same wakers in the same order, and
  leaves the same reactor, as polling every time.
\<close>

theorem timer_gate_sound:
  assumes "timer_ok r"
  shows "poll_seq (gated_poll timer_status (\<lambda>now r. timer_poll r now)) nows r =
    poll_seq (\<lambda>now r. timer_poll r now) nows r"
  by (rule timer_re.gated_seq_eq[OF assms])

theorem timer_gate_sound_witness:
  "poll_seq (gated_poll timer_status (\<lambda>now r. timer_poll r now)) [1, 2] (timer_reactor_new :: nat timer_reactor) =
    poll_seq (\<lambda>now r. timer_poll r now) [1, 2] timer_reactor_new"
proof -
  have "timer_ok (timer_reactor_new :: nat timer_reactor)"
    using timer_inv_new[of 1, where 'a = nat] by (simp add: timer_inv_def)
  from timer_gate_sound[OF this] show ?thesis .
qed

subsection \<open>Delays\<close>

text \<open>A timer that is pending stays so until a poll past its deadline wakes it or it is cancelled.\<close>

lemma timer_step_keeps:
  assumes "timer_inv st" "timer_room (n + (if is_register x then 1 else 0)) st" "timer_step x st = (l, st')"
    "(h, k) \<in> set (timers (snd st))" "x \<noteq> TCancel h"
  shows "(case x of TPoll now \<Rightarrow> th_deadline h \<le> now | _ \<Rightarrow> False) \<and> k \<in> fst ` set (tl_woken l) \<or>
    \<not> (case x of TPoll now \<Rightarrow> th_deadline h \<le> now | _ \<Rightarrow> False) \<and> (h, k) \<in> set (timers (snd st'))"
proof -
  obtain counter r where st: "st = (counter, r)" by fastforce
  have ok: "timer_ok r" using assms(1) st by (simp add: timer_inv_def)
  show ?thesis
  proof (cases x)
    case (TRegister d w)
    obtain h' c' r' where reg: "register_timer counter r d w = (h', c', r')" by (metis prod_cases3)
    have "mset (timers r') = add_mset (h', w) (mset (timers r))"
      using register_timer_spec(4)[OF _ _ reg, of n] assms(1,2) st TRegister by (simp add: is_register_def)
    then have "set (timers r') = insert (h', w) (set (timers r))"
      by (metis set_mset_add_mset_insert set_mset_mset)
    with assms(3,4) st TRegister reg show ?thesis by auto
  next
    case (TCancel h')
    with assms(3-) st show ?thesis by (auto simp: cancel_timer_spec[OF ok])
  next
    case (TPoll now)
    with assms(3,4) st show ?thesis by (force simp: timer_poll_spec[OF ok])
  qed
qed

lemma timer_hist_wakes:
  assumes "timer_inv st" "timer_room (length (filter is_register ops)) st" "timer_hist ops st = (l, st')"
    "(h, k) \<in> set (timers (snd st))" "TCancel h \<notin> set ops" "TPoll now \<in> set ops" "th_deadline h \<le> now"
  shows "k \<in> fst ` set (tl_woken l)"
  using assms
proof (induction ops arbitrary: st l st')
  case (Cons x ops)
  obtain l1 st1 where 1: "timer_step x st = (l1, st1)" by (metis surj_pair)
  obtain l2 st2 where 2: "timer_hist ops st1 = (l2, st2)" by (metis surj_pair)
  let ?n = "length (filter is_register ops)"
  have room: "timer_room (?n + (if is_register x then 1 else 0)) st" using Cons.prems(2) by (simp split: if_splits)
  note step = timer_step_conserves(1,2)[OF Cons.prems(1) room 1]
  have l: "tl_woken l = tl_woken l1 @ tl_woken l2" using Cons.prems(3) 1 2 by auto
  have "x \<noteq> TCancel h" using Cons.prems(5) by auto
  from timer_step_keeps[OF Cons.prems(1) room 1 Cons.prems(4) this] show ?case
  proof
    assume "(case x of TPoll now \<Rightarrow> th_deadline h \<le> now | _ \<Rightarrow> False) \<and> k \<in> fst ` set (tl_woken l1)"
    then show ?thesis using l by auto
  next
    assume a: "\<not> (case x of TPoll now \<Rightarrow> th_deadline h \<le> now | _ \<Rightarrow> False) \<and> (h, k) \<in> set (timers (snd st1))"
    with Cons.prems(6,7) have "TPoll now \<in> set ops" by auto
    with Cons.IH[OF step 2] a Cons.prems(5,7) l show ?thesis by auto
  qed
qed simp

text \<open>
  A \<open>Delay\<close> never completes early and its wake-up is never lost: its first poll
  before the deadline registers a timer, and then, whatever other timers are registered, cancelled
  or polled, the first reactor poll at or after the deadline wakes the task, whose next poll of the
  delay at that time or later is ready.
\<close>

theorem delay_wakes:
  assumes "timer_inv st" "timer_room (Suc (length (filter is_register ops))) st"
    and "dl_handle d = None" "delay_poll d t waker st = (res, d', st1)"
    and "t < dl_deadline d"
    and "timer_hist ops st1 = (l, st2)" "\<forall>h. dl_handle d' = Some h \<longrightarrow> TCancel h \<notin> set ops"
    and "TPoll now \<in> set ops" "dl_deadline d \<le> now"
  shows "res = Pending \<and> waker \<in> fst ` set (tl_woken l) \<and>
    (\<forall>now' \<ge> now. fst (delay_poll d' now' waker' st2) = Ready ())"
proof -
  obtain counter r where st: "st = (counter, r)" by fastforce
  obtain h c1 r1 where reg: "register_timer counter r (dl_deadline d) waker = (h, c1, r1)" by (metis prod_cases3)
  from assms(3,4,5) st reg have d': "res = Pending" "d' = d\<lparr>dl_handle := Some h\<rparr>" "st1 = (c1, r1)"
    by (auto simp: delay_poll_def)
  note spec = register_timer_spec[OF _ _ reg, of "length (filter is_register ops)"]
  have 1: "timer_inv st1" "timer_room (length (filter is_register ops)) st1" "h = TimerHandle (dl_deadline d) counter"
    and m: "mset (timers r1) = add_mset (h, waker) (mset (timers r))"
    using spec assms(1,2) st d' by simp_all
  from m have "(h, waker) \<in> set (timers (snd st1))"
    using d'(3) by (metis set_mset_add_mset_insert set_mset_mset insertI1 snd_conv)
  with timer_hist_wakes[OF 1(1,2) assms(6), of h waker now] assms(7-) 1(3) d' have
    "waker \<in> fst ` set (tl_woken l)" by simp
  with d' assms(9) show ?thesis by (auto simp: delay_poll_def)
qed

theorem delay_wakes_witness:
  "\<exists>res d' st1 l st2. delay_poll (sleep 100 50) 100 ''me'' (1, timer_reactor_new) = (res, d', st1) \<and>
     timer_hist [TRegister 120 ''you'', TPoll 130, TPoll 160] st1 = (l, st2) \<and>
     res = Pending \<and> ''me'' \<in> fst ` set (tl_woken l)"
proof -
  let ?ops = "[TRegister 120 ''you'', TPoll 130, TPoll 160]"
  obtain res d' st1 where d: "delay_poll (sleep 100 50) 100 ''me'' (1, timer_reactor_new) = (res, d', st1)"
    by (metis prod_cases3)
  obtain l st2 where l: "timer_hist ?ops st1 = (l, st2)" by (metis surj_pair)
  have "timer_room (Suc (length (filter is_register ?ops))) (1, timer_reactor_new)"
    by (simp add: timer_room_def is_register_def timer_reactor_new_def)
  from delay_wakes[OF timer_inv_new this _ d _ l, of 160] d l show ?thesis
    by (auto simp: sleep_def delay_new_def delay_new_at_def)
qed

text \<open>
  \<open>Delay::poll\<close> keeps the waker of its first poll: once a timer is registered, a
  poll with another waker changes nothing, so reactor polls never wake the task that polled last
  (unless it registered some other timer itself).
\<close>

theorem delay_keeps_first_waker:
  assumes "timer_inv st" "dl_handle d = Some h" "t < dl_deadline d"
    and "waker2 \<notin> snd ` set (timers (snd st))"
    and "delay_poll d t waker2 st = (res, d', st')"
    and "timer_hist (map TPoll nows) st' = (l, st2)"
  shows "res = Pending \<and> d' = d \<and> st' = st \<and> waker2 \<notin> fst ` set (tl_woken l)"
proof -
  from assms(2,3,5) have st': "res = Pending" "d' = d" "st' = st" by (auto simp: delay_poll_def)
  have nr: "filter is_register (map TPoll nows) = ([] :: 'a timer_op list)" by (auto simp: is_register_def)
  have "tl_registered (fst (timer_hist (map TPoll nows) st)) = []" for st :: "'a timer_state"
    by (induction nows arbitrary: st) (auto simp: split_beta Let_def)
  then have reg: "tl_registered l = []" using assms(6) by (metis fst_conv)
  have "timer_room 0 st" using assms(1) unat_u64_bound by (simp add: timer_room_def timer_inv_def timer_ok_def)
  with timer_history_mset[of st "map TPoll nows" l st2] assms(1,6) st'(3) nr reg have
    "set (map fst (tl_woken l)) \<subseteq> set (map snd (timers (snd st)))"
    by (metis (no_types, lifting) Un_iff add.right_neutral list.simps(8) list.size(3) mset.simps(1) set_mset_mset set_mset_union subsetI)
  with st' assms(4) show ?thesis by auto
qed

theorem delay_keeps_first_waker_witness:
  "\<exists>st d res d' st' l st2. delay_poll (delay_new_at 9) 0 ''first'' (1, timer_reactor_new) = (Pending, d, st) \<and>
     delay_poll d 5 ''second'' st = (res, d', st') \<and> timer_hist (map TPoll [7, 10]) st' = (l, st2) \<and>
     ''second'' \<notin> fst ` set (tl_woken l)"
proof -
  let ?h = "TimerHandle 9 1"
  let ?st = "(2, \<lparr>timers = [(?h, ''first'')], timer_count_atomic = 1\<rparr>)" and ?d = "\<lparr>dl_deadline = 9, dl_handle = Some ?h\<rparr>"
  have 1: "delay_poll (delay_new_at 9) 0 ''first'' (1, timer_reactor_new) = (Pending, ?d, ?st)"
    by (simp add: delay_poll_def delay_new_at_def register_timer_def timer_handle_new_def timer_reactor_new_def)
  have inv: "timer_inv ?st" by (simp add: timer_inv_def timer_ok_def bt_ok_def)
  obtain res d' st' where 2: "delay_poll ?d 5 ''second'' ?st = (res, d', st')" by (metis prod_cases3)
  obtain l st2 where 3: "timer_hist (map TPoll [7, 10]) st' = (l, st2)" by (metis surj_pair)
  have "''second'' \<notin> fst ` set (tl_woken l)"
    using delay_keeps_first_waker[OF inv _ _ _ 2 3, of ?h] by simp
  with 1 2 3 show ?thesis by blast
qed

subsection \<open>Timeouts\<close>

text \<open>
  Polling a timeout at the given times until it is ready: the answer and the number of polls made.
\<close>

fun timeout_drive ::
  "('f, 'a, 'k timer_state) fut_poll \<Rightarrow> ('f \<Rightarrow> 'k timer_state \<Rightarrow> 'k timer_state) \<Rightarrow> 'k \<Rightarrow> nat list \<Rightarrow>
   'f timeout_fut \<Rightarrow> 'k timer_state \<Rightarrow> ((timeout_error + 'a) option \<times> nat) run" where
  "timeout_drive p dr waker [] t st = Inr (None, 0)"
| "timeout_drive p dr waker (now # nows) t st =
     run_bind (timeout_poll p dr now waker t st) (\<lambda>(res, t, st).
       case res of
         Ready v \<Rightarrow> Inr (Some v, 1)
       | Pending \<Rightarrow> run_bind (timeout_drive p dr waker nows t st) (\<lambda>(v, n). Inr (v, Suc n)))"

lemma delay_poll_cases:
  "dl_deadline d \<le> now \<Longrightarrow> delay_poll d now waker st = (Ready (), d, st)"
  "now < dl_deadline d \<Longrightarrow> \<exists>d' st'. delay_poll d now waker st = (Pending, d', st') \<and> dl_deadline d' = dl_deadline d"
  by (auto simp: delay_poll_def register_timer_def split: option.split prod.split)

lemma timeout_poll_ready:
  "to_future t = Some f \<Longrightarrow> p f st = Inr (Ready v, f', st1) \<Longrightarrow>
   timeout_poll p dr now waker t st = Inr (Ready (Inr v), t\<lparr>to_future := None\<rparr>, dr f' st1)"
  by (simp add: timeout_poll_def)

lemma timeout_poll_late:
  "to_future t = Some f \<Longrightarrow> p f st = Inr (Pending, f', st1) \<Longrightarrow> dl_deadline (to_delay t) \<le> now \<Longrightarrow>
   timeout_poll p dr now waker t st = Inr (Ready (Inl TimeoutError), \<lparr>to_future = None, to_delay = to_delay t\<rparr>, dr f' st1)"
  by (simp add: timeout_poll_def delay_poll_cases)

lemma timeout_poll_pending:
  assumes "to_future t = Some f" "p f st = Inr (Pending, f', st1)" "now < dl_deadline (to_delay t)"
  shows "\<exists>d st2. timeout_poll p dr now waker t st = Inr (Pending, \<lparr>to_future = Some f', to_delay = d\<rparr>, st2) \<and>
    dl_deadline d = dl_deadline (to_delay t)"
  using assms delay_poll_cases(2)[OF assms(3), of waker st1] by (auto simp: timeout_poll_def)

text \<open>
  \<open>timeout\<close> around a future that is ready at its \<open>m\<close>-th poll, polled at
  the times \<open>nows\<close>: it answers at poll \<open>j = min m k\<close>, where \<open>k\<close> is the first poll
  at or after the deadline: with the future's value if the future is ready at that poll (even past
  the deadline), with \<open>TimeoutError\<close> otherwise.
\<close>

theorem timeout_first_of_both:
  "ready_in p m v f \<Longrightarrow> to_future t = Some f \<Longrightarrow> j < length nows \<Longrightarrow>
   (\<forall>i<j. nows ! i < dl_deadline (to_delay t)) \<Longrightarrow> j \<le> m \<Longrightarrow>
   j = m \<or> dl_deadline (to_delay t) \<le> nows ! j \<Longrightarrow>
   timeout_drive p dr waker nows t st = Inr (Some (if j = m then Inr v else Inl TimeoutError), Suc j)"
proof (induction j arbitrary: m f t st nows)
  case 0
  then obtain now nows' where n: "nows = now # nows'" by (cases nows) auto
  show ?case
  proof (cases m)
    case 0
    with \<open>ready_in p m v f\<close> obtain f' st1 where "p f st = Inr (Ready v, f', st1)" by (metis ready_in_0D)
    from timeout_poll_ready[OF \<open>to_future t = Some f\<close>, of p st v f' st1, OF this] n 0 show ?thesis by simp
  next
    case (Suc k)
    with \<open>ready_in p m v f\<close> obtain f' st1 where "p f st = Inr (Pending, f', st1)" by (metis ready_in_SucD)
    from timeout_poll_late[OF \<open>to_future t = Some f\<close>, of p st f' st1, OF this] n 0 Suc show ?thesis by simp
  qed
next
  case (Suc j)
  then obtain now nows' k where n: "nows = now # nows'" "m = Suc k" by (cases nows; cases m) auto
  with Suc.prems(1) obtain f' st1 where f': "p f st = Inr (Pending, f', st1)" "ready_in p k v f'"
    by (metis ready_in_SucD)
  have "now < dl_deadline (to_delay t)" using Suc.prems(4) n by (auto dest: spec[of _ 0])
  from timeout_poll_pending[of t f p st f' st1 now dr waker, OF Suc.prems(2) f'(1) this] obtain d st2 where
    d: "timeout_poll p dr now waker t st = Inr (Pending, \<lparr>to_future = Some f', to_delay = d\<rparr>, st2)"
    "dl_deadline d = dl_deadline (to_delay t)" by blast
  have "\<forall>i<j. nows' ! i < dl_deadline d" using Suc.prems(4) n d(2) by (auto dest: spec[of _ "Suc _"])
  with Suc.IH[OF f'(2), of "\<lparr>to_future = Some f', to_delay = d\<rparr>" nows' st2] Suc.prems n d show ?case by simp
qed

theorem timeout_first_of_both_witness:
  "timeout_drive (\<lambda>(f::nat) st. Inr (if f = 0 then Ready ''v'' else Pending, f - 1, st)) (\<lambda>_ st. st) ''w'' [0, 5, 12, 13]
     (timeout 0 10 3) (1, timer_reactor_new) = Inr (Some (Inl TimeoutError), 3)"
proof -
  let ?p = "\<lambda>(f::nat) st :: string timer_state. Inr (if f = 0 then Ready ''v'' else Pending, f - 1, st)"
  have "ready_in ?p 3 ''v'' 3" by (simp add: numeral_3_eq_3)
  moreover have "to_future (timeout 0 10 (3::nat)) = Some 3" "dl_deadline (to_delay (timeout 0 10 (3::nat))) = 10"
    by (simp_all add: timeout_def timeout_new_def delay_new_def delay_new_at_def)
  ultimately show ?thesis
    using timeout_first_of_both[of ?p 3 "''v''" 3 "timeout 0 10 3" 2 "[0, 5, 12, 13]"]
    by (simp add: less_Suc_eq numeral_2_eq_2)
qed

end
