(* ===== verification/Task.thy ===== *)
theory Task
  imports Spsc Track
begin

section \<open>Tasks, join handles and wakers (\<open>pluvio_runtime/src/task\<close>)\<close>

text \<open>
  A task is a user future wrapped so that its result goes to the state it shares with its
  \<open>JoinHandle\<close>. The part of the thread's memory tasks act on is the record \<open>task_mem\<close>:
  the executor's two queues, the \<open>Rc<RefCell<SharedState>>\<close> cells (a list, a cell's address is its
  index), the result holders of \<open>block_on\<close>, and the number of clock readings so far. It extends
  the track-id thread-locals and is itself extended by the executor's machine.

  User code is a parameter: \<open>p waker f mem\<close> polls the user future \<open>f\<close> with a context whose
  waker is \<open>waker\<close>. A \<open>Waker\<close> is the pair of the queue its sender feeds and the task id;
  the reference-counted cell behind it and its vtable are modelled on their own at the end.
\<close>

subsection \<open>Task statistics (\<open>task/stat.rs\<close>)\<close>

record task_stat =
  task_name :: "string option"
  execute_time_ns :: u64
  start_time_ns :: "nat option"
  end_time_ns :: "nat option"
  stat_running :: bool

definition task_stat_new :: "string option \<Rightarrow> task_stat" where
  "task_stat_new nm = \<lparr>task_name = nm, execute_time_ns = 0, start_time_ns = None,
     end_time_ns = None, stat_running = True\<rparr>"

definition add_execute_time :: "task_stat \<Rightarrow> u64 \<Rightarrow> task_stat" where
  "add_execute_time s time_ns = s\<lparr>execute_time_ns := execute_time_ns s + time_ns\<rparr>"

definition get_execute_time :: "task_stat \<Rightarrow> u64" where
  "get_execute_time s = execute_time_ns s"

text \<open>\<open>Instant::duration_since\<close> saturates at zero.\<close>

definition get_elapsed_real_time :: "task_stat \<Rightarrow> nat option" where
  "get_elapsed_real_time s =
     (case (start_time_ns s, end_time_ns s) of
        (Some st, Some en) \<Rightarrow> Some (en - st)
      | _ \<Rightarrow> None)"

text \<open>\<open>OnceCell::set\<close>: the first value stays.\<close>

definition once_set :: "'a option \<Rightarrow> 'a \<Rightarrow> 'a option" where
  "once_set c v = (case c of None \<Rightarrow> Some v | Some w \<Rightarrow> Some w)"

subsection \<open>Memory\<close>

datatype queue_id = QNormal | QPolling

datatype waker = PluvioWaker (wk_queue: queue_id) (wk_task: nat)

text \<open>\<open>Box<dyn Any>\<close>: the value of a user future, or the unit of a \<open>block_on\<close> wrapper.\<close>

datatype 'v any_box = AnyVal 'v | AnyUnit

record 'v shared_state =
  ss_waker :: "waker option"
  ss_result :: "(string + 'v any_box) option"

definition shared_state_new :: "'v shared_state" where
  "shared_state_new = \<lparr>ss_waker = None, ss_result = None\<rparr>"

record 'v task_mem = track_tls +
  task_queue :: "nat inner"
  polling_queue :: "nat inner"
  shared_heap :: "'v shared_state list"
  result_holders :: "'v option list"
  clock_reads :: nat

type_synonym ('v, 'z) mem = "('v, 'z) task_mem_scheme"

text \<open>\<open>Waker::wake\<close> of a \<open>PluvioWaker\<close>: the task id goes to the queue of its sender.\<close>

definition wake :: "waker \<Rightarrow> ('v, 'z) mem \<Rightarrow> ('v, 'z) mem run" where
  "wake w m =
     (case wk_queue w of
        QNormal \<Rightarrow> run_bind (send_expect (task_queue m) (wk_task w)) (\<lambda>q. Inr (m\<lparr>task_queue := q\<rparr>))
      | QPolling \<Rightarrow> run_bind (send_expect (polling_queue m) (wk_task w)) (\<lambda>q. Inr (m\<lparr>polling_queue := q\<rparr>)))"

text \<open>\<open>Instant::now()\<close>, the next reading of the clock.\<close>

definition instant_now :: "(nat \<Rightarrow> nat) \<Rightarrow> ('v, 'z) mem \<Rightarrow> nat \<times> ('v, 'z) mem" where
  "instant_now clock m = (clock (clock_reads m), m\<lparr>clock_reads := Suc (clock_reads m)\<rparr>)"

subsection \<open>Join handles\<close>

text \<open>
  A \<open>JoinHandle<T>\<close> is the address of the shared state; \<open>downcast\<close> is the dynamic type test
  for its \<open>T\<close>.
\<close>

definition join_poll ::
  "('v any_box \<Rightarrow> 'a option) \<Rightarrow> nat \<Rightarrow> waker \<Rightarrow> ('v, 'z) mem \<Rightarrow> ((string + 'a) poll \<times> ('v, 'z) mem) run" where
  "join_poll downcast addr w m =
     (if length (shared_heap m) \<le> addr then Inl (UB ''dangling shared state'')
      else let sh = shared_heap m ! addr
           in case ss_result sh of
                Some result \<Rightarrow>
                  Inr (Ready (case result of
                         Inr d \<Rightarrow> (case downcast d of Some v \<Rightarrow> Inr v | None \<Rightarrow> Inl ''Failed to downcast'')
                       | Inl err \<Rightarrow> Inl err),
                       m\<lparr>shared_heap := (shared_heap m)[addr := sh\<lparr>ss_result := None\<rparr>]\<rparr>)
              | None \<Rightarrow>
                  Inr (Pending, m\<lparr>shared_heap := (shared_heap m)[addr := sh\<lparr>ss_waker := Some w\<rparr>]\<rparr>))"

subsection \<open>The wrapped future\<close>

text \<open>
  \<open>Spawned a f\<close> is the \<open>async move\<close> block of \<open>create_task_and_handle\<close> around a spawned
  future; \<open>BlockOn a h f\<close> the one around the future of \<open>block_on\<close>, which first stores the
  result in the holder \<open>h\<close>; an \<open>async\<close> block polled after it completed panics.
\<close>

datatype 'f task_future =
    Spawned nat "'f maybe_tracked_fut"
  | BlockOn nat nat 'f
  | Completed

definition complete :: "nat \<Rightarrow> 'v any_box \<Rightarrow> ('v, 'z) mem \<Rightarrow> ('v, 'z) mem run" where
  "complete addr res m =
     (if length (shared_heap m) \<le> addr then Inl (UB ''dangling shared state'')
      else let sh = (shared_heap m ! addr)\<lparr>ss_result := Some (Inr res)\<rparr>
           in case ss_waker sh of
                Some w \<Rightarrow> wake w (m\<lparr>shared_heap := (shared_heap m)[addr := sh\<lparr>ss_waker := None\<rparr>]\<rparr>)
              | None \<Rightarrow> Inr (m\<lparr>shared_heap := (shared_heap m)[addr := sh]\<rparr>))"

fun task_future_poll ::
  "('f, 'v, ('v, 'z) mem) fut_poll \<Rightarrow> ('f task_future, unit, ('v, 'z) mem) fut_poll" where
  "task_future_poll p (Spawned addr f) m =
     run_bind (maybe_tracked_poll p f m) (\<lambda>(r, f, m).
       case r of
         Pending \<Rightarrow> Inr (Pending, Spawned addr f, m)
       | Ready v \<Rightarrow> run_bind (complete addr (AnyVal v) m) (\<lambda>m. Inr (Ready (), Completed, m)))"
| "task_future_poll p (BlockOn addr holder f) m =
     run_bind (p f m) (\<lambda>(r, f, m).
       case r of
         Pending \<Rightarrow> Inr (Pending, BlockOn addr holder f, m)
       | Ready v \<Rightarrow>
           run_bind (complete addr AnyUnit (m\<lparr>result_holders := (result_holders m)[holder := Some v]\<rparr>))
             (\<lambda>m. Inr (Ready (), Completed, m)))"
| "task_future_poll p Completed m = Inl (Panic ''async fn resumed after completion'')"

subsection \<open>Tasks\<close>

record 'f task =
  t_future :: "'f task_future"
  t_sender :: queue_id
  t_stat :: "task_stat option"

definition task_new :: "'f task_future \<Rightarrow> queue_id \<Rightarrow> string option \<Rightarrow> 'f task" where
  "task_new f q nm = \<lparr>t_future = f, t_sender = q, t_stat = Some (task_stat_new nm)\<rparr>"

text \<open>
  \<open>create_task_and_handle\<close> allocates the shared state; \<open>mk\<close> wraps the future, given its address.
\<close>

definition create_task_and_handle ::
  "(nat \<Rightarrow> 'f task_future) \<Rightarrow> queue_id \<Rightarrow> string option \<Rightarrow> ('v, 'z) mem \<Rightarrow> 'f task \<times> nat \<times> ('v, 'z) mem" where
  "create_task_and_handle mk q nm m =
     (let addr = length (shared_heap m)
      in (task_new (mk addr) q nm, addr, m\<lparr>shared_heap := shared_heap m @ [shared_state_new]\<rparr>))"

text \<open>
  \<open>TaskTrait::poll_task\<close>. The task is owned by the caller while it is polled, so the
  \<open>try_borrow_mut\<close> of its future cannot fail. \<open>now.elapsed()\<close> reads the clock a second time.
\<close>

definition task_poll ::
  "(nat \<Rightarrow> nat) \<Rightarrow> (waker \<Rightarrow> ('f, 'v, ('v, 'z) mem) fut_poll) \<Rightarrow> 'f task \<Rightarrow> nat \<Rightarrow> ('v, 'z) mem \<Rightarrow>
   (unit poll \<times> 'f task \<times> ('v, 'z) mem) run" where
  "task_poll clock user_poll t task_id m =
     (let (now, m) = instant_now clock m;
          t = t\<lparr>t_stat := map_option (\<lambda>s. s\<lparr>start_time_ns := once_set (start_time_ns s) now\<rparr>) (t_stat t)\<rparr>;
          waker = PluvioWaker (t_sender t) task_id
      in run_bind (task_future_poll (user_poll waker) (t_future t) m) (\<lambda>(ret, fut, m).
           let (now', m) = instant_now clock m
           in run_bind (unwrap_or_panic ''called `Option::unwrap()` on a `None` value'' (t_stat t)) (\<lambda>s.
                let s = add_execute_time s (of_nat (now' - now));
                    s = (if is_ready ret then s\<lparr>end_time_ns := once_set (end_time_ns s) now\<rparr> else s)
                in Inr (ret, t\<lparr>t_future := fut, t_stat := Some s\<rparr>, m))))"

subsection \<open>The waker's vtable (\<open>task/waker.rs\<close>)\<close>

text \<open>
  The cells behind \<open>Rc<PluvioWaker>\<close>: the waker and its strong count, 0 once freed; a raw pointer
  is the cell's index. \<open>from_raw\<close> of a freed cell is undefined behaviour. Freeing a cell drops its
  \<open>Sender\<close>.
\<close>

type_synonym rc_cells = "(waker \<times> nat) list"

definition rc_live :: "rc_cells \<Rightarrow> nat \<Rightarrow> bool" where
  "rc_live cells ptr \<longleftrightarrow> ptr < length cells \<and> 0 < snd (cells ! ptr)"

definition upd_queue :: "queue_id \<Rightarrow> (nat inner \<Rightarrow> nat inner) \<Rightarrow> ('v, 'z) mem \<Rightarrow> ('v, 'z) mem" where
  "upd_queue q f m = (case q of QNormal \<Rightarrow> m\<lparr>task_queue := f (task_queue m)\<rparr>
                              | QPolling \<Rightarrow> m\<lparr>polling_queue := f (polling_queue m)\<rparr>)"

definition get_queue :: "queue_id \<Rightarrow> ('v, 'z) mem \<Rightarrow> nat inner" where
  "get_queue q m = (case q of QNormal \<Rightarrow> task_queue m | QPolling \<Rightarrow> polling_queue m)"

definition rc_clone :: "nat \<Rightarrow> rc_cells \<Rightarrow> rc_cells" where
  "rc_clone ptr cells = cells[ptr := (fst (cells ! ptr), snd (cells ! ptr) + 1)]"

definition rc_drop :: "nat \<Rightarrow> rc_cells \<times> ('v, 'z) mem \<Rightarrow> rc_cells \<times> ('v, 'z) mem" where
  "rc_drop ptr cm =
     (let (cells, m) = cm; (w, n) = cells ! ptr
      in (cells[ptr := (w, n - 1)], if n = 1 then upd_queue (wk_queue w) drop_sender m else m))"

definition new_waker :: "queue_id \<Rightarrow> nat \<Rightarrow> rc_cells \<times> ('v, 'z) mem \<Rightarrow> nat \<times> rc_cells \<times> ('v, 'z) mem" where
  "new_waker q task_id cm =
     (let (cells, m) = cm
      in (length cells, cells @ [(PluvioWaker q task_id, 1)], upd_queue q clone_sender m))"

definition clone_raw :: "nat \<Rightarrow> rc_cells \<times> ('v, 'z) mem \<Rightarrow> (nat \<times> rc_cells \<times> ('v, 'z) mem) run" where
  "clone_raw ptr cm =
     (let (cells, m) = cm
      in if \<not> rc_live cells ptr then Inl (UB ''use after free'') else Inr (ptr, rc_clone ptr cells, m))"

definition wake_raw :: "nat \<Rightarrow> rc_cells \<times> ('v, 'z) mem \<Rightarrow> (rc_cells \<times> ('v, 'z) mem) run" where
  "wake_raw ptr cm =
     (let (cells, m) = cm
      in if \<not> rc_live cells ptr then Inl (UB ''use after free'')
         else run_bind (wake (fst (cells ! ptr)) m) (\<lambda>m. Inr (rc_drop ptr (cells, m))))"

definition wake_by_ref_raw :: "nat \<Rightarrow> rc_cells \<times> ('v, 'z) mem \<Rightarrow> (rc_cells \<times> ('v, 'z) mem) run" where
  "wake_by_ref_raw ptr cm =
     (let (cells, m) = cm
      in if \<not> rc_live cells ptr then Inl (UB ''use after free'')
         else let cells = rc_clone ptr cells
              in run_bind (wake (fst (cells ! ptr)) m) (\<lambda>m. Inr (rc_drop ptr (cells, m))))"

definition drop_raw :: "nat \<Rightarrow> rc_cells \<times> ('v, 'z) mem \<Rightarrow> (rc_cells \<times> ('v, 'z) mem) run" where
  "drop_raw ptr cm =
     (if \<not> rc_live (fst cm) ptr then Inl (UB ''use after free'') else Inr (rc_drop ptr cm))"

subsection \<open>Queues in memory\<close>

definition queues_wf :: "('v, 'z) mem \<Rightarrow> bool" where
  "queues_wf m \<longleftrightarrow> queue_wf (task_queue m) \<and> queue_wf (polling_queue m)"

lemma queues_wf_get: "queues_wf m \<longleftrightarrow> (\<forall>q. queue_wf (get_queue q m))"
  by (auto simp: queues_wf_def get_queue_def split: queue_id.splits)

lemma get_upd_queue [simp]:
  "get_queue q (upd_queue q' f m) = (if q = q' then f (get_queue q m) else get_queue q m)"
  by (auto simp: get_queue_def upd_queue_def split: queue_id.split)

lemma upd_queue_simps [simp]:
  "shared_heap (upd_queue q f m) = shared_heap m" "result_holders (upd_queue q f m) = result_holders m"
  "clock_reads (upd_queue q f m) = clock_reads m" "track_allocator (upd_queue q f m) = track_allocator m"
  "current_track_id (upd_queue q f m) = current_track_id m" "task_mem.more (upd_queue q f m) = task_mem.more m"
  by (cases q; simp add: upd_queue_def)+

lemma queue_wf_sender [simp]: "queue_wf (clone_sender c) = queue_wf c" "queue_wf (drop_sender c) = queue_wf c"
  by (simp_all add: clone_sender_def drop_sender_def)

lemma queues_wf_upd [simp]:
  "queues_wf (upd_queue q clone_sender m) = queues_wf m"
  "queues_wf (upd_queue q drop_sender m) = queues_wf m"
  by (simp_all add: queues_wf_get split: if_split) auto

text \<open>A wake-up on well-formed queues never panics and appends the task id to the waker's queue.\<close>

lemma wake_spec:
  assumes "queues_wf m"
  shows "\<exists>m'. wake w m = Inr m' \<and> queues_wf m' \<and>
    contents (get_queue (wk_queue w) m') = contents (get_queue (wk_queue w) m) @ [wk_task w] \<and>
    (\<forall>q. q \<noteq> wk_queue w \<longrightarrow> get_queue q m' = get_queue q m) \<and>
    in_sender_count (get_queue (wk_queue w) m') = in_sender_count (get_queue (wk_queue w) m) \<and>
    m' = upd_queue (wk_queue w) (\<lambda>_. get_queue (wk_queue w) m') m"
proof -
  have wf: "queue_wf (get_queue (wk_queue w) m)" using assms by (simp add: queues_wf_get)
  then have r: "spsc_rep (get_queue (wk_queue w) m) (contents (get_queue (wk_queue w) m))"
    "in_receiver_alive (get_queue (wk_queue w) m)" "in_unbounded (get_queue (wk_queue w) m)"
    by (simp_all add: queue_wf_rep)
  from send_ok[OF r(1,2), of "wk_task w"] r(3) obtain c where c: "send (get_queue (wk_queue w) m) (wk_task w) = Inr (Inr (), c)"
    "spsc_rep c (contents (get_queue (wk_queue w) m) @ [wk_task w])" "same_channel (get_queue (wk_queue w) m) c" by auto
  then have "queue_wf c" using r by (auto simp: queue_wf_def spsc_rep_iff same_channel_def)
  with assms c show ?thesis
    by (cases "wk_queue w")
      (auto simp: wake_def send_expect_def queues_wf_def get_queue_def upd_queue_def spsc_rep_iff same_channel_def
        split: queue_id.splits)
qed

subsection \<open>Waker handles\<close>

text \<open>
  A history of uses of waker handles. \<open>owned\<close> lists the raw pointers of the handles that exist:
  safe code can only use those. \<open>Waker::wake\<close> and \<open>drop\<close> consume a handle,
  \<open>wake_by_ref\<close> does not; a use of a pointer nobody owns cannot be written and is skipped.
\<close>

datatype waker_op = WNew queue_id nat | WClone nat | WWake nat | WWakeByRef nat | WDrop nat

fun waker_apply ::
  "waker_op \<Rightarrow> nat list \<times> rc_cells \<times> ('v, 'z) mem \<Rightarrow> (nat list \<times> rc_cells \<times> ('v, 'z) mem) run" where
  "waker_apply (WNew q i) (owned, cm) = (case new_waker q i cm of (ptr, cm) \<Rightarrow> Inr (ptr # owned, cm))"
| "waker_apply (WClone ptr) (owned, cm) =
     (if ptr \<in> set owned then run_bind (clone_raw ptr cm) (\<lambda>(ptr', cm). Inr (ptr' # owned, cm)) else Inr (owned, cm))"
| "waker_apply (WWake ptr) (owned, cm) =
     (if ptr \<in> set owned then run_bind (wake_raw ptr cm) (\<lambda>cm. Inr (remove1 ptr owned, cm)) else Inr (owned, cm))"
| "waker_apply (WWakeByRef ptr) (owned, cm) =
     (if ptr \<in> set owned then run_bind (wake_by_ref_raw ptr cm) (\<lambda>cm. Inr (owned, cm)) else Inr (owned, cm))"
| "waker_apply (WDrop ptr) (owned, cm) =
     (if ptr \<in> set owned then run_bind (drop_raw ptr cm) (\<lambda>cm. Inr (remove1 ptr owned, cm)) else Inr (owned, cm))"

fun waker_hist ::
  "waker_op list \<Rightarrow> nat list \<times> rc_cells \<times> ('v, 'z) mem \<Rightarrow> (nat list \<times> rc_cells \<times> ('v, 'z) mem) run" where
  "waker_hist [] st = Inr st"
| "waker_hist (x # xs) st = run_bind (waker_apply x st) (waker_hist xs)"

definition live_cells :: "queue_id \<Rightarrow> rc_cells \<Rightarrow> nat" where
  "live_cells q cells = length (filter (\<lambda>(w, n). wk_queue w = q \<and> 0 < n) cells)"

text \<open>
  The strong count of a cell is the number of handles to it, and each queue's sender count is that of
  the other senders (\<open>base\<close>) plus one per live waker.
\<close>

definition waker_inv :: "(queue_id \<Rightarrow> nat) \<Rightarrow> nat list \<times> rc_cells \<times> ('v, 'z) mem \<Rightarrow> bool" where
  "waker_inv base st \<longleftrightarrow> (case st of (owned, cells, m) \<Rightarrow>
     queues_wf m \<and> (\<forall>ptr \<in> set owned. ptr < length cells) \<and>
     (\<forall>ptr < length cells. snd (cells ! ptr) = count_list owned ptr) \<and>
     (\<forall>q. in_sender_count (get_queue q m) = base q + live_cells q cells))"

lemma waker_inv_live:
  assumes "waker_inv base (owned, cells, m)" "ptr \<in> set owned"
  shows "rc_live cells ptr" "ptr < length cells" "snd (cells ! ptr) = count_list owned ptr" "0 < count_list owned ptr"
proof -
  have "0 < count_list owned ptr" using assms(2) by (metis count_list_0_iff gr0I)
  with assms show "rc_live cells ptr" "ptr < length cells" "snd (cells ! ptr) = count_list owned ptr"
    "0 < count_list owned ptr" by (auto simp: waker_inv_def rc_live_def)
qed

lemma live_cells_update:
  assumes "i < length cells" "fst (cells ! i) = w"
  shows "live_cells q (cells[i := (w, n)]) + (if wk_queue w = q \<and> 0 < snd (cells ! i) then 1 else 0) =
    live_cells q cells + (if wk_queue w = q \<and> 0 < n then 1 else 0)"
proof -
  obtain k where c: "cells ! i = (w, k)" using assms(2) by (cases "cells ! i") auto
  have "cells = take i cells @ (w, k) # drop (Suc i) cells" using id_take_nth_drop[OF assms(1)] c by simp
  then have l: "live_cells q cells = live_cells q (take i cells @ (w, k) # drop (Suc i) cells)" by simp
  show ?thesis unfolding l upd_conv_take_nth_drop[OF assms(1)] by (simp add: live_cells_def c)
qed

lemma count_list_remove1: "count_list (remove1 x xs) y = count_list xs y - (if x = y then 1 else 0)"
  by (induction xs) (auto simp: count_list_0_iff intro!: Suc_pred[symmetric] simp flip: count_list_0_iff)

lemma sender_count_simps [simp]:
  "in_sender_count (clone_sender c) = Suc (in_sender_count c)" "in_sender_count (drop_sender c) = in_sender_count c - 1"
  by (simp_all add: clone_sender_def drop_sender_def inc_sender_def dec_sender_def)

text \<open>Consuming one handle: the count goes down, and with the last handle the cell and its sender go.\<close>

lemma rc_drop_inv:
  assumes inv: "waker_inv base (owned, cells, m)" and ptr: "ptr \<in> set owned"
  shows "waker_inv base (remove1 ptr owned, rc_drop ptr (cells, m))"
proof -
  note live = waker_inv_live[OF inv ptr]
  obtain w n where c: "cells ! ptr = (w, n)" by fastforce
  with live have n: "n = count_list owned ptr" "0 < n" by auto
  let ?cells = "cells[ptr := (w, n - 1)]" and ?m = "if n = 1 then upd_queue (wk_queue w) drop_sender m else m"
  have d: "rc_drop ptr (cells, m) = (?cells, ?m)" by (simp add: rc_drop_def c)
  have counts: "snd (?cells ! i) = count_list (remove1 ptr owned) i" if "i < length ?cells" for i
    using that inv n by (auto simp: waker_inv_def nth_list_update count_list_remove1)
  have senders: "in_sender_count (get_queue q ?m) = base q + live_cells q ?cells" for q
  proof -
    have "in_sender_count (get_queue q m) = base q + live_cells q cells" using inv by (simp add: waker_inv_def)
    with live_cells_update[OF live(2), of w q "n - 1"] c n(2) show ?thesis by (auto split: if_splits)
  qed
  have "queues_wf ?m" using inv by (simp add: waker_inv_def)
  moreover have "\<forall>i \<in> set (remove1 ptr owned). i < length ?cells"
    using inv by (auto simp: waker_inv_def dest: notin_set_remove1)
  ultimately show ?thesis using counts senders by (simp add: waker_inv_def d)
qed

lemma wake_inv:
  assumes "waker_inv base (owned, cells, m)"
  obtains m' where "wake w m = Inr m'" "waker_inv base (owned, cells, m')"
  using assms wake_spec[of m w] that by (auto simp: waker_inv_def) (metis)

lemma rc_clone_inv:
  assumes inv: "waker_inv base (owned, cells, m)" and ptr: "ptr \<in> set owned"
  shows "waker_inv base (ptr # owned, rc_clone ptr cells, m)"
proof -
  note live = waker_inv_live[OF inv ptr]
  have "live_cells q (rc_clone ptr cells) = live_cells q cells" for q
    using live_cells_update[OF live(2) refl, of q "snd (cells ! ptr) + 1"] live by (auto simp: rc_clone_def split: if_splits)
  with inv live show ?thesis by (auto simp: waker_inv_def rc_clone_def nth_list_update)
qed

lemma waker_apply_inv:
  assumes inv: "waker_inv base st"
  shows "\<exists>st'. waker_apply x st = Inr st' \<and> waker_inv base st'"
proof -
  obtain owned cells m where st: "st = (owned, cells, m)" by (metis prod_cases3)
  have fin: "ptr \<in> set owned \<Longrightarrow> rc_live cells ptr" for ptr using waker_inv_live inv st by blast
  show ?thesis
  proof (cases x)
    case (WNew q i)
    have "count_list owned (length cells) = 0" using inv st by (auto simp: waker_inv_def count_list_0_iff)
    with inv st WNew show ?thesis
      by (auto simp: new_waker_def waker_inv_def nth_append live_cells_def less_Suc_eq)
  next
    case (WClone ptr)
    with inv st fin[of ptr] rc_clone_inv[of base owned cells m ptr] show ?thesis by (auto simp: clone_raw_def)
  next
    case (WWake ptr)
    obtain m' where m': "wake (fst (cells ! ptr)) m = Inr m'" "waker_inv base (owned, cells, m')"
      using wake_inv inv st by metis
    with inv st fin[of ptr] WWake rc_drop_inv[OF m'(2), of ptr] show ?thesis
      by (cases "rc_drop ptr (cells, m')") (auto simp: wake_raw_def)
  next
    case (WWakeByRef ptr)
    show ?thesis
    proof (cases "ptr \<in> set owned")
      case True
      from rc_clone_inv[OF inv[unfolded st] True] obtain m' where
        m': "wake (fst (rc_clone ptr cells ! ptr)) m = Inr m'" "waker_inv base (ptr # owned, rc_clone ptr cells, m')"
        using wake_inv by metis
      from rc_drop_inv[OF m'(2), of ptr] m'(1) st WWakeByRef fin[OF True] True show ?thesis
        by (cases "rc_drop ptr (rc_clone ptr cells, m')") (auto simp: wake_by_ref_raw_def Let_def)
    qed (use inv st WWakeByRef in auto)
  next
    case (WDrop ptr)
    with inv st fin[of ptr] rc_drop_inv[of base owned cells m ptr] show ?thesis
      by (cases "rc_drop ptr (cells, m)") (auto simp: drop_raw_def)
  qed
qed

text \<open>
  C32 (safety). Over every history of creating, cloning, waking and dropping waker handles, no vtable
  function touches a freed cell and no wake-up panics; the strong count of each cell is the number
  of handles to it, and each task queue's sender count is one per live waker above that of its other
  senders: nothing is leaked, and the sender goes with the last handle.
\<close>

theorem waker_history_safe:
  assumes "waker_inv base st"
  shows "\<exists>st'. waker_hist ops st = Inr st' \<and> waker_inv base st'"
  using assms
proof (induction ops arbitrary: st)
  case (Cons x ops)
  from waker_apply_inv[OF Cons.prems, of x] Cons.IH show ?case by auto
qed simp

text \<open>A fresh memory: empty queues, no shared state, no clock reading.\<close>

definition mem_new :: "'v task_mem" where
  "mem_new = \<lparr>track_allocator = track_allocator_new, current_track_id = 0,
     task_queue = unbounded_channel, polling_queue = unbounded_channel,
     shared_heap = [], result_holders = [], clock_reads = 0\<rparr>"

lemma queues_wf_mem_new: "queues_wf mem_new"
  using queue_wf_unbounded_channel[where 'a = nat] by (simp add: mem_new_def queues_wf_def)

theorem waker_history_safe_witness:
  "\<exists>owned cells m. waker_hist [WNew QNormal 7, WClone 0, WWake 0, WDrop 0] ([], [], mem_new :: nat task_mem) =
     Inr (owned, cells, m) \<and> owned = [] \<and> in_sender_count (get_queue QNormal m) = 1"
proof -
  let ?ops = "[WNew QNormal 7, WClone 0, WWake 0, WDrop 0]" and ?st = "([], [], mem_new :: nat task_mem)"
  have "in_sender_count (get_queue q (mem_new :: nat task_mem)) = 1" for q
    by (cases q) (simp_all add: mem_new_def get_queue_def unbounded_channel_def new_unbounded_def Let_def)
  then have inv: "waker_inv (\<lambda>_. 1) ?st" using queues_wf_mem_new by (simp add: waker_inv_def live_cells_def)
  obtain m where w: "wake (PluvioWaker QNormal 7) (upd_queue QNormal clone_sender (mem_new :: nat task_mem)) = Inr m"
    using wake_spec[of "upd_queue QNormal clone_sender mem_new"] queues_wf_mem_new by auto
  have "\<exists>m. waker_hist ?ops ?st = Inr ([], [(PluvioWaker QNormal 7, 0)], m)"
    by (simp add: new_waker_def clone_raw_def rc_live_def rc_clone_def wake_raw_def w rc_drop_def drop_raw_def)
  then obtain m where run: "waker_hist ?ops ?st = Inr ([], [(PluvioWaker QNormal 7, 0)], m)" by blast
  with waker_history_safe[OF inv, of ?ops] have "waker_inv (\<lambda>_. 1) ([], [(PluvioWaker QNormal 7, 0)], m)" by simp
  then have "in_sender_count (get_queue QNormal m) = 1" by (simp add: waker_inv_def live_cells_def)
  with run show ?thesis by blast
qed

subsection \<open>Joining\<close>

lemma complete_spec:
  assumes "queues_wf m" "addr < length (shared_heap m)"
  shows "\<exists>m'. complete addr res m = Inr m' \<and> queues_wf m' \<and>
    shared_heap m' = (shared_heap m)[addr := \<lparr>ss_waker = None, ss_result = Some (Inr res)\<rparr>] \<and>
    result_holders m' = result_holders m \<and>
    (\<forall>q. contents (get_queue q m') = contents (get_queue q m) @
       (case ss_waker (shared_heap m ! addr) of Some w \<Rightarrow> if wk_queue w = q then [wk_task w] else [] | None \<Rightarrow> []))"
proof (cases "ss_waker (shared_heap m ! addr)")
  case None
  then have e: "(shared_heap m ! addr)\<lparr>ss_result := Some (Inr res)\<rparr> = \<lparr>ss_waker = None, ss_result = Some (Inr res)\<rparr>"
    by (cases "shared_heap m ! addr") simp
  from None assms show ?thesis by (simp add: complete_def e queues_wf_def get_queue_def split: queue_id.split)
next
  case (Some w)
  let ?m = "m\<lparr>shared_heap := (shared_heap m)[addr := \<lparr>ss_waker = None, ss_result = Some (Inr res)\<rparr>]\<rparr>"
  have e: "(shared_heap m ! addr)\<lparr>ss_result := Some (Inr res), ss_waker := None\<rparr> = \<lparr>ss_waker = None, ss_result = Some (Inr res)\<rparr>"
    by (cases "shared_heap m ! addr") simp
  have wf: "queues_wf ?m" using assms(1) by (simp add: queues_wf_def)
  have q: "get_queue q ?m = get_queue q m" for q by (cases q) (simp_all add: get_queue_def)
  from wake_spec[OF wf, of w] obtain m' where m': "wake w ?m = Inr m'" "queues_wf m'"
    "contents (get_queue (wk_queue w) m') = contents (get_queue (wk_queue w) m) @ [wk_task w]"
    "\<forall>q. q \<noteq> wk_queue w \<longrightarrow> get_queue q m' = get_queue q m"
    "m' = upd_queue (wk_queue w) (\<lambda>_. get_queue (wk_queue w) m') ?m" by (auto simp: q)
  have "shared_heap m' = shared_heap ?m" "result_holders m' = result_holders m"
    using arg_cong[OF m'(5), of shared_heap] arg_cong[OF m'(5), of result_holders] by simp_all
  moreover have "complete addr res m = wake w ?m" using Some assms by (simp add: complete_def Let_def e)
  ultimately show ?thesis using m'(1-4) Some by (intro exI[of _ m']) auto
qed

text \<open>
  C31 (liveness). A join is never lost. If a handle was polled before its task completed, then, whatever
  the memory went through meanwhile (its cell apart), the task's completion appends the joining task
  to its queue, and its next poll of the handle is ready with the task's value (or the type error);
  polling the handle after that is pending for ever, since the result was moved out.
\<close>

theorem join_wakes:
  assumes poll: "join_poll downcast addr w m = Inr (Pending, m1)"
    and heap: "addr < length (shared_heap m2)" "shared_heap m2 ! addr = shared_heap m1 ! addr" "queues_wf m2"
  shows "\<exists>m3 m4. complete addr v m2 = Inr m3 \<and>
    contents (get_queue (wk_queue w) m3) = contents (get_queue (wk_queue w) m2) @ [wk_task w] \<and>
    join_poll downcast addr w' m3 =
      Inr (Ready (case downcast v of Some x \<Rightarrow> Inr x | None \<Rightarrow> Inl ''Failed to downcast''), m4) \<and>
    (\<exists>m5. join_poll downcast addr w' m4 = Inr (Pending, m5))"
proof -
  from poll have "ss_waker (shared_heap m1 ! addr) = Some w"
    by (auto simp: join_poll_def Let_def split: if_splits option.splits)
  with complete_spec[OF heap(3,1), of v] heap(2) obtain m3 where m3: "complete addr v m2 = Inr m3"
    "shared_heap m3 = (shared_heap m2)[addr := \<lparr>ss_waker = None, ss_result = Some (Inr v)\<rparr>]"
    "contents (get_queue (wk_queue w) m3) = contents (get_queue (wk_queue w) m2) @ [wk_task w]" by fastforce
  with heap(1) show ?thesis by (auto simp: join_poll_def Let_def)
qed

theorem join_wakes_witness:
  "\<exists>m1 m3. join_poll Some 0 (PluvioWaker QNormal 4) (mem_new\<lparr>shared_heap := [shared_state_new]\<rparr>) = Inr (Pending, m1) \<and>
     complete 0 (AnyVal (9::nat)) m1 = Inr m3 \<and> contents (get_queue QNormal m3) = [4]"
proof -
  let ?w = "PluvioWaker QNormal 4" and ?m = "mem_new\<lparr>shared_heap := [shared_state_new :: nat shared_state]\<rparr>"
  let ?m1 = "?m\<lparr>shared_heap := [\<lparr>ss_waker = Some ?w, ss_result = None\<rparr>]\<rparr>"
  have j: "join_poll Some 0 ?w ?m = Inr (Pending, ?m1)" by (simp add: join_poll_def shared_state_new_def)
  have "queues_wf ?m1" "contents (get_queue QNormal ?m1) = []"
    using queues_wf_mem_new queue_wf_unbounded_channel[where 'a = nat]
    by (simp_all add: queues_wf_def get_queue_def mem_new_def)
  with join_wakes[OF j, of ?m1 "AnyVal 9"] show ?thesis using j by auto
qed

end
