(* ===== verification/Executor.thy ===== *)
theory Executor
  imports Task Reactor "HOL-Library.AList"
begin

section \<open>The executor (\<open>pluvio_runtime/src/executor/mod.rs\<close>, \<open>stat.rs\<close>)\<close>

text \<open>
  The runtime's state is the record \<open>machine\<close>, which extends the memory of tasks. What is not
  code of the repository is the record \<open>env\<close> of parameters: the \<open>slab\<close> crate, the polls of
  user futures, the reactors behind \<open>dyn Reactor\<close>, the clock, the process environment, and the
  iteration order of a \<open>HashMap\<close>. What they promise is stated by \<open>slab_ok\<close> and
  \<open>env_ok\<close>. Logging and the \<open>async_backtrace\<close> dump are not modelled; the calls that give up
  the CPU are recorded in \<open>m_os\<close>.

  The event loop is split into the phases of its source; \<open>run_queue\<close> and \<open>block_on\<close> are
  \<open>partial_function\<close>s in which \<open>None\<close> is a loop that never ends.
\<close>

subsection \<open>Parameters\<close>

record ('p, 't) slab_ops =
  sl_with_capacity :: "nat \<Rightarrow> 'p"
  sl_get :: "'p \<Rightarrow> nat \<Rightarrow> 't option"
  sl_put :: "'p \<Rightarrow> nat \<Rightarrow> 't \<Rightarrow> 'p"
  sl_insert :: "'p \<Rightarrow> 't \<Rightarrow> nat \<times> 'p"
  sl_remove :: "'p \<Rightarrow> nat \<Rightarrow> 'p"
  sl_len :: "'p \<Rightarrow> nat"
  sl_iter :: "'p \<Rightarrow> (nat \<times> 't) list"

text \<open>
  What the \<open>slab\<close> crate documents: a map from keys to values in which an insertion chooses a
  vacant key. \<open>sl_put\<close> is an assignment through the reference \<open>get_mut\<close> answers.
\<close>

definition slab_ok :: "('p, 't) slab_ops \<Rightarrow> bool" where
  "slab_ok S \<longleftrightarrow>
     (\<forall>n. sl_get S (sl_with_capacity S n) = (\<lambda>_. None)) \<and>
     (\<forall>p k v. sl_get S p k \<noteq> None \<longrightarrow> sl_get S (sl_put S p k v) = (sl_get S p)(k \<mapsto> v)) \<and>
     (\<forall>p v k p'. sl_insert S p v = (k, p') \<longrightarrow> sl_get S p k = None \<and> sl_get S p' = (sl_get S p)(k \<mapsto> v)) \<and>
     (\<forall>p k. sl_get S p k \<noteq> None \<longrightarrow> sl_get S (sl_remove S p k) = (sl_get S p)(k := None)) \<and>
     (\<forall>p. finite (dom (sl_get S p)) \<and> sl_len S p = card (dom (sl_get S p))) \<and>
     (\<forall>p. map_of (sl_iter S p) = sl_get S p \<and> distinct (map fst (sl_iter S p)))"

record scheduling_config =
  task_batch_size :: nat
  reactor_poll_interval :: u32
  status_cache_iterations :: u64
  enable_perfetto_tracks :: bool

definition scheduling_config_default :: scheduling_config where
  "scheduling_config_default = \<lparr>task_batch_size = 16, reactor_poll_interval = 8,
     status_cache_iterations = 100, enable_perfetto_tracks = False\<rparr>"

record reactor_wrapper =
  rw_reactor :: nat
  rw_poll_counter :: u64
  rw_enable :: bool
  rw_cached_status :: reactor_status
  rw_cache_valid_until :: u64

record runtime_stat =
  finished_task_stats :: "task_stat list"
  pool_and_completion_time :: u64

definition runtime_stat_new :: runtime_stat where
  "runtime_stat_new = \<lparr>finished_task_stats = [], pool_and_completion_time = 0\<rparr>"

datatype os_call = YieldNow | SleepMicros nat | SleepMillis nat | SetAffinity nat

record ('v, 'p, 'w) machine = "'v task_mem" +
  m_pool :: 'p
  m_reactors :: "(string \<times> reactor_wrapper) list"
  m_stat :: runtime_stat
  m_shutdown :: bool
  m_config :: scheduling_config
  m_iteration :: u64
  m_polling_buf :: "nat list"
  m_task_buf :: "nat list"
  m_idle :: u64
  m_reactor_only :: u64
  m_os :: "os_call list"
  m_world :: 'w

record ('f, 'v, 'p, 'w) env =
  e_slab :: "('p, 'f task option) slab_ops"
  e_user_poll :: "waker \<Rightarrow> ('f, 'v, ('v, 'p, 'w) machine) fut_poll"
  e_reactor_poll :: "nat \<Rightarrow> ('v, 'p, 'w) machine \<Rightarrow> ('v, 'p, 'w) machine run"
  e_reactor_status :: "nat \<Rightarrow> ('v, 'p, 'w) machine \<Rightarrow> reactor_status"
  e_clock :: "nat \<Rightarrow> nat"
  e_var :: "string \<Rightarrow> string option"
  e_hash_order :: "string list \<Rightarrow> string list"

text \<open>\<open>str::parse::<u64>\<close>: an optional plus sign, at least one digit, no overflow.\<close>

fun parse_digits :: "string \<Rightarrow> nat \<Rightarrow> nat option" where
  "parse_digits [] acc = Some acc"
| "parse_digits (c # cs) acc =
     (case digit_value c of
        None \<Rightarrow> None
      | Some d \<Rightarrow> let acc = acc * 10 + d in if acc < 2 ^ 64 then parse_digits cs acc else None)"

definition parse_u64 :: "string \<Rightarrow> u64 option" where
  "parse_u64 s =
     (let ds = (case s of CHR ''+'' # cs \<Rightarrow> cs | _ \<Rightarrow> s)
      in if ds = [] then None else map_option of_nat (parse_digits ds 0))"

definition env_u64 :: "('f, 'v, 'p, 'w) env \<Rightarrow> string \<Rightarrow> u64 \<Rightarrow> u64" where
  "env_u64 E nm dflt =
     (case e_var E nm of None \<Rightarrow> dflt | Some s \<Rightarrow> (case parse_u64 s of None \<Rightarrow> dflt | Some v \<Rightarrow> v))"

subsection \<open>Construction and spawning\<close>

definition with_config :: "('f, 'v, 'p, 'w) env \<Rightarrow> nat \<Rightarrow> scheduling_config \<Rightarrow> 'w \<Rightarrow> ('v, 'p, 'w) machine" where
  "with_config E queue_size config w =
     \<lparr>track_allocator = track_allocator_new, current_track_id = 0,
      task_queue = unbounded_channel, polling_queue = unbounded_channel,
      shared_heap = [], result_holders = [], clock_reads = 0,
      m_pool = sl_with_capacity (e_slab E) queue_size, m_reactors = [], m_stat = runtime_stat_new,
      m_shutdown = False, m_config = config, m_iteration = 0, m_polling_buf = [], m_task_buf = [],
      m_idle = 0, m_reactor_only = 0, m_os = [], m_world = w\<rparr>"

definition runtime_new :: "('f, 'v, 'p, 'w) env \<Rightarrow> nat \<Rightarrow> 'w \<Rightarrow> ('v, 'p, 'w) machine" where
  "runtime_new E queue_size w = with_config E queue_size scheduling_config_default w"

text \<open>\<open>core_ids\<close> is what \<open>core_affinity::get_core_ids\<close> answers: the ids of the cores, if it knows them.\<close>

definition set_affinity :: "nat list option \<Rightarrow> nat \<Rightarrow> ('v, 'p, 'w) machine \<Rightarrow> ('v, 'p, 'w) machine" where
  "set_affinity core_ids cpu_id m =
     (case Option.bind core_ids (find (\<lambda>c. c = cpu_id)) of
        None \<Rightarrow> m
      | Some core \<Rightarrow> m\<lparr>m_os := m_os m @ [SetAffinity core]\<rparr>)"

definition request_shutdown :: "('v, 'p, 'w) machine \<Rightarrow> ('v, 'p, 'w) machine" where
  "request_shutdown m = m\<lparr>m_shutdown := True\<rparr>"

definition is_shutdown_requested :: "('v, 'p, 'w) machine \<Rightarrow> bool" where
  "is_shutdown_requested m = m_shutdown m"

text \<open>
  The common body of the spawning functions: clone the sender, create the task, insert it in the pool,
  send its id. Answers the id and the handle.
\<close>

definition spawn_on ::
  "('f, 'v, 'p, 'w) env \<Rightarrow> queue_id \<Rightarrow> (nat \<Rightarrow> 'f task_future) \<Rightarrow> string option \<Rightarrow> ('v, 'p, 'w) machine \<Rightarrow>
   (nat \<times> nat \<times> ('v, 'p, 'w) machine) run" where
  "spawn_on E q mk nm m =
     (let m = upd_queue q clone_sender m;
          (task, handle, m) = create_task_and_handle mk q nm m;
          (task_id, pool) = sl_insert (e_slab E) (m_pool m) (Some task);
          m = m\<lparr>m_pool := pool\<rparr>
      in run_bind (wake (PluvioWaker q task_id) m) (\<lambda>m. Inr (task_id, handle, m)))"

definition spawn_with_runtime ::
  "('f, 'v, 'p, 'w) env \<Rightarrow> 'f \<Rightarrow> ('v, 'p, 'w) machine \<Rightarrow> (nat \<times> ('v, 'p, 'w) machine) run" where
  "spawn_with_runtime E f m =
     (let wrapped = maybe_tracked f (enable_perfetto_tracks (m_config m))
      in run_bind (spawn_on E QNormal (\<lambda>a. Spawned a wrapped) None m) (\<lambda>(_, h, m). Inr (h, m)))"

definition spawn_polling_with_runtime ::
  "('f, 'v, 'p, 'w) env \<Rightarrow> 'f \<Rightarrow> ('v, 'p, 'w) machine \<Rightarrow> (nat \<times> ('v, 'p, 'w) machine) run" where
  "spawn_polling_with_runtime E f m =
     (let wrapped = maybe_tracked f (enable_perfetto_tracks (m_config m))
      in run_bind (spawn_on E QPolling (\<lambda>a. Spawned a wrapped) None m) (\<lambda>(_, h, m). Inr (h, m)))"

definition spawn_with_name_and_runtime ::
  "('f, 'v, 'p, 'w) env \<Rightarrow> 'f \<Rightarrow> string \<Rightarrow> ('v, 'p, 'w) machine \<Rightarrow> (nat \<times> ('v, 'p, 'w) machine) run" where
  "spawn_with_name_and_runtime E f nm m =
     (let wrapped = maybe_tracked f (enable_perfetto_tracks (m_config m))
      in run_bind (spawn_on E QNormal (\<lambda>a. Spawned a wrapped) (Some nm) m) (\<lambda>(_, h, m). Inr (h, m)))"

definition spawn_polling_with_name_and_runtime ::
  "('f, 'v, 'p, 'w) env \<Rightarrow> 'f \<Rightarrow> string \<Rightarrow> ('v, 'p, 'w) machine \<Rightarrow> (nat \<times> ('v, 'p, 'w) machine) run" where
  "spawn_polling_with_name_and_runtime E f nm m =
     (let wrapped = maybe_tracked f (enable_perfetto_tracks (m_config m))
      in run_bind (spawn_on E QPolling (\<lambda>a. Spawned a wrapped) (Some nm) m) (\<lambda>(_, h, m). Inr (h, m)))"

subsection \<open>Reactors\<close>

definition register_reactor :: "string \<Rightarrow> nat \<Rightarrow> ('v, 'p, 'w) machine \<Rightarrow> ('v, 'p, 'w) machine" where
  "register_reactor i reactor m =
     (let wrapper = \<lparr>rw_reactor = reactor, rw_poll_counter = 0, rw_enable = True,
            rw_cached_status = Stopped, rw_cache_valid_until = 0\<rparr>
      in m\<lparr>m_reactors := AList.update i wrapper (m_reactors m)\<rparr>)"

definition upd_reactor :: "string \<Rightarrow> reactor_wrapper \<Rightarrow> ('v, 'p, 'w) machine \<Rightarrow> ('v, 'p, 'w) machine" where
  "upd_reactor i w m = m\<lparr>m_reactors := AList.update i w (m_reactors m)\<rparr>"

definition get_cached_reactor_status ::
  "('f, 'v, 'p, 'w) env \<Rightarrow> ('v, 'p, 'w) machine \<Rightarrow> reactor_wrapper \<Rightarrow> u64 \<Rightarrow> reactor_status \<times> reactor_wrapper" where
  "get_cached_reactor_status E m wrapper current_iteration =
     (if current_iteration < rw_cache_valid_until wrapper then (rw_cached_status wrapper, wrapper)
      else let status = e_reactor_status E (rw_reactor wrapper) m
           in (status, wrapper\<lparr>rw_cached_status := status,
                 rw_cache_valid_until := current_iteration + status_cache_iterations (m_config m)\<rparr>))"

text \<open>The loop over the reactors, in the map's iteration order; the flag says whether one was polled.\<close>

fun poll_reactors ::
  "('f, 'v, 'p, 'w) env \<Rightarrow> u64 \<Rightarrow> string list \<Rightarrow> ('v, 'p, 'w) machine \<Rightarrow> (bool \<times> ('v, 'p, 'w) machine) run" where
  "poll_reactors E iteration [] m = Inr (False, m)"
| "poll_reactors E iteration (i # is) m =
     (case map_of (m_reactors m) i of
        None \<Rightarrow> poll_reactors E iteration is m
      | Some w \<Rightarrow>
          if \<not> rw_enable w then poll_reactors E iteration is m
          else let (status, w) = get_cached_reactor_status E m w iteration; m = upd_reactor i w m
               in if status = Running
                  then run_bind (e_reactor_poll E (rw_reactor w) m) (\<lambda>m.
                         let m = upd_reactor i (w\<lparr>rw_poll_counter := rw_poll_counter w + 1\<rparr>) m
                         in run_bind (poll_reactors E iteration is m) (\<lambda>(_, m). Inr (True, m)))
                  else poll_reactors E iteration is m)"

subsection \<open>Polling and finishing tasks\<close>

definition poll_task ::
  "('f, 'v, 'p, 'w) env \<Rightarrow> nat \<Rightarrow> ('v, 'p, 'w) machine \<Rightarrow> (unit poll option \<times> ('v, 'p, 'w) machine) run" where
  "poll_task E task_id m =
     (case sl_get (e_slab E) (m_pool m) task_id of
        None \<Rightarrow> Inr (None, m)
      | Some None \<Rightarrow> Inr (None, m)
      | Some (Some task) \<Rightarrow>
          let m = m\<lparr>m_pool := sl_put (e_slab E) (m_pool m) task_id None\<rparr>
          in run_bind (task_poll (e_clock E) (e_user_poll E) task task_id m) (\<lambda>(ret, task, m).
               let m = (if sl_get (e_slab E) (m_pool m) task_id \<noteq> None
                        then m\<lparr>m_pool := sl_put (e_slab E) (m_pool m) task_id (Some task)\<rparr> else m)
               in Inr (Some ret, m)))"

text \<open>\<open>eq_ignore_ascii_case\<close> on the ASCII letters.\<close>

definition ascii_lower :: "char \<Rightarrow> char" where
  "ascii_lower c = (let n = (of_char c :: nat) in if 65 \<le> n \<and> n \<le> 90 then char_of (n + 32) else c)"

definition retain_stats :: "('f, 'v, 'p, 'w) env \<Rightarrow> bool" where
  "retain_stats E =
     (case e_var E ''PLUVIO_RETAIN_TASK_STATS'' of
        None \<Rightarrow> False
      | Some v \<Rightarrow> v = ''1'' \<or> map ascii_lower v = ''true'')"

text \<open>\<open>add_task_stat\<close> on the slot \<open>get_mut\<close> answered; it takes the statistics out of the task.\<close>

definition add_task_stat ::
  "bool \<Rightarrow> runtime_stat \<Rightarrow> 'f task option option \<Rightarrow> (runtime_stat \<times> 'f task option option) run" where
  "add_task_stat retain st slot =
     (case slot of
        Some (Some t) \<Rightarrow>
          run_bind (unwrap_or_panic ''called `Option::unwrap()` on a `None` value'' (t_stat t)) (\<lambda>s.
            let s = s\<lparr>stat_running := False\<rparr>
            in Inr (if retain then st\<lparr>finished_task_stats := finished_task_stats st @ [s]\<rparr> else st,
                    Some (Some (t\<lparr>t_stat := None\<rparr>))))
      | _ \<Rightarrow> Inr (st, slot))"

definition add_pool_and_completion_time :: "runtime_stat \<Rightarrow> u64 \<Rightarrow> runtime_stat" where
  "add_pool_and_completion_time st time =
     st\<lparr>pool_and_completion_time := pool_and_completion_time st + time\<rparr>"

text \<open>What follows a \<open>Ready\<close> poll: record the statistics, remove (and so drop) the task.\<close>

definition finish_task ::
  "('f, 'v, 'p, 'w) env \<Rightarrow> nat \<Rightarrow> ('v, 'p, 'w) machine \<Rightarrow> ('v, 'p, 'w) machine run" where
  "finish_task E task_id m =
     run_bind (add_task_stat (retain_stats E) (m_stat m) (sl_get (e_slab E) (m_pool m) task_id)) (\<lambda>(st, slot).
       case slot of
         None \<Rightarrow> Inl (Panic ''invalid key'')
       | Some t \<Rightarrow>
           let m = m\<lparr>m_stat := st, m_pool := sl_remove (e_slab E) (m_pool m) task_id\<rparr>
           in Inr (case t of Some t \<Rightarrow> upd_queue (t_sender t) drop_sender m | None \<Rightarrow> m))"

text \<open>The loop over a buffer of task ids; the flag says whether a task completed.\<close>

fun process_tasks ::
  "('f, 'v, 'p, 'w) env \<Rightarrow> nat list \<Rightarrow> ('v, 'p, 'w) machine \<Rightarrow> (bool \<times> ('v, 'p, 'w) machine) run" where
  "process_tasks E [] m = Inr (False, m)"
| "process_tasks E (task_id # ids) m =
     run_bind (poll_task E task_id m) (\<lambda>(ret, m).
       if ret = Some (Ready ())
       then run_bind (finish_task E task_id m) (\<lambda>m.
              run_bind (process_tasks E ids m) (\<lambda>(_, m). Inr (True, m)))
       else process_tasks E ids m)"

subsection \<open>The phases of an iteration\<close>

text \<open>Everything that is in the polling queue now goes to the reusable buffer.\<close>

definition drain_polling :: "('v, 'p, 'w) machine \<Rightarrow> ('v, 'p, 'w) machine run option" where
  "drain_polling m =
     (case chan_drain recv_ok [] (polling_queue m) of
        None \<Rightarrow> None
      | Some (Inl e) \<Rightarrow> Some (Inl e)
      | Some (Inr (ids, q)) \<Rightarrow> Some (Inr (m\<lparr>m_polling_buf := ids, polling_queue := q\<rparr>)))"

text \<open>Up to \<open>task_batch_size\<close> ids of the normal queue go to the other buffer.\<close>

definition fill_batch :: "('v, 'p, 'w) machine \<Rightarrow> ('v, 'p, 'w) machine run" where
  "fill_batch m =
     run_bind (chan_take recv_ok (task_batch_size (m_config m)) (task_queue m)) (\<lambda>(ids, q).
       Inr (m\<lparr>m_task_buf := ids, task_queue := q\<rparr>))"

text \<open>
  \<open>has_pending || is_early || iteration % interval == 0\<close>, where the remainder by a zero interval
  panics but is only computed when the first two fail.
\<close>

definition interval_due :: "('v, 'p, 'w) machine \<Rightarrow> u64 \<Rightarrow> bool run" where
  "interval_due m iteration =
     (if m_polling_buf m \<noteq> [] \<or> iteration \<le> 1 then Inr True
      else let n = (ucast (reactor_poll_interval (m_config m)) :: u64)
           in if n = 0 then Inl (Panic ''attempt to calculate the remainder with a divisor of zero'')
              else Inr (iteration mod n = 0))"

definition should_poll_reactors ::
  "('f, 'v, 'p, 'w) env \<Rightarrow> u64 \<Rightarrow> ('v, 'p, 'w) machine \<Rightarrow> (bool \<times> ('v, 'p, 'w) machine) run" where
  "should_poll_reactors E iteration m =
     (let safety_bound = env_u64 E ''PLUVIO_MAX_REACTOR_ONLY'' 1000000;
          safety_override = safety_bound \<le> m_reactor_only m;
          m = (if safety_override then m\<lparr>m_reactor_only := 0\<rparr> else m)
      in if safety_override then Inr (False, m)
         else run_bind (interval_due m iteration) (\<lambda>b. Inr (b, m)))"

definition reactor_ids :: "('f, 'v, 'p, 'w) env \<Rightarrow> ('v, 'p, 'w) machine \<Rightarrow> string list" where
  "reactor_ids E m = e_hash_order E (map fst (m_reactors m))"

text \<open>The accounting of reactor-only iterations and the idle parking.\<close>

definition count_reactor_only :: "bool \<Rightarrow> bool \<Rightarrow> ('v, 'p, 'w) machine \<Rightarrow> ('v, 'p, 'w) machine" where
  "count_reactor_only completed polled m =
     (if \<not> completed \<and> polled then m\<lparr>m_reactor_only := m_reactor_only m + 1\<rparr>
      else if completed then m\<lparr>m_reactor_only := 0\<rparr> else m)"

definition idle_park :: "('f, 'v, 'p, 'w) env \<Rightarrow> bool \<Rightarrow> ('v, 'p, 'w) machine \<Rightarrow> ('v, 'p, 'w) machine" where
  "idle_park E completed m =
     (let enabled = (case e_var E ''PLUVIO_IDLE_PARK'' of None \<Rightarrow> False | Some v \<Rightarrow> v \<noteq> ''0'')
      in if enabled \<and> \<not> completed then
           let idle_iter = m_idle m + 1;
               m = m\<lparr>m_idle := idle_iter\<rparr>;
               yield_after = env_u64 E ''PLUVIO_IDLE_YIELD_AFTER'' 10000;
               sleep_after = env_u64 E ''PLUVIO_IDLE_SLEEP_AFTER'' 100000
           in if yield_after \<le> idle_iter
              then if idle_iter < sleep_after then m\<lparr>m_os := m_os m @ [YieldNow]\<rparr>
                   else m\<lparr>m_os := m_os m @ [SleepMicros 10]\<rparr>
              else m
         else m\<lparr>m_idle := 0\<rparr>)"

text \<open>
  One iteration of the loop of \<open>run_queue\<close>, up to the stuck check: the flag is
  \<open>made_progress\<close>.
\<close>

definition run_iteration ::
  "('f, 'v, 'p, 'w) env \<Rightarrow> ('v, 'p, 'w) machine \<Rightarrow> (bool \<times> ('v, 'p, 'w) machine) run option" where
  "run_iteration E m =
     (let iteration = m_iteration m; m = m\<lparr>m_iteration := iteration + 1\<rparr>
      in case drain_polling m of
           None \<Rightarrow> None
         | Some r \<Rightarrow> Some (run_bind r (\<lambda>m.
             run_bind (should_poll_reactors E iteration m) (\<lambda>(should_poll, m).
             run_bind (if should_poll then poll_reactors E iteration (reactor_ids E m) m else Inr (False, m)) (\<lambda>(p1, m).
             run_bind (process_tasks E (m_polling_buf m) m) (\<lambda>(p2, m).
             run_bind (fill_batch m) (\<lambda>m.
             run_bind (process_tasks E (m_task_buf m) m) (\<lambda>(completed, m).
               Inr (p1 \<or> p2 \<or> completed,
                    idle_park E completed (count_reactor_only completed should_poll m))))))))))"

text \<open>
  The stuck check: \<open>None\<close> is the \<open>break\<close>, otherwise the new counter, sleep duration and
  machine.
\<close>

definition stuck_check ::
  "u64 \<Rightarrow> bool \<Rightarrow> u64 \<Rightarrow> nat \<Rightarrow> ('v, 'p, 'w) machine \<Rightarrow> (u64 \<times> nat \<times> ('v, 'p, 'w) machine) option" where
  "stuck_check max_stuck made_progress stuck sleep_duration m =
     (if \<not> made_progress then
        let stuck = stuck + 1
        in if max_stuck < stuck then None
           else if stuck mod 10000 = 0 then
             let sleep_duration = (if sleep_duration < 1024 then sleep_duration * 2 else sleep_duration)
             in Some (stuck, sleep_duration, m\<lparr>m_os := m_os m @ [SleepMillis sleep_duration]\<rparr>)
           else Some (stuck, sleep_duration, m)
      else Some (0, 1, m))"

subsection \<open>The event loops\<close>

partial_function (option) run_loop ::
  "('f, 'v, 'p, 'w) env \<Rightarrow> u64 \<Rightarrow> u64 \<Rightarrow> nat \<Rightarrow> ('v, 'p, 'w) machine \<Rightarrow> ('v, 'p, 'w) machine run option" where
  "run_loop E max_stuck stuck sleep_duration m =
     (if sl_len (e_slab E) (m_pool m) = 0 then Some (Inr m)
      else if m_shutdown m then Some (Inr m)
      else case run_iteration E m of
             None \<Rightarrow> None
           | Some (Inl e) \<Rightarrow> Some (Inl e)
           | Some (Inr (made_progress, m')) \<Rightarrow>
               (case stuck_check max_stuck made_progress stuck sleep_duration m' of
                  None \<Rightarrow> Some (Inr m')
                | Some (stuck', sleep', m'') \<Rightarrow> run_loop E max_stuck stuck' sleep' m''))"

definition run_queue :: "('f, 'v, 'p, 'w) env \<Rightarrow> ('v, 'p, 'w) machine \<Rightarrow> ('v, 'p, 'w) machine run option" where
  "run_queue E m = run_loop E (env_u64 E ''PLUVIO_MAX_STUCK_ITERATIONS'' 1000000) 0 1 m"

text \<open>One iteration of the loop of \<open>block_on\<close>: as above without the safety bound and the parking.\<close>

definition block_iteration ::
  "('f, 'v, 'p, 'w) env \<Rightarrow> ('v, 'p, 'w) machine \<Rightarrow> (bool \<times> ('v, 'p, 'w) machine) run option" where
  "block_iteration E m =
     (let iteration = m_iteration m; m = m\<lparr>m_iteration := iteration + 1\<rparr>
      in case drain_polling m of
           None \<Rightarrow> None
         | Some r \<Rightarrow> Some (run_bind r (\<lambda>m.
             run_bind (interval_due m iteration) (\<lambda>should_poll.
             run_bind (if should_poll then poll_reactors E iteration (reactor_ids E m) m else Inr (False, m)) (\<lambda>(p1, m).
             run_bind (process_tasks E (m_polling_buf m) m) (\<lambda>(p2, m).
             run_bind (fill_batch m) (\<lambda>m.
             run_bind (process_tasks E (m_task_buf m) m) (\<lambda>(completed, m).
               Inr (p1 \<or> p2 \<or> completed, m)))))))))"

partial_function (option) block_loop ::
  "('f, 'v, 'p, 'w) env \<Rightarrow> u64 \<Rightarrow> nat \<Rightarrow> u64 \<Rightarrow> ('v, 'p, 'w) machine \<Rightarrow> ('v, 'p, 'w) machine run option" where
  "block_loop E max_stuck target stuck m =
     (if sl_get (e_slab E) (m_pool m) target = None then Some (Inr m)
      else case block_iteration E m of
             None \<Rightarrow> None
           | Some (Inl e) \<Rightarrow> Some (Inl e)
           | Some (Inr (made_progress, m')) \<Rightarrow>
               (if \<not> made_progress then
                  if max_stuck < stuck + 1 then Some (Inl (Panic ''block_on deadlock detected''))
                  else block_loop E max_stuck target (stuck + 1) (m'\<lparr>m_os := m_os m' @ [YieldNow]\<rparr>)
                else block_loop E max_stuck target 0 m'))"

definition block_on_with_name_and_runtime ::
  "('f, 'v, 'p, 'w) env \<Rightarrow> string \<Rightarrow> 'f \<Rightarrow> ('v, 'p, 'w) machine \<Rightarrow> ('v \<times> ('v, 'p, 'w) machine) run option" where
  "block_on_with_name_and_runtime E nm f m =
     (let holder = length (result_holders m);
          m = m\<lparr>result_holders := result_holders m @ [None]\<rparr>
      in case spawn_on E QNormal (\<lambda>a. BlockOn a holder f) (Some nm) m of
           Inl e \<Rightarrow> Some (Inl e)
         | Inr (target, _, m) \<Rightarrow>
             (case block_loop E (env_u64 E ''PLUVIO_MAX_STUCK_ITERATIONS'' 1000000) target 0 m of
                None \<Rightarrow> None
              | Some (Inl e) \<Rightarrow> Some (Inl e)
              | Some (Inr m) \<Rightarrow>
                  (case result_holders m ! holder of
                     None \<Rightarrow> Some (Inl (Panic ''Task completed but result was not set''))
                   | Some v \<Rightarrow> Some (Inr (v, m\<lparr>result_holders := (result_holders m)[holder := None]\<rparr>)))))"

declare run_loop.simps [code] block_loop.simps [code]

definition block_on_with_runtime ::
  "('f, 'v, 'p, 'w) env \<Rightarrow> 'f \<Rightarrow> ('v, 'p, 'w) machine \<Rightarrow> ('v \<times> ('v, 'p, 'w) machine) run option" where
  "block_on_with_runtime E f m = block_on_with_name_and_runtime E ''unnamed_block_on'' f m"

definition run_with_name_and_runtime ::
  "('f, 'v, 'p, 'w) env \<Rightarrow> string \<Rightarrow> 'f \<Rightarrow> ('v, 'p, 'w) machine \<Rightarrow> ('v, 'p, 'w) machine run option" where
  "run_with_name_and_runtime E nm f m =
     (case spawn_with_name_and_runtime E f nm m of
        Inl e \<Rightarrow> Some (Inl e)
      | Inr (_, m) \<Rightarrow> run_queue E m)"

definition run_with_runtime ::
  "('f, 'v, 'p, 'w) env \<Rightarrow> 'f \<Rightarrow> ('v, 'p, 'w) machine \<Rightarrow> ('v, 'p, 'w) machine run option" where
  "run_with_runtime E f m = run_with_name_and_runtime E ''unnamed_run'' f m"

subsection \<open>\<open>progress\<close>\<close>

fun progress_reactors ::
  "('f, 'v, 'p, 'w) env \<Rightarrow> string list \<Rightarrow> ('v, 'p, 'w) machine \<Rightarrow> ('v, 'p, 'w) machine run" where
  "progress_reactors E [] m = Inr m"
| "progress_reactors E (i # is) m =
     (case map_of (m_reactors m) i of
        None \<Rightarrow> progress_reactors E is m
      | Some w \<Rightarrow>
          if rw_enable w \<and> e_reactor_status E (rw_reactor w) m = Running
          then run_bind (e_reactor_poll E (rw_reactor w) m) (\<lambda>m.
                 progress_reactors E is (upd_reactor i (w\<lparr>rw_poll_counter := rw_poll_counter w + 1\<rparr>) m))
          else progress_reactors E is m)"

text \<open>The loop over the normal queue, at most \<open>k\<close> more ids.\<close>

fun progress_tasks ::
  "('f, 'v, 'p, 'w) env \<Rightarrow> nat \<Rightarrow> ('v, 'p, 'w) machine \<Rightarrow> ('v, 'p, 'w) machine run" where
  "progress_tasks E 0 m = Inr m"
| "progress_tasks E (Suc k) m =
     run_bind (recv_ok (task_queue m)) (\<lambda>(r, q).
       let m = m\<lparr>task_queue := q\<rparr>
       in case r of
            None \<Rightarrow> Inr m
          | Some task_id \<Rightarrow>
              run_bind (poll_task E task_id m) (\<lambda>(ret, m).
                if ret = Some (Ready ())
                then run_bind (finish_task E task_id m) (progress_tasks E k)
                else progress_tasks E k m))"

definition progress :: "('f, 'v, 'p, 'w) env \<Rightarrow> ('v, 'p, 'w) machine \<Rightarrow> ('v, 'p, 'w) machine run option" where
  "progress E m =
     (case progress_reactors E (reactor_ids E m) m of
        Inl e \<Rightarrow> Some (Inl e)
      | Inr m \<Rightarrow>
          (case drain_polling m of
             None \<Rightarrow> None
           | Some r \<Rightarrow> Some (run_bind r (\<lambda>m.
               run_bind (process_tasks E (m_polling_buf m) m) (\<lambda>(_, m). progress_tasks E 100 m)))))"

subsection \<open>Statistics queries\<close>

fun str_contains :: "string \<Rightarrow> string \<Rightarrow> bool" where
  "str_contains pat [] = (pat = [])"
| "str_contains pat (c # cs) = (take (length pat) (c # cs) = pat \<or> str_contains pat cs)"

definition running_stats :: "('f, 'v, 'p, 'w) env \<Rightarrow> ('v, 'p, 'w) machine \<Rightarrow> task_stat list" where
  "running_stats E m = List.map_filter (\<lambda>(_, t). Option.bind t t_stat) (sl_iter (e_slab E) (m_pool m))"

definition name_or_empty :: "task_stat \<Rightarrow> string" where
  "name_or_empty s = (case task_name s of None \<Rightarrow> [] | Some n \<Rightarrow> n)"

definition get_stats_by_name ::
  "('f, 'v, 'p, 'w) env \<Rightarrow> ('v, 'p, 'w) machine \<Rightarrow> string \<Rightarrow> task_stat list" where
  "get_stats_by_name E m nm =
     filter (\<lambda>s. str_contains nm (name_or_empty s)) (running_stats E m) @
     filter (\<lambda>s. task_name s = Some nm) (finished_task_stats (m_stat m))"

definition get_total_time :: "('v, 'p, 'w) machine \<Rightarrow> string \<Rightarrow> u64" where
  "get_total_time m nm =
     sum_list (map execute_time_ns
       (filter (\<lambda>s. str_contains nm (name_or_empty s)) (finished_task_stats (m_stat m))))"

definition get_reactor_polling_time :: "('v, 'p, 'w) machine \<Rightarrow> u64" where
  "get_reactor_polling_time m = pool_and_completion_time (m_stat m)"

text \<open>\<open>max_by_key\<close> answers the last of the greatest elements.\<close>

fun max_by_key :: "('a \<Rightarrow> 'k::linorder) \<Rightarrow> 'a list \<Rightarrow> 'a option" where
  "max_by_key key [] = None"
| "max_by_key key (x # xs) =
     (case max_by_key key xs of
        None \<Rightarrow> Some x
      | Some y \<Rightarrow> if key y < key x then Some x else Some y)"

definition get_longest_running_task :: "('v, 'p, 'w) machine \<Rightarrow> task_stat option" where
  "get_longest_running_task m =
     max_by_key (\<lambda>s. case get_elapsed_real_time s of None \<Rightarrow> (0::u64) | Some d \<Rightarrow> of_nat d)
       (filter (\<lambda>s. stat_running s = False) (finished_task_stats (m_stat m)))"

subsection \<open>The thread-local runtime\<close>

type_synonym ('v, 'p, 'w) runtime_slot = "('v, 'p, 'w) machine option"

definition set_runtime :: "('v, 'p, 'w) machine \<Rightarrow> ('v, 'p, 'w) runtime_slot \<Rightarrow> ('v, 'p, 'w) runtime_slot" where
  "set_runtime rt slot = Some rt"

definition get_runtime :: "('v, 'p, 'w) runtime_slot \<Rightarrow> ('v, 'p, 'w) machine option" where
  "get_runtime slot = slot"

definition clear_runtime :: "('v, 'p, 'w) runtime_slot \<Rightarrow> ('v, 'p, 'w) runtime_slot" where
  "clear_runtime slot = None"

definition with_tls ::
  "(('v, 'p, 'w) machine \<Rightarrow> ('a \<times> ('v, 'p, 'w) machine) run) \<Rightarrow> ('v, 'p, 'w) runtime_slot \<Rightarrow>
   ('a \<times> ('v, 'p, 'w) runtime_slot) run" where
  "with_tls f slot =
     run_bind (unwrap_or_panic ''No runtime set in thread-local storage. Call set_runtime first.'' (get_runtime slot))
       (\<lambda>m. run_bind (f m) (\<lambda>(a, m). Inr (a, Some m)))"

definition spawn :: "('f, 'v, 'p, 'w) env \<Rightarrow> 'f \<Rightarrow> ('v, 'p, 'w) runtime_slot \<Rightarrow> (nat \<times> ('v, 'p, 'w) runtime_slot) run" where
  "spawn E f = with_tls (spawn_with_runtime E f)"

definition spawn_polling ::
  "('f, 'v, 'p, 'w) env \<Rightarrow> 'f \<Rightarrow> ('v, 'p, 'w) runtime_slot \<Rightarrow> (nat \<times> ('v, 'p, 'w) runtime_slot) run" where
  "spawn_polling E f = with_tls (spawn_polling_with_runtime E f)"

definition spawn_with_name ::
  "('f, 'v, 'p, 'w) env \<Rightarrow> 'f \<Rightarrow> string \<Rightarrow> ('v, 'p, 'w) runtime_slot \<Rightarrow> (nat \<times> ('v, 'p, 'w) runtime_slot) run" where
  "spawn_with_name E f nm = with_tls (spawn_with_name_and_runtime E f nm)"

definition spawn_polling_with_name ::
  "('f, 'v, 'p, 'w) env \<Rightarrow> 'f \<Rightarrow> string \<Rightarrow> ('v, 'p, 'w) runtime_slot \<Rightarrow> (nat \<times> ('v, 'p, 'w) runtime_slot) run" where
  "spawn_polling_with_name E f nm = with_tls (spawn_polling_with_name_and_runtime E f nm)"

definition run_tls ::
  "('f, 'v, 'p, 'w) env \<Rightarrow> 'f \<Rightarrow> ('v, 'p, 'w) runtime_slot \<Rightarrow> ('v, 'p, 'w) runtime_slot run option" where
  "run_tls E f slot =
     (case get_runtime slot of
        None \<Rightarrow> Some (Inl (Panic ''No runtime set in thread-local storage. Call set_runtime first.''))
      | Some m \<Rightarrow> map_option (\<lambda>r. run_bind r (\<lambda>m. Inr (Some m))) (run_with_runtime E f m))"

definition run_with_name ::
  "('f, 'v, 'p, 'w) env \<Rightarrow> string \<Rightarrow> 'f \<Rightarrow> ('v, 'p, 'w) runtime_slot \<Rightarrow> ('v, 'p, 'w) runtime_slot run option" where
  "run_with_name E nm f slot =
     (case get_runtime slot of
        None \<Rightarrow> Some (Inl (Panic ''No runtime set in thread-local storage. Call set_runtime first.''))
      | Some m \<Rightarrow> map_option (\<lambda>r. run_bind r (\<lambda>m. Inr (Some m))) (run_with_name_and_runtime E nm f m))"

subsection \<open>What user code may do\<close>

text \<open>
  The calls a task (or a reactor) can make on the runtime while it is polled: each is one of the
  functions above. \<open>AWorld\<close> is any change of the rest of the process.
\<close>

inductive api_step :: "('f, 'v, 'p, 'w) env \<Rightarrow> ('v, 'p, 'w) machine \<Rightarrow> ('v, 'p, 'w) machine \<Rightarrow> bool" for E where
  ASpawn: "spawn_on E q (\<lambda>a. Spawned a f) nm m = Inr (i, h, m') \<Longrightarrow> api_step E m m'"
| AWake: "wake w m = Inr m' \<Longrightarrow> api_step E m m'"
| AJoin: "join_poll Some a w m = Inr (r, m') \<Longrightarrow> api_step E m m'"
| AShutdown: "api_step E m (request_shutdown m)"
| ANow: "api_step E m (snd (instant_now (e_clock E) m))"
| ATrack: "api_step E m (m\<lparr>track_allocator := ta, current_track_id := ti\<rparr>)"
| ACloneSender: "api_step E m (upd_queue q clone_sender m)"
| ADropSender: "api_step E m (upd_queue q drop_sender m)"
| AWorld: "api_step E m (m\<lparr>m_world := w\<rparr>)"

text \<open>
  What the parameters promise: the slab behaves as documented; a poll of a user future or of a reactor
  neither panics nor does anything but make such calls (so it does not poll the executor
  recursively, which would find its buffers borrowed); \<open>HashMap::iter\<close> visits the keys.
\<close>

definition env_ok :: "('f, 'v, 'p, 'w) env \<Rightarrow> bool" where
  "env_ok E \<longleftrightarrow> slab_ok (e_slab E) \<and>
     (\<forall>w f m. queues_wf m \<longrightarrow> (\<exists>r f' m'. e_user_poll E w f m = Inr (r, f', m') \<and> (api_step E)\<^sup>*\<^sup>* m m')) \<and>
     (\<forall>i m. queues_wf m \<longrightarrow> (\<exists>m'. e_reactor_poll E i m = Inr m' \<and> (api_step E)\<^sup>*\<^sup>* m m')) \<and>
     (\<forall>ks. set (e_hash_order E ks) = set ks)"

subsection \<open>Invariant\<close>

text \<open>
  A task in the pool has its statistics, has not completed, and the cells it writes its result to exist.
\<close>

definition task_wf :: "('v, 'z) mem \<Rightarrow> 'f task \<Rightarrow> bool" where
  "task_wf m t \<longleftrightarrow> t_stat t \<noteq> None \<and>
     (case t_future t of
        Spawned a _ \<Rightarrow> a < length (shared_heap m)
      | BlockOn a h _ \<Rightarrow> a < length (shared_heap m) \<and> h < length (result_holders m)
      | Completed \<Rightarrow> False)"

definition rt_inv :: "('f, 'v, 'p, 'w) env \<Rightarrow> ('v, 'p, 'w) machine \<Rightarrow> bool" where
  "rt_inv E m \<longleftrightarrow> queues_wf m \<and> reactor_poll_interval (m_config m) \<noteq> 0 \<and>
     (\<forall>k t. sl_get (e_slab E) (m_pool m) k = Some (Some t) \<longrightarrow> task_wf m t)"

text \<open>What a poll leaves alone.\<close>

definition api_frame :: "('f, 'v, 'p, 'w) env \<Rightarrow> ('v, 'p, 'w) machine \<Rightarrow> ('v, 'p, 'w) machine \<Rightarrow> bool" where
  "api_frame E m m' \<longleftrightarrow>
     (\<forall>k. sl_get (e_slab E) (m_pool m) k \<noteq> None \<longrightarrow> sl_get (e_slab E) (m_pool m') k = sl_get (e_slab E) (m_pool m) k) \<and>
     length (shared_heap m) \<le> length (shared_heap m') \<and> length (result_holders m') = length (result_holders m) \<and>
     m_config m' = m_config m \<and> m_polling_buf m' = m_polling_buf m \<and> m_task_buf m' = m_task_buf m \<and>
     m_iteration m' = m_iteration m \<and> m_reactors m' = m_reactors m \<and> m_stat m' = m_stat m \<and>
     m_idle m' = m_idle m \<and> m_reactor_only m' = m_reactor_only m \<and> m_os m' = m_os m"

lemma upd_queue_machine [simp]:
  fixes m :: "('v, 'p, 'w) machine"
  shows "m_pool (upd_queue q f m) = m_pool m" "m_reactors (upd_queue q f m) = m_reactors m"
    "m_stat (upd_queue q f m) = m_stat m" "m_shutdown (upd_queue q f m) = m_shutdown m"
    "m_config (upd_queue q f m) = m_config m" "m_iteration (upd_queue q f m) = m_iteration m"
    "m_polling_buf (upd_queue q f m) = m_polling_buf m" "m_task_buf (upd_queue q f m) = m_task_buf m"
    "m_idle (upd_queue q f m) = m_idle m" "m_reactor_only (upd_queue q f m) = m_reactor_only m"
    "m_os (upd_queue q f m) = m_os m" "m_world (upd_queue q f m) = m_world m"
  by (cases q; simp add: upd_queue_def)+

lemma get_queue_mem [simp]:
  "get_queue q (m\<lparr>shared_heap := x1\<rparr>) = get_queue q m" "get_queue q (m\<lparr>result_holders := x2\<rparr>) = get_queue q m"
  "get_queue q (m\<lparr>clock_reads := x3\<rparr>) = get_queue q m" "get_queue q (m\<lparr>track_allocator := x4\<rparr>) = get_queue q m"
  "get_queue q (m\<lparr>current_track_id := x5\<rparr>) = get_queue q m"
  by (cases q; simp add: get_queue_def)+

lemma get_queue_machine [simp]:
  fixes m :: "('v, 'p, 'w) machine"
  shows "get_queue q (m\<lparr>m_pool := x1\<rparr>) = get_queue q m" "get_queue q (m\<lparr>m_reactors := x2\<rparr>) = get_queue q m"
    "get_queue q (m\<lparr>m_stat := x3\<rparr>) = get_queue q m" "get_queue q (m\<lparr>m_shutdown := x4\<rparr>) = get_queue q m"
    "get_queue q (m\<lparr>m_iteration := x5\<rparr>) = get_queue q m" "get_queue q (m\<lparr>m_polling_buf := x6\<rparr>) = get_queue q m"
    "get_queue q (m\<lparr>m_task_buf := x7\<rparr>) = get_queue q m" "get_queue q (m\<lparr>m_idle := x8\<rparr>) = get_queue q m"
    "get_queue q (m\<lparr>m_reactor_only := x9\<rparr>) = get_queue q m" "get_queue q (m\<lparr>m_os := x10\<rparr>) = get_queue q m"
    "get_queue q (m\<lparr>m_world := x11\<rparr>) = get_queue q m"
  by (cases q; simp add: get_queue_def)+

lemma wake_machine:
  fixes m :: "('v, 'p, 'w) machine"
  assumes "queues_wf m"
  obtains c where "wake w m = Inr (upd_queue (wk_queue w) (\<lambda>_. c) m)" "queue_wf c"
    "contents c = contents (get_queue (wk_queue w) m) @ [wk_task w]"
    "in_sender_count c = in_sender_count (get_queue (wk_queue w) m)"
proof -
  from wake_spec[OF assms, of w] obtain m' where m': "wake w m = Inr m'" "queues_wf m'"
    "contents (get_queue (wk_queue w) m') = contents (get_queue (wk_queue w) m) @ [wk_task w]"
    "in_sender_count (get_queue (wk_queue w) m') = in_sender_count (get_queue (wk_queue w) m)"
    "m' = upd_queue (wk_queue w) (\<lambda>_. get_queue (wk_queue w) m') m" by blast
  then show thesis using that[of "get_queue (wk_queue w) m'"] by (simp add: queues_wf_get)
qed

lemma slab_okD:
  assumes "slab_ok S"
  shows "sl_get S p k \<noteq> None \<Longrightarrow> sl_get S (sl_put S p k v) = (sl_get S p)(k \<mapsto> v)"
    "sl_insert S p v = (k, p') \<Longrightarrow> sl_get S p k = None"
    "sl_insert S p v = (k, p') \<Longrightarrow> sl_get S p' = (sl_get S p)(k \<mapsto> v)"
    "sl_get S p k \<noteq> None \<Longrightarrow> sl_get S (sl_remove S p k) = (sl_get S p)(k := None)"
    "sl_get S (sl_with_capacity S n) = (\<lambda>_. None)"
    "sl_len S p = card (dom (sl_get S p))" "finite (dom (sl_get S p))"
    "map_of (sl_iter S p) = sl_get S p"
  using assms unfolding slab_ok_def by blast+

text \<open>
  Spawning always succeeds: a fresh id and a fresh shared cell, the task in the pool, its id at the
  end of its queue.
\<close>

lemma spawn_on_spec:
  fixes m :: "('v, 'p, 'w) machine"
  assumes S: "slab_ok (e_slab E)" and wf: "queues_wf m"
  shows "\<exists>i m'. spawn_on E q mk nm m = Inr (i, length (shared_heap m), m') \<and> queues_wf m' \<and>
    sl_get (e_slab E) (m_pool m) i = None \<and>
    sl_get (e_slab E) (m_pool m') = (sl_get (e_slab E) (m_pool m))(i \<mapsto> Some (task_new (mk (length (shared_heap m))) q nm)) \<and>
    shared_heap m' = shared_heap m @ [shared_state_new] \<and>
    contents (get_queue q m') = contents (get_queue q m) @ [i] \<and>
    (\<forall>q'. q' \<noteq> q \<longrightarrow> get_queue q' m' = get_queue q' m) \<and>
    (\<exists>c. m' = upd_queue q (\<lambda>_. c) (m\<lparr>shared_heap := shared_heap m', m_pool := m_pool m'\<rparr>))"
proof -
  let ?m1 = "upd_queue q clone_sender m"
  let ?t = "task_new (mk (length (shared_heap m))) q nm"
  obtain i pool where ins: "sl_insert (e_slab E) (m_pool m) (Some ?t) = (i, pool)" by fastforce
  let ?m2 = "(?m1\<lparr>shared_heap := shared_heap m @ [shared_state_new]\<rparr>)\<lparr>m_pool := pool\<rparr>"
  have gq: "get_queue q' ?m2 = get_queue q' ?m1" for q' by simp
  have wf2: "queues_wf ?m2" using wf by (simp add: queues_wf_get gq)
  obtain c where c: "wake (PluvioWaker q i) ?m2 = Inr (upd_queue q (\<lambda>_. c) ?m2)" "queue_wf c"
    "contents c = contents (get_queue q ?m2) @ [i]"
    using wake_machine[OF wf2, of "PluvioWaker q i"] by auto
  let ?m3 = "upd_queue q (\<lambda>_. c) ?m2"
  have run: "spawn_on E q mk nm m = Inr (i, length (shared_heap m), ?m3)"
    by (simp add: spawn_on_def create_task_and_handle_def Let_def ins c)
  have cc: "contents (clone_sender d) = contents d" for d :: "nat inner" by (simp add: clone_sender_def)
  have "queues_wf ?m3" using wf c by (auto simp: queues_wf_get)
  moreover have "?m3 = upd_queue q (\<lambda>_. c) (m\<lparr>shared_heap := shared_heap ?m3, m_pool := m_pool ?m3\<rparr>)"
    by (cases q) (simp_all add: upd_queue_def)
  ultimately show ?thesis using run slab_okD(2,3)[OF S ins] c by (auto simp: gq cc)
qed

lemma api_frame_refl [simp]: "api_frame E m m"
  by (simp add: api_frame_def)

lemma api_frame_trans: "api_frame E m m1 \<Longrightarrow> api_frame E m1 m2 \<Longrightarrow> api_frame E m m2"
  unfolding api_frame_def by (metis le_trans)

lemma task_wf_mono:
  "task_wf m t \<Longrightarrow> length (shared_heap m) \<le> length (shared_heap m') \<Longrightarrow>
   length (result_holders m) \<le> length (result_holders m') \<Longrightarrow> task_wf m' t"
  by (auto simp: task_wf_def split: task_future.splits)

lemma rt_inv_same_pool:
  "rt_inv E m \<Longrightarrow> queues_wf m' \<Longrightarrow> m_config m' = m_config m \<Longrightarrow> m_pool m' = m_pool m \<Longrightarrow>
   length (shared_heap m) \<le> length (shared_heap m') \<Longrightarrow>
   length (result_holders m) \<le> length (result_holders m') \<Longrightarrow> rt_inv E m'"
  unfolding rt_inv_def by (metis task_wf_mono)

lemma same_pool_step:
  assumes "queues_wf m'" "m_pool m' = m_pool m" "length (shared_heap m') = length (shared_heap m)"
    "result_holders m' = result_holders m" "m_config m' = m_config m" "m_polling_buf m' = m_polling_buf m"
    "m_task_buf m' = m_task_buf m" "m_iteration m' = m_iteration m" "m_reactors m' = m_reactors m"
    "m_stat m' = m_stat m" "m_idle m' = m_idle m" "m_reactor_only m' = m_reactor_only m" "m_os m' = m_os m"
  shows "queues_wf m' \<and> api_frame E m m' \<and> (rt_inv E m \<longrightarrow> rt_inv E m')"
  using assms by (auto simp: api_frame_def intro: rt_inv_same_pool)

lemma task_wf_new: "a < length (shared_heap m) \<Longrightarrow> task_wf m (task_new (Spawned a f) q nm)"
  by (simp add: task_wf_def task_new_def)

text \<open>Every call user code can make keeps the invariant and the frame.\<close>

lemma api_step_inv:
  fixes m :: "('v, 'p, 'w) machine"
  assumes "api_step E m m'" and S: "slab_ok (e_slab E)" and wf: "queues_wf m"
  shows "queues_wf m' \<and> api_frame E m m' \<and> (rt_inv E m \<longrightarrow> rt_inv E m')"
  using assms(1)
proof cases
  case (ASpawn q f nm i h)
  from spawn_on_spec[OF S wf, of q "\<lambda>a. Spawned a f" nm] ASpawn obtain c where
    m': "queues_wf m'" "sl_get (e_slab E) (m_pool m) i = None"
    "sl_get (e_slab E) (m_pool m') = (sl_get (e_slab E) (m_pool m))(i \<mapsto> Some (task_new (Spawned (length (shared_heap m)) f) q nm))"
    "shared_heap m' = shared_heap m @ [shared_state_new]"
    and e: "m' = upd_queue q (\<lambda>_. c) (m\<lparr>shared_heap := shared_heap m', m_pool := m_pool m'\<rparr>)" by auto
  have fr: "result_holders m' = result_holders m" "m_config m' = m_config m" "m_polling_buf m' = m_polling_buf m"
    "m_task_buf m' = m_task_buf m" "m_iteration m' = m_iteration m" "m_reactors m' = m_reactors m"
    "m_stat m' = m_stat m" "m_idle m' = m_idle m" "m_reactor_only m' = m_reactor_only m" "m_os m' = m_os m"
    by (subst e, simp)+
  have "rt_inv E m'" if inv: "rt_inv E m"
    unfolding rt_inv_def
  proof (intro conjI allI impI)
    fix k t assume k: "sl_get (e_slab E) (m_pool m') k = Some (Some t)"
    show "task_wf m' t"
    proof (cases "k = i")
      case True
      with k m' show ?thesis by (auto intro: task_wf_new)
    next
      case False
      with k m' inv have "task_wf m t" by (auto simp: rt_inv_def)
      then show ?thesis by (rule task_wf_mono) (simp_all add: m' fr)
    qed
  qed (use inv m' fr in \<open>auto simp: rt_inv_def\<close>)
  with m' fr show ?thesis by (auto simp: api_frame_def)
next
  case (AWake w)
  from wake_machine[OF wf, of w] AWake obtain c where c: "m' = upd_queue (wk_queue w) (\<lambda>_. c) m" "queue_wf c"
    by (metis Inr_inject)
  then have "queues_wf m'" using wf by (simp add: queues_wf_get)
  with c show ?thesis by (intro same_pool_step) simp_all
next
  case (AJoin a w r)
  then obtain h where m': "m' = m\<lparr>shared_heap := h\<rparr>" "length h = length (shared_heap m)"
    by (auto simp: join_poll_def Let_def split: if_splits option.splits)
  then have "queues_wf m'" using wf by (simp add: queues_wf_get)
  with m' show ?thesis by (intro same_pool_step) simp_all
next
  case AShutdown
  have "queues_wf m'" using wf AShutdown by (simp add: queues_wf_get request_shutdown_def)
  with AShutdown show ?thesis by (intro same_pool_step) (simp_all add: request_shutdown_def)
next
  case ANow
  have "queues_wf m'" using wf ANow by (simp add: queues_wf_get instant_now_def)
  with ANow show ?thesis by (intro same_pool_step) (simp_all add: instant_now_def)
next
  case (ATrack ta ti)
  have "queues_wf m'" using wf ATrack by (simp add: queues_wf_get)
  with ATrack show ?thesis by (intro same_pool_step) simp_all
next
  case (ACloneSender q)
  have "queues_wf m'" using wf ACloneSender by simp
  with ACloneSender show ?thesis by (intro same_pool_step) simp_all
next
  case (ADropSender q)
  have "queues_wf m'" using wf ADropSender by simp
  with ADropSender show ?thesis by (intro same_pool_step) simp_all
next
  case (AWorld w)
  have "queues_wf m'" using wf AWorld by (simp add: queues_wf_get)
  with AWorld show ?thesis by (intro same_pool_step) simp_all
qed

lemma api_steps_inv:
  fixes m :: "('v, 'p, 'w) machine"
  assumes "(api_step E)\<^sup>*\<^sup>* m m'" and S: "slab_ok (e_slab E)" and wf: "queues_wf m"
  shows "queues_wf m' \<and> api_frame E m m' \<and> (rt_inv E m \<longrightarrow> rt_inv E m')"
  using assms(1)
proof (induction rule: rtranclp_induct)
  case (step y z)
  with api_step_inv[OF step(2) S] show ?case by (auto intro: api_frame_trans)
qed (use wf in simp)

end
