(* ===== verification/Executor_Inv.thy ===== *)
theory Executor_Inv
  imports Executor
begin

section \<open>The executor: invariant and behaviour\<close>

text \<open>
  The event loops of \<open>Executor\<close> keep the runtime's invariant and never fault, whatever user code
  and reactors do through the interface of \<open>api_step\<close>; and the scheduling properties that
  follow.
\<close>

subsection \<open>Polls of futures\<close>

definition poll_ok :: "('f, 'v, 'p, 'w) env \<Rightarrow> ('g, 'a, ('v, 'p, 'w) machine) fut_poll \<Rightarrow> bool" where
  "poll_ok E p \<longleftrightarrow> (\<forall>f m. queues_wf m \<longrightarrow> (\<exists>r f' m'. p f m = Inr (r, f', m') \<and> (api_step E)\<^sup>*\<^sup>* m m'))"

lemma poll_okE:
  assumes "poll_ok E p" "queues_wf m"
  obtains r f' m' where "p f m = Inr (r, f', m')" "(api_step E)\<^sup>*\<^sup>* m m'"
  using assms unfolding poll_ok_def by blast

lemma env_ok_user: "env_ok E \<Longrightarrow> poll_ok E (e_user_poll E w)"
  by (simp add: env_ok_def poll_ok_def)

lemma env_ok_slab: "env_ok E \<Longrightarrow> slab_ok (e_slab E)"
  by (simp add: env_ok_def)

lemma api_set_track: "(api_step E)\<^sup>*\<^sup>* m m' \<Longrightarrow> (api_step E)\<^sup>*\<^sup>* m (m'\<lparr>track_allocator := ta, current_track_id := ti\<rparr>)"
  by (rule rtranclp.rtrancl_into_rtrancl) (auto intro: ATrack)

lemma machine_track_eq:
  fixes m :: "('v, 'p, 'w) machine"
  shows "m\<lparr>track_allocator := ta\<rparr> = m\<lparr>track_allocator := ta, current_track_id := current_track_id m\<rparr>"
    "m\<lparr>current_track_id := ti\<rparr> = m\<lparr>track_allocator := track_allocator m, current_track_id := ti\<rparr>"
  by simp_all

lemma api_set_current: "(api_step E)\<^sup>*\<^sup>* m m' \<Longrightarrow> (api_step E)\<^sup>*\<^sup>* m (m'\<lparr>current_track_id := ti\<rparr>)"
  by (subst machine_track_eq(2)) (rule api_set_track)

lemma api_set_allocator: "(api_step E)\<^sup>*\<^sup>* m m' \<Longrightarrow> (api_step E)\<^sup>*\<^sup>* m (m'\<lparr>track_allocator := ta\<rparr>)"
  by (subst machine_track_eq(1)) (rule api_set_track)

text \<open>Wrapping a future in track-id management only adds calls on the track thread-locals.\<close>

lemma poll_ok_tracked:
  fixes E :: "('f, 'v, 'p, 'w) env" and p :: "('g, 'a, ('v, 'p, 'w) machine) fut_poll"
  assumes p: "poll_ok E p"
  shows "poll_ok E (tracked_poll p)"
  unfolding poll_ok_def
proof (intro allI impI)
  fix t :: "'g tracked_future" and m :: "('v, 'p, 'w) machine"
  assume wf: "queues_wf m"
  obtain i m1 where m1: "(case tf_track_id t of None \<Rightarrow> acquire_track_id m | Some i \<Rightarrow> (i, m)) = (i, m1)" by fastforce
  have s1: "(api_step E)\<^sup>*\<^sup>* m m1" "queues_wf m1"
    using m1 wf by (auto simp: acquire_track_id_def queues_wf_get intro: api_set_allocator split: option.splits prod.splits)
  let ?m1 = "m1\<lparr>current_track_id := i\<rparr>"
  have "queues_wf ?m1" using s1 by (simp add: queues_wf_get)
  from poll_okE[OF p this] obtain r f' m2 where
    m2: "p (tf_inner t) ?m1 = Inr (r, f', m2)" "(api_step E)\<^sup>*\<^sup>* ?m1 m2" by blast
  have s2: "(api_step E)\<^sup>*\<^sup>* m m2" by (rule rtranclp_trans[OF api_set_current[OF s1(1)] m2(2)])
  show "\<exists>r f' m'. tracked_poll p t m = Inr (r, f', m') \<and> (api_step E)\<^sup>*\<^sup>* m m'"
    using m1 m2(1) s2
    by (cases "is_ready r") (auto simp: tracked_poll_def set_current_track_id_def release_track_id_def Let_def
        intro: api_set_current api_set_allocator)
qed

lemma poll_ok_maybe_tracked:
  fixes E :: "('f, 'v, 'p, 'w) env" and p :: "('g, 'a, ('v, 'p, 'w) machine) fut_poll"
  assumes p: "poll_ok E p"
  shows "poll_ok E (maybe_tracked_poll p)"
  unfolding poll_ok_def
proof (intro allI impI)
  fix t :: "'g maybe_tracked_fut" and m :: "('v, 'p, 'w) machine"
  assume wf: "queues_wf m"
  show "\<exists>r f' m'. maybe_tracked_poll p t m = Inr (r, f', m') \<and> (api_step E)\<^sup>*\<^sup>* m m'"
  proof (cases t)
    case (Tracked tf)
    from poll_okE[OF poll_ok_tracked[OF p] wf] obtain r f' m' where
      "tracked_poll p tf m = Inr (r, f', m')" "(api_step E)\<^sup>*\<^sup>* m m'" by blast
    with Tracked show ?thesis by (simp add: maybe_tracked_poll_def)
  next
    case (Untracked f)
    from poll_okE[OF p wf] obtain r f' m' where "p f m = Inr (r, f', m')" "(api_step E)\<^sup>*\<^sup>* m m'" by blast
    with Untracked show ?thesis by (simp add: maybe_tracked_poll_def)
  qed
qed

text \<open>
  \<open>polled E m m'\<close>: from \<open>m\<close> to \<open>m'\<close> a poll has kept the queues, the frame and the invariant.
\<close>

definition polled :: "('f, 'v, 'p, 'w) env \<Rightarrow> ('v, 'p, 'w) machine \<Rightarrow> ('v, 'p, 'w) machine \<Rightarrow> bool" where
  "polled E m m' \<longleftrightarrow> queues_wf m' \<and> api_frame E m m' \<and> (rt_inv E m \<longrightarrow> rt_inv E m')"

lemma polled_api: "slab_ok (e_slab E) \<Longrightarrow> queues_wf m \<Longrightarrow> (api_step E)\<^sup>*\<^sup>* m m' \<Longrightarrow> polled E m m'"
  unfolding polled_def by (rule api_steps_inv)

lemma polled_trans: "polled E m m1 \<Longrightarrow> polled E m1 m2 \<Longrightarrow> polled E m m2"
  unfolding polled_def using api_frame_trans by blast

lemma complete_machine:
  fixes m :: "('v, 'p, 'w) machine"
  assumes wf: "queues_wf m" and a: "addr < length (shared_heap m)"
  shows "\<exists>m'. complete addr res m = Inr m' \<and> polled E m m'"
proof -
  let ?sh = "(shared_heap m ! addr)\<lparr>ss_result := Some (Inr res)\<rparr>"
  show ?thesis
  proof (cases "ss_waker ?sh")
    case None
    let ?m = "m\<lparr>shared_heap := (shared_heap m)[addr := ?sh]\<rparr>"
    have "queues_wf ?m" using wf by (simp add: queues_wf_get)
    then have "polled E m ?m" unfolding polled_def by (intro same_pool_step) simp_all
    with None a show ?thesis by (simp add: complete_def Let_def)
  next
    case (Some w)
    let ?m = "m\<lparr>shared_heap := (shared_heap m)[addr := ?sh\<lparr>ss_waker := None\<rparr>]\<rparr>"
    have wf1: "queues_wf ?m" using wf by (simp add: queues_wf_get)
    then have p1: "polled E m ?m" unfolding polled_def by (intro same_pool_step) simp_all
    from wake_machine[OF wf1, of w] obtain c where c: "wake w ?m = Inr (upd_queue (wk_queue w) (\<lambda>_. c) ?m)" "queue_wf c"
      by metis
    then have "queues_wf (upd_queue (wk_queue w) (\<lambda>_. c) ?m)" using wf by (simp add: queues_wf_get)
    then have "polled E ?m (upd_queue (wk_queue w) (\<lambda>_. c) ?m)" unfolding polled_def by (intro same_pool_step) simp_all
    with polled_trans[OF p1] c(1) Some a show ?thesis by (auto simp: complete_def Let_def)
  qed
qed

text \<open>Polling the wrapped future of a well-formed task: a pending one stays well-formed.\<close>

lemma task_future_poll_ok:
  fixes E :: "('f, 'v, 'p, 'w) env" and m :: "('v, 'p, 'w) machine"
  assumes E: "env_ok E" and wf: "queues_wf m" and t: "task_wf m t"
  shows "\<exists>ret fut m'. task_future_poll (e_user_poll E w) (t_future t) m = Inr (ret, fut, m') \<and> polled E m m' \<and>
    (ret = Pending \<longrightarrow> task_wf m' (t\<lparr>t_future := fut\<rparr>))"
proof (cases "t_future t")
  case (Spawned a f)
  note S = env_ok_slab[OF E]
  from poll_okE[OF poll_ok_maybe_tracked[OF env_ok_user[OF E]] wf] obtain r f' m1 where
    m1: "maybe_tracked_poll (e_user_poll E w) f m = Inr (r, f', m1)" "(api_step E)\<^sup>*\<^sup>* m m1" by blast
  have p1: "polled E m m1" using polled_api[OF S wf m1(2)] .
  have a: "a < length (shared_heap m1)" using t Spawned p1 by (auto simp: task_wf_def polled_def api_frame_def)
  show ?thesis
  proof (cases r)
    case (Ready v)
    from complete_machine[OF _ a, of "AnyVal v" E] p1 obtain m2 where "complete a (AnyVal v) m1 = Inr m2" "polled E m1 m2"
      by (auto simp: polled_def)
    with Ready Spawned m1 polled_trans[OF p1] show ?thesis by auto
  next
    case Pending
    with Spawned m1 p1 a t show ?thesis by (auto simp: task_wf_def)
  qed
next
  case (BlockOn a h f)
  note S = env_ok_slab[OF E]
  from poll_okE[OF env_ok_user[OF E] wf] obtain r f' m1 where
    m1: "e_user_poll E w f m = Inr (r, f', m1)" "(api_step E)\<^sup>*\<^sup>* m m1" by blast
  have p1: "polled E m m1" using polled_api[OF S wf m1(2)] .
  have a: "a < length (shared_heap m1)" "h < length (result_holders m1)"
    using t BlockOn p1 by (auto simp: task_wf_def polled_def api_frame_def)
  show ?thesis
  proof (cases r)
    case (Ready v)
    let ?m = "m1\<lparr>result_holders := (result_holders m1)[h := Some v]\<rparr>"
    have "queues_wf ?m" using p1 by (simp add: polled_def queues_wf_get)
    then have p2: "polled E m1 ?m"
      by (auto simp: polled_def api_frame_def intro: rt_inv_same_pool)
    from complete_machine[of ?m a AnyUnit E] a p2 obtain m2 where "complete a AnyUnit ?m = Inr m2" "polled E ?m m2"
      by (auto simp: polled_def)
    with Ready BlockOn m1 polled_trans[OF p1 polled_trans[OF p2]] show ?thesis by auto
  next
    case Pending
    with BlockOn m1 p1 a t show ?thesis by (auto simp: task_wf_def)
  qed
next
  case Completed
  with t show ?thesis by (simp add: task_wf_def)
qed

lemma polled_clock:
  fixes m :: "('v, 'p, 'w) machine"
  assumes "queues_wf m"
  shows "polled E m (m\<lparr>clock_reads := n\<rparr>)"
proof -
  have "queues_wf (m\<lparr>clock_reads := n\<rparr>)" using assms by (simp add: queues_wf_get)
  then show ?thesis unfolding polled_def by (intro same_pool_step) simp_all
qed

lemma task_poll_ok:
  fixes E :: "('f, 'v, 'p, 'w) env" and m :: "('v, 'p, 'w) machine"
  assumes E: "env_ok E" and wf: "queues_wf m" and t: "task_wf m t"
  shows "\<exists>ret t' m'. task_poll clock (e_user_poll E) t i m = Inr (ret, t', m') \<and> polled E m m' \<and>
    t_stat t' \<noteq> None \<and> t_sender t' = t_sender t \<and> (ret = Pending \<longrightarrow> task_wf m' t')"
proof -
  let ?m = "m\<lparr>clock_reads := Suc (clock_reads m)\<rparr>"
  obtain s where s: "t_stat t = Some s" using t by (auto simp: task_wf_def)
  have p1: "polled E m ?m" by (rule polled_clock[OF wf])
  have "queues_wf ?m" "task_wf ?m t" using wf t by (auto simp: queues_wf_get intro: task_wf_mono)
  from task_future_poll_ok[OF E this, of "PluvioWaker (t_sender t) i"] obtain ret fut m1 where
    m1: "task_future_poll (e_user_poll E (PluvioWaker (t_sender t) i)) (t_future t) ?m = Inr (ret, fut, m1)"
    "polled E ?m m1" "ret = Pending \<longrightarrow> task_wf m1 (t\<lparr>t_future := fut\<rparr>)" by blast
  let ?m2 = "m1\<lparr>clock_reads := Suc (clock_reads m1)\<rparr>"
  have p2: "polled E m1 ?m2" using m1(2) by (intro polled_clock) (simp add: polled_def)
  show ?thesis using m1 s polled_trans[OF p1 polled_trans[OF m1(2) p2]]
    by (auto simp: task_poll_def instant_now_def task_wf_def Let_def split: task_future.splits)
qed

subsection \<open>Polling a task of the pool\<close>

text \<open>What the loops rely on across a task's poll and removal; tasks may leave the pool.\<close>

definition loop_frame :: "('v, 'p, 'w) machine \<Rightarrow> ('v, 'p, 'w) machine \<Rightarrow> bool" where
  "loop_frame m m' \<longleftrightarrow> length (shared_heap m) \<le> length (shared_heap m') \<and>
     length (result_holders m') = length (result_holders m) \<and> m_config m' = m_config m \<and>
     m_polling_buf m' = m_polling_buf m \<and> m_task_buf m' = m_task_buf m \<and> m_iteration m' = m_iteration m \<and>
     m_reactors m' = m_reactors m \<and> m_idle m' = m_idle m \<and> m_reactor_only m' = m_reactor_only m \<and> m_os m' = m_os m"

lemma loop_frame_refl [simp]: "loop_frame m m"
  by (simp add: loop_frame_def)

lemma loop_frame_trans: "loop_frame m m1 \<Longrightarrow> loop_frame m1 m2 \<Longrightarrow> loop_frame m m2"
  by (auto simp: loop_frame_def)

lemma loop_frame_api: "api_frame E m m' \<Longrightarrow> loop_frame m m'"
  by (simp add: loop_frame_def api_frame_def)

lemma task_wf_machine [simp]:
  fixes m :: "('v, 'p, 'w) machine"
  shows "task_wf (m\<lparr>m_pool := x\<rparr>) t = task_wf m t" "task_wf (m\<lparr>m_stat := y\<rparr>) t = task_wf m t"
  by (auto simp: task_wf_def split: task_future.splits)

lemma poll_task_absent:
  "sl_get (e_slab E) (m_pool m) i \<in> {None, Some None} \<Longrightarrow> poll_task E i m = Inr (None, m)"
  by (auto simp: poll_task_def)

text \<open>
  A poll of a task in the pool: while it runs its slot is empty, so the calls of user code do not see
  it; afterwards the slot holds the task again, completed if it was ready.
\<close>

lemma poll_task_ok:
  fixes E :: "('f, 'v, 'p, 'w) env" and m :: "('v, 'p, 'w) machine"
  assumes E: "env_ok E" and inv: "rt_inv E m" and slot: "sl_get (e_slab E) (m_pool m) i = Some (Some t)"
  shows "\<exists>ret t' m'. poll_task E i m = Inr (Some ret, m') \<and> queues_wf m' \<and> loop_frame m m' \<and>
    sl_get (e_slab E) (m_pool m') i = Some (Some t') \<and> t_stat t' \<noteq> None \<and> t_sender t' = t_sender t \<and>
    (\<forall>k. k \<noteq> i \<longrightarrow> sl_get (e_slab E) (m_pool m) k \<noteq> None \<longrightarrow>
       sl_get (e_slab E) (m_pool m') k = sl_get (e_slab E) (m_pool m) k) \<and>
    (\<forall>k u. k \<noteq> i \<longrightarrow> sl_get (e_slab E) (m_pool m') k = Some (Some u) \<longrightarrow> task_wf m' u) \<and>
    (ret = Pending \<longrightarrow> rt_inv E m')"
proof -
  note S = slab_okD[OF env_ok_slab[OF E]]
  let ?get = "\<lambda>m. sl_get (e_slab E) (m_pool m)"
  let ?m = "m\<lparr>m_pool := sl_put (e_slab E) (m_pool m) i None\<rparr>"
  have get1: "?get ?m = (?get m)(i \<mapsto> None)" using S(1)[of "m_pool m" i None] slot by simp
  have wf: "queues_wf ?m" and t: "task_wf ?m t"
    using inv slot by (auto simp: rt_inv_def queues_wf_get intro: task_wf_mono)
  have inv1: "rt_inv E ?m" using inv get1 wf unfolding rt_inv_def
    by (auto split: if_splits)
  from task_poll_ok[OF E wf t, of "e_clock E" i] obtain ret t' m1 where
    m1: "task_poll (e_clock E) (e_user_poll E) t i ?m = Inr (ret, t', m1)" "polled E ?m m1"
    "t_stat t' \<noteq> None" "t_sender t' = t_sender t" "ret = Pending \<longrightarrow> task_wf m1 t'" by blast
  have hole: "?get m1 i = Some None" using m1(2) get1 by (auto simp: polled_def api_frame_def)
  let ?m2 = "m1\<lparr>m_pool := sl_put (e_slab E) (m_pool m1) i (Some t')\<rparr>"
  have get2: "?get ?m2 = (?get m1)(i \<mapsto> Some t')" using S(1)[of "m_pool m1" i] hole by simp
  have run: "poll_task E i m = Inr (Some ret, ?m2)"
    using slot m1(1) hole by (simp add: poll_task_def Let_def)
  have fr: "api_frame E ?m m1" "queues_wf m1" "rt_inv E m1" using m1(2) inv1 by (auto simp: polled_def)
  have keep: "?get ?m2 k = ?get m k" if "k \<noteq> i" "?get m k \<noteq> None" for k
    using that fr(1) get1 get2 by (auto simp: api_frame_def)
  have others: "task_wf ?m2 u" if "k \<noteq> i" "?get ?m2 k = Some (Some u)" for k u
    using that fr(3) get2 by (auto simp: rt_inv_def intro: task_wf_mono)
  have wf2: "queues_wf ?m2" using fr(2) by (simp add: queues_wf_get)
  have lf: "loop_frame m ?m2" using fr(1) by (auto simp: loop_frame_def api_frame_def)
  have "rt_inv E ?m2" if "ret = Pending"
    unfolding rt_inv_def
  proof (intro conjI allI impI)
    fix k u assume k: "?get ?m2 k = Some (Some u)"
    show "task_wf ?m2 u"
    proof (cases "k = i")
      case True
      with k get2 m1(5) that show ?thesis by (auto intro: task_wf_mono)
    qed (use others k in blast)
  qed (use wf2 fr(3) in \<open>simp_all add: rt_inv_def\<close>)
  with run wf2 lf keep others m1(3,4) get2 show ?thesis by auto
qed

text \<open>After a ready poll the task's statistics are there, so recording and removing it succeeds.\<close>

lemma finish_task_ok:
  fixes E :: "('f, 'v, 'p, 'w) env" and m :: "('v, 'p, 'w) machine"
  assumes E: "env_ok E" and wf: "queues_wf m" and iv: "reactor_poll_interval (m_config m) \<noteq> 0"
    and slot: "sl_get (e_slab E) (m_pool m) i = Some (Some t)" "t_stat t \<noteq> None"
    and others: "\<forall>k u. k \<noteq> i \<longrightarrow> sl_get (e_slab E) (m_pool m) k = Some (Some u) \<longrightarrow> task_wf m u"
  shows "\<exists>m'. finish_task E i m = Inr m' \<and> rt_inv E m' \<and> loop_frame m m' \<and>
    sl_get (e_slab E) (m_pool m') = (sl_get (e_slab E) (m_pool m))(i := None) \<and>
    shared_heap m' = shared_heap m \<and> (\<forall>q. contents (get_queue q m') = contents (get_queue q m))"
proof -
  note S = slab_okD[OF env_ok_slab[OF E]]
  obtain s where s: "t_stat t = Some s" using slot(2) by auto
  obtain st where st: "add_task_stat (retain_stats E) (m_stat m) (Some (Some t)) = Inr (st, Some (Some (t\<lparr>t_stat := None\<rparr>)))"
    by (auto simp: add_task_stat_def s Let_def)
  let ?m = "m\<lparr>m_stat := st, m_pool := sl_remove (e_slab E) (m_pool m) i\<rparr>"
  let ?m' = "upd_queue (t_sender t) drop_sender ?m"
  have get: "sl_get (e_slab E) (m_pool ?m') = (sl_get (e_slab E) (m_pool m))(i := None)"
    using S(4)[of "m_pool m" i] slot(1) by simp
  have run: "finish_task E i m = Inr ?m'" using slot(1) st by (simp add: finish_task_def Let_def)
  have wf': "queues_wf ?m'" using wf by (simp add: queues_wf_get)
  have "rt_inv E ?m'"
    unfolding rt_inv_def
  proof (intro conjI allI impI)
    fix k u assume "sl_get (e_slab E) (m_pool ?m') k = Some (Some u)"
    with get others have "task_wf m u" by (auto split: if_splits)
    then show "task_wf ?m' u" by (rule task_wf_mono) simp_all
  qed (use wf' iv in simp_all)
  moreover have "loop_frame m ?m'" by (simp add: loop_frame_def)
  moreover have "contents (get_queue q ?m') = contents (get_queue q m)" for q by simp
  ultimately show ?thesis using run get by auto
qed

lemma process_tasks_ok:
  fixes E :: "('f, 'v, 'p, 'w) env" and m :: "('v, 'p, 'w) machine"
  assumes E: "env_ok E"
  shows "rt_inv E m \<Longrightarrow> \<exists>b m'. process_tasks E ids m = Inr (b, m') \<and> rt_inv E m' \<and> loop_frame m m'"
proof (induction ids arbitrary: m)
  case (Cons i ids)
  show ?case
  proof (cases "sl_get (e_slab E) (m_pool m) i \<in> {None, Some None}")
    case True
    with Cons poll_task_absent[OF True] show ?thesis by simp
  next
    case False
    then obtain t where "sl_get (e_slab E) (m_pool m) i = Some (Some t)" by auto
    from poll_task_ok[OF E Cons.prems this] obtain ret t' m1 where
      m1: "poll_task E i m = Inr (Some ret, m1)" "queues_wf m1" "loop_frame m m1"
      "sl_get (e_slab E) (m_pool m1) i = Some (Some t')" "t_stat t' \<noteq> None"
      "\<forall>k u. k \<noteq> i \<longrightarrow> sl_get (e_slab E) (m_pool m1) k = Some (Some u) \<longrightarrow> task_wf m1 u"
      "ret = Pending \<longrightarrow> rt_inv E m1" by blast
    show ?thesis
    proof (cases ret)
      case Pending
      with m1 Cons.IH[of m1] show ?thesis by (auto intro: loop_frame_trans)
    next
      case (Ready u)
      have "reactor_poll_interval (m_config m1) \<noteq> 0"
        using Cons.prems m1(3) by (simp add: rt_inv_def loop_frame_def)
      from finish_task_ok[OF E m1(2) this m1(4,5,6)] obtain m2 where
        m2: "finish_task E i m1 = Inr m2" "rt_inv E m2" "loop_frame m1 m2" by blast
      from Cons.IH[OF m2(2)] obtain b m3 where m3: "process_tasks E ids m2 = Inr (b, m3)" "rt_inv E m3" "loop_frame m2 m3"
        by blast
      with m1(1) m2(1) Ready have "process_tasks E (i # ids) m = Inr (True, m3)" by simp
      moreover have "loop_frame m m3" using m1(3) m2(3) m3(3) by (metis loop_frame_trans)
      ultimately show ?thesis using m3(2) by blast
    qed
  qed
qed (auto intro: exI[of _ False])

subsection \<open>The phases\<close>

lemma rt_inv_update:
  fixes m :: "('v, 'p, 'w) machine"
  shows "rt_inv E (m\<lparr>m_iteration := x1\<rparr>) = rt_inv E m" "rt_inv E (m\<lparr>m_polling_buf := x2\<rparr>) = rt_inv E m"
    "rt_inv E (m\<lparr>m_task_buf := x3\<rparr>) = rt_inv E m" "rt_inv E (m\<lparr>m_idle := x4\<rparr>) = rt_inv E m"
    "rt_inv E (m\<lparr>m_reactor_only := x5\<rparr>) = rt_inv E m" "rt_inv E (m\<lparr>m_os := x6\<rparr>) = rt_inv E m"
    "rt_inv E (m\<lparr>m_reactors := x7\<rparr>) = rt_inv E m"
  by (simp_all add: rt_inv_def queues_wf_def task_wf_def cong: task_future.case_cong)

lemmas [simp] = rt_inv_update

lemma rt_inv_queues:
  fixes m :: "('v, 'p, 'w) machine"
  shows "rt_inv E m \<Longrightarrow> queue_wf q \<Longrightarrow> rt_inv E (m\<lparr>task_queue := q\<rparr>)"
    "rt_inv E m \<Longrightarrow> queue_wf q \<Longrightarrow> rt_inv E (m\<lparr>polling_queue := q\<rparr>)"
  by (simp_all add: rt_inv_def queues_wf_def task_wf_def cong: task_future.case_cong)

lemma reactor_poll_ok:
  assumes E: "env_ok E" and inv: "rt_inv E m"
  obtains m' where "e_reactor_poll E i m = Inr m'" "rt_inv E m'" "loop_frame m m'"
proof -
  have wf: "queues_wf m" using inv by (simp add: rt_inv_def)
  then obtain m' where m': "e_reactor_poll E i m = Inr m'" "(api_step E)\<^sup>*\<^sup>* m m'" using E unfolding env_ok_def by blast
  from polled_api[OF env_ok_slab[OF E] wf m'(2)] inv m'(1) that show thesis
    by (auto simp: polled_def intro: loop_frame_api)
qed

text \<open>The reactors' wrappers are the only state of the loop beside what the polls do.\<close>

definition reactor_frame :: "('v, 'p, 'w) machine \<Rightarrow> ('v, 'p, 'w) machine \<Rightarrow> bool" where
  "reactor_frame m m' \<longleftrightarrow> loop_frame (m\<lparr>m_reactors := []\<rparr>) (m'\<lparr>m_reactors := []\<rparr>)"

lemma reactor_frame_refl [simp]: "reactor_frame m m"
  by (simp add: reactor_frame_def)

lemma reactor_frame_trans: "reactor_frame m m1 \<Longrightarrow> reactor_frame m1 m2 \<Longrightarrow> reactor_frame m m2"
  unfolding reactor_frame_def by (rule loop_frame_trans)

lemma reactor_frame_loop: "loop_frame m m' \<Longrightarrow> reactor_frame m m'"
  by (simp add: reactor_frame_def loop_frame_def)

lemma reactor_frame_upd [simp]: "reactor_frame m (upd_reactor i w m)"
  by (simp add: reactor_frame_def loop_frame_def upd_reactor_def)

lemma rt_inv_upd_reactor [simp]: "rt_inv E (upd_reactor i w m) = rt_inv E m"
  by (simp add: upd_reactor_def)

lemma poll_reactors_ok:
  fixes E :: "('f, 'v, 'p, 'w) env" and m :: "('v, 'p, 'w) machine"
  assumes E: "env_ok E"
  shows "rt_inv E m \<Longrightarrow> \<exists>b m'. poll_reactors E it ids m = Inr (b, m') \<and> rt_inv E m' \<and> reactor_frame m m'"
proof (induction ids arbitrary: m)
  case (Cons i ids)
  show ?case
  proof (cases "\<exists>w. map_of (m_reactors m) i = Some w \<and> rw_enable w")
    case False
    with Cons show ?thesis by (auto split: option.split)
  next
    case True
    then obtain w where w: "map_of (m_reactors m) i = Some w" "rw_enable w" by blast
    obtain status w' where st: "get_cached_reactor_status E m w it = (status, w')" by fastforce
    let ?m = "upd_reactor i w' m"
    show ?thesis
    proof (cases "status = Running")
      case True
      from reactor_poll_ok[OF E, of ?m "rw_reactor w'"] Cons.prems obtain m1 where
        m1: "e_reactor_poll E (rw_reactor w') ?m = Inr m1" "rt_inv E m1" "loop_frame ?m m1" by auto
      let ?m1 = "upd_reactor i (w'\<lparr>rw_poll_counter := rw_poll_counter w' + 1\<rparr>) m1"
      from Cons.IH[of ?m1] m1(2) obtain b m2 where
        m2: "poll_reactors E it ids ?m1 = Inr (b, m2)" "rt_inv E m2" "reactor_frame ?m1 m2" by auto
      have "reactor_frame m m2"
        by (metis m1(3) m2(3) reactor_frame_loop reactor_frame_trans reactor_frame_upd)
      with w st True m1(1) m2 show ?thesis by (auto simp: Let_def)
    next
      case False
      from Cons.IH[of ?m] Cons.prems obtain b m2 where
        m2: "poll_reactors E it ids ?m = Inr (b, m2)" "rt_inv E m2" "reactor_frame ?m m2" by auto
      have "reactor_frame m m2" by (metis m2(3) reactor_frame_trans reactor_frame_upd)
      with w st False m2 show ?thesis by auto
    qed
  qed
qed (auto intro: exI[of _ False])

text \<open>Draining the polling queue moves all of it, filling the batch at most the batch size of the other.\<close>

lemma drain_polling_ok:
  fixes m :: "('v, 'p, 'w) machine"
  assumes "queues_wf m"
  shows "\<exists>q. drain_polling m = Some (Inr (m\<lparr>m_polling_buf := contents (polling_queue m), polling_queue := q\<rparr>)) \<and>
    queue_wf q \<and> contents q = []"
  using spsc_chan.drain_spec[of "polling_queue m" "[]"] assms by (auto simp: drain_polling_def queues_wf_def)

lemma fill_batch_ok:
  fixes m :: "('v, 'p, 'w) machine"
  assumes "queues_wf m"
  shows "\<exists>q. fill_batch m = Inr (m\<lparr>m_task_buf := take (task_batch_size (m_config m)) (contents (task_queue m)),
      task_queue := q\<rparr>) \<and> queue_wf q \<and> contents q = drop (task_batch_size (m_config m)) (contents (task_queue m))"
  using spsc_chan.take_spec[of "task_queue m" "task_batch_size (m_config m)"] assms
  by (auto simp: fill_batch_def queues_wf_def)

lemma ucast_u32_0: "(ucast (x :: u32) :: u64) = 0 \<longleftrightarrow> x = 0"
proof -
  have lt: "unat x < 2 ^ 32" using unsigned_less[of x] by simp
  have "(ucast x :: u64) = of_nat (unat x)" by simp
  then have "unat (ucast x :: u64) = unat x" using lt unat_of_nat_u64[of "unat x"] by simp
  then show ?thesis by (metis unsigned_0 unsigned_word_eqI)
qed

lemma interval_due_ok:
  assumes "rt_inv E m"
  shows "\<exists>b. interval_due m it = Inr b"
  using assms by (simp add: interval_due_def rt_inv_def Let_def ucast_u32_0) blast

lemma should_poll_ok:
  assumes "rt_inv E m"
  shows "\<exists>b m'. should_poll_reactors E' it m = Inr (b, m') \<and> (m' = m \<or> m' = m\<lparr>m_reactor_only := 0\<rparr>)"
  using interval_due_ok[OF assms, of it] by (auto simp: should_poll_reactors_def Let_def)

lemma rt_inv_park [simp]:
  "rt_inv E (idle_park E' c m) = rt_inv E m" "rt_inv E (count_reactor_only c b m) = rt_inv E m"
  by (simp_all add: idle_park_def count_reactor_only_def Let_def)

lemma park_frame [simp]:
  "m_pool (idle_park E c m) = m_pool m" "task_queue (idle_park E c m) = task_queue m"
  "polling_queue (idle_park E c m) = polling_queue m" "m_pool (count_reactor_only c b m) = m_pool m"
  "task_queue (count_reactor_only c b m) = task_queue m" "polling_queue (count_reactor_only c b m) = polling_queue m"
  "m_reactors (idle_park E c m) = m_reactors m" "m_reactors (count_reactor_only c b m) = m_reactors m"
  by (simp_all add: idle_park_def count_reactor_only_def Let_def)

text \<open>An iteration always ends and never faults.\<close>

lemma run_iteration_ok:
  fixes E :: "('f, 'v, 'p, 'w) env" and m :: "('v, 'p, 'w) machine"
  assumes E: "env_ok E" and inv: "rt_inv E m"
  shows "\<exists>b m'. run_iteration E m = Some (Inr (b, m')) \<and> rt_inv E m'"
proof -
  let ?m0 = "m\<lparr>m_iteration := m_iteration m + 1\<rparr>"
  have wf: "queues_wf ?m0" using inv by (simp add: rt_inv_def queues_wf_get)
  from drain_polling_ok[OF wf] obtain q where q: "drain_polling ?m0 =
      Some (Inr (?m0\<lparr>m_polling_buf := contents (polling_queue ?m0), polling_queue := q\<rparr>))" "queue_wf q" by blast
  let ?m1 = "?m0\<lparr>m_polling_buf := contents (polling_queue ?m0), polling_queue := q\<rparr>"
  have i1: "rt_inv E ?m1" using inv q(2) by (intro rt_inv_queues) simp_all
  from should_poll_ok[OF i1, of E "m_iteration m"] obtain sp m2 where
    m2: "should_poll_reactors E (m_iteration m) ?m1 = Inr (sp, m2)" "rt_inv E m2" using i1 by auto
  obtain p1 m3 where m3: "(if sp then poll_reactors E (m_iteration m) (reactor_ids E m2) m2 else Inr (False, m2)) = Inr (p1, m3)"
    "rt_inv E m3"
    using poll_reactors_ok[OF E m2(2), of "m_iteration m" "reactor_ids E m2"] m2(2) by (cases sp) auto
  from process_tasks_ok[OF E m3(2), of "m_polling_buf m3"] obtain p2 m4 where
    m4: "process_tasks E (m_polling_buf m3) m3 = Inr (p2, m4)" "rt_inv E m4" by blast
  have wf4: "queues_wf m4" using m4(2) by (simp add: rt_inv_def)
  from fill_batch_ok[OF wf4] obtain q5 m5 where q5: "fill_batch m4 = Inr m5" "queue_wf q5"
    "m5 = m4\<lparr>m_task_buf := take (task_batch_size (m_config m4)) (contents (task_queue m4)), task_queue := q5\<rparr>" by blast
  have i5: "rt_inv E m5" unfolding q5(3) using m4(2) q5(2) by (intro rt_inv_queues) simp_all
  from process_tasks_ok[OF E i5, of "m_task_buf m5"] obtain c m6 where
    m6: "process_tasks E (m_task_buf m5) m5 = Inr (c, m6)" "rt_inv E m6" by blast
  show ?thesis using q(1) m2(1) m3(1) m4(1) q5(1) m6 by (simp add: run_iteration_def Let_def)
qed

subsection \<open>The event loop\<close>

lemma stuck_check_inv:
  "stuck_check mx b stuck sl m = Some (stuck', sl', m') \<Longrightarrow> rt_inv E m' = rt_inv E m"
  by (auto simp: stuck_check_def Let_def split: if_splits)

lemma run_loop_exit:
  fixes E :: "('f, 'v, 'p, 'w) env" and m :: "('v, 'p, 'w) machine"
  assumes E: "env_ok E" and ret: "run_loop E mx stuck sl m = Some r" and inv: "rt_inv E m"
  shows "\<exists>m'. r = Inr m' \<and> rt_inv E m' \<and>
    (sl_len (e_slab E) (m_pool m') = 0 \<or> m_shutdown m' \<or> (\<exists>m0. rt_inv E m0 \<and> run_iteration E m0 = Some (Inr (False, m'))))"
proof -
  let ?Q = "\<lambda>r. \<exists>m'. r = Inr m' \<and> rt_inv E m' \<and>
    (sl_len (e_slab E) (m_pool m') = 0 \<or> m_shutdown m' \<or> (\<exists>m0. rt_inv E m0 \<and> run_iteration E m0 = Some (Inr (False, m'))))"
  have "E = E \<longrightarrow> rt_inv E m \<longrightarrow> ?Q r"
  proof (rule run_loop.raw_induct[where P = "\<lambda>E' mx stuck sl m r. E' = E \<longrightarrow> rt_inv E m \<longrightarrow> ?Q r", OF _ ret], intro impI)
    fix f :: "('f, 'v, 'p, 'w) env \<Rightarrow> u64 \<Rightarrow> u64 \<Rightarrow> nat \<Rightarrow> ('v, 'p, 'w) machine \<Rightarrow> ('v, 'p, 'w) machine run option"
      and E' mx stuck sl m r
    assume IH: "\<And>E' mx stuck sl m r. f E' mx stuck sl m = Some r \<Longrightarrow> E' = E \<longrightarrow> rt_inv E m \<longrightarrow> ?Q r"
      and eq: "(if sl_len (e_slab E') (m_pool m) = 0 then Some (Inr m)
      else if m_shutdown m then Some (Inr m)
      else case run_iteration E' m of None \<Rightarrow> None | Some (Inl e) \<Rightarrow> Some (Inl e)
           | Some (Inr (made_progress, m')) \<Rightarrow>
               (case stuck_check mx made_progress stuck sl m' of None \<Rightarrow> Some (Inr m')
                | Some (stuck', sleep', m'') \<Rightarrow> f E' mx stuck' sleep' m'')) = Some r"
      and E': "E' = E" and i: "rt_inv E m"
    from run_iteration_ok[OF E i] obtain b m1 where it: "run_iteration E m = Some (Inr (b, m1))" "rt_inv E m1" by blast
    consider "sl_len (e_slab E) (m_pool m) = 0" | "m_shutdown m"
      | "sl_len (e_slab E) (m_pool m) \<noteq> 0" "\<not> m_shutdown m" by blast
    then show "?Q r"
    proof cases
      case 3
      show ?thesis
      proof (cases "stuck_check mx b stuck sl m1")
        case None
        then have "\<not> b" by (auto simp: stuck_check_def)
        with None eq E' it 3 i show ?thesis by auto
      next
        case (Some x)
        obtain stuck' sl' m2 where x: "x = (stuck', sl', m2)" by (metis prod_cases3)
        with Some eq E' it 3 have "f E mx stuck' sl' m2 = Some r" by simp
        from IH[OF this] stuck_check_inv[OF Some[unfolded x], of E] it(2) show ?thesis by simp
      qed
    qed (use eq E' i in \<open>auto split: if_splits\<close>)
  qed
  with inv show ?thesis by blast
qed

text \<open>
  C1 (safety). \<open>run_queue\<close> never panics, aborts or touches uninitialised memory, whatever tasks
  and reactors do through the runtime's interface: each iteration of its loop ends without a fault
  and keeps the invariant (well-formed queues, tasks in the pool that have their statistics, are not
  completed and whose result cells exist), and it returns only when the pool is empty, a
  shutdown was requested, or an iteration made no progress (the stuck exit).
\<close>

theorem run_queue_safe:
  fixes E :: "('f, 'v, 'p, 'w) env" and m :: "('v, 'p, 'w) machine"
  assumes "env_ok E" "rt_inv E m"
  shows "(\<exists>b m'. run_iteration E m = Some (Inr (b, m')) \<and> rt_inv E m') \<and>
    (\<forall>r. run_queue E m = Some r \<longrightarrow>
      (\<exists>m'. r = Inr m' \<and> rt_inv E m' \<and>
        (sl_len (e_slab E) (m_pool m') = 0 \<or> m_shutdown m' \<or>
         (\<exists>m0. rt_inv E m0 \<and> run_iteration E m0 = Some (Inr (False, m'))))))"
  using run_iteration_ok[OF assms] run_loop_exit[OF assms(1) _ assms(2)] by (auto simp: run_queue_def)

subsection \<open>A concrete environment\<close>

text \<open>
  A slab as a list of options, the first vacant slot first; user futures that are ready when their
  counter is 0 and otherwise wake themselves; no reactor; an empty process environment.
\<close>

fun vacant :: "'t option list \<Rightarrow> nat" where
  "vacant [] = 0"
| "vacant (None # xs) = 0"
| "vacant (Some x # xs) = Suc (vacant xs)"

definition list_slab :: "('t option list, 't) slab_ops" where
  "list_slab = \<lparr>sl_with_capacity = \<lambda>_. [],
     sl_get = \<lambda>p k. if k < length p then p ! k else None,
     sl_put = \<lambda>p k v. p[k := Some v],
     sl_insert = \<lambda>p v. (vacant p, if vacant p < length p then p[vacant p := Some v] else p @ [Some v]),
     sl_remove = \<lambda>p k. p[k := None],
     sl_len = \<lambda>p. length (filter (\<lambda>x. x \<noteq> None) p),
     sl_iter = \<lambda>p. List.map_filter (\<lambda>(k, v). map_option (Pair k) v) (enumerate 0 p)\<rparr>"

lemma vacant_le: "vacant p \<le> length p" and vacant_None: "vacant p < length p \<Longrightarrow> p ! vacant p = None"
  by (induction p rule: vacant.induct) auto

lemma map_of_enumerate_filter:
  "map_of (List.map_filter (\<lambda>(k, v). map_option (Pair k) v) (enumerate n p)) k =
   (if n \<le> k \<and> k < n + length p then p ! (k - n) else None)"
proof (induction p arbitrary: n)
  case (Cons a p)
  then show ?case by (cases a) (auto simp: map_filter_simps nth_Cons' le_less_Suc_eq)
qed (auto simp: map_filter_simps)

lemma distinct_enumerate_filter:
  "distinct (map fst (List.map_filter (\<lambda>(k, v). map_option (Pair k) v) (enumerate n p))) \<and>
   (\<forall>k \<in> fst ` set (List.map_filter (\<lambda>(k, v). map_option (Pair k) v) (enumerate n p)). n \<le> k)"
proof (induction p arbitrary: n)
  case (Cons a p)
  from Cons[of "Suc n"] show ?case by (cases a) (force simp: map_filter_simps)+
qed (simp add: map_filter_simps)

lemma dom_list_slab: "dom (\<lambda>k. if k < length p then p ! k else None) = {k. k < length p \<and> p ! k \<noteq> None}"
  by (auto split: if_splits)

lemma slab_ok_list: "slab_ok list_slab"
  unfolding slab_ok_def
proof (intro conjI allI impI)
  fix p :: "'t option list" and k v k' p'
  show "sl_get list_slab (sl_with_capacity list_slab k) = (\<lambda>_. None)" by (simp add: list_slab_def)
  show "finite (dom (sl_get list_slab p))" by (simp add: list_slab_def dom_list_slab)
  show "sl_len list_slab p = card (dom (sl_get list_slab p))"
    by (simp add: list_slab_def dom_list_slab length_filter_conv_card)
  show "map_of (sl_iter list_slab p) = sl_get list_slab p"
    by (rule ext) (simp add: list_slab_def map_of_enumerate_filter)
  show "distinct (map fst (sl_iter list_slab p))"
    using distinct_enumerate_filter[of 0 p] by (simp add: list_slab_def)
  { assume "sl_get list_slab p k \<noteq> None"
    then show "sl_get list_slab (sl_put list_slab p k v) = (sl_get list_slab p)(k \<mapsto> v)"
      by (auto simp: list_slab_def fun_eq_iff nth_list_update split: if_splits) }
  { assume "sl_get list_slab p k \<noteq> None"
    then show "sl_get list_slab (sl_remove list_slab p k) = (sl_get list_slab p)(k := None)"
      by (auto simp: list_slab_def fun_eq_iff nth_list_update split: if_splits) }
  { assume i: "sl_insert list_slab p v = (k', p')"
    then show "sl_get list_slab p k' = None" by (auto simp: list_slab_def vacant_None)
    from i show "sl_get list_slab p' = (sl_get list_slab p)(k' \<mapsto> v)"
      using vacant_le[of p]
      by (auto simp: list_slab_def fun_eq_iff nth_list_update nth_append split: if_splits) }
qed

definition demo_env :: "(nat, nat, nat task option option list, unit) env" where
  "demo_env = \<lparr>e_slab = list_slab,
     e_user_poll = \<lambda>w f m. (case f of
        0 \<Rightarrow> Inr (Ready 42, 0, m)
      | Suc k \<Rightarrow> run_bind (wake w m) (\<lambda>m. Inr (Pending, k, m))),
     e_reactor_poll = \<lambda>_ m. Inr m, e_reactor_status = \<lambda>_ _. Stopped, e_clock = id,
     e_var = \<lambda>_. None, e_hash_order = id\<rparr>"

lemma env_ok_demo: "env_ok demo_env"
proof -
  have "\<exists>r f' m'. e_user_poll demo_env w f m = Inr (r, f', m') \<and> (api_step demo_env)\<^sup>*\<^sup>* m m'"
    if wf: "queues_wf m" for w f m
  proof (cases f)
    case (Suc k)
    from wake_machine[OF wf, of w] obtain m' where m': "wake w m = Inr m'" by metis
    then have "api_step demo_env m m'" by (rule AWake)
    with Suc m' show ?thesis by (auto simp: demo_env_def)
  qed (auto simp: demo_env_def)
  moreover have "slab_ok (e_slab demo_env)" using slab_ok_list by (simp add: demo_env_def)
  ultimately show ?thesis by (simp add: env_ok_def) (simp add: demo_env_def)
qed

lemma rt_inv_new:
  assumes "slab_ok (e_slab E)" "reactor_poll_interval config \<noteq> 0"
  shows "rt_inv E (with_config E n config w)"
  using assms queue_wf_unbounded_channel[where 'a = nat]
  by (simp add: rt_inv_def with_config_def queues_wf_def slab_okD)

lemma rt_inv_runtime_new: "env_ok E \<Longrightarrow> rt_inv E (runtime_new E n w)"
  by (simp add: runtime_new_def rt_inv_new env_ok_slab scheduling_config_default_def)

theorem run_queue_safe_witness:
  "\<exists>b m'. run_iteration demo_env (runtime_new demo_env 4 ()) = Some (Inr (b, m')) \<and> rt_inv demo_env m'"
  using run_queue_safe[OF env_ok_demo rt_inv_runtime_new[OF env_ok_demo]] by blast

subsection \<open>Scheduling\<close>

text \<open>
  What an iteration polls is observed through a log that the futures of the environment keep in the
  world: each poll of a user future appends the id of the task that is polled and whether it was
  ready, and nothing else writes to it.
\<close>

definition logs_polls :: "('w \<Rightarrow> (nat \<times> bool) list) \<Rightarrow> ('f, 'v, 'p, 'w) env \<Rightarrow> bool" where
  "logs_polls lg E \<longleftrightarrow>
     (\<forall>w f m r f' m'. e_user_poll E w f m = Inr (r, f', m') \<longrightarrow>
        lg (m_world m') = lg (m_world m) @ [(wk_task w, is_ready r)]) \<and>
     (\<forall>i m m'. e_reactor_poll E i m = Inr m' \<longrightarrow> lg (m_world m') = lg (m_world m))"

text \<open>The log has grown by \<open>es\<close>, and ids were only appended to the queues.\<close>

definition grows :: "('v, 'z) mem \<Rightarrow> ('v, 'z) mem \<Rightarrow> bool" where
  "grows m m' \<longleftrightarrow> (\<forall>q. \<exists>ws. contents (get_queue q m') = contents (get_queue q m) @ ws)"

definition logged ::
  "('w \<Rightarrow> (nat \<times> bool) list) \<Rightarrow> (nat \<times> bool) list \<Rightarrow> ('v, 'p, 'w) machine \<Rightarrow> ('v, 'p, 'w) machine \<Rightarrow> bool" where
  "logged lg es m m' \<longleftrightarrow> lg (m_world m') = lg (m_world m) @ es \<and> grows m m' \<and> queues_wf m'"

lemma grows_same: "(\<And>q. get_queue q m' = get_queue q m) \<Longrightarrow> grows m m'"
  by (simp add: grows_def)

lemma grows_trans: "grows m m1 \<Longrightarrow> grows m1 m2 \<Longrightarrow> grows m m2"
  unfolding grows_def by (metis append_assoc)

lemma logged_trans: "logged lg es m m1 \<Longrightarrow> logged lg fs m1 m2 \<Longrightarrow> logged lg (es @ fs) m m2"
  unfolding logged_def using grows_trans by auto

lemma wake_logged:
  fixes m :: "('v, 'p, 'w) machine"
  assumes "queues_wf m" "wake w m = Inr m'"
  shows "logged lg [] m m'"
proof -
  from wake_machine[OF assms(1), of w] assms(2) obtain c where c: "m' = upd_queue (wk_queue w) (\<lambda>_. c) m"
    "queue_wf c" "contents c = contents (get_queue (wk_queue w) m) @ [wk_task w]" by (metis Inr_inject)
  moreover have "queues_wf m'" using assms(1) c by (simp add: queues_wf_get)
  ultimately show ?thesis by (auto simp: logged_def grows_def)
qed

lemma same_queues_logged:
  fixes m :: "('v, 'p, 'w) machine"
  assumes "queues_wf m" "\<And>q. get_queue q m' = get_queue q m" "m_world m' = m_world m"
  shows "logged lg [] m m'"
  using assms by (simp add: logged_def queues_wf_get grows_same)

lemma complete_logged:
  fixes m :: "('v, 'p, 'w) machine"
  assumes wf: "queues_wf m" and c: "complete a res m = Inr m'"
  shows "logged lg [] m m'"
proof -
  let ?m = "\<lambda>h. m\<lparr>shared_heap := h\<rparr>"
  have l: "logged lg [] m (?m h)" for h using wf by (intro same_queues_logged) simp_all
  then have "queues_wf (?m h)" for h by (simp add: logged_def)
  then have "logged lg [] m m''" if "wake w (?m h) = Inr m''" for w h m''
    using logged_trans[OF l wake_logged[OF _ that]] by simp
  with c l show ?thesis by (auto simp: complete_def Let_def split: if_splits option.splits)
qed

lemma api_step_grows:
  fixes m :: "('v, 'p, 'w) machine"
  assumes "api_step E m m'" and S: "slab_ok (e_slab E)" and wf: "queues_wf m"
  shows "grows m m'"
  using assms(1)
proof cases
  case (ASpawn q f nm i h)
  from spawn_on_spec[OF S wf, of q "\<lambda>a. Spawned a f" nm] ASpawn
  have "contents (get_queue q m') = contents (get_queue q m) @ [i]" "\<forall>q'. q' \<noteq> q \<longrightarrow> get_queue q' m' = get_queue q' m"
    by auto
  then show ?thesis unfolding grows_def by (metis append_Nil2)
next
  case (AWake w)
  from wake_logged[OF wf this, of "\<lambda>_. []"] show ?thesis by (simp add: logged_def)
next
  case (AJoin a w r)
  then show ?thesis by (auto simp: join_poll_def Let_def intro!: grows_same split: if_splits option.splits)
next
  case (ACloneSender q)
  then show ?thesis by (auto simp: grows_def clone_sender_def)
next
  case (ADropSender q)
  then show ?thesis by (simp add: grows_def)
qed (auto simp: request_shutdown_def instant_now_def intro!: grows_same)

lemma api_steps_grow:
  fixes m :: "('v, 'p, 'w) machine"
  assumes "(api_step E)\<^sup>*\<^sup>* m m'" and S: "slab_ok (e_slab E)" and wf: "queues_wf m"
  shows "grows m m'"
  using assms(1)
proof (induction rule: rtranclp_induct)
  case (step y z)
  have "queues_wf y" using api_steps_inv[OF step(1) S wf] by simp
  from grows_trans[OF step(3) api_step_grows[OF step(2) S this]] show ?case .
qed (simp add: grows_same)

lemma user_logged:
  fixes m :: "('v, 'p, 'w) machine"
  assumes E: "env_ok E" "logs_polls lg E" and wf: "queues_wf m" and p: "e_user_poll E w f m = Inr (r, f', m')"
  shows "logged lg [(wk_task w, is_ready r)] m m'"
proof -
  from poll_okE[OF env_ok_user[OF E(1)] wf, of w f] p have s: "(api_step E)\<^sup>*\<^sup>* m m'" by auto
  note S = env_ok_slab[OF E(1)]
  show ?thesis using api_steps_grow[OF s S wf] api_steps_inv[OF s S wf] E(2) p
    unfolding logged_def logs_polls_def by blast
qed

lemma reactor_logged:
  fixes m :: "('v, 'p, 'w) machine"
  assumes E: "env_ok E" "logs_polls lg E" and wf: "queues_wf m" and p: "e_reactor_poll E i m = Inr m'"
  shows "logged lg [] m m'"
proof -
  have "\<exists>m'. e_reactor_poll E i m = Inr m' \<and> (api_step E)\<^sup>*\<^sup>* m m'" using E(1) wf unfolding env_ok_def by blast
  with p have s: "(api_step E)\<^sup>*\<^sup>* m m'" by simp
  note S = env_ok_slab[OF E(1)]
  show ?thesis using api_steps_grow[OF s S wf] api_steps_inv[OF s S wf] E(2) p
    unfolding logged_def logs_polls_def by auto
qed

lemma maybe_tracked_logged:
  fixes m :: "('v, 'p, 'w) machine"
  assumes E: "env_ok E" "logs_polls lg E" and wf: "queues_wf m"
    and p: "maybe_tracked_poll (e_user_poll E w) f m = Inr (r, f', m')"
  shows "logged lg [(wk_task w, is_ready r)] m m'"
proof (cases f)
  case (Untracked g)
  with p user_logged[OF E wf] show ?thesis by (auto simp: maybe_tracked_poll_def run_bind_eq_Inr)
next
  case (Tracked t)
  obtain i m1 where m1: "(case tf_track_id t of None \<Rightarrow> acquire_track_id m | Some i \<Rightarrow> (i, m)) = (i, m1)" by fastforce
  let ?m1 = "m1\<lparr>current_track_id := i\<rparr>"
  have l1: "logged lg [] m ?m1"
    using m1 wf by (intro same_queues_logged) (auto simp: acquire_track_id_def split: option.splits prod.splits)
  from Tracked p obtain g' m2 where m2: "e_user_poll E w (tf_inner t) ?m1 = Inr (r, g', m2)"
    and m': "m' = m2\<lparr>current_track_id := current_track_id m1\<rparr> \<or>
      m' = release_track_id (m2\<lparr>current_track_id := current_track_id m1\<rparr>) i"
    by (auto simp: maybe_tracked_poll_def tracked_poll_def Let_def run_bind_eq_Inr m1 set_current_track_id_def
        get_current_track_id_def split: if_splits)
  have l2: "logged lg [(wk_task w, is_ready r)] ?m1 m2"
    using user_logged[OF E _ m2] l1 by (simp add: logged_def)
  have "logged lg [] m2 m'"
    using m' l2 by (intro same_queues_logged) (auto simp: logged_def release_track_id_def Let_def)
  from logged_trans[OF logged_trans[OF l1 l2] this] show ?thesis by simp
qed

lemma task_future_logged:
  fixes m :: "('v, 'p, 'w) machine"
  assumes E: "env_ok E" "logs_polls lg E" and wf: "queues_wf m"
    and p: "task_future_poll (e_user_poll E w) f m = Inr (ret, f', m')"
  shows "logged lg [(wk_task w, is_ready ret)] m m'"
proof (cases f)
  case (Spawned a g)
  from p[unfolded Spawned] obtain r g' m1 where m1: "maybe_tracked_poll (e_user_poll E w) g m = Inr (r, g', m1)"
    by (auto simp: run_bind_eq_Inr)
  note l1 = maybe_tracked_logged[OF E wf m1]
  show ?thesis
  proof (cases r)
    case Pending
    with p[unfolded Spawned] m1 l1 show ?thesis by simp
  next
    case (Ready v)
    with p[unfolded Spawned] m1 have "ret = Ready ()" "complete a (AnyVal v) m1 = Inr m'" by (auto simp: run_bind_eq_Inr)
    with Ready logged_trans[OF l1 complete_logged, of a "AnyVal v" m'] l1 show ?thesis by (simp add: logged_def)
  qed
next
  case (BlockOn a h g)
  from p[unfolded BlockOn] obtain r g' m1 where m1: "e_user_poll E w g m = Inr (r, g', m1)"
    by (auto simp: run_bind_eq_Inr)
  note l1 = user_logged[OF E wf m1]
  show ?thesis
  proof (cases r)
    case Pending
    with p[unfolded BlockOn] m1 l1 show ?thesis by simp
  next
    case (Ready v)
    let ?m = "m1\<lparr>result_holders := (result_holders m1)[h := Some v]\<rparr>"
    have l2: "logged lg [] m1 ?m" using l1 by (intro same_queues_logged) (auto simp: logged_def)
    from Ready p[unfolded BlockOn] m1 have "ret = Ready ()" "complete a AnyUnit ?m = Inr m'" by (auto simp: run_bind_eq_Inr)
    with Ready logged_trans[OF logged_trans[OF l1 l2] complete_logged, of a AnyUnit m'] l2 show ?thesis
      by (simp add: logged_def)
  qed
next
  case Completed
  with p show ?thesis by simp
qed

lemma task_poll_logged:
  fixes m :: "('v, 'p, 'w) machine"
  assumes E: "env_ok E" "logs_polls lg E" and wf: "queues_wf m"
    and p: "task_poll clock (e_user_poll E) t i m = Inr (ret, t', m')"
  shows "logged lg [(i, is_ready ret)] m m'"
proof -
  have l1: "logged lg [] m0 (m0\<lparr>clock_reads := n\<rparr>)" if "queues_wf m0" for m0 :: "('v, 'p, 'w) machine" and n
    using that by (intro same_queues_logged) simp_all
  from p obtain fut m1 where
    m1: "task_future_poll (e_user_poll E (PluvioWaker (t_sender t) i)) (t_future t) (m\<lparr>clock_reads := Suc (clock_reads m)\<rparr>) =
      Inr (ret, fut, m1)" and m': "m' = m1\<lparr>clock_reads := Suc (clock_reads m1)\<rparr>"
    by (auto simp: task_poll_def instant_now_def Let_def run_bind_eq_Inr)
  have "logged lg [(i, is_ready ret)] (m\<lparr>clock_reads := Suc (clock_reads m)\<rparr>) m1"
    using task_future_logged[OF E _ m1] l1[OF wf] by (simp add: logged_def)
  moreover then have "logged lg [] m1 m'" unfolding m' by (intro l1) (simp add: logged_def)
  ultimately show ?thesis using logged_trans[OF logged_trans[OF l1[OF wf]]] by fastforce
qed

lemma poll_task_logged:
  fixes m :: "('v, 'p, 'w) machine"
  assumes E: "env_ok E" "logs_polls lg E" and wf: "queues_wf m"
    and p: "poll_task E i m = Inr (Some ret, m')"
  shows "logged lg [(i, is_ready ret)] m m'"
proof -
  have pool: "logged lg [] n (n\<lparr>m_pool := x\<rparr>)" if "queues_wf n" for n :: "('v, 'p, 'w) machine" and x
    using that by (intro same_queues_logged) simp_all
  from p obtain t t' m1 where
    m1: "task_poll (e_clock E) (e_user_poll E) t i (m\<lparr>m_pool := sl_put (e_slab E) (m_pool m) i None\<rparr>) = Inr (ret, t', m1)"
    and m': "m' = m1 \<or> (\<exists>x. m' = m1\<lparr>m_pool := x\<rparr>)"
    by (fastforce simp: poll_task_def Let_def run_bind_eq_Inr split: option.split_asm)
  let ?m0 = "m\<lparr>m_pool := sl_put (e_slab E) (m_pool m) i None\<rparr>"
  have l0: "logged lg [] m ?m0" by (rule pool[OF wf])
  then have l1: "logged lg [(i, is_ready ret)] ?m0 m1" using task_poll_logged[OF E _ m1] by (simp add: logged_def)
  have "logged lg [] m1 m'" using m' pool l1 by (auto simp: logged_def intro: grows_same)
  from logged_trans[OF logged_trans[OF l0 l1] this] show ?thesis by simp
qed

lemma finish_task_logged:
  fixes m :: "('v, 'p, 'w) machine"
  assumes wf: "queues_wf m" and p: "finish_task E i m = Inr m'"
  shows "logged lg [] m m'"
proof -
  have l: "logged lg [] m (m\<lparr>m_stat := st, m_pool := x\<rparr>)" for st x
    using wf by (intro same_queues_logged) simp_all
  have d: "logged lg [] n (upd_queue q drop_sender n)" if "queues_wf n" for n :: "('v, 'p, 'w) machine" and q
    using that by (auto simp: logged_def grows_def queues_wf_get)
  from p obtain st x where "m' = m\<lparr>m_stat := st, m_pool := x\<rparr> \<or> (\<exists>q. m' = upd_queue q drop_sender (m\<lparr>m_stat := st, m_pool := x\<rparr>))"
    by (fastforce simp: finish_task_def Let_def run_bind_eq_Inr split: option.split_asm)
  then show ?thesis using logged_trans[OF l d] l by (force simp: logged_def)
qed

text \<open>
  One poll for each id of a list, in the order of the list, against what the pool holds by then: an id
  without a task is skipped; a task that was ready leaves the pool, any other keeps its place, and
  meanwhile the pool's other tasks stay as they are (its polls may add new ones). \<open>ps\<close> is the log.
\<close>

definition task_in :: "('k \<Rightarrow> 't option option) \<Rightarrow> 'k \<Rightarrow> bool" where
  "task_in p i \<longleftrightarrow> (\<exists>t. p i = Some (Some t))"

fun polls_in_turn ::
  "nat list \<Rightarrow> (nat \<Rightarrow> 't option option) \<Rightarrow> (nat \<times> bool) list \<Rightarrow> (nat \<Rightarrow> 't option option) \<Rightarrow> bool" where
  "polls_in_turn [] p ps p' = (ps = [] \<and> p' = p)"
| "polls_in_turn (i # ids) p ps p' =
     (if task_in p i
      then \<exists>ready qs p1. ps = (i, ready) # qs \<and> (if ready then p1 i = None else task_in p1 i) \<and>
        (\<forall>j. j \<noteq> i \<longrightarrow> p j \<noteq> None \<longrightarrow> p1 j = p j) \<and> polls_in_turn ids p1 qs p'
      else polls_in_turn ids p ps p')"

definition slots :: "('f, 'v, 'p, 'w) env \<Rightarrow> ('v, 'p, 'w) machine \<Rightarrow> nat \<Rightarrow> 'f task option option" where
  "slots E m = sl_get (e_slab E) (m_pool m)"

text \<open>So a task of the pool whose id is in the list is polled, and only ids of the list are.\<close>

lemma polls_in_turn_all: "polls_in_turn ids p ps p' \<Longrightarrow> i \<in> set ids \<Longrightarrow> task_in p i \<Longrightarrow> i \<in> fst ` set ps"
proof (induction ids arbitrary: p ps)
  case (Cons j ids)
  show ?case
  proof (cases "task_in p j")
    case True
    with Cons.prems(1) obtain r qs p1 where c: "ps = (j, r) # qs" "\<forall>k. k \<noteq> j \<longrightarrow> p k \<noteq> None \<longrightarrow> p1 k = p k"
      "polls_in_turn ids p1 qs p'" by auto
    show ?thesis
    proof (cases "i = j")
      case False
      with c(2) Cons.prems(3) have "task_in p1 i" by (auto simp: task_in_def)
      with Cons.IH[OF c(3)] Cons.prems(2) False c(1) show ?thesis by auto
    qed (simp add: c(1))
  next
    case False
    with Cons.prems have "i \<noteq> j" by blast
    with False Cons show ?thesis by simp
  qed
qed simp

lemma process_tasks_turns:
  fixes E :: "('f, 'v, 'p, 'w) env" and m :: "('v, 'p, 'w) machine"
  assumes E: "env_ok E" "logs_polls lg E"
  shows "rt_inv E m \<Longrightarrow> \<exists>b m' ps. process_tasks E ids m = Inr (b, m') \<and> rt_inv E m' \<and> loop_frame m m' \<and>
    logged lg ps m m' \<and> polls_in_turn ids (slots E m) ps (slots E m') \<and> (b \<longleftrightarrow> (\<exists>i. (i, True) \<in> set ps))"
proof (induction ids arbitrary: m)
  case Nil
  then have "logged lg [] m m" by (intro same_queues_logged) (simp_all add: rt_inv_def)
  with Nil show ?case by (intro exI[of _ False] exI[of _ m] exI[of _ "[]"]) simp
next
  case (Cons i ids)
  have wf: "queues_wf m" using Cons.prems by (simp add: rt_inv_def)
  show ?case
  proof (cases "task_in (slots E m) i")
    case False
    then have "sl_get (e_slab E) (m_pool m) i \<in> {None, Some None}"
      by (cases "sl_get (e_slab E) (m_pool m) i") (auto simp: task_in_def slots_def)
    from poll_task_absent[OF this] have "process_tasks E (i # ids) m = process_tasks E ids m" by simp
    moreover have "polls_in_turn (i # ids) (slots E m) ps p' = polls_in_turn ids (slots E m) ps p'" for ps p'
      using False by simp
    ultimately show ?thesis using Cons.IH[OF Cons.prems] by (simp only: )
  next
    case True
    then obtain t where "sl_get (e_slab E) (m_pool m) i = Some (Some t)" by (auto simp: task_in_def slots_def)
    from poll_task_ok[OF E(1) Cons.prems this] obtain ret t' m1 where
      m1: "poll_task E i m = Inr (Some ret, m1)" "queues_wf m1" "loop_frame m m1"
      "sl_get (e_slab E) (m_pool m1) i = Some (Some t')" "t_stat t' \<noteq> None"
      "\<forall>k. k \<noteq> i \<longrightarrow> sl_get (e_slab E) (m_pool m) k \<noteq> None \<longrightarrow>
       sl_get (e_slab E) (m_pool m1) k = sl_get (e_slab E) (m_pool m) k"
      "\<forall>k u. k \<noteq> i \<longrightarrow> sl_get (e_slab E) (m_pool m1) k = Some (Some u) \<longrightarrow> task_wf m1 u"
      "ret = Pending \<longrightarrow> rt_inv E m1" by blast
    note l1 = poll_task_logged[OF E wf m1(1)]
    show ?thesis
    proof (cases ret)
      case Pending
      with m1(8) have "rt_inv E m1" by simp
      from Cons.IH[OF this] obtain b m2 ps where
        m2: "process_tasks E ids m1 = Inr (b, m2)" "rt_inv E m2" "loop_frame m1 m2" "logged lg ps m1 m2"
        "polls_in_turn ids (slots E m1) ps (slots E m2)" "b \<longleftrightarrow> (\<exists>i. (i, True) \<in> set ps)" by blast
      have "task_in (slots E m1) i" "\<forall>j. j \<noteq> i \<longrightarrow> slots E m j \<noteq> None \<longrightarrow> slots E m1 j = slots E m j"
        using m1(4,6) by (simp_all add: slots_def task_in_def)
      with True m2(5) have "polls_in_turn (i # ids) (slots E m) ((i, False) # ps) (slots E m2)" by (simp, blast)
      moreover have "process_tasks E (i # ids) m = Inr (b, m2)" using m1(1) m2(1) Pending by simp
      moreover have "logged lg ((i, False) # ps) m m2" using logged_trans[OF l1 m2(4)] Pending by simp
      moreover have "b \<longleftrightarrow> (\<exists>j. (j, True) \<in> set ((i, False) # ps))" using m2(6) by simp
      ultimately show ?thesis using m2(2) loop_frame_trans[OF m1(3) m2(3)] by blast
    next
      case (Ready u)
      have "reactor_poll_interval (m_config m1) \<noteq> 0"
        using Cons.prems m1(3) by (simp add: rt_inv_def loop_frame_def)
      from finish_task_ok[OF E(1) m1(2) this m1(4,5,7)] obtain m2 where
        m2: "finish_task E i m1 = Inr m2" "rt_inv E m2" "loop_frame m1 m2"
        "sl_get (e_slab E) (m_pool m2) = (sl_get (e_slab E) (m_pool m1))(i := None)" by blast
      note l2 = finish_task_logged[OF m1(2) m2(1), of lg]
      from Cons.IH[OF m2(2)] obtain b m3 ps where
        m3: "process_tasks E ids m2 = Inr (b, m3)" "rt_inv E m3" "loop_frame m2 m3" "logged lg ps m2 m3"
        "polls_in_turn ids (slots E m2) ps (slots E m3)" by blast
      have "slots E m2 i = None" "\<forall>j. j \<noteq> i \<longrightarrow> slots E m j \<noteq> None \<longrightarrow> slots E m2 j = slots E m j"
        using m1(6) m2(4) by (simp_all add: slots_def)
      with True m3(5) have "polls_in_turn (i # ids) (slots E m) ((i, True) # ps) (slots E m3)" by (simp, blast)
      moreover have "process_tasks E (i # ids) m = Inr (True, m3)" using m1(1) m2(1) m3(1) Ready by simp
      moreover have "logged lg ((i, True) # ps) m m3" using logged_trans[OF logged_trans[OF l1 l2] m3(4)] Ready by simp
      moreover have "loop_frame m m3" using m1(3) m2(3) m3(3) by (metis loop_frame_trans)
      moreover have "\<exists>j. (j, True) \<in> set ((i, True) # ps)" by auto
      ultimately show ?thesis using m3(2) by blast
    qed
  qed
qed

lemma poll_reactors_logged:
  fixes E :: "('f, 'v, 'p, 'w) env" and m :: "('v, 'p, 'w) machine"
  assumes E: "env_ok E" "logs_polls lg E"
  shows "rt_inv E m \<Longrightarrow> poll_reactors E it ids m = Inr (b, m') \<Longrightarrow>
    logged lg [] m m' \<and> (\<forall>i. slots E m i \<noteq> None \<longrightarrow> slots E m' i = slots E m i)"
proof (induction ids arbitrary: m b)
  case Nil
  then show ?case by (auto intro!: same_queues_logged simp: rt_inv_def)
next
  case (Cons i ids)
  have upd: "logged lg [] n (upd_reactor i w n)" "slots E (upd_reactor i w n) = slots E n"
    if "queues_wf n" for n :: "('v, 'p, 'w) machine" and w
    using that by (auto simp: upd_reactor_def slots_def intro!: same_queues_logged)
  show ?case
  proof (cases "\<exists>w. map_of (m_reactors m) i = Some w \<and> rw_enable w")
    case False
    with Cons.prems Cons.IH[OF Cons.prems(1)] show ?thesis by (auto split: option.splits)
  next
    case True
    then obtain w where w: "map_of (m_reactors m) i = Some w" "rw_enable w" by blast
    obtain status w' where st: "get_cached_reactor_status E m w it = (status, w')" by fastforce
    let ?m = "upd_reactor i w' m"
    have wf: "queues_wf m" using Cons.prems by (simp add: rt_inv_def)
    note l0 = upd[OF wf, of w']
    show ?thesis
    proof (cases "status = Running")
      case True
      from reactor_poll_ok[OF E(1), of ?m "rw_reactor w'"] Cons.prems obtain m1 where
        m1: "e_reactor_poll E (rw_reactor w') ?m = Inr m1" "rt_inv E m1" by auto
      have wf0: "queues_wf ?m" using l0 by (simp add: logged_def)
      have l1: "logged lg [] ?m m1" by (rule reactor_logged[OF E wf0 m1(1)])
      from E(1) wf0 m1(1) have "(api_step E)\<^sup>*\<^sup>* ?m m1" unfolding env_ok_def by (metis Inr_inject)
      from api_steps_inv[OF this env_ok_slab[OF E(1)] wf0]
      have k1: "\<forall>i. slots E ?m i \<noteq> None \<longrightarrow> slots E m1 i = slots E ?m i" by (simp add: api_frame_def slots_def)
      let ?m1 = "upd_reactor i (w'\<lparr>rw_poll_counter := rw_poll_counter w' + 1\<rparr>) m1"
      note l2 = upd[of m1 "w'\<lparr>rw_poll_counter := rw_poll_counter w' + 1\<rparr>"]
      from Cons.prems(2) w st True m1(1) obtain b' where "poll_reactors E it ids ?m1 = Inr (b', m')"
        by (auto simp: Let_def run_bind_eq_Inr)
      from Cons.IH[OF _ this] m1(2) have l3: "logged lg [] ?m1 m'" "\<forall>i. slots E ?m1 i \<noteq> None \<longrightarrow> slots E m' i = slots E ?m1 i"
        by auto
      have q1: "queues_wf m1" using l1 by (simp add: logged_def)
      from logged_trans[OF logged_trans[OF l0(1) l1] logged_trans[OF l2(1)[OF q1] l3(1)]]
      have "logged lg [] m m'" by simp
      moreover have "slots E m' j = slots E m j" if "slots E m j \<noteq> None" for j
        using that k1 l3(2) unfolding l0(2) l2(2)[OF q1] by metis
      ultimately show ?thesis by blast
    next
      case False
      with Cons.prems(2) w st have "poll_reactors E it ids ?m = Inr (b, m')" by simp
      from Cons.IH[OF _ this] Cons.prems(1) l0 logged_trans[OF l0(1)] show ?thesis by fastforce
    qed
  qed
qed

lemma park_log [simp]:
  "m_world (idle_park E c m) = m_world m" "m_world (count_reactor_only c b m) = m_world m"
  "m_iteration (idle_park E c m) = m_iteration m" "m_iteration (count_reactor_only c b m) = m_iteration m"
  "slots E' (idle_park E c m) = slots E' m" "slots E' (count_reactor_only c b m) = slots E' m"
  by (simp_all add: idle_park_def count_reactor_only_def slots_def Let_def)

lemma slots_queue [simp]:
  fixes m :: "('v, 'p, 'w) machine"
  shows "slots E (m\<lparr>task_queue := q\<rparr>) = slots E m" "slots E (m\<lparr>polling_queue := q\<rparr>) = slots E m"
    "slots E (m\<lparr>m_task_buf := ids\<rparr>) = slots E m" "slots E (m\<lparr>m_polling_buf := ids\<rparr>) = slots E m"
    "slots E (m\<lparr>m_iteration := n\<rparr>) = slots E m" "slots E (m\<lparr>m_reactor_only := n\<rparr>) = slots E m"
  by (simp_all add: slots_def)

lemma grows_task_queue: "grows m m' \<Longrightarrow> \<exists>ws. contents (task_queue m') = contents (task_queue m) @ ws"
  unfolding grows_def by (metis (full_types) get_queue_def queue_id.case(1))

text \<open>
  C2 (functional). What one iteration of \<open>run_queue\<close> polls, by the log: first, one after the other
  and once each, the ids that were in the polling queue when it began (ids queued meanwhile
  wait for the next iteration, so a task that always yields cannot hold the loop); then, after them,
  the oldest ids of the normal queue as it is by then, at most the batch size, while the others keep
  their places at the front of the queue. An id whose task is gone is skipped, a task that is ready leaves
  the pool at once, every other keeps its slot, no task is lost, nothing else is polled, and an
  iteration in which a task was ready counts as progress.
\<close>

theorem run_iteration_schedule:
  fixes E :: "('f, 'v, 'p, 'w) env" and m :: "('v, 'p, 'w) machine"
  assumes E: "env_ok E" and lg: "logs_polls lg E" and inv: "rt_inv E m"
  shows "\<exists>b m' m1 m2 ps qs ws zs. run_iteration E m = Some (Inr (b, m')) \<and>
    (\<forall>i. slots E m i \<noteq> None \<longrightarrow> slots E m1 i = slots E m i) \<and>
    polls_in_turn (contents (polling_queue m)) (slots E m1) ps (slots E m2) \<and>
    contents (task_queue m2) = contents (task_queue m) @ ws \<and>
    polls_in_turn (take (task_batch_size (m_config m)) (contents (task_queue m2))) (slots E m2) qs (slots E m') \<and>
    contents (task_queue m') = drop (task_batch_size (m_config m)) (contents (task_queue m2)) @ zs \<and>
    lg (m_world m') = lg (m_world m) @ ps @ qs \<and>
    (\<forall>i. i \<in> set (contents (polling_queue m)) \<and> task_in (slots E m) i \<longrightarrow> i \<in> fst ` set ps) \<and>
    ((\<exists>i. (i, True) \<in> set (ps @ qs)) \<longrightarrow> b)"
proof -
  let ?m0 = "m\<lparr>m_iteration := m_iteration m + 1\<rparr>"
  have wf: "queues_wf ?m0" using inv by (simp add: rt_inv_def queues_wf_get)
  from drain_polling_ok[OF wf] obtain q m1 where q: "drain_polling ?m0 = Some (Inr m1)" "queue_wf q"
    "m1 = ?m0\<lparr>m_polling_buf := contents (polling_queue m), polling_queue := q\<rparr>" by auto
  have i1: "rt_inv E m1" unfolding q(3) using inv q(2) by (intro rt_inv_queues) simp_all
  from should_poll_ok[OF i1, of E "m_iteration m"] obtain sp m2 where
    m2: "should_poll_reactors E (m_iteration m) m1 = Inr (sp, m2)" "m2 = m1 \<or> m2 = m1\<lparr>m_reactor_only := 0\<rparr>" by auto
  have i2: "rt_inv E m2" and same2: "m_polling_buf m2 = contents (polling_queue m)" "m_config m2 = m_config m"
    "task_queue m2 = task_queue m" "m_world m2 = m_world m" "slots E m2 = slots E m"
    using m2(2) i1 q(3) by auto
  obtain p1 m3 where m3: "(if sp then poll_reactors E (m_iteration m) (reactor_ids E m2) m2 else Inr (False, m2)) = Inr (p1, m3)"
    "rt_inv E m3" "reactor_frame m2 m3"
    using poll_reactors_ok[OF E i2, of "m_iteration m" "reactor_ids E m2"] i2 by (cases sp) auto
  have l2: "logged lg [] m2 m2" using i2 by (auto simp: rt_inv_def intro: same_queues_logged)
  have "logged lg [] m2 m3 \<and> (\<forall>i. slots E m2 i \<noteq> None \<longrightarrow> slots E m3 i = slots E m2 i)"
  proof (cases sp)
    case True
    with m3(1) have "poll_reactors E (m_iteration m) (reactor_ids E m2) m2 = Inr (p1, m3)" by simp
    then show ?thesis by (rule poll_reactors_logged[OF E lg i2])
  next
    case False
    with m3(1) l2 show ?thesis by simp
  qed
  then have l3: "logged lg [] m2 m3" "\<forall>i. slots E m i \<noteq> None \<longrightarrow> slots E m3 i = slots E m i"
    unfolding same2(5) by simp_all
  have buf: "m_polling_buf m3 = contents (polling_queue m)" and cfg3: "m_config m3 = m_config m"
    using m3(3) same2 by (simp_all add: reactor_frame_def loop_frame_def)
  from process_tasks_turns[OF E lg m3(2), of "contents (polling_queue m)"] obtain p2 m4 ps where
    m4: "process_tasks E (contents (polling_queue m)) m3 = Inr (p2, m4)" "rt_inv E m4" "loop_frame m3 m4" "logged lg ps m3 m4"
    "polls_in_turn (contents (polling_queue m)) (slots E m3) ps (slots E m4)" "p2 \<longleftrightarrow> (\<exists>i. (i, True) \<in> set ps)" by blast
  have cfg4: "m_config m4 = m_config m" and wf4: "queues_wf m4"
    using m4(2,3) cfg3 by (simp_all add: rt_inv_def loop_frame_def)
  let ?batch = "take (task_batch_size (m_config m)) (contents (task_queue m4))"
  from fill_batch_ok[OF wf4] obtain q5 m5 where q5: "fill_batch m4 = Inr m5"
    "queue_wf q5" "contents q5 = drop (task_batch_size (m_config m)) (contents (task_queue m4))"
    "m5 = m4\<lparr>m_task_buf := ?batch, task_queue := q5\<rparr>"
    unfolding cfg4 by blast
  have i5: "rt_inv E m5" unfolding q5(4) using m4(2) q5(2) by (intro rt_inv_queues) simp_all
  from process_tasks_turns[OF E lg i5, of ?batch] obtain c m6 qs where
    m6: "process_tasks E ?batch m5 = Inr (c, m6)" "logged lg qs m5 m6"
    "polls_in_turn ?batch (slots E m5) qs (slots E m6)" "c \<longleftrightarrow> (\<exists>i. (i, True) \<in> set qs)" by blast
  let ?m' = "idle_park E c (count_reactor_only c sp m6)"
  have run: "run_iteration E m = Some (Inr (p1 \<or> p2 \<or> c, ?m'))"
    using q(1) m2(1) m3(1) buf m4(1) q5(1,4) m6(1) by (simp add: run_iteration_def Let_def)
  have l4: "logged lg ps m2 m4" using logged_trans[OF l3(1) m4(4)] by simp
  then obtain ws where ws: "contents (task_queue m4) = contents (task_queue m) @ ws"
    using grows_task_queue[of m2 m4] same2(3) by (auto simp: logged_def)
  obtain zs where zs: "contents (task_queue m6) = drop (task_batch_size (m_config m)) (contents (task_queue m4)) @ zs"
    using grows_task_queue[of m5 m6] m6(2) q5(3,4) by (auto simp: logged_def)
  have log: "lg (m_world ?m') = lg (m_world m) @ ps @ qs"
    using l4 m6(2) q5(4) same2(4) by (simp add: logged_def)
  have all: "i \<in> fst ` set ps" if "i \<in> set (contents (polling_queue m))" "task_in (slots E m) i" for i
  proof (rule polls_in_turn_all[OF m4(5) that(1)])
    show "task_in (slots E m3) i" using that(2) l3(2) by (auto simp: task_in_def)
  qed
  show ?thesis
  proof (intro exI conjI)
    show "run_iteration E m = Some (Inr (p1 \<or> p2 \<or> c, ?m'))" by (rule run)
    show "\<forall>i. slots E m i \<noteq> None \<longrightarrow> slots E m3 i = slots E m i" by (rule l3(2))
    show "polls_in_turn (contents (polling_queue m)) (slots E m3) ps (slots E m4)" by (rule m4(5))
    show "contents (task_queue m4) = contents (task_queue m) @ ws" by (rule ws)
    show "polls_in_turn ?batch (slots E m4) qs (slots E ?m')" using m6(3) q5(4) by simp
    show "contents (task_queue ?m') = drop (task_batch_size (m_config m)) (contents (task_queue m4)) @ zs" using zs by simp
    show "lg (m_world ?m') = lg (m_world m) @ ps @ qs" by (rule log)
    show "\<forall>i. i \<in> set (contents (polling_queue m)) \<and> task_in (slots E m) i \<longrightarrow> i \<in> fst ` set ps"
      using all by blast
    show "(\<exists>i. (i, True) \<in> set (ps @ qs)) \<longrightarrow> p1 \<or> p2 \<or> c" using m4(6) m6(4) by auto
  qed
qed

text \<open>
  An environment that keeps the log, whose futures count down and wake themselves; its runtime polls
  one normal task in an iteration. A polling task and two normal ones are spawned.
\<close>

definition log_env :: "(nat, nat, nat task option option list, (nat \<times> bool) list) env" where
  "log_env = \<lparr>e_slab = list_slab,
     e_user_poll = \<lambda>w f m. (case f of
        0 \<Rightarrow> Inr (Ready 42, 0, m\<lparr>m_world := m_world m @ [(wk_task w, True)]\<rparr>)
      | Suc k \<Rightarrow> run_bind (wake w (m\<lparr>m_world := m_world m @ [(wk_task w, False)]\<rparr>)) (\<lambda>m. Inr (Pending, k, m))),
     e_reactor_poll = \<lambda>_ m. Inr m, e_reactor_status = \<lambda>_ _. Stopped, e_clock = id,
     e_var = \<lambda>_. None, e_hash_order = id\<rparr>"

lemma env_ok_log: "env_ok log_env" and logs_polls_log: "logs_polls id log_env"
proof -
  have wake: "\<exists>c. wake w (m\<lparr>m_world := x\<rparr>) = Inr (upd_queue (wk_queue w) (\<lambda>_. c) (m\<lparr>m_world := x\<rparr>))"
    if "queues_wf m" for w x and m :: "(nat, nat task option option list, (nat \<times> bool) list) machine"
  proof -
    have "queues_wf (m\<lparr>m_world := x\<rparr>)" using that by (simp add: queues_wf_get)
    from wake_machine[OF this, of w] show ?thesis by metis
  qed
  have "\<exists>r f' m'. e_user_poll log_env w f m = Inr (r, f', m') \<and> (api_step log_env)\<^sup>*\<^sup>* m m'"
    if wf: "queues_wf m" for w f m
  proof (cases f)
    case 0
    then show ?thesis by (auto simp: log_env_def intro: AWorld)
  next
    case (Suc k)
    let ?m = "m\<lparr>m_world := m_world m @ [(wk_task w, False)]\<rparr>"
    from wake[OF wf, of w] obtain m' where m': "wake w ?m = Inr m'" by blast
    then have "(api_step log_env)\<^sup>*\<^sup>* m m'"
      using AWorld[of log_env m] AWake[of w ?m m' log_env] by (meson converse_rtranclp_into_rtranclp r_into_rtranclp)
    with Suc m' show ?thesis by (auto simp: log_env_def)
  qed
  moreover have "slab_ok (e_slab log_env)" using slab_ok_list by (simp add: log_env_def)
  ultimately show "env_ok log_env" by (simp add: env_ok_def) (simp add: log_env_def)
  have "m_world m' = m_world m" if "wake w m = Inr m'"
    for w m' and m :: "(nat, nat task option option list, (nat \<times> bool) list) machine"
    using that by (auto simp: wake_def Let_def run_bind_eq_Inr upd_queue_def split: queue_id.splits sum.splits)
  then show "logs_polls id log_env"
    by (auto simp: logs_polls_def log_env_def run_bind_eq_Inr split: nat.split_asm)
qed

lemma spawn_log:
  fixes m :: "(nat, nat task option option list, (nat \<times> bool) list) machine"
  assumes inv: "rt_inv log_env m"
  shows "\<exists>i a m'. spawn_on log_env q (\<lambda>a. Spawned a f) None m = Inr (i, a, m') \<and> rt_inv log_env m' \<and>
    \<not> task_in (slots log_env m) i \<and> task_in (slots log_env m') i \<and> m_world m' = m_world m \<and>
    (\<forall>k. task_in (slots log_env m) k \<longrightarrow> task_in (slots log_env m') k) \<and> m_config m' = m_config m \<and>
    contents (get_queue q m') = contents (get_queue q m) @ [i] \<and> (\<forall>q'. q' \<noteq> q \<longrightarrow> get_queue q' m' = get_queue q' m)"
proof -
  note S = env_ok_slab[OF env_ok_log]
  have wf: "queues_wf m" using inv by (simp add: rt_inv_def)
  from spawn_on_spec[OF S wf, of q "\<lambda>a. Spawned a f" None] obtain i m' c where
    sp: "spawn_on log_env q (\<lambda>a. Spawned a f) None m = Inr (i, length (shared_heap m), m')"
    "sl_get (e_slab log_env) (m_pool m) i = None"
    "sl_get (e_slab log_env) (m_pool m') =
      (sl_get (e_slab log_env) (m_pool m))(i \<mapsto> Some (task_new (Spawned (length (shared_heap m)) f) q None))"
    "contents (get_queue q m') = contents (get_queue q m) @ [i]" "\<forall>q'. q' \<noteq> q \<longrightarrow> get_queue q' m' = get_queue q' m"
    and e: "m' = upd_queue q (\<lambda>_. c) (m\<lparr>shared_heap := shared_heap m', m_pool := m_pool m'\<rparr>)" by blast
  have "rt_inv log_env m'" using api_step_inv[OF ASpawn[OF sp(1)] S wf] inv by blast
  moreover have "m_world m' = m_world m" "m_config m' = m_config m" by (subst e, simp)+
  moreover have "\<not> task_in (slots log_env m) i" "task_in (slots log_env m') i"
    "\<forall>k. task_in (slots log_env m) k \<longrightarrow> task_in (slots log_env m') k"
    using sp(2,3) by (auto simp: task_in_def slots_def)
  ultimately show ?thesis using sp(1,4,5) by blast
qed

lemma polls_one:
  assumes "polls_in_turn [i] p ps p'" "task_in p i"
  shows "\<exists>r. ps = [(i, r)] \<and> (\<forall>j. j \<noteq> i \<longrightarrow> p j \<noteq> None \<longrightarrow> p' j = p j)"
  using assms by fastforce

theorem run_iteration_schedule_witness:
  "\<exists>i j k a1 a2 a3 m1 m2 m3 m' p r s zs.
     spawn_on log_env QPolling (\<lambda>a. Spawned a (Untracked 1)) None
       (with_config log_env 4 (scheduling_config_default\<lparr>task_batch_size := 1\<rparr>) []) = Inr (i, a1, m1) \<and>
     spawn_on log_env QNormal (\<lambda>a. Spawned a (Untracked 0)) None m1 = Inr (j, a2, m2) \<and>
     spawn_on log_env QNormal (\<lambda>a. Spawned a (Untracked 0)) None m2 = Inr (k, a3, m3) \<and> i \<noteq> j \<and>
     run_iteration log_env m3 = Some (Inr (p, m')) \<and>
     m_world m' = [(i, r), (j, s)] \<and> contents (task_queue m') = k # zs"
proof -
  let ?m0 = "with_config log_env 4 (scheduling_config_default\<lparr>task_batch_size := 1\<rparr>) []"
  have inv0: "rt_inv log_env ?m0"
    by (rule rt_inv_new[OF env_ok_slab[OF env_ok_log]]) (simp add: scheduling_config_default_def)
  have q0: "contents (task_queue ?m0) = []" "contents (polling_queue ?m0) = []" "m_world ?m0 = []"
    "task_batch_size (m_config ?m0) = 1"
    by (simp_all add: with_config_def scheduling_config_default_def queue_wf_unbounded_channel)
  from spawn_log[OF inv0, of QPolling "Untracked 1"] obtain i a1 m1 where
    1: "spawn_on log_env QPolling (\<lambda>a. Spawned a (Untracked 1)) None ?m0 = Inr (i, a1, m1)" "rt_inv log_env m1"
    "task_in (slots log_env m1) i" "m_world m1 = m_world ?m0" "m_config m1 = m_config ?m0"
    "contents (get_queue QPolling m1) = contents (get_queue QPolling ?m0) @ [i]"
    "\<forall>q. q \<noteq> QPolling \<longrightarrow> get_queue q m1 = get_queue q ?m0" by blast
  from spawn_log[OF 1(2), of QNormal "Untracked 0"] obtain j a2 m2 where
    2: "spawn_on log_env QNormal (\<lambda>a. Spawned a (Untracked 0)) None m1 = Inr (j, a2, m2)" "rt_inv log_env m2"
    "\<not> task_in (slots log_env m1) j" "task_in (slots log_env m2) j" "m_world m2 = m_world m1"
    "\<forall>k. task_in (slots log_env m1) k \<longrightarrow> task_in (slots log_env m2) k" "m_config m2 = m_config m1"
    "contents (get_queue QNormal m2) = contents (get_queue QNormal m1) @ [j]"
    "\<forall>q. q \<noteq> QNormal \<longrightarrow> get_queue q m2 = get_queue q m1" by blast
  from spawn_log[OF 2(2), of QNormal "Untracked 0"] obtain k a3 m3 where
    3: "spawn_on log_env QNormal (\<lambda>a. Spawned a (Untracked 0)) None m2 = Inr (k, a3, m3)" "rt_inv log_env m3"
    "m_world m3 = m_world m2" "\<forall>k. task_in (slots log_env m2) k \<longrightarrow> task_in (slots log_env m3) k" "m_config m3 = m_config m2"
    "contents (get_queue QNormal m3) = contents (get_queue QNormal m2) @ [k]"
    "\<forall>q. q \<noteq> QNormal \<longrightarrow> get_queue q m3 = get_queue q m2" by blast
  have q3: "get_queue QPolling m3 = get_queue QPolling m1" "get_queue QNormal m1 = get_queue QNormal ?m0"
    using 1(7) 2(9) 3(7) by simp_all
  have in3: "task_in (slots log_env m3) i" "task_in (slots log_env m3) j" using 1(3) 2(4,6) 3(4) by blast+
  have ne: "i \<noteq> j" using 1(3) 2(3) by blast
  have qs: "contents (polling_queue m3) = [i]" "contents (task_queue m3) = [j, k]" "m_world m3 = []"
    "task_batch_size (m_config m3) = 1"
  proof -
    show "contents (polling_queue m3) = [i]" using 1(6) q0(2) q3(1) by (simp add: get_queue_def)
    show "contents (task_queue m3) = [j, k]" using 2(8) 3(6) q0(1) q3(2) by (simp add: get_queue_def)
    show "m_world m3 = []" using 1(4) 2(5) 3(3) q0(3) by simp
    show "task_batch_size (m_config m3) = 1" using 1(5) 2(7) 3(5) q0(4) by simp
  qed
  from run_iteration_schedule[OF env_ok_log logs_polls_log 3(2), unfolded qs(1,2,4)] obtain b m' n1 n2 ps rs ws zs where
    run: "run_iteration log_env m3 = Some (Inr (b, m'))" and keep: "\<forall>i. slots log_env m3 i \<noteq> None \<longrightarrow> slots log_env n1 i = slots log_env m3 i"
    and ps: "polls_in_turn [i] (slots log_env n1) ps (slots log_env n2)" and tq: "contents (task_queue n2) = [j, k] @ ws"
    and rs: "polls_in_turn (take 1 (contents (task_queue n2))) (slots log_env n2) rs (slots log_env m')"
    and rest: "contents (task_queue m') = drop 1 (contents (task_queue n2)) @ zs" and log: "id (m_world m') = id (m_world m3) @ ps @ rs"
    by blast
  have i1: "slots log_env n1 i = slots log_env m3 i" "slots log_env n1 j = slots log_env m3 j"
    using keep in3 by (auto simp: task_in_def)
  then have t1: "task_in (slots log_env n1) i" "task_in (slots log_env n1) j" using in3 by (simp_all add: task_in_def)
  from polls_one[OF ps t1(1)] obtain r where
    r: "ps = [(i, r)]" "\<forall>j. j \<noteq> i \<longrightarrow> slots log_env n1 j \<noteq> None \<longrightarrow> slots log_env n2 j = slots log_env n1 j" by blast
  have "task_in (slots log_env n2) j" using r(2) t1(2) ne unfolding task_in_def by (metis option.distinct(1))
  moreover have "take 1 (contents (task_queue n2)) = [j]" using tq by simp
  ultimately obtain s where s: "rs = [(j, s)]" using polls_one rs by metis
  from log r(1) s qs(3) have "m_world m' = [(i, r), (j, s)]" by simp
  moreover have "contents (task_queue m') = k # (ws @ zs)" using rest tq by simp
  ultimately show ?thesis using 1(1) 2(1) 3(1) run ne by (intro exI conjI)
qed

text \<open>
  Spawning never fails: the new task goes to the pool under a key that was vacant,
  no other entry of the pool changes, its join handle is a fresh cell, and its id is appended to its
  queue, behind everything queued before.
\<close>

theorem spawn_enqueues:
  fixes E :: "('f, 'v, 'p, 'w) env" and m :: "('v, 'p, 'w) machine"
  assumes "env_ok E" "rt_inv E m"
  shows "\<exists>i m'. spawn_with_runtime E f m = Inr (length (shared_heap m), m') \<and> rt_inv E m' \<and>
    sl_get (e_slab E) (m_pool m) i = None \<and>
    sl_get (e_slab E) (m_pool m') = (sl_get (e_slab E) (m_pool m))(i \<mapsto>
      Some (task_new (Spawned (length (shared_heap m)) (maybe_tracked f (enable_perfetto_tracks (m_config m)))) QNormal None)) \<and>
    shared_heap m' = shared_heap m @ [shared_state_new] \<and>
    contents (task_queue m') = contents (task_queue m) @ [i] \<and> polling_queue m' = polling_queue m"
proof -
  let ?t = "\<lambda>a. Spawned a (maybe_tracked f (enable_perfetto_tracks (m_config m)))"
  have wf: "queues_wf m" and S: "slab_ok (e_slab E)" using assms by (simp_all add: rt_inv_def env_ok_slab)
  from spawn_on_spec[OF S wf, of QNormal ?t None] obtain i m' where
    m': "spawn_on E QNormal ?t None m = Inr (i, length (shared_heap m), m')" "queues_wf m'"
    "sl_get (e_slab E) (m_pool m) i = None"
    "sl_get (e_slab E) (m_pool m') = (sl_get (e_slab E) (m_pool m))(i \<mapsto> Some (task_new (?t (length (shared_heap m))) QNormal None))"
    "shared_heap m' = shared_heap m @ [shared_state_new]" "contents (get_queue QNormal m') = contents (get_queue QNormal m) @ [i]"
    "\<forall>q'. q' \<noteq> QNormal \<longrightarrow> get_queue q' m' = get_queue q' m" by blast
  have "api_step E m m'" using m'(1) by (rule ASpawn)
  with api_step_inv[OF _ S wf] assms(2) have "rt_inv E m'" by blast
  with m' show ?thesis by (auto simp: spawn_with_runtime_def Let_def get_queue_def dest: spec[of _ QPolling])
qed

theorem spawn_enqueues_witness:
  "\<exists>i m'. spawn_with_runtime demo_env 3 (runtime_new demo_env 4 ()) = Inr (0, m') \<and>
     contents (task_queue m') = [i] \<and> rt_inv demo_env m'"
  using spawn_enqueues[OF env_ok_demo rt_inv_runtime_new[OF env_ok_demo], of 3 4 "()"]
    queue_wf_unbounded_channel(2)[where 'a = nat]
  by (auto simp: runtime_new_def with_config_def)

subsection \<open>Completion\<close>

text \<open>Recording and removing a completed task, on the parts the joining task sees.\<close>

lemma task_poll_ready:
  fixes E :: "('f, 'v, 'p, 'w) env" and m :: "('v, 'p, 'w) machine"
  assumes E: "env_ok E" and wf: "queues_wf m" and t: "task_wf m t" "t_future t = Spawned a (Untracked f)"
    and ready: "e_user_poll E (PluvioWaker (t_sender t) i) f (m\<lparr>clock_reads := Suc (clock_reads m)\<rparr>) = Inr (Ready v, f', m1)"
  shows "\<exists>t' m2. task_poll (e_clock E) (e_user_poll E) t i m = Inr (Ready (), t', m2) \<and>
    shared_heap m2 = (shared_heap m1)[a := \<lparr>ss_waker = None, ss_result = Some (Inr (AnyVal v))\<rparr>] \<and>
    (\<forall>q. contents (get_queue q m2) = contents (get_queue q m1) @
       (case ss_waker (shared_heap m1 ! a) of Some w \<Rightarrow> if wk_queue w = q then [wk_task w] else [] | None \<Rightarrow> []))"
proof -
  let ?m = "m\<lparr>clock_reads := Suc (clock_reads m)\<rparr>"
  obtain s where s: "t_stat t = Some s" using t by (auto simp: task_wf_def)
  have wf1: "queues_wf ?m" using wf by (simp add: queues_wf_get)
  from poll_okE[OF env_ok_user[OF E] wf1] ready have "(api_step E)\<^sup>*\<^sup>* ?m m1" by (metis Inr_inject prod.inject)
  from polled_api[OF env_ok_slab[OF E] wf1 this] have wf2: "queues_wf m1" "length (shared_heap m) \<le> length (shared_heap m1)"
    by (auto simp: polled_def api_frame_def)
  have "a < length (shared_heap m1)" using t wf2(2) by (auto simp: task_wf_def)
  from complete_spec[OF wf2(1) this, of "AnyVal v"] obtain m2 where m2: "complete a (AnyVal v) m1 = Inr m2"
    "shared_heap m2 = (shared_heap m1)[a := \<lparr>ss_waker = None, ss_result = Some (Inr (AnyVal v))\<rparr>]"
    "\<forall>q. contents (get_queue q m2) = contents (get_queue q m1) @
       (case ss_waker (shared_heap m1 ! a) of Some w \<Rightarrow> if wk_queue w = q then [wk_task w] else [] | None \<Rightarrow> [])" by blast
  then show ?thesis using t(2) ready s
    by (auto simp: task_poll_def instant_now_def maybe_tracked_poll_def Let_def)
qed

text \<open>
  C3 (functional). When the poll of a queued task's future is ready with \<open>v\<close>, the loop leaves
  the task out of the pool (no other entry changes by its removal), with \<open>v\<close> in the state its join
  handle reads, and the task that awaits it, if any, at the end of its queue; a further wake-up of
  the removed task polls nothing.
\<close>

theorem ready_task_delivers:
  fixes E :: "('f, 'v, 'p, 'w) env" and m :: "('v, 'p, 'w) machine"
  assumes E: "env_ok E" and inv: "rt_inv E m"
    and slot: "sl_get (e_slab E) (m_pool m) i = Some (Some t)" "t_future t = Spawned a (Untracked f)"
    and ready: "e_user_poll E (PluvioWaker (t_sender t) i) f
      (m\<lparr>m_pool := sl_put (e_slab E) (m_pool m) i None, clock_reads := Suc (clock_reads m)\<rparr>) = Inr (Ready v, f', m1)"
  shows "\<exists>m'. process_tasks E [i] m = Inr (True, m') \<and> rt_inv E m' \<and>
    sl_get (e_slab E) (m_pool m') i = None \<and> poll_task E i m' = Inr (None, m') \<and>
    (\<forall>k. k \<noteq> i \<longrightarrow> sl_get (e_slab E) (m_pool m) k \<noteq> None \<longrightarrow>
       sl_get (e_slab E) (m_pool m') k = sl_get (e_slab E) (m_pool m) k) \<and>
    shared_heap m' ! a = \<lparr>ss_waker = None, ss_result = Some (Inr (AnyVal v))\<rparr> \<and>
    (\<forall>w. ss_waker (shared_heap m1 ! a) = Some w \<longrightarrow>
       contents (get_queue (wk_queue w) m') = contents (get_queue (wk_queue w) m1) @ [wk_task w])"
proof -
  let ?m = "m\<lparr>m_pool := sl_put (e_slab E) (m_pool m) i None\<rparr>"
  have wf: "queues_wf ?m" and tw: "task_wf ?m t" using inv slot by (auto simp: rt_inv_def queues_wf_get)
  have "e_user_poll E (PluvioWaker (t_sender t) i) f (?m\<lparr>clock_reads := Suc (clock_reads ?m)\<rparr>) = Inr (Ready v, f', m1)"
    using ready by simp
  from task_poll_ready[OF E wf tw slot(2) this] obtain t2 m2 where
    m2: "task_poll (e_clock E) (e_user_poll E) t i ?m = Inr (Ready (), t2, m2)"
    "shared_heap m2 = (shared_heap m1)[a := \<lparr>ss_waker = None, ss_result = Some (Inr (AnyVal v))\<rparr>]"
    "\<forall>q. contents (get_queue q m2) = contents (get_queue q m1) @
       (case ss_waker (shared_heap m1 ! a) of Some w \<Rightarrow> if wk_queue w = q then [wk_task w] else [] | None \<Rightarrow> [])" by blast
  from poll_task_ok[OF E inv slot(1)] obtain ret t' m3 where
    m3: "poll_task E i m = Inr (Some ret, m3)" "queues_wf m3" "loop_frame m m3"
    "sl_get (e_slab E) (m_pool m3) i = Some (Some t')" "t_stat t' \<noteq> None"
    "\<forall>k. k \<noteq> i \<longrightarrow> sl_get (e_slab E) (m_pool m) k \<noteq> None \<longrightarrow> sl_get (e_slab E) (m_pool m3) k = sl_get (e_slab E) (m_pool m) k"
    "\<forall>k u. k \<noteq> i \<longrightarrow> sl_get (e_slab E) (m_pool m3) k = Some (Some u) \<longrightarrow> task_wf m3 u" by blast
  have e3: "ret = Ready ()" "shared_heap m3 = shared_heap m2" "\<forall>q. get_queue q m3 = get_queue q m2"
    using m3(1) m2(1) slot(1) by (auto simp: poll_task_def Let_def split: if_splits)
  have "reactor_poll_interval (m_config m3) \<noteq> 0" using inv m3(3) by (simp add: rt_inv_def loop_frame_def)
  from finish_task_ok[OF E m3(2) this m3(4,5,7)] obtain m4 where
    m4: "finish_task E i m3 = Inr m4" "rt_inv E m4" "sl_get (e_slab E) (m_pool m4) = (sl_get (e_slab E) (m_pool m3))(i := None)"
    "shared_heap m4 = shared_heap m3" "\<forall>q. contents (get_queue q m4) = contents (get_queue q m3)" by blast
  have run: "process_tasks E [i] m = Inr (True, m4)" using m3(1) e3(1) m4(1) by simp
  have "a < length (shared_heap m3)" using tw slot(2) m3(3) by (simp add: task_wf_def loop_frame_def)
  then have a: "shared_heap m4 ! a = \<lparr>ss_waker = None, ss_result = Some (Inr (AnyVal v))\<rparr>"
    using m4(4) e3(2) m2(2) by simp
  have gone: "poll_task E i m4 = Inr (None, m4)" using m4(3) by (intro poll_task_absent) simp
  show ?thesis using run m4(2,3,5) m3(6) a gone e3(3) m2(3) by (intro exI[of _ m4]) auto
qed

text \<open>A spawned task of the demonstration environment whose future is ready at once.\<close>

theorem ready_task_delivers_witness:
  "\<exists>m m'. spawn_with_runtime demo_env 0 (runtime_new demo_env 4 ()) = Inr (0, m) \<and>
     process_tasks demo_env [0] m = Inr (True, m') \<and> ss_result (shared_heap m' ! 0) = Some (Inr (AnyVal 42))"
proof -
  let ?m0 = "runtime_new demo_env 4 ()"
  have wf: "queues_wf ?m0" and S: "slab_ok (e_slab demo_env)"
    using rt_inv_runtime_new[OF env_ok_demo, of 4 "()"] by (simp_all add: rt_inv_def env_ok_slab[OF env_ok_demo])
  let ?t = "task_new (Spawned 0 (Untracked 0)) QNormal None"
  from spawn_on_spec[OF S wf, of QNormal "\<lambda>a. Spawned a (Untracked 0)" None] obtain i m where
    m: "spawn_on demo_env QNormal (\<lambda>a. Spawned a (Untracked 0)) None ?m0 = Inr (i, 0, m)"
    "sl_get (e_slab demo_env) (m_pool m) i = Some (Some ?t)"
    by (auto simp: runtime_new_def with_config_def)
  have i: "i = 0" using m(1)
    by (auto simp: spawn_on_def create_task_and_handle_def Let_def demo_env_def list_slab_def runtime_new_def
        with_config_def run_bind_eq_Inr)
  have sp: "spawn_with_runtime demo_env 0 ?m0 = Inr (0, m)"
    using m(1) by (simp add: spawn_with_runtime_def maybe_tracked_def runtime_new_def with_config_def
        scheduling_config_default_def)
  have inv: "rt_inv demo_env m"
    using api_step_inv[OF ASpawn[OF m(1)] S wf] rt_inv_runtime_new[OF env_ok_demo, of 4 "()"] by blast
  have "e_user_poll demo_env w 0 m' = Inr (Ready 42, 0, m')" for w m' by (simp add: demo_env_def)
  from ready_task_delivers[OF env_ok_demo inv m(2)[unfolded i], of 0 0, OF _ this] show ?thesis
    using sp by (auto simp: task_new_def)
qed

subsection \<open>The stuck exit\<close>

definition never_ready :: "('f, 'v, 'p, 'w) env \<Rightarrow> bool" where
  "never_ready E \<longleftrightarrow> (\<forall>w f m r f' m'. e_user_poll E w f m = Inr (r, f', m') \<longrightarrow> r = Pending)"

lemma never_ready_task:
  assumes "never_ready E" "task_poll clock (e_user_poll E) t i m = Inr (ret, t', m')"
  shows "ret = Pending"
proof -
  have user: "r = Pending" if "e_user_poll E w f m = Inr (r, f', m')" for w f m r f' m'
    using assms(1) that unfolding never_ready_def by blast
  have tr: "r = Pending" if "tracked_poll (e_user_poll E w) f m = Inr (r, f', m')" for w f m r f' m'
    using that by (auto simp: tracked_poll_def Let_def run_bind_eq_Inr split: prod.splits if_splits dest: user)
  have mt: "r = Pending" if "maybe_tracked_poll (e_user_poll E w) f m = Inr (r, f', m')" for w f m r f' m'
    using that by (cases f) (auto simp: maybe_tracked_poll_def run_bind_eq_Inr dest: user tr)
  have "r = Pending" if "task_future_poll (e_user_poll E w) f m = Inr (r, f', m')" for w f m r f' m'
    using that by (cases f) (auto simp: run_bind_eq_Inr dest!: user mt)
  then show ?thesis using assms(2)
    by (auto simp: task_poll_def instant_now_def Let_def run_bind_eq_Inr)
qed

lemma never_ready_process:
  assumes "never_ready E" "process_tasks E ids m = Inr (b, m')"
  shows "\<not> b"
  using assms(2)
proof (induction ids arbitrary: m)
  case (Cons i ids)
  have "ret \<noteq> Some (Ready ())" if "poll_task E i m = Inr (ret, m1)" for ret m1
    using that never_ready_task[OF assms(1)]
    by (fastforce simp: poll_task_def Let_def run_bind_eq_Inr split: option.splits)
  with Cons show ?case by (auto simp: run_bind_eq_Inr split: if_splits)
qed simp

text \<open>Tasks that are not ready stay in the pool.\<close>

lemma never_ready_keeps:
  fixes E :: "('f, 'v, 'p, 'w) env" and m :: "('v, 'p, 'w) machine"
  assumes E: "env_ok E" and nr: "never_ready E"
  shows "rt_inv E m \<Longrightarrow> process_tasks E ids m = Inr (b, m') \<Longrightarrow> slots E m k \<noteq> None \<Longrightarrow> slots E m' k \<noteq> None"
proof (induction ids arbitrary: m)
  case (Cons i ids)
  show ?case
  proof (cases "task_in (slots E m) i")
    case False
    then have "sl_get (e_slab E) (m_pool m) i \<in> {None, Some None}"
      by (cases "sl_get (e_slab E) (m_pool m) i") (auto simp: task_in_def slots_def)
    from poll_task_absent[OF this] Cons show ?thesis by simp
  next
    case True
    then obtain t where "sl_get (e_slab E) (m_pool m) i = Some (Some t)" by (auto simp: task_in_def slots_def)
    from poll_task_ok[OF E Cons.prems(1) this] obtain ret t' m1 where
      m1: "poll_task E i m = Inr (Some ret, m1)" "sl_get (e_slab E) (m_pool m1) i = Some (Some t')"
      "\<forall>k. k \<noteq> i \<longrightarrow> sl_get (e_slab E) (m_pool m) k \<noteq> None \<longrightarrow>
       sl_get (e_slab E) (m_pool m1) k = sl_get (e_slab E) (m_pool m) k" "ret = Pending \<longrightarrow> rt_inv E m1" by blast
    have "ret = Pending"
      using m1(1) never_ready_task[OF nr]
      by (fastforce simp: poll_task_def Let_def run_bind_eq_Inr split: option.split_asm)
    moreover have "slots E m1 k \<noteq> None"
      using Cons.prems(3) m1(2,3) unfolding slots_def by (cases "k = i") auto
    ultimately show ?thesis using Cons.IH[of m1] Cons.prems(2) m1(1,4) by simp
  qed
qed simp

lemma run_iteration_no_reactor:
  fixes E :: "('f, 'v, 'p, 'w) env" and m :: "('v, 'p, 'w) machine"
  assumes E: "env_ok E" and inv: "rt_inv E m" and nr: "m_reactors m = []" "never_ready E"
  shows "\<exists>m'. run_iteration E m = Some (Inr (False, m')) \<and> rt_inv E m' \<and> m_reactors m' = [] \<and>
    m_iteration m' = m_iteration m + 1 \<and> (\<forall>i. slots E m i \<noteq> None \<longrightarrow> slots E m' i \<noteq> None)"
proof -
  let ?m0 = "m\<lparr>m_iteration := m_iteration m + 1\<rparr>"
  have wf: "queues_wf ?m0" using inv by (simp add: rt_inv_def queues_wf_get)
  from drain_polling_ok[OF wf] obtain q m1 where q: "drain_polling ?m0 = Some (Inr m1)" "queue_wf q"
    "m1 = ?m0\<lparr>m_polling_buf := contents (polling_queue ?m0), polling_queue := q\<rparr>" by blast
  have i1: "rt_inv E m1" "m_reactors m1 = []" unfolding q(3) using inv q(2) nr(1) by (auto intro: rt_inv_queues)
  have s1: "slots E m1 = slots E m" "m_iteration m1 = m_iteration m + 1" unfolding q(3) by simp_all
  from should_poll_ok[OF i1(1), of E "m_iteration m"] obtain sp m2 where
    m2: "should_poll_reactors E (m_iteration m) m1 = Inr (sp, m2)" "rt_inv E m2" "m_reactors m2 = []"
    "slots E m2 = slots E m1" "m_iteration m2 = m_iteration m1" using i1 by auto
  have "reactor_ids E m2 = []" using E m2(3) unfolding env_ok_def reactor_ids_def by (metis list.map(1) set_empty)
  then have m3: "(if sp then poll_reactors E (m_iteration m) (reactor_ids E m2) m2 else Inr (False, m2)) = Inr (False, m2)" by simp
  from process_tasks_ok[OF E m2(2), of "m_polling_buf m2"] obtain p2 m4 where
    m4: "process_tasks E (m_polling_buf m2) m2 = Inr (p2, m4)" "rt_inv E m4" "m_reactors m4 = []"
    "m_iteration m4 = m_iteration m2" using m2(3) by (auto simp: loop_frame_def)
  have wf4: "queues_wf m4" using m4(2) by (simp add: rt_inv_def)
  from fill_batch_ok[OF wf4] obtain q5 m5 where q5: "fill_batch m4 = Inr m5" "queue_wf q5"
    "m5 = m4\<lparr>m_task_buf := take (task_batch_size (m_config m4)) (contents (task_queue m4)), task_queue := q5\<rparr>" by blast
  have i5: "rt_inv E m5" "m_reactors m5 = []" unfolding q5(3) using m4 q5(2) by (auto intro: rt_inv_queues)
  from process_tasks_ok[OF E i5(1), of "m_task_buf m5"] obtain c m6 where
    m6: "process_tasks E (m_task_buf m5) m5 = Inr (c, m6)" "rt_inv E m6" "m_reactors m6 = []"
    "m_iteration m6 = m_iteration m5" using i5(2) by (auto simp: loop_frame_def)
  have "\<not> p2" "\<not> c" using never_ready_process[OF nr(2)] m4(1) m6(1) by blast+
  then have "run_iteration E m = Some (Inr (False, idle_park E False (count_reactor_only False sp m6)))"
    using q(1) m2(1) m3 m4(1) q5(1) m6 by (simp add: run_iteration_def Let_def)
  moreover have "slots E m6 i \<noteq> None" if "slots E m i \<noteq> None" for i
    using never_ready_keeps[OF E nr(2) m2(2) m4(1), of i] never_ready_keeps[OF E nr(2) i5(1) m6(1), of i] that m2(4) s1(1) q5(3)
    by simp
  moreover have "m_iteration (idle_park E False (count_reactor_only False sp m6)) = m_iteration m + 1"
    using s1(2) m2(5) m4(4) q5(3) m6(4) by simp
  ultimately show ?thesis using m6(2,3) by simp
qed

lemma stuck_check_continue:
  assumes "stuck + 1 \<le> mx"
  shows "\<exists>sl' m2. stuck_check mx False stuck sl m = Some (stuck + 1, sl', m2) \<and> (m2 = m \<or> (\<exists>os. m2 = m\<lparr>m_os := os\<rparr>))"
proof -
  have "\<not> mx < stuck + 1" using assms by simp
  then show ?thesis by (cases "(stuck + 1) mod 10000 = 0") (auto simp: stuck_check_def Let_def)
qed

lemma slots_empty:
  assumes "slab_ok (e_slab E)"
  shows "sl_len (e_slab E) (m_pool m) = 0 \<longleftrightarrow> (\<forall>i. slots E m i = None)"
proof -
  have "sl_len (e_slab E) (m_pool m) = 0 \<longleftrightarrow> dom (slots E m) = {}"
    using slab_okD(6,7)[OF assms, of "m_pool m"] by (simp add: slots_def)
  then show ?thesis by auto
qed

text \<open>\<open>keeps_tasks E m m'\<close>: no task has left the pool.\<close>

definition keeps_tasks :: "('f, 'v, 'p, 'w) env \<Rightarrow> ('v, 'p, 'w) machine \<Rightarrow> ('v, 'p, 'w) machine \<Rightarrow> bool" where
  "keeps_tasks E m m' \<longleftrightarrow> (\<forall>i. slots E m i \<noteq> None \<longrightarrow> slots E m' i \<noteq> None)"

lemma keeps_tasks_nonempty:
  assumes "slab_ok (e_slab E)" "keeps_tasks E m m'" "sl_len (e_slab E) (m_pool m) \<noteq> 0"
  shows "sl_len (e_slab E) (m_pool m') \<noteq> 0"
  using assms(2,3) unfolding keeps_tasks_def slots_empty[OF assms(1)] by blast

lemma run_loop_gives_up:
  fixes E :: "('f, 'v, 'p, 'w) env" and m :: "('v, 'p, 'w) machine"
  assumes E: "env_ok E" and nr: "never_ready E" and mx: "mx \<noteq> -1"
  shows "n = unat mx - unat stuck \<Longrightarrow> stuck \<le> mx \<Longrightarrow> rt_inv E m \<Longrightarrow> m_reactors m = [] \<Longrightarrow>
    \<exists>m' k. run_loop E mx stuck sl m = Some (Inr m') \<and> rt_inv E m' \<and> keeps_tasks E m m' \<and>
      m_iteration m' = m_iteration m + of_nat k \<and> k \<le> Suc n \<and>
      (k < Suc n \<longrightarrow> m_shutdown m' \<or> sl_len (e_slab E) (m_pool m) = 0)"
proof (induction n arbitrary: stuck sl m)
  case n: (0 stuck sl m)
  then have eq: "stuck = mx" by (metis antisym diff_is_0_eq word_le_nat_alt)
  from run_iteration_no_reactor[OF E n(3,4) nr] obtain m1 where
    m1: "run_iteration E m = Some (Inr (False, m1))" "rt_inv E m1" "m_iteration m1 = m_iteration m + of_nat 1" "keeps_tasks E m m1"
    by (auto simp: keeps_tasks_def)
  have "mx < mx + 1" using mx by (rule u64_less_Suc)
  with m1(1) have run: "run_loop E mx stuck sl m = Some (Inr m1)"
    if "sl_len (e_slab E) (m_pool m) \<noteq> 0" "\<not> m_shutdown m"
    unfolding eq using that by (subst run_loop.simps) (simp add: stuck_check_def)
  have stop: "run_loop E mx stuck sl m = Some (Inr m) \<and> m_iteration m = m_iteration m + of_nat 0 \<and> keeps_tasks E m m"
    if "sl_len (e_slab E) (m_pool m) = 0 \<or> m_shutdown m"
    using that by (subst run_loop.simps) (auto simp: keeps_tasks_def)
  show ?case
  proof (cases "sl_len (e_slab E) (m_pool m) = 0 \<or> m_shutdown m")
    case True
    with stop n(3) show ?thesis by blast
  next
    case False
    with run m1(2-4) show ?thesis by (intro exI[of _ m1] exI[of _ 1]) simp
  qed
next
  case n: (Suc n stuck sl m)
  from run_iteration_no_reactor[OF E n(4,5) nr] obtain m1 where
    m1: "run_iteration E m = Some (Inr (False, m1))" "rt_inv E m1" "m_reactors m1 = []" "m_iteration m1 = m_iteration m + 1"
    "keeps_tasks E m m1" by (auto simp: keeps_tasks_def)
  have lt: "Suc (unat stuck) \<le> unat mx" using n(2) by simp
  then have u: "unat (stuck + 1) = Suc (unat stuck)" using unat_u64_bound[of mx] by (intro unat_u64_Suc) linarith
  then have le: "stuck + 1 \<le> mx" "n = unat mx - unat (stuck + 1)" using lt n(2) by (auto simp: word_le_nat_alt)
  obtain sl' m2 where m2: "stuck_check mx False stuck sl m1 = Some (stuck + 1, sl', m2)" "rt_inv E m2" "m_reactors m2 = []"
    "m_iteration m2 = m_iteration m1" "slots E m2 = slots E m1"
    using stuck_check_continue[OF le(1), of sl m1] m1(2,3) by (auto simp: slots_def)
  show ?case
  proof (cases "sl_len (e_slab E) (m_pool m) = 0 \<or> m_shutdown m")
    case True
    then have "run_loop E mx stuck sl m = Some (Inr m)" by (subst run_loop.simps) auto
    with True n(4) show ?thesis by (intro exI[of _ m] exI[of _ 0]) (auto simp: keeps_tasks_def)
  next
    case False
    from n(1)[OF le(2,1) m2(2,3)] obtain m' k where
      m': "run_loop E mx (stuck + 1) sl' m2 = Some (Inr m')" "rt_inv E m'" "keeps_tasks E m2 m'"
      "m_iteration m' = m_iteration m2 + of_nat k" "k \<le> Suc n"
      "k < Suc n \<longrightarrow> m_shutdown m' \<or> sl_len (e_slab E) (m_pool m2) = 0" by blast
    have "keeps_tasks E m m2" using m1(5) m2(5) by (simp add: keeps_tasks_def)
    from keeps_tasks_nonempty[OF env_ok_slab[OF E] this] False have ne: "sl_len (e_slab E) (m_pool m2) \<noteq> 0" by simp
    have "run_loop E mx stuck sl m = Some (Inr m')"
      using False m1(1) m2(1) m'(1) by (subst run_loop.simps) simp
    moreover have "keeps_tasks E m m'" using m'(3) m1(5) m2(5) by (simp add: keeps_tasks_def)
    moreover have "m_iteration m' = m_iteration m + of_nat (Suc k)" using m'(4) m2(4) m1(4) by simp
    ultimately show ?thesis using m'(2,5,6) ne by (intro exI[of _ m'] exI[of _ "Suc k"]) simp
  qed
qed

text \<open>
  C34 (termination). \<open>run_queue\<close> cannot be held for ever by tasks alone: if no reactor is
  registered and no task ever completes, even if tasks wake themselves (or spawn others) without
  end, it still returns. It runs exactly \<open>PLUVIO_MAX_STUCK_ITERATIONS\<close> + 1 iterations (1000001
  by default; the limit is not the largest \<open>u64\<close>), fewer only if a shutdown was requested
  meanwhile or the pool was empty at the start; and the tasks it gives up on are all still in the
  pool, although the comment of \<open>run_queue\<close> promises to run until the pool is empty.
\<close>

theorem run_queue_gives_up:
  fixes E :: "('f, 'v, 'p, 'w) env" and m :: "('v, 'p, 'w) machine"
  assumes "env_ok E" "rt_inv E m" "m_reactors m = []" "never_ready E"
    and "limit = env_u64 E ''PLUVIO_MAX_STUCK_ITERATIONS'' 1000000" "limit \<noteq> -1"
  shows "\<exists>m' k. run_queue E m = Some (Inr m') \<and> rt_inv E m' \<and> m_iteration m' = m_iteration m + of_nat k \<and>
    k \<le> Suc (unat limit) \<and> (k < Suc (unat limit) \<longrightarrow> m_shutdown m' \<or> sl_len (e_slab E) (m_pool m) = 0) \<and>
    (\<forall>i. sl_get (e_slab E) (m_pool m) i \<noteq> None \<longrightarrow> sl_get (e_slab E) (m_pool m') i \<noteq> None)"
  using run_loop_gives_up[OF assms(1,4,6) _ _ assms(2,3), of "unat limit" 0 1]
  unfolding run_queue_def assms(5)[symmetric] keeps_tasks_def slots_def by auto

text \<open>The demonstration environment with futures that always wake themselves.\<close>

definition busy_env :: "(nat, nat, nat task option option list, unit) env" where
  "busy_env = demo_env\<lparr>e_user_poll := \<lambda>w f m. run_bind (wake w m) (\<lambda>m. Inr (Pending, f, m))\<rparr>"

lemma env_ok_busy: "env_ok busy_env"
proof -
  have "\<exists>r f' m'. e_user_poll busy_env w f m = Inr (r, f', m') \<and> (api_step busy_env)\<^sup>*\<^sup>* m m'"
    if wf: "queues_wf m" for w f m
  proof -
    from wake_machine[OF wf, of w] obtain m' where m': "wake w m = Inr m'" by metis
    then have "api_step busy_env m m'" by (rule AWake)
    with m' show ?thesis by (auto simp: busy_env_def)
  qed
  moreover have "slab_ok (e_slab busy_env)" using slab_ok_list by (simp add: busy_env_def demo_env_def)
  ultimately show ?thesis by (simp add: env_ok_def) (simp add: busy_env_def demo_env_def)
qed

theorem run_queue_gives_up_witness:
  "\<exists>m m' k. spawn_with_runtime busy_env 7 (runtime_new busy_env 4 ()) = Inr (0, m) \<and>
     run_queue busy_env m = Some (Inr m') \<and> m_iteration m' = of_nat k \<and> (k = 1000001 \<or> k < 1000001 \<and> m_shutdown m') \<and>
     sl_len (e_slab busy_env) (m_pool m') \<noteq> 0"
proof -
  let ?m0 = "runtime_new busy_env 4 ()"
  note inv0 = rt_inv_runtime_new[OF env_ok_busy, of 4 "()"]
  have wf: "queues_wf ?m0" and S: "slab_ok (e_slab busy_env)" using inv0 by (simp_all add: rt_inv_def env_ok_slab[OF env_ok_busy])
  from spawn_on_spec[OF S wf, of QNormal "\<lambda>a. Spawned a (Untracked 7)" None] obtain i m where
    m: "spawn_on busy_env QNormal (\<lambda>a. Spawned a (Untracked 7)) None ?m0 = Inr (i, 0, m)"
    "sl_get (e_slab busy_env) (m_pool m) i \<noteq> None"
    by (auto simp: runtime_new_def with_config_def)
  have sp: "spawn_with_runtime busy_env 7 ?m0 = Inr (0, m)"
    using m(1) by (simp add: spawn_with_runtime_def maybe_tracked_def runtime_new_def with_config_def scheduling_config_default_def)
  have inv: "rt_inv busy_env m" "m_reactors m = []" "m_iteration m = 0"
    using api_step_inv[OF ASpawn[OF m(1)] S wf] inv0 by (simp_all add: api_frame_def runtime_new_def with_config_def)
  have nr: "never_ready busy_env" by (auto simp: never_ready_def busy_env_def run_bind_eq_Inr)
  have lim: "1000000 = env_u64 busy_env ''PLUVIO_MAX_STUCK_ITERATIONS'' 1000000" "(1000000 :: u64) \<noteq> -1"
    by (simp_all add: env_u64_def busy_env_def demo_env_def)
  have ne: "sl_len (e_slab busy_env) (m_pool n) \<noteq> 0" if "sl_get (e_slab busy_env) (m_pool n) i \<noteq> None"
    for n :: "(nat, nat task option option list, unit) machine"
    using that slots_empty[OF S, of n] by (auto simp: slots_def)
  have u: "Suc (unat (1000000 :: u64)) = 1000001" by simp
  from run_queue_gives_up[OF env_ok_busy inv(1,2) nr lim, unfolded u] obtain m' k where
    k: "run_queue busy_env m = Some (Inr m')" "m_iteration m' = m_iteration m + of_nat k" "k \<le> 1000001"
    "k < 1000001 \<longrightarrow> m_shutdown m' \<or> sl_len (e_slab busy_env) (m_pool m) = 0"
    "\<forall>i. sl_get (e_slab busy_env) (m_pool m) i \<noteq> None \<longrightarrow> sl_get (e_slab busy_env) (m_pool m') i \<noteq> None"
    by blast
  have "k = 1000001 \<or> k < 1000001 \<and> m_shutdown m'" using k(3,4) ne[OF m(2)] by linarith
  moreover have "m_iteration m' = of_nat k" using k(2) inv(3) by simp
  ultimately show ?thesis using sp k(1) ne[of m'] k(5) m(2) by blast
qed

end
