(* ===== verification/Task_Types.thy ===== *)
theory Task_Types
  imports Executor_Inv "HOL-Library.Sublist"
begin

section \<open>Types across the join handle (\<open>pluvio_runtime/src/task/mod.rs\<close>)\<close>

text \<open>
  The result of a task crosses its shared state as a \<open>Box<dyn Any>\<close> and is cast back by the
  \<open>JoinHandle<T>\<close>, whose \<open>T\<close> is known to the compiler only; the cast could fail at run time. Here the
  compiler's knowledge is a typing of futures and values, each cell of the heap of shared states has a type
  from its allocation on, and the executor keeps every cell, every result holder and every task in the pool
  well typed. So no join handle ever answers an error.
\<close>

subsection \<open>Typing\<close>

text \<open>\<open>TypeId\<close>: that of a value of user code, or that of the unit of a \<open>block_on\<close> wrapper.\<close>

datatype 't any_ty = TyVal 't | TyUnit

fun box_ty :: "('v \<Rightarrow> 't) \<Rightarrow> 'v any_box \<Rightarrow> 't any_ty" where
  "box_ty vt (AnyVal v) = TyVal (vt v)"
| "box_ty vt AnyUnit = TyUnit"

text \<open>\<open>Box<dyn Any>::downcast::<T>\<close>.\<close>

definition downcast :: "('v \<Rightarrow> 't) \<Rightarrow> 't any_ty \<Rightarrow> 'v any_box \<Rightarrow> 'v any_box option" where
  "downcast vt T d = (if box_ty vt d = T then Some d else None)"

text \<open>
  What the type checker guarantees of user futures: a future of output type \<open>ft f\<close> is ready with a value of
  this type, and keeps its type while it is pending.
\<close>

definition env_typed :: "('v \<Rightarrow> 't) \<Rightarrow> ('f \<Rightarrow> 't) \<Rightarrow> ('f, 'v, 'p, 'w) env \<Rightarrow> bool" where
  "env_typed vt ft E \<longleftrightarrow> (\<forall>w f m r f' m'. e_user_poll E w f m = Inr (r, f', m') \<longrightarrow>
     (case r of Ready v \<Rightarrow> vt v = ft f | Pending \<Rightarrow> ft f' = ft f))"

fun wrapped_ty :: "('f \<Rightarrow> 't) \<Rightarrow> 'f maybe_tracked_fut \<Rightarrow> 't" where
  "wrapped_ty ft (Tracked t) = ft (tf_inner t)"
| "wrapped_ty ft (Untracked f) = ft f"

text \<open>A task against the types \<open>\<Gamma>\<close> of the cells and \<open>H\<close> of the result holders.\<close>

fun task_typed :: "('f \<Rightarrow> 't) \<Rightarrow> 't any_ty list \<Rightarrow> 't list \<Rightarrow> 'f task_future \<Rightarrow> bool" where
  "task_typed ft \<Gamma> H (Spawned a f) \<longleftrightarrow> a < length \<Gamma> \<and> \<Gamma> ! a = TyVal (wrapped_ty ft f)"
| "task_typed ft \<Gamma> H (BlockOn a h f) \<longleftrightarrow> a < length \<Gamma> \<and> \<Gamma> ! a = TyUnit \<and> h < length H \<and> H ! h = ft f"
| "task_typed ft \<Gamma> H Completed \<longleftrightarrow> True"

definition heap_typed :: "('v \<Rightarrow> 't) \<Rightarrow> 't any_ty list \<Rightarrow> 'v shared_state list \<Rightarrow> bool" where
  "heap_typed vt \<Gamma> heap \<longleftrightarrow> length \<Gamma> = length heap \<and>
     (\<forall>a < length heap. \<forall>r. ss_result (heap ! a) = Some r \<longrightarrow> (\<exists>d. r = Inr d \<and> box_ty vt d = \<Gamma> ! a))"

definition holders_typed :: "('v \<Rightarrow> 't) \<Rightarrow> 't list \<Rightarrow> 'v option list \<Rightarrow> bool" where
  "holders_typed vt H hs \<longleftrightarrow> length H = length hs \<and> (\<forall>h < length hs. \<forall>v. hs ! h = Some v \<longrightarrow> vt v = H ! h)"

definition well_typed ::
  "('v \<Rightarrow> 't) \<Rightarrow> ('f \<Rightarrow> 't) \<Rightarrow> ('f, 'v, 'p, 'w) env \<Rightarrow> 't any_ty list \<Rightarrow> 't list \<Rightarrow> ('v, 'p, 'w) machine \<Rightarrow> bool" where
  "well_typed vt ft E \<Gamma> H m \<longleftrightarrow> heap_typed vt \<Gamma> (shared_heap m) \<and> holders_typed vt H (result_holders m) \<and>
     (\<forall>k t. sl_get (e_slab E) (m_pool m) k = Some (Some t) \<longrightarrow> task_typed ft \<Gamma> H (t_future t))"

text \<open>The same once more cells have been allocated.\<close>

definition typed_from ::
  "('v \<Rightarrow> 't) \<Rightarrow> ('f \<Rightarrow> 't) \<Rightarrow> ('f, 'v, 'p, 'w) env \<Rightarrow> 't any_ty list \<Rightarrow> 't list \<Rightarrow> ('v, 'p, 'w) machine \<Rightarrow> bool" where
  "typed_from vt ft E \<Gamma> H m \<longleftrightarrow> (\<exists>\<Gamma>'. prefix \<Gamma> \<Gamma>' \<and> well_typed vt ft E \<Gamma>' H m)"

lemma task_typed_mono: "task_typed ft \<Gamma> H f \<Longrightarrow> prefix \<Gamma> \<Gamma>' \<Longrightarrow> task_typed ft \<Gamma>' H f"
  by (cases f) (auto simp: prefix_def nth_append)

lemma task_typed_append: "task_typed ft \<Gamma> H f \<Longrightarrow> task_typed ft (\<Gamma> @ \<Delta>) H f"
  by (erule task_typed_mono) (rule prefixI, rule refl)

lemma well_typed_from: "well_typed vt ft E \<Gamma> H m \<Longrightarrow> typed_from vt ft E \<Gamma> H m"
  unfolding typed_from_def by blast

lemma typed_from_trans: "prefix \<Gamma> \<Gamma>' \<Longrightarrow> typed_from vt ft E \<Gamma>' H m \<Longrightarrow> typed_from vt ft E \<Gamma> H m"
  unfolding typed_from_def by (meson prefix_order.trans)

lemma well_typed_same:
  assumes "well_typed vt ft E \<Gamma> H m" "shared_heap m' = shared_heap m" "result_holders m' = result_holders m" "m_pool m' = m_pool m"
  shows "well_typed vt ft E \<Gamma> H m'"
  using assms by (simp add: well_typed_def)

lemma typed_from_same:
  assumes "typed_from vt ft E \<Gamma> H m" "shared_heap m' = shared_heap m" "result_holders m' = result_holders m" "m_pool m' = m_pool m"
  shows "typed_from vt ft E \<Gamma> H m'"
  using assms well_typed_same unfolding typed_from_def by metis

lemma well_typed_fresh:
  assumes "slab_ok (e_slab E)"
  shows "well_typed vt ft E [] [] (with_config E n config w)"
  using slab_okD(5)[OF assms] by (simp add: well_typed_def heap_typed_def holders_typed_def with_config_def)

lemma heap_typed_update:
  assumes "heap_typed vt \<Gamma> heap" "ss_result sh = None \<or> (\<exists>d. ss_result sh = Some (Inr d) \<and> box_ty vt d = \<Gamma> ! a)"
  shows "heap_typed vt \<Gamma> (heap[a := sh])"
  using assms by (cases "a < length heap") (auto simp: heap_typed_def nth_list_update)

text \<open>A cell whose result is replaced by none, or only its waker.\<close>

lemma heap_typed_keep:
  assumes "heap_typed vt \<Gamma> heap" "ss_result sh = None \<or> ss_result sh = ss_result (heap ! a)"
  shows "heap_typed vt \<Gamma> (heap[a := sh])"
  using assms by (cases "a < length heap") (auto simp: heap_typed_def nth_list_update)

subsection \<open>Join handles\<close>

text \<open>Polling a handle with its own type keeps the typing and never answers an error.\<close>

lemma join_poll_typed:
  assumes wt: "well_typed vt ft E \<Gamma> H m" and a: "a < length \<Gamma>"
  shows "\<exists>r m'. join_poll (downcast vt (\<Gamma> ! a)) a w m = Inr (r, m') \<and> well_typed vt ft E \<Gamma> H m' \<and>
    (r = Pending \<or> (\<exists>d. r = Ready (Inr d) \<and> box_ty vt d = \<Gamma> ! a))"
proof -
  have h: "heap_typed vt \<Gamma> (shared_heap m)" "a < length (shared_heap m)" using wt a by (simp_all add: well_typed_def heap_typed_def)
  show ?thesis
  proof (cases "ss_result (shared_heap m ! a)")
    case None
    then show ?thesis using wt h heap_typed_keep[OF h(1)] by (simp add: join_poll_def well_typed_def Let_def)
  next
    case (Some r)
    with h obtain d where "r = Inr d" "box_ty vt d = \<Gamma> ! a" by (auto simp: heap_typed_def)
    with Some show ?thesis using wt h heap_typed_keep[OF h(1)]
      by (simp add: join_poll_def well_typed_def downcast_def Let_def)
  qed
qed

lemma join_poll_any_typed:
  assumes "join_poll Some a w m = Inr (r, m')" "well_typed vt ft E \<Gamma> H m"
  shows "well_typed vt ft E \<Gamma> H m'"
  using assms heap_typed_keep by (fastforce simp: join_poll_def well_typed_def Let_def split: if_splits option.splits)

subsection \<open>Preservation\<close>

locale typed_futures =
  fixes vt :: "'v \<Rightarrow> 't" and ft :: "'f \<Rightarrow> 't" and E :: "('f, 'v, 'p, 'w) env"
  assumes env: "env_ok E" and poll_typed: "env_typed vt ft E"
begin

lemma slab: "slab_ok (e_slab E)"
  using env by (rule env_ok_slab)

lemma spawn_typed:
  assumes wf: "queues_wf m" and wt: "well_typed vt ft E \<Gamma> H m" and run: "spawn_on E q mk nm m = Inr (i, h, m')"
    and mk: "task_typed ft (\<Gamma> @ [T]) H (mk (length \<Gamma>))"
  shows "well_typed vt ft E (\<Gamma> @ [T]) H m' \<and> h = length \<Gamma>"
proof -
  have len: "length (shared_heap m) = length \<Gamma>" using wt by (simp add: well_typed_def heap_typed_def)
  from spawn_on_spec[OF slab wf, of q mk nm] run obtain c where m': "h = length (shared_heap m)"
    "sl_get (e_slab E) (m_pool m') = (sl_get (e_slab E) (m_pool m))(i \<mapsto> Some (task_new (mk (length (shared_heap m))) q nm))"
    "shared_heap m' = shared_heap m @ [shared_state_new]"
    and e: "m' = upd_queue q (\<lambda>_. c) (m\<lparr>shared_heap := shared_heap m', m_pool := m_pool m'\<rparr>)" by auto
  have hs: "result_holders m' = result_holders m" by (subst e) simp
  have "heap_typed vt (\<Gamma> @ [T]) (shared_heap m')"
    using wt unfolding m'(3) by (auto simp: well_typed_def heap_typed_def nth_append shared_state_new_def less_Suc_eq)
  moreover have "task_typed ft (\<Gamma> @ [T]) H (t_future t)" if "sl_get (e_slab E) (m_pool m') k = Some (Some t)" for k t
    using that wt mk len unfolding m'(2) by (auto simp: well_typed_def task_new_def intro: task_typed_append split: if_splits)
  ultimately show ?thesis using wt hs m'(1) len by (simp add: well_typed_def)
qed

lemma api_step_typed:
  assumes step: "api_step E m m'" and wf: "queues_wf m" and wt: "well_typed vt ft E \<Gamma> H m"
  shows "\<exists>\<Gamma>'. prefix \<Gamma> \<Gamma>' \<and> well_typed vt ft E \<Gamma>' H m'"
  using step
proof cases
  case (ASpawn q f nm i h)
  from spawn_typed[OF wf wt ASpawn, of "TyVal (wrapped_ty ft f)"]
  have "well_typed vt ft E (\<Gamma> @ [TyVal (wrapped_ty ft f)]) H m'" by simp
  then show ?thesis by (meson prefixI)
next
  case (AWake w)
  from wake_machine[OF wf, of w] AWake obtain c where "m' = upd_queue (wk_queue w) (\<lambda>_. c) m" by (metis Inr_inject)
  then have "well_typed vt ft E \<Gamma> H m'" using wt by (auto intro: well_typed_same)
  then show ?thesis by blast
next
  case (AJoin a w r)
  from join_poll_any_typed[OF this wt] show ?thesis by blast
qed (use wt well_typed_same[OF wt] in \<open>auto simp: request_shutdown_def instant_now_def\<close>)

lemma api_steps_typed:
  assumes "(api_step E)\<^sup>*\<^sup>* m m'" "queues_wf m" "well_typed vt ft E \<Gamma> H m"
  shows "\<exists>\<Gamma>'. prefix \<Gamma> \<Gamma>' \<and> well_typed vt ft E \<Gamma>' H m'"
  using assms(1)
proof (induction rule: rtranclp_induct)
  case (step y z)
  then obtain \<Gamma>1 where 1: "prefix \<Gamma> \<Gamma>1" "well_typed vt ft E \<Gamma>1 H y" by blast
  from api_steps_inv[OF step(1) slab assms(2)] have "queues_wf y" by blast
  from api_step_typed[OF step(2) this 1(2)] 1(1) show ?case by (meson prefix_order.trans)
qed (use assms(3) in auto)

text \<open>The wrapped future keeps its type, whatever id it is tracked under.\<close>

lemma user_poll_typed: "e_user_poll E w f m = Inr (r, f', m') \<Longrightarrow> case r of Ready v \<Rightarrow> vt v = ft f | Pending \<Rightarrow> ft f' = ft f"
  using poll_typed unfolding env_typed_def by blast

lemma user_ready: "e_user_poll E w f m = Inr (Ready v, f', m') \<Longrightarrow> vt v = ft f"
  by (drule user_poll_typed) simp

lemma user_pending: "e_user_poll E w f m = Inr (Pending, f', m') \<Longrightarrow> ft f' = ft f"
  by (drule user_poll_typed) simp

lemma wrapped_poll_typed:
  assumes "maybe_tracked_poll (e_user_poll E w) f m = Inr (r, f', m')"
  shows "case r of Ready v \<Rightarrow> vt v = wrapped_ty ft f | Pending \<Rightarrow> wrapped_ty ft f' = wrapped_ty ft f"
  using assms by (cases f; cases r)
    (auto simp: maybe_tracked_poll_def tracked_poll_def run_bind_eq_Inr Let_def user_ready user_pending split: prod.splits if_splits option.splits)

lemma complete_typed:
  assumes "complete a d m = Inr m'" "queues_wf m" "well_typed vt ft E \<Gamma> H m" "\<Gamma> ! a = box_ty vt d"
  shows "well_typed vt ft E \<Gamma> H m'"
proof -
  let ?sh = "(shared_heap m ! a)\<lparr>ss_result := Some (Inr d)\<rparr>"
  have h: "heap_typed vt \<Gamma> (shared_heap m)" using assms(3) by (simp add: well_typed_def)
  have up: "well_typed vt ft E \<Gamma> H (m\<lparr>shared_heap := (shared_heap m)[a := sh]\<rparr>)" if "ss_result sh = Some (Inr d)" for sh
    using assms(3,4) heap_typed_update[OF h, of sh a] that by (simp add: well_typed_def)
  show ?thesis
  proof (cases "ss_waker ?sh")
    case None
    with assms(1) up[of ?sh] show ?thesis by (auto simp: complete_def Let_def split: if_splits)
  next
    case (Some w)
    let ?m = "m\<lparr>shared_heap := (shared_heap m)[a := ?sh\<lparr>ss_waker := None\<rparr>]\<rparr>"
    have "queues_wf ?m" using assms(2) by (simp add: queues_wf_get)
    from wake_machine[OF this, of w] obtain c where "wake w ?m = Inr (upd_queue (wk_queue w) (\<lambda>_. c) ?m)" by metis
    with Some assms(1) have "m' = upd_queue (wk_queue w) (\<lambda>_. c) ?m" by (auto simp: complete_def Let_def split: if_splits)
    moreover have "well_typed vt ft E \<Gamma> H ?m" by (rule up) simp
    ultimately show ?thesis by (auto intro: well_typed_same)
  qed
qed

lemma maybe_tracked_steps:
  assumes "maybe_tracked_poll (e_user_poll E w) f m = Inr (r, f', m')" "queues_wf m"
  shows "(api_step E)\<^sup>*\<^sup>* m m'"
  using poll_okE[OF poll_ok_maybe_tracked[OF env_ok_user[OF env]] assms(2)] assms(1) by (metis Inr_inject Pair_inject)

lemma user_steps:
  assumes "e_user_poll E w f m = Inr (r, f', m')" "queues_wf m"
  shows "(api_step E)\<^sup>*\<^sup>* m m'"
  using poll_okE[OF env_ok_user[OF env] assms(2)] assms(1) by (metis Inr_inject Pair_inject)

lemma task_future_poll_typed:
  assumes run: "task_future_poll (e_user_poll E w) f m = Inr (ret, f', m')" and wf: "queues_wf m"
    and wt: "well_typed vt ft E \<Gamma> H m" and f: "task_typed ft \<Gamma> H f"
  shows "\<exists>\<Gamma>'. prefix \<Gamma> \<Gamma>' \<and> well_typed vt ft E \<Gamma>' H m' \<and> task_typed ft \<Gamma>' H f'"
proof (cases f)
  case (Spawned a g)
  from run Spawned obtain r g' m1 where m1: "maybe_tracked_poll (e_user_poll E w) g m = Inr (r, g', m1)"
    by (auto simp: run_bind_eq_Inr)
  have st: "(api_step E)\<^sup>*\<^sup>* m m1" by (rule maybe_tracked_steps[OF m1 wf])
  then have wf1: "queues_wf m1" using api_steps_inv[OF st slab wf] by blast
  from api_steps_typed[OF st wf wt] obtain \<Gamma>1 where g1: "prefix \<Gamma> \<Gamma>1" "well_typed vt ft E \<Gamma>1 H m1" by blast
  have f1: "task_typed ft \<Gamma>1 H f" by (rule task_typed_mono[OF f g1(1)])
  show ?thesis
  proof (cases r)
    case (Ready v)
    with run Spawned m1 have c: "complete a (AnyVal v) m1 = Inr m'" "f' = Completed" by (auto simp: run_bind_eq_Inr)
    have "vt v = wrapped_ty ft g" using wrapped_poll_typed[OF m1] Ready by simp
    with f1 Spawned have "\<Gamma>1 ! a = box_ty vt (AnyVal v)" by simp
    from complete_typed[OF c(1) wf1 g1(2) this] g1(1) c(2) show ?thesis by auto
  next
    case Pending
    with run Spawned m1 have "f' = Spawned a g'" "m' = m1" by auto
    moreover have "wrapped_ty ft g' = wrapped_ty ft g" using wrapped_poll_typed[OF m1] Pending by simp
    ultimately show ?thesis using g1 f1 Spawned by auto
  qed
next
  case (BlockOn a h g)
  from run BlockOn obtain r g' m1 where m1: "e_user_poll E w g m = Inr (r, g', m1)" by (auto simp: run_bind_eq_Inr)
  have st: "(api_step E)\<^sup>*\<^sup>* m m1" by (rule user_steps[OF m1 wf])
  then have wf1: "queues_wf m1" using api_steps_inv[OF st slab wf] by blast
  from api_steps_typed[OF st wf wt] obtain \<Gamma>1 where g1: "prefix \<Gamma> \<Gamma>1" "well_typed vt ft E \<Gamma>1 H m1" by blast
  have f1: "task_typed ft \<Gamma>1 H f" by (rule task_typed_mono[OF f g1(1)])
  show ?thesis
  proof (cases r)
    case (Ready v)
    let ?m = "m1\<lparr>result_holders := (result_holders m1)[h := Some v]\<rparr>"
    from Ready run BlockOn m1 have c: "complete a AnyUnit ?m = Inr m'" "f' = Completed" by (auto simp: run_bind_eq_Inr)
    have "holders_typed vt H (result_holders m1)" using g1(2) by (simp add: well_typed_def)
    then have "holders_typed vt H ((result_holders m1)[h := Some v])"
      using f1 BlockOn user_ready m1 Ready by (auto simp: holders_typed_def nth_list_update)
    then have "well_typed vt ft E \<Gamma>1 H ?m" using g1(2) by (simp add: well_typed_def)
    moreover have "queues_wf ?m" using wf1 by (simp add: queues_wf_get)
    moreover have "\<Gamma>1 ! a = box_ty vt AnyUnit" using f1 BlockOn by simp
    ultimately have "well_typed vt ft E \<Gamma>1 H m'" using complete_typed[OF c(1)] by blast
    with g1(1) c(2) show ?thesis by auto
  next
    case Pending
    with run BlockOn m1 have "f' = BlockOn a h g'" "m' = m1" by auto
    moreover have "ft g' = ft g" using user_pending m1 Pending by blast
    ultimately show ?thesis using g1 f1 BlockOn by auto
  qed
next
  case Completed
  with run show ?thesis by simp
qed

lemma task_poll_typed:
  assumes run: "task_poll clock (e_user_poll E) t i m = Inr (ret, t', m')" and wf: "queues_wf m"
    and wt: "well_typed vt ft E \<Gamma> H m" and t: "task_typed ft \<Gamma> H (t_future t)"
  shows "\<exists>\<Gamma>'. prefix \<Gamma> \<Gamma>' \<and> well_typed vt ft E \<Gamma>' H m' \<and> task_typed ft \<Gamma>' H (t_future t')"
proof -
  let ?m = "m\<lparr>clock_reads := Suc (clock_reads m)\<rparr>"
  from run obtain f' m1 n where p: "task_future_poll (e_user_poll E (PluvioWaker (t_sender t) i)) (t_future t) ?m = Inr (ret, f', m1)"
    "t_future t' = f'" "m' = m1\<lparr>clock_reads := n\<rparr>"
    by (auto simp: task_poll_def instant_now_def run_bind_eq_Inr Let_def)
  have "queues_wf ?m" "well_typed vt ft E \<Gamma> H ?m" using wf wt by (auto simp: queues_wf_get intro: well_typed_same)
  from task_future_poll_typed[OF p(1) this t] obtain \<Gamma>' where
    "prefix \<Gamma> \<Gamma>'" "well_typed vt ft E \<Gamma>' H m1" "task_typed ft \<Gamma>' H f'" by blast
  with p(2,3) show ?thesis by (auto intro!: exI[of _ \<Gamma>'] intro: well_typed_same)
qed

text \<open>While a task is polled its slot is empty; afterwards it is back, or gone.\<close>

lemma well_typed_put:
  assumes "well_typed vt ft E \<Gamma> H m" "sl_get (e_slab E) (m_pool m) i \<noteq> None"
    "case slot of Some t \<Rightarrow> task_typed ft \<Gamma> H (t_future t) | None \<Rightarrow> True"
  shows "well_typed vt ft E \<Gamma> H (m\<lparr>m_pool := sl_put (e_slab E) (m_pool m) i slot\<rparr>)"
  using assms slab_okD(1)[OF slab assms(2), of slot] by (auto simp: well_typed_def split: if_splits option.splits)

lemma poll_task_typed:
  assumes run: "poll_task E i m = Inr (ret, m')" and wf: "queues_wf m" and wt: "well_typed vt ft E \<Gamma> H m"
  shows "\<exists>\<Gamma>'. prefix \<Gamma> \<Gamma>' \<and> well_typed vt ft E \<Gamma>' H m'"
proof (cases "sl_get (e_slab E) (m_pool m) i \<in> {None, Some None}")
  case True
  with run wt poll_task_absent[OF True] show ?thesis by auto
next
  case False
  then obtain t where t: "sl_get (e_slab E) (m_pool m) i = Some (Some t)" by auto
  let ?m = "m\<lparr>m_pool := sl_put (e_slab E) (m_pool m) i None\<rparr>"
  from run t obtain r t' m1 where p: "task_poll (e_clock E) (e_user_poll E) t i ?m = Inr (r, t', m1)"
    "m' = (if sl_get (e_slab E) (m_pool m1) i \<noteq> None then m1\<lparr>m_pool := sl_put (e_slab E) (m_pool m1) i (Some t')\<rparr> else m1)"
    by (auto simp: poll_task_def run_bind_eq_Inr Let_def)
  have "queues_wf ?m" using wf by (simp add: queues_wf_get)
  moreover have "well_typed vt ft E \<Gamma> H ?m" using t by (intro well_typed_put[OF wt]) simp_all
  moreover have "task_typed ft \<Gamma> H (t_future t)" using wt t by (auto simp: well_typed_def)
  ultimately obtain \<Gamma>' where g: "prefix \<Gamma> \<Gamma>'" "well_typed vt ft E \<Gamma>' H m1" "task_typed ft \<Gamma>' H (t_future t')"
    using task_poll_typed[OF p(1)] by blast
  then have "well_typed vt ft E \<Gamma>' H m'" using well_typed_put[OF g(2), of i "Some t'"] by (simp add: p(2))
  with g(1) show ?thesis by blast
qed

lemma finish_task_typed:
  assumes run: "finish_task E i m = Inr m'" and wt: "well_typed vt ft E \<Gamma> H m"
  shows "well_typed vt ft E \<Gamma> H m'"
proof -
  have some: "sl_get (e_slab E) (m_pool m) i \<noteq> None"
    using run by (cases "sl_get (e_slab E) (m_pool m) i") (auto simp: finish_task_def add_task_stat_def)
  have "shared_heap m' = shared_heap m" "result_holders m' = result_holders m" "m_pool m' = sl_remove (e_slab E) (m_pool m) i"
    using run by (cases "add_task_stat (retain_stats E) (m_stat m) (sl_get (e_slab E) (m_pool m) i)";
      auto simp: finish_task_def Let_def split: option.split_asm)+
  then show ?thesis using wt slab_okD(4)[OF slab some] by (auto simp: well_typed_def split: if_splits)
qed

text \<open>The loops: the invariant of the runtime and the typing together.\<close>

lemma process_tasks_typed:
  "process_tasks E ids m = Inr (b, m') \<Longrightarrow> rt_inv E m \<Longrightarrow> typed_from vt ft E \<Gamma> H m \<Longrightarrow> typed_from vt ft E \<Gamma> H m'"
proof (induction ids arbitrary: m b)
  case (Cons i ids)
  from Cons.prems(1) obtain ret m1 where p: "poll_task E i m = Inr (ret, m1)" by (auto simp: run_bind_eq_Inr)
  have wf: "queues_wf m" using Cons.prems(2) by (simp add: rt_inv_def)
  from Cons.prems(3) obtain \<Gamma>0 where g0: "prefix \<Gamma> \<Gamma>0" "well_typed vt ft E \<Gamma>0 H m" by (auto simp: typed_from_def)
  from poll_task_typed[OF p wf g0(2)] obtain \<Gamma>1 where g1: "prefix \<Gamma>0 \<Gamma>1" "well_typed vt ft E \<Gamma>1 H m1" by blast
  have t1: "typed_from vt ft E \<Gamma> H x" if "well_typed vt ft E \<Gamma>1 H x" for x
    using that g0(1) g1(1) by (meson typed_from_def prefix_order.trans)
  show ?case
  proof (cases "ret = Some (Ready ())")
    case True
    with Cons.prems(1) p obtain m2 b' where m2: "finish_task E i m1 = Inr m2" "process_tasks E ids m2 = Inr (b', m')"
      by (auto simp: run_bind_eq_Inr)
    have "process_tasks E [i] m = Inr (True, m2)" using p True m2(1) by simp
    then have "rt_inv E m2" using process_tasks_ok[OF env Cons.prems(2), of "[i]"] by (metis Inr_inject Pair_inject)
    moreover have "typed_from vt ft E \<Gamma> H m2" by (rule t1[OF finish_task_typed[OF m2(1) g1(2)]])
    ultimately show ?thesis using Cons.IH[OF m2(2)] by blast
  next
    case False
    with Cons.prems(1) p have r: "process_tasks E ids m1 = Inr (b, m')" by simp
    have "process_tasks E [i] m = Inr (False, m1)" using p False by simp
    then have "rt_inv E m1" using process_tasks_ok[OF env Cons.prems(2), of "[i]"] by (metis Inr_inject Pair_inject)
    then show ?thesis using Cons.IH[OF r] t1[OF g1(2)] by blast
  qed
qed simp

lemma reactor_typed:
  assumes "e_reactor_poll E i m = Inr m'" "queues_wf m" "typed_from vt ft E \<Gamma> H m"
  shows "typed_from vt ft E \<Gamma> H m'"
proof -
  from env assms(2) obtain m1 where "e_reactor_poll E i m = Inr m1" "(api_step E)\<^sup>*\<^sup>* m m1" unfolding env_ok_def by blast
  with assms(1) have "(api_step E)\<^sup>*\<^sup>* m m'" by simp
  from api_steps_typed[OF this assms(2)] assms(3) show ?thesis by (meson typed_from_def prefix_order.trans)
qed

lemma typed_from_upd [simp]: "typed_from vt ft E \<Gamma> H (upd_reactor i w m) = typed_from vt ft E \<Gamma> H m"
  by (simp add: typed_from_def well_typed_def upd_reactor_def)

lemma poll_reactors_typed:
  "poll_reactors E it ids m = Inr (b, m') \<Longrightarrow> rt_inv E m \<Longrightarrow> typed_from vt ft E \<Gamma> H m \<Longrightarrow> typed_from vt ft E \<Gamma> H m'"
proof (induction ids arbitrary: m b)
  case (Cons i ids)
  show ?case
  proof (cases "\<exists>w. map_of (m_reactors m) i = Some w \<and> rw_enable w")
    case False
    with Cons show ?thesis by (auto split: option.splits)
  next
    case True
    then obtain w where w: "map_of (m_reactors m) i = Some w" "rw_enable w" by blast
    obtain status w' where st: "get_cached_reactor_status E m w it = (status, w')" by fastforce
    let ?m = "upd_reactor i w' m"
    show ?thesis
    proof (cases "status = Running")
      case True
      with Cons.prems(1) w st obtain m1 b' where m1: "e_reactor_poll E (rw_reactor w') ?m = Inr m1"
        "poll_reactors E it ids (upd_reactor i (w'\<lparr>rw_poll_counter := rw_poll_counter w' + 1\<rparr>) m1) = Inr (b', m')"
        by (auto simp: run_bind_eq_Inr Let_def)
      have "rt_inv E ?m" using Cons.prems(2) by simp
      from reactor_poll_ok[OF env this, of "rw_reactor w'"] m1(1) have "rt_inv E m1" by (metis Inr_inject)
      moreover have "queues_wf ?m" using \<open>rt_inv E ?m\<close> by (simp add: rt_inv_def)
      with reactor_typed[OF m1(1)] Cons.prems(3) have "typed_from vt ft E \<Gamma> H m1" by simp
      ultimately show ?thesis using Cons.IH[OF m1(2)] by simp
    next
      case False
      with Cons.prems(1) w st have "poll_reactors E it ids ?m = Inr (b, m')" by simp
      from Cons.IH[OF this] Cons.prems show ?thesis by simp
    qed
  qed
qed simp

definition kept :: "'t any_ty list \<Rightarrow> 't list \<Rightarrow> ('v, 'p, 'w) machine \<Rightarrow> bool" where
  "kept \<Gamma> H m \<longleftrightarrow> rt_inv E m \<and> typed_from vt ft E \<Gamma> H m"

lemma kept_update [simp]:
  "kept \<Gamma> H (m\<lparr>m_iteration := x1\<rparr>) = kept \<Gamma> H m" "kept \<Gamma> H (m\<lparr>m_reactor_only := x2\<rparr>) = kept \<Gamma> H m"
  "kept \<Gamma> H (m\<lparr>m_os := x3\<rparr>) = kept \<Gamma> H m" "kept \<Gamma> H (m\<lparr>m_idle := x4\<rparr>) = kept \<Gamma> H m"
  "kept \<Gamma> H (m\<lparr>m_polling_buf := x5\<rparr>) = kept \<Gamma> H m" "kept \<Gamma> H (m\<lparr>m_task_buf := x6\<rparr>) = kept \<Gamma> H m"
  by (simp_all add: kept_def typed_from_def well_typed_def)

lemma kept_queues:
  "kept \<Gamma> H m \<Longrightarrow> queue_wf q \<Longrightarrow> kept \<Gamma> H (m\<lparr>task_queue := q\<rparr>)" "kept \<Gamma> H m \<Longrightarrow> queue_wf q \<Longrightarrow> kept \<Gamma> H (m\<lparr>polling_queue := q\<rparr>)"
  by (auto simp: kept_def intro: rt_inv_queues typed_from_same)

lemma kept_wf: "kept \<Gamma> H m \<Longrightarrow> queues_wf m"
  by (simp add: kept_def rt_inv_def)

lemma kept_drain:
  assumes "kept \<Gamma> H m" "drain_polling m = Some r"
  shows "\<exists>m'. r = Inr m' \<and> kept \<Gamma> H m'"
  using drain_polling_ok[OF kept_wf[OF assms(1)]] assms(2)
    kept_queues(2)[of \<Gamma> H "m\<lparr>m_polling_buf := contents (polling_queue m)\<rparr>"] assms(1) by auto

lemma kept_fill: "kept \<Gamma> H m \<Longrightarrow> fill_batch m = Inr m' \<Longrightarrow> kept \<Gamma> H m'"
  using fill_batch_ok[OF kept_wf, of \<Gamma> H m]
    kept_queues(1)[of \<Gamma> H "m\<lparr>m_task_buf := take (task_batch_size (m_config m)) (contents (task_queue m))\<rparr>"] by auto

lemma kept_process: "kept \<Gamma> H m \<Longrightarrow> process_tasks E ids m = Inr (b, m') \<Longrightarrow> kept \<Gamma> H m'"
  using process_tasks_typed[of ids m b m' \<Gamma> H] process_tasks_ok[OF env, of m ids] by (auto simp: kept_def)

lemma kept_reactors: "kept \<Gamma> H m \<Longrightarrow> poll_reactors E it ids m = Inr (b, m') \<Longrightarrow> kept \<Gamma> H m'"
  using poll_reactors_typed[of it ids m b m' \<Gamma> H] poll_reactors_ok[OF env, of m it ids] by (auto simp: kept_def)

lemma kept_should: "kept \<Gamma> H m \<Longrightarrow> should_poll_reactors E it m = Inr (b, m') \<Longrightarrow> kept \<Gamma> H m'"
  using should_poll_ok[of E m E it] by (auto simp: kept_def typed_from_def well_typed_def)

lemma kept_park [simp]: "kept \<Gamma> H (idle_park E c (count_reactor_only c b m)) = kept \<Gamma> H m"
  by (simp add: idle_park_def count_reactor_only_def Let_def)

lemma kept_run_iteration:
  assumes "run_iteration E m = Some (Inr (b, m'))" "kept \<Gamma> H m"
  shows "kept \<Gamma> H m'"
proof -
  let ?m = "m\<lparr>m_iteration := m_iteration m + 1\<rparr>"
  obtain r where r: "drain_polling ?m = Some r"
    using assms(1) by (auto simp: run_iteration_def Let_def split: option.splits)
  from kept_drain[OF _ r, of \<Gamma> H] assms(2) obtain m1 where m1: "r = Inr m1" "kept \<Gamma> H m1" by auto
  from assms(1) r m1(1) obtain sp m2 p1 m3 p2 m4 m5 c m6 where p: "should_poll_reactors E (m_iteration m) m1 = Inr (sp, m2)"
    "(if sp then poll_reactors E (m_iteration m) (reactor_ids E m2) m2 else Inr (False, m2)) = Inr (p1, m3)"
    "process_tasks E (m_polling_buf m3) m3 = Inr (p2, m4)" "fill_batch m4 = Inr m5" "process_tasks E (m_task_buf m5) m5 = Inr (c, m6)"
    "m' = idle_park E c (count_reactor_only c sp m6)"
    by (clarsimp simp: run_iteration_def run_bind_eq_Inr Let_def)
  have "kept \<Gamma> H m2" by (rule kept_should[OF m1(2) p(1)])
  then have "kept \<Gamma> H m3" using p(2) kept_reactors by (cases sp) auto
  from kept_process[OF kept_fill[OF kept_process[OF this p(3)] p(4)] p(5)] p(6) show ?thesis by simp
qed

lemma kept_block_iteration:
  assumes "block_iteration E m = Some (Inr (b, m'))" "kept \<Gamma> H m"
  shows "kept \<Gamma> H m'"
proof -
  let ?m = "m\<lparr>m_iteration := m_iteration m + 1\<rparr>"
  obtain r where r: "drain_polling ?m = Some r"
    using assms(1) by (auto simp: block_iteration_def Let_def split: option.splits)
  from kept_drain[OF _ r, of \<Gamma> H] assms(2) obtain m1 where m1: "r = Inr m1" "kept \<Gamma> H m1" by auto
  from assms(1) r m1(1) obtain sp p1 m3 p2 m4 m5 c where
    p: "(if sp then poll_reactors E (m_iteration m) (reactor_ids E m1) m1 else Inr (False, m1)) = Inr (p1, m3)"
    "process_tasks E (m_polling_buf m3) m3 = Inr (p2, m4)" "fill_batch m4 = Inr m5" "process_tasks E (m_task_buf m5) m5 = Inr (c, m')"
    by (clarsimp simp: block_iteration_def run_bind_eq_Inr Let_def)
  have "kept \<Gamma> H m3" using p(1) kept_reactors[OF m1(2)] m1(2) by (cases sp) auto
  from kept_process[OF kept_fill[OF kept_process[OF this p(2)] p(3)] p(4)] show ?thesis .
qed

lemma kept_stuck: "stuck_check mx b stuck sl m = Some (stuck', sl', m') \<Longrightarrow> kept \<Gamma> H m \<Longrightarrow> kept \<Gamma> H m'"
  by (auto simp: stuck_check_def Let_def split: if_splits)

lemma kept_run_loop:
  assumes ret: "run_loop E mx stuck sl m = Some r" and m: "kept \<Gamma> H m" and r: "r = Inr m'"
  shows "kept \<Gamma> H m'"
proof -
  let ?Q = "\<lambda>r. \<forall>m'. r = Inr m' \<longrightarrow> kept \<Gamma> H m'"
  have "E = E \<longrightarrow> kept \<Gamma> H m \<longrightarrow> ?Q r"
  proof (rule run_loop.raw_induct[where P = "\<lambda>E' mx stuck sl m r. E' = E \<longrightarrow> kept \<Gamma> H m \<longrightarrow> ?Q r", OF _ ret], intro impI allI)
    fix f :: "('f, 'v, 'p, 'w) env \<Rightarrow> u64 \<Rightarrow> u64 \<Rightarrow> nat \<Rightarrow> ('v, 'p, 'w) machine \<Rightarrow> ('v, 'p, 'w) machine run option"
      and E' mx stuck sl m r m'
    assume IH: "\<And>E' mx stuck sl m r. f E' mx stuck sl m = Some r \<Longrightarrow> E' = E \<longrightarrow> kept \<Gamma> H m \<longrightarrow> ?Q r"
      and eq: "(if sl_len (e_slab E') (m_pool m) = 0 then Some (Inr m)
      else if m_shutdown m then Some (Inr m)
      else case run_iteration E' m of None \<Rightarrow> None | Some (Inl e) \<Rightarrow> Some (Inl e)
           | Some (Inr (made_progress, m')) \<Rightarrow>
               (case stuck_check mx made_progress stuck sl m' of None \<Rightarrow> Some (Inr m')
                | Some (stuck', sleep', m'') \<Rightarrow> f E' mx stuck' sleep' m'')) = Some r"
      and E': "E' = E" and k: "kept \<Gamma> H m" and r: "r = Inr m'"
    show "kept \<Gamma> H m'"
    proof (cases "sl_len (e_slab E) (m_pool m) = 0 \<or> m_shutdown m")
      case True
      with eq E' k r show ?thesis by (auto split: if_splits)
    next
      case False
      with eq E' r obtain b m1 where it: "run_iteration E m = Some (Inr (b, m1))"
        by (auto split: option.splits sum.splits)
      have k1: "kept \<Gamma> H m1" by (rule kept_run_iteration[OF it k])
      show ?thesis
      proof (cases "stuck_check mx b stuck sl m1")
        case None
        with eq E' it False r k1 show ?thesis by simp
      next
        case (Some x)
        obtain stuck' sl' m2 where x: "x = (stuck', sl', m2)" by (metis prod_cases3)
        with Some eq E' it False have "f E mx stuck' sl' m2 = Some r" by simp
        from IH[OF this] kept_stuck[OF Some[unfolded x] k1] r show ?thesis by simp
      qed
    qed
  qed
  with m r show ?thesis by simp
qed

end

text \<open>
  C4 (type). Type soundness of the join handles. Whatever well-typed futures and reactors do through the
  runtime's interface, on a runtime whose cells have the types \<open>\<Gamma>\<close>: spawning gives a handle of the type of the future; \<open>run_queue\<close> and
  each of its iterations keep every cell and every task in the pool well typed, the types of existing cells
  unchanged; and a handle polled with the type it was given is pending or answers a value of this type: the
  error \<open>Failed to downcast\<close>, and any other error, never comes.
\<close>

theorem join_handles_typed:
  fixes E :: "('f, 'v, 'p, 'w) env" and m :: "('v, 'p, 'w) machine" and vt :: "'v \<Rightarrow> 't"
  assumes "env_ok E" "env_typed vt ft E" "rt_inv E m" "well_typed vt ft E \<Gamma> H m"
  shows "(\<forall>q f nm i h m'. spawn_on E q (\<lambda>a. Spawned a (maybe_tracked f (enable_perfetto_tracks (m_config m)))) nm m = Inr (i, h, m') \<longrightarrow>
      h = length \<Gamma> \<and> well_typed vt ft E (\<Gamma> @ [TyVal (ft f)]) H m') \<and>
    (\<forall>b m'. run_iteration E m = Some (Inr (b, m')) \<longrightarrow> (\<exists>\<Gamma>'. prefix \<Gamma> \<Gamma>' \<and> well_typed vt ft E \<Gamma>' H m')) \<and>
    (\<forall>m'. run_queue E m = Some (Inr m') \<longrightarrow> (\<exists>\<Gamma>'. prefix \<Gamma> \<Gamma>' \<and> well_typed vt ft E \<Gamma>' H m')) \<and>
    (\<forall>a w. a < length \<Gamma> \<longrightarrow> (\<exists>r m'. join_poll (downcast vt (\<Gamma> ! a)) a w m = Inr (r, m') \<and> well_typed vt ft E \<Gamma> H m' \<and>
      (r = Pending \<or> (\<exists>d. r = Ready (Inr d) \<and> box_ty vt d = \<Gamma> ! a))))"
proof (intro conjI allI impI)
  have L: "typed_futures vt ft E" using assms(1,2) by (rule typed_futures.intro)
  have k: "typed_futures.kept vt ft E \<Gamma> H m"
    unfolding typed_futures.kept_def[OF L] using assms(3,4) by (simp add: well_typed_from)
  { fix q f nm i h m'
    assume "spawn_on E q (\<lambda>a. Spawned a (maybe_tracked f (enable_perfetto_tracks (m_config m)))) nm m = Inr (i, h, m')"
    moreover have "queues_wf m" using assms(3) by (simp add: rt_inv_def)
    moreover have "wrapped_ty ft (maybe_tracked f b) = ft f" for b by (simp add: maybe_tracked_def)
    ultimately show "h = length \<Gamma>" "well_typed vt ft E (\<Gamma> @ [TyVal (ft f)]) H m'"
      using typed_futures.spawn_typed[OF L _ assms(4), of q _ nm i h m' "TyVal (ft f)"] by simp_all }
  { fix b m'
    assume "run_iteration E m = Some (Inr (b, m'))"
    from typed_futures.kept_run_iteration[OF L this k] show "\<exists>\<Gamma>'. prefix \<Gamma> \<Gamma>' \<and> well_typed vt ft E \<Gamma>' H m'"
      by (simp add: typed_futures.kept_def[OF L] typed_from_def) }
  { fix m'
    assume "run_queue E m = Some (Inr m')"
    from typed_futures.kept_run_loop[OF L this[unfolded run_queue_def] k refl]
    show "\<exists>\<Gamma>'. prefix \<Gamma> \<Gamma>' \<and> well_typed vt ft E \<Gamma>' H m'"
      by (simp add: typed_futures.kept_def[OF L] typed_from_def) }
  { fix a w
    assume "a < length \<Gamma>"
    from join_poll_typed[OF assms(4) this]
    show "\<exists>r m'. join_poll (downcast vt (\<Gamma> ! a)) a w m = Inr (r, m') \<and> well_typed vt ft E \<Gamma> H m' \<and>
      (r = Pending \<or> (\<exists>d. r = Ready (Inr d) \<and> box_ty vt d = \<Gamma> ! a))" . }
qed

text \<open>An environment with futures of two output types: numbers that are counted down to, and texts that are ready at once.\<close>

definition two_types_env :: "(nat + string, nat + string, (nat + string) task option option list, unit) env" where
  "two_types_env = \<lparr>e_slab = list_slab,
     e_user_poll = \<lambda>w f m. (case f of
        Inl (Suc k) \<Rightarrow> run_bind (wake w m) (\<lambda>m. Inr (Pending, Inl k, m))
      | _ \<Rightarrow> Inr (Ready f, f, m)),
     e_reactor_poll = \<lambda>_ m. Inr m, e_reactor_status = \<lambda>_ _. Stopped, e_clock = id,
     e_var = \<lambda>_. None, e_hash_order = id\<rparr>"

lemma two_types_ok: "env_ok two_types_env" "env_typed isl isl two_types_env"
proof -
  have "\<exists>r f' m'. e_user_poll two_types_env w f m = Inr (r, f', m') \<and> (api_step two_types_env)\<^sup>*\<^sup>* m m'"
    if wf: "queues_wf m" for w f m
  proof (cases "\<exists>k. f = Inl (Suc k)")
    case True
    then obtain k where k: "f = Inl (Suc k)" by blast
    from wake_machine[OF wf, of w] obtain m' where m': "wake w m = Inr m'" by metis
    then have "api_step two_types_env m m'" by (rule AWake)
    with k m' show ?thesis by (auto simp: two_types_env_def)
  next
    case False
    then show ?thesis by (auto simp: two_types_env_def split: sum.split nat.split)
  qed
  moreover have "slab_ok (e_slab two_types_env)" using slab_ok_list by (simp add: two_types_env_def)
  ultimately show "env_ok two_types_env" by (simp add: env_ok_def) (simp add: two_types_env_def)
  show "env_typed isl isl two_types_env"
    by (auto simp: env_typed_def two_types_env_def run_bind_eq_Inr split: sum.splits nat.splits)
qed

theorem join_handles_typed_witness:
  "\<exists>i h m'. spawn_on two_types_env QNormal (\<lambda>a. Spawned a (maybe_tracked (Inr ''ok'') False)) None (runtime_new two_types_env 4 ()) =
     Inr (i, h, m') \<and> h = 0 \<and> well_typed isl isl two_types_env [TyVal False] [] m'"
proof -
  let ?m = "runtime_new two_types_env 4 ()"
  note E = two_types_ok
  have wt: "well_typed isl isl two_types_env [] [] ?m"
    unfolding runtime_new_def by (rule well_typed_fresh[OF env_ok_slab[OF E(1)]])
  have inv: "rt_inv two_types_env ?m" by (rule rt_inv_runtime_new[OF E(1)])
  then have "queues_wf ?m" by (simp add: rt_inv_def)
  from spawn_on_spec[OF env_ok_slab[OF E(1)] this] obtain i m' where
    sp: "spawn_on two_types_env QNormal (\<lambda>a. Spawned a (maybe_tracked (Inr ''ok'') False)) None ?m = Inr (i, length (shared_heap ?m), m')"
    by blast
  have "enable_perfetto_tracks (m_config ?m) = False" by (simp add: runtime_new_def with_config_def scheduling_config_default_def)
  with join_handles_typed[OF E inv wt] sp show ?thesis by fastforce
qed

end
