(* ===== verification/Loop_Steps.thy ===== *)
theory Loop_Steps
  imports Executor_Inv
begin

section \<open>Single steps of the event loops\<close>

text \<open>
  The executor one step at a time, for following it through concrete programs: the poll of one task with what its future does,
  its removal when it is ready, the iterations in which reactors are considered, and an iteration as its phases.
\<close>

subsection \<open>What reactors and futures do to the runtime\<close>

fun wake_all :: "waker list \<Rightarrow> ('v, 'z) mem \<Rightarrow> ('v, 'z) mem run" where
  "wake_all [] m = Inr m"
| "wake_all (w # ws) m = run_bind (wake w m) (wake_all ws)"

lemma wake_all_api:
  fixes m :: "('v, 'p, 'w) machine"
  shows "queues_wf m \<Longrightarrow> \<exists>m'. wake_all ws m = Inr m' \<and> (api_step E)\<^sup>*\<^sup>* m m'"
proof (induction ws arbitrary: m)
  case (Cons w ws)
  from wake_spec[OF Cons.prems, of w] obtain m1 where m1: "wake w m = Inr m1" "queues_wf m1" by blast
  from Cons.IH[OF m1(2)] obtain m' where m': "wake_all ws m1 = Inr m'" "(api_step E)\<^sup>*\<^sup>* m1 m'" by blast
  have "api_step E m m1" using m1(1) by (rule AWake)
  with m1(1) m' show ?case by (auto intro: converse_rtranclp_into_rtranclp)
qed auto

text \<open>Reading the clock and changing the world.\<close>

lemma api_clock_world:
  fixes m :: "('v, 'p, 'w) machine"
  shows "(api_step E)\<^sup>*\<^sup>* m (m\<lparr>clock_reads := Suc (clock_reads m)\<rparr>)" "(api_step E)\<^sup>*\<^sup>* m (m\<lparr>m_world := st\<rparr>)"
    "(api_step E)\<^sup>*\<^sup>* m (m\<lparr>clock_reads := Suc (clock_reads m), m_world := st\<rparr>)"
proof -
  have 1: "api_step E x (x\<lparr>clock_reads := Suc (clock_reads x)\<rparr>)" for x :: "('v, 'p, 'w) machine"
    using ANow[of E x] by (simp add: instant_now_def)
  have 2: "api_step E x (x\<lparr>m_world := st\<rparr>)" for x :: "('v, 'p, 'w) machine" by (rule AWorld)
  show "(api_step E)\<^sup>*\<^sup>* m (m\<lparr>clock_reads := Suc (clock_reads m)\<rparr>)" "(api_step E)\<^sup>*\<^sup>* m (m\<lparr>m_world := st\<rparr>)" using 1 2 by auto
  show "(api_step E)\<^sup>*\<^sup>* m (m\<lparr>clock_reads := Suc (clock_reads m), m_world := st\<rparr>)"
    by (rule rtranclp_trans[OF r_into_rtranclp[of "api_step E", OF 1] r_into_rtranclp[of "api_step E", OF 2]])
qed

subsection \<open>One task\<close>

lemma poll_task_step:
  fixes m :: "('v, 'p, 'w) machine"
  assumes S: "slab_ok (e_slab E)" and slot: "sl_get (e_slab E) (m_pool m) i = Some (Some t)" "t_stat t \<noteq> None"
    and poll: "task_future_poll (e_user_poll E (PluvioWaker (t_sender t) i)) (t_future t)
      (m\<lparr>m_pool := sl_put (e_slab E) (m_pool m) i None, clock_reads := Suc (clock_reads m)\<rparr>) = Inr (ret, fut, x)"
    and hole: "sl_get (e_slab E) (m_pool x) i = Some None"
  shows "\<exists>p t'. poll_task E i m = Inr (Some ret, x\<lparr>m_pool := p, clock_reads := Suc (clock_reads x)\<rparr>) \<and>
    sl_get (e_slab E) p = (sl_get (e_slab E) (m_pool x))(i \<mapsto> Some t') \<and>
    t_future t' = fut \<and> t_sender t' = t_sender t \<and> t_stat t' \<noteq> None"
proof -
  obtain s where s: "t_stat t = Some s" using slot(2) by auto
  obtain t' where t': "task_poll (e_clock E) (e_user_poll E) t i (m\<lparr>m_pool := sl_put (e_slab E) (m_pool m) i None\<rparr>) =
      Inr (ret, t', x\<lparr>clock_reads := Suc (clock_reads x)\<rparr>)"
    "t_future t' = fut" "t_sender t' = t_sender t" "t_stat t' \<noteq> None"
    using s poll by (simp add: task_poll_def instant_now_def Let_def)
  have "sl_get (e_slab E) (sl_put (e_slab E) (m_pool x) i (Some t')) = (sl_get (e_slab E) (m_pool x))(i \<mapsto> Some t')"
    using slab_okD(1)[OF S, of "m_pool x" i] hole by simp
  moreover have "poll_task E i m =
      Inr (Some ret, x\<lparr>m_pool := sl_put (e_slab E) (m_pool x) i (Some t'), clock_reads := Suc (clock_reads x)\<rparr>)"
    using slot(1) t'(1) hole by (simp add: poll_task_def Let_def)
  ultimately show ?thesis using t' by blast
qed

lemma finish_task_step:
  fixes m :: "('v, 'p, 'w) machine"
  assumes S: "slab_ok (e_slab E)" and slot: "sl_get (e_slab E) (m_pool m) i = Some (Some t)" "t_stat t \<noteq> None"
  shows "\<exists>st p. finish_task E i m = Inr (upd_queue (t_sender t) drop_sender (m\<lparr>m_stat := st, m_pool := p\<rparr>)) \<and>
    p = sl_remove (e_slab E) (m_pool m) i \<and> sl_get (e_slab E) p = (sl_get (e_slab E) (m_pool m))(i := None)"
proof -
  obtain st where "finish_task E i m = Inr (upd_queue (t_sender t) drop_sender (m\<lparr>m_stat := st, m_pool := sl_remove (e_slab E) (m_pool m) i\<rparr>))"
    using slot by (auto simp: finish_task_def add_task_stat_def Let_def)
  then show ?thesis using slab_okD(4)[OF S, of "m_pool m" i] slot(1) by auto
qed

lemma slot_hole: "slab_ok S \<Longrightarrow> sl_get S p i \<noteq> None \<Longrightarrow> sl_get S (sl_put S p i None) = (sl_get S p)(i \<mapsto> None)"
  by (rule slab_okD(1))

text \<open>The task of a \<open>block_on\<close> whose future only reads the clock and changes the rest of the process.\<close>

lemma block_task_pending:
  fixes m :: "('v, 'p, 'w) machine"
  assumes S: "slab_ok (e_slab E)" and slot: "sl_get (e_slab E) (m_pool m) i = Some (Some t)"
    and t: "t_future t = BlockOn a holder f" "t_stat t = Some s"
    and poll: "\<And>x :: ('v, 'p, 'w) machine. clock_reads x = Suc (clock_reads m) \<Longrightarrow> m_world x = m_world m \<Longrightarrow>
      e_user_poll E (PluvioWaker (t_sender t) i) f x = Inr (Pending, f', x\<lparr>clock_reads := n, m_world := st\<rparr>)"
  shows "\<exists>p t'. process_tasks E [i] m = Inr (False, m\<lparr>m_pool := p, clock_reads := Suc n, m_world := st\<rparr>) \<and>
    sl_get (e_slab E) p = (sl_get (e_slab E) (m_pool m))(i \<mapsto> Some t') \<and>
    t_future t' = BlockOn a holder f' \<and> t_sender t' = t_sender t \<and> t_stat t' \<noteq> None"
proof -
  let ?m = "m\<lparr>m_pool := sl_put (e_slab E) (m_pool m) i None, clock_reads := Suc (clock_reads m)\<rparr>"
  have get: "sl_get (e_slab E) (m_pool ?m) = (sl_get (e_slab E) (m_pool m))(i \<mapsto> None)" using slot_hole[OF S] slot by simp
  have "task_future_poll (e_user_poll E (PluvioWaker (t_sender t) i)) (t_future t) ?m =
      Inr (Pending, BlockOn a holder f', ?m\<lparr>clock_reads := n, m_world := st\<rparr>)"
    using t poll[of ?m] by simp
  from poll_task_step[OF S slot _ this] get t(2) obtain p t' where
    "poll_task E i m = Inr (Some Pending, ?m\<lparr>clock_reads := n, m_world := st, m_pool := p, clock_reads := Suc n\<rparr>)"
    "sl_get (e_slab E) p = (sl_get (e_slab E) (m_pool m))(i \<mapsto> Some t')"
    "t_future t' = BlockOn a holder f'" "t_sender t' = t_sender t" "t_stat t' \<noteq> None" by auto
  then show ?thesis by (intro exI[of _ p] exI[of _ t']) simp
qed

lemma block_task_ready:
  fixes m :: "('v, 'p, 'w) machine"
  assumes S: "slab_ok (e_slab E)" and slot: "sl_get (e_slab E) (m_pool m) i = Some (Some t)"
    and t: "t_future t = BlockOn a holder f" "t_stat t = Some s"
    and heap: "a < length (shared_heap m)" "ss_waker (shared_heap m ! a) = None"
    and poll: "\<And>x :: ('v, 'p, 'w) machine. clock_reads x = Suc (clock_reads m) \<Longrightarrow> m_world x = m_world m \<Longrightarrow>
      e_user_poll E (PluvioWaker (t_sender t) i) f x = Inr (Ready v, f', x\<lparr>clock_reads := n, m_world := st\<rparr>)"
  shows "\<exists>m'. process_tasks E [i] m = Inr (True, m') \<and>
    sl_get (e_slab E) (m_pool m') = (sl_get (e_slab E) (m_pool m))(i := None) \<and> result_holders m' = (result_holders m)[holder := Some v] \<and>
    m_world m' = st \<and> clock_reads m' = Suc n"
proof -
  let ?m = "m\<lparr>m_pool := sl_put (e_slab E) (m_pool m) i None, clock_reads := Suc (clock_reads m)\<rparr>"
  let ?h = "(shared_heap m)[a := (shared_heap m ! a)\<lparr>ss_result := Some (Inr AnyUnit)\<rparr>]"
  let ?x = "?m\<lparr>clock_reads := n, m_world := st, result_holders := (result_holders m)[holder := Some v], shared_heap := ?h\<rparr>"
  have get: "sl_get (e_slab E) (m_pool ?x) = (sl_get (e_slab E) (m_pool m))(i \<mapsto> None)" using slot_hole[OF S] slot by simp
  have "task_future_poll (e_user_poll E (PluvioWaker (t_sender t) i)) (t_future t) ?m = Inr (Ready (), Completed, ?x)"
    using t poll[of ?m] heap by (simp add: complete_def Let_def)
  from poll_task_step[OF S slot _ this] get t(2) obtain p t' where
    p: "poll_task E i m = Inr (Some (Ready ()), ?x\<lparr>m_pool := p, clock_reads := Suc n\<rparr>)"
    "sl_get (e_slab E) p = (sl_get (e_slab E) (m_pool m))(i \<mapsto> Some t')" "t_stat t' \<noteq> None" by auto
  have "sl_get (e_slab E) (m_pool (?x\<lparr>m_pool := p, clock_reads := Suc n\<rparr>)) i = Some (Some t')" using p(2) by simp
  from finish_task_step[OF S this p(3)] p show ?thesis by auto
qed

subsection \<open>One iteration\<close>

text \<open>The iterations in which the reactors are considered while no task is in the polling queue.\<close>

definition due :: "nat \<Rightarrow> nat \<Rightarrow> bool" where
  "due n k \<longleftrightarrow> k \<le> 1 \<or> k mod n = 0"

abbreviation interval :: "('v, 'p, 'w) machine \<Rightarrow> nat" where
  "interval m \<equiv> unat (reactor_poll_interval (m_config m))"

lemma unat_ucast_u32: "unat (ucast (x :: u32) :: u64) = unat x"
proof -
  have "unat x < 2 ^ 32" using unsigned_less[of x] by simp
  moreover have "(ucast x :: u64) = of_nat (unat x)" by simp
  ultimately show ?thesis using unat_of_nat_u64[of "unat x"] by simp
qed

lemma interval_due_eq:
  assumes "m_polling_buf m = []" "reactor_poll_interval (m_config m) \<noteq> 0"
  shows "interval_due m it = Inr (due (interval m) (unat it))"
proof -
  let ?n = "ucast (reactor_poll_interval (m_config m)) :: u64"
  have n: "unat ?n = interval m" by (rule unat_ucast_u32)
  have "it mod ?n = 0 \<longleftrightarrow> unat it mod interval m = 0"
    using n by (simp flip: unsigned_eq_0_iff[where 'a = nat] add: unat_mod)
  moreover have "it \<le> 1 \<longleftrightarrow> unat it \<le> 1" by (simp add: word_le_nat_alt)
  ultimately show ?thesis using assms by (simp add: interval_due_def due_def ucast_u32_0)
qed

lemma block_iteration_split:
  fixes m :: "('v, 'p, 'w) machine"
  assumes "queues_wf m" "contents (polling_queue m) = []" "reactor_poll_interval (m_config m) \<noteq> 0"
  obtains q where "queue_wf q" "contents q = []"
    "block_iteration E m = Some (run_bind
       (if due (interval m) (unat (m_iteration m))
        then poll_reactors E (m_iteration m) (e_hash_order E (map fst (m_reactors m)))
               (m\<lparr>m_iteration := m_iteration m + 1, m_polling_buf := [], polling_queue := q\<rparr>)
        else Inr (False, m\<lparr>m_iteration := m_iteration m + 1, m_polling_buf := [], polling_queue := q\<rparr>)) (\<lambda>(p1, m).
       run_bind (process_tasks E (m_polling_buf m) m) (\<lambda>(p2, m).
       run_bind (fill_batch m) (\<lambda>m.
       run_bind (process_tasks E (m_task_buf m) m) (\<lambda>(completed, m). Inr (p1 \<or> p2 \<or> completed, m))))))"
proof -
  let ?m = "m\<lparr>m_iteration := m_iteration m + 1\<rparr>"
  have "queues_wf ?m" using assms(1) by (simp add: queues_wf_def)
  from drain_polling_ok[OF this] assms(2) obtain q where q: "queue_wf q" "contents q = []"
    "drain_polling ?m = Some (Inr (?m\<lparr>m_polling_buf := [], polling_queue := q\<rparr>))" by auto
  have "block_iteration E m = Some (run_bind
       (if due (interval m) (unat (m_iteration m))
        then poll_reactors E (m_iteration m) (e_hash_order E (map fst (m_reactors m))) (?m\<lparr>m_polling_buf := [], polling_queue := q\<rparr>)
        else Inr (False, ?m\<lparr>m_polling_buf := [], polling_queue := q\<rparr>)) (\<lambda>(p1, m).
       run_bind (process_tasks E (m_polling_buf m) m) (\<lambda>(p2, m).
       run_bind (fill_batch m) (\<lambda>m.
       run_bind (process_tasks E (m_task_buf m) m) (\<lambda>(completed, m). Inr (p1 \<or> p2 \<or> completed, m))))))"
    using q(3) assms(3) by (simp add: block_iteration_def interval_due_eq reactor_ids_def Let_def)
  with q show thesis by (intro that[of q]) simp_all
qed

end
