(* ===== verification/Reactor_Loop.thy ===== *)
theory Reactor_Loop
  imports Loop_Steps
begin

section \<open>\<open>block_on\<close> with one reactor\<close>

text \<open>
  A runtime with one reactor and one task, the one that \<open>block_on\<close> waits for, which waits for the reactor. The locale
  \<open>waiting_on_reactor\<close> states what the reactor and the task promise each other; from it follows that
  \<open>block_on\<close> returns, through the polling interval, the cached status and the count of iterations without progress.
\<close>

subsection \<open>The sole reactor\<close>

definition sole_wrapper :: "u64 \<Rightarrow> reactor_status \<Rightarrow> u64 \<Rightarrow> reactor_wrapper" where
  "sole_wrapper c st v = \<lparr>rw_reactor = 0, rw_poll_counter = c, rw_enable = True, rw_cached_status = st, rw_cache_valid_until = v\<rparr>"

lemma sole_wrapper_sel [simp]:
  "rw_enable (sole_wrapper c st v)" "rw_reactor (sole_wrapper c st v) = 0"
  "(sole_wrapper c st v)\<lparr>rw_poll_counter := c'\<rparr> = sole_wrapper c' st v" "rw_poll_counter (sole_wrapper c st v) = c"
  by (simp_all add: sole_wrapper_def)

text \<open>The iterations in which the reactor is considered with a status that is cached as running or must be asked.\<close>

definition polled_at :: "reactor_status \<Rightarrow> u64 \<Rightarrow> nat \<Rightarrow> nat \<Rightarrow> bool" where
  "polled_at st v n k \<longleftrightarrow> due n k \<and> (st = Running \<or> unat v \<le> k)"

lemma cached_status:
  "get_cached_reactor_status E x (sole_wrapper c st v) it =
    (if it < v then (st, sole_wrapper c st v)
     else (e_reactor_status E 0 x, sole_wrapper c (e_reactor_status E 0 x) (it + status_cache_iterations (m_config x))))"
  by (simp add: get_cached_reactor_status_def sole_wrapper_def Let_def)

lemma poll_sole_reactor:
  assumes "m_reactors x = [(nm, sole_wrapper c st v)]"
  shows "poll_reactors E it [nm] x =
    (let status = (if it < v then st else e_reactor_status E 0 x); v' = (if it < v then v else it + status_cache_iterations (m_config x));
         y = x\<lparr>m_reactors := [(nm, sole_wrapper c status v')]\<rparr>
     in if status = Running
        then run_bind (e_reactor_poll E 0 y) (\<lambda>z. Inr (True, upd_reactor nm (sole_wrapper (c + 1) Running v') z))
        else Inr (False, y))"
  using assms by (simp add: cached_status upd_reactor_def Let_def cong: if_cong)

subsection \<open>The parked state\<close>

text \<open>
  The task is alone in the pool and pending, no queue holds an id; \<open>p\<close> describes its future, the readings of the clock
  and the rest of the process. The reactor's status is cached as \<open>st\<close>, valid below iteration \<open>v\<close>.
\<close>

definition parked ::
  "('f, 'v, 'p, 'w) env \<Rightarrow> string \<Rightarrow> nat \<Rightarrow> nat \<Rightarrow> ('f \<Rightarrow> nat \<Rightarrow> 'w \<Rightarrow> bool) \<Rightarrow> reactor_status \<Rightarrow> u64 \<Rightarrow> ('v, 'p, 'w) machine \<Rightarrow> bool" where
  "parked E nm target holder p st v m \<longleftrightarrow>
     queues_wf m \<and> contents (task_queue m) = [] \<and> contents (polling_queue m) = [] \<and> holder < length (result_holders m) \<and>
     (\<exists>t a f s. sl_get (e_slab E) (m_pool m) = [target \<mapsto> Some t] \<and> t_future t = BlockOn a holder f \<and>
        t_sender t = QNormal \<and> t_stat t = Some s \<and> a < length (shared_heap m) \<and> ss_waker (shared_heap m ! a) = None \<and>
        p f (clock_reads m) (m_world m)) \<and>
     (\<exists>c. m_reactors m = [(nm, sole_wrapper c st v)])"

definition finished :: "('f, 'v, 'p, 'w) env \<Rightarrow> nat \<Rightarrow> ('v \<Rightarrow> nat \<Rightarrow> 'w \<Rightarrow> bool) \<Rightarrow> ('v, 'p, 'w) machine \<Rightarrow> bool" where
  "finished E holder q m \<longleftrightarrow> sl_get (e_slab E) (m_pool m) = Map.empty \<and> holder < length (result_holders m) \<and>
     (\<exists>r. result_holders m ! holder = Some r \<and> q r (clock_reads m) (m_world m))"

lemma parked_update [simp]:
  "parked E nm target holder p st v (m\<lparr>m_iteration := x1\<rparr>) = parked E nm target holder p st v m"
  "parked E nm target holder p st v (m\<lparr>m_polling_buf := x2\<rparr>) = parked E nm target holder p st v m"
  "parked E nm target holder p st v (m\<lparr>m_task_buf := x3\<rparr>) = parked E nm target holder p st v m"
  "parked E nm target holder p st v (m\<lparr>m_os := x4\<rparr>) = parked E nm target holder p st v m"
  by (simp_all add: parked_def queues_wf_def)

lemma parked_queues:
  "parked E nm target holder p st v m \<Longrightarrow> queue_wf q \<Longrightarrow> contents q = [] \<Longrightarrow> parked E nm target holder p st v (m\<lparr>polling_queue := q\<rparr>)"
  "parked E nm target holder p st v m \<Longrightarrow> queue_wf q \<Longrightarrow> contents q = [] \<Longrightarrow> parked E nm target holder p st v (m\<lparr>task_queue := q\<rparr>)"
  by (auto simp: parked_def queues_wf_def)

lemma parked_target: "parked E nm target holder p st v m \<Longrightarrow> sl_get (e_slab E) (m_pool m) target \<noteq> None"
  by (auto simp: parked_def)

text \<open>What follows the reactors in an iteration of \<open>block_on\<close>.\<close>

definition phase_two :: "('f, 'v, 'p, 'w) env \<Rightarrow> bool \<times> ('v, 'p, 'w) machine \<Rightarrow> (bool \<times> ('v, 'p, 'w) machine) run" where
  "phase_two E = (\<lambda>(p1, m).
     run_bind (process_tasks E (m_polling_buf m) m) (\<lambda>(p2, m).
     run_bind (fill_batch m) (\<lambda>m.
     run_bind (process_tasks E (m_task_buf m) m) (\<lambda>(completed, m). Inr (p1 \<or> p2 \<or> completed, m)))))"

lemma phase_two_idle:
  assumes "m_polling_buf x = []" "queues_wf x" "contents (task_queue x) = []"
  obtains q where "phase_two E (p1, x) = Inr (p1, x\<lparr>m_task_buf := [], task_queue := q\<rparr>)" "queue_wf q" "contents q = []"
proof -
  obtain q where q: "fill_batch x = Inr (x\<lparr>m_task_buf := [], task_queue := q\<rparr>)" "queue_wf q" "contents q = []"
    using fill_batch_ok[OF assms(2)] assms(3) by auto
  then show thesis using that[of q] assms(1) by (simp add: phase_two_def)
qed

lemma phase_two_target:
  assumes "m_polling_buf x = []" "queues_wf x" "contents (task_queue x) = [target]" "task_batch_size (m_config x) \<noteq> 0"
  obtains q where "queue_wf q" "contents q = []"
    "phase_two E (p1, x) = run_bind (process_tasks E [target] (x\<lparr>m_task_buf := [target], task_queue := q\<rparr>)) (\<lambda>(c, m). Inr (p1 \<or> c, m))"
proof -
  obtain q where q: "fill_batch x = Inr (x\<lparr>m_task_buf := [target], task_queue := q\<rparr>)" "queue_wf q" "contents q = []"
    using fill_batch_ok[OF assms(2)] assms(3,4) by (cases "task_batch_size (m_config x)") auto
  then show thesis using that[of q] assms(1) by (simp add: phase_two_def del: process_tasks.simps(2))
qed

text \<open>An iteration, up to the machine with which the reactor is considered.\<close>

lemma sole_iteration_split:
  fixes m :: "('v, 'p, 'w) machine"
  assumes wf: "queues_wf m" "contents (polling_queue m) = []" and iv: "reactor_poll_interval (m_config m) \<noteq> 0"
    and order: "e_hash_order E [nm] = [nm]" and rs: "m_reactors m = [(nm, w)]"
  obtains q x where "queue_wf q" "contents q = []" "x = m\<lparr>m_iteration := m_iteration m + 1, m_polling_buf := [], polling_queue := q\<rparr>"
    "block_iteration E m = Some (run_bind (if due (interval m) (unat (m_iteration m))
       then poll_reactors E (m_iteration m) [nm] x else Inr (False, x)) (phase_two E))"
proof -
  obtain q where q: "queue_wf q" "contents q = []" and bi: "block_iteration E m = Some (run_bind
       (if due (interval m) (unat (m_iteration m))
        then poll_reactors E (m_iteration m) (e_hash_order E (map fst (m_reactors m)))
               (m\<lparr>m_iteration := m_iteration m + 1, m_polling_buf := [], polling_queue := q\<rparr>)
        else Inr (False, m\<lparr>m_iteration := m_iteration m + 1, m_polling_buf := [], polling_queue := q\<rparr>)) (\<lambda>(p1, m).
       run_bind (process_tasks E (m_polling_buf m) m) (\<lambda>(p2, m).
       run_bind (fill_batch m) (\<lambda>m.
       run_bind (process_tasks E (m_task_buf m) m) (\<lambda>(completed, m). Inr (p1 \<or> p2 \<or> completed, m))))))"
    by (rule block_iteration_split[OF wf iv, of E])
  show thesis by (rule that[OF q refl]) (use bi order rs in \<open>simp add: phase_two_def\<close>)
qed

lemma parked_idle:
  fixes m :: "('v, 'p, 'w) machine"
  assumes pk: "parked E nm target holder p st v m" and iv: "reactor_poll_interval (m_config m) \<noteq> 0" and order: "e_hash_order E [nm] = [nm]"
    and np: "\<not> polled_at st v (interval m) (unat (m_iteration m))"
  shows "\<exists>m'. block_iteration E m = Some (Inr (False, m')) \<and> parked E nm target holder p st v m' \<and>
    m_iteration m' = m_iteration m + 1 \<and> clock_reads m' = clock_reads m \<and> m_os m' = m_os m \<and> m_config m' = m_config m"
proof -
  obtain c where c: "m_reactors m = [(nm, sole_wrapper c st v)]" using pk by (auto simp: parked_def)
  have wf: "queues_wf m" "contents (polling_queue m) = []" "contents (task_queue m) = []" using pk by (simp_all add: parked_def)
  obtain q x where q: "queue_wf q" "contents q = []" and x: "x = m\<lparr>m_iteration := m_iteration m + 1, m_polling_buf := [], polling_queue := q\<rparr>"
    and bi: "block_iteration E m = Some (run_bind (if due (interval m) (unat (m_iteration m))
       then poll_reactors E (m_iteration m) [nm] x else Inr (False, x)) (phase_two E))"
    by (rule sole_iteration_split[OF wf(1,2) iv order c])
  have "poll_reactors E (m_iteration m) [nm] x = Inr (False, x)" if "due (interval m) (unat (m_iteration m))"
  proof -
    have "st = Stopped" "m_iteration m < v"
      using np that by (auto simp: polled_at_def word_less_nat_alt) (cases st; simp)
    moreover have "x\<lparr>m_reactors := [(nm, sole_wrapper c st v)]\<rparr> = x" using c x by simp
    moreover have "m_reactors x = [(nm, sole_wrapper c st v)]" using c x by simp
    ultimately show ?thesis using poll_sole_reactor[of x nm c st v E "m_iteration m"] by (simp add: Let_def del: poll_reactors.simps)
  qed
  then have r: "block_iteration E m = Some (phase_two E (False, x))" by (simp add: bi)
  have "m_polling_buf x = []" "queues_wf x" "contents (task_queue x) = []" using wf q x by (simp_all add: queues_wf_def)
  from phase_two_idle[OF this, of E False] obtain q5 where
    q5: "phase_two E (False, x) = Inr (False, x\<lparr>m_task_buf := [], task_queue := q5\<rparr>)" "queue_wf q5" "contents q5 = []" .
  have "parked E nm target holder p st v (x\<lparr>m_task_buf := [], task_queue := q5\<rparr>)"
    unfolding x using pk q q5(2,3) by (intro parked_queues) (simp_all add: parked_queues)
  then show ?thesis using r q5(1) x by simp
qed

text \<open>The next iteration in which the reactor is polled or its status asked, and the way there.\<close>

lemma next_poll:
  assumes n: "0 < n"
  shows "\<exists>j \<ge> k. j < max k (if st = Running then 0 else unat v) + n \<and> polled_at st v n j \<and> (\<forall>i. k \<le> i \<longrightarrow> i < j \<longrightarrow> \<not> polled_at st v n i)"
proof -
  define b where "b = max k (if st = Running then 0 else unat v)"
  define j0 where "j0 = b + (n - 1 - (b + n - 1) mod n)"
  have "(b + n - 1) mod n < n" using n by simp
  then have lt: "b \<le> j0" "j0 < b + n" using n by (auto simp: j0_def)
  have "j0 = (b + n - 1) div n * n"
    using n \<open>(b + n - 1) mod n < n\<close> by (simp add: j0_def flip: minus_mod_eq_div_mult)
  then have p0: "polled_at st v n j0" "k \<le> j0" using lt by (auto simp: polled_at_def due_def b_def)
  define j where "j = (LEAST j. k \<le> j \<and> polled_at st v n j)"
  have "k \<le> j \<and> polled_at st v n j" unfolding j_def by (rule LeastI[of _ j0]) (use p0 in simp)
  moreover have "j \<le> j0" unfolding j_def by (rule Least_le) (use p0 in simp)
  moreover have "\<not> polled_at st v n i" if "k \<le> i" "i < j" for i using not_less_Least[of i] that unfolding j_def by blast
  ultimately show ?thesis using lt unfolding b_def by (intro exI[of _ j]) auto
qed

text \<open>One step of the loop.\<close>

lemma block_loop_progress:
  "sl_get (e_slab E) (m_pool m) target \<noteq> None \<Longrightarrow> block_iteration E m = Some (Inr (True, m')) \<Longrightarrow>
    block_loop E ms target stuck m = block_loop E ms target 0 m'"
  by (subst block_loop.simps) (auto simp del: not_None_eq)

lemma block_loop_idle:
  "sl_get (e_slab E) (m_pool m) target \<noteq> None \<Longrightarrow> block_iteration E m = Some (Inr (False, m')) \<Longrightarrow> unat stuck < unat ms \<Longrightarrow>
    unat (stuck + 1) = Suc (unat stuck) \<and>
    block_loop E ms target stuck m = block_loop E ms target (stuck + 1) (m'\<lparr>m_os := m_os m' @ [YieldNow]\<rparr>)"
proof -
  assume s: "sl_get (e_slab E) (m_pool m) target \<noteq> None" "block_iteration E m = Some (Inr (False, m'))" "unat stuck < unat ms"
  have u: "unat (stuck + 1) = Suc (unat stuck)" using s(3) unat_u64_bound[of ms] by (intro unat_u64_Suc) simp
  then have "\<not> ms < stuck + 1" using s(3) by (simp add: u64_less_iff)
  then show ?thesis using s(1,2) u by (subst block_loop.simps) (auto simp del: not_None_eq)
qed

lemma block_loop_finished: "finished E holder q m \<Longrightarrow> block_loop E ms target stuck m = Some (Inr m)"
  by (subst block_loop.simps) (simp add: finished_def)

lemma run_to_poll:
  fixes m :: "('v, 'p, 'w) machine"
  assumes order: "e_hash_order E [nm] = [nm]" and iv: "reactor_poll_interval cfg \<noteq> 0"
  shows "parked E nm target holder p st v m \<Longrightarrow> m_config m = cfg \<Longrightarrow> unat (m_iteration m) + n < 2 ^ 64 \<Longrightarrow>
    (\<forall>i. unat (m_iteration m) \<le> i \<longrightarrow> i < unat (m_iteration m) + n \<longrightarrow> \<not> polled_at st v (unat (reactor_poll_interval cfg)) i) \<Longrightarrow>
    unat stuck + n \<le> unat ms \<Longrightarrow>
    \<exists>m' stuck'. parked E nm target holder p st v m' \<and> m_config m' = cfg \<and> unat (m_iteration m') = unat (m_iteration m) + n \<and>
      clock_reads m' = clock_reads m \<and> length (m_os m') = length (m_os m) + n \<and> unat stuck' = unat stuck + n \<and>
      block_loop E ms target stuck m = block_loop E ms target stuck' m'"
proof (induction n arbitrary: m stuck)
  case (Suc n)
  have "\<not> polled_at st v (interval m) (unat (m_iteration m))" using Suc.prems(2,4) by simp
  from parked_idle[OF Suc.prems(1) _ order this] iv Suc.prems(2) obtain m1 where
    m1: "block_iteration E m = Some (Inr (False, m1))" "parked E nm target holder p st v m1" "m_iteration m1 = m_iteration m + 1"
      "clock_reads m1 = clock_reads m" "m_os m1 = m_os m" "m_config m1 = cfg" by auto
  have it: "unat (m_iteration m1) = Suc (unat (m_iteration m))" unfolding m1(3) using Suc.prems(3) by (intro unat_u64_Suc) simp
  have "unat stuck < unat ms" using Suc.prems(5) by simp
  note step = block_loop_idle[OF parked_target[OF Suc.prems(1)] m1(1) this]
  let ?m = "m1\<lparr>m_os := m_os m1 @ [YieldNow]\<rparr>"
  have "\<exists>m' stuck'. parked E nm target holder p st v m' \<and> m_config m' = cfg \<and> unat (m_iteration m') = unat (m_iteration ?m) + n \<and>
      clock_reads m' = clock_reads ?m \<and> length (m_os m') = length (m_os ?m) + n \<and> unat stuck' = unat (stuck + 1) + n \<and>
      block_loop E ms target (stuck + 1) ?m = block_loop E ms target stuck' m'"
    by (rule Suc.IH) (use m1 it step Suc.prems in auto)
  with step m1(4,5) it show ?case by simp
qed auto

text \<open>A loop whose limit is reached before the reactor is polled or asked gives up.\<close>

lemma loop_panics:
  fixes m :: "('v, 'p, 'w) machine"
  assumes order: "e_hash_order E [nm] = [nm]" and iv: "reactor_poll_interval cfg \<noteq> 0" and lim: "unat ms + 1 < 2 ^ 64"
    and pk: "parked E nm target holder p st v m" "m_config m = cfg" "unat (m_iteration m) + (unat ms - unat stuck) + 1 < 2 ^ 64" "unat stuck \<le> unat ms"
    and np: "\<forall>i. unat (m_iteration m) \<le> i \<longrightarrow> i \<le> unat (m_iteration m) + (unat ms - unat stuck) \<longrightarrow>
      \<not> polled_at st v (unat (reactor_poll_interval cfg)) i"
  shows "block_loop E ms target stuck m = Some (Inl (Panic ''block_on deadlock detected''))"
proof -
  let ?n = "unat ms - unat stuck"
  have "unat (m_iteration m) + ?n < 2 ^ 64" "unat stuck + ?n \<le> unat ms" using pk(3,4) by simp_all
  from run_to_poll[OF order iv pk(1,2) this(1) _ this(2)] np
  obtain m1 stuck1 where m1: "parked E nm target holder p st v m1" "m_config m1 = cfg" "unat (m_iteration m1) = unat (m_iteration m) + ?n"
      "unat stuck1 = unat stuck + ?n" "block_loop E ms target stuck m = block_loop E ms target stuck1 m1" by auto
  have "\<not> polled_at st v (interval m1) (unat (m_iteration m1))" using np m1(2,3) by simp
  from parked_idle[OF m1(1) _ order this] iv m1(2) obtain m2 where m2: "block_iteration E m1 = Some (Inr (False, m2))" by auto
  have "stuck1 = ms" using m1(4) pk(4) by (simp add: word_unat_eq_iff)
  moreover have "ms < ms + 1" using lim by (simp add: u64_less_iff unat_u64_Suc)
  ultimately have "block_loop E ms target stuck1 m1 = Some (Inl (Panic ''block_on deadlock detected''))"
    using m2 parked_target[OF m1(1)] by (subst block_loop.simps) (auto simp del: not_None_eq)
  with m1(5) show ?thesis by simp
qed

subsection \<open>The start of \<open>block_on\<close>\<close>

text \<open>A new runtime with the one reactor; \<open>w\<close> is the rest of the process.\<close>

abbreviation sole_machine :: "('f, 'v, 'p, 'w) env \<Rightarrow> nat \<Rightarrow> scheduling_config \<Rightarrow> 'w \<Rightarrow> string \<Rightarrow> ('v, 'p, 'w) machine" where
  "sole_machine E queue_size config w nm \<equiv> register_reactor nm 0 (with_config E queue_size config w)"

lemma block_on_start:
  fixes E :: "('f, 'v, 'p, 'w) env"
  assumes S: "slab_ok (e_slab E)"
  obtains target m where "queues_wf m" "contents (polling_queue m) = []" "contents (task_queue m) = [target]"
    "sl_get (e_slab E) (m_pool m) = [target \<mapsto> Some (task_new (BlockOn 0 0 f) QNormal (Some nm'))]"
    "shared_heap m = [shared_state_new]" "result_holders m = [None]" "m_reactors m = [(nm, sole_wrapper 0 Stopped 0)]"
    "m_iteration m = 0" "clock_reads m = 0" "m_world m = w" "m_config m = cfg" "m_os m = []"
    "block_on_with_name_and_runtime E nm' f (sole_machine E qs cfg w nm) =
      (case block_loop E (env_u64 E ''PLUVIO_MAX_STUCK_ITERATIONS'' 1000000) target 0 m of
         None \<Rightarrow> None
       | Some (Inl e) \<Rightarrow> Some (Inl e)
       | Some (Inr m) \<Rightarrow>
           (case result_holders m ! 0 of
              None \<Rightarrow> Some (Inl (Panic ''Task completed but result was not set''))
            | Some v \<Rightarrow> Some (Inr (v, m\<lparr>result_holders := (result_holders m)[0 := None]\<rparr>))))"
proof -
  let ?m = "(sole_machine E qs cfg w nm)\<lparr>result_holders := [None]\<rparr>"
  have wf: "queues_wf ?m" "contents (task_queue ?m) = []" "contents (polling_queue ?m) = []"
    using queue_wf_unbounded_channel[where 'a = nat] by (simp_all add: register_reactor_def with_config_def queues_wf_def)
  have pool: "sl_get (e_slab E) (m_pool ?m) = Map.empty" using slab_okD(5)[OF S] by (simp add: register_reactor_def with_config_def)
  from spawn_on_spec[OF S wf(1), of QNormal "\<lambda>a. BlockOn a 0 f" "Some nm'"] obtain target m c where
    m: "spawn_on E QNormal (\<lambda>a. BlockOn a 0 f) (Some nm') ?m = Inr (target, length (shared_heap ?m), m)" "queues_wf m"
      "sl_get (e_slab E) (m_pool m) = (sl_get (e_slab E) (m_pool ?m))(target \<mapsto> Some (task_new (BlockOn (length (shared_heap ?m)) 0 f) QNormal (Some nm')))"
      "shared_heap m = shared_heap ?m @ [shared_state_new]" "contents (get_queue QNormal m) = contents (get_queue QNormal ?m) @ [target]"
      "\<forall>q'. q' \<noteq> QNormal \<longrightarrow> get_queue q' m = get_queue q' ?m" and
    e: "m = upd_queue QNormal (\<lambda>_. c) (?m\<lparr>shared_heap := shared_heap m, m_pool := m_pool m\<rparr>)" by auto
  have fr: "result_holders m = [None]" "m_reactors m = m_reactors ?m" "m_iteration m = m_iteration ?m" "clock_reads m = clock_reads ?m"
    "m_world m = m_world ?m" "m_config m = m_config ?m" "m_os m = m_os ?m" by (subst e, simp)+
  have init: "shared_heap ?m = []" "result_holders (sole_machine E qs cfg w nm) = []" "m_reactors ?m = [(nm, sole_wrapper 0 Stopped 0)]"
    "m_iteration ?m = 0" "clock_reads ?m = 0" "m_world ?m = w" "m_config ?m = cfg" "m_os ?m = []"
    by (simp_all add: register_reactor_def with_config_def sole_wrapper_def)
  have q: "contents (task_queue m) = [target]" "contents (polling_queue m) = []"
    using m(5) m(6)[rule_format, of QPolling] wf(2,3) unfolding get_queue_def by simp_all
  have "block_on_with_name_and_runtime E nm' f (sole_machine E qs cfg w nm) =
      (case block_loop E (env_u64 E ''PLUVIO_MAX_STUCK_ITERATIONS'' 1000000) target 0 m of
         None \<Rightarrow> None
       | Some (Inl e) \<Rightarrow> Some (Inl e)
       | Some (Inr m) \<Rightarrow>
           (case result_holders m ! 0 of
              None \<Rightarrow> Some (Inl (Panic ''Task completed but result was not set''))
            | Some v \<Rightarrow> Some (Inr (v, m\<lparr>result_holders := (result_holders m)[0 := None]\<rparr>))))"
    using m(1) init(2) by (simp only: block_on_with_name_and_runtime_def Let_def list.size append_Nil sum.case prod.case)
  moreover have "sl_get (e_slab E) (m_pool m) = [target \<mapsto> Some (task_new (BlockOn 0 0 f) QNormal (Some nm'))]"
    using m(3) pool init(1) by simp
  moreover have "shared_heap m = [shared_state_new]" using m(4) init(1) by simp
  moreover have "m_reactors m = [(nm, sole_wrapper 0 Stopped 0)]" "m_iteration m = 0" "clock_reads m = 0"
    "m_world m = w" "m_config m = cfg" "m_os m = []" using fr(2-7) init(3-8) by simp_all
  ultimately show thesis using that[OF m(2) q(2,1) _ _ fr(1)] by blast
qed

text \<open>
  The first iteration: the reactor, which has nothing to do, is asked and its status cached as \<open>Stopped\<close>; the task is
  polled and waits, or is ready at once.
\<close>

lemma first_iteration:
  fixes m :: "('v, 'p, 'w) machine"
  assumes S: "slab_ok (e_slab E)" and order: "e_hash_order E [nm] = [nm]"
    and cfg: "reactor_poll_interval (m_config m) \<noteq> 0" "task_batch_size (m_config m) \<noteq> 0"
    and wf: "queues_wf m" "contents (polling_queue m) = []" "contents (task_queue m) = [target]"
    and pool: "sl_get (e_slab E) (m_pool m) = [target \<mapsto> Some (task_new (BlockOn 0 0 f) QNormal (Some nm'))]"
    and heap: "shared_heap m = [shared_state_new]" "result_holders m = [None]"
    and fresh: "m_reactors m = [(nm, sole_wrapper 0 Stopped 0)]" "m_iteration m = 0" "clock_reads m = 0" "m_world m = w0"
    and stopped: "\<And>x :: ('v, 'p, 'w) machine. m_world x = w0 \<Longrightarrow> e_reactor_status E 0 x = Stopped"
  shows "(\<And>y :: ('v, 'p, 'w) machine. clock_reads y = 1 \<Longrightarrow> m_world y = w0 \<Longrightarrow>
      e_user_poll E (PluvioWaker QNormal target) f y = Inr (Pending, f', y\<lparr>clock_reads := r, m_world := w\<rparr>)) \<Longrightarrow> p f' (Suc r) w \<Longrightarrow>
      \<exists>m'. block_iteration E m = Some (Inr (False, m')) \<and> parked E nm target 0 p Stopped (status_cache_iterations (m_config m)) m' \<and>
        m_config m' = m_config m \<and> m_iteration m' = 1 \<and> clock_reads m' = Suc r \<and> m_os m' = m_os m"
    "(\<And>y :: ('v, 'p, 'w) machine. clock_reads y = 1 \<Longrightarrow> m_world y = w0 \<Longrightarrow>
      e_user_poll E (PluvioWaker QNormal target) f y = Inr (Ready v, f', y\<lparr>clock_reads := r, m_world := w\<rparr>)) \<Longrightarrow> q v (Suc r) w \<Longrightarrow>
      \<exists>m'. block_iteration E m = Some (Inr (True, m')) \<and> finished E 0 q m'"
proof -
  let ?c = "status_cache_iterations (m_config m)" and ?t = "task_new (BlockOn 0 0 f) QNormal (Some nm')"
  obtain q1 x where q: "queue_wf q1" "contents q1 = []" and x: "x = m\<lparr>m_iteration := m_iteration m + 1, m_polling_buf := [], polling_queue := q1\<rparr>"
    and bi: "block_iteration E m = Some (run_bind (if due (interval m) (unat (m_iteration m))
       then poll_reactors E (m_iteration m) [nm] x else Inr (False, x)) (phase_two E))"
    by (rule sole_iteration_split[OF wf(1,2) cfg(1) order fresh(1)])
  let ?y = "x\<lparr>m_reactors := [(nm, sole_wrapper 0 Stopped ?c)]\<rparr>"
  have "poll_reactors E 0 [nm] x = Inr (False, ?y)"
    using poll_sole_reactor[of x nm 0 Stopped 0 E 0] x fresh stopped[of x] by (simp del: poll_reactors.simps)
  then have it: "block_iteration E m = Some (phase_two E (False, ?y))" using bi fresh by (simp add: due_def del: poll_reactors.simps)
  have "m_polling_buf ?y = []" "queues_wf ?y" "contents (task_queue ?y) = [target]" "task_batch_size (m_config ?y) \<noteq> 0"
    using wf q x cfg by (simp_all add: queues_wf_def)
  from phase_two_target[OF this, of E False] obtain q5 where q5: "queue_wf q5" "contents q5 = []" "phase_two E (False, ?y) =
      run_bind (process_tasks E [target] (?y\<lparr>m_task_buf := [target], task_queue := q5\<rparr>)) (\<lambda>(c, m). Inr (False \<or> c, m))" by blast
  let ?u = "?y\<lparr>m_task_buf := [target], task_queue := q5\<rparr>"
  have t: "sl_get (e_slab E) (m_pool ?u) target = Some (Some ?t)" "t_future ?t = BlockOn 0 0 f" "t_stat ?t = Some (task_stat_new (Some nm'))"
    "0 < length (shared_heap ?u)" "ss_waker (shared_heap ?u ! 0) = None" "t_sender ?t = QNormal"
    using pool heap x by (simp_all add: task_new_def shared_state_new_def)
  { assume pend: "\<And>y :: ('v, 'p, 'w) machine. clock_reads y = 1 \<Longrightarrow> m_world y = w0 \<Longrightarrow>
      e_user_poll E (PluvioWaker QNormal target) f y = Inr (Pending, f', y\<lparr>clock_reads := r, m_world := w\<rparr>)" and p: "p f' (Suc r) w"
    have "\<exists>pl t'. process_tasks E [target] ?u = Inr (False, ?u\<lparr>m_pool := pl, clock_reads := Suc r, m_world := w\<rparr>) \<and>
        sl_get (e_slab E) pl = (sl_get (e_slab E) (m_pool ?u))(target \<mapsto> Some t') \<and>
        t_future t' = BlockOn 0 0 f' \<and> t_sender t' = t_sender ?t \<and> t_stat t' \<noteq> None"
      by (rule block_task_pending[OF S t(1-3)], unfold t(6), rule pend) (use x fresh in simp_all)
    then obtain pl t' where pl: "process_tasks E [target] ?u = Inr (False, ?u\<lparr>m_pool := pl, clock_reads := Suc r, m_world := w\<rparr>)"
        "sl_get (e_slab E) pl = (sl_get (e_slab E) (m_pool ?u))(target \<mapsto> Some t')" "t_future t' = BlockOn 0 0 f'" "t_sender t' = QNormal" "t_stat t' \<noteq> None"
      unfolding t(6) by blast
    let ?z = "?u\<lparr>m_pool := pl, clock_reads := Suc r, m_world := w\<rparr>"
    have "parked E nm target 0 p Stopped ?c ?z"
      using pl(2-5) pool heap wf q q5(1,2) p x by (auto simp: parked_def queues_wf_def shared_state_new_def)
    with it q5(3) pl(1) show "\<exists>m'. block_iteration E m = Some (Inr (False, m')) \<and> parked E nm target 0 p Stopped ?c m' \<and>
        m_config m' = m_config m \<and> m_iteration m' = 1 \<and> clock_reads m' = Suc r \<and> m_os m' = m_os m"
      by (intro exI[of _ ?z]) (simp add: x fresh del: process_tasks.simps) }
  { assume rdy: "\<And>y :: ('v, 'p, 'w) machine. clock_reads y = 1 \<Longrightarrow> m_world y = w0 \<Longrightarrow>
      e_user_poll E (PluvioWaker QNormal target) f y = Inr (Ready v, f', y\<lparr>clock_reads := r, m_world := w\<rparr>)" and r: "q v (Suc r) w"
    have "\<exists>m'. process_tasks E [target] ?u = Inr (True, m') \<and> sl_get (e_slab E) (m_pool m') = (sl_get (e_slab E) (m_pool ?u))(target := None) \<and>
        result_holders m' = (result_holders ?u)[0 := Some v] \<and> m_world m' = w \<and> clock_reads m' = Suc r"
      by (rule block_task_ready[OF S t(1-5)], unfold t(6), rule rdy) (use x fresh in simp_all)
    then obtain m' where m': "process_tasks E [target] ?u = Inr (True, m')" "sl_get (e_slab E) (m_pool m') = (sl_get (e_slab E) (m_pool m))(target := None)"
        "result_holders m' = (result_holders m)[0 := Some v]" "m_world m' = w" "clock_reads m' = Suc r"
      by (auto simp: x simp del: process_tasks.simps)
    then have "finished E 0 q m'" using pool heap r by (simp add: finished_def)
    with it q5(3) m'(1) show "\<exists>m'. block_iteration E m = Some (Inr (True, m')) \<and> finished E 0 q m'"
      by (simp del: process_tasks.simps) }
qed

subsection \<open>The contract of a reactor and a task that waits for it\<close>

text \<open>Time passes with the readings of the clock and with the calls that give up the CPU.\<close>

definition ticks :: "('v, 'p, 'w) machine \<Rightarrow> nat" where
  "ticks m = clock_reads m + length (m_os m)"

text \<open>
  \<open>P target n T f r w\<close>: with the clock read \<open>r\<close> times and the process in state \<open>w\<close>, the future \<open>f\<close> of task \<open>target\<close>
  waits for the reactor; at most \<open>n\<close> polls of the reactor leave it waiting, and from tick \<open>T\<close> on, at most \<open>D\<close> ticks ahead, the
  reactor reports \<open>Running\<close>. A poll that leaves it waiting delays that to at most \<open>D\<close> ticks later. Any other poll wakes the task, whose
  future is then ready with a value that satisfies \<open>Q\<close>.
\<close>

locale waiting_on_reactor =
  fixes E :: "('f, 'v, 'p, 'w) env" and P :: "nat \<Rightarrow> nat \<Rightarrow> nat \<Rightarrow> 'f \<Rightarrow> nat \<Rightarrow> 'w \<Rightarrow> bool"
    and Q :: "'v \<Rightarrow> nat \<Rightarrow> 'w \<Rightarrow> bool" and D :: nat
  assumes running: "P target n T f (clock_reads x) (m_world x) \<Longrightarrow> T \<le> ticks x \<Longrightarrow> e_reactor_status E 0 x = Running"
    and poll: "P target n T f (clock_reads x) (m_world x) \<Longrightarrow> T \<le> ticks x + D \<Longrightarrow>
      (\<exists>r w T'. e_reactor_poll E 0 x = Inr (x\<lparr>clock_reads := r, m_world := w\<rparr>) \<and> 0 < n \<and> P target (n - 1) T' f r w \<and>
         T' \<le> r + length (m_os x) + D) \<or>
      (\<exists>r w v f' r' w'. e_reactor_poll E 0 x = wake (PluvioWaker QNormal target) (x\<lparr>clock_reads := r, m_world := w\<rparr>) \<and>
         Q v (Suc r') w' \<and> (\<forall>y. clock_reads y = Suc r \<longrightarrow> m_world y = w \<longrightarrow>
           e_user_poll E (PluvioWaker QNormal target) f y = Inr (Ready v, f', y\<lparr>clock_reads := r', m_world := w'\<rparr>)))"
begin

text \<open>The iteration in which the reactor is polled, or its status is asked and it reports \<open>Stopped\<close>.\<close>

lemma event_iteration:
  assumes S: "slab_ok (e_slab E)" and pk: "parked E nm target holder (P target n T) st v m"
    and cfg: "reactor_poll_interval (m_config m) \<noteq> 0" "task_batch_size (m_config m) \<noteq> 0" and order: "e_hash_order E [nm] = [nm]"
    and pa: "polled_at st v (interval m) (unat (m_iteration m))" and T: "T \<le> ticks m + D"
  obtains (asked) m' where "block_iteration E m = Some (Inr (False, m'))"
      "parked E nm target holder (P target n T) Stopped (m_iteration m + status_cache_iterations (m_config m)) m'"
      "m_iteration m' = m_iteration m + 1" "clock_reads m' = clock_reads m" "m_os m' = m_os m" "m_config m' = m_config m" "ticks m < T"
  | (waits) m' v' T' where "block_iteration E m = Some (Inr (True, m'))" "parked E nm target holder (P target (n - 1) T') Running v' m'"
      "m_iteration m' = m_iteration m + 1" "m_config m' = m_config m" "T' \<le> ticks m' + D" "0 < n"
  | (wakes) m' where "block_iteration E m = Some (Inr (True, m'))" "finished E holder Q m'"
proof -
  obtain c t a f s where c: "m_reactors m = [(nm, sole_wrapper c st v)]" and
    t: "sl_get (e_slab E) (m_pool m) = [target \<mapsto> Some t]" "t_future t = BlockOn a holder f" "t_sender t = QNormal" "t_stat t = Some s"
      "a < length (shared_heap m)" "ss_waker (shared_heap m ! a) = None" and p: "P target n T f (clock_reads m) (m_world m)"
    using pk by (auto simp: parked_def)
  have wf: "queues_wf m" "contents (polling_queue m) = []" "contents (task_queue m) = []" "holder < length (result_holders m)"
    using pk by (simp_all add: parked_def)
  obtain q x where q: "queue_wf q" "contents q = []" and x: "x = m\<lparr>m_iteration := m_iteration m + 1, m_polling_buf := [], polling_queue := q\<rparr>"
    and bi: "block_iteration E m = Some (run_bind (if due (interval m) (unat (m_iteration m))
       then poll_reactors E (m_iteration m) [nm] x else Inr (False, x)) (phase_two E))"
    by (rule sole_iteration_split[OF wf(1,2) cfg(1) order c])
  have cx: "m_reactors x = [(nm, sole_wrapper c st v)]" using c x by simp
  have bi: "block_iteration E m = Some (run_bind (poll_reactors E (m_iteration m) [nm] x) (phase_two E))"
    using bi pa by (simp add: polled_at_def del: poll_reactors.simps)
  define status where "status = (if m_iteration m < v then st else e_reactor_status E 0 x)"
  define v' where "v' = (if m_iteration m < v then v else m_iteration m + status_cache_iterations (m_config m))"
  let ?y = "x\<lparr>m_reactors := [(nm, sole_wrapper c status v')]\<rparr>"
  have pr: "poll_reactors E (m_iteration m) [nm] x = (if status = Running
      then run_bind (e_reactor_poll E 0 ?y) (\<lambda>z. Inr (True, upd_reactor nm (sole_wrapper (c + 1) Running v') z)) else Inr (False, ?y))"
    using poll_sole_reactor[OF cx, of E "m_iteration m"] by (simp add: status_def v'_def Let_def x del: poll_reactors.simps)
  have pj: "P target n T f (clock_reads ?y) (m_world ?y)" "T \<le> ticks ?y + D" using p x T by (simp_all add: ticks_def)
  show thesis
  proof (cases status)
    case Stopped
    have it: "\<not> m_iteration m < v" using pa Stopped by (auto simp: status_def polled_at_def word_less_nat_alt)
    have "ticks m < T"
    proof (rule ccontr)
      assume "\<not> ticks m < T"
      then have "T \<le> ticks x" using x by (simp add: ticks_def)
      with running[of target n T f x] p x it Stopped show False by (simp add: status_def)
    qed
    have "m_polling_buf ?y = []" "queues_wf ?y" "contents (task_queue ?y) = []" using wf q x by (simp_all add: queues_wf_def)
    from phase_two_idle[OF this, of E False] obtain q5 where
      q5: "phase_two E (False, ?y) = Inr (False, ?y\<lparr>m_task_buf := [], task_queue := q5\<rparr>)" "queue_wf q5" "contents q5 = []" .
    have "parked E nm target holder (P target n T) Stopped (m_iteration m + status_cache_iterations (m_config m))
        (?y\<lparr>m_task_buf := [], task_queue := q5\<rparr>)"
      using pk q q5(2,3) Stopped it by (auto simp: x parked_def queues_wf_def v'_def)
    moreover have "block_iteration E m = Some (Inr (False, ?y\<lparr>m_task_buf := [], task_queue := q5\<rparr>))"
      using bi pr Stopped q5(1) by simp
    ultimately show thesis using \<open>ticks m < T\<close> by (intro asked[of "?y\<lparr>m_task_buf := [], task_queue := q5\<rparr>"]) (simp_all add: x)
  next
    case Running
    from poll[OF pj] show thesis
    proof (elim disjE exE conjE)
      fix r w T'
      assume w: "e_reactor_poll E 0 ?y = Inr (?y\<lparr>clock_reads := r, m_world := w\<rparr>)" "0 < n" "P target (n - 1) T' f r w"
        "T' \<le> r + length (m_os ?y) + D"
      let ?z = "?y\<lparr>m_reactors := [(nm, sole_wrapper (c + 1) Running v')], clock_reads := r, m_world := w\<rparr>"
      have r: "poll_reactors E (m_iteration m) [nm] x = Inr (True, ?z)"
        using pr Running w(1) by (simp add: upd_reactor_def del: poll_reactors.simps)
      have "m_polling_buf ?z = []" "queues_wf ?z" "contents (task_queue ?z) = []" using wf q x by (simp_all add: queues_wf_def)
      from phase_two_idle[OF this, of E True] obtain q5 where
        q5: "phase_two E (True, ?z) = Inr (True, ?z\<lparr>m_task_buf := [], task_queue := q5\<rparr>)" "queue_wf q5" "contents q5 = []" .
      have "parked E nm target holder (P target (n - 1) T') Running v' (?z\<lparr>m_task_buf := [], task_queue := q5\<rparr>)"
        using wf q q5(2,3) t w(3) by (auto simp: x parked_def queues_wf_def)
      moreover have "block_iteration E m = Some (Inr (True, ?z\<lparr>m_task_buf := [], task_queue := q5\<rparr>))"
        using bi r q5(1) by (simp del: poll_reactors.simps)
      ultimately show thesis using w(2,4) by (intro waits[of "?z\<lparr>m_task_buf := [], task_queue := q5\<rparr>" T' v']) (simp_all add: x ticks_def)
    next
      fix r w u f' r' w'
      assume w: "e_reactor_poll E 0 ?y = wake (PluvioWaker QNormal target) (?y\<lparr>clock_reads := r, m_world := w\<rparr>)" "Q u (Suc r') w'"
        "\<forall>y. clock_reads y = Suc r \<longrightarrow> m_world y = w \<longrightarrow>
           e_user_poll E (PluvioWaker QNormal target) f y = Inr (Ready u, f', y\<lparr>clock_reads := r', m_world := w'\<rparr>)"
      let ?w = "?y\<lparr>clock_reads := r, m_world := w\<rparr>"
      have wfw: "queues_wf ?w" "contents (task_queue ?w) = []" using wf q x by (simp_all add: queues_wf_def)
      obtain cq where cq: "wake (PluvioWaker QNormal target) ?w = Inr (?w\<lparr>task_queue := cq\<rparr>)" "queue_wf cq" "contents cq = [target]"
        using wake_machine[OF wfw(1), of "PluvioWaker QNormal target"] wfw(2) by (auto simp: upd_queue_def get_queue_def)
      let ?z = "?w\<lparr>task_queue := cq, m_reactors := [(nm, sole_wrapper (c + 1) Running v')]\<rparr>"
      have r: "poll_reactors E (m_iteration m) [nm] x = Inr (True, ?z)"
        using pr Running w(1) cq(1) by (simp add: upd_reactor_def del: poll_reactors.simps)
      have "m_polling_buf ?z = []" "queues_wf ?z" "contents (task_queue ?z) = [target]" "task_batch_size (m_config ?z) \<noteq> 0"
        using wf q x cq(2,3) cfg(2) by (simp_all add: queues_wf_def)
      from phase_two_target[OF this, of E True] obtain q5 where q5: "phase_two E (True, ?z) =
          run_bind (process_tasks E [target] (?z\<lparr>m_task_buf := [target], task_queue := q5\<rparr>)) (\<lambda>(c, m). Inr (True \<or> c, m))" by blast
      let ?u = "?z\<lparr>m_task_buf := [target], task_queue := q5\<rparr>"
      have slot: "sl_get (e_slab E) (m_pool ?u) target = Some (Some t)" "a < length (shared_heap ?u)" "ss_waker (shared_heap ?u ! a) = None"
        using t(1,5,6) x by simp_all
      have "\<exists>m'. process_tasks E [target] ?u = Inr (True, m') \<and> sl_get (e_slab E) (m_pool m') = (sl_get (e_slab E) (m_pool ?u))(target := None) \<and>
          result_holders m' = (result_holders ?u)[holder := Some u] \<and> m_world m' = w' \<and> clock_reads m' = Suc r'"
        by (rule block_task_ready[OF S slot(1) t(2,4) slot(2,3)]) (use w(3) t(3) in simp)
      then obtain m' where m': "process_tasks E [target] ?u = Inr (True, m')" "sl_get (e_slab E) (m_pool m') = (sl_get (e_slab E) (m_pool m))(target := None)"
          "result_holders m' = (result_holders m)[holder := Some u]" "m_world m' = w'" "clock_reads m' = Suc r'"
        by (auto simp: x simp del: process_tasks.simps)
      then have "finished E holder Q m'" using t(1) wf(4) w(2) by (simp add: finished_def)
      moreover have "block_iteration E m = Some (Inr (True, m'))"
        using bi r q5 m'(1) by (simp del: poll_reactors.simps process_tasks.simps)
      ultimately show thesis by (intro wakes[of m'])
    qed
  qed
qed

text \<open>
  The loop up to the next poll of the reactor: from tick \<open>T\<close> on a question finds it running; a question before leaves the
  status cached. \<open>L\<close> bounds the iterations.
\<close>

abbreviation polls_next :: "string \<Rightarrow> nat \<Rightarrow> nat \<Rightarrow> nat \<Rightarrow> nat \<Rightarrow> nat \<Rightarrow> ('v, 'p, 'w) machine \<Rightarrow> bool" where
  "polls_next nm target holder n L k m \<equiv>
     (\<exists>m' v' T'. block_iteration E m = Some (Inr (True, m')) \<and> parked E nm target holder (P target (n - 1) T') Running v' m' \<and>
        unat (m_iteration m') \<le> L \<and> m_config m' = m_config m \<and> T' \<le> ticks m' + D \<and> 0 < n) \<or>
     (\<exists>m'. block_iteration E m = Some (Inr (True, m')) \<and> finished E holder Q m')"

lemma reach_poll:
  assumes S: "slab_ok (e_slab E)" and order: "e_hash_order E [nm] = [nm]"
    and cfg: "reactor_poll_interval cfg \<noteq> 0" "task_batch_size cfg \<noteq> 0" and i: "i = unat (reactor_poll_interval cfg)"
    and c: "c = unat (status_cache_iterations cfg)" and L: "L < 2 ^ 64"
  shows "parked E nm target holder (P target n T) st v m \<Longrightarrow> m_config m = cfg \<Longrightarrow>
    max (unat (m_iteration m)) (if st = Running then 0 else unat v) + i \<le> L \<Longrightarrow>
    (ticks m < T \<longrightarrow> unat (m_iteration m) + (T - ticks m) + max 1 c + i \<le> L) \<Longrightarrow> T \<le> ticks m + D \<Longrightarrow>
    unat stuck + (L - unat (m_iteration m)) \<le> unat ms \<Longrightarrow>
    \<exists>m' stuck'. block_loop E ms target stuck m = block_loop E ms target stuck' m' \<and> sl_get (e_slab E) (m_pool m') target \<noteq> None \<and>
      m_config m' = cfg \<and> polls_next nm target holder n L (unat (m_iteration m)) m'"
proof (induction "T - ticks m" arbitrary: m stuck st v rule: less_induct)
  case less
  let ?k = "unat (m_iteration m)"
  have "0 < i" using cfg(1) i by (simp add: unat_gt_0)
  from next_poll[OF this, of ?k st v] obtain j where
    j: "?k \<le> j" "j < max ?k (if st = Running then 0 else unat v) + i" "polled_at st v i j" "\<forall>l. ?k \<le> l \<longrightarrow> l < j \<longrightarrow> \<not> polled_at st v i l"
    by blast
  have jL: "j < L" using j(2) less.prems(3) by simp
  then have "?k + (j - ?k) < 2 ^ 64" "unat stuck + (j - ?k) \<le> unat ms" using j(1) less.prems(6) L by auto
  from run_to_poll[OF order cfg(1) less.prems(1,2) this(1) _ this(2)] j(1,4) i obtain m1 stuck1 where
    m1: "parked E nm target holder (P target n T) st v m1" "m_config m1 = cfg" "unat (m_iteration m1) = j" "clock_reads m1 = clock_reads m"
      "length (m_os m1) = length (m_os m) + (j - ?k)" "unat stuck1 = unat stuck + (j - ?k)"
      "block_loop E ms target stuck m = block_loop E ms target stuck1 m1" by auto
  have pa: "polled_at st v (interval m1) (unat (m_iteration m1))" using j(3) m1(2,3) i by simp
  have cfg1: "reactor_poll_interval (m_config m1) \<noteq> 0" "task_batch_size (m_config m1) \<noteq> 0" using cfg m1(2) by simp_all
  have Sj: "unat (m_iteration m1 + 1) = Suc j" using m1(3) jL L by (intro trans[OF unat_u64_Suc]) simp_all
  have t1: "ticks m1 = ticks m + (j - ?k)" using m1(4,5) by (simp add: ticks_def)
  have T1: "T \<le> ticks m1 + D" using t1 less.prems(5) by simp
  from S m1(1) cfg1 order pa T1 show ?case
  proof (cases rule: event_iteration)
    case (asked m2)
    let ?m = "m2\<lparr>m_os := m_os m2 @ [YieldNow]\<rparr>"
    have t2: "ticks ?m = Suc (ticks m1)" using asked(4,5) by (simp add: ticks_def)
    have b: "?k + (T - ticks m) + max 1 c + i \<le> L" "j < ?k + (T - ticks m)" using less.prems(4) asked(7) t1 j(1) by auto
    have "unat stuck1 < unat ms" using m1(6) less.prems(6) jL j(1) by linarith
    note step = block_loop_idle[OF parked_target[OF m1(1)] asked(1) this]
    have it: "unat (m_iteration ?m) = Suc j" using asked(3) Sj by simp
    have "unat (m_iteration m1 + status_cache_iterations (m_config m1)) = j + c"
      using m1(2,3) b L c by (subst unat_word_ariths) simp
    then have v: "max (unat (m_iteration ?m)) (if Stopped = Running then 0 else unat (m_iteration m1 + status_cache_iterations (m_config m1))) + i \<le> L"
      using it b by auto
    have "\<exists>m' stuck'. block_loop E ms target (stuck1 + 1) ?m = block_loop E ms target stuck' m' \<and> sl_get (e_slab E) (m_pool m') target \<noteq> None \<and>
        m_config m' = cfg \<and> polls_next nm target holder n L (unat (m_iteration ?m)) m'"
    proof (rule less.hyps)
      show "T - ticks ?m < T - ticks m" using t1 t2 asked(7) by simp
      show "parked E nm target holder (P target n T) Stopped (m_iteration m1 + status_cache_iterations (m_config m1)) ?m"
        using asked(2) by simp
      show "m_config ?m = cfg" using asked(6) m1(2) by simp
      show "ticks ?m < T \<longrightarrow> unat (m_iteration ?m) + (T - ticks ?m) + max 1 c + i \<le> L" using it t1 t2 b(1) j(1) by auto
      show "T \<le> ticks ?m + D" using T1 t2 by simp
      show "unat (stuck1 + 1) + (L - unat (m_iteration ?m)) \<le> unat ms" using step it m1(6) less.prems(6) jL j(1) by auto
    qed (rule v)
    with step m1(7) show ?thesis by simp
  next
    case (waits m2 T2 v2)
    have "polls_next nm target holder n L ?k m1"
      using waits jL Sj by (intro disjI1 exI[of _ m2] exI[of _ v2] exI[of _ T2]) simp
    then show ?thesis using m1(2,7) parked_target[OF m1(1)] by (intro exI[of _ m1] exI[of _ stuck1] conjI)
  next
    case (wakes m2)
    then have "polls_next nm target holder n L ?k m1" by blast
    then show ?thesis using m1(2,7) parked_target[OF m1(1)] by (intro exI[of _ m1] exI[of _ stuck1] conjI)
  qed
qed

text \<open>The iterations after a poll within which the reactor is polled again.\<close>

abbreviation (input) round_length :: "nat \<Rightarrow> nat \<Rightarrow> nat" where
  "round_length c i \<equiv> (if D = 0 then i else D + max 1 c + i)"

lemma loop_returns:
  assumes S: "slab_ok (e_slab E)" and order: "e_hash_order E [nm] = [nm]"
    and cfg: "reactor_poll_interval cfg \<noteq> 0" "task_batch_size cfg \<noteq> 0" and i: "i = unat (reactor_poll_interval cfg)"
    and c: "c = unat (status_cache_iterations cfg)" and ms: "round_length c i \<le> unat ms"
  shows "parked E nm target holder (P target n T) st v m \<Longrightarrow> m_config m = cfg \<Longrightarrow>
    max (unat (m_iteration m)) (if st = Running then 0 else unat v) + i \<le> L \<Longrightarrow>
    (ticks m < T \<longrightarrow> unat (m_iteration m) + (T - ticks m) + max 1 c + i \<le> L) \<Longrightarrow> T \<le> ticks m + D \<Longrightarrow>
    unat stuck + (L - unat (m_iteration m)) \<le> unat ms \<Longrightarrow> L + n * round_length c i < 2 ^ 64 \<Longrightarrow>
    \<exists>m'. block_loop E ms target stuck m = Some (Inr m') \<and> finished E holder Q m'"
proof (induction n arbitrary: m stuck st v T L rule: less_induct)
  case (less n)
  have "L < 2 ^ 64" using less.prems(7) by simp
  from reach_poll[OF S order cfg i c this less.prems(1-6)] obtain m1 stuck1 where
    m1: "block_loop E ms target stuck m = block_loop E ms target stuck1 m1" "sl_get (e_slab E) (m_pool m1) target \<noteq> None" "m_config m1 = cfg"
      and nx: "polls_next nm target holder n L (unat (m_iteration m)) m1" by blast
  from nx show ?case
  proof (elim disjE exE conjE)
    fix m2 v2 T2
    assume m2: "block_iteration E m1 = Some (Inr (True, m2))" "parked E nm target holder (P target (n - 1) T2) Running v2 m2"
      "unat (m_iteration m2) \<le> L" "m_config m2 = m_config m1" "T2 \<le> ticks m2 + D" "0 < n"
    let ?L = "unat (m_iteration m2) + round_length c i"
    have "n * round_length c i = round_length c i + (n - 1) * round_length c i" using m2(6) by (cases n) simp_all
    then have lim: "?L + (n - 1) * round_length c i < 2 ^ 64" using less.prems(7) m2(3) by linarith
    have "\<exists>m'. block_loop E ms target 0 m2 = Some (Inr m') \<and> finished E holder Q m'"
    proof (rule less.IH[OF _ m2(2)])
      show "ticks m2 < T2 \<longrightarrow> unat (m_iteration m2) + (T2 - ticks m2) + max 1 c + i \<le> ?L" using m2(5) by auto
      show "?L + (n - 1) * round_length c i < 2 ^ 64" by (rule lim)
    qed (use m2(4-6) m1(3) ms in auto)
    then show ?case using m1(1) block_loop_progress[OF m1(2) m2(1)] by simp
  next
    fix m2
    assume m2: "block_iteration E m1 = Some (Inr (True, m2))" "finished E holder Q m2"
    then show ?case using m1(1) block_loop_progress[OF m1(2) m2(1)] block_loop_finished[OF m2(2)] by simp
  qed
qed

text \<open>\<open>block_on\<close> from its call to its result.\<close>

lemma block_on_returns:
  assumes S: "slab_ok (e_slab E)" and order: "e_hash_order E [nm] = [nm]"
    and cfg: "reactor_poll_interval cfg \<noteq> 0" "task_batch_size cfg \<noteq> 0" and i: "i = unat (reactor_poll_interval cfg)"
    and L: "L = D + max 1 (unat (status_cache_iterations cfg)) + i"
    and ms: "ms = env_u64 E ''PLUVIO_MAX_STUCK_ITERATIONS'' 1000000" "L \<le> unat ms"
      "L + n * round_length (unat (status_cache_iterations cfg)) i < 2 ^ 64"
    and stopped: "\<And>x. m_world x = w0 \<Longrightarrow> e_reactor_status E 0 x = Stopped"
    and start: "\<And>target. (\<exists>f' r w T. (\<forall>y. clock_reads y = 1 \<longrightarrow> m_world y = w0 \<longrightarrow>
        e_user_poll E (PluvioWaker QNormal target) f y = Inr (Pending, f', y\<lparr>clock_reads := r, m_world := w\<rparr>)) \<and>
        P target n T f' (Suc r) w \<and> T \<le> Suc r + D) \<or>
      (\<exists>v f' r w. (\<forall>y. clock_reads y = 1 \<longrightarrow> m_world y = w0 \<longrightarrow>
        e_user_poll E (PluvioWaker QNormal target) f y = Inr (Ready v, f', y\<lparr>clock_reads := r, m_world := w\<rparr>)) \<and> Q v (Suc r) w)"
  shows "\<exists>v m'. block_on_with_name_and_runtime E nm' f (sole_machine E qs cfg w0 nm) = Some (Inr (v, m')) \<and>
    sl_get (e_slab E) (m_pool m') = Map.empty \<and> Q v (clock_reads m') (m_world m')"
proof -
  obtain target m where m: "queues_wf m" "contents (polling_queue m) = []" "contents (task_queue m) = [target]"
    "sl_get (e_slab E) (m_pool m) = [target \<mapsto> Some (task_new (BlockOn 0 0 f) QNormal (Some nm'))]"
    "shared_heap m = [shared_state_new]" "result_holders m = [None]" "m_reactors m = [(nm, sole_wrapper 0 Stopped 0)]"
    "m_iteration m = 0" "clock_reads m = 0" "m_world m = w0" "m_config m = cfg" "m_os m = []" and
    run: "block_on_with_name_and_runtime E nm' f (sole_machine E qs cfg w0 nm) =
      (case block_loop E (env_u64 E ''PLUVIO_MAX_STUCK_ITERATIONS'' 1000000) target 0 m of
         None \<Rightarrow> None
       | Some (Inl e) \<Rightarrow> Some (Inl e)
       | Some (Inr m) \<Rightarrow>
           (case result_holders m ! 0 of
              None \<Rightarrow> Some (Inl (Panic ''Task completed but result was not set''))
            | Some v \<Rightarrow> Some (Inr (v, m\<lparr>result_holders := (result_holders m)[0 := None]\<rparr>))))"
    by (rule block_on_start[OF S])
  let ?c = "unat (status_cache_iterations cfg)"
  have cm: "reactor_poll_interval (m_config m) \<noteq> 0" "task_batch_size (m_config m) \<noteq> 0" using cfg m(11) by simp_all
  have tg: "sl_get (e_slab E) (m_pool m) target \<noteq> None" using m(4) by simp
  note first = first_iteration[OF S order cm m(1-10) stopped]
  have "0 < i" using cfg(1) i by (simp add: unat_gt_0)
  have "\<exists>m'. block_loop E ms target 0 m = Some (Inr m') \<and> finished E 0 Q m'"
    using start[of target]
  proof (elim disjE exE conjE)
    fix f' r w T
    assume w: "\<forall>y. clock_reads y = 1 \<longrightarrow> m_world y = w0 \<longrightarrow>
        e_user_poll E (PluvioWaker QNormal target) f y = Inr (Pending, f', y\<lparr>clock_reads := r, m_world := w\<rparr>)"
      "P target n T f' (Suc r) w" "T \<le> Suc r + D"
    from first(1)[where f' = f' and r = r and w = w and p = "P target n T"] w(1,2) obtain m1 where m1: "block_iteration E m = Some (Inr (False, m1))"
      "parked E nm target 0 (P target n T) Stopped (status_cache_iterations cfg) m1" "m_config m1 = cfg" "m_iteration m1 = 1"
      "clock_reads m1 = Suc r" "m_os m1 = []" unfolding m(11,12) by auto
    let ?m = "m1\<lparr>m_os := m_os m1 @ [YieldNow]\<rparr>"
    have step: "block_loop E ms target 0 m = block_loop E ms target 1 ?m"
      using block_loop_idle[OF tg m1(1), of 0 ms] ms(2) L \<open>0 < i\<close> by simp
    have t: "ticks ?m = Suc (Suc r)" using m1(5,6) by (simp add: ticks_def)
    have "\<exists>m'. block_loop E ms target 1 ?m = Some (Inr m') \<and> finished E 0 Q m'"
    proof (rule loop_returns[OF S order cfg i refl])
      show "parked E nm target 0 (P target n T) Stopped (status_cache_iterations cfg) ?m" using m1(2) by simp
      show "(if D = 0 then i else D + max 1 ?c + i) \<le> unat ms" using ms(2) L by (auto split: if_splits)
      show "max (unat (m_iteration ?m)) (if Stopped = Running then 0 else ?c) + i \<le> L" using m1(4) L by simp
      show "ticks ?m < T \<longrightarrow> unat (m_iteration ?m) + (T - ticks ?m) + max 1 ?c + i \<le> L" using m1(4) t w(3) L by auto
      show "T \<le> ticks ?m + D" using t w(3) by simp
      show "unat (1 :: u64) + (L - unat (m_iteration ?m)) \<le> unat ms" using m1(4) ms(2) L by simp
    qed (use m1(3) ms(3) in simp_all)
    with step show ?thesis by simp
  next
    fix u f' r w
    assume w: "\<forall>y. clock_reads y = 1 \<longrightarrow> m_world y = w0 \<longrightarrow>
        e_user_poll E (PluvioWaker QNormal target) f y = Inr (Ready u, f', y\<lparr>clock_reads := r, m_world := w\<rparr>)" "Q u (Suc r) w"
    from first(2)[where v = u and f' = f' and r = r and w = w and q = Q] w obtain m1 where m1: "block_iteration E m = Some (Inr (True, m1))" "finished E 0 Q m1" by auto
    then show ?thesis using block_loop_progress[OF tg m1(1)] block_loop_finished[OF m1(2)] by simp
  qed
  then obtain m' where m': "block_loop E ms target 0 m = Some (Inr m')" "finished E 0 Q m'" by blast
  then obtain v where "result_holders m' ! 0 = Some v" "Q v (clock_reads m') (m_world m')" by (auto simp: finished_def)
  then show ?thesis using m' run ms(1)
    by (intro exI[of _ v] exI[of _ "m'\<lparr>result_holders := (result_holders m')[0 := None]\<rparr>"]) (simp add: finished_def)
qed

end

end
