(* ===== verification/Timer_Runtime.thy ===== *)
theory Timer_Runtime
  imports Timer Task_Types Reactor_Loop
begin

section \<open>Sleeping on the executor\<close>

text \<open>
  The timer reactor and its \<open>Delay\<close> under the executor: the parameters of \<open>Executor\<close> are
  instantiated with the code of \<open>pluvio_timer\<close>. The executor's contract holds for it, so its
  theorems apply; and \<open>block_on\<close> of a sleep is followed from the first poll through the cached reactor
  status, the reactor's polls and the wake-up to the result.
\<close>

subsection \<open>The timer reactor behind \<open>dyn Reactor\<close>\<close>

text \<open>The rest of the process is the handle counter and the thread's reactor; a waker is the executor's.\<close>

definition poll_timers :: "(nat \<Rightarrow> nat) \<Rightarrow> ('v, 'p, waker timer_state) machine \<Rightarrow> ('v, 'p, waker timer_state) machine run" where
  "poll_timers clock m =
     (let (now, m) = instant_now clock m; (woken, r) = timer_poll (snd (m_world m)) now
      in wake_all woken (m\<lparr>m_world := (fst (m_world m), r)\<rparr>))"

text \<open>
  The block \<open>async { sleep(duration).await }\<close>: its first poll makes the delay; when the delay is ready it
  is dropped.
\<close>

datatype sleeper = SleepFor nat | Sleeping delay

definition await_delay ::
  "(nat \<Rightarrow> nat) \<Rightarrow> waker \<Rightarrow> delay \<Rightarrow> ('v, 'p, waker timer_state) machine \<Rightarrow>
   unit poll \<times> sleeper \<times> ('v, 'p, waker timer_state) machine" where
  "await_delay clock w d m =
     (let (now, m) = instant_now clock m
      in case delay_poll d now w (m_world m) of
           (Pending, d, st) \<Rightarrow> (Pending, Sleeping d, m\<lparr>m_world := st\<rparr>)
         | (Ready _, d, st) \<Rightarrow> (Ready (), Sleeping d, m\<lparr>m_world := delay_drop d st\<rparr>))"

definition sleeper_poll ::
  "(nat \<Rightarrow> nat) \<Rightarrow> waker \<Rightarrow> (sleeper, unit, ('v, 'p, waker timer_state) machine) fut_poll" where
  "sleeper_poll clock w f m =
     Inr (case f of
       SleepFor duration \<Rightarrow> (let (now, m) = instant_now clock m in await_delay clock w (sleep now duration) m)
     | Sleeping d \<Rightarrow> await_delay clock w d m)"

definition timer_env ::
  "('p, sleeper task option) slab_ops \<Rightarrow> (nat \<Rightarrow> nat) \<Rightarrow> (string \<Rightarrow> string option) \<Rightarrow> (string list \<Rightarrow> string list) \<Rightarrow>
   (sleeper, unit, 'p, waker timer_state) env" where
  "timer_env S clock var order =
     \<lparr>e_slab = S, e_user_poll = sleeper_poll clock, e_reactor_poll = \<lambda>_. poll_timers clock,
      e_reactor_status = \<lambda>_ m. timer_status (snd (m_world m)), e_clock = clock, e_var = var, e_hash_order = order\<rparr>"

lemma timer_env_sel [simp]:
  "e_slab (timer_env S clock var order) = S" "e_user_poll (timer_env S clock var order) = sleeper_poll clock"
  "e_reactor_poll (timer_env S clock var order) i = poll_timers clock"
  "e_reactor_status (timer_env S clock var order) i m = timer_status (snd (m_world m))"
  "e_clock (timer_env S clock var order) = clock" "e_hash_order (timer_env S clock var order) = order"
  by (simp_all add: timer_env_def)

subsection \<open>The executor's contract\<close>

lemma poll_timers_api:
  fixes m :: "('v, 'p, waker timer_state) machine"
  assumes wf: "queues_wf m"
  shows "\<exists>m'. poll_timers clock m = Inr m' \<and> (api_step E)\<^sup>*\<^sup>* m m'"
proof -
  obtain woken r where p: "timer_poll (snd (m_world m)) (clock (clock_reads m)) = (woken, r)" by fastforce
  let ?m = "m\<lparr>clock_reads := Suc (clock_reads m), m_world := (fst (m_world m), r)\<rparr>"
  have "queues_wf ?m" using wf by (simp add: queues_wf_get)
  from wake_all_api[OF this, of woken E] obtain m' where "wake_all woken ?m = Inr m'" "(api_step E)\<^sup>*\<^sup>* ?m m'" by blast
  with p api_clock_world(3)[of E m "(fst (m_world m), r)"] show ?thesis
    by (auto simp: poll_timers_def instant_now_def intro: rtranclp_trans)
qed

lemma await_delay_eq:
  "\<exists>r d' st. await_delay clock w d m = (r, Sleeping d', m\<lparr>clock_reads := Suc (clock_reads m), m_world := st\<rparr>)"
proof -
  obtain r d' st where "delay_poll d (clock (clock_reads m)) w (m_world m) = (r, d', st)" by (metis prod_cases3)
  then show ?thesis
    by (cases r) (simp_all add: await_delay_def instant_now_def del: split_paired_Ex, blast+)
qed

lemma sleeper_poll_api:
  fixes m :: "('v, 'p, waker timer_state) machine"
  shows "\<exists>r f' m'. sleeper_poll clock w f m = Inr (r, f', m') \<and> (api_step E)\<^sup>*\<^sup>* m m'"
proof -
  have a: "\<exists>r f' m'. await_delay clock w d x = (r, f', m') \<and> (api_step E)\<^sup>*\<^sup>* x m'"
    for d and x :: "('v, 'p, waker timer_state) machine"
    using await_delay_eq[of clock w d x] api_clock_world(3)[of E x] by metis
  show ?thesis
  proof (cases f)
    case (SleepFor duration)
    let ?m = "m\<lparr>clock_reads := Suc (clock_reads m)\<rparr>"
    from a[of "sleep (clock (clock_reads m)) duration" ?m] obtain r f' m' where
      "await_delay clock w (sleep (clock (clock_reads m)) duration) ?m = (r, f', m')" "(api_step E)\<^sup>*\<^sup>* ?m m'" by blast
    with api_clock_world(1)[of E m] SleepFor show ?thesis
      by (auto simp: sleeper_poll_def instant_now_def intro: rtranclp_trans)
  qed (use a in \<open>simp add: sleeper_poll_def\<close>)
qed

lemma env_ok_timer:
  assumes "slab_ok S" "\<And>ks. set (order ks) = set ks"
  shows "env_ok (timer_env S clock var order)"
  unfolding env_ok_def timer_env_sel using assms sleeper_poll_api poll_timers_api by blast

text \<open>Every sleeping future has the output type \<open>()\<close>.\<close>

interpretation sleepers: typed_futures "\<lambda>_. ()" "\<lambda>_. ()" "timer_env list_slab clock var id" for clock var
  by unfold_locales (simp_all add: env_ok_timer slab_ok_list env_typed_def split: poll.split)

text \<open>
  The timer reactor and sleeping tasks keep the contract the executor asks of reactors and user futures, for
  every clock: a poll never panics and acts on the runtime through wake-ups and clock readings only.
  So the theorems about the executor hold for them: no iteration of \<open>run_queue\<close> faults.
\<close>

theorem timer_env_ok:
  assumes "slab_ok S" "\<And>ks. set (order ks) = set ks"
  shows "env_ok (timer_env S clock var order) \<and>
    (\<forall>m. rt_inv (timer_env S clock var order) m \<longrightarrow>
      (\<exists>b m'. run_iteration (timer_env S clock var order) m = Some (Inr (b, m')) \<and> rt_inv (timer_env S clock var order) m'))"
  using run_iteration_ok env_ok_timer[OF assms] by blast

theorem timer_env_ok_witness: "env_ok (timer_env list_slab id (\<lambda>_. None) id)"
  using timer_env_ok[OF slab_ok_list, of id id "\<lambda>_. None"] by simp

subsection \<open>The polls of a sleep\<close>

text \<open>The states a sleep goes through: the machine with other readings and another world.\<close>

lemma sleeper_polls:
  fixes m :: "('v, 'p, waker timer_state) machine"
  shows "clock (Suc (clock_reads m)) < clock (clock_reads m) + duration \<Longrightarrow> m_world m = (ctr, timer_reactor_new) \<Longrightarrow>
      sleeper_poll clock w (SleepFor duration) m =
        Inr (Pending, Sleeping \<lparr>dl_deadline = clock (clock_reads m) + duration, dl_handle = Some (TimerHandle (clock (clock_reads m) + duration) ctr)\<rparr>,
          m\<lparr>clock_reads := clock_reads m + 2, m_world := (ctr + 1, \<lparr>timers = [(TimerHandle (clock (clock_reads m) + duration) ctr, w)],
            timer_count_atomic = 1\<rparr>)\<rparr>)"
    "clock (clock_reads m) + duration \<le> clock (Suc (clock_reads m)) \<Longrightarrow>
      sleeper_poll clock w (SleepFor duration) m =
        Inr (Ready (), Sleeping \<lparr>dl_deadline = clock (clock_reads m) + duration, dl_handle = None\<rparr>,
          m\<lparr>clock_reads := clock_reads m + 2, m_world := m_world m\<rparr>)"
    "dl_deadline d \<le> clock (clock_reads m) \<Longrightarrow>
      sleeper_poll clock w (Sleeping d) m =
        Inr (Ready (), Sleeping d, m\<lparr>clock_reads := clock_reads m + 1, m_world := delay_drop d (m_world m)\<rparr>)"
  by (simp_all add: sleeper_poll_def await_delay_def delay_poll_def instant_now_def sleep_def delay_new_def delay_new_at_def
      register_timer_def timer_handle_new_def timer_reactor_new_def delay_drop_def Let_def split: option.split)

lemma poll_one_timer:
  fixes m :: "('v, 'p, waker timer_state) machine"
  assumes "m_world m = (ctr, \<lparr>timers = [(h, w)], timer_count_atomic = 1\<rparr>)"
  shows "clock (clock_reads m) < th_deadline h \<Longrightarrow> poll_timers clock m = Inr (m\<lparr>clock_reads := Suc (clock_reads m)\<rparr>)"
    "th_deadline h \<le> clock (clock_reads m) \<Longrightarrow> poll_timers clock m =
      wake w (m\<lparr>clock_reads := Suc (clock_reads m), m_world := (ctr, \<lparr>timers = [], timer_count_atomic = 0\<rparr>)\<rparr>)"
proof -
  assume "clock (clock_reads m) < th_deadline h"
  then show "poll_timers clock m = Inr (m\<lparr>clock_reads := Suc (clock_reads m)\<rparr>)"
    using assms by (simp add: poll_timers_def instant_now_def timer_poll_def wake_expired_timers_def)
next
  assume "th_deadline h \<le> clock (clock_reads m)"
  then show "poll_timers clock m =
      wake w (m\<lparr>clock_reads := Suc (clock_reads m), m_world := (ctr, \<lparr>timers = [], timer_count_atomic = 0\<rparr>)\<rparr>)"
    using assms by (simp add: poll_timers_def instant_now_def timer_poll_def wake_expired_timers_def bt_range_le_def run_bind_def split: sum.split)
qed

subsection \<open>Sleeping under \<open>block_on\<close>\<close>

text \<open>
  The contract of \<open>waiting_on_reactor\<close>: the timer of the sleep is the only one, and the clock has reached its deadline at
  reading \<open>N\<close>, so at most \<open>N - r\<close> polls of the reactor leave it. After it no timer is left, and the clock was read
  at or after the deadline. The reactor reports \<open>Running\<close> all the time (\<open>T\<close> does not matter, \<open>D = 0\<close>).
\<close>

definition timer_waits ::
  "(nat \<Rightarrow> nat) \<Rightarrow> nat \<Rightarrow> nat \<Rightarrow> nat \<Rightarrow> nat \<Rightarrow> nat \<Rightarrow> sleeper \<Rightarrow> nat \<Rightarrow> waker timer_state \<Rightarrow> bool" where
  "timer_waits clock N deadline target n T f r w \<longleftrightarrow> mono clock \<and> deadline \<le> clock N \<and> N \<le> n + r \<and> T = 0 \<and>
     (\<exists>d h ctr. f = Sleeping d \<and> dl_deadline d = deadline \<and> dl_handle d = Some h \<and> th_deadline h = deadline \<and>
        w = (ctr, \<lparr>timers = [(h, PluvioWaker QNormal target)], timer_count_atomic = 1\<rparr>))"

definition timer_done :: "(nat \<Rightarrow> nat) \<Rightarrow> nat \<Rightarrow> unit \<Rightarrow> nat \<Rightarrow> waker timer_state \<Rightarrow> bool" where
  "timer_done clock deadline v r w \<longleftrightarrow> timers (snd w) = [] \<and> (\<exists>c < r. deadline \<le> clock c)"

lemma timer_waits_running:
  "timer_waits clock N deadline target n T f r (m_world x) \<Longrightarrow> e_reactor_status (timer_env S clock var order) 0 x = Running"
  by (auto simp: timer_waits_def timer_status_def)

lemma timer_waits_poll:
  fixes x :: "(unit, 'p, waker timer_state) machine"
  assumes "timer_waits clock N deadline target n T f (clock_reads x) (m_world x)"
  shows "(\<exists>r w T'. poll_timers clock x = Inr (x\<lparr>clock_reads := r, m_world := w\<rparr>) \<and> 0 < n \<and>
       timer_waits clock N deadline target (n - 1) T' f r w \<and> T' \<le> r + length (m_os x) + 0) \<or>
    (\<exists>r w v f' r' w'. poll_timers clock x = wake (PluvioWaker QNormal target) (x\<lparr>clock_reads := r, m_world := w\<rparr>) \<and>
       timer_done clock deadline v (Suc r') w' \<and> (\<forall>y :: (unit, 'p, waker timer_state) machine. clock_reads y = Suc r \<longrightarrow> m_world y = w \<longrightarrow>
         sleeper_poll clock (PluvioWaker QNormal target) f y = Inr (Ready v, f', y\<lparr>clock_reads := r', m_world := w'\<rparr>)))"
proof -
  obtain d h ctr where w: "mono clock" "deadline \<le> clock N" "N \<le> n + clock_reads x" "T = 0" "f = Sleeping d" "dl_deadline d = deadline"
    "dl_handle d = Some h" "th_deadline h = deadline" "m_world x = (ctr, \<lparr>timers = [(h, PluvioWaker QNormal target)], timer_count_atomic = 1\<rparr>)"
    using assms by (auto simp: timer_waits_def)
  note p = poll_one_timer[OF w(9), of clock]
  show ?thesis
  proof (cases "clock (clock_reads x) < deadline")
    case True
    then have "\<not> N \<le> clock_reads x" using w(2) monoD[OF w(1), of N "clock_reads x"] by auto
    moreover have "poll_timers clock x = Inr (x\<lparr>clock_reads := Suc (clock_reads x), m_world := m_world x\<rparr>)" using p(1) True w(8) by simp
    moreover have "timer_waits clock N deadline target (n - 1) 0 f (Suc (clock_reads x)) (m_world x)"
      using w calculation(1) by (auto simp: timer_waits_def)
    ultimately show ?thesis using w(3)
      by (intro disjI1 exI[of _ "Suc (clock_reads x)"] exI[of _ "m_world x"] exI[of _ 0] conjI) simp_all
  next
    case False
    let ?world = "(ctr, \<lparr>timers = [], timer_count_atomic = 0\<rparr>) :: waker timer_state"
    have "sleeper_poll clock (PluvioWaker QNormal target) f y = Inr (Ready (), Sleeping d, y\<lparr>clock_reads := clock_reads x + 3, m_world := ?world\<rparr>)"
      if "clock_reads y = Suc (Suc (clock_reads x))" "m_world y = ?world" for y :: "(unit, 'p, waker timer_state) machine"
    proof -
      have "deadline \<le> clock (clock_reads y)" using False monoD[OF w(1), of "clock_reads x" "clock_reads y"] that(1) by simp
      then show ?thesis using sleeper_polls(3)[of d clock y] w(5-7) that by (simp add: delay_drop_def cancel_timer_def Let_def)
    qed
    moreover have "timer_done clock deadline () (Suc (clock_reads x + 3)) ?world"
      using False by (auto simp: timer_done_def intro!: exI[of _ "clock_reads x"])
    ultimately show ?thesis using p(2) False w(8)
      by (intro disjI2 exI[of _ "Suc (clock_reads x)"] exI[of _ ?world] exI[of _ "()"] exI[of _ "Sleeping d"] exI[of _ "clock_reads x + 3"]) auto
  qed
qed

interpretation sleeping: waiting_on_reactor "timer_env S clock var order" "timer_waits clock N deadline" "timer_done clock deadline" 0
  for S clock var order N deadline
  by unfold_locales (use timer_waits_running timer_waits_poll in \<open>simp_all, blast+\<close>)

text \<open>A runtime with the timer reactor, and the first poll of the sleep on it.\<close>

abbreviation timer_machine ::
  "(sleeper, unit, 'p, waker timer_state) env \<Rightarrow> nat \<Rightarrow> scheduling_config \<Rightarrow> u64 \<Rightarrow> string \<Rightarrow> (unit, 'p, waker timer_state) machine" where
  "timer_machine E queue_size config ctr nm \<equiv> sole_machine E queue_size config (ctr, timer_reactor_new) nm"

lemma first_sleep_poll:
  fixes y :: "(unit, 'p, waker timer_state) machine"
  assumes "clock_reads y = 1" "m_world y = (ctr, timer_reactor_new)" "clock 1 + duration = D"
  shows "clock 2 < D \<Longrightarrow> sleeper_poll clock k (SleepFor duration) y =
      Inr (Pending, Sleeping \<lparr>dl_deadline = D, dl_handle = Some (TimerHandle D ctr)\<rparr>,
        y\<lparr>clock_reads := 3, m_world := (ctr + 1, \<lparr>timers = [(TimerHandle D ctr, k)], timer_count_atomic = 1\<rparr>)\<rparr>)"
    "D \<le> clock 2 \<Longrightarrow> sleeper_poll clock k (SleepFor duration) y =
      Inr (Ready (), Sleeping \<lparr>dl_deadline = D, dl_handle = None\<rparr>, y\<lparr>clock_reads := 3, m_world := (ctr, timer_reactor_new)\<rparr>)"
  using sleeper_polls(1)[of clock y duration ctr k] sleeper_polls(2)[of clock y duration k] assms by (simp_all add: eval_nat_numeral)

lemma timer_stopped: "timer_status timer_reactor_new = Stopped" "m_world x = (ctr, timer_reactor_new) \<Longrightarrow> e_reactor_status (timer_env S clock var order) 0 x = Stopped"
  by (simp_all add: timer_status_def timer_reactor_new_def)

text \<open>
  C6 (liveness). Sleeping works from the first poll to the result: on a runtime with the timer reactor registered, for a
  clock that does not run backwards and has reached the deadline at its reading \<open>N\<close>, \<open>block_on\<close> of
  a sleep returns, not before the deadline, with no task and no timer left, provided the limit of
  iterations without progress exceeds the time a cached status and the polling interval can hide the
  reactor.
\<close>

theorem block_on_sleep_returns:
  fixes S :: "('p, sleeper task option) slab_ops"
  assumes S: "slab_ok S" and order: "\<And>ks. mset (order ks) = mset ks" and E: "E = timer_env S clock var order"
    and clock: "mono clock" "clock 1 + duration \<le> clock N"
    and cfg: "reactor_poll_interval cfg \<noteq> 0" "task_batch_size cfg \<noteq> 0"
    and n: "n = max 1 (unat (status_cache_iterations cfg)) + unat (reactor_poll_interval cfg)"
    and limit: "n \<le> unat (env_u64 E ''PLUVIO_MAX_STUCK_ITERATIONS'' 1000000)" "n + N * unat (reactor_poll_interval cfg) < 2 ^ 64"
  shows "\<exists>m' c. block_on_with_name_and_runtime E nm' (SleepFor duration) (timer_machine E qs cfg ctr nm) = Some (Inr ((), m')) \<and>
    c < clock_reads m' \<and> clock 1 + duration \<le> clock c \<and> sl_get S (m_pool m') = Map.empty \<and> timers (snd (m_world m')) = []"
proof -
  let ?D = "clock 1 + duration"
  have o: "e_hash_order E [nm] = [nm]" using order[of "[nm]"] by (simp add: E)
  have stopped: "e_reactor_status E 0 x = Stopped" if "m_world x = (ctr, timer_reactor_new)" for x
    using timer_stopped(2)[OF that] by (simp add: E)
  have start: "(\<exists>f' r w T. (\<forall>y. clock_reads y = 1 \<longrightarrow> m_world y = (ctr, timer_reactor_new) \<longrightarrow>
        e_user_poll E (PluvioWaker QNormal target) (SleepFor duration) y = Inr (Pending, f', y\<lparr>clock_reads := r, m_world := w\<rparr>)) \<and>
        timer_waits clock N ?D target (N - 4) T f' (Suc r) w \<and> T \<le> Suc r + 0) \<or>
      (\<exists>v f' r w. (\<forall>y. clock_reads y = 1 \<longrightarrow> m_world y = (ctr, timer_reactor_new) \<longrightarrow>
        e_user_poll E (PluvioWaker QNormal target) (SleepFor duration) y = Inr (Ready v, f', y\<lparr>clock_reads := r, m_world := w\<rparr>)) \<and>
        timer_done clock ?D v (Suc r) w)" for target
  proof (cases "clock 2 < ?D")
    case True
    let ?h = "TimerHandle ?D ctr" and ?k = "PluvioWaker QNormal target"
    have "timer_waits clock N ?D target (N - 4) 0 (Sleeping \<lparr>dl_deadline = ?D, dl_handle = Some ?h\<rparr>) (Suc 3)
        (ctr + 1, \<lparr>timers = [(?h, ?k)], timer_count_atomic = 1\<rparr>)"
      using clock by (simp add: timer_waits_def)
    then show ?thesis unfolding E timer_env_sel using first_sleep_poll(1)[OF _ _ refl True] by blast
  next
    case False
    then have le: "?D \<le> clock 2" by simp
    then have "timer_done clock ?D () (Suc 3) (ctr, timer_reactor_new)"
      by (auto simp: timer_done_def timer_reactor_new_def intro!: exI[of _ 2])
    then show ?thesis unfolding E timer_env_sel using first_sleep_poll(2)[OF _ _ refl le] by blast
  qed
  have "(N - 4) * unat (reactor_poll_interval cfg) \<le> N * unat (reactor_poll_interval cfg)" by simp
  then have lim: "n + (N - 4) * unat (reactor_poll_interval cfg) < 2 ^ 64" using limit(2) by linarith
  have SE: "slab_ok (e_slab E)" using S by (simp add: E)
  have "\<exists>v m'. block_on_with_name_and_runtime E nm' (SleepFor duration) (timer_machine E qs cfg ctr nm) = Some (Inr (v, m')) \<and>
      sl_get (e_slab E) (m_pool m') = Map.empty \<and> timer_done clock ?D v (clock_reads m') (m_world m')"
    by (rule sleeping.block_on_returns[where S = S and clock = clock and var = var and order = order and n = "N - 4" and i = "unat (reactor_poll_interval cfg)" and L = n, folded E, OF SE o cfg refl _ refl limit(1) _ stopped start])
      (use n lim in simp_all)
  then show ?thesis by (auto simp: timer_done_def E)
qed

text \<open>
  C40 (error). A status is cached for a number of iterations, not for a time: with a limit of iterations without progress
  below that number, \<open>block_on\<close> reports a deadlock while the timer its task waits for is pending, because
  the reactor that would wake it still counts as stopped.
\<close>

theorem block_on_sleep_false_deadlock:
  fixes S :: "('p, sleeper task option) slab_ops"
  assumes S: "slab_ok S" and order: "\<And>ks. mset (order ks) = mset ks" and E: "E = timer_env S clock var order"
    and clock: "clock 2 < clock 1 + duration"
    and cfg: "reactor_poll_interval cfg \<noteq> 0" "task_batch_size cfg \<noteq> 0"
    and limit: "env_u64 E ''PLUVIO_MAX_STUCK_ITERATIONS'' 1000000 < status_cache_iterations cfg"
  shows "block_on_with_name_and_runtime E nm' (SleepFor duration) (timer_machine E qs cfg ctr nm) =
    Some (Inl (Panic ''block_on deadlock detected''))"
proof -
  let ?ms = "env_u64 E ''PLUVIO_MAX_STUCK_ITERATIONS'' 1000000" and ?c = "status_cache_iterations cfg" and ?any = "\<lambda>_ _ _. True"
  have o: "e_hash_order E [nm] = [nm]" using order[of "[nm]"] by (simp add: E)
  have SE: "slab_ok (e_slab E)" using S by (simp add: E)
  obtain target m where m: "queues_wf m" "contents (polling_queue m) = []" "contents (task_queue m) = [target]"
    "sl_get (e_slab E) (m_pool m) = [target \<mapsto> Some (task_new (BlockOn 0 0 (SleepFor duration)) QNormal (Some nm'))]"
    "shared_heap m = [shared_state_new]" "result_holders m = [None]" "m_reactors m = [(nm, sole_wrapper 0 Stopped 0)]"
    "m_iteration m = 0" "clock_reads m = 0" "m_world m = (ctr, timer_reactor_new)" "m_config m = cfg" "m_os m = []" and
    run: "block_on_with_name_and_runtime E nm' (SleepFor duration) (timer_machine E qs cfg ctr nm) =
      (case block_loop E ?ms target 0 m of
         None \<Rightarrow> None
       | Some (Inl e) \<Rightarrow> Some (Inl e)
       | Some (Inr m) \<Rightarrow>
           (case result_holders m ! 0 of
              None \<Rightarrow> Some (Inl (Panic ''Task completed but result was not set''))
            | Some v \<Rightarrow> Some (Inr (v, m\<lparr>result_holders := (result_holders m)[0 := None]\<rparr>))))"
    by (rule block_on_start[OF SE])
  have iv: "reactor_poll_interval (m_config m) \<noteq> 0" "task_batch_size (m_config m) \<noteq> 0" using cfg m(11) by simp_all
  have ms: "unat ?ms < unat ?c" "unat ?ms + 1 < 2 ^ 64"
    using limit unat_u64_bound[of ?c] by (simp_all add: u64_less_iff)
  have "\<exists>m1. block_iteration E m = Some (Inr (False, m1)) \<and> parked E nm target 0 ?any Stopped (status_cache_iterations (m_config m)) m1 \<and>
      m_config m1 = m_config m \<and> m_iteration m1 = 1 \<and> clock_reads m1 = Suc 3 \<and> m_os m1 = m_os m"
    by (rule first_iteration(1)[OF SE o iv m(1-10)])
      (use clock in \<open>simp_all add: E timer_stopped first_sleep_poll(1)[OF _ _ refl]\<close>)
  then obtain m1 where m1: "block_iteration E m = Some (Inr (False, m1))" "parked E nm target 0 ?any Stopped ?c m1" "m_config m1 = cfg" "m_iteration m1 = 1"
    unfolding m(11) by blast
  have pool: "sl_get (e_slab E) (m_pool m) target \<noteq> None" using m(4) by simp
  let ?m = "m1\<lparr>m_os := m_os m1 @ [YieldNow]\<rparr>"
  have "block_loop E ?ms target 0 m = Some (Inl (Panic ''block_on deadlock detected''))"
  proof (cases "unat ?ms = 0")
    case True
    then show ?thesis using m1(1) pool by (subst block_loop.simps) (simp add: unsigned_eq_0_iff)
  next
    case False
    then have step: "block_loop E ?ms target 0 m = block_loop E ?ms target 1 ?m" using block_loop_idle[OF pool m1(1), of 0 ?ms] by simp
    show ?thesis unfolding step
    proof (rule loop_panics[OF o cfg(1) ms(2)])
      show "parked E nm target 0 ?any Stopped ?c ?m" using m1(2) by simp
      show "\<forall>i. unat (m_iteration ?m) \<le> i \<longrightarrow> i \<le> unat (m_iteration ?m) + (unat ?ms - unat (1 :: u64)) \<longrightarrow>
          \<not> polled_at Stopped ?c (unat (reactor_poll_interval cfg)) i"
        using m1(4) ms(1) False by (auto simp: polled_at_def)
    qed (use m1(3,4) ms False in simp_all)
  qed
  then show ?thesis unfolding run by simp
qed

text \<open>The default configuration and limits; a clock that moves one unit at each reading.\<close>

theorem block_on_sleep_returns_witness:
  "\<exists>m'. block_on_with_name_and_runtime (timer_env list_slab id (\<lambda>_. None) id) ''main'' (SleepFor 5)
     (timer_machine (timer_env list_slab id (\<lambda>_. None) id) 4 scheduling_config_default 1 ''timer'') = Some (Inr ((), m')) \<and>
     timers (snd (m_world m')) = []"
proof -
  let ?E = "timer_env list_slab id (\<lambda>_. None) id" and ?c = scheduling_config_default
  have l: "env_u64 ?E ''PLUVIO_MAX_STUCK_ITERATIONS'' 1000000 = 1000000" by (simp add: env_u64_def timer_env_def)
  have c: "reactor_poll_interval ?c = 8" "task_batch_size ?c = 16" "status_cache_iterations ?c = 100"
    by (simp_all add: scheduling_config_default_def)
  have "mono (id :: nat \<Rightarrow> nat)" by (simp add: mono_def)
  from block_on_sleep_returns[where var = "\<lambda>_. None" and order = id and N = 6 and cfg = ?c and nm = "''timer''" and nm' = "''main''" and qs = 4 and ctr = 1 and duration = 5,
      OF slab_ok_list _ refl this _ _ _ refl]
  show ?thesis using l c by auto
qed

text \<open>The default limit, with a cache of two million iterations.\<close>

theorem block_on_sleep_false_deadlock_witness:
  "block_on_with_name_and_runtime (timer_env list_slab id (\<lambda>_. None) id) ''main'' (SleepFor 5)
     (timer_machine (timer_env list_slab id (\<lambda>_. None) id) 4 (scheduling_config_default\<lparr>status_cache_iterations := 2000000\<rparr>) 1 ''timer'') =
   Some (Inl (Panic ''block_on deadlock detected''))"
proof -
  let ?E = "timer_env list_slab id (\<lambda>_. None) id" and ?c = "scheduling_config_default\<lparr>status_cache_iterations := 2000000\<rparr>"
  have l: "env_u64 ?E ''PLUVIO_MAX_STUCK_ITERATIONS'' 1000000 < status_cache_iterations ?c" by (simp add: env_u64_def timer_env_def)
  have c: "reactor_poll_interval ?c \<noteq> 0" "task_batch_size ?c \<noteq> 0" by (simp_all add: scheduling_config_default_def)
  show ?thesis by (rule block_on_sleep_false_deadlock[OF slab_ok_list _ refl _ c l]) simp_all
qed

end
