(* ===== verification/Uring_Alloc.thy ===== *)
theory Uring_Alloc
  imports Prelude Complex_Main
begin

section \<open>The fixed-buffer allocator (\<open>pluvio_uring/src/allocator.rs\<close>)\<close>

text \<open>
  The pool of preallocated buffers, lending and returning them, and the queue of waiting acquirers.
  The pool is a list whose last element is the top of the \<open>Vec\<close>; the shared
  \<open>Rc<RefCell<LazyAcquireState>>\<close> cells are named by numbers; waking appends to a log. The page size,
  the memory allocator and the kernel's answer to \<open>register_buffers\<close> are parameters.
\<close>

subsection \<open>Data\<close>

record fixed_buffer_inner =
  fb_addr :: nat
  fb_bytes :: "u8 list"
  fb_index :: nat
  fb_lkey :: u32
  fb_rkey :: u32

record fixed_buffer =
  fx_buffer :: "fixed_buffer_inner option"

record 'w allocator =
  al_buffers :: "fixed_buffer_inner list"
  al_capacity :: nat
  al_queue :: "nat list"
  al_waker :: "nat \<Rightarrow> 'w option"
  al_wakes :: "'w list"

text \<open>\<open>lazy_state\<close> is the cell a \<open>LazyAcquire\<close> shares with the queue.\<close>

record lazy_acquire =
  la_state :: nat

text \<open>What the process asks of the system: the page size, and the address of the \<open>i\<close>th allocation.\<close>

record system =
  sys_page_size :: int
  sys_alloc :: "nat \<Rightarrow> nat \<Rightarrow> nat \<Rightarrow> nat"
  sys_register_buffers :: "(nat \<times> nat) list \<Rightarrow> bool"

subsection \<open>Construction\<close>

definition page_size :: "system \<Rightarrow> nat run" where
  "page_size sys =
     (if sys_page_size sys > 0 then Inr (nat (sys_page_size sys)) else Inl (Panic ''sysconf(_SC_PAGESIZE) failed''))"

text \<open>\<open>Layout::from_size_align\<close>: a power of two, and a size that does not overflow when rounded up to it.\<close>

definition layout_ok :: "nat \<Rightarrow> nat \<Rightarrow> bool" where
  "layout_ok sz align \<longleftrightarrow> (\<exists>k \<in> set [0..<64]. align = 2 ^ k) \<and> sz + (align - 1) < 2 ^ 63"

definition new_aligned_buffer :: "system \<Rightarrow> nat \<Rightarrow> nat \<Rightarrow> nat \<Rightarrow> (nat \<times> u8 list) run" where
  "new_aligned_buffer sys i alignment len =
     (if len = 0 then Inl (Panic ''buffer_size must be greater than zero when allocating fixed buffers'')
      else if \<not> layout_ok len alignment then Inl (Panic ''invalid layout for aligned buffer'')
      else let ptr = sys_alloc sys i len alignment
           in if ptr = 0 then Inl (Abort ''handle_alloc_error'') else Inr (ptr, replicate len 0))"

fun alloc_buffers :: "system \<Rightarrow> nat \<Rightarrow> nat \<Rightarrow> nat list \<Rightarrow> fixed_buffer_inner list run" where
  "alloc_buffers sys page len [] = Inr []"
| "alloc_buffers sys page len (i # is) =
     run_bind (new_aligned_buffer sys i page len) (\<lambda>(ptr, bytes).
     run_bind (alloc_buffers sys page len is) (\<lambda>rest.
     Inr (\<lparr>fb_addr = ptr, fb_bytes = bytes, fb_index = i, fb_lkey = 0, fb_rkey = 0\<rparr> # rest)))"

definition new_without_uring :: "system \<Rightarrow> nat \<Rightarrow> nat \<Rightarrow> 'w allocator run" where
  "new_without_uring sys queue_size buffer_size =
     run_bind (page_size sys) (\<lambda>page.
     run_bind (alloc_buffers sys page buffer_size [0..<queue_size]) (\<lambda>buffers.
     Inr \<lparr>al_buffers = buffers, al_capacity = queue_size, al_queue = [], al_waker = \<lambda>_. None, al_wakes = []\<rparr>))"

definition alloc_new :: "system \<Rightarrow> nat \<Rightarrow> nat \<Rightarrow> 'w allocator run" where
  "alloc_new sys queue_size buffer_size =
     run_bind (new_without_uring sys queue_size buffer_size) (\<lambda>al.
     let iovecs = map (\<lambda>b. (fb_addr b, length (fb_bytes b))) (al_buffers al)
     in if sys_register_buffers sys iovecs then Inr al else Inl (Panic ''Failed to register buffers''))"

subsection \<open>Operations\<close>

fun register_keys ::
  "('s \<Rightarrow> nat \<Rightarrow> nat \<Rightarrow> ('e + u32 \<times> u32) \<times> 's) \<Rightarrow> 's \<Rightarrow> fixed_buffer_inner list \<Rightarrow>
   ('e + unit) \<times> fixed_buffer_inner list \<times> 's" where
  "register_keys reg s [] = (Inr (), [], s)"
| "register_keys reg s (b # bs) =
     (case reg s (fb_addr b) (length (fb_bytes b)) of
        (Inl e, s1) \<Rightarrow> (Inl e, b # bs, s1)
      | (Inr (lkey, rkey), s1) \<Rightarrow>
          (case register_keys reg s1 bs of (r, bs', s2) \<Rightarrow> (r, b\<lparr>fb_lkey := lkey, fb_rkey := rkey\<rparr> # bs', s2)))"

definition register_rdma_keys ::
  "('s \<Rightarrow> nat \<Rightarrow> nat \<Rightarrow> ('e + u32 \<times> u32) \<times> 's) \<Rightarrow> 's \<Rightarrow> 'w allocator \<Rightarrow> ('e + unit) \<times> 'w allocator \<times> 's" where
  "register_rdma_keys reg s al =
     (case register_keys reg s (al_buffers al) of (r, bs, s') \<Rightarrow> (r, al\<lparr>al_buffers := bs\<rparr>, s'))"

definition acquire_inner :: "'w allocator \<Rightarrow> fixed_buffer option \<times> 'w allocator" where
  "acquire_inner al =
     (if al_buffers al = [] then (None, al)
      else (Some \<lparr>fx_buffer = Some (last (al_buffers al))\<rparr>, al\<lparr>al_buffers := butlast (al_buffers al)\<rparr>))"

definition try_acquire :: "'w allocator \<Rightarrow> fixed_buffer option \<times> 'w allocator" where
  "try_acquire al = acquire_inner al"

definition lazy_new :: "nat \<Rightarrow> 'w allocator \<Rightarrow> lazy_acquire \<times> 'w allocator" where
  "lazy_new cell al = (\<lparr>la_state = cell\<rparr>, al\<lparr>al_waker := (al_waker al)(cell := None)\<rparr>)"

definition lazy_poll :: "'w \<Rightarrow> lazy_acquire \<Rightarrow> 'w allocator \<Rightarrow> fixed_buffer poll \<times> 'w allocator" where
  "lazy_poll k f al =
     (case acquire_inner al of
        (Some buffer, al1) \<Rightarrow> (Ready buffer, al1)
      | (None, al1) \<Rightarrow>
          (Pending, al1\<lparr>al_waker := (al_waker al1)(la_state f := Some k), al_queue := al_queue al1 @ [la_state f]\<rparr>))"

definition buffer_drop :: "fixed_buffer \<Rightarrow> 'w allocator \<Rightarrow> 'w allocator" where
  "buffer_drop b al =
     (let al1 = (case fx_buffer b of Some buffer \<Rightarrow> al\<lparr>al_buffers := al_buffers al @ [buffer]\<rparr> | None \<Rightarrow> al)
      in case al_queue al1 of
           [] \<Rightarrow> al1
         | state # rest \<Rightarrow>
             al1\<lparr>al_queue := rest, al_waker := (al_waker al1)(state := None),
                 al_wakes := al_wakes al1 @ (case al_waker al1 state of Some k \<Rightarrow> [k] | None \<Rightarrow> [])\<rparr>)"

text \<open>The exact percentage whose rounding to a \<open>f64\<close> is returned.\<close>

definition used_buffers :: "'w allocator \<Rightarrow> rat" where
  "used_buffers al =
     (let total = al_capacity al; free = length (al_buffers al)
      in if total = 0 then 0 else of_nat (total - free) / of_nat total * 100)"

definition fill_buffers :: "u8 \<Rightarrow> 'w allocator \<Rightarrow> 'w allocator" where
  "fill_buffers byte al = al\<lparr>al_buffers := map (\<lambda>b. b\<lparr>fb_bytes := map (\<lambda>_. byte) (fb_bytes b)\<rparr>) (al_buffers al)\<rparr>"

text \<open>Dropping the allocator frees the pool from the top; the result is the addresses in that order.\<close>

function alloc_drop :: "'w allocator \<Rightarrow> nat list" where
  "alloc_drop al =
     (if al_buffers al = [] then []
      else fb_addr (last (al_buffers al)) # alloc_drop (al\<lparr>al_buffers := butlast (al_buffers al)\<rparr>))"
  by pat_completeness auto
termination by (relation "measure (length \<circ> al_buffers)") auto

declare alloc_drop.simps [simp del]

subsection \<open>Accessors of a handle\<close>

definition fx_as_ptr :: "fixed_buffer \<Rightarrow> nat" where
  "fx_as_ptr b = (case fx_buffer b of None \<Rightarrow> 0 | Some i \<Rightarrow> fb_addr i)"

definition fx_len :: "fixed_buffer \<Rightarrow> nat" where
  "fx_len b = (case fx_buffer b of None \<Rightarrow> 0 | Some i \<Rightarrow> length (fb_bytes i))"

definition fx_index :: "fixed_buffer \<Rightarrow> nat" where
  "fx_index b = (case fx_buffer b of None \<Rightarrow> 0 | Some i \<Rightarrow> fb_index i)"

definition fx_as_slice :: "fixed_buffer \<Rightarrow> u8 list" where
  "fx_as_slice b = (case fx_buffer b of None \<Rightarrow> [] | Some i \<Rightarrow> fb_bytes i)"

definition fx_write :: "u8 list \<Rightarrow> fixed_buffer \<Rightarrow> fixed_buffer" where
  "fx_write bytes b =
     (case fx_buffer b of None \<Rightarrow> b
      | Some i \<Rightarrow> b\<lparr>fx_buffer := Some (i\<lparr>fb_bytes := take (length (fb_bytes i)) bytes @ drop (length bytes) (fb_bytes i)\<rparr>)\<rparr>)"

definition fx_rdma_lkey :: "fixed_buffer \<Rightarrow> u32" where
  "fx_rdma_lkey b = (case fx_buffer b of None \<Rightarrow> 0 | Some i \<Rightarrow> fb_lkey i)"

definition fx_rdma_rkey :: "fixed_buffer \<Rightarrow> u32" where
  "fx_rdma_rkey b = (case fx_buffer b of None \<Rightarrow> 0 | Some i \<Rightarrow> fb_rkey i)"

subsection \<open>Histories\<close>

text \<open>
  Every way tasks use one allocator: futures are created, polled and dropped, buffers are taken, written
  through their handles and returned. A future that is ready is consumed.
\<close>

datatype 'w pool_op = ANew | APoll nat 'w | ACancel nat | ATry | AWrite nat "u8 list" | AFill u8 | ADrop nat

record 'w pool_hist =
  ph_alloc :: "'w allocator"
  ph_live :: "(nat \<times> fixed_buffer) list"
  ph_futs :: "nat \<rightharpoonup> lazy_acquire"
  ph_next :: nat

definition pool_start :: "'w allocator \<Rightarrow> 'w pool_hist" where
  "pool_start al = \<lparr>ph_alloc = al, ph_live = [], ph_futs = Map.empty, ph_next = 0\<rparr>"

text \<open>The owner of a buffer keeps its handle under a fresh name.\<close>

definition hold :: "fixed_buffer \<Rightarrow> 'w allocator \<Rightarrow> 'w pool_hist \<Rightarrow> 'w pool_hist" where
  "hold b al h = h\<lparr>ph_alloc := al, ph_live := (ph_next h, b) # ph_live h, ph_next := Suc (ph_next h)\<rparr>"

fun pool_step :: "'w pool_op \<Rightarrow> 'w pool_hist \<Rightarrow> 'w pool_hist" where
  "pool_step ANew h =
     (case lazy_new (ph_next h) (ph_alloc h) of (f, al) \<Rightarrow>
        h\<lparr>ph_alloc := al, ph_futs := (ph_futs h)(ph_next h \<mapsto> f), ph_next := Suc (ph_next h)\<rparr>)"
| "pool_step (APoll i k) h =
     (case ph_futs h i of None \<Rightarrow> h
      | Some f \<Rightarrow> (case lazy_poll k f (ph_alloc h) of
            (Ready b, al) \<Rightarrow> hold b al (h\<lparr>ph_futs := (ph_futs h)(i := None)\<rparr>)
          | (Pending, al) \<Rightarrow> h\<lparr>ph_alloc := al\<rparr>))"
| "pool_step (ACancel i) h = h\<lparr>ph_futs := (ph_futs h)(i := None)\<rparr>"
| "pool_step ATry h =
     (case try_acquire (ph_alloc h) of (Some b, al) \<Rightarrow> hold b al h | (None, al) \<Rightarrow> h\<lparr>ph_alloc := al\<rparr>)"
| "pool_step (AWrite i bytes) h =
     (case map_of (ph_live h) i of None \<Rightarrow> h
      | Some b \<Rightarrow> h\<lparr>ph_live := AList.update i (fx_write bytes b) (ph_live h)\<rparr>)"
| "pool_step (AFill byte) h = h\<lparr>ph_alloc := fill_buffers byte (ph_alloc h)\<rparr>"
| "pool_step (ADrop i) h =
     (case map_of (ph_live h) i of None \<Rightarrow> h
      | Some b \<Rightarrow> h\<lparr>ph_alloc := buffer_drop b (ph_alloc h), ph_live := AList.delete i (ph_live h)\<rparr>)"

abbreviation pool_steps :: "'w pool_op list \<Rightarrow> 'w pool_hist \<Rightarrow> 'w pool_hist" where
  "pool_steps ops h \<equiv> fold pool_step ops h"

text \<open>What identifies a buffer: its memory, its registered index and its length.\<close>

definition ident :: "fixed_buffer_inner \<Rightarrow> nat \<times> nat \<times> nat" where
  "ident b = (fb_addr b, fb_index b, length (fb_bytes b))"

definition lent :: "'w pool_hist \<Rightarrow> (nat \<times> nat \<times> nat) multiset" where
  "lent h = mset (map (\<lambda>(_, b). ident (the (fx_buffer b))) (ph_live h))"

definition pooled :: "'w pool_hist \<Rightarrow> (nat \<times> nat \<times> nat) multiset" where
  "pooled h = mset (map ident (al_buffers (ph_alloc h)))"

definition pool_ok :: "'w pool_hist \<Rightarrow> bool" where
  "pool_ok h \<longleftrightarrow> distinct (map fst (ph_live h)) \<and>
     (\<forall>i b. (i, b) \<in> set (ph_live h) \<longrightarrow> i < ph_next h \<and> fx_buffer b \<noteq> None)"

lemma lent_delete:
  assumes "pool_ok h" "map_of (ph_live h) i = Some b"
  shows "lent h = add_mset (ident (the (fx_buffer b))) (lent (h\<lparr>ph_live := AList.delete i (ph_live h)\<rparr>))"
  using assms mset_delete[of "ph_live h" i b] by (simp add: lent_def pool_ok_def)

lemma pool_ok_hold: "pool_ok h \<Longrightarrow> fx_buffer b \<noteq> None \<Longrightarrow> pool_ok (hold b al h)"
  by (force simp: pool_ok_def hold_def)

lemma acquire_inner_cases:
  assumes "acquire_inner al = (r, al')"
  shows "(r = None \<and> al_buffers al = [] \<and> al' = al) \<or>
    (\<exists>b. r = Some \<lparr>fx_buffer = Some b\<rparr> \<and> al_buffers al = al_buffers al' @ [b] \<and> al' = al\<lparr>al_buffers := butlast (al_buffers al)\<rparr>)"
  using assms by (auto simp: acquire_inner_def split: if_splits)

lemma lazy_poll_cases:
  assumes "lazy_poll k f al = (r, al')"
  shows "(r = Pending \<and> al_buffers al = [] \<and> al_buffers al' = []) \<or>
    (\<exists>b. r = Ready \<lparr>fx_buffer = Some b\<rparr> \<and> al_buffers al = al_buffers al' @ [b])"
  using assms acquire_inner_cases[of al] by (auto simp: lazy_poll_def split: prod.splits option.splits)

lemma buffers_buffer_drop: "al_buffers (buffer_drop b al) = al_buffers al @ (case fx_buffer b of Some i \<Rightarrow> [i] | None \<Rightarrow> [])"
  by (simp add: buffer_drop_def Let_def split: option.splits list.splits)

lemma ident_write [simp]: "ident (i\<lparr>fb_bytes := take (length (fb_bytes i)) bytes @ drop (length bytes) (fb_bytes i)\<rparr>) = ident i"
  by (simp add: ident_def)

lemma conserve_hold:
  assumes "al_buffers (ph_alloc h) = al_buffers al @ [b]"
  shows "pooled (hold \<lparr>fx_buffer = Some b\<rparr> al h) + lent (hold \<lparr>fx_buffer = Some b\<rparr> al h) = pooled h + lent h"
  using assms by (simp add: pooled_def lent_def hold_def)

lemma pool_step_ok:
  assumes ok: "pool_ok h"
  shows "pool_ok (pool_step op h) \<and> pooled (pool_step op h) + lent (pool_step op h) = pooled h + lent h"
proof (cases op)
  case ANew
  then show ?thesis using ok by (force simp: pool_ok_def pooled_def lent_def lazy_new_def)
next
  case (APoll i k)
  show ?thesis
  proof (cases "ph_futs h i")
    case (Some f)
    let ?h = "h\<lparr>ph_futs := (ph_futs h)(i := None)\<rparr>"
    obtain r al where p: "lazy_poll k f (ph_alloc h) = (r, al)" by fastforce
    have h: "pool_ok ?h" "pooled ?h = pooled h" "lent ?h = lent h" using ok by (simp_all add: pool_ok_def pooled_def lent_def)
    from lazy_poll_cases[OF p] show ?thesis
    proof
      assume "\<exists>b. r = Ready \<lparr>fx_buffer = Some b\<rparr> \<and> al_buffers (ph_alloc h) = al_buffers al @ [b]"
      then obtain b where b: "r = Ready \<lparr>fx_buffer = Some b\<rparr>" "al_buffers (ph_alloc ?h) = al_buffers al @ [b]" by auto
      then show ?thesis using APoll Some p pool_ok_hold[OF h(1), of "\<lparr>fx_buffer = Some b\<rparr>" al] conserve_hold[OF b(2)] h by simp
    qed (use APoll Some p ok in \<open>auto simp: pool_ok_def pooled_def lent_def\<close>)
  qed (use APoll ok in simp)
next
  case ATry
  obtain r al where p: "try_acquire (ph_alloc h) = (r, al)" by fastforce
  from acquire_inner_cases[OF p[unfolded try_acquire_def]] show ?thesis
  proof
    assume "\<exists>b. r = Some \<lparr>fx_buffer = Some b\<rparr> \<and> al_buffers (ph_alloc h) = al_buffers al @ [b] \<and>
      al = (ph_alloc h)\<lparr>al_buffers := butlast (al_buffers (ph_alloc h))\<rparr>"
    then obtain b where b: "r = Some \<lparr>fx_buffer = Some b\<rparr>" "al_buffers (ph_alloc h) = al_buffers al @ [b]" by auto
    then show ?thesis using ATry p pool_ok_hold[OF ok, of "\<lparr>fx_buffer = Some b\<rparr>" al] conserve_hold[OF b(2)] by simp
  qed (use ATry p ok in \<open>auto simp: pool_ok_def pooled_def lent_def\<close>)
next
  case (AWrite i bytes)
  show ?thesis
  proof (cases "map_of (ph_live h) i")
    case (Some b)
    then obtain x where x: "fx_buffer b = Some x" "(i, b) \<in> set (ph_live h)" using ok by (auto simp: pool_ok_def dest: map_of_SomeD)
    have d: "distinct (map fst (ph_live h))" using ok by (simp add: pool_ok_def)
    let ?h = "h\<lparr>ph_live := AList.update i (fx_write bytes b) (ph_live h)\<rparr>"
    have "lent ?h = lent h"
      using lent_delete[OF ok Some] mset_update[OF d Some, of "fx_write bytes b"] x(1) by (simp add: lent_def fx_write_def)
    moreover have "pool_ok ?h" using ok x set_update_sub[of i "fx_write bytes b" "ph_live h"] d
      by (auto simp: pool_ok_def fx_write_def distinct_update)
    ultimately show ?thesis using AWrite Some by (simp add: pooled_def)
  qed (use AWrite ok in simp)
next
  case (AFill byte)
  then show ?thesis using ok by (simp add: pool_ok_def pooled_def lent_def fill_buffers_def ident_def [abs_def] o_def)
next
  case (ADrop i)
  show ?thesis
  proof (cases "map_of (ph_live h) i")
    case (Some b)
    then obtain x where x: "fx_buffer b = Some x" using ok by (auto simp: pool_ok_def dest: map_of_SomeD)
    let ?h = "h\<lparr>ph_alloc := buffer_drop b (ph_alloc h), ph_live := AList.delete i (ph_live h)\<rparr>"
    have "pooled ?h + lent ?h = pooled h + lent h"
      using lent_delete[OF ok Some] x by (simp add: pooled_def lent_def buffers_buffer_drop)
    moreover have "pool_ok ?h" using ok set_delete_sub[of i "ph_live h"] by (auto simp: pool_ok_def distinct_delete)
    ultimately show ?thesis using ADrop Some by simp
  qed (use ADrop ok in simp)
qed (use ok in \<open>simp add: pool_ok_def pooled_def lent_def\<close>)

lemma pool_steps_ok: "pool_ok h \<Longrightarrow> pool_ok (pool_steps ops h) \<and> pooled (pool_steps ops h) + lent (pool_steps ops h) = pooled h + lent h"
proof (induction ops arbitrary: h)
  case (Cons op ops)
  then show ?case using pool_step_ok[of h op] by simp
qed simp

lemma alloc_drop_addrs: "alloc_drop al = rev (map fb_addr (al_buffers al))"
proof (induction al rule: alloc_drop.induct)
  case (1 al)
  show ?case
  proof (cases "al_buffers al = []")
    case False
    then obtain xs x where "al_buffers al = xs @ [x]" by (meson rev_exhaust)
    then show ?thesis using 1 by (simp add: alloc_drop.simps[of al])
  qed (simp add: alloc_drop.simps)
qed

lemma alloc_buffers_spec:
  "alloc_buffers sys page len is = Inr bs \<Longrightarrow> map fb_index bs = is \<and>
   (\<forall>b \<in> set bs. fb_addr b = sys_alloc sys (fb_index b) len page \<and> fb_addr b \<noteq> 0 \<and> fb_bytes b = replicate len 0 \<and> 0 < len)"
proof (induction "is" arbitrary: bs)
  case (Cons i "is")
  then show ?case by (auto simp: run_simps new_aligned_buffer_def Let_def split: if_splits)
qed simp

lemma new_without_uring_spec:
  assumes "new_without_uring sys queue_size buffer_size = Inr al"
  shows "map fb_index (al_buffers al) = [0..<queue_size]"
    and "b \<in> set (al_buffers al) \<Longrightarrow> length (fb_bytes b) = buffer_size \<and> fb_addr b \<noteq> 0"
    and "al_queue al = []" "al_wakes al = []" "al_capacity al = queue_size"
  using assms alloc_buffers_spec by (fastforce simp: new_without_uring_def run_simps)+

text \<open>
  C20 (invariant). In every history of a pool the buffers are conserved: the free ones and the lent ones
  together are exactly the buffers allocated at the start, each index once, with their memory and length
  unchanged; so no buffer is ever lent twice or lost. When no handle is left, dropping the allocator
  frees every buffer exactly once.
\<close>

theorem pool_conserves:
  assumes "new_without_uring sys queue_size buffer_size = Inr (al :: 'w allocator)"
    and "h = pool_steps ops (pool_start al)"
  shows "pooled h + lent h = mset (map ident (al_buffers al)) \<and>
    image_mset (\<lambda>(_, i, _). i) (pooled h + lent h) = mset [0..<queue_size] \<and>
    length (al_buffers (ph_alloc h)) + length (ph_live h) = queue_size \<and>
    (ph_live h = [] \<longrightarrow> mset (alloc_drop (ph_alloc h)) = mset (map fb_addr (al_buffers al)))"
proof -
  have "pool_ok (pool_start al)" "pooled (pool_start al) + lent (pool_start al) = mset (map ident (al_buffers al))"
    by (simp_all add: pool_start_def pool_ok_def pooled_def lent_def)
  with pool_steps_ok[of "pool_start al" ops] assms(2)
  have all: "pooled h + lent h = mset (map ident (al_buffers al))" by simp
  have "image_mset (\<lambda>(_, i, _). i) (mset (map ident (al_buffers al))) = mset (map fb_index (al_buffers al))"
    by (simp add: ident_def o_def multiset.map_comp)
  then have idx: "image_mset (\<lambda>(_, i, _). i) (pooled h + lent h) = mset [0..<queue_size]"
    unfolding all new_without_uring_spec(1)[OF assms(1)] .
  from arg_cong[OF all, of size] arg_cong[OF new_without_uring_spec(1)[OF assms(1)], of length]
  have len: "length (al_buffers (ph_alloc h)) + length (ph_live h) = queue_size" by (simp add: pooled_def lent_def)
  have "mset (map fb_addr (al_buffers (ph_alloc h))) = mset (map fb_addr (al_buffers al))" if "ph_live h = []"
    using arg_cong[OF all, of "image_mset fst"] that by (simp add: pooled_def lent_def ident_def o_def multiset.map_comp)
  then show ?thesis using all idx len by (simp add: alloc_drop_addrs)
qed

definition demo_system :: system where
  "demo_system = \<lparr>sys_page_size = 4096, sys_alloc = \<lambda>i len align. 4096 * Suc i, sys_register_buffers = \<lambda>_. True\<rparr>"

definition demo_pool :: "string allocator" where
  "demo_pool = \<lparr>al_buffers = [\<lparr>fb_addr = 4096, fb_bytes = [0, 0], fb_index = 0, fb_lkey = 0, fb_rkey = 0\<rparr>],
     al_capacity = 1, al_queue = [], al_waker = \<lambda>_. None, al_wakes = []\<rparr>"

lemma layout_ok_page: "layout_ok 2 4096"
  unfolding layout_ok_def by (rule conjI, rule bexI[of _ 12]) simp_all

lemma demo_pool_new: "new_without_uring demo_system 1 2 = Inr demo_pool"
proof -
  have "replicate 2 (0 :: u8) = [0, 0]" by (simp add: numeral_2_eq_2)
  then show ?thesis
    by (simp add: new_without_uring_def page_size_def demo_system_def demo_pool_def new_aligned_buffer_def layout_ok_page)
qed

theorem pool_conserves_witness:
  "new_without_uring demo_system 1 2 = Inr demo_pool \<and>
   (let h = pool_steps [ATry, AWrite 0 [7], ANew, APoll 1 ''a'', ADrop 0] (pool_start demo_pool)
    in length (al_buffers (ph_alloc h)) + length (ph_live h) = 1)"
  using pool_conserves[OF demo_pool_new refl] demo_pool_new unfolding Let_def by blast

subsection \<open>Waking the waiters\<close>

text \<open>
  While the waiters in the queue are distinct and none has been woken or cancelled, every
  returned buffer wakes one of them, in the order they started to wait, and a woken waiter that is polled
  gets a buffer.
\<close>

theorem drops_wake_in_order:
  assumes "al_buffers al = []" "distinct (al_queue al)" "list_all (\<lambda>s. al_waker al s \<noteq> None) (al_queue al)"
    and "length bs \<le> length (al_queue al)" "list_all (\<lambda>b. fx_buffer b \<noteq> None) bs"
  shows "al_wakes (fold buffer_drop bs al) = al_wakes al @ map (the \<circ> al_waker al) (take (length bs) (al_queue al)) \<and>
    al_queue (fold buffer_drop bs al) = drop (length bs) (al_queue al) \<and>
    (bs \<noteq> [] \<longrightarrow> (\<exists>b. fst (lazy_poll k f (fold buffer_drop bs al)) = Ready b \<and> fx_buffer b \<noteq> None))"
proof -
  have wakes: "al_wakes (fold buffer_drop bs al) = al_wakes al @ map (the \<circ> al_waker al) (take (length bs) (al_queue al)) \<and>
      al_queue (fold buffer_drop bs al) = drop (length bs) (al_queue al) \<and>
      length (al_buffers (fold buffer_drop bs al)) = length (al_buffers al) + length bs"
    using assms(2-5)
  proof (induction bs arbitrary: al)
    case (Cons b bs)
    then obtain s q x k where q: "al_queue al = s # q" "fx_buffer b = Some x" "al_waker al s = Some k"
      by (cases "al_queue al") auto
    let ?al = "buffer_drop b al"
    have al: "al_queue ?al = q" "al_waker ?al = (al_waker al)(s := None)" "al_wakes ?al = al_wakes al @ [k]"
      "al_buffers ?al = al_buffers al @ [x]" using q by (simp_all add: buffer_drop_def Let_def)
    have s: "s \<notin> set q" using Cons.prems(1) q by simp
    then have "map (the \<circ> al_waker ?al) (take (length bs) q) = map (the \<circ> al_waker al) (take (length bs) q)"
      using al(2) by (auto dest: in_set_takeD)
    moreover have "list_all (\<lambda>t. al_waker ?al t \<noteq> None) q" using Cons.prems(2) q(1) s al(2) by (auto simp: list_all_iff)
    ultimately show ?case using Cons.IH[of ?al] Cons.prems al q by simp
  qed simp
  moreover have "\<exists>b. fst (lazy_poll k f (fold buffer_drop bs al)) = Ready b \<and> fx_buffer b \<noteq> None" if "bs \<noteq> []"
    using that wakes by (auto simp: lazy_poll_def acquire_inner_def)
  ultimately show ?thesis by blast
qed

theorem drops_wake_in_order_witness:
  "al_wakes (buffer_drop \<lparr>fx_buffer = Some \<lparr>fb_addr = 4096, fb_bytes = [0], fb_index = 0, fb_lkey = 0, fb_rkey = 0\<rparr>\<rparr>
     (demo_pool\<lparr>al_buffers := [], al_queue := [1, 2], al_waker := [1 \<mapsto> ''a'', 2 \<mapsto> ''b'']\<rparr>)) = [''a'']"
  using drops_wake_in_order[of "demo_pool\<lparr>al_buffers := [], al_queue := [1, 2], al_waker := [1 \<mapsto> ''a'', 2 \<mapsto> ''b'']\<rparr>"
      "[\<lparr>fx_buffer = Some \<lparr>fb_addr = 4096, fb_bytes = [0], fb_index = 0, fb_lkey = 0, fb_rkey = 0\<rparr>\<rparr>]"]
  by (simp add: demo_pool_def)

text \<open>
  A wake-up can be lost. From a pool with one free buffer: a buffer is taken; two acquirers
  wait, the first polled twice; the buffer is returned, the first acquirer is woken, gets it and returns
  it. The second entry of the first acquirer uses up the second wake-up, so the buffer is free while the
  second acquirer is still waiting with its waker never called.
\<close>

theorem acquire_lost_wakeup:
  assumes "al_buffers al = [x]" "al_queue al = []"
  shows "let h = pool_steps [ATry, ANew, ANew, APoll 1 a, APoll 1 a, APoll 2 b, ADrop 0, APoll 1 a, ADrop 3] (pool_start al)
    in al_buffers (ph_alloc h) = [x] \<and> ph_futs h 2 = Some \<lparr>la_state = 2\<rparr> \<and> al_waker (ph_alloc h) 2 = Some b \<and>
       al_queue (ph_alloc h) = [2] \<and> al_wakes (ph_alloc h) = al_wakes al @ [a]"
  using assms by (simp add: pool_start_def hold_def lazy_new_def lazy_poll_def try_acquire_def acquire_inner_def
      buffer_drop_def Let_def numeral_2_eq_2 numeral_3_eq_3)

theorem acquire_lost_wakeup_witness:
  "al_wakes (ph_alloc (pool_steps [ATry, ANew, ANew, APoll 1 ''a'', APoll 1 ''a'', APoll 2 ''b'', ADrop 0, APoll 1 ''a'', ADrop 3]
     (pool_start demo_pool))) = [''a'']"
proof -
  have "al_buffers demo_pool = [hd (al_buffers demo_pool)]" "al_queue demo_pool = []" "al_wakes demo_pool = []"
    by (simp_all add: demo_pool_def)
  from acquire_lost_wakeup[OF this(1,2), of "''a''" "''b''", unfolded Let_def] this(3) show ?thesis by (metis append_Nil)
qed

end
