(* ===== verification/Uring_Reactor.thy ===== *)
theory Uring_Reactor
  imports Uring_Alloc Reactor
begin

section \<open>The io_uring reactor (\<open>pluvio_uring/src\<close>: \<open>reactor.rs\<close>, \<open>builder.rs\<close>)\<close>

text \<open>
  Submission, completion and the status gate. The kernel's rings are part of the state: entries that
  wait in the submission queue, entries the kernel has taken, and completions that wait to be read.
  What the kernel does (taking entries, completing them in any order with any result, putting its
  polling thread to sleep) is a step of its own; the outcome of \<open>io_uring_enter\<close> is an argument. The
  shared \<open>HandleState\<close> cells are named by numbers and waking appends to a log. Durations and instants
  are natural numbers of one unit, nanoseconds.
\<close>

subsection \<open>Data\<close>

text \<open>\<open>HandleState<i32>\<close>; a result is an error number or a non-negative value.\<close>

record 'w handle_state =
  hs_waker :: "'w option"
  hs_result :: "(int + int) option"

record io_uring_params =
  ip_submit_depth :: u32
  ip_wait_submit_timeout :: nat
  ip_wait_complete_timeout :: nat
  ip_sq_poll :: "u32 option"

record ('w, 'e) io_reactor =
  io_sq :: "(u64 \<times> 'e) list"
  io_sq_entries :: nat
  io_inflight :: "(u64 \<times> 'e) list"
  io_cq :: "(u64 \<times> int) list"
  io_need_wakeup :: bool
  io_completions :: "(u64 \<times> nat) list"
  io_handles :: "nat \<Rightarrow> 'w handle_state"
  io_next_cell :: nat
  io_counter :: u64
  io_completed :: u64
  io_last_submit :: nat
  io_params :: io_uring_params
  io_submit_thread :: "bool option"
  io_wakes :: "'w list"

definition handle_state_new :: "'w handle_state" where
  "handle_state_new = \<lparr>hs_waker = None, hs_result = None\<rparr>"

subsection \<open>The builder\<close>

record io_builder =
  bd_queue_size :: u32
  bd_buffer_size :: nat
  bd_submit_depth :: u32
  bd_sq_poll :: "u32 option"
  bd_wait_submit_timeout :: nat
  bd_wait_complete_timeout :: nat

definition io_builder_default :: io_builder where
  "io_builder_default = \<lparr>bd_queue_size = 1024, bd_buffer_size = 4096, bd_submit_depth = 64, bd_sq_poll = None,
     bd_wait_submit_timeout = 50000000, bd_wait_complete_timeout = 100000000\<rparr>"

text \<open>\<open>SubmitThread::enabled_by_env\<close>, on the value of \<open>PLUVIO_URING_SUBMIT_THREAD\<close>.\<close>

definition enabled_by_env :: "string option \<Rightarrow> bool" where
  "enabled_by_env var = (case var of Some v \<Rightarrow> v \<noteq> ''0'' | None \<Rightarrow> False)"

text \<open>
  \<open>create\<close> is the kernel's answer to setting the ring up: the number of submission entries; \<open>taken\<close>
  says whether the thread already has a reactor.
\<close>

definition io_build :: "system \<Rightarrow> nat option \<Rightarrow> string option \<Rightarrow> bool \<Rightarrow> nat \<Rightarrow> io_builder \<Rightarrow>
    (('w, 'e) io_reactor \<times> 'a allocator) run" where
  "io_build sys create env taken now b =
     (case create of
        None \<Rightarrow> Inl (Panic (if bd_sq_poll b \<noteq> None then ''Failed to create io_uring with SQPOLL'' else ''Failed to create io_uring''))
      | Some entries \<Rightarrow>
          (let submit_thread = (if bd_sq_poll b = None \<and> enabled_by_env env then Some False else None)
           in run_bind (alloc_new sys (unat (bd_queue_size b)) (bd_buffer_size b)) (\<lambda>al.
              if taken then Inl (Panic ''Failed to initialize IoUringReactor'')
              else Inr (\<lparr>io_sq = [], io_sq_entries = entries, io_inflight = [], io_cq = [], io_need_wakeup = False,
                         io_completions = [], io_handles = \<lambda>_. handle_state_new, io_next_cell = 0, io_counter = 0,
                         io_completed = 0, io_last_submit = now,
                         io_params = \<lparr>ip_submit_depth = bd_submit_depth b, ip_wait_submit_timeout = bd_wait_submit_timeout b,
                                      ip_wait_complete_timeout = bd_wait_complete_timeout b, ip_sq_poll = bd_sq_poll b\<rparr>,
                         io_submit_thread = submit_thread, io_wakes = []\<rparr>, al))))"

subsection \<open>Operations\<close>

text \<open>A \<open>WaitHandle\<close> is its cell.\<close>

definition push_sqe :: "'e \<Rightarrow> ('w, 'e) io_reactor \<Rightarrow> (nat \<times> ('w, 'e) io_reactor) run" where
  "push_sqe sqe r =
     (let user_data = io_counter r; cell = io_next_cell r;
          r1 = r\<lparr>io_counter := io_counter r + 1, io_next_cell := Suc cell,
                 io_handles := (io_handles r)(cell := handle_state_new),
                 io_completions := AList.update user_data cell (io_completions r)\<rparr>
      in if io_sq_entries r \<le> length (io_sq r) then Inl (Panic ''Submission queue is full'')
         else Inr (cell, r1\<lparr>io_sq := io_sq r @ [(user_data, sqe)]\<rparr>))"

definition wait_poll :: "'w \<Rightarrow> nat \<Rightarrow> ('w, 'e) io_reactor \<Rightarrow> (int + int) poll \<times> ('w, 'e) io_reactor" where
  "wait_poll k cell r =
     (let h = io_handles r cell
      in case hs_result h of
           Some result \<Rightarrow> (Ready result, r\<lparr>io_handles := (io_handles r)(cell := h\<lparr>hs_result := None\<rparr>)\<rparr>)
         | None \<Rightarrow> (Pending, r\<lparr>io_handles := (io_handles r)(cell := h\<lparr>hs_waker := Some k\<rparr>)\<rparr>))"

text \<open>\<open>ring.submit()\<close>: the kernel takes every queued entry, or the call fails.\<close>

definition ring_submit :: "string \<Rightarrow> bool \<Rightarrow> ('w, 'e) io_reactor \<Rightarrow> ('w, 'e) io_reactor run" where
  "ring_submit msg ok r =
     (if ok then Inr (r\<lparr>io_inflight := io_inflight r @ io_sq r, io_sq := []\<rparr>) else Inl (Panic msg))"

definition poll_submit :: "nat \<Rightarrow> bool \<Rightarrow> ('w, 'e) io_reactor \<Rightarrow> ('w, 'e) io_reactor run" where
  "poll_submit now ok r =
     (let has_pending_sqes = io_sq r \<noteq> [] in
      run_bind
        (if ip_sq_poll (io_params r) \<noteq> None then
           (if has_pending_sqes \<and> io_need_wakeup r
            then ring_submit ''Failed to submit SQE (SQPOLL wakeup)'' ok (r\<lparr>io_need_wakeup := False\<rparr>) else Inr r)
         else if has_pending_sqes then
           (case io_submit_thread r of
              Some _ \<Rightarrow> Inr (r\<lparr>io_submit_thread := Some True\<rparr>)
            | None \<Rightarrow> ring_submit ''Failed to submit SQE'' ok r)
         else Inr r)
        (\<lambda>r. Inr (if has_pending_sqes then r\<lparr>io_last_submit := now\<rparr> else r)))"

definition io_result :: "int \<Rightarrow> int + int" where
  "io_result res = (if 0 \<le> res then Inr res else Inl (- res))"

definition handle_cqe :: "u64 \<times> int \<Rightarrow> ('w, 'e) io_reactor \<Rightarrow> ('w, 'e) io_reactor run" where
  "handle_cqe cqe r =
     (case cqe of (user_data, res) \<Rightarrow>
        (case map_of (io_completions r) user_data of
           Some cell \<Rightarrow>
             (let h = io_handles r cell
              in case hs_waker h of
                   Some k \<Rightarrow>
                     Inr (r\<lparr>io_completions := AList.delete user_data (io_completions r), io_completed := io_completed r + 1,
                            io_handles := (io_handles r)(cell := \<lparr>hs_waker = None, hs_result = Some (io_result res)\<rparr>),
                            io_wakes := io_wakes r @ [k]\<rparr>)
                 | None \<Rightarrow> Inl (Panic ''Waker is None for user_data''))
         | None \<Rightarrow> Inl (Panic ''Received completion for unknown user_data'')))"

fun handle_cqes :: "(u64 \<times> int) list \<Rightarrow> ('w, 'e) io_reactor \<Rightarrow> ('w, 'e) io_reactor run" where
  "handle_cqes [] r = Inr r"
| "handle_cqes (cqe # cqes) r = run_bind (handle_cqe cqe r) (handle_cqes cqes)"

definition poll_submit_and_completions :: "nat \<Rightarrow> bool \<Rightarrow> ('w, 'e) io_reactor \<Rightarrow> ('w, 'e) io_reactor run" where
  "poll_submit_and_completions now ok r =
     run_bind (poll_submit now ok r) (\<lambda>r. handle_cqes (io_cq r) (r\<lparr>io_cq := []\<rparr>))"

definition io_is_empty :: "('w, 'e) io_reactor \<Rightarrow> bool" where
  "io_is_empty r \<longleftrightarrow> io_completions r = []"

text \<open>\<open>submit_and_wait(0)\<close> submits and does not wait.\<close>

definition wait_cqueue :: "bool \<Rightarrow> ('w, 'e) io_reactor \<Rightarrow> (bool \<times> ('w, 'e) io_reactor) run" where
  "wait_cqueue ok r =
     (if io_completed r \<ge> io_counter r then Inr (False, r)
      else run_bind (ring_submit ''Failed to wait for completion'' ok r) (\<lambda>r. Inr (True, r)))"

definition io_status :: "bool \<Rightarrow> nat \<Rightarrow> ('w, 'e) io_reactor \<Rightarrow> reactor_status" where
  "io_status always_poll now r =
     (let has_pending_io = io_completed r < io_counter r; has_pending_sqe = io_sq r \<noteq> [];
          elapsed = now - io_last_submit r; p = io_params r
      in if always_poll then (if has_pending_sqe \<or> has_pending_io then Running else Stopped)
         else if ip_sq_poll p \<noteq> None then
           (if has_pending_sqe \<and> io_need_wakeup r then Running
            else if has_pending_io \<and> elapsed \<ge> ip_wait_complete_timeout p then Running else Stopped)
         else if length (io_sq r) \<ge> unat (ip_submit_depth p) \<or>
                 has_pending_sqe \<and> elapsed \<ge> ip_wait_submit_timeout p \<or>
                 has_pending_io \<and> elapsed \<ge> ip_wait_complete_timeout p
              then Running else Stopped)"

text \<open>\<open>PLUVIO_URING_ALWAYS_POLL\<close>.\<close>

definition always_poll_env :: "string option \<Rightarrow> bool" where
  "always_poll_env var = (case var of Some v \<Rightarrow> v \<noteq> ''0'' | None \<Rightarrow> False)"

subsection \<open>Histories\<close>

text \<open>
  The steps of tasks, the executor and the kernel. \<open>IAwait\<close> is how the file and socket operations use
  the reactor: an entry is pushed and its handle awaited at once. The kernel takes entries on its own in
  the polling modes and completes them in any order. A dropped handle leaves the reactor as it is.
\<close>

datatype ('w, 'e) io_op =
    IAwait 'e 'w | IRepoll nat 'w | IReactor nat bool | KTake nat | KComplete nat int | KSleep

fun io_step :: "('w, 'e) io_op \<Rightarrow> ('w, 'e) io_reactor \<Rightarrow> ('w, 'e) io_reactor run" where
  "io_step (IAwait e k) r = run_bind (push_sqe e r) (\<lambda>(cell, r). Inr (snd (wait_poll k cell r)))"
| "io_step (IRepoll cell k) r = Inr (snd (wait_poll k cell r))"
| "io_step (IReactor now ok) r = poll_submit_and_completions now ok r"
| "io_step (KTake n) r = Inr (r\<lparr>io_inflight := io_inflight r @ take n (io_sq r), io_sq := drop n (io_sq r)\<rparr>)"
| "io_step (KComplete i res) r =
     Inr (if i < length (io_inflight r)
          then r\<lparr>io_cq := io_cq r @ [(fst (io_inflight r ! i), res)],
                 io_inflight := take i (io_inflight r) @ drop (Suc i) (io_inflight r)\<rparr>
          else r)"
| "io_step KSleep r = Inr (r\<lparr>io_need_wakeup := True\<rparr>)"

fun io_run :: "('w, 'e) io_op list \<Rightarrow> ('w, 'e) io_reactor \<Rightarrow> ('w, 'e) io_reactor run" where
  "io_run [] r = Inr r"
| "io_run (op # ops) r = run_bind (io_step op r) (io_run ops)"

text \<open>The queue has room for every entry that is pushed, and the kernel accepts submissions.\<close>

fun smooth :: "('w, 'e) io_op \<Rightarrow> ('w, 'e) io_reactor \<Rightarrow> bool" where
  "smooth (IAwait e k) r \<longleftrightarrow> length (io_sq r) < io_sq_entries r"
| "smooth (IReactor now ok) r \<longleftrightarrow> ok"
| "smooth op r \<longleftrightarrow> True"

fun smooth_run :: "('w, 'e) io_op list \<Rightarrow> ('w, 'e) io_reactor \<Rightarrow> bool" where
  "smooth_run [] r \<longleftrightarrow> True"
| "smooth_run (op # ops) r \<longleftrightarrow> smooth op r \<and> (case io_step op r of Inl _ \<Rightarrow> True | Inr r \<Rightarrow> smooth_run ops r)"

definition pushed :: "('w, 'e) io_op list \<Rightarrow> nat" where
  "pushed ops = length (filter (\<lambda>op. case op of IAwait _ _ \<Rightarrow> True | _ \<Rightarrow> False) ops)"

abbreviation under_way :: "('w, 'e) io_reactor \<Rightarrow> u64 list" where
  "under_way r \<equiv> map fst (io_sq r) @ map fst (io_inflight r) @ map fst (io_cq r)"

text \<open>
  Every operation under way has its entry in \<open>completions\<close>, with a cell of its own that waits for the
  result with a waker; \<open>m\<close> is the number of operations pushed so far.
\<close>

definition pending_cell :: "('w, 'e) io_reactor \<Rightarrow> u64 \<times> nat \<Rightarrow> bool" where
  "pending_cell r e \<longleftrightarrow> snd e < io_next_cell r \<and> hs_waker (io_handles r (snd e)) \<noteq> None \<and> hs_result (io_handles r (snd e)) = None \<and>
     fst e < io_counter r"

definition io_ok :: "nat \<Rightarrow> ('w, 'e) io_reactor \<Rightarrow> bool" where
  "io_ok m r \<longleftrightarrow> distinct (under_way r) \<and> distinct (map fst (io_completions r)) \<and> distinct (map snd (io_completions r)) \<and>
     set (under_way r) = fst ` set (io_completions r) \<and> list_all (pending_cell r) (io_completions r) \<and>
     unat (io_counter r) = m \<and> unat (io_completed r) + length (io_completions r) = m \<and> length (io_wakes r) = unat (io_completed r)"

lemma length_delete: "distinct (map fst xs) \<Longrightarrow> map_of xs k = Some v \<Longrightarrow> Suc (length (AList.delete k xs)) = length xs"
  using mset_delete[of xs k v] by (metis size_add_mset size_mset)

lemma distinct_snd_delete: "distinct (map snd xs) \<Longrightarrow> distinct (map snd (AList.delete k xs))"
  by (induction xs) (use set_delete_sub in fastforce)+

lemma fst_delete: "fst ` set (AList.delete k xs) = fst ` set xs - {k}"
  by (induction xs) auto

text \<open>Reading one completion.\<close>

lemma handle_cqe_ok:
  assumes ok: "io_ok m (r\<lparr>io_cq := (ud, res) # cq\<rparr>)"
  shows "\<exists>r' cell k. handle_cqe (ud, res) (r\<lparr>io_cq := []\<rparr>) = Inr (r'\<lparr>io_cq := []\<rparr>) \<and> io_ok m (r'\<lparr>io_cq := cq\<rparr>) \<and>
    map_of (io_completions r) ud = Some cell \<and> hs_waker (io_handles r cell) = Some k \<and>
    io_handles r' = (io_handles r)(cell := \<lparr>hs_waker = None, hs_result = Some (io_result res)\<rparr>) \<and>
    io_wakes r' = io_wakes r @ [k] \<and> io_completions r' = AList.delete ud (io_completions r)"
proof -
  let ?C = "io_completions r"
  have D: "distinct (map fst ?C)" "distinct (map snd ?C)" "ud \<in> fst ` set ?C" "list_all (pending_cell r) ?C"
    using ok by (auto simp: io_ok_def pending_cell_def list_all_iff)
  then obtain cell where cell: "map_of ?C ud = Some cell" "(ud, cell) \<in> set ?C" by auto
  then obtain k where k: "hs_waker (io_handles r cell) = Some k" using D(4) by (auto simp: list_all_iff pending_cell_def)
  let ?r = "r\<lparr>io_completions := AList.delete ud ?C, io_completed := io_completed r + 1,
      io_handles := (io_handles r)(cell := \<lparr>hs_waker = None, hs_result = Some (io_result res)\<rparr>), io_wakes := io_wakes r @ [k]\<rparr>"
  have other: "c \<noteq> cell" if "(u, c) \<in> set (AList.delete ud ?C)" for u c
  proof
    assume "c = cell"
    with that have "(u, cell) \<in> set ?C" using set_delete_sub by fastforce
    with cell(2) D(2) have "u = ud" by (metis distinct_map inj_onD prod.inject snd_conv)
    with that fst_delete[of ud ?C] show False by (metis Diff_iff fst_conv imageI insertI1)
  qed
  have "list_all (pending_cell (?r\<lparr>io_cq := cq\<rparr>)) (AList.delete ud ?C)"
    using D(4) other set_delete_sub[of ud ?C] by (fastforce simp: list_all_iff pending_cell_def)
  moreover have "distinct (map fst (AList.delete ud ?C))" "distinct (map snd (AList.delete ud ?C))"
    using D(1,2) by (simp_all add: distinct_delete distinct_snd_delete)
  moreover have "set (under_way (?r\<lparr>io_cq := cq\<rparr>)) = fst ` set (AList.delete ud ?C)"
    using ok fst_delete[of ud ?C] by (auto simp: io_ok_def)
  moreover have "Suc (length (AList.delete ud ?C)) = length ?C" using length_delete[OF D(1) cell(1)] .
  moreover have "unat (io_completed r + 1) = Suc (unat (io_completed r))"
    using ok calculation(5) unat_u64_bound[of "io_counter r"] by (intro unat_u64_Suc) (auto simp: io_ok_def)
  ultimately have "io_ok m (?r\<lparr>io_cq := cq\<rparr>)" using ok by (simp add: io_ok_def)
  moreover have "handle_cqe (ud, res) (r\<lparr>io_cq := []\<rparr>) = Inr (?r\<lparr>io_cq := []\<rparr>)"
    using cell(1) k by (simp add: handle_cqe_def)
  ultimately show ?thesis using cell(1) k by (intro exI[of _ ?r] exI[of _ cell] exI[of _ k]) simp
qed

text \<open>Reading a list of completions: each result goes to the handle of its operation.\<close>

definition cqe_cell :: "('w, 'e) io_reactor \<Rightarrow> u64 \<Rightarrow> nat" where
  "cqe_cell r ud = the (map_of (io_completions r) ud)"

lemma handle_cqes_ok:
  "io_ok m (r\<lparr>io_cq := cqs\<rparr>) \<Longrightarrow> \<exists>r'. handle_cqes cqs (r\<lparr>io_cq := []\<rparr>) = Inr r' \<and> io_ok m r' \<and> io_cq r' = [] \<and>
    (\<forall>(ud, res) \<in> set cqs. io_handles r' (cqe_cell r ud) = \<lparr>hs_waker = None, hs_result = Some (io_result res)\<rparr>) \<and>
    (\<forall>c. c \<notin> (\<lambda>(ud, res). cqe_cell r ud) ` set cqs \<longrightarrow> io_handles r' c = io_handles r c) \<and>
    io_wakes r' = io_wakes r @ map (\<lambda>(ud, res). the (hs_waker (io_handles r (cqe_cell r ud)))) cqs"
proof (induction cqs arbitrary: r)
  case Nil
  then show ?case by (intro exI[of _ "r\<lparr>io_cq := []\<rparr>"]) simp
next
  case (Cons cqe cqs)
  obtain ud res where cqe: "cqe = (ud, res)" by fastforce
  from handle_cqe_ok[OF Cons.prems[unfolded cqe]] obtain r1 cell k where
    1: "handle_cqe (ud, res) (r\<lparr>io_cq := []\<rparr>) = Inr (r1\<lparr>io_cq := []\<rparr>)" "io_ok m (r1\<lparr>io_cq := cqs\<rparr>)"
      "map_of (io_completions r) ud = Some cell" "hs_waker (io_handles r cell) = Some k"
      "io_handles r1 = (io_handles r)(cell := \<lparr>hs_waker = None, hs_result = Some (io_result res)\<rparr>)"
      "io_wakes r1 = io_wakes r @ [k]" "io_completions r1 = AList.delete ud (io_completions r)" by blast
  from Cons.IH[OF 1(2)] obtain r' where
    2: "handle_cqes cqs (r1\<lparr>io_cq := []\<rparr>) = Inr r'" "io_ok m r'" "io_cq r' = []"
      "\<forall>(ud, res) \<in> set cqs. io_handles r' (cqe_cell r1 ud) = \<lparr>hs_waker = None, hs_result = Some (io_result res)\<rparr>"
      "\<forall>c. c \<notin> (\<lambda>(ud, res). cqe_cell r1 ud) ` set cqs \<longrightarrow> io_handles r' c = io_handles r1 c"
      "io_wakes r' = io_wakes r1 @ map (\<lambda>(ud, res). the (hs_waker (io_handles r1 (cqe_cell r1 ud)))) cqs" by blast
  have D: "distinct (map fst (io_completions r))" "distinct (map snd (io_completions r))" "ud \<notin> fst ` set cqs"
    "fst ` set cqs \<subseteq> fst ` set (io_completions r)" using Cons.prems cqe by (auto simp: io_ok_def)
  have cc: "cqe_cell r1 u = cqe_cell r u" "cqe_cell r u \<noteq> cell" if "u \<in> fst ` set cqs" for u
  proof -
    have u: "u \<noteq> ud" using that D(3) by auto
    then show "cqe_cell r1 u = cqe_cell r u" using D(1) by (simp add: cqe_cell_def 1(7) delete_conv)
    have "map_of (io_completions r) u \<noteq> None" using that D(4) by (auto simp: map_of_eq_None_iff)
    then obtain c where c: "map_of (io_completions r) u = Some c" by blast
    have "c \<noteq> cell"
    proof
      assume "c = cell"
      with map_of_SomeD[OF c] map_of_SomeD[OF 1(3)] D(2) u show False by (metis distinct_map inj_onD prod.inject snd_conv)
    qed
    with c show "cqe_cell r u \<noteq> cell" by (simp add: cqe_cell_def)
  qed
  have img: "(\<lambda>(ud, res). cqe_cell r1 ud) ` set cqs = (\<lambda>(ud, res). cqe_cell r ud) ` set cqs"
    using cc(1) by (force simp: image_iff)
  have new: "cell \<notin> (\<lambda>(ud, res). cqe_cell r ud) ` set cqs" using cc(2) by (force simp: image_iff)
  have here: "cqe_cell r ud = cell" using 1(3) by (simp add: cqe_cell_def)
  have "io_handles r' (cqe_cell r u) = \<lparr>hs_waker = None, hs_result = Some (io_result x)\<rparr>" if "(u, x) \<in> set (cqe # cqs)" for u x
  proof (cases "(u, x) \<in> set cqs")
    case True
    then have "cqe_cell r1 u = cqe_cell r u" by (intro cc(1)) force
    with 2(4) True show ?thesis by force
  next
    case False
    then have "u = ud" "x = res" using that cqe by auto
    then show ?thesis using 2(5) new here 1(5) unfolding img by simp
  qed
  moreover have "io_handles r' c = io_handles r c" if "c \<notin> (\<lambda>(ud, res). cqe_cell r ud) ` set (cqe # cqs)" for c
    using that 2(5) 1(5) here cqe unfolding img by simp
  moreover have "map (\<lambda>(ud, res). the (hs_waker (io_handles r1 (cqe_cell r1 ud)))) cqs =
      map (\<lambda>(ud, res). the (hs_waker (io_handles r (cqe_cell r ud)))) cqs"
    using cc 1(5) by (intro map_cong) force+
  ultimately show ?case using 1 2(1,2,3,6) here cqe by (intro exI[of _ r']) auto
qed

text \<open>Moving entries between the queues, and the other steps.\<close>

lemma io_ok_move:
  assumes ok: "io_ok m r" and perm: "mset (under_way r') = mset (under_way r)"
    and same: "io_completions r' = io_completions r" "io_handles r' = io_handles r" "io_next_cell r' = io_next_cell r"
      "io_counter r' = io_counter r" "io_completed r' = io_completed r" "io_wakes r' = io_wakes r"
  shows "io_ok m r'"
proof -
  have "distinct (under_way r')" using ok mset_eq_imp_distinct_iff[OF perm] by (simp add: io_ok_def)
  moreover have "set (under_way r') = fst ` set (io_completions r')" using ok mset_eq_setD[OF perm] same by (simp add: io_ok_def)
  moreover have "pending_cell r' = pending_cell r" using same by (simp add: pending_cell_def fun_eq_iff)
  ultimately show ?thesis using ok same by (simp add: io_ok_def)
qed

lemma update_absent: "k \<notin> fst ` set xs \<Longrightarrow> AList.update k v xs = xs @ [(k, v)]"
  by (induction xs) auto

lemma io_ok_await:
  assumes ok: "io_ok m r" and room: "length (io_sq r) < io_sq_entries r" and m: "Suc m < 2 ^ 64"
  shows "\<exists>r'. io_step (IAwait e k) r = Inr r' \<and> io_ok (Suc m) r'"
proof -
  let ?C = "io_completions r" and ?ud = "io_counter r" and ?c = "io_next_cell r"
  have pc: "\<And>e. e \<in> set ?C \<Longrightarrow> pending_cell r e" using ok by (simp add: io_ok_def list_all_iff)
  then have fresh: "?ud \<notin> fst ` set ?C" "?c \<notin> snd ` set ?C"
    unfolding pending_cell_def by (metis imageE less_irrefl)+
  let ?r = "r\<lparr>io_counter := ?ud + 1, io_next_cell := Suc ?c, io_handles := (io_handles r)(?c := \<lparr>hs_waker = Some k, hs_result = None\<rparr>),
      io_completions := ?C @ [(?ud, ?c)], io_sq := io_sq r @ [(?ud, e)]\<rparr>"
  have step: "io_step (IAwait e k) r = Inr ?r"
    using room fresh(1) by (simp add: push_sqe_def wait_poll_def handle_state_new_def Let_def update_absent)
  have inc: "unat (?ud + 1) = Suc m" using ok m unat_u64_Suc[of ?ud] by (simp add: io_ok_def)
  then have less: "?ud < ?ud + 1" using ok by (simp add: u64_less_iff io_ok_def)
  have "pending_cell ?r x" if "x \<in> set ?C" for x
    using pc[OF that] fresh(2) that less by (auto simp: pending_cell_def)
  moreover have "pending_cell ?r (?ud, ?c)" using less by (simp add: pending_cell_def)
  ultimately have "list_all (pending_cell ?r) (?C @ [(?ud, ?c)])" by (simp add: list_all_iff)
  then have "io_ok (Suc m) ?r" using ok fresh inc by (auto simp: io_ok_def)
  with step show ?thesis by blast
qed

lemma io_ok_repoll:
  assumes ok: "io_ok m r"
  shows "io_ok m (snd (wait_poll k cell r))"
proof -
  have "pending_cell (snd (wait_poll k cell r)) x" if "pending_cell r x" for x
    using that by (auto simp: pending_cell_def wait_poll_def Let_def split: option.split)
  with ok show ?thesis by (auto simp: io_ok_def list_all_iff wait_poll_def Let_def split: option.splits)
qed

lemma io_ok_poll:
  assumes ok: "io_ok m r" and sub: "poll_submit now True r = Inr r1"
  shows "io_ok m r1" "io_completions r1 = io_completions r" "io_handles r1 = io_handles r" "io_cq r1 = io_cq r" "io_wakes r1 = io_wakes r"
  using sub by (auto intro!: io_ok_move[OF ok] simp: poll_submit_def ring_submit_def run_simps Let_def split: if_splits option.splits)

lemma poll_submit_runs: "\<exists>r1. poll_submit now True r = Inr r1"
  by (simp add: poll_submit_def ring_submit_def Let_def split: option.split)

text \<open>What a poll of the reactor does with the completions it finds.\<close>

lemma reactor_poll_delivers:
  assumes ok: "io_ok m r"
  shows "\<exists>r'. poll_submit_and_completions now True r = Inr r' \<and> io_ok m r' \<and> io_cq r' = [] \<and>
    (\<forall>(ud, res) \<in> set (io_cq r). io_handles r' (cqe_cell r ud) = \<lparr>hs_waker = None, hs_result = Some (io_result res)\<rparr>) \<and>
    (\<forall>c. c \<notin> (\<lambda>(ud, res). cqe_cell r ud) ` set (io_cq r) \<longrightarrow> io_handles r' c = io_handles r c) \<and>
    io_wakes r' = io_wakes r @ map (\<lambda>(ud, res). the (hs_waker (io_handles r (cqe_cell r ud)))) (io_cq r)"
proof -
  obtain r1 where r1: "poll_submit now True r = Inr r1" using poll_submit_runs by blast
  note p = io_ok_poll[OF ok r1]
  have "io_ok m (r1\<lparr>io_cq := io_cq r1\<rparr>)" using p(1) by simp
  moreover have "cqe_cell r1 = cqe_cell r" using p(2) by (simp add: cqe_cell_def fun_eq_iff)
  ultimately show ?thesis using handle_cqes_ok[where r = r1 and cqs = "io_cq r1"] p(3-5) r1 by (simp add: poll_submit_and_completions_def)
qed

lemma io_step_ok:
  assumes ok: "io_ok m r" and sm: "smooth op r" and m: "Suc m < 2 ^ 64"
  shows "\<exists>r'. io_step op r = Inr r' \<and> io_ok (m + pushed [op]) r'"
proof (cases op)
  case (IAwait e k)
  then show ?thesis using io_ok_await[OF ok _ m, of e k] sm by (simp add: pushed_def)
next
  case (IRepoll cell k)
  then show ?thesis using io_ok_repoll[OF ok, of k cell] by (simp add: pushed_def)
next
  case (IReactor now ok')
  then show ?thesis using reactor_poll_delivers[OF ok, of now] sm by (auto simp: pushed_def)
next
  case (KTake n)
  let ?r = "r\<lparr>io_inflight := io_inflight r @ take n (io_sq r), io_sq := drop n (io_sq r)\<rparr>"
  have "mset (map fst (take n (io_sq r)) @ map fst (drop n (io_sq r))) = mset (map fst (io_sq r))"
    by (simp only: append_take_drop_id flip: map_append)
  then have "mset (under_way ?r) = mset (under_way r)" by (simp add: ac_simps)
  then have "io_ok m ?r" by (intro io_ok_move[OF ok]) simp_all
  with KTake show ?thesis by (simp add: pushed_def)
next
  case (KComplete i res)
  show ?thesis
  proof (cases "i < length (io_inflight r)")
    case True
    let ?r = "r\<lparr>io_cq := io_cq r @ [(fst (io_inflight r ! i), res)], io_inflight := take i (io_inflight r) @ drop (Suc i) (io_inflight r)\<rparr>"
    have "map fst (io_inflight r) = map fst (take i (io_inflight r)) @ fst (io_inflight r ! i) # map fst (drop (Suc i) (io_inflight r))"
      using arg_cong[OF id_take_nth_drop[OF True], of "map fst"] by simp
    then have "mset (under_way ?r) = mset (under_way r)" by simp
    then have "io_ok m ?r" by (intro io_ok_move[OF ok]) simp_all
    with KComplete True show ?thesis by (simp add: pushed_def)
  qed (use KComplete ok in \<open>simp add: pushed_def\<close>)
next
  case KSleep
  moreover have "io_ok m (r\<lparr>io_need_wakeup := True\<rparr>)" by (intro io_ok_move[OF ok]) simp_all
  ultimately show ?thesis by (simp add: pushed_def)
qed

lemma io_run_ok:
  "io_ok m r \<Longrightarrow> smooth_run ops r \<Longrightarrow> m + length ops < 2 ^ 64 \<Longrightarrow> \<exists>r'. io_run ops r = Inr r' \<and> io_ok (m + pushed ops) r'"
proof (induction ops arbitrary: m r)
  case (Cons op ops)
  then obtain r1 where r1: "io_step op r = Inr r1" "io_ok (m + pushed [op]) r1"
    using io_step_ok[of m r op] by auto
  have p: "pushed (op # ops) = pushed [op] + pushed ops" "pushed [op] \<le> 1" by (simp_all add: pushed_def split: io_op.split)
  with Cons.IH[OF r1(2)] Cons.prems r1(1) show ?case by (simp add: add.assoc)
qed (simp add: pushed_def)

definition demo_reactor :: "(string, string) io_reactor" where
  "demo_reactor = \<lparr>io_sq = [], io_sq_entries = 4, io_inflight = [], io_cq = [], io_need_wakeup = False, io_completions = [],
     io_handles = \<lambda>_. handle_state_new, io_next_cell = 0, io_counter = 0, io_completed = 0, io_last_submit = 0,
     io_params = \<lparr>ip_submit_depth = 64, ip_wait_submit_timeout = 50, ip_wait_complete_timeout = 100, ip_sq_poll = None\<rparr>,
     io_submit_thread = None, io_wakes = []\<rparr>"

text \<open>
  C16 (safety). From a newly built reactor, in every history of awaited operations, repeated polls, reactor
  polls and kernel steps in which the submission queue has room and the kernel accepts submissions, the
  reactor never panics: every completion finds its handle and a waker. All operations are accounted for:
  those queued, taken by the kernel and completed but unread are exactly those with a waiting handle,
  and each operation that was read woke one waker.
\<close>

theorem io_history_safe:
  assumes built: "io_build sys create env taken now b = Inr (r0 :: ('w, 'e) io_reactor, al)"
    and sm: "smooth_run ops r0" "length ops < 2 ^ 64"
  shows "\<exists>r. io_run ops r0 = Inr r \<and> unat (io_counter r) = pushed ops \<and>
    unat (io_completed r) + length (io_completions r) = pushed ops \<and> length (io_wakes r) = unat (io_completed r) \<and>
    distinct (under_way r) \<and> set (under_way r) = fst ` set (io_completions r)"
proof -
  have "io_ok 0 r0" using built by (auto simp: io_build_def run_simps Let_def io_ok_def split: option.splits if_splits)
  from io_run_ok[OF this sm(1)] sm(2) show ?thesis by (auto simp: io_ok_def)
qed

definition demo_builder :: io_builder where
  "demo_builder = io_builder_default\<lparr>bd_queue_size := 1, bd_buffer_size := 2\<rparr>"

lemma demo_build: "io_build demo_system (Some 4) None False 0 demo_builder =
    (Inr (demo_reactor\<lparr>io_params := \<lparr>ip_submit_depth = 64, ip_wait_submit_timeout = 50000000,
       ip_wait_complete_timeout = 100000000, ip_sq_poll = None\<rparr>\<rparr>, demo_pool) :: ((string, string) io_reactor \<times> string allocator) run)"
proof -
  have "alloc_new demo_system 1 2 = Inr demo_pool"
    using demo_pool_new by (simp add: alloc_new_def demo_system_def demo_pool_def)
  then show ?thesis
    by (simp add: io_build_def demo_builder_def io_builder_default_def enabled_by_env_def demo_reactor_def Let_def)
qed

text \<open>Two operations, completed by the kernel in the other order.\<close>

theorem io_history_safe_witness:
  "\<exists>r. io_run [IAwait ''read'' ''a'', IAwait ''write'' ''b'', IReactor 1 True, KComplete 1 8, KComplete 0 (- 5), IReactor 2 True]
     (demo_reactor\<lparr>io_params := \<lparr>ip_submit_depth = 64, ip_wait_submit_timeout = 50000000,
       ip_wait_complete_timeout = 100000000, ip_sq_poll = None\<rparr>\<rparr>) = Inr r \<and> unat (io_counter r) = 2"
proof -
  let ?ops = "[IAwait ''read'' ''a'', IAwait ''write'' ''b'', IReactor 1 True, KComplete 1 8, KComplete 0 (- 5), IReactor 2 True]"
  let ?r = "demo_reactor\<lparr>io_params := \<lparr>ip_submit_depth = 64, ip_wait_submit_timeout = 50000000,
       ip_wait_complete_timeout = 100000000, ip_sq_poll = None\<rparr>\<rparr>"
  have "smooth_run ?ops ?r"
    by (simp add: demo_reactor_def push_sqe_def wait_poll_def handle_state_new_def poll_submit_and_completions_def poll_submit_def
        ring_submit_def handle_cqe_def Let_def)
  moreover have "length ?ops < 2 ^ 64" by simp
  moreover have "pushed ?ops = 2" by (simp add: pushed_def)
  ultimately show ?thesis using io_history_safe[OF demo_build, of ?ops] by auto
qed

text \<open>
  C17 (functional). A poll of the reactor delivers every completion it finds to the handle of its own
  operation, whatever the order in which the kernel completed them: the handle gets the value, or the
  error number of a negative result, its waker is woken exactly once, in the order of the completion
  queue, no other handle changes, and the next poll of the handle is ready with that result.
\<close>

theorem io_poll_delivers:
  assumes built: "io_build sys create env taken now b = Inr (r0 :: ('w, 'e) io_reactor, al)"
    and sm: "smooth_run ops r0" "length ops < 2 ^ 64" and r: "io_run ops r0 = Inr r"
  shows "\<exists>r'. poll_submit_and_completions t True r = Inr r' \<and>
    (\<forall>(ud, res) \<in> set (io_cq r). fst (wait_poll k (cqe_cell r ud) r') = Ready (if 0 \<le> res then Inr res else Inl (- res))) \<and>
    (\<forall>c. c \<notin> (\<lambda>(ud, res). cqe_cell r ud) ` set (io_cq r) \<longrightarrow> io_handles r' c = io_handles r c) \<and>
    io_wakes r' = io_wakes r @ map (\<lambda>(ud, res). the (hs_waker (io_handles r (cqe_cell r ud)))) (io_cq r)"
proof -
  have "io_ok 0 r0" using built by (auto simp: io_build_def run_simps Let_def io_ok_def split: option.splits if_splits)
  from io_run_ok[OF this sm(1)] sm(2) r have "io_ok (pushed ops) r" by auto
  from reactor_poll_delivers[OF this, of t] obtain r' where r': "poll_submit_and_completions t True r = Inr r'"
    "\<forall>(ud, res) \<in> set (io_cq r). io_handles r' (cqe_cell r ud) = \<lparr>hs_waker = None, hs_result = Some (io_result res)\<rparr>"
    "\<forall>c. c \<notin> (\<lambda>(ud, res). cqe_cell r ud) ` set (io_cq r) \<longrightarrow> io_handles r' c = io_handles r c"
    "io_wakes r' = io_wakes r @ map (\<lambda>(ud, res). the (hs_waker (io_handles r (cqe_cell r ud)))) (io_cq r)" by blast
  have "fst (wait_poll k (cqe_cell r ud) r') = Ready (if 0 \<le> res then Inr res else Inl (- res))" if "(ud, res) \<in> set (io_cq r)" for ud res
    using r'(2) that by (fastforce simp: wait_poll_def io_result_def)
  with r' show ?thesis by blast
qed

theorem io_poll_delivers_witness:
  "\<exists>r r'. io_run [IAwait ''read'' ''a'', IReactor 1 True, KComplete 0 (- 5)]
     (demo_reactor\<lparr>io_params := \<lparr>ip_submit_depth = 64, ip_wait_submit_timeout = 50000000,
       ip_wait_complete_timeout = 100000000, ip_sq_poll = None\<rparr>\<rparr>) = Inr r \<and>
     poll_submit_and_completions 2 True r = Inr r' \<and> fst (wait_poll ''a'' 0 r') = Ready (Inl 5)"
proof -
  let ?ops = "[IAwait ''read'' ''a'', IReactor 1 True, KComplete 0 (- 5)]"
  let ?r = "demo_reactor\<lparr>io_params := \<lparr>ip_submit_depth = 64, ip_wait_submit_timeout = 50000000,
       ip_wait_complete_timeout = 100000000, ip_sq_poll = None\<rparr>\<rparr>"
  note defs = demo_reactor_def push_sqe_def wait_poll_def handle_state_new_def poll_submit_and_completions_def poll_submit_def
    ring_submit_def handle_cqe_def Let_def
  have sm: "smooth_run ?ops ?r" by (simp add: defs)
  have "\<exists>r. io_run ?ops ?r = Inr r \<and> io_cq r = [(0, - 5)] \<and> cqe_cell r 0 = 0" by (simp add: defs cqe_cell_def)
  then obtain r where r: "io_run ?ops ?r = Inr r" "io_cq r = [(0, - 5)]" "cqe_cell r 0 = 0" by blast
  from io_poll_delivers[OF demo_build sm _ r(1), of 2 "''a''"] r(2,3) obtain r' where
    "poll_submit_and_completions 2 True r = Inr r'" "fst (wait_poll ''a'' 0 r') = Ready (Inl 5)" by auto
  with r(1) show ?thesis by blast
qed

text \<open>
  The status gate cannot starve an operation: with one under way the reactor reports
  \<open>Running\<close> no later than the completion timeout after the last submission, in every mode; with nothing
  under way and nothing queued it reports \<open>Stopped\<close>, unless the submit depth is zero.
\<close>

theorem io_status_gate:
  assumes ok: "io_ok m r"
  shows "(io_completions r \<noteq> [] \<and> io_last_submit r + ip_wait_complete_timeout (io_params r) \<le> now \<longrightarrow> io_status always now r = Running) \<and>
    (io_completions r = [] \<and> (always \<or> ip_sq_poll (io_params r) \<noteq> None \<or> 0 < ip_submit_depth (io_params r)) \<longrightarrow>
       io_status always now r = Stopped)"
proof -
  have c: "io_completed r < io_counter r \<longleftrightarrow> io_completions r \<noteq> []"
  proof -
    have "unat (io_completed r) + length (io_completions r) = unat (io_counter r)" using ok by (simp add: io_ok_def)
    then have "unat (io_completed r) < unat (io_counter r) \<longleftrightarrow> 0 < length (io_completions r)" by linarith
    then show ?thesis by (simp add: u64_less_iff)
  qed
  have "io_completions r = [] \<Longrightarrow> io_sq r = []" using ok by (auto simp: io_ok_def)
  with c show ?thesis by (auto simp: io_status_def Let_def word_less_nat_alt)
qed

theorem io_status_gate_witness:
  "io_status False 100 (demo_reactor\<lparr>io_sq := [(0, ''read'')], io_completions := [(0, 0)], io_counter := 1,
     io_next_cell := 1, io_handles := \<lambda>_. \<lparr>hs_waker = Some ''a'', hs_result = None\<rparr>\<rparr>) = Running"
proof -
  let ?r = "demo_reactor\<lparr>io_sq := [(0, ''read'')], io_completions := [(0, 0)], io_counter := 1,
     io_next_cell := 1, io_handles := \<lambda>_. \<lparr>hs_waker = Some ''a'', hs_result = None\<rparr>\<rparr>"
  have ok: "io_ok 1 ?r" by (simp add: io_ok_def demo_reactor_def pending_cell_def)
  have "io_completions ?r \<noteq> [] \<and> io_last_submit ?r + ip_wait_complete_timeout (io_params ?r) \<le> 100"
    by (simp add: demo_reactor_def)
  with io_status_gate[OF ok, of 100 False] show ?thesis by blast
qed

text \<open>
  An operation whose handle was never polled brings the reactor down: when the kernel has
  completed it, the next reactor poll panics.
\<close>

theorem unpolled_handle_panics:
  assumes "push_sqe e r = Inr (cell, r1)" "io_cq r = []" "io_sq r = []" "io_inflight r = []"
    and "r2 = r1\<lparr>io_sq := [], io_cq := [(io_counter r, res)]\<rparr>"
  shows "poll_submit_and_completions now ok r2 = Inl (Panic ''Waker is None for user_data'')"
  using assms
  by (auto simp: push_sqe_def poll_submit_and_completions_def poll_submit_def handle_cqe_def handle_state_new_def Let_def
      update_conv run_simps split: if_splits option.splits)

theorem unpolled_handle_panics_witness:
  "\<exists>r1. push_sqe ''read'' demo_reactor = Inr (0, r1) \<and>
     poll_submit_and_completions 1 True (r1\<lparr>io_sq := [], io_cq := [(0, 8)]\<rparr>) = Inl (Panic ''Waker is None for user_data'')"
proof -
  obtain r1 where r1: "push_sqe ''read'' demo_reactor = Inr (0, r1)" by (simp add: push_sqe_def demo_reactor_def)
  with unpolled_handle_panics[OF r1 _ _ _ refl, where res = 8 and now = 1 and ok = True] show ?thesis
    by (auto simp: demo_reactor_def)
qed

end
