(* ===== verification/Uring_Files.thy ===== *)
theory Uring_Files
  imports Uring_Reactor
begin

section \<open>File operations on the io_uring reactor (\<open>pluvio_uring/src/file.rs\<close>)\<close>

text \<open>
  A file operation is an \<open>async fn\<close>: its first poll builds a submission entry, pushes it and awaits the
  handle. What an operation owns while it is under way (the \<open>Vec\<close>, the box of a \<open>statx\<close>, a registered
  buffer) is memory the kernel reads and writes; the theory shows that this memory stays with the operation
  until the kernel is done, as long as no operation is dropped while it is under way, and what happens
  otherwise. Heap boxes are addresses of an explicit store; \<open>debug_assert!\<close> has no effect in a release build.
\<close>

declare map_of_eq_Some_iff [simp del]

subsection \<open>Submission entries\<close>

text \<open>Descriptor, address, length, registered index and offset as the opcode has them.\<close>

datatype sqe =
  SqeRead int nat u32 u64
| SqeWrite int nat u32 u64
| SqeReadFixed int nat u32 u16 u64
| SqeWriteFixed int nat u32 u16 u64
| SqeFallocate int u64
| SqeFsync int
| SqeOpenAt int string int u32
| SqeClose int
| SqeStatx int string nat int u32
| SqeSendMsg int nat
| SqeRecvMsg int nat

definition AT_FDCWD :: int where
  "AT_FDCWD = - 100"

text \<open>The boxes on the heap: bytes of a \<open>Vec\<close>, or the structure the kernel fills.\<close>

datatype 'x storage = VecBox "u8 list" | StatxBox "u8 list" | SocketBox 'x

record ('w, 'x) io_world =
  iw_reactor :: "('w, sqe) io_reactor"
  iw_alloc :: "'w allocator"
  iw_boxes :: "nat \<Rightarrow> 'x storage option"
  iw_next_box :: nat

definition new_box :: "'x storage \<Rightarrow> ('w, 'x) io_world \<Rightarrow> nat \<times> ('w, 'x) io_world" where
  "new_box s w = (iw_next_box w, w\<lparr>iw_boxes := (iw_boxes w)(iw_next_box w \<mapsto> s), iw_next_box := Suc (iw_next_box w)\<rparr>)"

definition free_box :: "nat \<Rightarrow> ('w, 'x) io_world \<Rightarrow> ('w, 'x) io_world" where
  "free_box b w = w\<lparr>iw_boxes := (iw_boxes w)(b := None)\<rparr>"

subsection \<open>Operations\<close>

record dma_file =
  df_fd :: int

text \<open>The arguments of a call; a \<open>Vec\<close> is its box, its length is the length of its bytes.\<close>

datatype file_req =
  ReqRead int nat nat u64
| ReqWrite int nat nat u64
| ReqReadFixed int fixed_buffer u64 u32
| ReqWriteFixed int fixed_buffer u64 u32
| ReqReadRaw int u64 nat u32 u16
| ReqWriteRaw int u64 nat u32 u16
| ReqFallocate int u64
| ReqFsync int
| ReqOpen string int u32
| ReqClose int
| ReqStatx string int u32

text \<open>Errors of the system, of the arguments, and of a sender whose address family is not that of IPv4.\<close>

datatype io_error = OsError int | InvalidInput string | InvalidData u16

datatype file_out = OutInt int | OutFixed int fixed_buffer | OutFile dma_file | OutStatx "u8 list"

text \<open>\<open>CString::new\<close>: the path must not contain a zero byte.\<close>

definition cstring_new :: "string \<Rightarrow> io_error + string" where
  "cstring_new path = (if CHR 0x00 \<in> set path then Inl (InvalidInput ''path contains null byte'') else Inr path)"

text \<open>The size of \<open>libc::statx\<close>.\<close>

definition STATX_SIZE :: nat where
  "STATX_SIZE = 256"

text \<open>The entries of the calls.\<close>

definition read_sqe :: "int \<Rightarrow> nat \<Rightarrow> nat \<Rightarrow> u64 \<Rightarrow> sqe" where
  "read_sqe fd buffer len offset = SqeRead fd buffer (of_nat len) offset"

definition write_sqe :: "int \<Rightarrow> nat \<Rightarrow> nat \<Rightarrow> u64 \<Rightarrow> sqe" where
  "write_sqe fd buffer len offset = SqeWrite fd buffer (of_nat len) offset"

definition read_fixed_sqe :: "int \<Rightarrow> fixed_buffer \<Rightarrow> u64 \<Rightarrow> u32 \<Rightarrow> sqe" where
  "read_fixed_sqe fd buffer offset len = SqeReadFixed fd (fx_as_ptr buffer) len (of_nat (fx_index buffer)) offset"

definition write_fixed_sqe :: "int \<Rightarrow> fixed_buffer \<Rightarrow> u64 \<Rightarrow> u32 \<Rightarrow> sqe" where
  "write_fixed_sqe fd buffer offset len = SqeWriteFixed fd (fx_as_ptr buffer) len (of_nat (fx_index buffer)) offset"

definition write_fixed_raw_sqe :: "int \<Rightarrow> u64 \<Rightarrow> nat \<Rightarrow> u32 \<Rightarrow> u16 \<Rightarrow> sqe" where
  "write_fixed_raw_sqe fd offset ptr len buf_index = SqeWriteFixed fd ptr len buf_index offset"

definition read_fixed_raw_sqe :: "int \<Rightarrow> u64 \<Rightarrow> nat \<Rightarrow> u32 \<Rightarrow> u16 \<Rightarrow> sqe" where
  "read_fixed_raw_sqe fd offset ptr len buf_index = SqeReadFixed fd ptr len buf_index offset"

definition fallocate_sqe :: "int \<Rightarrow> u64 \<Rightarrow> sqe" where
  "fallocate_sqe fd len = SqeFallocate fd len"

definition fsync_sqe :: "int \<Rightarrow> sqe" where
  "fsync_sqe fd = SqeFsync fd"

definition open_sqe :: "string \<Rightarrow> int \<Rightarrow> u32 \<Rightarrow> io_error + sqe" where
  "open_sqe path flags mode = map_sum id (\<lambda>path_cstr. SqeOpenAt AT_FDCWD path_cstr flags mode) (cstring_new path)"

definition close_sqe :: "int \<Rightarrow> sqe" where
  "close_sqe fd = SqeClose fd"

definition statx_sqe :: "string \<Rightarrow> int \<Rightarrow> u32 \<Rightarrow> ('w, 'x) io_world \<Rightarrow> io_error + sqe \<times> nat option \<times> ('w, 'x) io_world" where
  "statx_sqe path flags msk w =
     map_sum id (\<lambda>path_cstr. case new_box (StatxBox (replicate STATX_SIZE 0)) w of
       (statx_buf, w) \<Rightarrow> (SqeStatx AT_FDCWD path_cstr statx_buf flags msk, Some statx_buf, w)) (cstring_new path)"

text \<open>The code before the await: the entry to push, and the box of the call if it has one.\<close>

definition start_req :: "file_req \<Rightarrow> ('w, 'x) io_world \<Rightarrow> io_error + sqe \<times> nat option \<times> ('w, 'x) io_world" where
  "start_req req w =
     (case req of
        ReqRead fd buf len offset \<Rightarrow> Inr (read_sqe fd buf len offset, Some buf, w)
      | ReqWrite fd buf len offset \<Rightarrow> Inr (write_sqe fd buf len offset, Some buf, w)
      | ReqReadFixed fd b offset len \<Rightarrow> Inr (read_fixed_sqe fd b offset len, None, w)
      | ReqWriteFixed fd b offset len \<Rightarrow> Inr (write_fixed_sqe fd b offset len, None, w)
      | ReqReadRaw fd offset ptr len idx \<Rightarrow> Inr (read_fixed_raw_sqe fd offset ptr len idx, None, w)
      | ReqWriteRaw fd offset ptr len idx \<Rightarrow> Inr (write_fixed_raw_sqe fd offset ptr len idx, None, w)
      | ReqFallocate fd sz \<Rightarrow> Inr (fallocate_sqe fd sz, None, w)
      | ReqFsync fd \<Rightarrow> Inr (fsync_sqe fd, None, w)
      | ReqOpen path flags mode \<Rightarrow> map_sum id (\<lambda>sqe. (sqe, None, w)) (open_sqe path flags mode)
      | ReqClose fd \<Rightarrow> Inr (close_sqe fd, None, w)
      | ReqStatx path flags msk \<Rightarrow> statx_sqe path flags msk w)"

lemmas start_req_defs = start_req_def read_sqe_def write_sqe_def read_fixed_sqe_def write_fixed_sqe_def write_fixed_raw_sqe_def
  read_fixed_raw_sqe_def fallocate_sqe_def fsync_sqe_def open_sqe_def close_sqe_def statx_sqe_def

datatype fut_state = FutStart | FutWait nat | FutDone

text \<open>The registered buffer a call owns.\<close>

definition req_fixed :: "file_req \<Rightarrow> fixed_buffer option" where
  "req_fixed req = (case req of ReqReadFixed _ b _ _ \<Rightarrow> Some b | ReqWriteFixed _ b _ _ \<Rightarrow> Some b | _ \<Rightarrow> None)"

text \<open>The box a call owns from the start.\<close>

definition req_box :: "file_req \<Rightarrow> nat option" where
  "req_box req = (case req of ReqRead _ b _ _ \<Rightarrow> Some b | ReqWrite _ b _ _ \<Rightarrow> Some b | _ \<Rightarrow> None)"

record file_fut =
  fu_req :: file_req
  fu_box :: "nat option"
  fu_state :: fut_state

definition file_call :: "file_req \<Rightarrow> file_fut" where
  "file_call req = \<lparr>fu_req = req, fu_box = req_box req, fu_state = FutStart\<rparr>"

definition free_opt :: "nat option \<Rightarrow> ('w, 'x) io_world \<Rightarrow> ('w, 'x) io_world" where
  "free_opt b w = (case b of None \<Rightarrow> w | Some b \<Rightarrow> free_box b w)"

definition return_buffer :: "fixed_buffer option \<Rightarrow> ('w, 'x) io_world \<Rightarrow> ('w, 'x) io_world" where
  "return_buffer b w = (case b of None \<Rightarrow> w | Some b \<Rightarrow> w\<lparr>iw_alloc := buffer_drop b (iw_alloc w)\<rparr>)"

text \<open>The values \<open>open\<close> and \<open>statx\<close> make of a result.\<close>

definition open_result :: "int \<Rightarrow> file_out" where
  "open_result fd = OutFile \<lparr>df_fd = fd\<rparr>"

definition statx_result :: "nat option \<Rightarrow> ('w, 'x) io_world \<Rightarrow> file_out" where
  "statx_result box w =
     (case box of None \<Rightarrow> OutStatx []
      | Some b \<Rightarrow> (case iw_boxes w b of Some (StatxBox st) \<Rightarrow> OutStatx st | _ \<Rightarrow> OutStatx []))"

text \<open>The code after the await, and the drop of what the call still owns.\<close>

definition finish_req :: "file_req \<Rightarrow> nat option \<Rightarrow> int + int \<Rightarrow> ('w, 'x) io_world \<Rightarrow> (io_error + file_out) \<times> ('w, 'x) io_world" where
  "finish_req req box res w =
     (case res of
        Inl e \<Rightarrow> (Inl (OsError e), return_buffer (req_fixed req) (free_opt box w))
      | Inr n \<Rightarrow>
          (case req_fixed req of
             Some b \<Rightarrow> (Inr (OutFixed n b), w)
           | None \<Rightarrow>
               ((case req of
                   ReqOpen _ _ _ \<Rightarrow> Inr (open_result n)
                 | ReqStatx _ _ _ \<Rightarrow> Inr (statx_result box w)
                 | _ \<Rightarrow> Inr (OutInt n)), free_opt box w)))"

definition fut_await :: "'w \<Rightarrow> nat \<Rightarrow> file_fut \<Rightarrow> ('w, 'x) io_world \<Rightarrow> (io_error + file_out) poll \<times> file_fut \<times> ('w, 'x) io_world" where
  "fut_await k cell f w =
     (case wait_poll k cell (iw_reactor w) of
        (Pending, r) \<Rightarrow> (Pending, f\<lparr>fu_state := FutWait cell\<rparr>, w\<lparr>iw_reactor := r\<rparr>)
      | (Ready res, r) \<Rightarrow>
          (case finish_req (fu_req f) (fu_box f) res (w\<lparr>iw_reactor := r\<rparr>) of
             (out, w) \<Rightarrow> (Ready out, f\<lparr>fu_box := None, fu_state := FutDone\<rparr>, w)))"

definition fut_poll :: "'w \<Rightarrow> file_fut \<Rightarrow> ('w, 'x) io_world \<Rightarrow> ((io_error + file_out) poll \<times> file_fut \<times> ('w, 'x) io_world) run" where
  "fut_poll k f w =
     (case fu_state f of
        FutDone \<Rightarrow> Inl (Panic ''`async fn` resumed after completion'')
      | FutWait cell \<Rightarrow> Inr (fut_await k cell f w)
      | FutStart \<Rightarrow>
          (case start_req (fu_req f) w of
             Inl e \<Rightarrow> Inr (Ready (Inl e), f\<lparr>fu_box := None, fu_state := FutDone\<rparr>, w)
           | Inr (sqe, box, w) \<Rightarrow>
               run_bind (push_sqe sqe (iw_reactor w)) (\<lambda>(cell, r).
                 Inr (fut_await k cell (f\<lparr>fu_box := box\<rparr>) (w\<lparr>iw_reactor := r\<rparr>)))))"

text \<open>Dropping a call: the locals are freed and the registered buffer goes back to the pool.\<close>

definition fut_drop :: "file_fut \<Rightarrow> ('w, 'x) io_world \<Rightarrow> ('w, 'x) io_world" where
  "fut_drop f w = (if fu_state f = FutDone then w else return_buffer (req_fixed (fu_req f)) (free_opt (fu_box f) w))"

subsection \<open>Histories\<close>

text \<open>
  Calls are made, polled until they are ready, and dropped; registered buffers are acquired, passed to calls
  and released; the reactor and the kernel make their steps. A call that is ready hands its buffer back.
\<close>

datatype 'w file_op =
  FRead int "u8 list" u64 | FWrite int "u8 list" u64 | FFixed bool int nat u64 u32 | FPlain file_req
| FPoll nat 'w | FDrop nat | FAcquire | FRelease nat | FIo "('w, sqe) io_op"

record ('w, 'x) file_hist =
  fh_world :: "('w, 'x) io_world"
  fh_futs :: "(nat \<times> file_fut) list"
  fh_held :: "fixed_buffer list"
  fh_next :: nat

definition add_fut :: "file_req \<Rightarrow> ('w, 'x) file_hist \<Rightarrow> ('w, 'x) file_hist" where
  "add_fut req h = h\<lparr>fh_futs := (fh_next h, file_call req) # fh_futs h, fh_next := Suc (fh_next h)\<rparr>"

definition remove_nth :: "nat \<Rightarrow> 'a list \<Rightarrow> 'a list" where
  "remove_nth i xs = take i xs @ drop (Suc i) xs"

fun file_step :: "'w file_op \<Rightarrow> ('w, 'x) file_hist \<Rightarrow> ('w, 'x) file_hist run" where
  "file_step (FRead fd bytes offset) h =
     (case new_box (VecBox bytes) (fh_world h) of (b, w) \<Rightarrow> Inr (add_fut (ReqRead fd b (length bytes) offset) (h\<lparr>fh_world := w\<rparr>)))"
| "file_step (FWrite fd bytes offset) h =
     (case new_box (VecBox bytes) (fh_world h) of (b, w) \<Rightarrow> Inr (add_fut (ReqWrite fd b (length bytes) offset) (h\<lparr>fh_world := w\<rparr>)))"
| "file_step (FFixed rd fd i offset len) h =
     Inr (if i < length (fh_held h)
          then let b = fh_held h ! i
               in add_fut (if rd then ReqReadFixed fd b offset len else ReqWriteFixed fd b offset len)
                    (h\<lparr>fh_held := remove_nth i (fh_held h)\<rparr>)
          else h)"
| "file_step (FPlain req) h = Inr (if req_fixed req = None \<and> req_box req = None then add_fut req h else h)"
| "file_step (FPoll i k) h =
     (case map_of (fh_futs h) i of None \<Rightarrow> Inr h
      | Some f \<Rightarrow> run_bind (fut_poll k f (fh_world h)) (\<lambda>(p, f, w).
          case p of
            Pending \<Rightarrow> Inr (h\<lparr>fh_world := w, fh_futs := AList.update i f (fh_futs h)\<rparr>)
          | Ready out \<Rightarrow> Inr (h\<lparr>fh_world := w, fh_futs := AList.delete i (fh_futs h),
              fh_held := (case out of Inr (OutFixed _ b) \<Rightarrow> b # fh_held h | _ \<Rightarrow> fh_held h)\<rparr>)))"
| "file_step (FDrop i) h =
     Inr (case map_of (fh_futs h) i of None \<Rightarrow> h
          | Some f \<Rightarrow> h\<lparr>fh_world := fut_drop f (fh_world h), fh_futs := AList.delete i (fh_futs h)\<rparr>)"
| "file_step FAcquire h =
     Inr (case try_acquire (iw_alloc (fh_world h)) of
            (None, al) \<Rightarrow> h
          | (Some b, al) \<Rightarrow> h\<lparr>fh_world := (fh_world h)\<lparr>iw_alloc := al\<rparr>, fh_held := b # fh_held h\<rparr>)"
| "file_step (FRelease i) h =
     Inr (if i < length (fh_held h)
          then h\<lparr>fh_world := return_buffer (Some (fh_held h ! i)) (fh_world h), fh_held := remove_nth i (fh_held h)\<rparr> else h)"
| "file_step (FIo op) h = run_bind (io_step op (iw_reactor (fh_world h))) (\<lambda>r. Inr (h\<lparr>fh_world := (fh_world h)\<lparr>iw_reactor := r\<rparr>\<rparr>))"

fun file_run :: "'w file_op list \<Rightarrow> ('w, 'x) file_hist \<Rightarrow> ('w, 'x) file_hist run" where
  "file_run [] h = Inr h"
| "file_run (op # ops) h = run_bind (file_step op h) (file_run ops)"

text \<open>The steps of the reactor and the kernel; the entries are pushed by the calls.\<close>

fun machine_op :: "('w, 'e) io_op \<Rightarrow> bool" where
  "machine_op (IReactor now ok) \<longleftrightarrow> True"
| "machine_op (KTake n) \<longleftrightarrow> True"
| "machine_op (KComplete i res) \<longleftrightarrow> True"
| "machine_op KSleep \<longleftrightarrow> True"
| "machine_op _ \<longleftrightarrow> False"

text \<open>A step that drops no call under way and passes no raw pointer.\<close>

fun keeps_calls :: "'w file_op \<Rightarrow> ('w, 'x) file_hist \<Rightarrow> bool" where
  "keeps_calls (FDrop i) h \<longleftrightarrow> (case map_of (fh_futs h) i of Some f \<Rightarrow> fu_state f = FutStart | None \<Rightarrow> True)"
| "keeps_calls (FIo op) h \<longleftrightarrow> machine_op op"
| "keeps_calls (FPlain req) h \<longleftrightarrow> (case req of ReqReadRaw _ _ _ _ _ \<Rightarrow> False | ReqWriteRaw _ _ _ _ _ \<Rightarrow> False | _ \<Rightarrow> True)"
| "keeps_calls _ h \<longleftrightarrow> True"

fun keeps_run :: "'w file_op list \<Rightarrow> ('w, 'x) file_hist \<Rightarrow> bool" where
  "keeps_run [] h \<longleftrightarrow> True"
| "keeps_run (op # ops) h \<longleftrightarrow> keeps_calls op h \<and> (case file_step op h of Inl _ \<Rightarrow> True | Inr h \<Rightarrow> keeps_run ops h)"

text \<open>The memory an entry lets the kernel use.\<close>

definition sqe_box :: "sqe \<Rightarrow> nat option" where
  "sqe_box e = (case e of SqeRead _ b _ _ \<Rightarrow> Some b | SqeWrite _ b _ _ \<Rightarrow> Some b | SqeStatx _ _ b _ _ \<Rightarrow> Some b
     | SqeSendMsg _ b \<Rightarrow> Some b | SqeRecvMsg _ b \<Rightarrow> Some b | _ \<Rightarrow> None)"

definition sqe_fixed :: "sqe \<Rightarrow> nat option" where
  "sqe_fixed e = (case e of SqeReadFixed _ p _ _ _ \<Rightarrow> Some p | SqeWriteFixed _ p _ _ _ \<Rightarrow> Some p | _ \<Rightarrow> None)"

definition entries :: "('w, 'e) io_reactor \<Rightarrow> (u64 \<times> 'e) list" where
  "entries r = io_sq r @ io_inflight r"

text \<open>The memory is live and is nobody else's: a heap box exists, a registered buffer is not in the pool.\<close>

definition entry_safe :: "('w, 'x) io_world \<Rightarrow> sqe \<Rightarrow> bool" where
  "entry_safe w e \<longleftrightarrow>
     (case sqe_box e of Some b \<Rightarrow> iw_boxes w b \<noteq> None | None \<Rightarrow> True) \<and>
     (case sqe_fixed e of Some p \<Rightarrow> p \<notin> fb_addr ` set (al_buffers (iw_alloc w)) | None \<Rightarrow> True)"

subsection \<open>What the reactor and the kernel do to the entries\<close>

lemma handle_cqes_frame:
  "handle_cqes cqs r = Inr r' \<Longrightarrow> set (io_completions r') \<subseteq> set (io_completions r) \<and> entries r' = entries r \<and> io_next_cell r' = io_next_cell r"
proof (induction cqs arbitrary: r)
  case (Cons cqe cqs)
  then obtain r1 where r1: "handle_cqe cqe r = Inr r1" "handle_cqes cqs r1 = Inr r'" by (auto simp: run_simps)
  have "set (io_completions r1) \<subseteq> set (io_completions r) \<and> entries r1 = entries r \<and> io_next_cell r1 = io_next_cell r"
    using r1(1) set_delete_sub by (fastforce simp: handle_cqe_def entries_def Let_def split: prod.splits option.splits)
  with Cons.IH[OF r1(2)] show ?case by auto
qed simp

lemma poll_submit_ok: "poll_submit now ok r = Inr r1 \<Longrightarrow> poll_submit now True r = Inr r1"
  by (auto simp: poll_submit_def ring_submit_def run_simps Let_def split: if_splits option.splits)

lemma poll_submit_frame:
  "poll_submit now ok r = Inr r1 \<Longrightarrow> set (entries r1) = set (entries r) \<and> io_completions r1 = io_completions r \<and> io_next_cell r1 = io_next_cell r"
  by (auto simp: poll_submit_def ring_submit_def entries_def run_simps Let_def split: if_splits option.splits)

lemma machine_step:
  assumes op: "machine_op op" and ok: "io_ok m r" and m: "Suc m < 2 ^ 64" and step: "io_step op r = Inr r'"
  shows "io_ok m r'" "set (entries r') \<subseteq> set (entries r)" "set (io_completions r') \<subseteq> set (io_completions r)" "io_next_cell r' = io_next_cell r"
proof -
  have "io_ok m r' \<and> set (entries r') \<subseteq> set (entries r) \<and> set (io_completions r') \<subseteq> set (io_completions r) \<and> io_next_cell r' = io_next_cell r"
  proof (cases op)
    case (IReactor now a)
    then obtain r1 where r1: "poll_submit now a r = Inr r1" "handle_cqes (io_cq r1) (r1\<lparr>io_cq := []\<rparr>) = Inr r'"
      using step by (auto simp: poll_submit_and_completions_def run_simps)
    have "poll_submit_and_completions now True r = Inr r'"
      using poll_submit_ok[OF r1(1)] r1(2) by (simp add: poll_submit_and_completions_def)
    with reactor_poll_delivers[OF ok, of now] have "io_ok m r'" by auto
    then show ?thesis using handle_cqes_frame[OF r1(2)] poll_submit_frame[OF r1(1)] by (auto simp: entries_def)
  next
    case (KTake n)
    then show ?thesis using io_step_ok[OF ok, of op] m step
      by (auto simp: pushed_def entries_def dest: in_set_takeD in_set_dropD)
  next
    case (KComplete i res)
    then show ?thesis using io_step_ok[OF ok, of op] m step
      by (auto simp: pushed_def entries_def dest: in_set_takeD in_set_dropD split: if_splits)
  next
    case KSleep
    then show ?thesis using io_step_ok[OF ok, of op] m step by (auto simp: pushed_def entries_def)
  qed (use op in simp_all)
  then show "io_ok m r'" "set (entries r') \<subseteq> set (entries r)" "set (io_completions r') \<subseteq> set (io_completions r)"
    "io_next_cell r' = io_next_cell r" by blast+
qed

lemma entry_key:
  assumes "io_ok m r" "(u, e) \<in> set (entries r)"
  shows "u \<in> fst ` set (io_completions r)"
proof -
  have "u \<in> set (under_way r)" using assms(2) by (force simp: entries_def)
  moreover have "set (under_way r) = fst ` set (io_completions r)" using assms(1) unfolding io_ok_def by blast
  ultimately show ?thesis by (rule back_subst[of "\<lambda>A. u \<in> A"])
qed

text \<open>An entry that is still there keeps its cell.\<close>

lemma entry_cell_kept:
  assumes ok: "io_ok m r" "io_ok m' r'" and sub: "set (io_completions r') \<subseteq> set (io_completions r)"
    and e: "(u, e) \<in> set (entries r')" and c: "map_of (io_completions r) u = Some c"
  shows "map_of (io_completions r') u = Some c"
proof -
  have "u \<in> fst ` set (io_completions r')" by (rule entry_key[OF ok(2) e])
  then obtain c' where c': "(u, c') \<in> set (io_completions r')" by auto
  have d: "distinct (map fst (io_completions r))" "distinct (map fst (io_completions r'))" using ok by (simp_all add: io_ok_def)
  have "map_of (io_completions r) u = Some c'" by (rule map_of_is_SomeI[OF d(1)]) (use c' sub in blast)
  with c have "c' = c" by simp
  with map_of_is_SomeI[OF d(2) c'] show ?thesis by simp
qed

text \<open>A result that is there belongs to no entry.\<close>

lemma result_no_entry:
  assumes ok: "io_ok m r" and res: "hs_result (io_handles r c) \<noteq> None"
  shows "map_of (io_completions r) u \<noteq> Some c"
proof
  assume "map_of (io_completions r) u = Some c"
  then have "(u, c) \<in> set (io_completions r)" by (rule map_of_SomeD)
  then have "pending_cell r (u, c)" using ok by (simp add: io_ok_def list_all_iff)
  with res show False by (simp add: pending_cell_def)
qed

lemma await_new:
  assumes ok: "io_ok m r" and m: "Suc m < 2 ^ 64" and push: "push_sqe e r = Inr (cell, r1)"
  shows "cell = io_next_cell r" "fst (wait_poll k cell r1) = Pending" "io_ok (Suc m) (snd (wait_poll k cell r1))"
    "set (entries (snd (wait_poll k cell r1))) = insert (io_counter r, e) (set (entries r))"
    "io_next_cell (snd (wait_poll k cell r1)) = Suc cell"
    "map_of (io_completions (snd (wait_poll k cell r1))) (io_counter r) = Some cell"
    "u \<noteq> io_counter r \<Longrightarrow> map_of (io_completions (snd (wait_poll k cell r1))) u = map_of (io_completions r) u"
    "(io_counter r, x) \<notin> set (entries r)"
proof -
  have room: "length (io_sq r) < io_sq_entries r" using push by (simp add: push_sqe_def Let_def split: if_splits)
  have p: "cell = io_next_cell r" "r1 = r\<lparr>io_counter := io_counter r + 1, io_next_cell := Suc cell,
      io_handles := (io_handles r)(cell := handle_state_new), io_completions := AList.update (io_counter r) cell (io_completions r),
      io_sq := io_sq r @ [(io_counter r, e)]\<rparr>"
    using push by (auto simp: push_sqe_def Let_def split: if_splits)
  show "cell = io_next_cell r" by (rule p(1))
  show "fst (wait_poll k cell r1) = Pending" using p by (simp add: wait_poll_def handle_state_new_def)
  have "io_step (IAwait e k) r = Inr (snd (wait_poll k cell r1))" using push by simp
  with io_ok_await[OF ok room m, of e k] show "io_ok (Suc m) (snd (wait_poll k cell r1))" by auto
  have w: "snd (wait_poll k cell r1) = r1\<lparr>io_handles := (io_handles r1)(cell := (io_handles r1 cell)\<lparr>hs_waker := Some k\<rparr>)\<rparr>"
    using p by (simp add: wait_poll_def handle_state_new_def)
  show "set (entries (snd (wait_poll k cell r1))) = insert (io_counter r, e) (set (entries r))"
    unfolding w unfolding p(2) by (auto simp: entries_def)
  show "io_next_cell (snd (wait_poll k cell r1)) = Suc cell" unfolding w unfolding p(2) by simp
  show "map_of (io_completions (snd (wait_poll k cell r1))) (io_counter r) = Some cell"
    unfolding w unfolding p(2) by (simp add: update_conv')
  show "u \<noteq> io_counter r \<Longrightarrow> map_of (io_completions (snd (wait_poll k cell r1))) u = map_of (io_completions r) u"
    unfolding w unfolding p(2) by (simp add: update_conv')
  show "(io_counter r, x) \<notin> set (entries r)"
  proof
    assume "(io_counter r, x) \<in> set (entries r)"
    then have "io_counter r \<in> fst ` set (io_completions r)" by (rule entry_key[OF ok])
    then obtain c where "(io_counter r, c) \<in> set (io_completions r)" by auto
    then have "pending_cell r (io_counter r, c)" using ok by (simp add: io_ok_def list_all_iff)
    then show False by (simp add: pending_cell_def)
  qed
qed

subsection \<open>Who owns the memory\<close>

definition fut_ok :: "('w, 'x) io_world \<Rightarrow> file_fut \<Rightarrow> bool" where
  "fut_ok w f \<longleftrightarrow> fu_state f \<noteq> FutDone \<and>
     (\<forall>b. fu_box f = Some b \<longrightarrow> iw_boxes w b \<noteq> None \<and> b < iw_next_box w) \<and>
     (\<forall>b. req_fixed (fu_req f) = Some b \<longrightarrow> fx_buffer b \<noteq> None) \<and>
     (case fu_req f of ReqReadRaw _ _ _ _ _ \<Rightarrow> False | ReqWriteRaw _ _ _ _ _ \<Rightarrow> False | _ \<Rightarrow> True) \<and>
     (fu_state f = FutStart \<longrightarrow> fu_box f = req_box (fu_req f)) \<and>
     (\<forall>c. fu_state f = FutWait c \<longrightarrow> c < io_next_cell (iw_reactor w))"

definition owns :: "file_fut \<Rightarrow> ('w, sqe) io_reactor \<Rightarrow> u64 \<Rightarrow> sqe \<Rightarrow> bool" where
  "owns f r u e \<longleftrightarrow> (\<exists>c. fu_state f = FutWait c \<and> map_of (io_completions r) u = Some c) \<and>
     (\<forall>b. sqe_box e = Some b \<longrightarrow> fu_box f = Some b) \<and>
     (\<forall>p. sqe_fixed e = Some p \<longrightarrow> (\<exists>b. req_fixed (fu_req f) = Some b \<and> fx_as_ptr b = p))"

definition apart :: "file_fut \<Rightarrow> file_fut \<Rightarrow> bool" where
  "apart f g \<longleftrightarrow> (\<forall>b. fu_box f = Some b \<longrightarrow> fu_box g \<noteq> Some b) \<and> (\<forall>c. fu_state f = FutWait c \<longrightarrow> fu_state g \<noteq> FutWait c)"

definition file_inv :: "nat \<Rightarrow> ('w, 'x) file_hist \<Rightarrow> bool" where
  "file_inv m h \<longleftrightarrow> io_ok m (iw_reactor (fh_world h)) \<and> distinct (map fst (fh_futs h)) \<and>
     (\<forall>(i, f) \<in> set (fh_futs h). i < fh_next h \<and> fut_ok (fh_world h) f) \<and>
     (\<forall>(i, f) \<in> set (fh_futs h). \<forall>(j, g) \<in> set (fh_futs h). i \<noteq> j \<longrightarrow> apart f g) \<and>
     (\<forall>b \<in> set (fh_held h). fx_buffer b \<noteq> None) \<and>
     (\<forall>(u, e) \<in> set (entries (iw_reactor (fh_world h))). \<exists>(i, f) \<in> set (fh_futs h). owns f (iw_reactor (fh_world h)) u e)"

text \<open>The registered buffers, by address: in the pool, held by tasks, and with the calls.\<close>

definition fut_fixed :: "file_fut \<Rightarrow> nat multiset" where
  "fut_fixed f = (case req_fixed (fu_req f) of Some b \<Rightarrow> {#fx_as_ptr b#} | None \<Rightarrow> {#})"

definition all_fixed :: "('w, 'x) file_hist \<Rightarrow> nat multiset" where
  "all_fixed h = mset (map fb_addr (al_buffers (iw_alloc (fh_world h)))) + mset (map fx_as_ptr (fh_held h)) +
     \<Sum>\<^sub># (image_mset (\<lambda>(i, f). fut_fixed f) (mset (fh_futs h)))"

lemma file_invD:
  assumes "file_inv m h"
  shows "io_ok m (iw_reactor (fh_world h))" "distinct (map fst (fh_futs h))"
    "(i, f) \<in> set (fh_futs h) \<Longrightarrow> i < fh_next h" "(i, f) \<in> set (fh_futs h) \<Longrightarrow> fut_ok (fh_world h) f"
    "(i, f) \<in> set (fh_futs h) \<Longrightarrow> (j, g) \<in> set (fh_futs h) \<Longrightarrow> i \<noteq> j \<Longrightarrow> apart f g"
    "b \<in> set (fh_held h) \<Longrightarrow> fx_buffer b \<noteq> None"
    "(u, e) \<in> set (entries (iw_reactor (fh_world h))) \<Longrightarrow> \<exists>i f. (i, f) \<in> set (fh_futs h) \<and> owns f (iw_reactor (fh_world h)) u e"
  using assms unfolding file_inv_def by (fast | blast)+

lemma file_invI:
  assumes "io_ok m (iw_reactor (fh_world h))" "distinct (map fst (fh_futs h))"
    and "\<And>i f. (i, f) \<in> set (fh_futs h) \<Longrightarrow> i < fh_next h \<and> fut_ok (fh_world h) f"
    and "\<And>i f j g. (i, f) \<in> set (fh_futs h) \<Longrightarrow> (j, g) \<in> set (fh_futs h) \<Longrightarrow> i \<noteq> j \<Longrightarrow> apart f g"
    and "\<And>b. b \<in> set (fh_held h) \<Longrightarrow> fx_buffer b \<noteq> None"
    and "\<And>u e. (u, e) \<in> set (entries (iw_reactor (fh_world h))) \<Longrightarrow> \<exists>i f. (i, f) \<in> set (fh_futs h) \<and> owns f (iw_reactor (fh_world h)) u e"
  shows "file_inv m h"
  unfolding file_inv_def using assms by fast

subsection \<open>Every step keeps the invariant\<close>

lemma set_delete_eq: "set (AList.delete k xs) = {x \<in> set xs. fst x \<noteq> k}"
  by (auto simp: AList.delete_eq)

lemma set_update_eq:
  assumes "distinct (map fst xs)" "map_of xs k = Some v"
  shows "set (AList.update k v' xs) = insert (k, v') {x \<in> set xs. fst x \<noteq> k}"
  using arg_cong[OF mset_update[OF assms], of set_mset] by (simp add: set_delete_eq)

lemma fut_ok_mono:
  assumes "fut_ok w f" "\<And>b. iw_boxes w b \<noteq> None \<Longrightarrow> b < iw_next_box w \<Longrightarrow> fu_box f = Some b \<Longrightarrow> iw_boxes w' b \<noteq> None"
    "iw_next_box w \<le> iw_next_box w'" "io_next_cell (iw_reactor w) \<le> io_next_cell (iw_reactor w')"
  shows "fut_ok w' f"
  using assms unfolding fut_ok_def by (meson order_less_le_trans)

lemma owns_frame:
  assumes "owns f r u e" "\<And>c. map_of (io_completions r) u = Some c \<Longrightarrow> map_of (io_completions r') u = Some c"
  shows "owns f r' u e"
  using assms unfolding owns_def by blast

lemma apart_sym: "apart f g \<Longrightarrow> apart g f"
  unfolding apart_def by blast

text \<open>A call is gone.\<close>

lemma inv_remove:
  assumes inv: "file_inv m h" and f: "map_of (fh_futs h) i = Some f" and ok: "io_ok m' (iw_reactor w)"
    and box: "\<And>b. Some b \<noteq> fu_box f \<Longrightarrow> iw_boxes (fh_world h) b \<noteq> None \<Longrightarrow> iw_boxes w b \<noteq> None"
    and next_box: "iw_next_box w = iw_next_box (fh_world h)" "io_next_cell (iw_reactor w) = io_next_cell (iw_reactor (fh_world h))"
    and ent: "set (entries (iw_reactor w)) \<subseteq> set (entries (iw_reactor (fh_world h)))" "io_completions (iw_reactor w) = io_completions (iw_reactor (fh_world h))"
    and free: "\<And>u e. (u, e) \<in> set (entries (iw_reactor (fh_world h))) \<Longrightarrow> \<not> owns f (iw_reactor (fh_world h)) u e"
    and held: "\<And>b. b \<in> set held \<Longrightarrow> fx_buffer b \<noteq> None"
  shows "file_inv m' (h\<lparr>fh_world := w, fh_futs := AList.delete i (fh_futs h), fh_held := held\<rparr>)"
proof (rule file_invI)
  note D = file_invD[OF inv]
  have fi: "(i, f) \<in> set (fh_futs h)" using f by (rule map_of_SomeD)
  let ?h = "h\<lparr>fh_world := w, fh_futs := AList.delete i (fh_futs h), fh_held := held\<rparr>"
  show "io_ok m' (iw_reactor (fh_world ?h))" using ok by simp
  show "distinct (map fst (fh_futs ?h))" using D(2) by (simp add: distinct_delete)
  show "j < fh_next ?h \<and> fut_ok (fh_world ?h) g" if "(j, g) \<in> set (fh_futs ?h)" for j g
  proof -
    have g: "(j, g) \<in> set (fh_futs h)" "j \<noteq> i" using that by (auto simp: set_delete_eq)
    have "fut_ok w g"
    proof (rule fut_ok_mono[OF D(4)[OF g(1)]])
      fix b assume b: "iw_boxes (fh_world h) b \<noteq> None" "fu_box g = Some b"
      have "Some b \<noteq> fu_box f" using D(5)[OF g(1) fi g(2)] b(2) by (auto simp: apart_def)
      then show "iw_boxes w b \<noteq> None" using box b(1) by blast
    qed (simp_all add: next_box)
    then show ?thesis using D(3)[OF g(1)] by simp
  qed
  show "apart g g'" if "(j, g) \<in> set (fh_futs ?h)" "(j', g') \<in> set (fh_futs ?h)" "j \<noteq> j'" for j g j' g'
    using D(5) that by (auto simp: set_delete_eq)
  show "fx_buffer b \<noteq> None" if "b \<in> set (fh_held ?h)" for b using held that by simp
  show "\<exists>j g. (j, g) \<in> set (fh_futs ?h) \<and> owns g (iw_reactor (fh_world ?h)) u e" if "(u, e) \<in> set (entries (iw_reactor (fh_world ?h)))" for u e
  proof -
    have ue: "(u, e) \<in> set (entries (iw_reactor (fh_world h)))" using that ent(1) by auto
    from D(7)[OF ue] obtain j g where g: "(j, g) \<in> set (fh_futs h)" "owns g (iw_reactor (fh_world h)) u e" by blast
    have "j \<noteq> i"
    proof
      assume "j = i"
      then have "g = f" using f g(1) D(2) by (metis map_of_is_SomeI option.inject)
      then show False using free[OF ue] g(2) by simp
    qed
    moreover have "owns g (iw_reactor w) u e" by (rule owns_frame[OF g(2)]) (simp add: ent(2))
    ultimately show ?thesis using g(1) by (auto simp: set_delete_eq)
  qed
qed

text \<open>A new call.\<close>

lemma inv_add:
  assumes inv: "file_inv m h" and w: "iw_reactor w = iw_reactor (fh_world h)" "iw_next_box (fh_world h) \<le> iw_next_box w"
      "\<And>b. iw_boxes (fh_world h) b \<noteq> None \<Longrightarrow> iw_boxes w b \<noteq> None"
    and ok: "fut_ok w (file_call req)" and new: "\<And>b j g. req_box req = Some b \<Longrightarrow> (j, g) \<in> set (fh_futs h) \<Longrightarrow> fu_box g \<noteq> Some b"
    and held: "set held \<subseteq> set (fh_held h)"
  shows "file_inv m (add_fut req (h\<lparr>fh_world := w, fh_held := held\<rparr>))"
proof (rule file_invI)
  note D = file_invD[OF inv]
  let ?h = "add_fut req (h\<lparr>fh_world := w, fh_held := held\<rparr>)"
  have fresh: "fh_next h \<noteq> j" if "(j, g) \<in> set (fh_futs h)" for j g using D(3)[OF that] by simp
  have ap: "apart (file_call req) g" if "(j, g) \<in> set (fh_futs h)" for j g
    using new[OF _ that] by (auto simp: apart_def file_call_def)
  show "io_ok m (iw_reactor (fh_world ?h))" using D(1) w(1) by (simp add: add_fut_def)
  show "distinct (map fst (fh_futs ?h))" using D(2) fresh by (force simp: add_fut_def)
  show "j < fh_next ?h \<and> fut_ok (fh_world ?h) g" if "(j, g) \<in> set (fh_futs ?h)" for j g
  proof (cases "(j, g) = (fh_next h, file_call req)")
    case True
    then show ?thesis using ok by (simp add: add_fut_def)
  next
    case False
    then have g: "(j, g) \<in> set (fh_futs h)" using that by (auto simp: add_fut_def)
    have "fut_ok w g" by (rule fut_ok_mono[OF D(4)[OF g]]) (use w in simp_all)
    then show ?thesis using D(3)[OF g] by (simp add: add_fut_def)
  qed
  show "apart g g'" if "(j, g) \<in> set (fh_futs ?h)" "(j', g') \<in> set (fh_futs ?h)" "j \<noteq> j'" for j g j' g'
    using D(5) that ap apart_sym[OF ap] by (auto simp: add_fut_def)
  show "fx_buffer b \<noteq> None" if "b \<in> set (fh_held ?h)" for b using D(6) held that by (auto simp: add_fut_def)
  show "\<exists>j g. (j, g) \<in> set (fh_futs ?h) \<and> owns g (iw_reactor (fh_world ?h)) u e" if "(u, e) \<in> set (entries (iw_reactor (fh_world ?h)))" for u e
    using D(7)[of u e] that w(1) by (auto simp: add_fut_def)
qed

text \<open>A call has pushed its entry.\<close>

lemma inv_start:
  assumes inv: "file_inv m h" and f: "map_of (fh_futs h) i = Some f" "fu_state f = FutStart" and m: "Suc m < 2 ^ 64"
    and start: "start_req (fu_req f) (fh_world h) = Inr (e, box, w)" and push: "push_sqe e (iw_reactor w) = Inr (cell, r)"
  shows "file_inv (Suc m) (h\<lparr>fh_world := w\<lparr>iw_reactor := snd (wait_poll k cell r)\<rparr>,
    fh_futs := AList.update i (f\<lparr>fu_box := box, fu_state := FutWait cell\<rparr>) (fh_futs h)\<rparr>)"
proof (rule file_invI)
  note D = file_invD[OF inv]
  let ?r = "snd (wait_poll k cell r)" and ?f = "f\<lparr>fu_box := box, fu_state := FutWait cell\<rparr>"
  let ?w = "w\<lparr>iw_reactor := snd (wait_poll k cell r)\<rparr>"
  let ?h = "h\<lparr>fh_world := ?w, fh_futs := AList.update i ?f (fh_futs h)\<rparr>"
  have fi: "(i, f) \<in> set (fh_futs h)" using f(1) by (rule map_of_SomeD)
  have fok: "fut_ok (fh_world h) f" by (rule D(4)[OF fi])
  have w: "iw_reactor w = iw_reactor (fh_world h)" "iw_next_box (fh_world h) \<le> iw_next_box w"
    "\<And>b. iw_boxes (fh_world h) b \<noteq> None \<Longrightarrow> iw_boxes w b \<noteq> None"
    and box: "box = fu_box f \<or> box = Some (iw_next_box (fh_world h)) \<and> iw_boxes w (iw_next_box (fh_world h)) \<noteq> None \<and> iw_next_box (fh_world h) < iw_next_box w"
    and mem: "\<And>b. sqe_box e = Some b \<Longrightarrow> box = Some b" "\<And>p. sqe_fixed e = Some p \<Longrightarrow> \<exists>b. req_fixed (fu_req f) = Some b \<and> fx_as_ptr b = p"
    using start fok f(2) by (auto simp: start_req_defs new_box_def fut_ok_def req_box_def sqe_box_def sqe_fixed_def req_fixed_def cstring_new_def
        split: file_req.splits if_splits)
  note a = await_new[OF D(1) m push[unfolded w(1)]]
  have cells: "c < cell" if "(j, g) \<in> set (fh_futs h)" "fu_state g = FutWait c" for j g c
    using D(4)[OF that(1)] that(2) a(1) by (simp add: fut_ok_def)
  have set: "set (fh_futs ?h) = insert (i, ?f) {x \<in> set (fh_futs h). fst x \<noteq> i}" using set_update_eq[OF D(2) f(1)] by simp
  have ap: "apart ?f g" if "(j, g) \<in> set (fh_futs h)" "j \<noteq> i" for j g
  proof -
    have "fu_box g \<noteq> Some (iw_next_box (fh_world h))" using D(4)[OF that(1)] by (auto simp: fut_ok_def)
    moreover have "apart f g" using D(5)[OF fi that(1)] that(2) by simp
    ultimately show ?thesis using box cells[OF that(1)] by (auto simp: apart_def)
  qed
  show "io_ok (Suc m) (iw_reactor (fh_world ?h))" using a(3) by simp
  show "distinct (map fst (fh_futs ?h))" using D(2) by (simp add: distinct_update)
  show "j < fh_next ?h \<and> fut_ok (fh_world ?h) g" if "(j, g) \<in> set (fh_futs ?h)" for j g
  proof (cases "j = i")
    case True
    then have "g = ?f" using that set by auto
    moreover have "iw_boxes w b \<noteq> None \<and> b < iw_next_box w" if b: "box = Some b" for b
    proof (cases "box = fu_box f")
      case True
      then have "iw_boxes (fh_world h) b \<noteq> None" "b < iw_next_box (fh_world h)" using fok b by (simp_all add: fut_ok_def)
      then show ?thesis using w(2,3) by (meson order_less_le_trans)
    qed (use box b in auto)
    then have "fut_ok ?w ?f" using fok a(5) by (simp add: fut_ok_def)
    ultimately show ?thesis using True D(3)[OF fi] by simp
  next
    case False
    then have g: "(j, g) \<in> set (fh_futs h)" using that unfolding set by auto
    have "fut_ok ?w g" by (rule fut_ok_mono[OF D(4)[OF g]]) (use w a(1,5) in simp_all)
    then show ?thesis using D(3)[OF g] by simp
  qed
  show "apart g g'" if "(j, g) \<in> set (fh_futs ?h)" "(j', g') \<in> set (fh_futs ?h)" "j \<noteq> j'" for j g j' g'
    using that D(5) ap apart_sym[OF ap] unfolding set by auto
  show "fx_buffer b \<noteq> None" if "b \<in> set (fh_held ?h)" for b using D(6) that by simp
  show "\<exists>j g. (j, g) \<in> set (fh_futs ?h) \<and> owns g (iw_reactor (fh_world ?h)) u e'" if "(u, e') \<in> set (entries (iw_reactor (fh_world ?h)))" for u e'
  proof (cases "(u, e') = (io_counter (iw_reactor (fh_world h)), e)")
    case True
    then have "owns ?f ?r u e'" using a(6) mem by (simp add: owns_def)
    then show ?thesis using set by auto
  next
    case False
    then have ue: "(u, e') \<in> set (entries (iw_reactor (fh_world h)))" using that a(4) by auto
    then have u: "u \<noteq> io_counter (iw_reactor (fh_world h))" using a(8) by blast
    from D(7)[OF ue] obtain j g where g: "(j, g) \<in> set (fh_futs h)" "owns g (iw_reactor (fh_world h)) u e'" by blast
    have "j \<noteq> i"
    proof
      assume "j = i"
      then have "g = f" using f(1) g(1) D(2) by (metis map_of_is_SomeI option.inject)
      then show False using f(2) g(2) by (simp add: owns_def)
    qed
    moreover have "owns g ?r u e'" by (rule owns_frame[OF g(2)]) (simp add: a(7)[OF u])
    ultimately show ?thesis using g(1) set by auto
  qed
qed

text \<open>A poll that finds no result, and one that finds it.\<close>

lemma wait_poll_cases:
  assumes "wait_poll k c r = (p, r')"
  shows "entries r' = entries r \<and> io_completions r' = io_completions r \<and> io_next_cell r' = io_next_cell r \<and>
    (p = Pending \<or> hs_result (io_handles r c) \<noteq> None)"
  using assms by (auto simp: wait_poll_def entries_def Let_def split: option.splits)

lemma inv_reactor:
  assumes inv: "file_inv m h" and ok: "io_ok m' r" and next_cell: "io_next_cell r = io_next_cell (iw_reactor (fh_world h))"
    and ent: "set (entries r) \<subseteq> set (entries (iw_reactor (fh_world h)))"
    and comp: "\<And>u e c. (u, e) \<in> set (entries r) \<Longrightarrow> map_of (io_completions (iw_reactor (fh_world h))) u = Some c \<Longrightarrow> map_of (io_completions r) u = Some c"
  shows "file_inv m' (h\<lparr>fh_world := (fh_world h)\<lparr>iw_reactor := r\<rparr>\<rparr>)"
proof (rule file_invI)
  note D = file_invD[OF inv]
  let ?h = "h\<lparr>fh_world := (fh_world h)\<lparr>iw_reactor := r\<rparr>\<rparr>"
  show "j < fh_next ?h \<and> fut_ok (fh_world ?h) g" if "(j, g) \<in> set (fh_futs ?h)" for j g
  proof -
    have g: "(j, g) \<in> set (fh_futs h)" using that by simp
    have "fut_ok ((fh_world h)\<lparr>iw_reactor := r\<rparr>) g" by (rule fut_ok_mono[OF D(4)[OF g]]) (simp_all add: next_cell)
    then show ?thesis using D(3)[OF g] by simp
  qed
  show "\<exists>j g. (j, g) \<in> set (fh_futs ?h) \<and> owns g (iw_reactor (fh_world ?h)) u e" if "(u, e) \<in> set (entries (iw_reactor (fh_world ?h)))" for u e
  proof -
    have ue: "(u, e) \<in> set (entries r)" using that by simp
    then obtain j g where g: "(j, g) \<in> set (fh_futs h)" "owns g (iw_reactor (fh_world h)) u e" using D(7)[of u e] ent by blast
    then have "owns g r u e" using owns_frame[OF g(2)] comp[OF ue] by blast
    then show ?thesis using g(1) by auto
  qed
qed (use file_invD[OF inv] ok in auto)

lemma file_inv_world: "file_inv m h \<Longrightarrow> iw_reactor w = iw_reactor (fh_world h) \<Longrightarrow> iw_boxes w = iw_boxes (fh_world h) \<Longrightarrow>
    iw_next_box w = iw_next_box (fh_world h) \<Longrightarrow> (\<And>b. b \<in> set held \<Longrightarrow> fx_buffer b \<noteq> None) \<Longrightarrow>
    file_inv m (h\<lparr>fh_world := w, fh_held := held\<rparr>)"
  by (simp add: file_inv_def fut_ok_def)

lemma update_same: "distinct (map fst xs) \<Longrightarrow> map_of xs k = Some v \<Longrightarrow> AList.update k v xs = xs"
  by (induction xs) (auto split: if_splits)

lemma finish_frame:
  assumes "finish_req req box res w = (out, w')"
  shows "iw_reactor w' = iw_reactor w" "iw_next_box w' = iw_next_box w"
    "Some b \<noteq> box \<Longrightarrow> iw_boxes w b \<noteq> None \<Longrightarrow> iw_boxes w' b \<noteq> None"
  using assms by (auto simp: finish_req_def open_result_def statx_result_def free_opt_def free_box_def return_buffer_def split: sum.splits option.splits)

lemma inv_poll_wait:
  assumes inv: "file_inv m h" and f: "map_of (fh_futs h) i = Some f" "fu_state f = FutWait c"
    and aw: "fut_await k c f (fh_world h) = (p, f', w)"
  shows "p = Pending \<Longrightarrow> file_inv m (h\<lparr>fh_world := w, fh_futs := AList.update i f' (fh_futs h)\<rparr>)"
    and "p = Ready out \<Longrightarrow> (\<And>b. b \<in> set held \<Longrightarrow> fx_buffer b \<noteq> None) \<Longrightarrow>
      file_inv m (h\<lparr>fh_world := w, fh_futs := AList.delete i (fh_futs h), fh_held := held\<rparr>)"
proof -
  note D = file_invD[OF inv]
  obtain q r where q: "wait_poll k c (iw_reactor (fh_world h)) = (q, r)" by fastforce
  note fr = wait_poll_cases[OF q]
  have ok: "io_ok m r" using io_ok_repoll[OF D(1), of k c] q by simp
  show "file_inv m (h\<lparr>fh_world := w, fh_futs := AList.update i f' (fh_futs h)\<rparr>)" if "p = Pending"
  proof -
    have "f' = f" "w = (fh_world h)\<lparr>iw_reactor := r\<rparr>" using aw q f(2) that by (auto simp: fut_await_def split: poll.splits prod.splits)
    moreover have "file_inv m (h\<lparr>fh_world := (fh_world h)\<lparr>iw_reactor := r\<rparr>\<rparr>)"
      by (rule inv_reactor[OF inv ok]) (use fr in simp_all)
    ultimately show ?thesis using update_same[OF D(2) f(1)] by simp
  qed
  assume p: "p = Ready out" and held: "\<And>b. b \<in> set held \<Longrightarrow> fx_buffer b \<noteq> None"
  obtain res where res: "q = Ready res" using aw q p by (cases q) (auto simp: fut_await_def)
  then have fin: "finish_req (fu_req f) (fu_box f) res ((fh_world h)\<lparr>iw_reactor := r\<rparr>) = (out, w)"
    using aw q p by (auto simp: fut_await_def split: prod.splits)
  have got: "hs_result (io_handles (iw_reactor (fh_world h)) c) \<noteq> None" using fr res by auto
  show "file_inv m (h\<lparr>fh_world := w, fh_futs := AList.delete i (fh_futs h), fh_held := held\<rparr>)"
  proof (rule inv_remove[OF inv f(1)])
    show "io_ok m (iw_reactor w)" using finish_frame(1)[OF fin] ok by simp
    show "iw_boxes w b \<noteq> None" if "Some b \<noteq> fu_box f" "iw_boxes (fh_world h) b \<noteq> None" for b
      using finish_frame(3)[OF fin that(1)] that(2) by simp
    show "\<not> owns f (iw_reactor (fh_world h)) u e" for u e
      using result_no_entry[OF D(1) got, of u] f(2) by (auto simp: owns_def)
  qed (use finish_frame(1,2)[OF fin] fr held in simp_all)
qed

lemma start_owns_nothing: "fu_state f = FutStart \<Longrightarrow> \<not> owns f r u e"
  by (simp add: owns_def)

lemma inv_poll:
  assumes inv: "file_inv m h" and f: "map_of (fh_futs h) i = Some f" and m: "Suc m < 2 ^ 64"
    and poll: "fut_poll k f (fh_world h) = Inr (p, f', w)"
  shows "p = Pending \<Longrightarrow> \<exists>m' \<le> Suc m. file_inv m' (h\<lparr>fh_world := w, fh_futs := AList.update i f' (fh_futs h)\<rparr>)"
    and "p = Ready out \<Longrightarrow> \<exists>m' \<le> Suc m. file_inv m' (h\<lparr>fh_world := w, fh_futs := AList.delete i (fh_futs h),
      fh_held := (case out of Inr (OutFixed _ b) \<Rightarrow> b # fh_held h | _ \<Rightarrow> fh_held h)\<rparr>)"
proof -
  note D = file_invD[OF inv]
  have fok: "fut_ok (fh_world h) f" using D(4) map_of_SomeD[OF f] by blast
  have "(p = Pending \<longrightarrow> (\<exists>m' \<le> Suc m. file_inv m' (h\<lparr>fh_world := w, fh_futs := AList.update i f' (fh_futs h)\<rparr>))) \<and>
    (p = Ready out \<longrightarrow> (\<exists>m' \<le> Suc m. file_inv m' (h\<lparr>fh_world := w, fh_futs := AList.delete i (fh_futs h),
      fh_held := (case out of Inr (OutFixed _ b) \<Rightarrow> b # fh_held h | _ \<Rightarrow> fh_held h)\<rparr>)))"
  proof (cases "fu_state f")
    case FutDone
    then show ?thesis using fok by (simp add: fut_ok_def)
  next
    case (FutWait c)
    have aw: "fut_await k c f (fh_world h) = (p, f', w)" using poll FutWait by (simp add: fut_poll_def)
    have held: "fx_buffer b \<noteq> None" if p: "p = Ready out" and b: "b \<in> set (case out of Inr (OutFixed _ b) \<Rightarrow> b # fh_held h | _ \<Rightarrow> fh_held h)" for b
    proof (cases "b \<in> set (fh_held h)")
      case False
      then obtain n where "out = Inr (OutFixed n b)" using b by (auto split: sum.splits file_out.splits)
      then have "req_fixed (fu_req f) = Some b"
        using aw p by (auto simp: fut_await_def finish_req_def open_result_def statx_result_def split: prod.splits poll.splits sum.splits option.splits file_req.splits storage.splits)
      then show ?thesis using fok by (simp add: fut_ok_def)
    qed (rule D(6))
    let ?held = "case out of Inr (OutFixed _ b) \<Rightarrow> b # fh_held h | _ \<Rightarrow> fh_held h"
    have "file_inv m (h\<lparr>fh_world := w, fh_futs := AList.delete i (fh_futs h), fh_held := ?held\<rparr>)" if p: "p = Ready out"
      by (rule inv_poll_wait(2)[OF inv f FutWait aw p]) (rule held[OF p])
    then show ?thesis using inv_poll_wait(1)[OF inv f FutWait aw] by (meson le_SucI order_refl)
  next
    case FutStart
    show ?thesis
    proof (cases "start_req (fu_req f) (fh_world h)")
      case (Inl e)
      then have o: "p = Ready (Inl e)" "w = fh_world h" using poll FutStart by (auto simp: fut_poll_def)
      have "file_inv m (h\<lparr>fh_world := fh_world h, fh_futs := AList.delete i (fh_futs h), fh_held := fh_held h\<rparr>)"
        by (rule inv_remove[OF inv f D(1)]) (use D(6) start_owns_nothing[OF FutStart] in auto)
      then show ?thesis using o by (intro conjI impI exI[of _ m]) auto
    next
      case (Inr x)
      obtain e box w1 where x: "x = (e, box, w1)" by (cases x)
      obtain cell r where push: "push_sqe e (iw_reactor w1) = Inr (cell, r)"
        using poll FutStart Inr x by (auto simp: fut_poll_def run_simps)
      have "iw_reactor w1 = iw_reactor (fh_world h)"
        using Inr x by (auto simp: start_req_defs new_box_def cstring_new_def split: file_req.splits if_splits)
      then have "fst (wait_poll k cell r) = Pending" using await_new(2)[OF D(1) m] push by simp
      then have aw: "fut_await k cell (f\<lparr>fu_box := box\<rparr>) (w1\<lparr>iw_reactor := r\<rparr>) =
          (Pending, f\<lparr>fu_box := box, fu_state := FutWait cell\<rparr>, w1\<lparr>iw_reactor := snd (wait_poll k cell r)\<rparr>)"
        by (cases "wait_poll k cell r") (auto simp: fut_await_def)
      have o: "p = Pending" "f' = f\<lparr>fu_box := box, fu_state := FutWait cell\<rparr>" "w = w1\<lparr>iw_reactor := snd (wait_poll k cell r)\<rparr>"
        using poll FutStart Inr x push aw by (auto simp: fut_poll_def)
      show ?thesis using inv_start[OF inv f FutStart m Inr[unfolded x] push, of k] o by auto
    qed
  qed
  then show "p = Pending \<Longrightarrow> \<exists>m' \<le> Suc m. file_inv m' (h\<lparr>fh_world := w, fh_futs := AList.update i f' (fh_futs h)\<rparr>)"
    "p = Ready out \<Longrightarrow> \<exists>m' \<le> Suc m. file_inv m' (h\<lparr>fh_world := w, fh_futs := AList.delete i (fh_futs h),
      fh_held := (case out of Inr (OutFixed _ b) \<Rightarrow> b # fh_held h | _ \<Rightarrow> fh_held h)\<rparr>)" by blast+
qed

lemma in_remove_nth: "set (remove_nth i xs) \<subseteq> set xs"
  by (auto simp: remove_nth_def dest: in_set_takeD in_set_dropD)

lemma file_inv_held: "file_inv m h \<Longrightarrow> (\<And>b. b \<in> set held \<Longrightarrow> fx_buffer b \<noteq> None) \<Longrightarrow> file_inv m (h\<lparr>fh_held := held\<rparr>)"
  by (simp add: file_inv_def)

lemma inv_vec:
  assumes inv: "file_inv m h" and req: "req = ReqRead fd (iw_next_box (fh_world h)) n off \<or> req = ReqWrite fd (iw_next_box (fh_world h)) n off"
  shows "file_inv m (add_fut req (h\<lparr>fh_world := snd (new_box (VecBox bytes) (fh_world h))\<rparr>))"
proof -
  note D = file_invD[OF inv]
  have "file_inv m (add_fut req (h\<lparr>fh_world := snd (new_box (VecBox bytes) (fh_world h)), fh_held := fh_held h\<rparr>))"
  proof (rule inv_add[OF inv])
    show "fut_ok (snd (new_box (VecBox bytes) (fh_world h))) (file_call req)"
      using req by (auto simp: fut_ok_def file_call_def new_box_def req_box_def req_fixed_def)
    show "fu_box g \<noteq> Some b" if "req_box req = Some b" "(j, g) \<in> set (fh_futs h)" for b j g
      using D(4)[OF that(2)] that(1) req by (auto simp: fut_ok_def req_box_def)
  qed (auto simp: new_box_def)
  then show ?thesis by simp
qed

lemma file_step_inv:
  assumes inv: "file_inv m h" and keeps: "keeps_calls op h" and m: "Suc m < 2 ^ 64" and step: "file_step op h = Inr h'"
  shows "\<exists>m' \<le> Suc m. file_inv m' h'"
proof (cases op)
  case (FRead fd bytes off)
  have h': "h' = add_fut (ReqRead fd (iw_next_box (fh_world h)) (length bytes) off) (h\<lparr>fh_world := snd (new_box (VecBox bytes) (fh_world h))\<rparr>)"
    using step FRead by (simp add: new_box_def)
  have "file_inv m h'" unfolding h' by (rule inv_vec[OF inv]) blast
  then show ?thesis by (intro exI[of _ m]) simp
next
  case (FWrite fd bytes off)
  have h': "h' = add_fut (ReqWrite fd (iw_next_box (fh_world h)) (length bytes) off) (h\<lparr>fh_world := snd (new_box (VecBox bytes) (fh_world h))\<rparr>)"
    using step FWrite by (simp add: new_box_def)
  have "file_inv m h'" unfolding h' by (rule inv_vec[OF inv]) blast
  then show ?thesis by (intro exI[of _ m]) simp
next
  case (FFixed rd fd i off len)
  show ?thesis
  proof (cases "i < length (fh_held h)")
    case True
    let ?b = "fh_held h ! i"
    let ?req = "if rd then ReqReadFixed fd ?b off len else ReqWriteFixed fd ?b off len"
    have "fx_buffer ?b \<noteq> None" using file_invD(6)[OF inv] True by simp
    then have fok: "fut_ok (fh_world h) (file_call ?req)" by (auto simp: fut_ok_def file_call_def req_box_def req_fixed_def)
    have nobox: "req_box ?req = None" by (simp add: req_box_def)
    have "file_inv m (add_fut ?req (h\<lparr>fh_world := fh_world h, fh_held := remove_nth i (fh_held h)\<rparr>))"
      by (rule inv_add[OF inv _ _ _ fok]) (use nobox in_remove_nth[of i "fh_held h"] in auto)
    then show ?thesis using step FFixed True by (intro exI[of _ m]) (simp add: Let_def)
  next
    case False
    then show ?thesis using step FFixed inv by (intro exI[of _ m]) simp
  qed
next
  case (FPlain req)
  show ?thesis
  proof (cases "req_fixed req = None \<and> req_box req = None")
    case True
    have "fut_ok (fh_world h) (file_call req)" using True keeps FPlain
      by (auto simp: fut_ok_def file_call_def split: file_req.splits)
    then have "file_inv m (add_fut req (h\<lparr>fh_world := fh_world h, fh_held := fh_held h\<rparr>))"
      by (intro inv_add[OF inv]) (use True in auto)
    then show ?thesis using step FPlain True by (intro exI[of _ m]) simp
  next
    case False
    then have "h' = h" using step FPlain by (auto split: if_splits)
    then show ?thesis using inv by (intro exI[of _ m]) simp
  qed
next
  case (FPoll i k)
  show ?thesis
  proof (cases "map_of (fh_futs h) i")
    case None
    then show ?thesis using step FPoll inv by (intro exI[of _ m]) simp
  next
    case (Some f)
    then obtain p f' w where poll: "fut_poll k f (fh_world h) = Inr (p, f', w)" using step FPoll by (auto simp: run_simps)
    show ?thesis using inv_poll[OF inv Some m poll] step FPoll Some poll by (cases p) auto
  qed
next
  case (FDrop i)
  show ?thesis
  proof (cases "map_of (fh_futs h) i")
    case None
    then show ?thesis using step FDrop inv by (intro exI[of _ m]) simp
  next
    case (Some f)
    then have st: "fu_state f = FutStart" using keeps FDrop by simp
    have "file_inv m (h\<lparr>fh_world := fut_drop f (fh_world h), fh_futs := AList.delete i (fh_futs h), fh_held := fh_held h\<rparr>)"
      by (rule inv_remove[OF inv Some])
        (use st start_owns_nothing[OF st] file_invD(1,6)[OF inv] in
          \<open>auto simp: fut_drop_def free_opt_def free_box_def return_buffer_def split: option.splits\<close>)
    then show ?thesis using step FDrop Some by (intro exI[of _ m]) simp
  qed
next
  case FAcquire
  show ?thesis
  proof (cases "fst (try_acquire (iw_alloc (fh_world h)))")
    case None
    then have "h' = h" using step FAcquire by (auto split: prod.splits)
    then show ?thesis using inv by (intro exI[of _ m]) simp
  next
    case (Some b)
    obtain al where al: "try_acquire (iw_alloc (fh_world h)) = (Some b, al)" using Some by (cases "try_acquire (iw_alloc (fh_world h))") simp
    have "fx_buffer b \<noteq> None" using acquire_inner_cases[OF al[unfolded try_acquire_def]] by auto
    then have "file_inv m (h\<lparr>fh_world := (fh_world h)\<lparr>iw_alloc := al\<rparr>, fh_held := b # fh_held h\<rparr>)"
      using file_invD(6)[OF inv] by (intro file_inv_world[OF inv]) auto
    then show ?thesis using step FAcquire al by (intro exI[of _ m]) simp
  qed
next
  case (FRelease i)
  show ?thesis
  proof (cases "i < length (fh_held h)")
    case True
    have "file_inv m (h\<lparr>fh_world := return_buffer (Some (fh_held h ! i)) (fh_world h), fh_held := remove_nth i (fh_held h)\<rparr>)"
      using file_invD(6)[OF inv] in_remove_nth[of i "fh_held h"] by (intro file_inv_world[OF inv]) (auto simp: return_buffer_def)
    then show ?thesis using step FRelease True by (intro exI[of _ m]) simp
  next
    case False
    then show ?thesis using step FRelease inv by (intro exI[of _ m]) simp
  qed
next
  case (FIo op')
  then obtain r where r: "io_step op' (iw_reactor (fh_world h)) = Inr r" "h' = h\<lparr>fh_world := (fh_world h)\<lparr>iw_reactor := r\<rparr>\<rparr>"
    using step by (auto simp: run_simps)
  have mo: "machine_op op'" using keeps FIo by simp
  note ms = machine_step[OF mo file_invD(1)[OF inv] m r(1)]
  have "file_inv m h'" unfolding r(2)
    by (rule inv_reactor[OF inv ms(1,4,2)]) (use entry_cell_kept[OF file_invD(1)[OF inv] ms(1,3)] in blast)
  then show ?thesis by (intro exI[of _ m]) simp
qed

subsection \<open>The registered buffers are conserved\<close>

lemma mset_remove_nth: "i < length xs \<Longrightarrow> add_mset (xs ! i) (mset (remove_nth i xs)) = mset xs"
  by (subst (3) id_take_nth_drop[of i xs]) (simp_all add: remove_nth_def)

lemma all_fixed_add:
  "all_fixed (add_fut req (h\<lparr>fh_world := w, fh_held := held\<rparr>)) =
     mset (map fb_addr (al_buffers (iw_alloc w))) + mset (map fx_as_ptr held) +
     fut_fixed (file_call req) + \<Sum>\<^sub># (image_mset (\<lambda>(i, f). fut_fixed f) (mset (fh_futs h)))"
  by (simp add: all_fixed_def add_fut_def)

lemma futs_delete:
  assumes "distinct (map fst xs)" "map_of xs i = Some f"
  shows "\<Sum>\<^sub># (image_mset (\<lambda>(i, f). fut_fixed f) (mset xs)) =
    fut_fixed f + \<Sum>\<^sub># (image_mset (\<lambda>(i, f). fut_fixed f) (mset (AList.delete i xs)))"
  using mset_delete[OF assms] by simp

lemma pool_return:
  assumes "\<And>x. b = Some x \<Longrightarrow> fx_buffer x \<noteq> None"
  shows "mset (map fb_addr (al_buffers (iw_alloc (return_buffer b w)))) =
    mset (map fb_addr (al_buffers (iw_alloc w))) + (case b of Some b \<Rightarrow> {#fx_as_ptr b#} | None \<Rightarrow> {#})"
  using assms by (auto simp: return_buffer_def buffers_buffer_drop fx_as_ptr_def split: option.splits)

lemma alloc_free_opt [simp]: "iw_alloc (free_opt b w) = iw_alloc w"
  by (simp add: free_opt_def free_box_def split: option.splits)

lemma start_alloc: "start_req req w = Inr (e, box, w') \<Longrightarrow> iw_alloc w' = iw_alloc w"
  by (auto simp: start_req_defs new_box_def cstring_new_def split: file_req.splits if_splits)

definition out_fixed :: "io_error + file_out \<Rightarrow> nat multiset" where
  "out_fixed out = (case out of Inr (OutFixed _ b) \<Rightarrow> {#fx_as_ptr b#} | _ \<Rightarrow> {#})"

lemma finish_fixed:
  assumes "finish_req req box res w = (out, w')" "\<And>b. req_fixed req = Some b \<Longrightarrow> fx_buffer b \<noteq> None"
  shows "mset (map fb_addr (al_buffers (iw_alloc w'))) + out_fixed out =
    mset (map fb_addr (al_buffers (iw_alloc w))) + (case req_fixed req of Some b \<Rightarrow> {#fx_as_ptr b#} | None \<Rightarrow> {#})"
proof (cases res)
  case (Inl e)
  then show ?thesis using assms pool_return[of "req_fixed req" "free_opt box w"] by (auto simp: finish_req_def open_result_def statx_result_def out_fixed_def)
next
  case (Inr n)
  show ?thesis
  proof (cases "req_fixed req")
    case None
    then show ?thesis using assms Inr
      by (auto simp: finish_req_def open_result_def statx_result_def out_fixed_def split: file_req.splits option.splits storage.splits)
  qed (use assms Inr in \<open>auto simp: finish_req_def open_result_def statx_result_def out_fixed_def\<close>)
qed

lemma await_fixed:
  assumes "fut_await k c f w = (p, f', w')" "\<And>b. req_fixed (fu_req f) = Some b \<Longrightarrow> fx_buffer b \<noteq> None"
  shows "p = Pending \<Longrightarrow> fut_fixed f' = fut_fixed f \<and> iw_alloc w' = iw_alloc w"
    and "p = Ready out \<Longrightarrow> mset (map fb_addr (al_buffers (iw_alloc w'))) + out_fixed out =
      mset (map fb_addr (al_buffers (iw_alloc w))) + fut_fixed f"
proof -
  obtain q r where q: "wait_poll k c (iw_reactor w) = (q, r)" by fastforce
  show "fut_fixed f' = fut_fixed f \<and> iw_alloc w' = iw_alloc w" if "p = Pending"
    using assms(1) q that by (auto simp: fut_await_def fut_fixed_def split: poll.splits prod.splits)
  assume p: "p = Ready out"
  obtain res where res: "q = Ready res" using assms(1) q p by (cases q) (auto simp: fut_await_def)
  then have "finish_req (fu_req f) (fu_box f) res (w\<lparr>iw_reactor := r\<rparr>) = (out, w')"
    using assms(1) q p by (auto simp: fut_await_def split: prod.splits)
  from finish_fixed[OF this assms(2)] show "mset (map fb_addr (al_buffers (iw_alloc w'))) + out_fixed out =
      mset (map fb_addr (al_buffers (iw_alloc w))) + fut_fixed f" by (simp add: fut_fixed_def)
qed

lemma poll_fixed:
  assumes poll: "fut_poll k f w = Inr (p, f', w')" and ok: "fut_ok w f"
  shows "p = Pending \<Longrightarrow> fut_fixed f' = fut_fixed f \<and> iw_alloc w' = iw_alloc w"
    and "p = Ready out \<Longrightarrow> mset (map fb_addr (al_buffers (iw_alloc w'))) + out_fixed out =
      mset (map fb_addr (al_buffers (iw_alloc w))) + fut_fixed f"
proof -
  have fx: "\<And>b. req_fixed (fu_req f) = Some b \<Longrightarrow> fx_buffer b \<noteq> None" using ok by (simp add: fut_ok_def)
  have "(p = Pending \<longrightarrow> fut_fixed f' = fut_fixed f \<and> iw_alloc w' = iw_alloc w) \<and>
    (p = Ready out \<longrightarrow> mset (map fb_addr (al_buffers (iw_alloc w'))) + out_fixed out =
      mset (map fb_addr (al_buffers (iw_alloc w))) + fut_fixed f)"
  proof (cases "fu_state f")
    case FutDone
    then show ?thesis using ok by (simp add: fut_ok_def)
  next
    case (FutWait c)
    then have "fut_await k c f w = (p, f', w')" using poll by (simp add: fut_poll_def)
    from await_fixed[OF this fx] show ?thesis by blast
  next
    case FutStart
    show ?thesis
    proof (cases "start_req (fu_req f) w")
      case (Inl e)
      then have "req_fixed (fu_req f) = None" by (auto simp: start_req_defs req_fixed_def split: file_req.splits)
      then show ?thesis using Inl poll FutStart by (auto simp: fut_poll_def fut_fixed_def out_fixed_def)
    next
      case (Inr x)
      obtain e box w1 where x: "x = (e, box, w1)" by (cases x)
      obtain cell r where push: "push_sqe e (iw_reactor w1) = Inr (cell, r)"
        and aw: "fut_await k cell (f\<lparr>fu_box := box\<rparr>) (w1\<lparr>iw_reactor := r\<rparr>) = (p, f', w')"
        using poll FutStart Inr x by (auto simp: fut_poll_def run_simps)
      have al: "iw_alloc w1 = iw_alloc w" using start_alloc Inr x by blast
      from await_fixed[OF aw] fx al show ?thesis by (simp add: fut_fixed_def)
    qed
  qed
  then show "p = Pending \<Longrightarrow> fut_fixed f' = fut_fixed f \<and> iw_alloc w' = iw_alloc w"
    "p = Ready out \<Longrightarrow> mset (map fb_addr (al_buffers (iw_alloc w'))) + out_fixed out =
      mset (map fb_addr (al_buffers (iw_alloc w))) + fut_fixed f" by blast+
qed

lemma shift_fixed:
  fixes A :: "'a multiset"
  assumes "A + C = B + D"
  shows "A + (C + H) + S = B + H + (D + S)"
proof -
  have "A + (C + H) + S = (A + C) + (H + S)" by (simp only: ac_simps)
  also have "\<dots> = B + H + (D + S)" unfolding assms by (simp only: ac_simps)
  finally show ?thesis .
qed

lemma all_fixed_plain:
  assumes "req_fixed req = None" "iw_alloc w = iw_alloc (fh_world h)"
  shows "all_fixed (add_fut req (h\<lparr>fh_world := w\<rparr>)) = all_fixed h"
  using all_fixed_add[of req "fh_held h" w h] assms by (simp add: all_fixed_def fut_fixed_def file_call_def)

lemma file_step_fixed:
  assumes inv: "file_inv m h" and step: "file_step op h = Inr h'"
  shows "all_fixed h' = all_fixed h"
proof (cases op)
  case (FFixed rd fd i off len)
  show ?thesis
  proof (cases "i < length (fh_held h)")
    case True
    let ?b = "fh_held h ! i"
    let ?req = "if rd then ReqReadFixed fd ?b off len else ReqWriteFixed fd ?b off len"
    have "fut_fixed (file_call ?req) = {#fx_as_ptr ?b#}" by (simp add: fut_fixed_def file_call_def req_fixed_def)
    then have "all_fixed (add_fut ?req (h\<lparr>fh_world := fh_world h, fh_held := remove_nth i (fh_held h)\<rparr>)) = all_fixed h"
      unfolding all_fixed_add using arg_cong[OF mset_remove_nth[OF True], of "image_mset fx_as_ptr"] by (simp add: all_fixed_def)
    then show ?thesis using step FFixed True by (auto simp: Let_def)
  qed (use step FFixed in simp)
next
  case (FPlain req)
  show ?thesis
  proof (cases "req_fixed req = None \<and> req_box req = None")
    case True
    then show ?thesis using step FPlain all_fixed_plain[of req "fh_world h" h] by simp
  next
    case False
    then have "h' = h" using step FPlain by (simp split: if_splits)
    then show ?thesis by simp
  qed
next
  case (FPoll i k)
  show ?thesis
  proof (cases "map_of (fh_futs h) i")
    case (Some f)
    then obtain p f' w where poll: "fut_poll k f (fh_world h) = Inr (p, f', w)" using step FPoll by (auto simp: run_simps)
    have "fut_ok (fh_world h) f" using file_invD(4)[OF inv] map_of_SomeD[OF Some] by blast
    note pf = poll_fixed[OF poll this]
    note d = file_invD(2)[OF inv]
    show ?thesis
    proof (cases p)
      case Pending
      then have h': "h' = h\<lparr>fh_world := w, fh_futs := AList.update i f' (fh_futs h)\<rparr>" using step FPoll Some poll by simp
      show ?thesis unfolding h' using pf(1)[OF Pending] mset_update[OF d Some, of f'] futs_delete[OF d Some]
        by (simp add: all_fixed_def)
    next
      case (Ready out)
      then have h': "h' = h\<lparr>fh_world := w, fh_futs := AList.delete i (fh_futs h),
          fh_held := (case out of Inr (OutFixed _ b) \<Rightarrow> b # fh_held h | _ \<Rightarrow> fh_held h)\<rparr>" using step FPoll Some poll by simp
      have held: "mset (map fx_as_ptr (case out of Inr (OutFixed _ b) \<Rightarrow> b # fh_held h | _ \<Rightarrow> fh_held h)) =
          out_fixed out + mset (map fx_as_ptr (fh_held h))" by (simp add: out_fixed_def split: sum.splits file_out.splits)
      have "fh_world h' = w" "fh_futs h' = AList.delete i (fh_futs h)"
        "mset (map fx_as_ptr (fh_held h')) = out_fixed out + mset (map fx_as_ptr (fh_held h))" using held by (simp_all add: h')
      then show ?thesis unfolding all_fixed_def futs_delete[OF d Some]
        by (simp only:) (rule shift_fixed[OF pf(2)[OF Ready]])
    qed
  qed (use step FPoll in simp)
next
  case (FDrop i)
  show ?thesis
  proof (cases "map_of (fh_futs h) i")
    case (Some f)
    have ok: "fut_ok (fh_world h) f" using file_invD(4)[OF inv] map_of_SomeD[OF Some] by blast
    have h': "h' = h\<lparr>fh_world := return_buffer (req_fixed (fu_req f)) (free_opt (fu_box f) (fh_world h)),
        fh_futs := AList.delete i (fh_futs h)\<rparr>" using step FDrop Some ok by (simp add: fut_drop_def fut_ok_def)
    have "mset (map fb_addr (al_buffers (iw_alloc (fh_world h')))) =
        mset (map fb_addr (al_buffers (iw_alloc (fh_world h)))) + fut_fixed f"
      using pool_return[of "req_fixed (fu_req f)" "free_opt (fu_box f) (fh_world h)"] ok unfolding h' by (simp add: fut_fixed_def fut_ok_def)
    then show ?thesis using futs_delete[OF file_invD(2)[OF inv] Some] by (simp add: h' all_fixed_def ac_simps)
  qed (use step FDrop in simp)
next
  case FAcquire
  show ?thesis
  proof (cases "try_acquire (iw_alloc (fh_world h))")
    case (Pair r al)
    from acquire_inner_cases[OF Pair[unfolded try_acquire_def]] show ?thesis
    proof (elim disjE exE conjE)
      fix b assume b: "r = Some \<lparr>fx_buffer = Some b\<rparr>" "al_buffers (iw_alloc (fh_world h)) = al_buffers al @ [b]"
      then have "h' = h\<lparr>fh_world := (fh_world h)\<lparr>iw_alloc := al\<rparr>, fh_held := \<lparr>fx_buffer = Some b\<rparr> # fh_held h\<rparr>"
        using step FAcquire Pair by simp
      then show ?thesis by (simp add: all_fixed_def b(2) fx_as_ptr_def)
    qed (use step FAcquire Pair in simp)
  qed
next
  case (FRelease i)
  show ?thesis
  proof (cases "i < length (fh_held h)")
    case True
    have "fx_buffer (fh_held h ! i) \<noteq> None" using file_invD(6)[OF inv] True by simp
    then show ?thesis using step FRelease True pool_return[of "Some (fh_held h ! i)" "fh_world h"]
        arg_cong[OF mset_remove_nth[OF True], of "image_mset fx_as_ptr"] by (auto simp: all_fixed_def)
  qed (use step FRelease in simp)
next
  case (FIo op')
  then show ?thesis using step by (auto simp: run_simps all_fixed_def)
next
  case (FRead fd bytes off)
  show ?thesis using step FRead all_fixed_plain[of "ReqRead fd (iw_next_box (fh_world h)) (length bytes) off" "snd (new_box (VecBox bytes) (fh_world h))" h]
    by (simp add: new_box_def req_fixed_def)
next
  case (FWrite fd bytes off)
  show ?thesis using step FWrite all_fixed_plain[of "ReqWrite fd (iw_next_box (fh_world h)) (length bytes) off" "snd (new_box (VecBox bytes) (fh_world h))" h]
    by (simp add: new_box_def req_fixed_def)
qed

subsection \<open>The kernel's memory\<close>

definition file_init :: "('w, sqe) io_reactor \<Rightarrow> 'w allocator \<Rightarrow> ('w, 'x) file_hist" where
  "file_init r al =
     \<lparr>fh_world = \<lparr>iw_reactor = r, iw_alloc = al, iw_boxes = \<lambda>_. None, iw_next_box = 0\<rparr>, fh_futs = [], fh_held = [], fh_next = 0\<rparr>"

lemma file_run_inv:
  "file_inv m h \<Longrightarrow> keeps_run ops h \<Longrightarrow> m + length ops < 2 ^ 64 \<Longrightarrow> file_run ops h = Inr h' \<Longrightarrow>
    (\<exists>m'. file_inv m' h') \<and> all_fixed h' = all_fixed h"
proof (induction ops arbitrary: m h)
  case (Cons op ops)
  obtain h1 where h1: "file_step op h = Inr h1" "file_run ops h1 = Inr h'" using Cons.prems(4) by (auto simp: run_simps)
  have "Suc m < 2 ^ 64" "keeps_calls op h" "keeps_run ops h1" using Cons.prems(2,3) h1(1) by auto
  with file_step_inv[OF Cons.prems(1) _ _ h1(1)] obtain m1 where m1: "m1 \<le> Suc m" "file_inv m1 h1" by blast
  have "m1 + length ops < 2 ^ 64" using m1(1) Cons.prems(3) by simp
  from Cons.IH[OF m1(2) \<open>keeps_run ops h1\<close> this h1(2)] file_step_fixed[OF Cons.prems(1) h1(1)] show ?case by simp
qed auto

lemma inv_init: "io_ok 0 r \<Longrightarrow> io_sq r = [] \<Longrightarrow> io_inflight r = [] \<Longrightarrow> file_inv 0 (file_init r al)"
  by (simp add: file_inv_def file_init_def entries_def)

lemma fixed_of_call:
  assumes "(i, f) \<in> set (fh_futs h)" "req_fixed (fu_req f) = Some b"
  shows "fx_as_ptr b \<in># \<Sum>\<^sub># (image_mset (\<lambda>(i, f). fut_fixed f) (mset (fh_futs h)))"
  using assms by (force simp: fut_fixed_def)

lemma count_both: "p \<in># C \<Longrightarrow> p \<in># A \<Longrightarrow> 2 \<le> count (A + B + C) p"
  using count_greater_zero_iff[of C p] count_greater_zero_iff[of A p] by (simp del: count_greater_zero_iff)

text \<open>The memory of one entry.\<close>

lemma inv_entry_safe:
  assumes inv: "file_inv m h" and cons: "all_fixed h = mset ps" "distinct ps" and e: "(u, e) \<in> set (entries (iw_reactor (fh_world h)))"
  shows "entry_safe (fh_world h) e"
proof -
  obtain i f where f: "(i, f) \<in> set (fh_futs h)" "owns f (iw_reactor (fh_world h)) u e" using file_invD(7)[OF inv e] by blast
  have ok: "fut_ok (fh_world h) f" by (rule file_invD(4)[OF inv f(1)])
  have "iw_boxes (fh_world h) b \<noteq> None" if "sqe_box e = Some b" for b
    using f(2) ok that by (simp add: owns_def fut_ok_def)
  moreover have "p \<notin> fb_addr ` set (al_buffers (iw_alloc (fh_world h)))" if "sqe_fixed e = Some p" for p
  proof
    assume pool: "p \<in> fb_addr ` set (al_buffers (iw_alloc (fh_world h)))"
    from f(2) that obtain b where "req_fixed (fu_req f) = Some b" "fx_as_ptr b = p" unfolding owns_def by blast
    with fixed_of_call[OF f(1)] have "p \<in># \<Sum>\<^sub># (image_mset (\<lambda>(i, f). fut_fixed f) (mset (fh_futs h)))" by auto
    moreover have "p \<in># mset (map fb_addr (al_buffers (iw_alloc (fh_world h))))" using pool by simp
    ultimately have "2 \<le> count (all_fixed h) p" unfolding all_fixed_def by (rule count_both)
    then show False using cons by (simp add: distinct_count_atmost_1 split: if_splits)
  qed
  ultimately show ?thesis by (simp add: entry_safe_def split: option.splits)
qed

text \<open>Two entries use different memory.\<close>

lemma two_calls_fixed:
  assumes d: "distinct (map fst xs)" and f: "(i, f) \<in> set xs" "(j, g) \<in> set xs" "i \<noteq> j"
    and b: "req_fixed (fu_req f) = Some b" "req_fixed (fu_req g) = Some c" "fx_as_ptr b = fx_as_ptr c"
  shows "2 \<le> count (\<Sum>\<^sub># (image_mset (\<lambda>(i, f). fut_fixed f) (mset xs))) (fx_as_ptr b)"
proof -
  have 1: "map_of xs i = Some f" "map_of (AList.delete i xs) j = Some g"
    using d f by (simp_all add: delete_conv' map_of_is_SomeI)
  have d': "distinct (map fst (AList.delete i xs))" using d by (rule distinct_delete)
  show ?thesis unfolding futs_delete[OF d 1(1)] futs_delete[OF d' 1(2)] using b by (simp add: fut_fixed_def)
qed

lemma inv_entries_apart:
  assumes inv: "file_inv m h" and cons: "all_fixed h = mset ps" "distinct ps" and ne: "u \<noteq> u'"
    and e: "(u, e) \<in> set (entries (iw_reactor (fh_world h)))" and e': "(u', e') \<in> set (entries (iw_reactor (fh_world h)))"
  shows "(sqe_box e = None \<or> sqe_box e \<noteq> sqe_box e') \<and> (sqe_fixed e = None \<or> sqe_fixed e \<noteq> sqe_fixed e')"
proof -
  let ?r = "iw_reactor (fh_world h)"
  obtain i f where f: "(i, f) \<in> set (fh_futs h)" "owns f ?r u e" using file_invD(7)[OF inv e] by blast
  obtain j g where g: "(j, g) \<in> set (fh_futs h)" "owns g ?r u' e'" using file_invD(7)[OF inv e'] by blast
  have "i \<noteq> j"
  proof
    assume "i = j"
    then have "g = f" using f(1) g(1) file_invD(2)[OF inv] by (metis eq_key_imp_eq_value)
    then obtain c where "(u, c) \<in> set (io_completions ?r)" "(u', c) \<in> set (io_completions ?r)"
      using f(2) g(2) by (auto simp: owns_def dest!: map_of_SomeD)
    moreover have "distinct (map snd (io_completions ?r))" using file_invD(1)[OF inv] by (simp add: io_ok_def)
    ultimately show False using ne by (fastforce simp: distinct_map inj_on_def)
  qed
  have "apart f g" by (rule file_invD(5)[OF inv f(1) g(1) \<open>i \<noteq> j\<close>])
  have "sqe_box e = None \<or> sqe_box e \<noteq> sqe_box e'"
  proof (cases "sqe_box e")
    case (Some b)
    then have "fu_box f = Some b" "sqe_box e' = Some b \<Longrightarrow> fu_box g = Some b" using f(2) g(2) by (simp_all add: owns_def)
    then show ?thesis using \<open>apart f g\<close> Some by (auto simp: apart_def)
  qed simp
  moreover have "sqe_fixed e = None \<or> sqe_fixed e \<noteq> sqe_fixed e'"
  proof (rule ccontr)
    assume "\<not> ?thesis"
    then obtain p where "sqe_fixed e = Some p" "sqe_fixed e' = Some p" by (cases "sqe_fixed e") auto
    then obtain b c where p: "req_fixed (fu_req f) = Some b" "req_fixed (fu_req g) = Some c" "fx_as_ptr b = p" "fx_as_ptr c = p"
      using f(2) g(2) unfolding owns_def by blast
    have "2 \<le> count (all_fixed h) p"
      using two_calls_fixed[OF file_invD(2)[OF inv] f(1) g(1) \<open>i \<noteq> j\<close> p(1,2)] p(3,4) unfolding all_fixed_def by simp
    then show False using cons by (simp add: distinct_count_atmost_1 split: if_splits)
  qed
  ultimately show ?thesis by blast
qed

text \<open>
  C26 (safety). From a newly built reactor whose buffers have distinct addresses, in every history in which
  no call is dropped while it is under way and no raw pointer is passed: the memory of every entry that is
  queued or with the kernel is live and not in the pool, two entries never share memory, and every
  registered buffer is in the pool, held by a task or with a call, once.
\<close>

theorem kernel_memory_safe:
  assumes built: "io_build sys create env taken now b = Inr (r0, al)" and addr: "distinct (map fb_addr (al_buffers al))"
    and keeps: "keeps_run ops (file_init r0 al :: ('w, 'x) file_hist)" "length ops < 2 ^ 64" and run: "file_run ops (file_init r0 al) = Inr (h :: ('w, 'x) file_hist)"
  shows "(\<forall>(u, e) \<in> set (entries (iw_reactor (fh_world h))). entry_safe (fh_world h) e) \<and>
    (\<forall>(u, e) \<in> set (entries (iw_reactor (fh_world h))). \<forall>(v, d) \<in> set (entries (iw_reactor (fh_world h))). u \<noteq> v \<longrightarrow>
       (sqe_box e = None \<or> sqe_box e \<noteq> sqe_box d) \<and> (sqe_fixed e = None \<or> sqe_fixed e \<noteq> sqe_fixed d)) \<and>
    all_fixed h = mset (map fb_addr (al_buffers al))"
proof -
  have "io_ok 0 r0" "io_sq r0 = []" "io_inflight r0 = []"
    using built by (auto simp: io_build_def run_simps Let_def io_ok_def split: option.splits if_splits)
  from file_run_inv[OF inv_init[OF this] keeps(1) _ run] keeps(2)
  obtain m where inv: "file_inv m h" and "all_fixed h = all_fixed (file_init r0 al :: ('w, 'x) file_hist)" by auto
  then have fx: "all_fixed h = mset (map fb_addr (al_buffers al))" by (simp add: all_fixed_def file_init_def)
  show ?thesis using inv_entry_safe[OF inv fx addr] inv_entries_apart[OF inv fx addr] fx by blast
qed

definition demo_uring :: "(string, sqe) io_reactor" where
  "demo_uring = \<lparr>io_sq = [], io_sq_entries = 4, io_inflight = [], io_cq = [], io_need_wakeup = False, io_completions = [],
     io_handles = \<lambda>_. handle_state_new, io_next_cell = 0, io_counter = 0, io_completed = 0, io_last_submit = 0,
     io_params = \<lparr>ip_submit_depth = 64, ip_wait_submit_timeout = 50000000, ip_wait_complete_timeout = 100000000, ip_sq_poll = None\<rparr>,
     io_submit_thread = None, io_wakes = []\<rparr>"

lemma demo_uring_built: "io_build demo_system (Some 4) None False 0 demo_builder = Inr (demo_uring, demo_pool)"
proof -
  have "alloc_new demo_system 1 2 = Inr demo_pool"
    using demo_pool_new by (simp add: alloc_new_def demo_system_def demo_pool_def)
  then show ?thesis
    by (simp add: io_build_def demo_builder_def io_builder_default_def enabled_by_env_def demo_uring_def Let_def)
qed

lemmas file_run_simps = file_init_def demo_uring_def demo_pool_def try_acquire_def acquire_inner_def new_box_def add_fut_def
  file_call_def req_box_def req_fixed_def fut_poll_def start_req_defs push_sqe_def fut_await_def wait_poll_def handle_state_new_def
  remove_nth_def Let_def run_simps

text \<open>A write from a \<open>Vec\<close> and a read into the registered buffer, both with the kernel.\<close>

definition demo_calls :: "string file_op list" where
  "demo_calls = [FAcquire, FFixed True 3 0 0 2, FWrite 4 [1] 0, FPoll 0 ''a'', FPoll 1 ''b'', FIo (KTake 2)]"

lemma demo_calls_run:
  "\<exists>h. file_run demo_calls (file_init demo_uring demo_pool :: (string, unit) file_hist) = Inr h \<and>
     entries (iw_reactor (fh_world h)) = [(0, SqeReadFixed 3 4096 2 0 0), (1, SqeWrite 4 0 1 0)] \<and>
     fh_futs h = [(1, \<lparr>fu_req = ReqWrite 4 0 1 0, fu_box = Some 0, fu_state = FutWait 1\<rparr>),
       (0, \<lparr>fu_req = ReqReadFixed 3 \<lparr>fx_buffer = Some (hd (al_buffers demo_pool))\<rparr> 0 2, fu_box = None, fu_state = FutWait 0\<rparr>)] \<and>
     al_buffers (iw_alloc (fh_world h)) = [] \<and> al_queue (iw_alloc (fh_world h)) = []"
  by (simp add: demo_calls_def file_run_simps entries_def fx_as_ptr_def fx_index_def)

theorem kernel_memory_safe_witness:
  "\<exists>h. file_run demo_calls (file_init demo_uring demo_pool :: (string, unit) file_hist) = Inr h \<and>
     entry_safe (fh_world h) (SqeReadFixed 3 4096 2 0 0) \<and> entry_safe (fh_world h) (SqeWrite 4 0 1 0)"
proof -
  obtain h where h: "file_run demo_calls (file_init demo_uring demo_pool :: (string, unit) file_hist) = Inr h"
    "entries (iw_reactor (fh_world h)) = [(0, SqeReadFixed 3 4096 2 0 0), (1, SqeWrite 4 0 1 0)]" using demo_calls_run by blast
  have "distinct (map fb_addr (al_buffers demo_pool))" by (simp add: demo_pool_def)
  moreover have "keeps_run demo_calls (file_init demo_uring demo_pool :: (string, unit) file_hist)"
    by (simp add: demo_calls_def split: sum.splits)
  moreover have "length demo_calls < 2 ^ 64" by (simp add: demo_calls_def)
  ultimately have "\<forall>(u, e) \<in> set (entries (iw_reactor (fh_world h))). entry_safe (fh_world h) e"
    using kernel_memory_safe[OF demo_uring_built _ _ _ h(1)] by blast
  with h show ?thesis by auto
qed

text \<open>
  Dropping a call that waits on a registered buffer returns the buffer to the pool while its
  entry is still queued or with the kernel: the next acquirer gets the memory the kernel is using.
\<close>

theorem dropped_call_shares_buffer:
  assumes f: "map_of (fh_futs h) i = Some f" "fu_state f = FutWait c" "req_fixed (fu_req f) = Some b" "fx_buffer b = Some x"
    and e: "(u, e) \<in> set (entries (iw_reactor (fh_world h)))" "sqe_fixed e = Some (fb_addr x)"
  shows "\<exists>h'. file_run [FDrop i, FAcquire] h = Inr h' \<and> fh_held h' = b # fh_held h \<and>
    (u, e) \<in> set (entries (iw_reactor (fh_world h'))) \<and> sqe_fixed e = Some (fx_as_ptr b)"
proof -
  have bufs: "al_buffers (iw_alloc (fut_drop f (fh_world h))) = al_buffers (iw_alloc (fh_world h)) @ [x]"
    using f by (simp add: fut_drop_def return_buffer_def buffers_buffer_drop)
  have re: "iw_reactor (fut_drop f (fh_world h)) = iw_reactor (fh_world h)"
    using f by (simp add: fut_drop_def return_buffer_def free_opt_def free_box_def split: option.splits)
  have "b = \<lparr>fx_buffer = Some x\<rparr>" using f(4) by (cases b) simp
  then show ?thesis using f e bufs re by (simp add: try_acquire_def acquire_inner_def fx_as_ptr_def)
qed

theorem dropped_call_shares_buffer_witness:
  "\<exists>h h'. file_run demo_calls (file_init demo_uring demo_pool :: (string, unit) file_hist) = Inr h \<and>
     file_run [FDrop 0, FAcquire] h = Inr h' \<and> map fx_as_ptr (fh_held h') = [4096] \<and>
     (0, SqeReadFixed 3 4096 2 0 0) \<in> set (entries (iw_reactor (fh_world h')))"
proof -
  let ?b = "\<lparr>fx_buffer = Some (hd (al_buffers demo_pool))\<rparr>"
  obtain h where h: "file_run demo_calls (file_init demo_uring demo_pool :: (string, unit) file_hist) = Inr h"
    "entries (iw_reactor (fh_world h)) = [(0, SqeReadFixed 3 4096 2 0 0), (1, SqeWrite 4 0 1 0)]"
    "map_of (fh_futs h) 0 = Some \<lparr>fu_req = ReqReadFixed 3 ?b 0 2, fu_box = None, fu_state = FutWait 0\<rparr>" "fh_held h = []"
    by (simp add: demo_calls_def file_run_simps entries_def fx_as_ptr_def fx_index_def)
  have x: "fx_buffer ?b = Some (hd (al_buffers demo_pool))" "fb_addr (hd (al_buffers demo_pool)) = 4096" by (simp_all add: demo_pool_def)
  from dropped_call_shares_buffer[OF h(3) _ _ x(1), where u = 0 and e = "SqeReadFixed 3 4096 2 0 0" and c = 0] h x(2)
  obtain h' where "file_run [FDrop 0, FAcquire] h = Inr h'" "fh_held h' = [?b]"
    "(0, SqeReadFixed 3 4096 2 0 0) \<in> set (entries (iw_reactor (fh_world h')))"
    by (auto simp: sqe_fixed_def req_fixed_def)
  with h(1) x(2) show ?thesis by (auto simp: fx_as_ptr_def)
qed

end
