(* ===== verification/Uring_Runtime.thy ===== *)
theory Uring_Runtime
  imports Uring_Files Reactor_Loop
begin

section \<open>File operations on the executor\<close>

text \<open>
  The io_uring reactor and the file operations under the executor: the parameters of \<open>Executor\<close> are instantiated with
  the code of \<open>pluvio_uring\<close>, and \<open>block_on\<close> of a file operation is followed from its first poll through submission,
  the status gate, the cached status, the completion and the wake-up to the result.
\<close>

subsection \<open>The reactor behind \<open>dyn Reactor\<close>\<close>

text \<open>
  The rest of the process is the ring with its buffers and boxes, and the number of times the reactor was polled. Before
  its poll \<open>k\<close> the kernel makes the steps \<open>kernel k\<close>, and it answers \<open>io_uring_enter\<close> with \<open>accepts k\<close>. The wakers of the
  completions go to the executor. \<open>clock\<close> is indexed by ticks: \<open>elapsed()\<close> in the status gate must see time pass
  while the loop only yields.
\<close>

record kernel =
  kernel_steps :: "nat \<Rightarrow> (waker, sqe) io_op list"
  kernel_accepts :: "nat \<Rightarrow> bool"

definition poll_uring ::
  "(nat \<Rightarrow> nat) \<Rightarrow> kernel \<Rightarrow> ('v, 'p, (waker, 'x) io_world \<times> nat) machine \<Rightarrow> ('v, 'p, (waker, 'x) io_world \<times> nat) machine run" where
  "poll_uring clock K m =
     (case m_world m of (w, k) \<Rightarrow>
        run_bind (io_run (kernel_steps K k) (iw_reactor w)) (\<lambda>r.
        run_bind (poll_submit_and_completions (clock (ticks m)) (kernel_accepts K k) r) (\<lambda>r'.
        wake_all (drop (length (io_wakes r)) (io_wakes r'))
          (m\<lparr>clock_reads := (if io_sq r = [] then clock_reads m else Suc (clock_reads m)), m_world := (w\<lparr>iw_reactor := r'\<rparr>, Suc k)\<rparr>))))"

definition status_uring ::
  "(nat \<Rightarrow> nat) \<Rightarrow> (string \<Rightarrow> string option) \<Rightarrow> ('v, 'p, (waker, 'x) io_world \<times> nat) machine \<Rightarrow> reactor_status" where
  "status_uring clock var m =
     io_status (always_poll_env (var ''PLUVIO_URING_ALWAYS_POLL'')) (clock (ticks m)) (iw_reactor (fst (m_world m)))"

definition file_fut_poll ::
  "waker \<Rightarrow> (file_fut, io_error + file_out, ('v, 'p, (waker, 'x) io_world \<times> nat) machine) fut_poll" where
  "file_fut_poll wk f m =
     (case m_world m of (w, k) \<Rightarrow> run_bind (fut_poll wk f w) (\<lambda>(p, f, w). Inr (p, f, m\<lparr>m_world := (w, k)\<rparr>)))"

definition uring_env ::
  "('p, file_fut task option) slab_ops \<Rightarrow> (nat \<Rightarrow> nat) \<Rightarrow> kernel \<Rightarrow> (nat \<Rightarrow> nat) \<Rightarrow> (string \<Rightarrow> string option) \<Rightarrow>
   (string list \<Rightarrow> string list) \<Rightarrow> (file_fut, io_error + file_out, 'p, (waker, 'x) io_world \<times> nat) env" where
  "uring_env S clock K now var order =
     \<lparr>e_slab = S, e_user_poll = file_fut_poll, e_reactor_poll = \<lambda>_. poll_uring clock K,
      e_reactor_status = \<lambda>_. status_uring clock var, e_clock = now, e_var = var, e_hash_order = order\<rparr>"

lemma uring_env_sel [simp]:
  "e_slab (uring_env S clock K now var order) = S" "e_user_poll (uring_env S clock K now var order) = file_fut_poll"
  "e_reactor_poll (uring_env S clock K now var order) i = poll_uring clock K"
  "e_reactor_status (uring_env S clock K now var order) i = status_uring clock var"
  "e_hash_order (uring_env S clock K now var order) = order"
  by (simp_all add: uring_env_def)

subsection \<open>One call under way\<close>

text \<open>The reactor has one operation, \<open>u\<close>, under way, which task \<open>target\<close> awaits at cell \<open>c\<close>.\<close>

definition one_call :: "nat \<Rightarrow> u64 \<Rightarrow> nat \<Rightarrow> (waker, sqe) io_reactor \<Rightarrow> bool" where
  "one_call target u c r \<longleftrightarrow> io_completions r = [(u, c)] \<and> under_way r = [u] \<and> io_completed r < io_counter r \<and>
     io_handles r c = \<lparr>hs_waker = Some (PluvioWaker QNormal target), hs_result = None\<rparr>"

fun kernel_op :: "('w, 'e) io_op \<Rightarrow> bool" where
  "kernel_op (KTake n) \<longleftrightarrow> True" | "kernel_op (KComplete i res) \<longleftrightarrow> True" | "kernel_op KSleep \<longleftrightarrow> True" | "kernel_op _ \<longleftrightarrow> False"

text \<open>What the kernel leaves as it is.\<close>

definition same_ring :: "('w, 'e) io_reactor \<Rightarrow> ('w, 'e) io_reactor \<Rightarrow> bool" where
  "same_ring r r' \<longleftrightarrow> io_params r' = io_params r \<and> io_last_submit r' = io_last_submit r \<and> io_submit_thread r' = io_submit_thread r \<and>
     io_wakes r' = io_wakes r \<and> (io_sq r = [] \<longrightarrow> io_sq r' = []) \<and> (io_cq r \<noteq> [] \<longrightarrow> io_cq r' \<noteq> [])"

lemma kernel_op_step:
  assumes one: "one_call target u c r" and op: "kernel_op op"
  shows "\<exists>r'. io_step op r = Inr r' \<and> one_call target u c r' \<and> same_ring r r' \<and>
    set (io_cq r') \<subseteq> set (io_cq r) \<union> {(u, res) | res. \<exists>i. op = KComplete i res} \<and>
    (\<forall>n. op = KTake (Suc n) \<longrightarrow> io_sq r' = []) \<and> (\<forall>res. op = KComplete 0 res \<longrightarrow> io_sq r = [] \<longrightarrow> io_cq r' \<noteq> [])"
proof -
  have uw: "map fst (io_sq r) @ map fst (io_inflight r) @ map fst (io_cq r) = [u]" using one by (simp add: one_call_def)
  show ?thesis
  proof (cases op)
    case (KTake n)
    with one uw show ?thesis
      by (cases n) (auto simp: one_call_def same_ring_def append_eq_Cons_conv)
  next
    case (KComplete i res)
    with one uw show ?thesis
      by (cases i) (auto simp: one_call_def same_ring_def append_eq_Cons_conv Cons_eq_append_conv)
  next
    case KSleep
    with one show ?thesis by (auto simp: one_call_def same_ring_def)
  qed (use op in simp_all)
qed

lemma same_ring_trans: "same_ring r1 r2 \<Longrightarrow> same_ring r2 r3 \<Longrightarrow> same_ring r1 r3"
  by (auto simp: same_ring_def)

lemma kernel_ops_run:
  "one_call target u c r \<Longrightarrow> list_all kernel_op ops \<Longrightarrow> \<exists>r'. io_run ops r = Inr r' \<and> one_call target u c r' \<and> same_ring r r' \<and>
    set (io_cq r') \<subseteq> set (io_cq r) \<union> {(u, res) | res. \<exists>i. KComplete i res \<in> set ops} \<and>
    ((\<exists>n. KTake (Suc n) \<in> set ops) \<longrightarrow> io_sq r' = [])"
proof (induction ops arbitrary: r)
  case (Cons op ops)
  then obtain r1 where r1: "io_step op r = Inr r1" "one_call target u c r1" "same_ring r r1"
    "set (io_cq r1) \<subseteq> set (io_cq r) \<union> {(u, res) | res. \<exists>i. op = KComplete i res}" "\<forall>n. op = KTake (Suc n) \<longrightarrow> io_sq r1 = []"
    using kernel_op_step[OF Cons.prems(1), of op] by auto
  from Cons.IH[OF r1(2)] Cons.prems(2) obtain r2 where r2: "io_run ops r1 = Inr r2" "one_call target u c r2" "same_ring r1 r2"
    "set (io_cq r2) \<subseteq> set (io_cq r1) \<union> {(u, res) | res. \<exists>i. KComplete i res \<in> set ops}" "(\<exists>n. KTake (Suc n) \<in> set ops) \<longrightarrow> io_sq r2 = []"
    by auto
  have "io_sq r2 = []" if "KTake (Suc n) \<in> set (op # ops)" for n
    using that r1(5) r2(3,5) by (auto simp: same_ring_def)
  moreover have "set (io_cq r2) \<subseteq> set (io_cq r) \<union> {(u, res) | res. \<exists>i. KComplete i res \<in> set (op # ops)}"
    using r1(4) r2(4) by (auto simp: subset_iff) blast+
  ultimately show ?case using r1(1) r2(1,2) same_ring_trans[OF r1(3) r2(3)] by auto
qed (simp add: same_ring_def)

text \<open>The modes in which the reactor does not submit by itself: the kernel, or the submit thread through it, takes the entries.\<close>

definition polling_mode :: "('w, 'e) io_reactor \<Rightarrow> bool" where
  "polling_mode r \<longleftrightarrow> ip_sq_poll (io_params r) \<noteq> None \<or> io_submit_thread r \<noteq> None"

text \<open>The kernel completes the oldest entry it has; in a polling mode it takes one before.\<close>

definition serves :: "bool \<Rightarrow> ('w, 'e) io_op list \<Rightarrow> bool" where
  "serves polling ops \<longleftrightarrow> (\<exists>xs ys res. ops = xs @ KComplete 0 res # ys \<and> (polling \<longrightarrow> (\<exists>n. KTake (Suc n) \<in> set xs)))"

lemma kernel_serves:
  assumes one: "one_call target u c r" and ops: "list_all kernel_op ops" and sv: "serves polling ops" and sq: "io_sq r = [] \<or> polling"
    and run: "io_run ops r = Inr r'"
  shows "io_cq r' \<noteq> []"
proof -
  obtain xs ys res where x: "ops = xs @ KComplete 0 res # ys" "polling \<longrightarrow> (\<exists>n. KTake (Suc n) \<in> set xs)"
    using sv by (auto simp: serves_def)
  have app: "io_run (xs @ zs) r = run_bind (io_run xs r) (io_run zs)" for xs zs and r :: "(waker, sqe) io_reactor"
    by (induction xs arbitrary: r) (auto simp: run_bind_def split: sum.split)
  have k: "list_all kernel_op xs" "list_all kernel_op ys" using ops x(1) by simp_all
  from kernel_ops_run[OF one k(1)] obtain r1 where r1: "io_run xs r = Inr r1" "one_call target u c r1" "same_ring r r1"
    "(\<exists>n. KTake (Suc n) \<in> set xs) \<longrightarrow> io_sq r1 = []" by blast
  have "io_sq r1 = []" using sq x(2) r1(3,4) by (auto simp: same_ring_def)
  with kernel_op_step[OF r1(2), of "KComplete 0 res"] obtain r2 where r2: "io_step (KComplete 0 res) r1 = Inr r2" "one_call target u c r2" "io_cq r2 \<noteq> []"
    by auto
  from kernel_ops_run[OF r2(2) k(2)] obtain r3 where r3: "io_run ys r2 = Inr r3" "same_ring r2 r3" by blast
  have "io_run ops r = Inr r3" unfolding x(1) app using r1(1) r2(1) r3(1) by simp
  then show ?thesis using run r2(3) r3(2) by (simp add: same_ring_def)
qed

subsection \<open>A poll of the reactor\<close>

text \<open>The operation is not completed, so it is submitted at most; or its completion is there and is delivered.\<close>

lemma poll_one_call:
  assumes one: "one_call target u c r" and cq: "io_cq r = []"
  shows "\<exists>r'. poll_submit_and_completions now True r = Inr r' \<and> one_call target u c r' \<and> io_cq r' = [] \<and> io_wakes r' = io_wakes r \<and>
    io_params r' = io_params r \<and> polling_mode r' = polling_mode r \<and> io_last_submit r' = (if io_sq r = [] then io_last_submit r else now) \<and>
    (polling_mode r \<or> io_sq r' = [])"
  using assms
  by (auto simp: poll_submit_and_completions_def poll_submit_def ring_submit_def run_simps one_call_def polling_mode_def Let_def
      append_eq_Cons_conv split: option.split)

lemma poll_completed_call:
  assumes one: "one_call target u c r" and cq: "io_cq r = [(u, res)]"
  shows "\<exists>r'. poll_submit_and_completions now True r = Inr r' \<and> io_sq r = [] \<and> io_completions r' = [] \<and>
    hs_result (io_handles r' c) = Some (io_result res) \<and> io_wakes r' = io_wakes r @ [PluvioWaker QNormal target]"
  using assms
  by (auto simp: poll_submit_and_completions_def poll_submit_def run_simps one_call_def handle_cqe_def Let_def split: option.split)

subsection \<open>The contract\<close>

text \<open>The value of a call whose completion says \<open>res\<close>.\<close>

definition call_value :: "file_req \<Rightarrow> int \<Rightarrow> io_error + file_out \<Rightarrow> bool" where
  "call_value req res v \<longleftrightarrow>
     (if res < 0 then v = Inl (OsError (- res))
      else case req of
          ReqOpen _ _ _ \<Rightarrow> v = Inr (OutFile \<lparr>df_fd = res\<rparr>)
        | ReqStatx _ _ _ \<Rightarrow> (\<exists>st. v = Inr (OutStatx st))
        | ReqReadFixed _ b _ _ \<Rightarrow> v = Inr (OutFixed res b)
        | ReqWriteFixed _ b _ _ \<Rightarrow> v = Inr (OutFixed res b)
        | _ \<Rightarrow> v = Inr (OutInt res))"

lemma finish_req_value: "call_value req res (fst (finish_req req box (io_result res) w))"
  by (cases req) (auto simp: call_value_def finish_req_def io_result_def req_fixed_def open_result_def statx_result_def
      split: option.split storage.split)

text \<open>The kernel makes kernel steps only, accepts every submission, and serves the ring in every \<open>d\<close> polls.\<close>

definition kernel_fair :: "bool \<Rightarrow> nat \<Rightarrow> kernel \<Rightarrow> bool" where
  "kernel_fair polling d K \<longleftrightarrow> (\<forall>k. list_all kernel_op (kernel_steps K k) \<and> kernel_accepts K k \<and>
     (\<exists>j < d. serves polling (kernel_steps K (k + j))))"

definition completes :: "kernel \<Rightarrow> int \<Rightarrow> bool" where
  "completes K res \<longleftrightarrow> (\<exists>k i. KComplete i res \<in> set (kernel_steps K k))"

text \<open>The completion timeout passes within \<open>D\<close> ticks.\<close>

definition clock_fair :: "nat \<Rightarrow> nat \<Rightarrow> (nat \<Rightarrow> nat) \<Rightarrow> bool" where
  "clock_fair timeout D clock \<longleftrightarrow> mono clock \<and> (\<forall>t. clock t + timeout \<le> clock (t + D))"

text \<open>
  The call \<open>req\<close> waits at its cell. In \<open>n\<close> polls the kernel has served the ring once after the entry was submitted. The
  completion timeout since the last submission has passed at tick \<open>T\<close>.
\<close>

definition call_waits ::
  "(nat \<Rightarrow> nat) \<Rightarrow> kernel \<Rightarrow> nat \<Rightarrow> file_req \<Rightarrow> nat \<Rightarrow> nat \<Rightarrow> nat \<Rightarrow> file_fut \<Rightarrow> nat \<Rightarrow> (waker, 'x) io_world \<times> nat \<Rightarrow> bool" where
  "call_waits clock K D req target n T f rd w \<longleftrightarrow>
     (case w of (w, k) \<Rightarrow> \<exists>u c d. let r = iw_reactor w in
        one_call target u c r \<and> fu_state f = FutWait c \<and> fu_req f = req \<and> list_all (\<lambda>(_, res). completes K res) (io_cq r) \<and>
        kernel_fair (polling_mode r) d K \<and> clock_fair (ip_wait_complete_timeout (io_params r)) D clock \<and>
        io_last_submit r + ip_wait_complete_timeout (io_params r) \<le> clock T \<and>
        (\<exists>j < n. serves (polling_mode r) (kernel_steps K (k + j)) \<and> (io_sq r \<noteq> [] \<and> \<not> polling_mode r \<longrightarrow> 0 < j)))"

definition call_done :: "kernel \<Rightarrow> file_req \<Rightarrow> io_error + file_out \<Rightarrow> nat \<Rightarrow> (waker, 'x) io_world \<times> nat \<Rightarrow> bool" where
  "call_done K req v rd w \<longleftrightarrow> io_completions (iw_reactor (fst w)) = [] \<and> (\<exists>res. completes K res \<and> call_value req res v)"

lemma call_waits_running:
  fixes x :: "('v, 'p, (waker, 'x) io_world \<times> nat) machine"
  assumes w: "call_waits clock K D req target n T f (clock_reads x) (m_world x)" and T: "T \<le> ticks x"
  shows "status_uring clock var x = Running"
proof -
  obtain w k where wk: "m_world x = (w, k)" by fastforce
  let ?r = "iw_reactor w"
  from w wk have c: "io_completed ?r < io_counter ?r" "mono clock" "io_last_submit ?r + ip_wait_complete_timeout (io_params ?r) \<le> clock T"
    by (auto simp: call_waits_def Let_def one_call_def clock_fair_def)
  then have "ip_wait_complete_timeout (io_params ?r) \<le> clock (ticks x) - io_last_submit ?r"
    using monoD[OF c(2) T] by linarith
  then show ?thesis using wk c(1) by (simp add: status_uring_def io_status_def Let_def)
qed

lemma call_waits_poll:
  fixes x :: "(io_error + file_out, 'p, (waker, 'x) io_world \<times> nat) machine"
  assumes w: "call_waits clock K D req target n T f (clock_reads x) (m_world x)" and T: "T \<le> ticks x + D"
  shows "(\<exists>r w T'. poll_uring clock K x = Inr (x\<lparr>clock_reads := r, m_world := w\<rparr>) \<and> 0 < n \<and>
       call_waits clock K D req target (n - 1) T' f r w \<and> T' \<le> r + length (m_os x) + D) \<or>
    (\<exists>r w v f' r' w'. poll_uring clock K x = wake (PluvioWaker QNormal target) (x\<lparr>clock_reads := r, m_world := w\<rparr>) \<and>
       call_done K req v (Suc r') w' \<and>
       (\<forall>y :: (io_error + file_out, 'p, (waker, 'x) io_world \<times> nat) machine. clock_reads y = Suc r \<longrightarrow> m_world y = w \<longrightarrow>
         file_fut_poll (PluvioWaker QNormal target) f y = Inr (Ready v, f', y\<lparr>clock_reads := r', m_world := w'\<rparr>)))"
proof -
  obtain w k where wk: "m_world x = (w, k)" by fastforce
  let ?r = "iw_reactor w"
  from w wk obtain u c d j where c: "one_call target u c ?r" "fu_state f = FutWait c" "fu_req f = req"
    "list_all (\<lambda>(_, res). completes K res) (io_cq ?r)" "kernel_fair (polling_mode ?r) d K"
    "clock_fair (ip_wait_complete_timeout (io_params ?r)) D clock"
    "io_last_submit ?r + ip_wait_complete_timeout (io_params ?r) \<le> clock T"
    and j: "j < n" "serves (polling_mode ?r) (kernel_steps K (k + j))" "io_sq ?r \<noteq> [] \<and> \<not> polling_mode ?r \<longrightarrow> 0 < j"
    by (auto simp: call_waits_def Let_def)
  have ops: "list_all kernel_op (kernel_steps K k)" and ok: "kernel_accepts K k" using c(5) by (auto simp: kernel_fair_def)
  from kernel_ops_run[OF c(1) ops] obtain r1 where r1: "io_run (kernel_steps K k) ?r = Inr r1" "one_call target u c r1" "same_ring ?r r1"
    "set (io_cq r1) \<subseteq> set (io_cq ?r) \<union> {(u, res) | res. \<exists>i. KComplete i res \<in> set (kernel_steps K k)}" by blast
  have pm: "polling_mode r1 = polling_mode ?r" and par: "io_params r1 = io_params ?r" "io_last_submit r1 = io_last_submit ?r"
    using r1(3) by (simp_all add: polling_mode_def same_ring_def)
  have res: "completes K res" if "(a, res) \<in> set (io_cq r1)" for a res
  proof -
    have "(a, res) \<in> set (io_cq ?r) \<or> (\<exists>i. KComplete i res \<in> set (kernel_steps K k))" using that r1(4) by auto
    then show ?thesis using c(4) by (fastforce simp: completes_def list_all_iff)
  qed
  let ?now = "clock (ticks x)"
  show ?thesis
  proof (cases "io_cq r1 = []")
    case True
    from poll_one_call[OF r1(2) True, of ?now] obtain r2 where r2: "poll_submit_and_completions ?now True r1 = Inr r2" "one_call target u c r2"
      "io_cq r2 = []" "io_wakes r2 = io_wakes r1" "io_params r2 = io_params r1" "polling_mode r2 = polling_mode r1"
      "io_last_submit r2 = (if io_sq r1 = [] then io_last_submit r1 else ?now)" "polling_mode r1 \<or> io_sq r2 = []" by blast
    let ?rd = "if io_sq r1 = [] then clock_reads x else Suc (clock_reads x)" and ?w = "(w\<lparr>iw_reactor := r2\<rparr>, Suc k)"
    let ?T = "if io_sq r1 = [] then T else ticks x + D"
    have "poll_uring clock K x = Inr (x\<lparr>clock_reads := ?rd, m_world := ?w\<rparr>)"
      using wk r1(1) ok r2(1,4) by (simp add: poll_uring_def)
    moreover have j0: "0 < j"
    proof (rule ccontr)
      assume "\<not> 0 < j"
      then have "io_sq ?r = [] \<or> polling_mode ?r" "serves (polling_mode ?r) (kernel_steps K k)" using j(2,3) by auto
      from kernel_serves[OF c(1) ops this(2,1) r1(1)] True show False by simp
    qed
    moreover have "call_waits clock K D req target (n - 1) ?T f ?rd ?w"
    proof -
      have "k + j = Suc k + (j - 1)" "j - 1 < n - 1" using j0 j(1) by simp_all
      then have "\<exists>j < n - 1. serves (polling_mode r2) (kernel_steps K (Suc k + j)) \<and> (io_sq r2 \<noteq> [] \<and> \<not> polling_mode r2 \<longrightarrow> 0 < j)"
        using j(2) r2(6,8) pm by (intro exI[of _ "j - 1"]) auto
      moreover have "io_last_submit r2 + ip_wait_complete_timeout (io_params r2) \<le> clock ?T"
        using c(6,7) r2(5,7) par by (simp add: clock_fair_def)
      moreover have "kernel_fair (polling_mode r2) d K" "clock_fair (ip_wait_complete_timeout (io_params r2)) D clock"
        using c(5,6) r2(5,6) pm par by simp_all
      ultimately show ?thesis using r2(2,3) c(2,3) by (auto simp: call_waits_def Let_def)
    qed
    moreover have "?T \<le> ?rd + length (m_os x) + D" using T by (simp add: ticks_def)
    ultimately show ?thesis using j(1) by (intro disjI1 exI[of _ ?rd] exI[of _ ?w] exI[of _ ?T]) simp
  next
    case False
    then obtain a rs where q: "(a, rs) \<in> set (io_cq r1)" by (metis list.set_intros(1) neq_Nil_conv surj_pair)
    have "under_way r1 = [u]" using r1(2) by (simp add: one_call_def)
    then have q1: "io_cq r1 = [(u, rs)]" using q by (auto simp: append_eq_Cons_conv)
    from poll_completed_call[OF r1(2) q1, of ?now] obtain r2 where r2: "poll_submit_and_completions ?now True r1 = Inr r2" "io_sq r1 = []"
      "io_completions r2 = []" "hs_result (io_handles r2 c) = Some (io_result rs)" "io_wakes r2 = io_wakes r1 @ [PluvioWaker QNormal target]" by blast
    let ?w = "(w\<lparr>iw_reactor := r2\<rparr>, Suc k)" and ?wk = "PluvioWaker QNormal target"
    have p: "poll_uring clock K x = wake ?wk (x\<lparr>clock_reads := clock_reads x, m_world := ?w\<rparr>)"
      using wk r1(1) ok r2(1,2,5) by (simp add: poll_uring_def run_bind_def split: sum.split)
    obtain v f' w' where v: "fut_poll ?wk f (w\<lparr>iw_reactor := r2\<rparr>) = Inr (Ready v, f', w')" "call_value req rs v" "io_completions (iw_reactor w') = []"
    proof -
      let ?r3 = "r2\<lparr>io_handles := (io_handles r2)(c := (io_handles r2 c)\<lparr>hs_result := None\<rparr>)\<rparr>"
      let ?fin = "finish_req (fu_req f) (fu_box f) (io_result rs) (w\<lparr>iw_reactor := ?r3\<rparr>)"
      have "fut_poll ?wk f (w\<lparr>iw_reactor := r2\<rparr>) = Inr (Ready (fst ?fin), f\<lparr>fu_box := None, fu_state := FutDone\<rparr>, snd ?fin)"
        using c(2) r2(4) by (simp add: fut_poll_def fut_await_def wait_poll_def split_beta Let_def)
      moreover have "call_value req rs (fst ?fin)" using finish_req_value[of "fu_req f"] c(3) by simp
      moreover have "io_completions (iw_reactor (snd ?fin)) = []"
        using r2(3) by (auto simp: finish_req_def return_buffer_def free_opt_def free_box_def split: sum.split option.split)
      ultimately show thesis by (rule that)
    qed
    have "call_done K req v (Suc (Suc (clock_reads x))) (w', Suc k)" using v(2,3) res[OF q] by (auto simp: call_done_def)
    moreover have "file_fut_poll ?wk f y = Inr (Ready v, f', y\<lparr>clock_reads := Suc (clock_reads x), m_world := (w', Suc k)\<rparr>)"
      if "clock_reads y = Suc (clock_reads x)" "m_world y = ?w" for y :: "(io_error + file_out, 'p, (waker, 'x) io_world \<times> nat) machine"
      using that v(1) by (simp add: file_fut_poll_def)
    ultimately show ?thesis using p
      by (intro disjI2 exI[of _ "clock_reads x"] exI[of _ ?w] exI[of _ v] exI[of _ f'] exI[of _ "Suc (clock_reads x)"] exI[of _ "(w', Suc k)"]) simp
  qed
qed

interpretation calling: waiting_on_reactor "uring_env S clock K now var order" "call_waits clock K D req" "call_done K req" D
  for S clock K now var order D req
  by unfold_locales (use call_waits_running call_waits_poll in \<open>simp_all, blast+\<close>)

subsection \<open>A file operation under \<open>block_on\<close>\<close>

lemma start_req_reactor: "start_req req w = Inr (sqe, box, w') \<Longrightarrow> iw_reactor w' = iw_reactor w"
  by (cases req) (auto simp: start_req_defs new_box_def cstring_new_def split: if_splits)

text \<open>An idle reactor: no operation is under way.\<close>

lemma idle_ring:
  assumes ok: "io_ok m r" and idle: "io_completions r = []"
  shows "under_way r = []" "io_completed r = io_counter r" "unat (io_counter r) = m"
proof -
  show "under_way r = []" using ok idle by (simp add: io_ok_def)
  have "unat (io_completed r) = unat (io_counter r)" using ok idle by (simp add: io_ok_def)
  then show "io_completed r = io_counter r" by (rule word_unat_eq_iff[THEN iffD2])
  show "unat (io_counter r) = m" using ok by (simp add: io_ok_def)
qed

lemma idle_stopped:
  assumes "io_ok m r" "io_completions r = []" "0 < ip_submit_depth (io_params r)" "m_world x = (w, k)" "iw_reactor w = r"
  shows "status_uring clock var x = Stopped"
proof -
  have "io_sq r = []" "io_completed r = io_counter r" using idle_ring[OF assms(1,2)] by simp_all
  moreover have "unat (ip_submit_depth (io_params r)) \<noteq> 0" using assms(3) by (simp add: unat_gt_0 word_gt_0)
  ultimately show ?thesis using assms(4,5) by (simp add: status_uring_def io_status_def Let_def)
qed

text \<open>The first poll of a call on an idle reactor with room in its submission queue.\<close>

lemma first_call_poll:
  assumes ok: "io_ok m (iw_reactor w)" "Suc m < 2 ^ 64" and idle: "io_completions (iw_reactor w) = []" and room: "0 < io_sq_entries (iw_reactor w)"
    and start: "start_req req w = Inr (sqe, box, w0)"
  shows "\<exists>f' w' u c. fut_poll (PluvioWaker QNormal target) (file_call req) w = Inr (Pending, f', w') \<and> fu_req f' = req \<and>
    fu_state f' = FutWait c \<and> one_call target u c (iw_reactor w') \<and> io_cq (iw_reactor w') = [] \<and>
    io_params (iw_reactor w') = io_params (iw_reactor w) \<and> io_last_submit (iw_reactor w') = io_last_submit (iw_reactor w) \<and>
    polling_mode (iw_reactor w') = polling_mode (iw_reactor w)"
proof -
  note i = idle_ring[OF ok(1) idle]
  have "unat (io_counter (iw_reactor w) + 1) = Suc (unat (io_counter (iw_reactor w)))" using i(3) ok(2) by (intro unat_u64_Suc) simp
  then have "io_counter (iw_reactor w) < io_counter (iw_reactor w) + 1" by (simp add: u64_less_iff)
  then show ?thesis using i start_req_reactor[OF start] start room idle
    by (auto simp: fut_poll_def file_call_def push_sqe_def fut_await_def wait_poll_def handle_state_new_def one_call_def polling_mode_def
        run_bind_def Let_def)
qed

text \<open>
  C7 (liveness). A file operation on the executor works from the first poll to the result, in every mode of the reactor: on a
  runtime with the reactor registered and idle, with room in the submission queue, under a kernel that accepts submissions and
  serves the ring in every \<open>d\<close> polls, and when the completion timeout passes within \<open>D\<close> ticks, \<open>block_on\<close> of the call
  returns the value or the error number that a completion of the kernel reports, and the reactor and the pool are empty again,
  provided the limit of iterations without progress exceeds the time that the timeout, a cached status and the polling interval
  can hide the completion.
\<close>

theorem block_on_file_call_returns:
  fixes S :: "('p, file_fut task option) slab_ops" and w :: "(waker, 'x) io_world"
  assumes S: "slab_ok S" and order: "\<And>ks. mset (order ks) = mset ks" and E: "E = uring_env S clock K now var order"
    and ring: "io_ok m (iw_reactor w)" "Suc m < 2 ^ 64" "io_completions (iw_reactor w) = []" "0 < io_sq_entries (iw_reactor w)"
      "0 < ip_submit_depth (io_params (iw_reactor w))" "io_last_submit (iw_reactor w) \<le> clock 0"
    and clock: "clock_fair (ip_wait_complete_timeout (io_params (iw_reactor w))) D clock"
    and kernel: "kernel_fair (polling_mode (iw_reactor w)) d K"
    and start: "start_req req w = Inr (sqe, box, w0)"
    and cfg: "reactor_poll_interval cfg \<noteq> 0" "task_batch_size cfg \<noteq> 0"
    and L: "L = D + max 1 (unat (status_cache_iterations cfg)) + unat (reactor_poll_interval cfg)"
    and limit: "L \<le> unat (env_u64 E ''PLUVIO_MAX_STUCK_ITERATIONS'' 1000000)" "L + Suc d * L < 2 ^ 64"
  shows "\<exists>v m'. block_on_with_name_and_runtime E nm' (file_call req) (sole_machine E qs cfg (w, 0) nm) = Some (Inr (v, m')) \<and>
    (\<exists>res. completes K res \<and> call_value req res v) \<and> io_completions (iw_reactor (fst (m_world m'))) = [] \<and> sl_get S (m_pool m') = Map.empty"
proof -
  let ?r = "iw_reactor w" and ?c = "unat (status_cache_iterations cfg)" and ?i = "unat (reactor_poll_interval cfg)"
  have o: "e_hash_order E [nm] = [nm]" using order[of "[nm]"] by (simp add: E)
  have SE: "slab_ok (e_slab E)" using S by (simp add: E)
  have stopped: "e_reactor_status E 0 x = Stopped" if "m_world x = (w, 0)" for x
    using idle_stopped[OF ring(1,3,5) that refl] by (simp add: E)
  have start: "\<exists>f' r w' T. (\<forall>y. clock_reads y = 1 \<longrightarrow> m_world y = (w, 0) \<longrightarrow>
        e_user_poll E (PluvioWaker QNormal target) (file_call req) y = Inr (Pending, f', y\<lparr>clock_reads := r, m_world := w'\<rparr>)) \<and>
        call_waits clock K D req target (Suc d) T f' (Suc r) w' \<and> T \<le> Suc r + D" for target
  proof -
    from first_call_poll[OF ring(1-4) start] obtain f' w' u c where
      f: "fut_poll (PluvioWaker QNormal target) (file_call req) w = Inr (Pending, f', w')" "fu_req f' = req" "fu_state f' = FutWait c"
        "one_call target u c (iw_reactor w')" "io_cq (iw_reactor w') = []" "io_params (iw_reactor w') = io_params ?r"
        "io_last_submit (iw_reactor w') = io_last_submit ?r" "polling_mode (iw_reactor w') = polling_mode ?r" by blast
    obtain j where j: "j < d" "serves (polling_mode ?r) (kernel_steps K (1 + j))" using kernel unfolding kernel_fair_def by blast
    have "io_last_submit ?r + ip_wait_complete_timeout (io_params ?r) \<le> clock (2 + D)"
    proof -
      have "clock 0 \<le> clock 2" "clock 2 + ip_wait_complete_timeout (io_params ?r) \<le> clock (2 + D)"
        using clock monoD[of clock 0 2] unfolding clock_fair_def by blast+
      then show ?thesis using ring(6) by linarith
    qed
    moreover have "\<exists>j < Suc d. serves (polling_mode ?r) (kernel_steps K (0 + j)) \<and> (io_sq (iw_reactor w') \<noteq> [] \<and> \<not> polling_mode ?r \<longrightarrow> 0 < j)"
      using j by (intro exI[of _ "Suc j"]) simp
    ultimately have "call_waits clock K D req target (Suc d) (2 + D) f' (Suc 1) (w', 0)"
      unfolding call_waits_def Let_def prod.case f(6-8) using f(2-5) kernel clock by (intro exI[of _ u] exI[of _ c] exI[of _ d]) simp
    moreover have "e_user_poll E (PluvioWaker QNormal target) (file_call req) y = Inr (Pending, f', y\<lparr>clock_reads := 1, m_world := (w', 0)\<rparr>)"
      if "clock_reads y = 1" "m_world y = (w, 0)" for y
      using that f(1) by (simp add: E file_fut_poll_def)
    ultimately show ?thesis by (intro exI[of _ f'] exI[of _ 1] exI[of _ "(w', 0)"] exI[of _ "2 + D"]) simp
  qed
  have "(if D = 0 then ?i else D + max 1 ?c + ?i) \<le> L" using L by simp
  then have "Suc d * (if D = 0 then ?i else D + max 1 ?c + ?i) \<le> Suc d * L" by (rule mult_le_mono2)
  then have lim: "L + Suc d * (if D = 0 then ?i else D + max 1 ?c + ?i) < 2 ^ 64" using limit(2) by linarith
  have "\<exists>v m'. block_on_with_name_and_runtime E nm' (file_call req) (sole_machine E qs cfg (w, 0) nm) = Some (Inr (v, m')) \<and>
      sl_get (e_slab E) (m_pool m') = Map.empty \<and> call_done K req v (clock_reads m') (m_world m')"
    by (rule calling.block_on_returns[where S = S and clock = clock and K = K and now = now and var = var and order = order and ?w0.0 = "(w, 0)",
          folded E, OF SE o cfg refl L refl limit(1) lim stopped disjI1[OF start]])
  then show ?thesis by (auto simp: call_done_def E)
qed

text \<open>A read of eight bytes with the default configuration, a timeout of 100 ticks, and a kernel that completes at once.\<close>

definition demo_io_world :: "(waker, unit) io_world" where
  "demo_io_world = \<lparr>iw_reactor =
     \<lparr>io_sq = [], io_sq_entries = 4, io_inflight = [], io_cq = [], io_need_wakeup = False, io_completions = [],
      io_handles = \<lambda>_. handle_state_new, io_next_cell = 0, io_counter = 0, io_completed = 0, io_last_submit = 0,
      io_params = \<lparr>ip_submit_depth = 64, ip_wait_submit_timeout = 50, ip_wait_complete_timeout = 100, ip_sq_poll = None\<rparr>,
      io_submit_thread = None, io_wakes = []\<rparr>,
     iw_alloc = \<lparr>al_buffers = [], al_capacity = 0, al_queue = [], al_waker = \<lambda>_. None, al_wakes = []\<rparr>,
     iw_boxes = [0 \<mapsto> VecBox (replicate 8 0)], iw_next_box = 1\<rparr>"

theorem block_on_file_call_returns_witness:
  "\<exists>m'. block_on_with_name_and_runtime
     (uring_env list_slab id \<lparr>kernel_steps = \<lambda>_. [KComplete 0 8], kernel_accepts = \<lambda>_. True\<rparr> id (\<lambda>_. None) id) ''main'' (file_call (ReqRead 3 0 8 0))
     (sole_machine (uring_env list_slab id \<lparr>kernel_steps = \<lambda>_. [KComplete 0 8], kernel_accepts = \<lambda>_. True\<rparr> id (\<lambda>_. None) id)
        4 scheduling_config_default (demo_io_world, 0) ''uring'') = Some (Inr (Inr (OutInt 8), m'))"
proof -
  let ?K = "\<lparr>kernel_steps = \<lambda>_. [KComplete 0 8], kernel_accepts = \<lambda>_. True\<rparr>" and ?c = scheduling_config_default
  let ?E = "uring_env list_slab id ?K id (\<lambda>_. None) id :: (_, _, _, (waker, unit) io_world \<times> nat) env" and ?r = "iw_reactor demo_io_world"
  have l: "env_u64 ?E ''PLUVIO_MAX_STUCK_ITERATIONS'' 1000000 = 1000000" by (simp add: env_u64_def uring_env_def)
  have c: "reactor_poll_interval ?c = 8" "task_batch_size ?c = 16" "status_cache_iterations ?c = 100"
    by (simp_all add: scheduling_config_default_def)
  have ring: "io_ok 0 ?r" "io_completions ?r = []" "0 < io_sq_entries ?r" "0 < ip_submit_depth (io_params ?r)" "io_last_submit ?r \<le> id 0"
    by (simp_all add: demo_io_world_def io_ok_def)
  have pm: "\<not> polling_mode ?r" by (simp add: polling_mode_def demo_io_world_def)
  have "serves False [KComplete 0 8]" by (auto simp: serves_def intro!: exI[of _ "[]"])
  then have K: "kernel_fair (polling_mode ?r) 1 ?K" using pm by (simp add: kernel_fair_def)
  have clock: "clock_fair (ip_wait_complete_timeout (io_params ?r)) 100 id" by (simp add: clock_fair_def demo_io_world_def mono_def)
  have start: "start_req (ReqRead 3 0 8 0) demo_io_world = Inr (SqeRead 3 0 8 0, Some 0, demo_io_world)" by (simp add: start_req_defs)
  have v: "completes ?K res \<Longrightarrow> call_value (ReqRead 3 0 8 0) res v \<Longrightarrow> v = Inr (OutInt 8)" for res v
    by (simp add: completes_def call_value_def)
  show ?thesis
    using block_on_file_call_returns[where var = "\<lambda>_. None" and order = id and now = id and cfg = ?c and nm = "''uring''" and nm' = "''main''" and qs = 4,
      OF slab_ok_list _ refl ring(1) _ ring(2-5) clock K start _ _ refl] l c v by auto
qed

end
