(* ===== verification/Block_On.thy ===== *)
theory Block_On
  imports Task_Types
begin

section \<open>\<open>block_on\<close> (\<open>pluvio_runtime/src/executor/mod.rs\<close>)\<close>

text \<open>
  \<open>block_on\<close> runs the event loop until the slot of its task is vacant and then takes the result out of its holder.
  It never returns without the result and its only panic is the deadlock report. But it watches the key, not the
  task: when the key is given to a new task in the iteration in which its own task completes, it waits on.
\<close>

subsection \<open>The result is there when the slot is empty\<close>

text \<open>The result of the holder \<open>h\<close> has been stored, or the slot of the target holds the task that will store it.\<close>

definition owes :: "('f, 'v, 'p, 'w) env \<Rightarrow> nat \<Rightarrow> nat \<Rightarrow> ('v, 'p, 'w) machine \<Rightarrow> bool" where
  "owes E target h m \<longleftrightarrow> h < length (result_holders m) \<and> (result_holders m ! h \<noteq> None \<or>
     (\<exists>t a f. sl_get (e_slab E) (m_pool m) target = Some (Some t) \<and> t_future t = BlockOn a h f))"

lemma api_step_holders: "api_step E m m' \<Longrightarrow> result_holders m' = result_holders m"
  by (induction rule: api_step.induct)
    (auto simp: spawn_on_def create_task_and_handle_def wake_def join_poll_def request_shutdown_def instant_now_def
      run_bind_eq_Inr Let_def split: prod.splits queue_id.splits if_splits option.splits)

lemma api_steps_holders: "(api_step E)\<^sup>*\<^sup>* m m' \<Longrightarrow> result_holders m' = result_holders m"
  by (induction rule: rtranclp_induct) (simp_all add: api_step_holders)

context typed_futures
begin

lemma owes_api:
  assumes "(api_step E)\<^sup>*\<^sup>* m m'" "queues_wf m" "owes E target h m"
  shows "owes E target h m'"
proof -
  have "sl_get (e_slab E) (m_pool m') k = Some t" if "sl_get (e_slab E) (m_pool m) k = Some t" for k t
    using api_steps_inv[OF assms(1) slab assms(2)] that by (simp add: api_frame_def)
  then show ?thesis using assms(3) api_steps_holders[OF assms(1)] unfolding owes_def by auto
qed

lemma complete_holders: "complete a d m = Inr m' \<Longrightarrow> result_holders m' = result_holders m"
  by (auto simp: complete_def wake_def run_bind_eq_Inr Let_def split: if_splits option.splits queue_id.splits)

text \<open>What a poll does to the holders: a stored result stays, and a task that is ready has stored its own.\<close>

lemma task_future_poll_holders:
  assumes run: "task_future_poll (e_user_poll E w) f m = Inr (ret, f', m')" and wf: "queues_wf m" and h: "h < length (result_holders m)"
  shows "(result_holders m ! h \<noteq> None \<longrightarrow> result_holders m' ! h \<noteq> None) \<and> length (result_holders m') = length (result_holders m) \<and>
    (\<forall>a g. f = BlockOn a h g \<longrightarrow> (case ret of Ready _ \<Rightarrow> result_holders m' ! h \<noteq> None | Pending \<Rightarrow> (\<exists>g'. f' = BlockOn a h g')))"
proof (cases f)
  case (Spawned a g)
  from run Spawned obtain r g' m1 where m1: "maybe_tracked_poll (e_user_poll E w) g m = Inr (r, g', m1)"
    by (auto simp: run_bind_eq_Inr)
  have "result_holders m1 = result_holders m" by (rule api_steps_holders[OF maybe_tracked_steps[OF m1 wf]])
  with run Spawned m1 show ?thesis by (cases r) (auto simp: run_bind_eq_Inr dest: complete_holders)
next
  case (BlockOn a h' g)
  from run BlockOn obtain r g' m1 where m1: "e_user_poll E w g m = Inr (r, g', m1)" by (auto simp: run_bind_eq_Inr)
  have "result_holders m1 = result_holders m" by (rule api_steps_holders[OF user_steps[OF m1 wf]])
  with run BlockOn m1 h show ?thesis by (cases r; cases "h' = h") (auto simp: run_bind_eq_Inr dest!: complete_holders)
next
  case Completed
  with run show ?thesis by simp
qed

lemma task_poll_holders:
  assumes run: "task_poll clock (e_user_poll E) t i m = Inr (ret, t', m')" and wf: "queues_wf m" and h: "h < length (result_holders m)"
  shows "(result_holders m ! h \<noteq> None \<longrightarrow> result_holders m' ! h \<noteq> None) \<and> length (result_holders m') = length (result_holders m) \<and>
    (\<forall>a g. t_future t = BlockOn a h g \<longrightarrow> (case ret of Ready _ \<Rightarrow> result_holders m' ! h \<noteq> None | Pending \<Rightarrow> (\<exists>g'. t_future t' = BlockOn a h g')))"
proof -
  let ?m = "m\<lparr>clock_reads := Suc (clock_reads m)\<rparr>"
  from run obtain f' m1 n where p: "task_future_poll (e_user_poll E (PluvioWaker (t_sender t) i)) (t_future t) ?m = Inr (ret, f', m1)"
    "t_future t' = f'" "m' = m1\<lparr>clock_reads := n\<rparr>"
    by (auto simp: task_poll_def instant_now_def run_bind_eq_Inr Let_def)
  have "queues_wf ?m" "h < length (result_holders ?m)" using wf h by (auto simp: queues_wf_get)
  from task_future_poll_holders[OF p(1) this] p(2,3) show ?thesis by (cases ret) auto
qed

lemma poll_task_owes:
  assumes run: "poll_task E i m = Inr (ret, m')" and inv: "rt_inv E m" and o: "owes E target h m"
  shows "owes E target h m' \<and> (i = target \<and> ret = Some (Ready ()) \<longrightarrow> result_holders m' ! h \<noteq> None)"
proof (cases "sl_get (e_slab E) (m_pool m) i \<in> {None, Some None}")
  case True
  with run o poll_task_absent[OF True] show ?thesis by auto
next
  case False
  then obtain t where t: "sl_get (e_slab E) (m_pool m) i = Some (Some t)" by auto
  let ?m = "m\<lparr>m_pool := sl_put (e_slab E) (m_pool m) i None\<rparr>"
  from run t obtain r t' m1 where p: "task_poll (e_clock E) (e_user_poll E) t i ?m = Inr (r, t', m1)" "ret = Some r"
    "m' = (if sl_get (e_slab E) (m_pool m1) i \<noteq> None then m1\<lparr>m_pool := sl_put (e_slab E) (m_pool m1) i (Some t')\<rparr> else m1)"
    by (auto simp: poll_task_def run_bind_eq_Inr Let_def)
  have wf: "queues_wf ?m" and h: "h < length (result_holders ?m)" using inv o by (simp_all add: rt_inv_def queues_wf_get owes_def)
  note hs = task_poll_holders[OF p(1) wf h]
  from poll_task_ok[OF env inv t] run have pt: "\<forall>k. k \<noteq> i \<longrightarrow> sl_get (e_slab E) (m_pool m) k \<noteq> None \<longrightarrow>
      sl_get (e_slab E) (m_pool m') k = sl_get (e_slab E) (m_pool m) k" "\<exists>t'. sl_get (e_slab E) (m_pool m') i = Some (Some t')"
    by auto
  then have "sl_get (e_slab E) (m_pool m1) i \<noteq> None" using p(3) by (auto split: if_splits)
  then have get: "sl_get (e_slab E) (m_pool m') i = Some (Some t')" and hm: "result_holders m' = result_holders m1"
    using slab_okD(1)[OF slab, of "m_pool m1" i "Some t'"] by (simp_all add: p(3))
  show ?thesis
  proof (cases "result_holders m ! h = None \<and> i = target")
    case True
    then obtain a f where "t_future t = BlockOn a h f" using o t by (auto simp: owes_def)
    with hs hm h get True p(2) show ?thesis by (cases r) (auto simp: owes_def)
  next
    case False
    with o hs hm h pt show ?thesis by (auto simp: owes_def)
  qed
qed

lemma finish_task_owes:
  assumes run: "finish_task E i m = Inr m'" and o: "owes E target h m" and i: "i = target \<longrightarrow> result_holders m ! h \<noteq> None"
  shows "owes E target h m'"
proof -
  have some: "sl_get (e_slab E) (m_pool m) i \<noteq> None"
    using run by (cases "sl_get (e_slab E) (m_pool m) i") (auto simp: finish_task_def add_task_stat_def)
  have "result_holders m' = result_holders m" "m_pool m' = sl_remove (e_slab E) (m_pool m) i"
    using run by (cases "add_task_stat (retain_stats E) (m_stat m) (sl_get (e_slab E) (m_pool m) i)";
      auto simp: finish_task_def Let_def split: option.split_asm)+
  then show ?thesis using o i slab_okD(4)[OF slab some] by (auto simp: owes_def)
qed

lemma process_tasks_owes:
  "process_tasks E ids m = Inr (b, m') \<Longrightarrow> rt_inv E m \<Longrightarrow> owes E target h m \<Longrightarrow> owes E target h m'"
proof (induction ids arbitrary: m b)
  case (Cons i ids)
  from Cons.prems(1) obtain ret m1 where p: "poll_task E i m = Inr (ret, m1)" by (auto simp: run_bind_eq_Inr)
  note o1 = poll_task_owes[OF p Cons.prems(2,3)]
  show ?case
  proof (cases "ret = Some (Ready ())")
    case True
    with Cons.prems(1) p obtain m2 b' where m2: "finish_task E i m1 = Inr m2" "process_tasks E ids m2 = Inr (b', m')"
      by (auto simp: run_bind_eq_Inr)
    have "process_tasks E [i] m = Inr (True, m2)" using p True m2(1) by simp
    then have "rt_inv E m2" using process_tasks_ok[OF env Cons.prems(2), of "[i]"] by (metis Inr_inject Pair_inject)
    moreover have "owes E target h m2" using o1 True by (intro finish_task_owes[OF m2(1)]) simp_all
    ultimately show ?thesis by (rule Cons.IH[OF m2(2)])
  next
    case False
    with Cons.prems(1) p have r: "process_tasks E ids m1 = Inr (b, m')" by simp
    have "process_tasks E [i] m = Inr (False, m1)" using p False by simp
    then have "rt_inv E m1" using process_tasks_ok[OF env Cons.prems(2), of "[i]"] by (metis Inr_inject Pair_inject)
    then show ?thesis using Cons.IH[OF r] o1 by blast
  qed
qed simp

lemma owes_update [simp]:
  "owes E target h (m\<lparr>m_iteration := x1\<rparr>) = owes E target h m" "owes E target h (m\<lparr>m_polling_buf := x2\<rparr>) = owes E target h m"
  "owes E target h (m\<lparr>m_task_buf := x3\<rparr>) = owes E target h m" "owes E target h (m\<lparr>task_queue := x4\<rparr>) = owes E target h m"
  "owes E target h (m\<lparr>polling_queue := x5\<rparr>) = owes E target h m" "owes E target h (m\<lparr>m_os := x6\<rparr>) = owes E target h m"
  "owes E target h (upd_reactor i w m) = owes E target h m"
  by (simp_all add: owes_def upd_reactor_def)

lemma poll_reactors_owes:
  "poll_reactors E it ids m = Inr (b, m') \<Longrightarrow> rt_inv E m \<Longrightarrow> owes E target h m \<Longrightarrow> owes E target h m'"
proof (induction ids arbitrary: m b)
  case (Cons i ids)
  show ?case
  proof (cases "\<exists>w. map_of (m_reactors m) i = Some w \<and> rw_enable w")
    case False
    with Cons show ?thesis by (auto split: option.splits)
  next
    case True
    then obtain w where w: "map_of (m_reactors m) i = Some w" "rw_enable w" by blast
    obtain status w' where st: "get_cached_reactor_status E m w it = (status, w')" by fastforce
    let ?m = "upd_reactor i w' m"
    show ?thesis
    proof (cases "status = Running")
      case True
      with Cons.prems(1) w st obtain m1 b' where m1: "e_reactor_poll E (rw_reactor w') ?m = Inr m1"
        "poll_reactors E it ids (upd_reactor i (w'\<lparr>rw_poll_counter := rw_poll_counter w' + 1\<rparr>) m1) = Inr (b', m')"
        by (auto simp: run_bind_eq_Inr Let_def)
      have inv: "rt_inv E ?m" using Cons.prems(2) by simp
      then have wf: "queues_wf ?m" by (simp add: rt_inv_def)
      then have "(api_step E)\<^sup>*\<^sup>* ?m m1" using env m1(1) unfolding env_ok_def by (metis Inr_inject)
      then have "owes E target h m1" using owes_api[OF _ wf] Cons.prems(3) by simp
      moreover from reactor_poll_ok[OF env inv, of "rw_reactor w'"] m1(1) have "rt_inv E m1" by (metis Inr_inject)
      ultimately show ?thesis using Cons.IH[OF m1(2)] by simp
    next
      case False
      with Cons.prems(1) w st have "poll_reactors E it ids ?m = Inr (b, m')" by simp
      from Cons.IH[OF this] Cons.prems show ?thesis by simp
    qed
  qed
qed simp

subsection \<open>The loop\<close>

lemma block_iteration_ok:
  assumes inv: "rt_inv E m"
  shows "\<exists>b m'. block_iteration E m = Some (Inr (b, m')) \<and> rt_inv E m' \<and> (owes E target h m \<longrightarrow> owes E target h m')"
proof -
  let ?m0 = "m\<lparr>m_iteration := m_iteration m + 1\<rparr>"
  have wf: "queues_wf ?m0" using inv by (simp add: rt_inv_def queues_wf_get)
  from drain_polling_ok[OF wf] obtain q where q: "drain_polling ?m0 =
      Some (Inr (?m0\<lparr>m_polling_buf := contents (polling_queue ?m0), polling_queue := q\<rparr>))" "queue_wf q" by blast
  let ?m1 = "?m0\<lparr>m_polling_buf := contents (polling_queue ?m0), polling_queue := q\<rparr>"
  have i1: "rt_inv E ?m1" using inv q(2) by (intro rt_inv_queues) simp_all
  from interval_due_ok[OF i1, of "m_iteration m"] obtain sp where sp: "interval_due ?m1 (m_iteration m) = Inr sp" by blast
  obtain p1 m3 where m3: "(if sp then poll_reactors E (m_iteration m) (reactor_ids E ?m1) ?m1 else Inr (False, ?m1)) = Inr (p1, m3)"
    "rt_inv E m3"
    using poll_reactors_ok[OF env i1, of "m_iteration m" "reactor_ids E ?m1"] i1 by (cases sp) auto
  from process_tasks_ok[OF env m3(2), of "m_polling_buf m3"] obtain p2 m4 where
    m4: "process_tasks E (m_polling_buf m3) m3 = Inr (p2, m4)" "rt_inv E m4" by blast
  have wf4: "queues_wf m4" using m4(2) by (simp add: rt_inv_def)
  from fill_batch_ok[OF wf4] obtain q5 m5 where q5: "fill_batch m4 = Inr m5" "queue_wf q5"
    "m5 = m4\<lparr>m_task_buf := take (task_batch_size (m_config m4)) (contents (task_queue m4)), task_queue := q5\<rparr>" by blast
  have i5: "rt_inv E m5" unfolding q5(3) using m4(2) q5(2) by (intro rt_inv_queues) simp_all
  from process_tasks_ok[OF env i5, of "m_task_buf m5"] obtain c m6 where
    m6: "process_tasks E (m_task_buf m5) m5 = Inr (c, m6)" "rt_inv E m6" by blast
  have "owes E target h m6" if "owes E target h m"
  proof -
    have "owes E target h ?m1" using that by simp
    then have "owes E target h m3" using m3(1) poll_reactors_owes[OF _ i1] by (cases sp) auto
    then have "owes E target h m4" by (rule process_tasks_owes[OF m4(1) m3(2)])
    then have "owes E target h m5" by (simp add: q5(3))
    then show ?thesis by (rule process_tasks_owes[OF m6(1) i5])
  qed
  moreover have "block_iteration E m = Some (Inr (p1 \<or> p2 \<or> c, m6))"
    using q(1) sp m3(1) m4(1) q5(1) m6(1) by (cases sp) (simp_all add: block_iteration_def Let_def)
  ultimately show ?thesis using m6(2) by blast
qed

lemma block_loop_exit:
  assumes ret: "block_loop E mx target stuck m = Some r" and k: "kept \<Gamma> H m" and o: "owes E target h m"
  shows "r = Inl (Panic ''block_on deadlock detected'') \<or>
    (\<exists>m'. r = Inr m' \<and> kept \<Gamma> H m' \<and> h < length (result_holders m') \<and> result_holders m' ! h \<noteq> None)"
proof -
  let ?Q = "\<lambda>r. r = Inl (Panic ''block_on deadlock detected'') \<or>
    (\<exists>m'. r = Inr m' \<and> kept \<Gamma> H m' \<and> h < length (result_holders m') \<and> result_holders m' ! h \<noteq> None)"
  have "E = E \<longrightarrow> target = target \<longrightarrow> kept \<Gamma> H m \<longrightarrow> owes E target h m \<longrightarrow> ?Q r"
  proof (rule block_loop.raw_induct[where P = "\<lambda>E' mx target' stuck m r.
      E' = E \<longrightarrow> target' = target \<longrightarrow> kept \<Gamma> H m \<longrightarrow> owes E target h m \<longrightarrow> ?Q r", OF _ ret], intro impI)
    fix f :: "('f, 'v, 'p, 'w) env \<Rightarrow> u64 \<Rightarrow> nat \<Rightarrow> u64 \<Rightarrow> ('v, 'p, 'w) machine \<Rightarrow> ('v, 'p, 'w) machine run option"
      and E' mx target' stuck m r
    assume IH: "\<And>E' mx target' stuck m r. f E' mx target' stuck m = Some r \<Longrightarrow>
        E' = E \<longrightarrow> target' = target \<longrightarrow> kept \<Gamma> H m \<longrightarrow> owes E target h m \<longrightarrow> ?Q r"
      and eq: "(if sl_get (e_slab E') (m_pool m) target' = None then Some (Inr m)
      else case block_iteration E' m of None \<Rightarrow> None | Some (Inl e) \<Rightarrow> Some (Inl e)
           | Some (Inr (made_progress, m')) \<Rightarrow>
               (if \<not> made_progress then
                  if mx < stuck + 1 then Some (Inl (Panic ''block_on deadlock detected''))
                  else f E' mx target' (stuck + 1) (m'\<lparr>m_os := m_os m' @ [YieldNow]\<rparr>)
                else f E' mx target' 0 m')) = Some r"
      and E': "E' = E" "target' = target" and k: "kept \<Gamma> H m" and o: "owes E target h m"
    have inv: "rt_inv E m" using k by (simp add: kept_def)
    from block_iteration_ok[OF inv, of target h] o obtain b m1 where
      it: "block_iteration E m = Some (Inr (b, m1))" "owes E target h m1" by blast
    have k1: "kept \<Gamma> H m1" by (rule kept_block_iteration[OF it(1) k])
    show "?Q r"
    proof (cases "sl_get (e_slab E) (m_pool m) target = None")
      case True
      with eq E' have "r = Inr m" by simp
      with True k o show ?thesis by (auto simp: owes_def)
    next
      case False
      then obtain t where "sl_get (e_slab E) (m_pool m) target = Some t" by auto
      with it(1) have "(if \<not> b then
                  if mx < stuck + 1 then Some (Inl (Panic ''block_on deadlock detected''))
                  else f E mx target (stuck + 1) (m1\<lparr>m_os := m_os m1 @ [YieldNow]\<rparr>)
                else f E mx target 0 m1) = Some r" using eq[unfolded E'] by simp
      note next_step = this
      show ?thesis
      proof (cases b)
        case True
        with next_step have "f E mx target 0 m1 = Some r" by simp
        from IH[OF this] k1 it(2) show ?thesis by simp
      next
        case False
        show ?thesis
        proof (cases "mx < stuck + 1")
          case True
          with next_step False show ?thesis by simp
        next
          case no_limit: False
          with next_step False have "f E mx target (stuck + 1) (m1\<lparr>m_os := m_os m1 @ [YieldNow]\<rparr>) = Some r" by simp
          from IH[OF this] k1 it(2) show ?thesis by simp
        qed
      qed
    qed
  qed
  with k o show ?thesis by simp
qed

text \<open>What \<open>block_on\<close> does before its loop: the state with the new holder, cell and task.\<close>

lemma block_on_spawn:
  assumes inv: "rt_inv E m" and wt: "well_typed vt ft E \<Gamma> H m"
  defines "h \<equiv> length (result_holders m)" and "m1 \<equiv> m\<lparr>result_holders := result_holders m @ [None]\<rparr>"
  shows "\<exists>i a m'. spawn_on E QNormal (\<lambda>a. BlockOn a h f) (Some nm) m1 = Inr (i, a, m') \<and>
    kept (\<Gamma> @ [TyUnit]) (H @ [ft f]) m' \<and> owes E i h m'"
proof -
  let ?mk = "\<lambda>a. BlockOn a h f"
  have wf: "queues_wf m1" using inv by (simp add: m1_def rt_inv_def queues_wf_get)
  have hs: "length H = h" using wt by (simp add: well_typed_def holders_typed_def h_def)
  have "task_typed ft \<Gamma> (H @ [ft f]) g" if "task_typed ft \<Gamma> H g" for g
    using that by (cases g) (auto simp: nth_append)
  then have wt1: "well_typed vt ft E \<Gamma> (H @ [ft f]) m1"
    using wt hs by (auto simp: well_typed_def m1_def holders_typed_def nth_append h_def less_Suc_eq)
  from spawn_on_spec[OF slab wf, of QNormal ?mk "Some nm"] obtain i m' c where
    run: "spawn_on E QNormal ?mk (Some nm) m1 = Inr (i, length (shared_heap m1), m')" "queues_wf m'"
    "sl_get (e_slab E) (m_pool m1) i = None"
    "sl_get (e_slab E) (m_pool m') = (sl_get (e_slab E) (m_pool m1))(i \<mapsto> Some (task_new (?mk (length (shared_heap m1))) QNormal (Some nm)))"
    "shared_heap m' = shared_heap m1 @ [shared_state_new]"
    and e: "m' = upd_queue QNormal (\<lambda>_. c) (m1\<lparr>shared_heap := shared_heap m', m_pool := m_pool m'\<rparr>)" by blast
  have fr: "result_holders m' = result_holders m1" "m_config m' = m_config m1" by (subst e, simp)+
  have "task_typed ft (\<Gamma> @ [TyUnit]) (H @ [ft f]) (?mk (length \<Gamma>))" using hs by (simp add: nth_append)
  from spawn_typed[OF wf wt1 run(1) this] have wt': "well_typed vt ft E (\<Gamma> @ [TyUnit]) (H @ [ft f]) m'" by simp
  have "rt_inv E m'"
    unfolding rt_inv_def
  proof (intro conjI allI impI)
    fix k t assume k: "sl_get (e_slab E) (m_pool m') k = Some (Some t)"
    show "task_wf m' t"
    proof (cases "k = i")
      case True
      with k run(4,5) fr show ?thesis by (auto simp: task_wf_def task_new_def m1_def h_def)
    next
      case False
      with k run(4) inv have "task_wf m t" by (auto simp: rt_inv_def m1_def)
      then show ?thesis by (rule task_wf_mono) (simp_all add: run(5) fr m1_def)
    qed
  qed (use inv run(2) fr in \<open>simp_all add: rt_inv_def m1_def\<close>)
  moreover have "owes E i h m'" using run(4) fr(1) by (simp add: owes_def m1_def h_def task_new_def)
  ultimately show ?thesis using run(1) wt' by (auto simp: kept_def well_typed_from)
qed

lemma block_on_result:
  assumes inv: "rt_inv E m" and wt: "well_typed vt ft E \<Gamma> H m" and run: "block_on_with_name_and_runtime E nm f m = Some r"
  shows "r = Inl (Panic ''block_on deadlock detected'') \<or> (\<exists>v m'. r = Inr (v, m') \<and> vt v = ft f \<and> rt_inv E m')"
proof -
  let ?h = "length (result_holders m)"
  from block_on_spawn[OF inv wt, of f nm] obtain i a m1 where
    m1: "spawn_on E QNormal (\<lambda>a. BlockOn a ?h f) (Some nm) (m\<lparr>result_holders := result_holders m @ [None]\<rparr>) = Inr (i, a, m1)"
    "kept (\<Gamma> @ [TyUnit]) (H @ [ft f]) m1" "owes E i ?h m1" by blast
  let ?loop = "block_loop E (env_u64 E ''PLUVIO_MAX_STUCK_ITERATIONS'' 1000000) i 0 m1"
  from run m1(1) obtain q where q: "?loop = Some q" by (auto simp: block_on_with_name_and_runtime_def Let_def split: option.splits)
  from block_loop_exit[OF q m1(2,3)] show ?thesis
  proof
    assume "q = Inl (Panic ''block_on deadlock detected'')"
    with run m1(1) q show ?thesis by (simp add: block_on_with_name_and_runtime_def Let_def)
  next
    assume "\<exists>m'. q = Inr m' \<and> kept (\<Gamma> @ [TyUnit]) (H @ [ft f]) m' \<and> ?h < length (result_holders m') \<and> result_holders m' ! ?h \<noteq> None"
    then obtain m' v where m': "q = Inr m'" "kept (\<Gamma> @ [TyUnit]) (H @ [ft f]) m'" "?h < length (result_holders m')"
      "result_holders m' ! ?h = Some v" by auto
    from m'(2) have "holders_typed vt (H @ [ft f]) (result_holders m')" "rt_inv E m'"
      by (auto simp: kept_def typed_from_def well_typed_def)
    moreover have "length H = ?h" using wt by (simp add: well_typed_def holders_typed_def)
    moreover have "vt v = (H @ [ft f]) ! ?h" using calculation(1) m'(3,4) unfolding holders_typed_def by blast
    ultimately have "vt v = ft f" by (simp add: nth_append)
    moreover have "rt_inv E (m'\<lparr>result_holders := (result_holders m')[?h := None]\<rparr>)"
      using \<open>rt_inv E m'\<close> by (intro rt_inv_same_pool[OF \<open>rt_inv E m'\<close>]) (auto simp: rt_inv_def queues_wf_get)
    ultimately show ?thesis using run m1(1) q m'(1,4) by (auto simp: block_on_with_name_and_runtime_def Let_def)
  qed
qed

end

text \<open>
  C5 (safety). \<open>block_on\<close> never faults but by the deadlock report: each iteration of its loop ends, without a panic or
  undefined behaviour, and when the call returns it returns a value of the output type of its future, with the
  runtime's invariant kept. In particular the task is never gone without its result.
\<close>

theorem block_on_safe:
  fixes E :: "('f, 'v, 'p, 'w) env" and m :: "('v, 'p, 'w) machine" and vt :: "'v \<Rightarrow> 't"
  assumes "env_ok E" "env_typed vt ft E" "rt_inv E m" "well_typed vt ft E \<Gamma> H m"
  shows "(\<exists>b m'. block_iteration E m = Some (Inr (b, m')) \<and> rt_inv E m') \<and>
    (\<forall>r. block_on_with_name_and_runtime E nm f m = Some r \<longrightarrow>
      r = Inl (Panic ''block_on deadlock detected'') \<or> (\<exists>v m'. r = Inr (v, m') \<and> vt v = ft f \<and> rt_inv E m'))"
proof -
  have L: "typed_futures vt ft E" using assms(1,2) by (rule typed_futures.intro)
  show ?thesis
    using typed_futures.block_iteration_ok[OF L assms(3)] typed_futures.block_on_result[OF L assms(3,4)] by blast
qed

theorem block_on_safe_witness:
  "(\<exists>b m'. block_iteration two_types_env (runtime_new two_types_env 4 ()) = Some (Inr (b, m')) \<and> rt_inv two_types_env m') \<and>
   block_on_with_name_and_runtime two_types_env ''main'' (Inl 3) (runtime_new two_types_env 4 ()) \<noteq>
     Some (Inl (Panic ''Task completed but result was not set''))"
proof -
  have "well_typed isl isl two_types_env [] [] (runtime_new two_types_env 4 ())"
    unfolding runtime_new_def by (rule well_typed_fresh[OF env_ok_slab[OF two_types_ok(1)]])
  from block_on_safe[OF two_types_ok rt_inv_runtime_new[OF two_types_ok(1)] this, of "''main''" "Inl 3"] show ?thesis by auto
qed

end
