(* ===== verification/Key_Reuse.thy ===== *)
theory Key_Reuse
  imports Block_On Loop_Steps
begin

section \<open>\<open>block_on\<close> and reused keys\<close>

text \<open>
  \<open>block_on\<close> watches the key of its task, not the task. The slab gives a freed key to the next task, so when another
  task spawns in the batch in which the watched task completes, the loop goes on watching the new task. Here is a
  program that never gets its result.
\<close>

subsection \<open>Steps\<close>

text \<open>A runtime without reactors, between two phases: the ids queued, and nothing in the polling queue.\<close>

definition quiet :: "nat list \<Rightarrow> ('v, 'p, 'w) machine \<Rightarrow> bool" where
  "quiet ids m \<longleftrightarrow> queues_wf m \<and> contents (polling_queue m) = [] \<and> contents (task_queue m) = ids \<and>
     m_reactors m = [] \<and> m_config m = scheduling_config_default"

lemma quiet_update [simp]:
  "quiet ids (m\<lparr>m_pool := x1\<rparr>) = quiet ids m" "quiet ids (m\<lparr>clock_reads := x2\<rparr>) = quiet ids m"
  "quiet ids (m\<lparr>m_os := x3\<rparr>) = quiet ids m" "quiet ids (m\<lparr>m_stat := x4\<rparr>) = quiet ids m"
  "quiet ids (m\<lparr>result_holders := x5\<rparr>) = quiet ids m" "quiet ids (m\<lparr>shared_heap := x6\<rparr>) = quiet ids m"
  by (simp_all add: quiet_def queues_wf_def)

lemma quiet_drop_sender [simp]: "quiet ids (upd_queue q drop_sender m) = quiet ids m"
  by (cases q) (simp_all add: quiet_def queues_wf_def upd_queue_def drop_sender_def)

lemma idle_iteration:
  fixes m :: "('v, 'p, 'w) machine"
  assumes m: "quiet ids m" and ids: "length ids \<le> 16" and order: "e_hash_order E [] = []"
  shows "\<exists>m'. block_iteration E m = Some (process_tasks E ids m') \<and> quiet [] m' \<and> m_pool m' = m_pool m \<and>
    shared_heap m' = shared_heap m \<and> result_holders m' = result_holders m"
proof -
  have wf: "queues_wf m" "contents (polling_queue m) = []" "reactor_poll_interval (m_config m) \<noteq> 0"
    using m by (simp_all add: quiet_def scheduling_config_default_def)
  obtain q where q: "queue_wf q" "contents q = []" and bi: "block_iteration E m = Some (run_bind
       (if due (interval m) (unat (m_iteration m))
        then poll_reactors E (m_iteration m) (e_hash_order E (map fst (m_reactors m)))
               (m\<lparr>m_iteration := m_iteration m + 1, m_polling_buf := [], polling_queue := q\<rparr>)
        else Inr (False, m\<lparr>m_iteration := m_iteration m + 1, m_polling_buf := [], polling_queue := q\<rparr>)) (\<lambda>(p1, m).
       run_bind (process_tasks E (m_polling_buf m) m) (\<lambda>(p2, m).
       run_bind (fill_batch m) (\<lambda>m.
       run_bind (process_tasks E (m_task_buf m) m) (\<lambda>(completed, m). Inr (p1 \<or> p2 \<or> completed, m))))))"
    by (rule block_iteration_split[OF wf, of E])
  let ?m1 = "m\<lparr>m_iteration := m_iteration m + 1, m_polling_buf := [], polling_queue := q\<rparr>"
  have wf1: "queues_wf ?m1" using wf(1) q(1) by (simp add: queues_wf_def)
  have "task_batch_size (m_config m) = 16" using m by (simp add: quiet_def scheduling_config_default_def)
  then obtain q5 where q5: "queue_wf q5" "contents q5 = []" "fill_batch ?m1 = Inr (?m1\<lparr>m_task_buf := ids, task_queue := q5\<rparr>)"
    using fill_batch_ok[OF wf1] m ids by (auto simp: quiet_def)
  let ?m2 = "?m1\<lparr>m_task_buf := ids, task_queue := q5\<rparr>"
  have id: "run_bind r Inr = r" for r :: "(bool \<times> ('v, 'p, 'w) machine) run" by (cases r) simp_all
  have "(if due (interval m) (unat (m_iteration m))
        then poll_reactors E (m_iteration m) (e_hash_order E (map fst (m_reactors m))) ?m1 else Inr (False, ?m1)) = Inr (False, ?m1)"
    using m order by (simp add: quiet_def)
  then have "block_iteration E m = Some (process_tasks E ids ?m2)" using q5(3) by (simp add: bi id)
  moreover have "quiet [] ?m2" using m q q5 by (simp add: quiet_def queues_wf_def)
  ultimately show ?thesis by (intro exI[of _ ?m2]) simp
qed

text \<open>Without a queued id the loop makes no progress until it panics.\<close>

lemma idle_loop_panics:
  fixes m :: "('v, 'p, 'w) machine"
  assumes order: "e_hash_order E [] = []" and mx: "mx \<noteq> -1"
  shows "n = unat mx - unat stuck \<Longrightarrow> stuck \<le> mx \<Longrightarrow> quiet [] m \<Longrightarrow> sl_get (e_slab E) (m_pool m) target \<noteq> None \<Longrightarrow>
    block_loop E mx target stuck m = Some (Inl (Panic ''block_on deadlock detected''))"
proof (induction n arbitrary: stuck m)
  case n: (0 stuck m)
  then have eq: "stuck = mx" by (metis antisym diff_is_0_eq word_le_nat_alt)
  obtain m1 where m1: "block_iteration E m = Some (Inr (False, m1))"
    using idle_iteration[OF n(3) _ order] by auto
  have "mx < mx + 1" using mx by (rule u64_less_Suc)
  with eq m1 n(4) show ?case by (subst block_loop.simps) simp
next
  case n: (Suc n stuck m)
  obtain m1 where m1: "block_iteration E m = Some (Inr (False, m1))" "quiet [] m1" "m_pool m1 = m_pool m"
    using idle_iteration[OF n(4) _ order] by auto
  have lt: "Suc (unat stuck) \<le> unat mx" using n(2) by simp
  then have u: "unat (stuck + 1) = Suc (unat stuck)" using unat_u64_bound[of mx] by (intro unat_u64_Suc) linarith
  then have le: "stuck + 1 \<le> mx" "n = unat mx - unat (stuck + 1)" using lt n(2) by (auto simp: word_le_nat_alt)
  have "quiet [] (m1\<lparr>m_os := m_os m1 @ [YieldNow]\<rparr>)" "sl_get (e_slab E) (m_pool (m1\<lparr>m_os := m_os m1 @ [YieldNow]\<rparr>)) target \<noteq> None"
    using m1 n(5) by simp_all
  from n(1)[OF le(2,1) this] m1(1) n(5) le(1) show ?case by (subst block_loop.simps) (simp add: not_less)
qed

text \<open>A spawn and a wake-up, with all they leave alone.\<close>

lemma spawn_quiet:
  fixes E :: "('f, 'v, 'p, 'w) env" and m :: "('v, 'p, 'w) machine"
  assumes S: "slab_ok (e_slab E)" and m: "quiet ids m"
  obtains k m' where "spawn_on E QNormal mk nm m = Inr (k, length (shared_heap m), m')" "quiet (ids @ [k]) m'"
    "k = fst (sl_insert (e_slab E) (m_pool m) (Some (task_new (mk (length (shared_heap m))) QNormal nm)))"
    "sl_get (e_slab E) (m_pool m) k = None"
    "sl_get (e_slab E) (m_pool m') = (sl_get (e_slab E) (m_pool m))(k \<mapsto> Some (task_new (mk (length (shared_heap m))) QNormal nm))"
    "shared_heap m' = shared_heap m @ [shared_state_new]" "result_holders m' = result_holders m" "clock_reads m' = clock_reads m"
proof -
  have wf: "queues_wf m" using m by (simp add: quiet_def)
  from spawn_on_spec[OF S wf, of QNormal mk nm] obtain k m' c where
    r: "spawn_on E QNormal mk nm m = Inr (k, length (shared_heap m), m')" "queues_wf m'" "sl_get (e_slab E) (m_pool m) k = None"
      "sl_get (e_slab E) (m_pool m') = (sl_get (e_slab E) (m_pool m))(k \<mapsto> Some (task_new (mk (length (shared_heap m))) QNormal nm))"
      "shared_heap m' = shared_heap m @ [shared_state_new]" "contents (get_queue QNormal m') = contents (get_queue QNormal m) @ [k]" and
    e: "m' = upd_queue QNormal (\<lambda>_. c) (m\<lparr>shared_heap := shared_heap m', m_pool := m_pool m'\<rparr>)" by blast
  have fr: "polling_queue m' = polling_queue m" "m_reactors m' = m_reactors m" "m_config m' = m_config m"
    "result_holders m' = result_holders m" "clock_reads m' = clock_reads m"
    by (subst e, simp add: upd_queue_def)+
  have "k = fst (sl_insert (e_slab E) (m_pool m) (Some (task_new (mk (length (shared_heap m))) QNormal nm)))"
    using r(1) by (auto simp: spawn_on_def create_task_and_handle_def Let_def run_bind_eq_Inr upd_queue_def split: prod.splits)
  moreover have "quiet (ids @ [k]) m'" using m r(2,6) fr by (simp add: quiet_def get_queue_def)
  ultimately show thesis using that r(1,3-5) fr(4,5) by blast
qed

lemma wake_quiet:
  fixes m :: "('v, 'p, 'w) machine"
  assumes "quiet ids m"
  obtains m' where "wake (PluvioWaker QNormal i) m = Inr m'" "quiet (ids @ [i]) m'" "m_pool m' = m_pool m"
    "shared_heap m' = shared_heap m" "result_holders m' = result_holders m" "clock_reads m' = clock_reads m"
proof -
  have wf: "queues_wf m" using assms by (simp add: quiet_def)
  obtain c where c: "wake (PluvioWaker QNormal i) m = Inr (upd_queue QNormal (\<lambda>_. c) m)" "queue_wf c" "contents c = contents (task_queue m) @ [i]"
    using wake_machine[OF wf, of "PluvioWaker QNormal i"] by (auto simp: get_queue_def)
  have "quiet (ids @ [i]) (upd_queue QNormal (\<lambda>_. c) m)" using assms c by (simp add: quiet_def queues_wf_def upd_queue_def)
  then show thesis by (intro that[OF c(1)]) (simp_all add: upd_queue_def)
qed

subsection \<open>The program\<close>

text \<open>
  The watched task yields once; before that it spawns a server. When it has returned, the server spawns a
  handler. Server and handler wait for ever, as tasks that serve requests do.
\<close>

datatype prog = MainStart | MainResumed | Server | Handler

definition parked_env :: "('p, prog task option) slab_ops \<Rightarrow> (prog, nat, 'p, unit) env" where
  "parked_env S = \<lparr>e_slab = S, e_user_poll = \<lambda>_ f m. Inr (Pending, f, m), e_reactor_poll = \<lambda>_ m. Inr m,
     e_reactor_status = \<lambda>_ _. Stopped, e_clock = id, e_var = \<lambda>_. None, e_hash_order = id\<rparr>"

definition reuse_env :: "('p, prog task option) slab_ops \<Rightarrow> (prog, nat, 'p, unit) env" where
  "reuse_env S = (parked_env S)\<lparr>e_user_poll := \<lambda>w f m.
     (case f of
        MainStart \<Rightarrow> run_bind (wake w m) (\<lambda>m. run_bind (spawn_with_runtime (parked_env S) Server m) (\<lambda>(_, m). Inr (Pending, MainResumed, m)))
      | MainResumed \<Rightarrow> Inr (Ready 42, MainResumed, m)
      | Server \<Rightarrow> run_bind (spawn_with_runtime (parked_env S) Handler m) (\<lambda>(_, m). Inr (Pending, Handler, m))
      | Handler \<Rightarrow> Inr (Pending, Handler, m))\<rparr>"

lemma reuse_env_sel [simp]:
  "e_slab (reuse_env S) = S" "e_hash_order (reuse_env S) = id" "e_var (reuse_env S) = (\<lambda>_. None)"
  "e_slab (parked_env S) = S"
  by (simp_all add: reuse_env_def parked_env_def)

lemma spawn_env: "e_slab E = e_slab E' \<Longrightarrow> spawn_on E q mk nm m = spawn_on E' q mk nm m"
  by (simp add: spawn_on_def)

text \<open>What the slab does with a freed key: it is the next one it gives out.\<close>

definition reuses :: "('p, 'f task option) slab_ops \<Rightarrow> nat \<Rightarrow> bool" where
  "reuses S k \<longleftrightarrow> (\<forall>p j u v. sl_get S p k \<noteq> None \<longrightarrow> sl_get S p j \<noteq> None \<longrightarrow> j \<noteq> k \<longrightarrow>
     fst (sl_insert S (sl_put S (sl_remove S p k) j u) v) = k)"

text \<open>The three polls.\<close>

lemma spawn_poll:
  assumes S: "slab_ok S" and m: "quiet ids m"
  obtains k m' where "spawn_with_runtime (parked_env S) f m = Inr (length (shared_heap m), m')" "quiet (ids @ [k]) m'"
    "k = fst (sl_insert S (m_pool m) (Some (task_new (Spawned (length (shared_heap m)) (Untracked f)) QNormal None)))"
    "sl_get S (m_pool m) k = None"
    "sl_get S (m_pool m') = (sl_get S (m_pool m))(k \<mapsto> Some (task_new (Spawned (length (shared_heap m)) (Untracked f)) QNormal None))"
    "shared_heap m' = shared_heap m @ [shared_state_new]" "result_holders m' = result_holders m" "clock_reads m' = clock_reads m"
proof -
  have "\<not> enable_perfetto_tracks (m_config m)" using m by (simp add: quiet_def scheduling_config_default_def)
  then have "spawn_with_runtime (parked_env S) f m =
      run_bind (spawn_on (parked_env S) QNormal (\<lambda>a. Spawned a (Untracked f)) None m) (\<lambda>(_, h, m). Inr (h, m))"
    by (simp add: spawn_with_runtime_def maybe_tracked_def)
  moreover have "slab_ok (e_slab (parked_env S))" using S by simp
  from spawn_quiet[OF this m, of "\<lambda>a. Spawned a (Untracked f)" None] obtain k m' where
    "spawn_on (parked_env S) QNormal (\<lambda>a. Spawned a (Untracked f)) None m = Inr (k, length (shared_heap m), m')" "quiet (ids @ [k]) m'"
    "k = fst (sl_insert S (m_pool m) (Some (task_new (Spawned (length (shared_heap m)) (Untracked f)) QNormal None)))"
    "sl_get S (m_pool m) k = None"
    "sl_get S (m_pool m') = (sl_get S (m_pool m))(k \<mapsto> Some (task_new (Spawned (length (shared_heap m)) (Untracked f)) QNormal None))"
    "shared_heap m' = shared_heap m @ [shared_state_new]" "result_holders m' = result_holders m" "clock_reads m' = clock_reads m"
    by auto
  ultimately show thesis using that by simp
qed

lemma main_starts:
  assumes S: "slab_ok S" and m: "quiet [] m" and slot: "sl_get S (m_pool m) = [k \<mapsto> Some (task_new (BlockOn 0 0 MainStart) QNormal nm)]"
    and heap: "shared_heap m = [shared_state_new]" and holders: "result_holders m = [None]"
  obtains s t u m' where "process_tasks (reuse_env S) [k] m = Inr (False, m')" "quiet [k, s] m'" "s \<noteq> k"
    "sl_get S (m_pool m') = [k \<mapsto> Some t, s \<mapsto> Some u]" "t_future t = BlockOn 0 0 MainResumed" "t_sender t = QNormal" "t_stat t \<noteq> None"
    "t_future u = Spawned 1 (Untracked Server)" "t_sender u = QNormal" "t_stat u \<noteq> None"
    "shared_heap m' = [shared_state_new, shared_state_new]" "result_holders m' = [None]"
proof -
  let ?t = "task_new (BlockOn 0 0 MainStart) QNormal nm :: prog task"
  let ?m = "m\<lparr>m_pool := sl_put S (m_pool m) k None, clock_reads := Suc (clock_reads m)\<rparr>"
  have get: "sl_get S (m_pool ?m) = [k \<mapsto> None]" using slot_hole[OF S, of "m_pool m" k] slot by simp
  have "quiet [] ?m" using m by simp
  from wake_quiet[OF this, of k] obtain m1 where m1: "wake (PluvioWaker QNormal k) ?m = Inr m1" "quiet ([] @ [k]) m1" "m_pool m1 = m_pool ?m"
    "shared_heap m1 = shared_heap ?m" "result_holders m1 = result_holders ?m" .
  from spawn_poll[OF S m1(2), of Server] obtain s m2 where
    m2: "spawn_with_runtime (parked_env S) Server m1 = Inr (length (shared_heap m1), m2)" "quiet (([] @ [k]) @ [s]) m2" "sl_get S (m_pool m1) s = None"
    "sl_get S (m_pool m2) = (sl_get S (m_pool m1))(s \<mapsto> Some (task_new (Spawned (length (shared_heap m1)) (Untracked Server)) QNormal None))"
    "shared_heap m2 = shared_heap m1 @ [shared_state_new]" "result_holders m2 = result_holders m1" .
  have ne: "s \<noteq> k" using m2(3) m1(3) get by auto
  have "task_future_poll (e_user_poll (reuse_env S) (PluvioWaker (t_sender ?t) k)) (t_future ?t) ?m = Inr (Pending, BlockOn 0 0 MainResumed, m2)"
    using m1(1) m2(1) by (simp add: task_new_def reuse_env_def)
  moreover have "sl_get S (m_pool m2) k = Some None" using m2(4) m1(3) get ne by simp
  ultimately obtain p t' where p: "poll_task (reuse_env S) k m = Inr (Some Pending, m2\<lparr>m_pool := p, clock_reads := Suc (clock_reads m2)\<rparr>)"
    "sl_get S p = (sl_get S (m_pool m2))(k \<mapsto> Some t')" "t_future t' = BlockOn 0 0 MainResumed" "t_sender t' = QNormal" "t_stat t' \<noteq> None"
    using poll_task_step[of "reuse_env S" m k ?t Pending "BlockOn 0 0 MainResumed" m2] S slot by (auto simp: task_new_def)
  have "process_tasks (reuse_env S) [k] m = Inr (False, m2\<lparr>m_pool := p, clock_reads := Suc (clock_reads m2)\<rparr>)" using p(1) by simp
  then show thesis
    by (rule that[of _ s t' "task_new (Spawned 1 (Untracked Server)) QNormal None"])
      (use m1 m2 get p ne heap holders in \<open>auto simp: task_new_def\<close>)
qed

lemma main_returns:
  assumes S: "slab_ok S" and re: "reuses S k" and m: "quiet [] m" and slot: "sl_get S (m_pool m) = [k \<mapsto> Some t, s \<mapsto> Some u]" "s \<noteq> k"
    and t: "t_future t = BlockOn 0 0 MainResumed" "t_stat t \<noteq> None" and u: "t_future u = Spawned 1 (Untracked Server)" "t_sender u = QNormal" "t_stat u \<noteq> None"
    and heap: "shared_heap m = [shared_state_new, shared_state_new]" and holders: "result_holders m = [None]"
  obtains h m' where "process_tasks (reuse_env S) [k, s] m = Inr (True, m')" "quiet [k] m'" "sl_get S (m_pool m') k = Some (Some h)"
    "t_future h = Spawned 2 (Untracked Handler)" "t_stat h \<noteq> None" "result_holders m' = [Some 42]"
proof -
  let ?E = "reuse_env S"
  have SE: "slab_ok (e_slab ?E)" using S by simp
  let ?m = "m\<lparr>m_pool := sl_put S (m_pool m) k None, clock_reads := Suc (clock_reads m)\<rparr>"
  let ?x = "?m\<lparr>result_holders := [Some 42], shared_heap := [shared_state_new\<lparr>ss_result := Some (Inr AnyUnit)\<rparr>, shared_state_new]\<rparr>"
  have get: "sl_get S (m_pool ?m) = [k \<mapsto> None, s \<mapsto> Some u]" using slot_hole[OF S, of "m_pool m" k] slot by (auto simp: fun_eq_iff)
  have "task_future_poll (e_user_poll ?E (PluvioWaker (t_sender t) k)) (t_future t) ?m = Inr (Ready (), Completed, ?x)"
    using heap holders t by (simp add: reuse_env_def complete_def shared_state_new_def)
  then obtain p t' where p: "poll_task ?E k m = Inr (Some (Ready ()), ?x\<lparr>m_pool := p, clock_reads := Suc (clock_reads ?x)\<rparr>)"
    "sl_get S p = [k \<mapsto> Some t', s \<mapsto> Some u]" "t_stat t' \<noteq> None"
    using poll_task_step[of ?E m k t "Ready ()" Completed ?x] S slot t get by (auto simp: fun_upd_twist)
  let ?y = "?x\<lparr>m_pool := p, clock_reads := Suc (clock_reads ?x)\<rparr>"
  have kt: "sl_get (e_slab ?E) (m_pool ?y) k = Some (Some t')" using p(2) slot(2) by simp
  from finish_task_step[OF SE kt p(3)] obtain st where
    fin: "finish_task ?E k ?y = Inr (upd_queue (t_sender t') drop_sender (?y\<lparr>m_stat := st, m_pool := sl_remove S p k\<rparr>))"
    "sl_get S (sl_remove S p k) = [s \<mapsto> Some u]" using p(2) slot(2) by (auto simp: fun_upd_twist)
  let ?z = "upd_queue (t_sender t') drop_sender (?y\<lparr>m_stat := st, m_pool := sl_remove S p k\<rparr>)"
  have zq: "quiet [] ?z" using m by simp
  have z: "m_pool ?z = sl_remove S p k" "result_holders ?z = [Some 42]" "length (shared_heap ?z) = 2"
    by (cases "t_sender t'"; simp add: upd_queue_def)+
  let ?w = "?z\<lparr>m_pool := sl_put S (m_pool ?z) s None, clock_reads := Suc (clock_reads ?z)\<rparr>"
  have "quiet [] ?w" using zq by simp
  from spawn_poll[OF S this, of Handler] obtain k' m2 where
    m2: "spawn_with_runtime (parked_env S) Handler ?w = Inr (length (shared_heap ?w), m2)" "quiet ([] @ [k']) m2"
    "k' = fst (sl_insert S (m_pool ?w) (Some (task_new (Spawned (length (shared_heap ?w)) (Untracked Handler)) QNormal None)))"
    "sl_get S (m_pool m2) = (sl_get S (m_pool ?w))(k' \<mapsto> Some (task_new (Spawned (length (shared_heap ?w)) (Untracked Handler)) QNormal None))"
    "result_holders m2 = result_holders ?w" .
  have k': "k' = k" using re m2(3) p(2) slot(2) z(1) by (simp add: reuses_def)
  have wget: "sl_get S (m_pool ?w) = [s \<mapsto> None]" using slot_hole[OF S, of "sl_remove S p k" s] fin(2) z(1) by simp
  have "task_future_poll (e_user_poll ?E (PluvioWaker (t_sender u) s)) (t_future u) ?w = Inr (Pending, Spawned 1 (Untracked Handler), m2)"
    using u m2(1) by (simp add: reuse_env_def maybe_tracked_poll_def)
  moreover have "sl_get S (m_pool m2) s = Some None" using m2(4) wget k' slot(2) by simp
  moreover have "sl_get S (m_pool ?z) s = Some (Some u)" using z(1) fin(2) by simp
  ultimately obtain p' u' where p': "poll_task ?E s ?z = Inr (Some Pending, m2\<lparr>m_pool := p', clock_reads := Suc (clock_reads m2)\<rparr>)"
    "sl_get S p' = (sl_get S (m_pool m2))(s \<mapsto> Some u')"
    using poll_task_step[of ?E ?z s u Pending "Spawned 1 (Untracked Handler)" m2] S u(3) by auto
  have "process_tasks ?E [k, s] m = Inr (True, m2\<lparr>m_pool := p', clock_reads := Suc (clock_reads m2)\<rparr>)"
    using p(1) fin(1) p'(1) by simp
  then show thesis
    by (rule that[of _ "task_new (Spawned 2 (Untracked Handler)) QNormal None"])
      (use m2 p' wget k' slot(2) z in \<open>simp_all add: task_new_def\<close>)
qed

text \<open>The handler is polled once and then nothing is queued any more.\<close>

lemma handler_parks:
  assumes S: "slab_ok S" and m: "quiet [k] m" and slot: "sl_get S (m_pool m) k = Some (Some h)"
    and h: "t_future h = Spawned 2 (Untracked Handler)" "t_stat h \<noteq> None" and mx: "mx \<noteq> -1"
  shows "block_loop (reuse_env S) mx k 0 m = Some (Inl (Panic ''block_on deadlock detected''))"
proof -
  let ?E = "reuse_env S"
  obtain m1 where m1: "block_iteration ?E m = Some (process_tasks ?E [k] m1)" "quiet [] m1" "m_pool m1 = m_pool m"
    using idle_iteration[OF m, of ?E] by auto
  let ?m = "m1\<lparr>m_pool := sl_put S (m_pool m1) k None, clock_reads := Suc (clock_reads m1)\<rparr>"
  have "task_future_poll (e_user_poll ?E (PluvioWaker (t_sender h) k)) (t_future h) ?m = Inr (Pending, Spawned 2 (Untracked Handler), ?m)"
    using h by (simp add: reuse_env_def maybe_tracked_poll_def)
  moreover have "sl_get S (m_pool ?m) k = Some None" using slot_hole[OF S, of "m_pool m1" k] slot m1(3) by simp
  ultimately obtain p t' where p: "poll_task ?E k m1 = Inr (Some Pending, ?m\<lparr>m_pool := p, clock_reads := Suc (clock_reads ?m)\<rparr>)"
    "sl_get S p = (sl_get S (m_pool ?m))(k \<mapsto> Some t')"
    using poll_task_step[of ?E m1 k h Pending "Spawned 2 (Untracked Handler)" ?m] S slot h m1(3) by auto
  let ?y = "?m\<lparr>m_pool := p, clock_reads := Suc (clock_reads ?m)\<rparr>"
  have it: "block_iteration ?E m = Some (Inr (False, ?y))" using m1(1) p(1) by simp
  let ?z = "?y\<lparr>m_os := m_os ?y @ [YieldNow]\<rparr>"
  have z: "quiet [] ?z" "sl_get (e_slab ?E) (m_pool ?z) k \<noteq> None" using m1(2) p(2) by simp_all
  show ?thesis
  proof (cases "mx < 0 + 1")
    case True
    with it slot show ?thesis by (subst block_loop.simps) simp
  next
    case False
    then have "0 + 1 \<le> mx" by (simp only: not_less)
    from idle_loop_panics[OF _ mx refl this z] have "block_loop ?E mx k (0 + 1) ?z = Some (Inl (Panic ''block_on deadlock detected''))" by simp
    with it slot False show ?thesis by (subst block_loop.simps) simp
  qed
qed

lemma env_ok_reuse:
  assumes "slab_ok S"
  shows "env_ok (reuse_env S)"
proof -
  let ?E = "reuse_env S"
  have sp: "\<exists>h m'. spawn_with_runtime (parked_env S) f m = Inr (h, m') \<and> (api_step ?E)\<^sup>*\<^sup>* m m'" if wf: "queues_wf m" for f m
  proof -
    let ?mk = "\<lambda>a. Spawned a (maybe_tracked f (enable_perfetto_tracks (m_config m)))"
    have "slab_ok (e_slab ?E)" using assms by simp
    from spawn_on_spec[OF this wf, of QNormal ?mk None] obtain i m' where
      r: "spawn_on ?E QNormal ?mk None m = Inr (i, length (shared_heap m), m')" by blast
    then have "api_step ?E m m'" by (rule ASpawn)
    moreover have "spawn_on (parked_env S) QNormal ?mk None m = spawn_on ?E QNormal ?mk None m" by (rule spawn_env) simp
    ultimately show ?thesis using r by (auto simp: spawn_with_runtime_def)
  qed
  have "\<exists>r f' m'. e_user_poll ?E w f m = Inr (r, f', m') \<and> (api_step ?E)\<^sup>*\<^sup>* m m'" if wf: "queues_wf m" for w f m
  proof (cases f)
    case MainStart
    from wake_spec[OF wf, of w] obtain m1 where m1: "wake w m = Inr m1" "queues_wf m1" by blast
    then have "api_step ?E m m1" by (intro AWake)
    with sp[OF m1(2), of Server] m1(1) MainStart show ?thesis
      by (auto simp: reuse_env_def intro: converse_rtranclp_into_rtranclp)
  next
    case Server
    with sp[OF wf, of Handler] show ?thesis by (auto simp: reuse_env_def)
  qed (auto simp: reuse_env_def)
  then show ?thesis using assms by (simp add: env_ok_def) (simp add: reuse_env_def parked_env_def)
qed

text \<open>
  C36 (error). \<open>block_on\<close> can miss the completion of its future. Here a well-behaved program is run whose main future
  returns 42 at its second poll; the iteration stores 42 in the holder and frees the key, and in the same
  iteration the slab gives the key to the task that the server spawns. So the loop goes on watching that task, which
  waits for ever: \<open>block_on\<close> panics with a deadlock report instead of returning 42.
\<close>

theorem block_on_key_reuse:
  fixes S :: "('p, prog task option) slab_ops"
  assumes S: "slab_ok S" and re: "\<And>x. reuses S (fst (sl_insert S (sl_with_capacity S n) x))"
  defines "E \<equiv> reuse_env S" and "m \<equiv> runtime_new (reuse_env S) n ()"
  shows "env_ok E \<and> rt_inv E m \<and>
    block_on_with_name_and_runtime E nm MainStart m = Some (Inl (Panic ''block_on deadlock detected'')) \<and>
    (\<exists>target a m0 m1 m2 t.
      spawn_on E QNormal (\<lambda>a. BlockOn a 0 MainStart) (Some nm) (m\<lparr>result_holders := [None]\<rparr>) = Inr (target, a, m0) \<and>
      block_iteration E m0 = Some (Inr (False, m1)) \<and> block_iteration E (m1\<lparr>m_os := m_os m1 @ [YieldNow]\<rparr>) = Some (Inr (True, m2)) \<and>
      result_holders m2 = [Some 42] \<and> sl_get S (m_pool m2) target = Some (Some t) \<and> t_future t = Spawned 2 (Untracked Handler))"
proof -
  note Eok = env_ok_reuse[OF S]
  have SE: "slab_ok (e_slab E)" using S by (simp add: E_def)
  have empty: "sl_get S (m_pool m) = Map.empty" "m_pool m = sl_with_capacity S n" "shared_heap m = []" "result_holders m = []"
    using slab_okD(5)[OF S] by (simp_all add: m_def runtime_new_def with_config_def)
  have "quiet [] (m\<lparr>result_holders := [None]\<rparr>)"
    using queue_wf_unbounded_channel[where 'a = nat] by (simp add: m_def runtime_new_def with_config_def quiet_def queues_wf_def)
  then obtain k m0 where
    m0: "spawn_on E QNormal (\<lambda>a. BlockOn a 0 MainStart) (Some nm) (m\<lparr>result_holders := [None]\<rparr>) = Inr (k, 0, m0)" "quiet [k] m0"
      "k = fst (sl_insert S (sl_with_capacity S n) (Some (task_new (BlockOn 0 0 MainStart) QNormal (Some nm))))"
      "sl_get S (m_pool m0) = [k \<mapsto> Some (task_new (BlockOn 0 0 MainStart) QNormal (Some nm))]"
      "shared_heap m0 = [shared_state_new]" "result_holders m0 = [None]"
    by (rule spawn_quiet[OF SE, of _ _ "\<lambda>a. BlockOn a 0 MainStart" "Some nm"]) (rule that, use empty in \<open>simp_all add: E_def\<close>)
  have re: "reuses S k" using re m0(3) by simp
  obtain x1 where x1: "block_iteration E m0 = Some (process_tasks E [k] x1)" "quiet [] x1" "m_pool x1 = m_pool m0"
    "shared_heap x1 = shared_heap m0" "result_holders x1 = result_holders m0"
    using idle_iteration[OF m0(2), of E] by (auto simp: E_def)
  obtain s t u m1 where m1: "process_tasks E [k] x1 = Inr (False, m1)" "quiet [k, s] m1" "s \<noteq> k"
    "sl_get S (m_pool m1) = [k \<mapsto> Some t, s \<mapsto> Some u]" "t_future t = BlockOn 0 0 MainResumed" "t_sender t = QNormal" "t_stat t \<noteq> None"
    "t_future u = Spawned 1 (Untracked Server)" "t_sender u = QNormal" "t_stat u \<noteq> None"
    "shared_heap m1 = [shared_state_new, shared_state_new]" "result_holders m1 = [None]"
    unfolding E_def by (rule main_starts[OF S x1(2), of k "Some nm"]) (use x1 m0 in simp_all)
  let ?m1 = "m1\<lparr>m_os := m_os m1 @ [YieldNow]\<rparr>"
  have q1: "quiet [k, s] ?m1" using m1(2) by simp
  obtain x2 where x2: "block_iteration E ?m1 = Some (process_tasks E [k, s] x2)" "quiet [] x2" "m_pool x2 = m_pool m1"
    "shared_heap x2 = shared_heap m1" "result_holders x2 = result_holders m1"
    using idle_iteration[OF q1, of E] by (auto simp: E_def simp del: process_tasks.simps)
  obtain h m2 where m2: "process_tasks E [k, s] x2 = Inr (True, m2)" "quiet [k] m2" "sl_get S (m_pool m2) k = Some (Some h)"
    "t_future h = Spawned 2 (Untracked Handler)" "t_stat h \<noteq> None" "result_holders m2 = [Some 42]"
    unfolding E_def by (rule main_returns[OF S re x2(2) _ m1(3) m1(5,7,8,9,10)]) (use x2 m1 in simp_all)
  have it: "block_iteration E m0 = Some (Inr (False, m1))" "block_iteration E ?m1 = Some (Inr (True, m2))"
    using x1(1) m1(1) x2(1) m2(1) by simp_all
  let ?mx = "1000000 :: u64" and ?dead = "Some (Inl (Panic ''block_on deadlock detected''))"
  have slots: "sl_get (e_slab E) (m_pool m0) k \<noteq> None" "sl_get (e_slab E) (m_pool ?m1) k \<noteq> None"
    using m0(4) m1(3,4) by (simp_all add: E_def)
  have "block_loop E ?mx k 0 m2 = ?dead" unfolding E_def by (rule handler_parks[OF S m2(2-5)]) simp
  then have "block_loop E ?mx k 1 ?m1 = ?dead" using it(2) slots(2) by (subst block_loop.simps) simp
  then have "block_loop E ?mx k 0 m0 = ?dead" using it(1) slots(1) by (subst block_loop.simps) (simp add: word_less_nat_alt)
  then have "block_on_with_name_and_runtime E nm MainStart m = ?dead"
    using m0(1) empty(4) by (simp add: block_on_with_name_and_runtime_def env_u64_def E_def Let_def)
  moreover have "env_ok E" "rt_inv E m" using Eok rt_inv_runtime_new[OF Eok] by (simp_all add: E_def m_def)
  ultimately show ?thesis using m0(1) it m2(3,4,6) by blast
qed

lemma reuses_list_slab: "reuses list_slab 0"
  unfolding reuses_def
proof (intro allI impI)
  fix p :: "'a task option option list" and j u v
  assume "sl_get list_slab p 0 \<noteq> None" "sl_get list_slab p j \<noteq> None" "j \<noteq> 0"
  then obtain x ps where "p = x # ps" "0 < j" by (cases p) (auto simp: list_slab_def)
  then show "fst (sl_insert list_slab (sl_put list_slab (sl_remove list_slab p 0) j u) v) = 0"
    by (cases j) (simp_all add: list_slab_def)
qed

theorem block_on_key_reuse_witness:
  "block_on_with_name_and_runtime (reuse_env list_slab) ''main'' MainStart (runtime_new (reuse_env list_slab) 4 ()) =
     Some (Inl (Panic ''block_on deadlock detected''))"
proof -
  have "fst (sl_insert list_slab (sl_with_capacity list_slab 4) x) = 0" for x :: "prog task option" by (simp add: list_slab_def)
  then show ?thesis using block_on_key_reuse[OF slab_ok_list, of 4 "''main''"] by (simp add: reuses_list_slab)
qed

end
