(* ===== verification/Submit_Thread.thy ===== *)
theory Submit_Thread
  imports Uring_Reactor
begin

section \<open>The submit-offload thread (\<open>pluvio_uring/src/reactor.rs\<close>: \<open>SubmitThread\<close>)\<close>

text \<open>
  With \<open>PLUVIO_URING_SUBMIT_THREAD\<close> a second thread makes the system call that submits: a poll of the reactor looks
  whether the queue has entries, synchronises the queue, sets a flag and unparks the thread; the thread swaps the flag, parks
  (or spins) while it was unset, and enters the kernel. The two threads are interleaved one access to shared memory at a time;
  the release store and the acquire swap make what was published before the flag visible after it. \<open>push_sqe\<close> pushes
  through a temporary \<open>SubmissionQueue\<close> whose drop stores the tail of the ring, so an entry is published when it is
  pushed, whether or not the reactor has signalled it: the kernel may take it at any entry of the thread, and the \<open>sync\<close>
  of the poll finds nothing to publish. \<open>unpark\<close> leaves a token that the next \<open>park\<close> consumes; \<open>park\<close> may
  return for no reason. The kernel takes any number of the published entries, none when the call fails.
\<close>

subsection \<open>The two threads\<close>

text \<open>
  The reactor outside the submitting part of its poll, having found the queue not empty, having synchronised it, and having set the flag.
\<close>

datatype reactor_pc = RIdle | RChecked | RSynced | RStored

datatype thread_pc = TSwap | TWait | TParked | TEnter

text \<open>
  Entries published and taken by the kernel. The last two fields are no part of the program: how many entries had been published when
  the flag was last set, and whether the last entry into the kernel since has left some of those behind.
\<close>

record 'e submit_state =
  sb_published :: "'e list"
  sb_taken :: "'e list"
  sb_flag :: bool
  sb_token :: bool
  sb_reactor :: reactor_pc
  sb_thread :: thread_pc
  sb_signalled :: nat
  sb_left :: bool

definition submit_thread_spawn :: "'e submit_state" where
  "submit_thread_spawn = \<lparr>sb_published = [], sb_taken = [], sb_flag = False, sb_token = False,
     sb_reactor = RIdle, sb_thread = TSwap, sb_signalled = 0, sb_left = False\<rparr>"

datatype 'e sub_event = Push 'e | Check | Sync | Store | Unpark | Swap | Spin | Park | Wakeup | Spurious | Enter nat

inductive sub_step :: "bool \<Rightarrow> nat \<Rightarrow> 'e sub_event \<Rightarrow> 'e submit_state \<Rightarrow> 'e submit_state \<Rightarrow> bool" for spin sq_entries where
  Push: "sb_reactor st = RIdle \<Longrightarrow> length (sb_published st) < sq_entries \<Longrightarrow>
     sub_step spin sq_entries (Push e) st (st\<lparr>sb_published := sb_published st @ [e]\<rparr>)"
| Check: "sb_reactor st = RIdle \<Longrightarrow> sb_published st \<noteq> [] \<Longrightarrow>
     sub_step spin sq_entries Check st (st\<lparr>sb_reactor := RChecked\<rparr>)"
| Sync: "sb_reactor st = RChecked \<Longrightarrow>
     sub_step spin sq_entries Sync st (st\<lparr>sb_reactor := RSynced\<rparr>)"
| Store: "sb_reactor st = RSynced \<Longrightarrow>
     sub_step spin sq_entries Store st
       (st\<lparr>sb_flag := True, sb_signalled := length (sb_taken st) + length (sb_published st), sb_left := False,
           sb_reactor := RStored\<rparr>)"
| Unpark: "sb_reactor st = RStored \<Longrightarrow>
     sub_step spin sq_entries Unpark st (st\<lparr>sb_token := True, sb_reactor := RIdle\<rparr>)"
| Swap: "sb_thread st = TSwap \<Longrightarrow>
     sub_step spin sq_entries Swap st (st\<lparr>sb_flag := False, sb_thread := if sb_flag st then TEnter else TWait\<rparr>)"
| Spin: "sb_thread st = TWait \<Longrightarrow> spin \<Longrightarrow> sub_step spin sq_entries Spin st (st\<lparr>sb_thread := TSwap\<rparr>)"
| Park: "sb_thread st = TWait \<Longrightarrow> \<not> spin \<Longrightarrow>
     sub_step spin sq_entries Park st
       (if sb_token st then st\<lparr>sb_token := False, sb_thread := TSwap\<rparr> else st\<lparr>sb_thread := TParked\<rparr>)"
| Wakeup: "sb_thread st = TParked \<Longrightarrow> sb_token st \<Longrightarrow>
     sub_step spin sq_entries Wakeup st (st\<lparr>sb_token := False, sb_thread := TSwap\<rparr>)"
| Spurious: "sb_thread st = TParked \<Longrightarrow> sub_step spin sq_entries Spurious st (st\<lparr>sb_thread := TSwap\<rparr>)"
| Enter: "sb_thread st = TEnter \<Longrightarrow> k \<le> min sq_entries (length (sb_published st)) \<Longrightarrow>
     sub_step spin sq_entries (Enter k) st
       (st\<lparr>sb_taken := sb_taken st @ take k (sb_published st), sb_published := drop k (sb_published st),
           sb_thread := TSwap, sb_left := (length (sb_taken st) + k < sb_signalled st)\<rparr>)"

inductive_simps sub_step_simps: "sub_step spin n (Push e) st st'" "sub_step spin n Check st st'" "sub_step spin n Sync st st'"
  "sub_step spin n Store st st'" "sub_step spin n Unpark st st'" "sub_step spin n Swap st st'" "sub_step spin n Spin st st'"
  "sub_step spin n Park st st'" "sub_step spin n Wakeup st st'" "sub_step spin n Spurious st st'" "sub_step spin n (Enter k) st st'"




subsection \<open>Invariant\<close>
















subsection \<open>The thread serves a set flag\<close>










subsection \<open>The reactor model\<close>

text \<open>
  The reactor of \<open>Uring_Reactor\<close> sees the submission queue as one list, what is published and not taken.
\<close>

definition sub_abs :: "('w, 'e) io_reactor \<Rightarrow> (u64 \<times> 'e) submit_state \<Rightarrow> ('w, 'e) io_reactor" where
  "sub_abs r st = r\<lparr>io_sq := sb_published st, io_inflight := io_inflight r @ sb_taken st, io_submit_thread := Some (sb_flag st)\<rparr>"

text \<open>
  The submit thread implements the steps the reactor model has for it: a poll of the reactor with the thread
  is the four accesses of the reactor; entering the kernel is the kernel's step that takes a prefix of the queue;
  every other access of the thread changes at most the flag.
\<close>

theorem submit_thread_refines:
  assumes step: "sub_step spin n ev st st'"
  shows "(case ev of
      Push e \<Rightarrow> sub_abs r st' = (sub_abs r st)\<lparr>io_sq := io_sq (sub_abs r st) @ [e]\<rparr>
    | Enter k \<Rightarrow> io_step (KTake k) (sub_abs r st) = Inr (sub_abs r st')
    | _ \<Rightarrow> sub_abs r st' = (sub_abs r st)\<lparr>io_submit_thread := Some (sb_flag st')\<rparr>) \<and>
    (\<forall>st1 st2 st3 now ok. ev = Check \<and> sub_step spin n Sync st' st1 \<and> sub_step spin n Store st1 st2 \<and> sub_step spin n Unpark st2 st3 \<and>
       ip_sq_poll (io_params r) = None \<longrightarrow>
       poll_submit now ok (sub_abs r st) = Inr ((sub_abs r st3)\<lparr>io_last_submit := now\<rparr>))"
  using step by (cases rule: sub_step.cases) (auto simp: sub_abs_def sub_step_simps poll_submit_def Let_def)

theorem submit_thread_refines_witness:
  "\<exists>st'. sub_step False 4 (Enter 1) (submit_thread_spawn\<lparr>sb_published := [(0, ''read'')], sb_thread := TEnter\<rparr>) st' \<and>
     io_step (KTake 1) (sub_abs demo_reactor (submit_thread_spawn\<lparr>sb_published := [(0, ''read'')], sb_thread := TEnter\<rparr>)) =
       Inr (sub_abs demo_reactor st')"
proof -
  let ?s = "submit_thread_spawn\<lparr>sb_published := [(0 :: u64, ''read'')], sb_thread := TEnter\<rparr>"
  obtain st' where st': "sub_step False 4 (Enter 1) ?s st'" by (simp add: sub_step_simps)
  with submit_thread_refines[OF st', of demo_reactor] show ?thesis by auto
qed

end
