(* ===== verification/Rounds.thy ===== *)
theory Rounds
  imports Prelude
begin

section \<open>Round-based collectives over tag-matched messages\<close>

text \<open>
  The collectives of \<open>pluvio_collective/src/ucx_backend\<close> (ring, recursive doubling) have one shape:
  in round \<open>k\<close> each rank issues a send to one peer, awaits a message from one peer and updates
  its buffer (\<open>run_send_recv\<close> and what follows it). A \<open>protocol\<close> records what a collective does in
  a round; this theory gives its asynchronous execution, with every rank at its own pace and any
  interleaving of sends and receives, and proves once, in the locale \<open>tagged_rounds\<close>, that every
  execution ends, never deadlocks and leaves each rank with the state of the lockstep execution.

  UCX is not code of the repository: the transport is a record of parameters, and
  \<open>transport_ok\<close> states what UCX documents of tag matching, for a tag with no message under way:
  a message sent to a rank is pending there until a receive for its tag takes it, and a receive
  waits while there is none. The laws are asked of the transport states that satisfy \<open>tr_inv\<close>, which
  sends and receives keep. A send is complete once issued.
\<close>

subsection \<open>Transport\<close>

record ('n, 'p, 't) transport =
  tr_send :: "'n \<Rightarrow> nat \<Rightarrow> 't \<Rightarrow> 'p \<Rightarrow> 'n"
  tr_recv :: "'n \<Rightarrow> nat \<Rightarrow> 't \<Rightarrow> ('p \<times> 'n) option"
  tr_pend :: "'n \<Rightarrow> nat \<Rightarrow> 't \<Rightarrow> 'p list"
  tr_inv :: "'n \<Rightarrow> bool"

definition transport_ok :: "('n, 'p, 't) transport \<Rightarrow> bool" where
  "transport_ok T \<longleftrightarrow>
     (\<forall>net d t p. tr_inv T net \<longrightarrow> tr_pend T net d t = [] \<longrightarrow> tr_inv T (tr_send T net d t p)) \<and>
     (\<forall>net d t p d' t'. tr_inv T net \<longrightarrow> tr_pend T net d t = [] \<longrightarrow> tr_pend T (tr_send T net d t p) d' t' =
        (if d' = d \<and> t' = t then [p] else tr_pend T net d' t')) \<and>
     (\<forall>net d t. tr_inv T net \<longrightarrow> (tr_recv T net d t = None \<longleftrightarrow> tr_pend T net d t = [])) \<and>
     (\<forall>net d t p net'. tr_inv T net \<longrightarrow> tr_recv T net d t = Some (p, net') \<longrightarrow>
        tr_inv T net' \<and> tr_pend T net d t = p # tr_pend T net' d t \<and>
        (\<forall>d' t'. (d', t') \<noteq> (d, t) \<longrightarrow> tr_pend T net' d' t' = tr_pend T net d' t'))"

definition tr_empty :: "('n, 'p, 't) transport \<Rightarrow> 'n \<Rightarrow> bool" where
  "tr_empty T net \<longleftrightarrow> tr_inv T net \<and> (\<forall>d t. tr_pend T net d t = [])"

text \<open>A relation whose runs from \<open>a\<close> are bounded has a maximal run from \<open>a\<close>.\<close>

lemma relpowp_terminal:
  assumes "\<And>k c. (R ^^ k) a c \<Longrightarrow> k \<le> N"
  shows "\<exists>k c. (R ^^ k) a c \<and> (\<nexists>c'. R c c')"
proof -
  let ?Q = "\<lambda>k. \<exists>c. (R ^^ k) a c"
  have "?Q 0" by simp
  moreover have "\<forall>k. ?Q k \<longrightarrow> k < Suc N" using assms by (auto simp: less_Suc_eq_le)
  ultimately obtain k where k: "?Q k" "\<And>j. ?Q j \<Longrightarrow> j \<le> k"
    using ex_has_greatest_nat[of ?Q 0 id "Suc N"] by auto
  then obtain c where c: "(R ^^ k) a c" by blast
  have "\<not> R c c'" for c' using k(2)[of "Suc k"] c relpowp_Suc_I[OF c, of c'] by auto
  with c show ?thesis by blast
qed

lemma transport_send:
  assumes "transport_ok T" "tr_inv T net" "tr_pend T net d t = []"
  shows "tr_inv T (tr_send T net d t p)"
    and "tr_pend T (tr_send T net d t p) d' t' = (if d' = d \<and> t' = t then [p] else tr_pend T net d' t')"
  using assms unfolding transport_ok_def by blast+

lemma transport_recv:
  assumes "transport_ok T" "tr_inv T net" "tr_recv T net d t = Some (p, net')"
  shows "tr_inv T net'" and "tr_pend T net d t = p # tr_pend T net' d t"
    and "(d', t') \<noteq> (d, t) \<Longrightarrow> tr_pend T net' d' t' = tr_pend T net d' t'"
  using assms unfolding transport_ok_def by blast+

lemma transport_ready:
  assumes "transport_ok T" "tr_inv T net" "tr_pend T net d t \<noteq> []"
  obtains p net' where "tr_recv T net d t = Some (p, net')"
  using assms unfolding transport_ok_def by (metis not_None_eq surj_pair)

subsection \<open>Protocols and their execution\<close>

record ('s, 'p, 't) protocol =
  pr_size :: nat
  pr_rounds :: nat
  pr_out :: "nat \<Rightarrow> nat \<Rightarrow> 's \<Rightarrow> 'p"
  pr_next :: "nat \<Rightarrow> nat \<Rightarrow> nat"
  pr_prev :: "nat \<Rightarrow> nat \<Rightarrow> nat"
  pr_stag :: "nat \<Rightarrow> nat \<Rightarrow> 't"
  pr_rtag :: "nat \<Rightarrow> nat \<Rightarrow> 't"
  pr_upd :: "nat \<Rightarrow> nat \<Rightarrow> 's \<Rightarrow> 'p \<Rightarrow> 's"

record 's rank_st =
  rk_state :: 's
  rk_pc :: nat
  rk_sent :: bool

type_synonym ('s, 'n) conf = "'s rank_st list \<times> 'n"

text \<open>
  The two moves of a rank in \<open>join(send_fut, recv_fut)\<close>: the send is issued by the first poll;
  the round is over when the receive completes.
\<close>

definition rank_send :: "('s, 'p, 't) protocol \<Rightarrow> ('n, 'p, 't) transport \<Rightarrow> nat \<Rightarrow> ('s, 'n) conf \<Rightarrow> ('s, 'n) conf option" where
  "rank_send P T r c =
     (case c of (rs, net) \<Rightarrow>
        let s = rs ! r; k = rk_pc s
        in if r < length rs \<and> k < pr_rounds P \<and> \<not> rk_sent s
           then Some (rs[r := s\<lparr>rk_sent := True\<rparr>],
                      tr_send T net (pr_next P k r) (pr_stag P k r) (pr_out P k r (rk_state s)))
           else None)"

definition rank_recv :: "('s, 'p, 't) protocol \<Rightarrow> ('n, 'p, 't) transport \<Rightarrow> nat \<Rightarrow> ('s, 'n) conf \<Rightarrow> ('s, 'n) conf option" where
  "rank_recv P T r c =
     (case c of (rs, net) \<Rightarrow>
        let s = rs ! r; k = rk_pc s
        in if r < length rs \<and> k < pr_rounds P \<and> rk_sent s
           then case tr_recv T net r (pr_rtag P k r) of
                  None \<Rightarrow> None
                | Some (p, net') \<Rightarrow>
                    Some (rs[r := \<lparr>rk_state = pr_upd P k r (rk_state s) p, rk_pc = Suc k, rk_sent = False\<rparr>], net')
           else None)"

inductive async_step ::
  "('s, 'p, 't) protocol \<Rightarrow> ('n, 'p, 't) transport \<Rightarrow> ('s, 'n) conf \<Rightarrow> ('s, 'n) conf \<Rightarrow> bool" for P T where
  send: "rank_send P T r c = Some c' \<Longrightarrow> async_step P T c c'"
| recv: "rank_recv P T r c = Some c' \<Longrightarrow> async_step P T c c'"

definition async_init :: "('s, 'p, 't) protocol \<Rightarrow> (nat \<Rightarrow> 's) \<Rightarrow> 'n \<Rightarrow> ('s, 'n) conf" where
  "async_init P init net = (map (\<lambda>r. \<lparr>rk_state = init r, rk_pc = 0, rk_sent = False\<rparr>) [0..<pr_size P], net)"

text \<open>The lockstep execution: all ranks do round \<open>k\<close> at once.\<close>

fun lockstep :: "('s, 'p, 't) protocol \<Rightarrow> (nat \<Rightarrow> 's) \<Rightarrow> nat \<Rightarrow> nat \<Rightarrow> 's" where
  "lockstep P init 0 r = init r"
| "lockstep P init (Suc k) r =
     (let p = pr_prev P k r
      in pr_upd P k r (lockstep P init k r) (pr_out P k p (lockstep P init k p)))"

definition issued :: "'s rank_st \<Rightarrow> nat \<Rightarrow> bool" where
  "issued s k \<longleftrightarrow> k < rk_pc s \<or> k = rk_pc s \<and> rk_sent s"

definition work_left :: "('s, 'p, 't) protocol \<Rightarrow> ('s, 'n) conf \<Rightarrow> nat" where
  "work_left P c = (\<Sum>s \<leftarrow> fst c. 2 * (pr_rounds P - rk_pc s) - (if rk_sent s then 1 else 0))"

lemma sum_list_update_less:
  fixes f :: "'a \<Rightarrow> nat"
  shows "i < length xs \<Longrightarrow> f y < f (xs ! i) \<Longrightarrow> sum_list (map f (xs[i := y])) < sum_list (map f xs)"
proof (induction xs arbitrary: i)
  case (Cons x xs)
  then show ?case by (cases i) auto
qed simp

lemma async_step_work:
  assumes "async_step P T c c'"
  shows "work_left P c' < work_left P c"
  using assms
proof cases
  case (send r)
  obtain rs net where c: "c = (rs, net)" by fastforce
  with send have "r < length rs" "rk_pc (rs ! r) < pr_rounds P" "\<not> rk_sent (rs ! r)"
    "fst c' = rs[r := (rs ! r)\<lparr>rk_sent := True\<rparr>]" by (auto simp: rank_send_def Let_def split: if_splits)
  then show ?thesis using c by (auto simp: work_left_def intro!: sum_list_update_less)
next
  case (recv r)
  obtain rs net where c: "c = (rs, net)" by fastforce
  with recv obtain st where "r < length rs" "rk_pc (rs ! r) < pr_rounds P" "rk_sent (rs ! r)"
    "fst c' = rs[r := \<lparr>rk_state = st, rk_pc = Suc (rk_pc (rs ! r)), rk_sent = False\<rparr>]"
    by (auto simp: rank_recv_def Let_def split: if_splits option.splits)
  then show ?thesis using c by (auto simp: work_left_def intro!: sum_list_update_less)
qed

lemma async_steps_bound: "(async_step P T ^^ n) c c' \<Longrightarrow> n + work_left P c' \<le> work_left P c"
proof (induction n arbitrary: c')
  case (Suc n)
  then obtain c1 where "(async_step P T ^^ n) c c1" "async_step P T c1 c'" by auto
  with Suc.IH[of c1] async_step_work[of P T c1 c'] show ?case by simp
qed simp

subsection \<open>The contract of a round-based collective\<close>

text \<open>
  Sends and receives are matched one to one in every round, and a receiver's tags are unambiguous as
  long as ranks fit the 16 bits a tag has for them.
\<close>

locale tagged_rounds =
  fixes P :: "('s, 'p, 't) protocol"
  assumes peers: "r < pr_size P \<Longrightarrow> k < pr_rounds P \<Longrightarrow> pr_next P k r < pr_size P \<and> pr_prev P k r < pr_size P"
    and prev_next: "r < pr_size P \<Longrightarrow> k < pr_rounds P \<Longrightarrow> pr_prev P k (pr_next P k r) = r"
    and next_prev: "r < pr_size P \<Longrightarrow> k < pr_rounds P \<Longrightarrow> pr_next P k (pr_prev P k r) = r"
    and rtag: "r < pr_size P \<Longrightarrow> k < pr_rounds P \<Longrightarrow> pr_rtag P k r = pr_stag P k (pr_prev P k r)"
    and tag_unique: "pr_size P \<le> 2 ^ 16 \<Longrightarrow> r < pr_size P \<Longrightarrow> r' < pr_size P \<Longrightarrow> k < pr_rounds P \<Longrightarrow> k' < pr_rounds P \<Longrightarrow>
      pr_stag P k r = pr_stag P k' r' \<Longrightarrow> pr_next P k r = pr_next P k' r' \<Longrightarrow> k = k' \<and> r = r'"
begin

text \<open>
  Each rank is where lockstep has it after its rounds, and between issue and receipt exactly the right
  message is under way.
\<close>

definition async_inv :: "('n, 'p, 't) transport \<Rightarrow> (nat \<Rightarrow> 's) \<Rightarrow> ('s, 'n) conf \<Rightarrow> bool" where
  "async_inv T init c \<longleftrightarrow> (case c of (rs, net) \<Rightarrow>
     length rs = pr_size P \<and> tr_inv T net \<and>
     (\<forall>r < pr_size P. rk_state (rs ! r) = lockstep P init (rk_pc (rs ! r)) r \<and>
        rk_pc (rs ! r) \<le> pr_rounds P \<and> (rk_sent (rs ! r) \<longrightarrow> rk_pc (rs ! r) < pr_rounds P)) \<and>
     (\<forall>r < pr_size P. \<forall>k < pr_rounds P.
        (k < rk_pc (rs ! pr_next P k r) \<longrightarrow> issued (rs ! r) k) \<and>
        tr_pend T net (pr_next P k r) (pr_stag P k r) =
          (if issued (rs ! r) k \<and> rk_pc (rs ! pr_next P k r) \<le> k then [pr_out P k r (lockstep P init k r)] else [])))"

lemma async_invD:
  assumes "async_inv T init (rs, net)"
  shows "length rs = pr_size P"
    and "r < pr_size P \<Longrightarrow> rk_state (rs ! r) = lockstep P init (rk_pc (rs ! r)) r"
    and "r < pr_size P \<Longrightarrow> rk_pc (rs ! r) \<le> pr_rounds P"
    and "r < pr_size P \<Longrightarrow> rk_sent (rs ! r) \<Longrightarrow> rk_pc (rs ! r) < pr_rounds P"
    and "r < pr_size P \<Longrightarrow> k < pr_rounds P \<Longrightarrow> k < rk_pc (rs ! pr_next P k r) \<Longrightarrow> issued (rs ! r) k"
    and "r < pr_size P \<Longrightarrow> k < pr_rounds P \<Longrightarrow> tr_pend T net (pr_next P k r) (pr_stag P k r) =
      (if issued (rs ! r) k \<and> rk_pc (rs ! pr_next P k r) \<le> k then [pr_out P k r (lockstep P init k r)] else [])"
    and "tr_inv T net"
  using assms by (auto simp: async_inv_def)

lemma async_invI:
  assumes "c = (rs, net)" "length rs = pr_size P" "tr_inv T net"
    and "\<And>r. r < pr_size P \<Longrightarrow> rk_state (rs ! r) = lockstep P init (rk_pc (rs ! r)) r \<and>
        rk_pc (rs ! r) \<le> pr_rounds P \<and> (rk_sent (rs ! r) \<longrightarrow> rk_pc (rs ! r) < pr_rounds P)"
    and "\<And>r k. r < pr_size P \<Longrightarrow> k < pr_rounds P \<Longrightarrow> k < rk_pc (rs ! pr_next P k r) \<Longrightarrow> issued (rs ! r) k"
    and "\<And>r k. r < pr_size P \<Longrightarrow> k < pr_rounds P \<Longrightarrow> tr_pend T net (pr_next P k r) (pr_stag P k r) =
          (if issued (rs ! r) k \<and> rk_pc (rs ! pr_next P k r) \<le> k then [pr_out P k r (lockstep P init k r)] else [])"
  shows "async_inv T init c"
  unfolding async_inv_def assms(1) prod.case using assms(2-) by blast

lemma async_inv_init:
  assumes "tr_empty T net"
  shows "async_inv T init (async_init P init net)"
  using assms peers by (auto simp: tr_empty_def async_inv_def async_init_def issued_def)

lemma inv_send:
  assumes small: "pr_size P \<le> 2 ^ 16" and T: "transport_ok T" and inv: "async_inv T init (rs, net)"
    and step: "rank_send P T r (rs, net) = Some c'"
  shows "async_inv T init c'"
proof -
  note D = async_invD[OF inv]
  let ?k = "rk_pc (rs ! r)"
  let ?s = "(rs ! r)\<lparr>rk_sent := True\<rparr>" and ?msg = "pr_out P ?k r (rk_state (rs ! r))"
  let ?net = "tr_send T net (pr_next P ?k r) (pr_stag P ?k r) ?msg"
  from step D(1) have g: "r < pr_size P" "?k < pr_rounds P" "\<not> rk_sent (rs ! r)" "c' = (rs[r := ?s], ?net)"
    by (auto simp: rank_send_def Let_def split: if_splits)
  have pc: "rk_pc (rs[r := ?s] ! i) = rk_pc (rs ! i)" "rk_state (rs[r := ?s] ! i) = rk_state (rs ! i)" for i
    using D(1) g(1) by (cases "i = r", simp, simp)+
  have iss: "issued (rs[r := ?s] ! i) k \<longleftrightarrow> issued (rs ! i) k \<or> i = r \<and> k = ?k" if "i < pr_size P" for i k
    using that D(1) g(1) by (cases "i = r") (auto simp: issued_def)
  have new: "\<not> issued (rs ! r) ?k" using g(3) by (simp add: issued_def)
  have recv: "rk_pc (rs ! pr_next P ?k r) \<le> ?k" using D(5)[OF g(1,2)] new by force
  have free: "tr_pend T net (pr_next P ?k r) (pr_stag P ?k r) = []" using D(6)[OF g(1,2)] new by simp
  have pend: "tr_pend T ?net (pr_next P k i) (pr_stag P k i) =
      (if issued (rs[r := ?s] ! i) k \<and> rk_pc (rs[r := ?s] ! pr_next P k i) \<le> k then [pr_out P k i (lockstep P init k i)] else [])"
    if "i < pr_size P" "k < pr_rounds P" for i k
  proof (cases "i = r \<and> k = ?k")
    case True
    have "tr_pend T ?net (pr_next P ?k r) (pr_stag P ?k r) = [pr_out P ?k r (lockstep P init ?k r)]"
      using transport_send(2)[OF T D(7) free] D(2)[OF g(1)] by simp
    moreover have "issued (rs[r := ?s] ! r) ?k" "rk_pc (rs[r := ?s] ! pr_next P ?k r) \<le> ?k"
      using iss[OF g(1)] pc(1) recv by simp_all
    ultimately show ?thesis using True by simp
  next
    case False
    then have "\<not> (pr_next P k i = pr_next P ?k r \<and> pr_stag P k i = pr_stag P ?k r)"
      using tag_unique[OF small that(1) g(1) that(2) g(2)] by auto
    then have "tr_pend T ?net (pr_next P k i) (pr_stag P k i) = tr_pend T net (pr_next P k i) (pr_stag P k i)"
      using transport_send(2)[OF T D(7) free] by auto
    moreover have "issued (rs[r := ?s] ! i) k = issued (rs ! i) k" using False iss[OF that(1)] by blast
    ultimately show ?thesis using D(6)[OF that] pc(1) by simp
  qed
  have loc: "rk_state (rs[r := ?s] ! i) = lockstep P init (rk_pc (rs[r := ?s] ! i)) i \<and> rk_pc (rs[r := ?s] ! i) \<le> pr_rounds P \<and>
      (rk_sent (rs[r := ?s] ! i) \<longrightarrow> rk_pc (rs[r := ?s] ! i) < pr_rounds P)" if "i < pr_size P" for i
    using that D(1-4) g(2) by (cases "i = r") simp_all
  have arrived: "issued (rs[r := ?s] ! i) k" if "i < pr_size P" "k < pr_rounds P" "k < rk_pc (rs[r := ?s] ! pr_next P k i)" for i k
    using that D(5)[OF that(1,2)] iss[OF that(1)] pc(1) by simp
  have "tr_inv T ?net" by (rule transport_send(1)[OF T D(7) free])
  then show ?thesis by (intro async_invI[OF g(4)]) (use D(1) loc arrived pend in simp_all)
qed

lemma inv_recv:
  assumes small: "pr_size P \<le> 2 ^ 16" and T: "transport_ok T" and inv: "async_inv T init (rs, net)"
    and step: "rank_recv P T r (rs, net) = Some c'"
  shows "async_inv T init c'"
proof -
  note D = async_invD[OF inv]
  let ?k = "rk_pc (rs ! r)"
  from step D(1) obtain p net' where g: "r < pr_size P" "?k < pr_rounds P" "rk_sent (rs ! r)"
    "tr_recv T net r (pr_rtag P ?k r) = Some (p, net')"
    "c' = (rs[r := \<lparr>rk_state = pr_upd P ?k r (rk_state (rs ! r)) p, rk_pc = Suc ?k, rk_sent = False\<rparr>], net')"
    by (auto simp: rank_recv_def Let_def split: if_splits option.splits)
  let ?q = "pr_prev P ?k r" and ?s = "\<lparr>rk_state = pr_upd P ?k r (rk_state (rs ! r)) p, rk_pc = Suc ?k, rk_sent = False\<rparr>"
  have q: "?q < pr_size P" "pr_next P ?k ?q = r" "pr_rtag P ?k r = pr_stag P ?k ?q"
    using peers next_prev rtag g(1,2) by auto
  have pe: "tr_pend T net r (pr_stag P ?k ?q) = p # tr_pend T net' r (pr_stag P ?k ?q)"
    "\<And>d t. (d, t) \<noteq> (r, pr_stag P ?k ?q) \<Longrightarrow> tr_pend T net' d t = tr_pend T net d t"
    using transport_recv(2,3)[OF T D(7) g(4)] q(3) by simp_all
  have cur: "issued (rs ! ?q) ?k" "p = pr_out P ?k ?q (lockstep P init ?k ?q)" "tr_pend T net' r (pr_stag P ?k ?q) = []"
    using D(6)[OF q(1) g(2)] pe(1) q(2) by (auto split: if_splits)
  have iss: "issued (rs[r := ?s] ! i) k \<longleftrightarrow> issued (rs ! i) k" if "i < pr_size P" for i k
    using that D(1) g(1,3) by (cases "i = r") (auto simp: issued_def)
  have pc: "rk_pc (rs[r := ?s] ! i) = (if i = r then Suc ?k else rk_pc (rs ! i))" if "i < pr_size P" for i
    using that D(1) by (cases "i = r") simp_all
  have arrived: "issued (rs[r := ?s] ! i) k" if "i < pr_size P" "k < pr_rounds P" "k < rk_pc (rs[r := ?s] ! pr_next P k i)" for i k
  proof (cases "pr_next P k i = r \<and> k = ?k")
    case True
    then have "i = ?q" using prev_next[OF that(1,2)] by auto
    with True cur(1) iss[OF that(1)] show ?thesis by simp
  next
    case False
    then have "k < rk_pc (rs ! pr_next P k i)" using that(3) pc peers[OF that(1,2)] by (auto split: if_splits)
    then show ?thesis using D(5)[OF that(1,2)] iss[OF that(1)] by simp
  qed
  have pend: "tr_pend T net' (pr_next P k i) (pr_stag P k i) =
      (if issued (rs[r := ?s] ! i) k \<and> rk_pc (rs[r := ?s] ! pr_next P k i) \<le> k then [pr_out P k i (lockstep P init k i)] else [])"
    if ik: "i < pr_size P" "k < pr_rounds P" for i k
  proof (cases "i = ?q \<and> k = ?k")
    case True
    then show ?thesis using cur(3) q(2) pc[OF g(1)] by simp
  next
    case False
    then have ne: "(pr_next P k i, pr_stag P k i) \<noteq> (r, pr_stag P ?k ?q)"
      using tag_unique[OF small ik(1) q(1) ik(2) g(2)] q(2) by auto
    have "pr_next P k i = r \<Longrightarrow> k \<noteq> ?k" using prev_next[OF ik] False by auto
    then have "rk_pc (rs[r := ?s] ! pr_next P k i) \<le> k \<longleftrightarrow> rk_pc (rs ! pr_next P k i) \<le> k"
      using pc peers[OF ik] by auto
    with pe(2)[OF ne] D(6)[OF ik] iss[OF ik(1)] show ?thesis by simp
  qed
  have loc: "rk_state (rs[r := ?s] ! i) = lockstep P init (rk_pc (rs[r := ?s] ! i)) i \<and> rk_pc (rs[r := ?s] ! i) \<le> pr_rounds P \<and>
      (rk_sent (rs[r := ?s] ! i) \<longrightarrow> rk_pc (rs[r := ?s] ! i) < pr_rounds P)" if "i < pr_size P" for i
    using that D(1-4) g(2) cur(2) by (cases "i = r") (simp_all add: Let_def)
  show ?thesis by (rule async_invI[OF g(5)]) (use D(1) transport_recv(1)[OF T D(7) g(4)] loc arrived pend in simp_all)
qed

lemma inv_steps:
  assumes small: "pr_size P \<le> 2 ^ 16" and T: "transport_ok T" and "(async_step P T)\<^sup>*\<^sup>* c c'" and "async_inv T init c"
  shows "async_inv T init c'"
  using assms(3,4)
proof (induction rule: rtranclp_induct)
  case (step y z)
  obtain rs net where y: "y = (rs, net)" by fastforce
  have inv: "async_inv T init (rs, net)" using step.IH[OF step.prems] y by simp
  from step(2)[unfolded y] show ?case
    by cases (blast intro: inv_send[OF small T inv] inv_recv[OF small T inv])+
qed

text \<open>No deadlock: as long as one rank has rounds left, a rank that is furthest behind can move.\<close>

lemma least_moves:
  assumes T: "transport_ok T" and inv: "async_inv T init (rs, net)"
    and r: "r < pr_size P" "rk_pc (rs ! r) < pr_rounds P"
  obtains i c' where "i < pr_size P" "\<And>j. j < pr_size P \<Longrightarrow> rk_pc (rs ! i) \<le> rk_pc (rs ! j)"
    "rank_send P T i (rs, net) = Some c' \<or> rank_recv P T i (rs, net) = Some c'"
proof -
  note D = async_invD[OF inv]
  let ?pcs = "(\<lambda>i. rk_pc (rs ! i)) ` {..<pr_size P}"
  define k where "k = Min ?pcs"
  have fin: "finite ?pcs" "?pcs \<noteq> {}" using r(1) by auto
  have least: "\<And>i. i < pr_size P \<Longrightarrow> k \<le> rk_pc (rs ! i)" unfolding k_def using fin(1) by (intro Min_le) auto
  obtain i where i: "i < pr_size P" "rk_pc (rs ! i) = k" using Min_in[OF fin] unfolding k_def by auto
  have kr: "k < pr_rounds P" using least[OF r(1)] r(2) by simp
  show thesis
  proof (cases "\<exists>j < pr_size P. rk_pc (rs ! j) = k \<and> \<not> rk_sent (rs ! j)")
    case True
    then obtain j where j: "j < pr_size P" "rk_pc (rs ! j) = k" "\<not> rk_sent (rs ! j)" by blast
    then have "\<exists>c'. rank_send P T j (rs, net) = Some c'" using D(1) kr by (simp add: rank_send_def Let_def)
    then show thesis using that[of j] j least by auto
  next
    case False
    let ?q = "pr_prev P k i"
    have q: "?q < pr_size P" "pr_next P k ?q = i" "pr_rtag P k i = pr_stag P k ?q"
      using peers next_prev rtag i(1) kr by auto
    have "issued (rs ! ?q) k" using least[OF q(1)] False q(1) by (auto simp: issued_def)
    then have "tr_pend T net i (pr_rtag P k i) \<noteq> []" using D(6)[OF q(1) kr] q i(2) by simp
    then obtain p net' where rv: "tr_recv T net i (pr_rtag P k i) = Some (p, net')"
      by (rule transport_ready[OF T D(7)])
    have "\<exists>c'. rank_recv P T i (rs, net) = Some c'" using rv i kr False D(1) by (simp add: rank_recv_def Let_def)
    then show thesis using that[of i] i least by auto
  qed
qed

lemma progress:
  assumes T: "transport_ok T" and inv: "async_inv T init (rs, net)"
    and r: "r < pr_size P" "rk_pc (rs ! r) < pr_rounds P"
  shows "\<exists>c'. async_step P T (rs, net) c'"
  using least_moves[OF T inv r] async_step.intros[of P T] by metis

text \<open>A message is sent to a free place, and the message received is that of the round.\<close>

lemma send_free:
  assumes "async_inv T init (rs, net)" "r < pr_size P" "rk_pc (rs ! r) < pr_rounds P" "\<not> rk_sent (rs ! r)"
  shows "tr_pend T net (pr_next P (rk_pc (rs ! r)) r) (pr_stag P (rk_pc (rs ! r)) r) = []"
  using async_invD(6)[OF assms(1-3)] assms(4) by (simp add: issued_def)

lemma recv_msg:
  assumes inv: "async_inv T init (rs, net)" and T: "transport_ok T" and r: "r < pr_size P" "rk_pc (rs ! r) < pr_rounds P"
    and msg: "tr_recv T net r (pr_rtag P (rk_pc (rs ! r)) r) = Some (p, net')"
  shows "p = pr_out P (rk_pc (rs ! r)) (pr_prev P (rk_pc (rs ! r)) r)
    (lockstep P init (rk_pc (rs ! r)) (pr_prev P (rk_pc (rs ! r)) r))"
proof -
  let ?k = "rk_pc (rs ! r)" and ?q = "pr_prev P (rk_pc (rs ! r)) r"
  have q: "?q < pr_size P" "pr_next P ?k ?q = r" "pr_rtag P ?k r = pr_stag P ?k ?q" using peers next_prev rtag r by auto
  show ?thesis
    using async_invD(6)[OF inv q(1) r(2)] transport_recv(2)[OF T async_invD(7)[OF inv] msg] q by (auto split: if_splits)
qed

text \<open>Other traffic on the transport does not matter.\<close>

lemma async_inv_frame:
  assumes inv: "async_inv T init (rs, net)" and net': "tr_inv T net'"
    and pend: "\<And>r k. r < pr_size P \<Longrightarrow> k < pr_rounds P \<Longrightarrow>
      tr_pend T net' (pr_next P k r) (pr_stag P k r) = tr_pend T net (pr_next P k r) (pr_stag P k r)"
  shows "async_inv T init (rs, net')"
proof -
  note D = async_invD[OF inv]
  show ?thesis by (rule async_invI[OF refl]) (use D net' pend in simp_all)
qed

text \<open>The execution of a collective, started on an empty transport.\<close>

lemma execution:
  assumes small: "pr_size P \<le> 2 ^ 16" and T: "transport_ok T" and empty: "tr_empty T net"
    and reach: "(async_step P T)\<^sup>*\<^sup>* (async_init P init net) (rs, net')"
  shows "length rs = pr_size P"
    and "(\<exists>r < pr_size P. rk_pc (rs ! r) < pr_rounds P) \<Longrightarrow> \<exists>c'. async_step P T (rs, net') c'"
    and "(\<nexists>c'. async_step P T (rs, net') c') \<Longrightarrow> r < pr_size P \<Longrightarrow> rk_state (rs ! r) = lockstep P init (pr_rounds P) r"
proof -
  have inv: "async_inv T init (rs, net')"
    using inv_steps[OF small T reach async_inv_init[OF empty]] .
  note D = async_invD[OF inv]
  show "length rs = pr_size P" by (rule D(1))
  show *: "\<exists>c'. async_step P T (rs, net') c'" if "\<exists>r < pr_size P. rk_pc (rs ! r) < pr_rounds P"
    using that progress[OF T inv] by blast
  show "rk_state (rs ! r) = lockstep P init (pr_rounds P) r"
    if "\<nexists>c'. async_step P T (rs, net') c'" "r < pr_size P"
    using that * D(2,3)[OF that(2)] by (metis le_neq_implies_less)
qed

text \<open>Every run is bounded, can go on while rounds are left, and ends in the lockstep states.\<close>

lemma outcome:
  assumes small: "pr_size P \<le> 2 ^ 16" and T: "transport_ok T" and empty: "tr_empty T net"
    and run: "(async_step P T ^^ moves) (async_init P init net) (rs, net')"
  shows "moves \<le> 2 * pr_size P * pr_rounds P \<and>
    ((\<exists>r < pr_size P. rk_pc (rs ! r) < pr_rounds P) \<longrightarrow> (\<exists>c'. async_step P T (rs, net') c')) \<and>
    ((\<nexists>c'. async_step P T (rs, net') c') \<longrightarrow> (\<forall>r < pr_size P. rk_state (rs ! r) = lockstep P init (pr_rounds P) r))"
proof -
  have "work_left P (async_init P init net) = 2 * pr_size P * pr_rounds P"
    by (simp add: work_left_def async_init_def o_def sum_list_triv)
  with async_steps_bound[OF run] have "moves \<le> 2 * pr_size P * pr_rounds P" by simp
  with execution(2,3)[OF small T empty relpowp_imp_rtranclp[OF run]] show ?thesis by blast
qed

end

end
