(* ===== verification/Op.thy ===== *)
theory Op
  imports Prelude
begin

section \<open>Reduction operators, tags and errors (\<open>pluvio_collective/src\<close>: \<open>op.rs\<close>, \<open>error.rs\<close>, \<open>ucx_backend/tag.rs\<close>)\<close>

text \<open>
  An \<open>Op<T>\<close> is the function \<open>apply\<close>; the collectives are verified for every such function. The integer
  instances are given here on words, the floating-point instances in \<open>Float_Ops\<close> on the bits of the values. The bulk
  reduction is the 8-lane loop of the source; the 64-bit tag is built with the word operations of the source.
\<close>

unbundle bit_operations_syntax

datatype collective_error =
    Mpi int
  | Ucx string
  | BadShape
  | Bootstrap string
  | BadHeader (got: nat) (expected: nat)
  | Protocol string

subsection \<open>Integer operators\<close>

definition sum_u32_apply :: "u32 \<Rightarrow> u32 \<Rightarrow> u32" where
  "sum_u32_apply a b = a + b"

definition sum_u32_identity :: u32 where
  "sum_u32_identity = 0"

definition bitxor_u32_apply :: "u32 \<Rightarrow> u32 \<Rightarrow> u32" where
  "bitxor_u32_apply a b = (a XOR b)"

definition bitxor_u32_identity :: u32 where
  "bitxor_u32_identity = 0"

subsection \<open>Bulk reduction\<close>

definition LANES :: nat where
  "LANES = 8"

text \<open>
  The zip over the exact chunks: \<open>k\<close> pairs of full chunks, each lane reduced; the rest of
  \<open>dst\<close> is left as it is.
\<close>

fun reduce_chunks :: "('a \<Rightarrow> 'a \<Rightarrow> 'a) \<Rightarrow> nat \<Rightarrow> 'a list \<Rightarrow> 'a list \<Rightarrow> 'a list" where
  "reduce_chunks f 0 dst src = dst"
| "reduce_chunks f (Suc k) dst src =
     map (\<lambda>i. f (dst ! i) (src ! i)) [0..<LANES] @ reduce_chunks f k (drop LANES dst) (drop LANES src)"

text \<open>The loop over the remainders, as long as both have elements.\<close>

fun reduce_rest :: "('a \<Rightarrow> 'a \<Rightarrow> 'a) \<Rightarrow> 'a list \<Rightarrow> 'a list \<Rightarrow> 'a list" where
  "reduce_rest f (d # ds) (s # ss) = f d s # reduce_rest f ds ss"
| "reduce_rest f ds [] = ds"
| "reduce_rest f [] ss = []"

definition reduce_in_place :: "('a \<Rightarrow> 'a \<Rightarrow> 'a) \<Rightarrow> 'a list \<Rightarrow> 'a list \<Rightarrow> 'a list" where
  "reduce_in_place f dst src =
     (let k = min (length dst div LANES) (length src div LANES);
          out = reduce_chunks f k dst src;
          md = length dst - length dst mod LANES; ms = length src - length src mod LANES
      in take md out @ reduce_rest f (drop md out) (drop ms src))"

lemma reduce_rest_map2: "length ds = length ss \<Longrightarrow> reduce_rest f ds ss = map2 f ds ss"
  by (induction f ds ss rule: reduce_rest.induct) auto

lemma map2_split: "n \<le> length xs \<Longrightarrow> length xs = length ys \<Longrightarrow>
    map2 f xs ys = map2 f (take n xs) (take n ys) @ map2 f (drop n xs) (drop n ys)"
  by (metis append_take_drop_id length_take map_append zip_append)

lemma map_nth_map2: "n \<le> length xs \<Longrightarrow> n \<le> length ys \<Longrightarrow>
    map (\<lambda>i. f (xs ! i) (ys ! i)) [0..<n] = map2 f (take n xs) (take n ys)"
  by (rule nth_equalityI) auto

lemma reduce_chunks_map2:
  "k * LANES \<le> length dst \<Longrightarrow> length dst = length src \<Longrightarrow>
   reduce_chunks f k dst src = map2 f (take (k * LANES) dst) (take (k * LANES) src) @ drop (k * LANES) dst"
proof (induction k arbitrary: dst src)
  case (Suc k)
  have l: "LANES \<le> length dst" "LANES \<le> length src" using Suc.prems by auto
  have t: "map2 f (take (Suc k * LANES) dst) (take (Suc k * LANES) src) =
      map2 f (take LANES dst) (take LANES src) @
      map2 f (take (k * LANES) (drop LANES dst)) (take (k * LANES) (drop LANES src))"
    using map2_split[of LANES "take (Suc k * LANES) dst" "take (Suc k * LANES) src" f] Suc.prems l
    by (simp add: drop_take min_def)
  have "reduce_chunks f k (drop LANES dst) (drop LANES src) =
      map2 f (take (k * LANES) (drop LANES dst)) (take (k * LANES) (drop LANES src)) @ drop (k * LANES) (drop LANES dst)"
    using Suc.prems by (intro Suc.IH) auto
  then show ?case using l t by (simp add: map_nth_map2 add.commute)
qed simp

lemma reduce_in_place_eq:
  assumes "length dst = length src"
  shows "reduce_in_place f dst src = map2 f dst src"
proof -
  let ?m = "length dst div LANES * LANES"
  have m: "length dst - length dst mod LANES = ?m" "?m \<le> length dst"
    by (simp_all add: minus_mod_eq_div_mult)
  have "reduce_chunks f (length dst div LANES) dst src = map2 f (take ?m dst) (take ?m src) @ drop ?m dst"
    using assms m by (intro reduce_chunks_map2) auto
  then have "reduce_in_place f dst src = map2 f (take ?m dst) (take ?m src) @ reduce_rest f (drop ?m dst) (drop ?m src)"
    using assms m by (simp add: reduce_in_place_def Let_def)
  also have "\<dots> = map2 f dst src" using assms m map2_split[of ?m dst src f] by (simp add: reduce_rest_map2)
  finally show ?thesis .
qed

text \<open>
  The 8-lane bulk reduction of \<open>Op::reduce_in_place\<close> is the element-wise
  reduction: on slices of equal length every element of \<open>dst\<close> is combined with the element of
  \<open>src\<close> at its index exactly once, the tail beyond the last full chunk included.
\<close>

theorem reduce_in_place_map2:
  assumes "length dst = length src"
  shows "reduce_in_place f dst src = map2 f dst src"
  using assms by (rule reduce_in_place_eq)

theorem reduce_in_place_map2_witness:
  "reduce_in_place sum_u32_apply [1, 2, 3, 4, 5, 6, 7, 8, 9, 10] [1, 1, 1, 1, 1, 1, 1, 1, 1, 1] =
   [2, 3, 4, 5, 6, 7, 8, 9, 10, 11]"
  using reduce_in_place_map2[of "[1, 2, 3, 4, 5, 6, 7, 8, 9, 10]" "[1, 1, 1, 1, 1, 1, 1, 1, 1, 1]" sum_u32_apply]
  by (simp add: sum_u32_apply_def)

subsection \<open>Tags\<close>

definition encode_tag :: "nat \<Rightarrow> u16 \<Rightarrow> u8 \<Rightarrow> u8 \<Rightarrow> u64" where
  "encode_tag src step phase micro_chunk =
     ((of_nat src AND 0xffff) OR push_bit 16 (ucast step) OR push_bit 32 (ucast phase) OR push_bit 40 (ucast micro_chunk))"

lemma bit_tag_src: "bit ((of_nat src :: u64) AND 0xffff) n \<longleftrightarrow> n < 16 \<and> bit (of_nat src :: u64) n"
proof -
  have m: "(0xffff :: u64) = mask 16" by (simp add: mask_eq_exp_minus_1)
  have "bit (of_nat src :: u64) n \<Longrightarrow> n < 64" using bit_imp_le_length[of "of_nat src :: u64" n] by simp
  then show ?thesis unfolding m by (auto simp: bit_and_iff bit_mask_iff)
qed

lemma bit_tag_field:
  fixes x :: "'a::len word"
  assumes "k + LENGTH('a) \<le> 64"
  shows "bit (push_bit k (ucast x) :: u64) n \<longleftrightarrow> k \<le> n \<and> n < k + LENGTH('a) \<and> bit x (n - k)"
  using assms bit_imp_le_length[of x "n - k"] by (auto simp: bit_push_bit_iff bit_ucast_iff)

lemma bit_encode_tag:
  "bit (encode_tag src step phase mc) n \<longleftrightarrow>
     (n < 16 \<and> bit (of_nat src :: u64) n) \<or> (16 \<le> n \<and> n < 32 \<and> bit step (n - 16)) \<or>
     (32 \<le> n \<and> n < 40 \<and> bit phase (n - 32)) \<or> (40 \<le> n \<and> n < 48 \<and> bit mc (n - 40))"
  unfolding encode_tag_def bit_or_iff bit_tag_src by (simp add: bit_tag_field)

lemma tag_bits_eq:
  assumes "encode_tag src step phase mc = encode_tag src' step' phase' mc'"
  shows "((n < 16 \<and> bit (of_nat src :: u64) n) \<or> (16 \<le> n \<and> n < 32 \<and> bit step (n - 16)) \<or>
     (32 \<le> n \<and> n < 40 \<and> bit phase (n - 32)) \<or> (40 \<le> n \<and> n < 48 \<and> bit mc (n - 40))) \<longleftrightarrow>
    ((n < 16 \<and> bit (of_nat src' :: u64) n) \<or> (16 \<le> n \<and> n < 32 \<and> bit step' (n - 16)) \<or>
     (32 \<le> n \<and> n < 40 \<and> bit phase' (n - 32)) \<or> (40 \<le> n \<and> n < 48 \<and> bit mc' (n - 40)))"
  unfolding bit_encode_tag[symmetric] assms ..

lemma tag_src_of_nat:
  assumes "src < 2 ^ 16"
  shows "unat (of_nat src AND 0xffff :: u64) = src"
proof -
  have "(0xffff :: u64) = mask 16" by (simp add: mask_eq_exp_minus_1)
  then have "(of_nat src AND 0xffff :: u64) = take_bit 16 (of_nat src)" by (simp add: take_bit_eq_mask)
  also have "\<dots> = of_nat (take_bit 16 src)" by (simp add: of_nat_take_bit)
  also have "take_bit 16 src = src" using assms by (simp add: take_bit_nat_eq_self)
  finally show ?thesis using assms by (simp add: unat_of_nat)
qed

lemma tag_fields_eq:
  assumes "src < 2 ^ 16" "src' < 2 ^ 16" and eq: "encode_tag src step phase mc = encode_tag src' step' phase' mc'"
  shows "src = src' \<and> step = step' \<and> phase = phase' \<and> mc = mc'"
proof -
  note b = tag_bits_eq[OF eq]
  have "bit step i = bit step' i" if "i < 16" for i using b[of "i + 16"] that by simp
  then have "step = step'" by (intro bit_word_eqI) simp
  moreover have "bit phase i = bit phase' i" if "i < 8" for i using b[of "i + 32"] that by simp
  then have "phase = phase'" by (intro bit_word_eqI) simp
  moreover have "bit mc i = bit mc' i" if "i < 8" for i using b[of "i + 40"] that by simp
  then have "mc = mc'" by (intro bit_word_eqI) simp
  moreover have "bit (of_nat src AND 0xffff :: u64) n = bit (of_nat src' AND 0xffff :: u64) n" for n
    using b[of n] unfolding bit_tag_src by (cases "n < 16") simp_all
  then have "(of_nat src AND 0xffff :: u64) = of_nat src' AND 0xffff" by (intro bit_word_eqI) blast
  then have "src = src'" using tag_src_of_nat[OF assms(1)] tag_src_of_nat[OF assms(2)] by metis
  ultimately show ?thesis by blast
qed

lemma u16_of_nat_inj: "k < 2 ^ 16 \<Longrightarrow> k' < 2 ^ 16 \<Longrightarrow> (of_nat k :: u16) = of_nat k' \<longleftrightarrow> k = k'"
proof
  assume k: "k < 2 ^ 16" "k' < 2 ^ 16" and "(of_nat k :: u16) = of_nat k'"
  then have "unat (of_nat k :: u16) = unat (of_nat k' :: u16)" by simp
  with k show "k = k'" by (simp add: unat_of_nat)
qed simp

text \<open>
  C35 (bounds). Tags are unambiguous: for ranks below \<open>2^16\<close> two tags are equal only if rank, step,
  phase and micro-chunk all are, and the upper 16 bits are never set.
\<close>

theorem encode_tag_inj:
  assumes "src < 2 ^ 16" "src' < 2 ^ 16"
  shows "(encode_tag src step phase mc = encode_tag src' step' phase' mc' \<longleftrightarrow>
      src = src' \<and> step = step' \<and> phase = phase' \<and> mc = mc') \<and>
    (\<forall>n \<ge> 48. \<not> bit (encode_tag src step phase mc) n)"
proof -
  have "\<forall>n \<ge> 48. \<not> bit (encode_tag src step phase mc) n" by (simp add: bit_encode_tag)
  then show ?thesis using tag_fields_eq[OF assms] by blast
qed

theorem encode_tag_inj_witness: "encode_tag 3 1 0 0 \<noteq> encode_tag 3 1 1 0"
  using encode_tag_inj[of 3 3 1 0 0 1 1 0] by simp

end
