(* ===== verification/Ring.thy ===== *)
theory Ring
  imports Rounds Op "HOL-Library.Multiset"
begin

section \<open>Ring allreduce (\<open>pluvio_collective/src/ucx_backend/ring.rs\<close>)\<close>

text \<open>
  The two phases of \<open>n - 1\<close> rounds as a \<open>protocol\<close>: what rank \<open>r\<close> sends and does with what
  it receives in each round, with the index arithmetic, the slices and the tags of the source. The
  buffer of a rank is a list of \<open>n * chunk\<close> elements and the payload of a message the elements
  of a chunk (the byte views of the source are casts of plain data). The reduction operator is any
  function.
\<close>

subsection \<open>Slices\<close>

definition slice :: "nat \<Rightarrow> nat \<Rightarrow> 'a list \<Rightarrow> 'a list" where
  "slice off len xs = take len (drop off xs)"

definition write_slice :: "nat \<Rightarrow> 'a list \<Rightarrow> 'a list \<Rightarrow> 'a list" where
  "write_slice off v xs = take off xs @ v @ drop (off + length v) xs"

subsection \<open>The protocol\<close>

definition ring_next :: "nat \<Rightarrow> nat \<Rightarrow> nat" where
  "ring_next n rank = (rank + 1) mod n"

definition ring_prev :: "nat \<Rightarrow> nat \<Rightarrow> nat" where
  "ring_prev n rank = (rank + n - 1) mod n"

text \<open>Round \<open>k\<close> is step \<open>k\<close> of the reduce-scatter phase or step \<open>k - (n - 1)\<close> of the allgather.\<close>

definition ring_phase :: "nat \<Rightarrow> nat \<Rightarrow> u8" where
  "ring_phase n k = (if k < n - 1 then 0 else 1)"

definition ring_step :: "nat \<Rightarrow> nat \<Rightarrow> nat" where
  "ring_step n k = (if k < n - 1 then k else k - (n - 1))"

definition ring_send_idx :: "nat \<Rightarrow> nat \<Rightarrow> nat \<Rightarrow> nat" where
  "ring_send_idx n k rank =
     (if k < n - 1 then (rank + n - ring_step n k) mod n else (rank + n - ring_step n k + 1) mod n)"

definition ring_recv_idx :: "nat \<Rightarrow> nat \<Rightarrow> nat \<Rightarrow> nat" where
  "ring_recv_idx n k rank =
     (if k < n - 1 then (rank + n - ring_step n k - 1) mod n else (rank + n - ring_step n k) mod n)"

definition ring_out :: "nat \<Rightarrow> nat \<Rightarrow> nat \<Rightarrow> nat \<Rightarrow> 'a list \<Rightarrow> 'a list" where
  "ring_out n chunk k rank buf = slice (ring_send_idx n k rank * chunk) chunk buf"

definition ring_upd :: "('a \<Rightarrow> 'a \<Rightarrow> 'a) \<Rightarrow> nat \<Rightarrow> nat \<Rightarrow> nat \<Rightarrow> nat \<Rightarrow> 'a list \<Rightarrow> 'a list \<Rightarrow> 'a list" where
  "ring_upd f n chunk k rank buf tmp =
     (let recv_off = ring_recv_idx n k rank * chunk
      in if k < n - 1
         then write_slice recv_off (reduce_in_place f (slice recv_off chunk buf) tmp) buf
         else write_slice recv_off tmp buf)"

definition ring_protocol :: "('a \<Rightarrow> 'a \<Rightarrow> 'a) \<Rightarrow> nat \<Rightarrow> nat \<Rightarrow> ('a list, 'a list, u64) protocol" where
  "ring_protocol f n chunk =
     \<lparr>pr_size = n, pr_rounds = 2 * (n - 1),
      pr_out = ring_out n chunk,
      pr_next = \<lambda>k r. ring_next n r, pr_prev = \<lambda>k r. ring_prev n r,
      pr_stag = \<lambda>k r. encode_tag r (of_nat (ring_step n k)) (ring_phase n k) 0,
      pr_rtag = \<lambda>k r. encode_tag (ring_prev n r) (of_nat (ring_step n k)) (ring_phase n k) 0,
      pr_upd = ring_upd f n chunk\<rparr>"

text \<open>
  The start of \<open>ring_allreduce\<close>: \<open>Inr None\<close> returns at once, \<open>Inr (Some P)\<close> runs the rounds of
  \<open>P\<close>. \<open>has_endpoint\<close> says whether the communicator has an endpoint to a rank.
\<close>

definition ring_allreduce ::
  "('a \<Rightarrow> 'a \<Rightarrow> 'a) \<Rightarrow> nat \<Rightarrow> nat \<Rightarrow> (nat \<Rightarrow> bool) \<Rightarrow> 'a list \<Rightarrow>
   collective_error + ('a list, 'a list, u64) protocol option" where
  "ring_allreduce f n rank has_endpoint buf =
     (if n \<le> 1 then Inr None
      else if length buf mod n \<noteq> 0 then Inl BadShape
      else let chunk = length buf div n; nxt = ring_next n rank
           in if \<not> has_endpoint nxt then Inl (Protocol ''no endpoint to next rank'')
              else Inr (Some (ring_protocol f n chunk)))"

subsection \<open>Arithmetic on the ring\<close>

definition rsub :: "nat \<Rightarrow> nat \<Rightarrow> nat \<Rightarrow> nat" where
  "rsub n r j = (r + n - j) mod n"

lemma rsub_if: "r < n \<Longrightarrow> j < n \<Longrightarrow> rsub n r j = (if j \<le> r then r - j else r + n - j)"
  by (auto simp: rsub_def mod_if)

lemma rsub_less [simp]: "r < n \<Longrightarrow> rsub n r j < n"
  by (simp add: rsub_def mod_less_bound)

lemma rsub_rsub [simp]: "r < n \<Longrightarrow> j < n \<Longrightarrow> rsub n r (rsub n r j) = j"
  by (auto simp: rsub_if split: if_splits)

lemma rsub_eq_iff: "r < n \<Longrightarrow> j < n \<Longrightarrow> c < n \<Longrightarrow> rsub n r c = j \<longleftrightarrow> c = rsub n r j"
  by (auto simp: rsub_if split: if_splits)

lemma rsub_add: "r < n \<Longrightarrow> j < n \<Longrightarrow> (rsub n r j + j) mod n = r"
  by (auto simp: rsub_if mod_if split: if_splits)

lemma next_if: "r < n \<Longrightarrow> ring_next n r = (if Suc r = n then 0 else Suc r)"
  by (auto simp: ring_next_def)

lemma prev_if: "r < n \<Longrightarrow> 2 \<le> n \<Longrightarrow> ring_prev n r = (if r = 0 then n - 1 else r - 1)"
  by (auto simp: ring_prev_def mod_if)

lemma ring_peers:
  assumes "r < n" "2 \<le> n"
  shows "ring_next n r < n" "ring_prev n r < n" "ring_next n (ring_prev n r) = r" "ring_prev n (ring_next n r) = r"
proof -
  have a: "ring_next n r < n" "ring_prev n r < n" using assms by (auto simp: next_if prev_if)
  then show "ring_next n r < n" "ring_prev n r < n" by auto
  show "ring_next n (ring_prev n r) = r" "ring_prev n (ring_next n r) = r"
    using assms a by (auto simp: next_if prev_if split: if_splits)
qed

lemma rs_idx:
  assumes "r < n" "k < n - 1"
  shows "ring_send_idx n k r = rsub n r k" "ring_recv_idx n k r = rsub n r (Suc k)"
    "rsub n (ring_prev n r) k = rsub n r (Suc k)"
  using assms by (auto simp: ring_send_idx_def ring_recv_idx_def ring_step_def rsub_def prev_if mod_if)

lemma ag_idx:
  assumes "r < n" "k < n - 1"
  shows "ring_recv_idx n (n - 1 + k) r = rsub n r k" "ring_send_idx n (n - 1 + k) (ring_prev n r) = rsub n r k"
    "rsub n (ring_next n r) (rsub n r k) = Suc k"
  using assms by (auto simp: ring_send_idx_def ring_recv_idx_def ring_step_def rsub_if prev_if next_if mod_if)

subsection \<open>The buffer as chunks\<close>

abbreviation chunk_at :: "nat \<Rightarrow> nat \<Rightarrow> 'a list \<Rightarrow> 'a list" where
  "chunk_at chunk c xs \<equiv> slice (c * chunk) chunk xs"

lemma length_chunk_at: "length xs = n * chunk \<Longrightarrow> c < n \<Longrightarrow> length (chunk_at chunk c xs) = chunk"
proof -
  assume a: "length xs = n * chunk" "c < n"
  then have "Suc c * chunk \<le> n * chunk" by (intro mult_le_mono1) simp
  with a show ?thesis by (simp add: slice_def)
qed

lemma length_write_slice: "off + length v \<le> length xs \<Longrightarrow> length (write_slice off v xs) = length xs"
  by (simp add: write_slice_def)

lemma chunk_bound: "d < n \<Longrightarrow> d * chunk + chunk \<le> n * (chunk :: nat)"
  using mult_le_mono1[of "Suc d" n chunk] by simp

lemma chunk_at_write:
  assumes l: "length xs = n * chunk" "length v = chunk" and c: "c < n" "d < n"
  shows "chunk_at chunk c (write_slice (d * chunk) v xs) = (if c = d then v else chunk_at chunk c xs)"
proof -
  note bd = chunk_bound[OF c(2), of chunk] and bc = chunk_bound[OF c(1), of chunk]
  have mn: "min (n * chunk) (d * chunk) = d * chunk" using bd by (intro min_absorb2) linarith
  consider "c = d" | "c < d" | "d < c" by linarith
  then show ?thesis
  proof cases
    case 1
    show ?thesis using l 1 mn by (simp add: slice_def write_slice_def)
  next
    case 2
    have "c * chunk + chunk \<le> d * chunk" using chunk_bound[OF 2, of chunk] .
    then show ?thesis using l bd 2 by (simp add: slice_def write_slice_def drop_take)
  next
    case 3
    have "d * chunk + chunk \<le> c * chunk" using chunk_bound[OF 3, of chunk] .
    then show ?thesis using l mn 3 by (simp add: slice_def write_slice_def add.commute)
  qed
qed

lemma chunks_concat: "length xs = n * chunk \<Longrightarrow> xs = concat (map (\<lambda>c. chunk_at chunk c xs) [0..<n])"
proof (induction n arbitrary: xs)
  case (Suc n)
  have l: "length (take (n * chunk) xs) = n * chunk" using Suc.prems by simp
  have "chunk_at chunk c (take (n * chunk) xs) = chunk_at chunk c xs" if "c < n" for c
    using chunk_bound[OF that, of chunk] by (simp add: slice_def drop_take)
  then have "take (n * chunk) xs = concat (map (\<lambda>c. chunk_at chunk c xs) [0..<n])"
    using Suc.IH[OF l] by (metis (no_types, lifting) atLeastLessThan_iff map_eq_conv set_upt)
  moreover have "chunk_at chunk n xs = drop (n * chunk) xs" using Suc.prems by (simp add: slice_def)
  ultimately have "concat (map (\<lambda>c. chunk_at chunk c xs) [0..<Suc n]) = take (n * chunk) xs @ drop (n * chunk) xs"
    by simp
  then show ?case by (simp only: append_take_drop_id)
qed simp

subsection \<open>The lockstep execution\<close>

text \<open>
  \<open>ring_acc B c j\<close>: chunk \<open>c\<close> reduced over ranks \<open>c, c+1, \<dots>, c+j\<close> of the ring, the
  operand of the later rank on the left.
\<close>

fun ring_acc :: "('a \<Rightarrow> 'a \<Rightarrow> 'a) \<Rightarrow> nat \<Rightarrow> nat \<Rightarrow> (nat \<Rightarrow> 'a list) \<Rightarrow> nat \<Rightarrow> nat \<Rightarrow> 'a list" where
  "ring_acc f n chunk B c 0 = chunk_at chunk c (B c)"
| "ring_acc f n chunk B c (Suc j) = map2 f (chunk_at chunk c (B ((c + Suc j) mod n))) (ring_acc f n chunk B c j)"

definition ring_result :: "('a \<Rightarrow> 'a \<Rightarrow> 'a) \<Rightarrow> nat \<Rightarrow> nat \<Rightarrow> (nat \<Rightarrow> 'a list) \<Rightarrow> 'a list" where
  "ring_result f n chunk B = concat (map (\<lambda>c. ring_acc f n chunk B c (n - 1)) [0..<n])"

lemma length_ring_acc:
  assumes "\<And>r. r < n \<Longrightarrow> length (B r) = n * chunk" "c < n"
  shows "length (ring_acc f n chunk B c j) = chunk"
proof (induction j)
  case (Suc j)
  have "(c + Suc j) mod n < n" using assms(2) by simp
  from length_chunk_at[OF assms(1)[OF this] assms(2)] Suc show ?case by simp
qed (use assms length_chunk_at[of "B c" n chunk c] in simp)

text \<open>One round, in terms of chunks: only the received chunk changes.\<close>

lemma ring_round_rs:
  assumes len: "length buf = n * chunk" "length tmp = chunk" and r: "r < n" "k < n - 1" "c < n"
  shows "length (ring_upd f n chunk k r buf tmp) = n * chunk"
    and "chunk_at chunk c (ring_upd f n chunk k r buf tmp) =
      (if c = rsub n r (Suc k) then map2 f (chunk_at chunk c buf) tmp else chunk_at chunk c buf)"
proof -
  let ?d = "rsub n r (Suc k)"
  have d: "?d < n" using r by simp
  have lc: "length (chunk_at chunk ?d buf) = chunk" using length_chunk_at[OF len(1) d] .
  have u: "ring_upd f n chunk k r buf tmp = write_slice (?d * chunk) (map2 f (chunk_at chunk ?d buf) tmp) buf"
    using r rs_idx[OF r(1,2)] lc len(2) by (simp add: ring_upd_def reduce_in_place_eq Let_def)
  show "length (ring_upd f n chunk k r buf tmp) = n * chunk"
    using u len lc chunk_bound[OF d, of chunk] by (simp add: length_write_slice)
  show "chunk_at chunk c (ring_upd f n chunk k r buf tmp) =
      (if c = ?d then map2 f (chunk_at chunk c buf) tmp else chunk_at chunk c buf)"
    using u chunk_at_write[OF len(1) _ r(3) d, of "map2 f (chunk_at chunk ?d buf) tmp"] lc len(2) by simp
qed

lemma ring_round_ag:
  assumes len: "length buf = n * chunk" "length tmp = chunk" and r: "r < n" "k < n - 1" "c < n"
  shows "length (ring_upd f n chunk (n - 1 + k) r buf tmp) = n * chunk"
    and "chunk_at chunk c (ring_upd f n chunk (n - 1 + k) r buf tmp) = (if c = rsub n r k then tmp else chunk_at chunk c buf)"
proof -
  let ?d = "rsub n r k"
  have d: "?d < n" using r by simp
  have u: "ring_upd f n chunk (n - 1 + k) r buf tmp = write_slice (?d * chunk) tmp buf"
    using ag_idx(1)[OF r(1,2)] by (simp add: ring_upd_def Let_def)
  show "length (ring_upd f n chunk (n - 1 + k) r buf tmp) = n * chunk"
    using u len chunk_bound[OF d, of chunk] by (simp add: length_write_slice)
  show "chunk_at chunk c (ring_upd f n chunk (n - 1 + k) r buf tmp) = (if c = ?d then tmp else chunk_at chunk c buf)"
    using u chunk_at_write[OF len(1,2) r(3) d] by simp
qed

lemma ring_protocol_simps [simp]:
  "pr_size (ring_protocol f n chunk) = n" "pr_rounds (ring_protocol f n chunk) = 2 * (n - 1)"
  "pr_out (ring_protocol f n chunk) = ring_out n chunk" "pr_upd (ring_protocol f n chunk) = ring_upd f n chunk"
  "pr_next (ring_protocol f n chunk) k r = ring_next n r" "pr_prev (ring_protocol f n chunk) k r = ring_prev n r"
  by (simp_all add: ring_protocol_def)

text \<open>After \<open>k\<close> rounds of the first phase.\<close>

lemma reduce_scatter_inv:
  assumes len: "\<And>r. r < n \<Longrightarrow> length (B r) = n * chunk" and n: "2 \<le> n"
  shows "k \<le> n - 1 \<Longrightarrow> r < n \<Longrightarrow> length (lockstep (ring_protocol f n chunk) B k r) = n * chunk \<and>
    (\<forall>c < n. chunk_at chunk c (lockstep (ring_protocol f n chunk) B k r) =
      (if rsub n r c \<le> k then ring_acc f n chunk B c (rsub n r c) else chunk_at chunk c (B r)))"
proof (induction k arbitrary: r)
  case 0
  have "rsub n r c = 0 \<Longrightarrow> c = r" if "c < n" for c using 0 that n by (auto simp: rsub_if split: if_splits)
  with 0 len show ?case by auto
next
  case (Suc k)
  let ?P = "ring_protocol f n chunk"
  let ?p = "ring_prev n r" and ?d = "rsub n r (Suc k)"
  have k: "k < n - 1" "Suc k < n" using Suc.prems by auto
  have p: "?p < n" using ring_peers(2)[OF Suc.prems(2) n] .
  have d: "?d < n" using Suc.prems(2) by simp
  note me = Suc.IH[OF _ Suc.prems(2)] and pr = Suc.IH[OF _ p]
  have "rsub n ?p ?d = k" using rs_idx(3)[OF Suc.prems(2) k(1)] p k by (metis rsub_rsub Suc_lessD)
  then have out: "ring_out n chunk k ?p (lockstep ?P B k ?p) = ring_acc f n chunk B ?d k"
    using pr k d rs_idx(1)[OF p k(1)] rs_idx(3)[OF Suc.prems(2) k(1)] by (simp add: ring_out_def)
  have up: "lockstep ?P B (Suc k) r = ring_upd f n chunk k r (lockstep ?P B k r) (ring_acc f n chunk B ?d k)"
    using out by (simp add: Let_def)
  have la: "length (ring_acc f n chunk B ?d k) = chunk" using length_ring_acc[OF len d] .
  have lm: "length (lockstep ?P B k r) = n * chunk" using me k by simp
  have "chunk_at chunk c (lockstep ?P B (Suc k) r) =
      (if rsub n r c \<le> Suc k then ring_acc f n chunk B c (rsub n r c) else chunk_at chunk c (B r))" if c: "c < n" for c
  proof (cases "c = ?d")
    case True
    have rc: "rsub n r c = Suc k" using True Suc.prems(2) k(2) by simp
    have "(c + Suc k) mod n = r" using True rsub_add[OF Suc.prems(2) k(2)] by simp
    then show ?thesis using up ring_round_rs(2)[OF lm la Suc.prems(2) k(1) c, of f] True rc me k c by simp
  next
    case False
    then have "rsub n r c \<noteq> Suc k" using rsub_eq_iff[OF Suc.prems(2) k(2) c] by auto
    then show ?thesis using up ring_round_rs(2)[OF lm la Suc.prems(2) k(1) c, of f] False me k c by (simp add: le_Suc_eq)
  qed
  then show ?case using up ring_round_rs(1)[OF lm la Suc.prems(2) k(1) d, of f] by simp
qed

text \<open>After \<open>k\<close> rounds of the second phase.\<close>

lemma allgather_inv:
  assumes len: "\<And>r. r < n \<Longrightarrow> length (B r) = n * chunk" and n: "2 \<le> n"
  shows "k \<le> n - 1 \<Longrightarrow> r < n \<Longrightarrow> length (lockstep (ring_protocol f n chunk) B (n - 1 + k) r) = n * chunk \<and>
    (\<forall>c < n. rsub n (ring_next n r) c \<le> k \<longrightarrow>
       chunk_at chunk c (lockstep (ring_protocol f n chunk) B (n - 1 + k) r) = ring_acc f n chunk B c (n - 1))"
proof (induction k arbitrary: r)
  case 0
  note rs = reduce_scatter_inv[of n B chunk "n - 1" r f, OF len n order_refl 0(2)]
  have "rsub n r c = n - 1" if "c < n" "rsub n (ring_next n r) c = 0" for c
    using that 0 n by (auto simp: rsub_if next_if split: if_splits)
  with rs show ?case by auto
next
  case (Suc k)
  let ?P = "ring_protocol f n chunk"
  let ?p = "ring_prev n r" and ?d = "rsub n r k"
  have k: "k < n - 1" "k < n" using Suc.prems by auto
  have p: "?p < n" "ring_next n ?p = r" using ring_peers[OF Suc.prems(2) n] by auto
  have d: "?d < n" using Suc.prems(2) by simp
  note me = Suc.IH[OF _ Suc.prems(2)] and pr = Suc.IH[OF _ p(1)]
  have out: "ring_out n chunk (n - 1 + k) ?p (lockstep ?P B (n - 1 + k) ?p) = ring_acc f n chunk B ?d (n - 1)"
    using pr k d p(2) ag_idx(2)[OF Suc.prems(2) k(1)] Suc.prems(2) by (simp add: ring_out_def)
  have up: "lockstep ?P B (n - 1 + Suc k) r = ring_upd f n chunk (n - 1 + k) r (lockstep ?P B (n - 1 + k) r) (ring_acc f n chunk B ?d (n - 1))"
    using out by (simp add: Let_def)
  have la: "length (ring_acc f n chunk B ?d (n - 1)) = chunk" using length_ring_acc[OF len d] .
  have lm: "length (lockstep ?P B (n - 1 + k) r) = n * chunk" using me k by simp
  have "chunk_at chunk c (lockstep ?P B (n - 1 + Suc k) r) = ring_acc f n chunk B c (n - 1)"
    if c: "c < n" "rsub n (ring_next n r) c \<le> Suc k" for c
  proof (cases "c = ?d")
    case True
    then show ?thesis using up ring_round_ag(2)[OF lm la Suc.prems(2) k(1) c(1), of f] by simp
  next
    case False
    have "rsub n (ring_next n r) c \<noteq> Suc k"
      using ag_idx(3)[OF Suc.prems(2) k(1)] rsub_eq_iff[of "ring_next n r" n "Suc k" c] False ring_peers(1)[OF Suc.prems(2) n] c(1) k d
      by (metis Suc_lessI not_less_eq rsub_rsub less_diff_conv add.commute plus_1_eq_Suc)
    then show ?thesis using up ring_round_ag(2)[OF lm la Suc.prems(2) k(1) c(1), of f] False me k c by simp
  qed
  then show ?case using up ring_round_ag(1)[OF lm la Suc.prems(2) k(1) d, of f] by simp
qed

lemma ring_lockstep_result:
  assumes len: "\<And>r. r < n \<Longrightarrow> length (B r) = n * chunk" and n: "2 \<le> n" and r: "r < n"
  shows "lockstep (ring_protocol f n chunk) B (2 * (n - 1)) r = ring_result f n chunk B"
proof -
  note ag = allgather_inv[of n B chunk "n - 1" r f, OF len n order_refl r]
  have two: "2 * (n - 1) = n - 1 + (n - 1)" by simp
  let ?x = "lockstep (ring_protocol f n chunk) B (2 * (n - 1)) r"
  have "chunk_at chunk c ?x = ring_acc f n chunk B c (n - 1)" if "c < n" for c
  proof -
    have "rsub n (ring_next n r) c < n" using ring_peers(1)[OF r n] by simp
    with ag that show ?thesis unfolding two by simp
  qed
  then have "concat (map (\<lambda>c. chunk_at chunk c ?x) [0..<n]) = ring_result f n chunk B"
    unfolding ring_result_def by (intro arg_cong[of _ _ concat] map_cong) auto
  moreover have "length ?x = n * chunk" using ag unfolding two by blast
  from chunks_concat[OF this] have "?x = concat (map (\<lambda>c. chunk_at chunk c ?x) [0..<n])" .
  ultimately show ?thesis by (rule trans[rotated])
qed

subsection \<open>The asynchronous execution\<close>

lemma ring_step_phase_inj:
  assumes "n \<le> 2 ^ 16" "k < 2 * (n - 1)" "k' < 2 * (n - 1)"
    and "(of_nat (ring_step n k) :: u16) = of_nat (ring_step n k')" "ring_phase n k = ring_phase n k'"
  shows "k = k'"
proof -
  have b: "ring_step n k < 2 ^ 16" "ring_step n k' < 2 ^ 16" using assms(1-3) by (auto simp: ring_step_def)
  then have "ring_step n k = ring_step n k'" using assms(4) u16_of_nat_inj by blast
  with assms(5) show ?thesis by (auto simp: ring_step_def ring_phase_def split: if_splits)
qed

interpretation ring: tagged_rounds "ring_protocol f n chunk"
proof
  let ?P = "ring_protocol f n chunk"
  fix r k assume r: "r < pr_size ?P" "k < pr_rounds ?P"
  then have n: "2 \<le> n" by simp
  show "pr_next ?P k r < pr_size ?P \<and> pr_prev ?P k r < pr_size ?P" "pr_prev ?P k (pr_next ?P k r) = r"
    "pr_next ?P k (pr_prev ?P k r) = r" using r n ring_peers[of r n] by simp_all
  show "pr_rtag ?P k r = pr_stag ?P k (pr_prev ?P k r)" by (simp add: ring_protocol_def)
  fix r' k' assume small: "pr_size ?P \<le> 2 ^ 16" and r': "r' < pr_size ?P" "k' < pr_rounds ?P"
    and eq: "pr_stag ?P k r = pr_stag ?P k' r'"
  have "r < 2 ^ 16" "r' < 2 ^ 16" using r(1) r'(1) small by simp_all
  from tag_fields_eq[OF this] eq have "r = r'" "(of_nat (ring_step n k) :: u16) = of_nat (ring_step n k')" "ring_phase n k = ring_phase n k'"
    by (auto simp: ring_protocol_def)
  then show "k = k' \<and> r = r'" using ring_step_phase_inj[of n k k'] r r' small by simp
qed

text \<open>
  C11 (functional). Ring allreduce, on any number of ranks up to \<open>2^16\<close>, with any operator, under
  every interleaving of the ranks' sends and receives: from an empty transport and buffers of equal
  length, the execution cannot deadlock (while a rank has rounds left some rank can move), every
  run ends within \<open>4 n (n - 1)\<close> moves, and when nothing can move any more all ranks hold the same
  buffer, in which each chunk is reduced over all ranks exactly once, in ring order.
\<close>

theorem ring_allreduce_correct:
  fixes B :: "nat \<Rightarrow> 'a list" and T :: "('n, 'a list, u64) transport"
  assumes n: "2 \<le> n" "n \<le> 2 ^ 16" and len: "\<And>r. r < n \<Longrightarrow> length (B r) = n * chunk"
    and T: "transport_ok T" "tr_empty T net"
    and run: "(async_step (ring_protocol f n chunk) T ^^ moves) (async_init (ring_protocol f n chunk) B net) (rs, net')"
  shows "moves \<le> 4 * n * (n - 1) \<and>
    ((\<exists>r < n. rk_pc (rs ! r) < 2 * (n - 1)) \<longrightarrow> (\<exists>c'. async_step (ring_protocol f n chunk) T (rs, net') c')) \<and>
    ((\<nexists>c'. async_step (ring_protocol f n chunk) T (rs, net') c') \<longrightarrow>
       (\<forall>r < n. rk_state (rs ! r) = ring_result f n chunk B))"
proof -
  have "pr_size (ring_protocol f n chunk) \<le> 2 ^ 16" using n(2) by simp
  from ring.outcome[OF this T run] ring_lockstep_result[OF len n(1)] show ?thesis by simp
qed

subsection \<open>Commutative operators\<close>

text \<open>A non-empty fold of an operator.\<close>

definition fold1 :: "('a \<Rightarrow> 'a \<Rightarrow> 'a) \<Rightarrow> 'a list \<Rightarrow> 'a" where
  "fold1 f xs = fold f (tl xs) (hd xs)"

lemma fold1_snoc: "xs \<noteq> [] \<Longrightarrow> fold1 f (xs @ [y]) = f y (fold1 f xs)"
  by (cases xs) (simp_all add: fold1_def)

lemma fold_acc_swap:
  assumes comm: "\<And>a b. f a b = f b a" and assoc: "\<And>a b c. f (f a b) c = f a (f b c)"
  shows "fold f xs (f y a) = f y (fold f xs a)"
proof (induction xs arbitrary: a)
  case (Cons x xs)
  have "f x (f y a) = f y (f x a)" by (metis comm assoc)
  with Cons show ?case by simp
qed simp

lemma fold_mset_eq:
  assumes comm: "\<And>a b. f a b = f b a" and assoc: "\<And>a b c. f (f a b) c = f a (f b c)"
    and "mset xs = mset ys"
  shows "fold f xs a = fold f ys a"
proof -
  have "f x \<circ> f y = f y \<circ> f x" for x y by (rule ext) (metis assoc comm comp_apply)
  then have "fold f xs = fold f ys" using assms(3) by (intro fold_multiset_equiv)
  then show ?thesis by simp
qed

lemma fold1_mset:
  assumes comm: "\<And>a b. f a b = f b a" and assoc: "\<And>a b c. f (f a b) c = f a (f b c)"
    and eq: "mset xs = mset ys" "xs \<noteq> []"
  shows "fold1 f xs = fold1 f ys"
proof -
  obtain x xs' y ys' where xy: "xs = x # xs'" "ys = y # ys'" using eq by (cases xs; cases ys) auto
  show ?thesis
  proof (cases "x = y")
    case True
    then show ?thesis using eq xy fold_mset_eq[OF comm assoc, of xs' ys'] by (simp add: fold1_def)
  next
    case False
    with eq xy have "y \<in># mset xs'" by (metis insert_noteq_member mset.simps(2))
    then obtain A where A: "mset xs' = add_mset y A" by (metis multi_member_split)
    obtain zs where zs: "mset zs = A" by (metis ex_mset)
    have "mset ys' = add_mset x A" using eq(1) A xy by (simp add: add_mset_commute)
    then have "mset ys' = mset (x # zs)" "mset xs' = mset (y # zs)" using zs A by simp_all
    then have "fold f xs' x = fold f (y # zs) x" "fold f ys' y = fold f (x # zs) y"
      using fold_mset_eq[OF comm assoc] by blast+
    then show ?thesis using xy comm by (simp add: fold1_def)
  qed
qed

lemma ring_acc_nth:
  assumes len: "\<And>r. r < n \<Longrightarrow> length (B r) = n * chunk" and c: "c < n" and i: "i < chunk"
  shows "ring_acc f n chunk B c j ! i = fold1 f (map (\<lambda>m. B ((c + m) mod n) ! (c * chunk + i)) [0..<Suc j])"
proof (induction j)
  case 0
  have "c * chunk \<le> n * chunk" using chunk_bound[OF c, of chunk] by linarith
  with len[OF c] c i show ?case by (simp add: fold1_def slice_def)
next
  case (Suc j)
  have m: "(c + Suc j) mod n < n" using c by simp
  have "c * chunk \<le> n * chunk" using chunk_bound[OF c, of chunk] by linarith
  then have "chunk_at chunk c (B ((c + Suc j) mod n)) ! i = B ((c + Suc j) mod n) ! (c * chunk + i)"
    using len[OF m] i by (simp add: slice_def)
  moreover have "length (chunk_at chunk c (B ((c + Suc j) mod n))) = chunk" using length_chunk_at[OF len[OF m] c] .
  ultimately have "ring_acc f n chunk B c (Suc j) ! i = f (B ((c + Suc j) mod n) ! (c * chunk + i)) (ring_acc f n chunk B c j ! i)"
    using length_ring_acc[OF len c] i by simp
  also have "\<dots> = fold1 f (map (\<lambda>m. B ((c + m) mod n) ! (c * chunk + i)) [0..<Suc (Suc j)])"
    unfolding Suc.IH by (subst (2) upt_Suc_append) (simp_all add: fold1_snoc del: upt_Suc)
  finally show ?case .
qed

lemma mset_rotated: "c < n \<Longrightarrow> mset (map (\<lambda>m. g ((c + m) mod n)) [0..<n]) = mset (map g [0..<n])"
proof -
  assume c: "c < n"
  have "inj_on (\<lambda>m. (c + m) mod n) {0..<n}" by (auto intro!: inj_onI dest: mod_add_inj)
  moreover have "(\<lambda>m. (c + m) mod n) ` {0..<n} \<subseteq> {0..<n}" using c by auto
  ultimately have "(\<lambda>m. (c + m) mod n) ` {0..<n} = {0..<n}" by (intro endo_inj_surj) auto
  then have "mset (map (\<lambda>m. (c + m) mod n) [0..<n]) = mset [0..<n]"
    using \<open>inj_on _ _\<close> by (intro set_eq_iff_mset_eq_distinct[THEN iffD1]) (auto simp: distinct_map)
  then have "image_mset g (mset (map (\<lambda>m. (c + m) mod n) [0..<n])) = image_mset g (mset [0..<n])" by simp
  then show ?thesis by (simp add: o_def multiset.map_comp)
qed

lemma length_concat_map: "(\<And>c. c < n \<Longrightarrow> length (g c) = chunk) \<Longrightarrow> length (concat (map g [0..<n])) = n * chunk"
  by (induction n) auto

lemma chunk_at_concat:
  "(\<And>c. c < n \<Longrightarrow> length (g c) = chunk) \<Longrightarrow> c < n \<Longrightarrow> chunk_at chunk c (concat (map g [0..<n])) = g c"
proof (induction n)
  case (Suc n)
  have l: "length (concat (map g [0..<n])) = n * chunk" by (rule length_concat_map) (use Suc.prems(1) in auto)
  show ?case
  proof (cases "c = n")
    case True
    then show ?thesis using l Suc.prems by (simp add: slice_def)
  next
    case False
    then have c: "c < n" using Suc.prems(2) by simp
    with Suc l chunk_bound[OF c, of chunk] show ?thesis by (simp add: slice_def)
  qed
qed simp

text \<open>Every element is the reduction of the elements of all ranks at its index.\<close>

definition reduced :: "('a \<Rightarrow> 'a \<Rightarrow> 'a) \<Rightarrow> nat \<Rightarrow> nat \<Rightarrow> (nat \<Rightarrow> 'a list) \<Rightarrow> 'a list" where
  "reduced f n l B = map (\<lambda>i. fold1 f (map (\<lambda>q. B q ! i) [0..<n])) [0..<l]"

lemma ring_reduced:
  fixes f :: "'a \<Rightarrow> 'a \<Rightarrow> 'a"
  assumes comm: "\<And>a b. f a b = f b a" and assoc: "\<And>a b c. f (f a b) c = f a (f b c)"
    and n: "2 \<le> n" and len: "\<And>r. r < n \<Longrightarrow> length (B r) = n * chunk"
  shows "ring_result f n chunk B = reduced f n (n * chunk) B"
proof -
  let ?x = "ring_result f n chunk B"
  have la: "c < n \<Longrightarrow> length (ring_acc f n chunk B c (n - 1)) = chunk" for c using length_ring_acc[OF len] .
  note cc = chunk_at_concat[of n "\<lambda>c. ring_acc f n chunk B c (n - 1)" chunk, OF la, folded ring_result_def]
  have x: "length ?x = n * chunk" "\<And>c. c < n \<Longrightarrow> chunk_at chunk c ?x = ring_acc f n chunk B c (n - 1)"
    using length_concat_map[of n "\<lambda>c. ring_acc f n chunk B c (n - 1)" chunk, OF la, folded ring_result_def] cc by simp_all
  have "?x ! i = fold1 f (map (\<lambda>r. B r ! i) [0..<n])" if i: "i < n * chunk" for i
  proof -
    have ch: "0 < chunk" using i by (cases chunk) auto
    let ?c = "i div chunk" and ?j = "i mod chunk"
    have c: "?c < n" "?j < chunk" "?c * chunk + ?j = i" using i ch by (simp_all add: less_mult_imp_div_less)
    have "?c * chunk \<le> n * chunk" using chunk_bound[OF c(1), of chunk] by linarith
    then have "?x ! i = chunk_at chunk ?c ?x ! ?j" using x(1) c(2,3) by (simp add: slice_def)
    also have "\<dots> = fold1 f (map (\<lambda>m. B ((?c + m) mod n) ! i) [0..<n])"
      using x(2)[OF c(1)] ring_acc_nth[OF len c(1,2), where f = f and j = "n - 1"] c(3) n by simp
    also have "\<dots> = fold1 f (map (\<lambda>r. B r ! i) [0..<n])"
      using mset_rotated[OF c(1), of "\<lambda>r. B r ! i"] n by (intro fold1_mset[OF comm assoc]) auto
    finally show ?thesis .
  qed
  with x(1) show ?thesis by (intro nth_equalityI) (simp_all add: reduced_def)
qed

text \<open>
  For a commutative and associative operator (the integer sum and xor) the ring
  order does not matter: every element of the common result is the reduction of the elements of all
  ranks at its index.
\<close>

theorem ring_result_elementwise:
  fixes f :: "'a \<Rightarrow> 'a \<Rightarrow> 'a"
  assumes comm: "\<And>a b. f a b = f b a" and assoc: "\<And>a b c. f (f a b) c = f a (f b c)"
    and len: "\<And>r. r < n \<Longrightarrow> length (B r) = n * chunk" and n: "2 \<le> n"
  shows "length (ring_result f n chunk B) = n * chunk \<and>
    (\<forall>i < n * chunk. ring_result f n chunk B ! i = fold1 f (map (\<lambda>r. B r ! i) [0..<n]))"
  using ring_reduced[OF comm assoc n len] by (simp add: reduced_def)

text \<open>Two ranks, two chunks of one element, the wrapping sum.\<close>

theorem ring_result_elementwise_witness:
  "ring_result sum_u32_apply 2 1 (\<lambda>r. if r = 0 then [1, 2] else [10, 20]) ! 1 = 22"
proof -
  let ?B = "\<lambda>r. if r = (0::nat) then [1, 2] else [10, 20 :: u32]"
  have "\<forall>i < 2 * 1. ring_result sum_u32_apply 2 1 ?B ! i = fold1 sum_u32_apply (map (\<lambda>r. ?B r ! i) [0..<2])"
    using ring_result_elementwise[of sum_u32_apply 2 ?B 1] by (simp add: sum_u32_apply_def ac_simps)
  then show ?thesis by (simp add: fold1_def sum_u32_apply_def numeral_2_eq_2)
qed

text \<open>A transport as a list of messages in flight.\<close>

fun list_recv :: "(nat \<times> 't \<times> 'p) list \<Rightarrow> nat \<Rightarrow> 't \<Rightarrow> ('p \<times> (nat \<times> 't \<times> 'p) list) option" where
  "list_recv [] d t = None"
| "list_recv ((d', t', p) # ms) d t =
     (if d' = d \<and> t' = t then Some (p, ms)
      else map_option (\<lambda>(q, ms). (q, (d', t', p) # ms)) (list_recv ms d t))"

definition list_transport :: "((nat \<times> 't \<times> 'p) list, 'p, 't) transport" where
  "list_transport = \<lparr>tr_send = \<lambda>net d t p. net @ [(d, t, p)], tr_recv = list_recv,
     tr_pend = \<lambda>net d t. map (\<lambda>(_, _, p). p) (filter (\<lambda>(d', t', _). d' = d \<and> t' = t) net), tr_inv = \<lambda>_. True\<rparr>"

lemma list_recv_None: "list_recv net d t = None \<longleftrightarrow> filter (\<lambda>(d', t', _). d' = d \<and> t' = t) net = []"
  by (induction net d t rule: list_recv.induct) auto

lemma list_recv_Some:
  "list_recv net d t = Some (p, net') \<Longrightarrow>
   tr_pend list_transport net d t = p # tr_pend list_transport net' d t \<and>
   (\<forall>d' t'. (d', t') \<noteq> (d, t) \<longrightarrow> tr_pend list_transport net' d' t' = tr_pend list_transport net d' t')"
proof (induction net d t arbitrary: net' rule: list_recv.induct)
  case (2 d' t' q ms d t)
  then show ?case by (auto simp: list_transport_def split: if_splits)
qed simp

lemma list_transport_simps [simp]:
  "tr_recv list_transport = list_recv"
  "tr_send list_transport net d t p = net @ [(d, t, p)]"
  "tr_inv list_transport net"
  by (simp_all add: list_transport_def)

lemma transport_ok_list: "transport_ok list_transport"
  unfolding transport_ok_def
proof (intro conjI allI impI)
  fix net :: "(nat \<times> 'a \<times> 'b) list" and d t
  show "tr_pend list_transport (tr_send list_transport net d t p) d' t' =
      (if d' = d \<and> t' = t then [p] else tr_pend list_transport net d' t')" if "tr_pend list_transport net d t = []" for p d' t'
    using that by (auto simp: list_transport_def)
  show "(tr_recv list_transport net d t = None) = (tr_pend list_transport net d t = [])"
    by (simp add: list_recv_None) (simp add: list_transport_def)
next
  fix net :: "(nat \<times> 'a \<times> 'b) list" and d t p net' assume "tr_recv list_transport net d t = Some (p, net')"
  then have "list_recv net d t = Some (p, net')" by simp
  note r = list_recv_Some[OF this]
  show "tr_pend list_transport net d t = p # tr_pend list_transport net' d t" using r by (rule conjunct1)
  fix d' t' assume "(d', t') \<noteq> (d, t)"
  with r show "tr_pend list_transport net' d' t' = tr_pend list_transport net d' t'" by blast
qed simp_all

text \<open>A maximal execution of two ranks exists, and at its end both hold the sums.\<close>

theorem ring_allreduce_correct_witness:
  "\<exists>moves rs net'. (async_step (ring_protocol sum_u32_apply 2 1) list_transport ^^ moves)
      (async_init (ring_protocol sum_u32_apply 2 1) (\<lambda>r. if r = 0 then [1, 2] else [10, 20]) []) (rs, net') \<and>
    rk_state (rs ! 0) = [11, 22] \<and> rk_state (rs ! 1) = [11, 22]"
proof -
  let ?P = "ring_protocol sum_u32_apply 2 1" and ?B = "\<lambda>r. if r = (0::nat) then [1, 2] else [10, 20 :: u32]"
  let ?c = "async_init ?P ?B []" and ?S = "async_step ?P list_transport"
  have empty: "tr_empty list_transport []" by (simp add: tr_empty_def list_transport_def)
  have correct: "moves \<le> 8 \<and> ((\<nexists>c'. ?S (rs, net') c') \<longrightarrow> (\<forall>r < 2. rk_state (rs ! r) = ring_result sum_u32_apply 2 1 ?B))"
    if "(?S ^^ moves) ?c (rs, net')" for moves rs net'
    using ring_allreduce_correct[where n = 2 and chunk = 1 and B = ?B, OF _ _ _ transport_ok_list empty that] by simp
  then have "\<And>k c. (?S ^^ k) ?c c \<Longrightarrow> k \<le> 8" by (metis prod.collapse)
  then obtain k rs net' where fin: "(?S ^^ k) ?c (rs, net')" "\<nexists>c'. ?S (rs, net') c'"
    using relpowp_terminal[of ?S ?c 8] by (metis prod.collapse)
  have "ring_result sum_u32_apply 2 1 ?B = [11, 22]"
    by (simp add: ring_result_def sum_u32_apply_def numeral_2_eq_2 slice_def)
  with correct[OF fin(1)] fin(2) have "rk_state (rs ! 0) = [11, 22] \<and> rk_state (rs ! 1) = [11, 22]" by simp
  with fin(1) show ?thesis by blast
qed

end
