(* ===== verification/Recursive_Doubling.thy ===== *)
theory Recursive_Doubling
  imports Ring
begin

section \<open>Recursive-doubling allreduce\<close>

text \<open>
  \<open>pluvio_collective/src/ucx_backend/recursive_doubling.rs\<close>: on \<open>2^m\<close> ranks, \<open>m\<close> rounds in which a
  rank exchanges its whole buffer with the rank whose number differs in bit \<open>k\<close> and reduces what it
  gets into its own; any other number of ranks falls back to the ring. The rounds are a \<open>protocol\<close>
  and inherit the execution lemmas of \<open>tagged_rounds\<close>.
\<close>

unbundle bit_operations_syntax

subsection \<open>The protocol\<close>

fun count_ones :: "nat \<Rightarrow> nat" where
  "count_ones n = (if n = 0 then 0 else n mod 2 + count_ones (n div 2))"

fun trailing_zeros :: "nat \<Rightarrow> nat" where
  "trailing_zeros n = (if n = 0 then 64 else if odd n then 0 else Suc (trailing_zeros (n div 2)))"

declare count_ones.simps [simp del] trailing_zeros.simps [simp del]

definition is_power_of_two :: "nat \<Rightarrow> bool" where
  "is_power_of_two n \<longleftrightarrow> count_ones n = 1"

definition PHASE_RD :: u8 where
  "PHASE_RD = 3"

definition rd_peer :: "nat \<Rightarrow> nat \<Rightarrow> nat" where
  "rd_peer k rank = rank XOR push_bit k 1"

definition rd_protocol :: "('a \<Rightarrow> 'a \<Rightarrow> 'a) \<Rightarrow> nat \<Rightarrow> ('a list, 'a list, u64) protocol" where
  "rd_protocol f n =
     \<lparr>pr_size = n, pr_rounds = trailing_zeros n,
      pr_out = \<lambda>k r buf. buf,
      pr_next = rd_peer, pr_prev = rd_peer,
      pr_stag = \<lambda>k r. encode_tag r (of_nat k) PHASE_RD 0,
      pr_rtag = \<lambda>k r. encode_tag (rd_peer k r) (of_nat k) PHASE_RD 0,
      pr_upd = \<lambda>k r buf tmp. reduce_in_place f buf tmp\<rparr>"

text \<open>The endpoint of a round is looked up when the round starts.\<close>

definition rd_endpoint :: "(nat \<Rightarrow> bool) \<Rightarrow> nat \<Rightarrow> nat \<Rightarrow> collective_error + nat" where
  "rd_endpoint has_endpoint rank k =
     (let peer = rd_peer k rank
      in if has_endpoint peer then Inr peer else Inl (Protocol ''rd: missing endpoint to peer''))"

definition recursive_doubling ::
  "('a \<Rightarrow> 'a \<Rightarrow> 'a) \<Rightarrow> nat \<Rightarrow> nat \<Rightarrow> (nat \<Rightarrow> bool) \<Rightarrow> 'a list \<Rightarrow>
   collective_error + ('a list, 'a list, u64) protocol option" where
  "recursive_doubling f n rank has_endpoint buf =
     (if n \<le> 1 then Inr None
      else if \<not> is_power_of_two n then ring_allreduce f n rank has_endpoint buf
      else Inr (Some (rd_protocol f n)))"

subsection \<open>Bits of rank numbers\<close>

lemma trailing_zeros_dvd: "0 < n \<Longrightarrow> 2 ^ trailing_zeros n dvd n"
proof (induction n rule: trailing_zeros.induct)
  case (1 n)
  show ?case
  proof (cases "odd n")
    case True
    then show ?thesis by (subst trailing_zeros.simps) simp
  next
    case False
    with 1 have "2 ^ trailing_zeros (n div 2) dvd n div 2" by force
    then have "2 * 2 ^ trailing_zeros (n div 2) dvd 2 * (n div 2)" by (rule mult_dvd_mono[OF dvd_refl])
    with False 1(2) show ?thesis by (subst trailing_zeros.simps) simp
  qed
qed

lemma count_ones_0: "count_ones n = 0 \<Longrightarrow> n = 0"
  by (induction n rule: count_ones.induct) (subst (asm) (2) count_ones.simps, auto split: if_splits)

lemma power_of_two_eq: "is_power_of_two n \<Longrightarrow> n = 2 ^ trailing_zeros n"
  unfolding is_power_of_two_def
proof (induction n rule: count_ones.induct)
  case (1 n)
  from 1(2) have n: "n \<noteq> 0" "n mod 2 + count_ones (n div 2) = 1"
    unfolding count_ones.simps[of n] by (simp_all split: if_splits)
  show ?case
  proof (cases "odd n")
    case True
    with n(2) have "count_ones (n div 2) = 0" by (simp add: odd_iff_mod_2_eq_one)
    then have "n div 2 = 0" by (rule count_ones_0)
    then have "n = 1" using n(1) by linarith
    then show ?thesis by (simp add: trailing_zeros.simps)
  next
    case False
    then have e: "2 * (n div 2) = n" "count_ones (n div 2) = 1" using n(2) by (simp_all add: even_iff_mod_2_eq_zero)
    have "trailing_zeros n = Suc (trailing_zeros (n div 2))" using False n(1) by (simp add: trailing_zeros.simps[of n])
    with 1(1)[OF n(1) e(2)] e(1) show ?thesis by simp
  qed
qed

lemma rd_peer_self [simp]: "rd_peer k (rd_peer k r) = r"
  by (simp add: rd_peer_def xor.assoc)

lemma rd_peer_drop: "k < t \<Longrightarrow> rd_peer k r div 2 ^ t = r div 2 ^ t"
proof -
  assume "k < t"
  then have "drop_bit t (push_bit k (1::nat)) = 0" by (simp add: drop_bit_eq_div push_bit_eq_mult)
  then show ?thesis by (simp add: rd_peer_def flip: drop_bit_eq_div)
qed

lemma rd_peer_less: "k < trailing_zeros n \<Longrightarrow> r < n \<Longrightarrow> rd_peer k r < n"
proof -
  assume k: "k < trailing_zeros n" and r: "r < n"
  let ?b = "2 ^ trailing_zeros n :: nat"
  obtain q where q: "n = ?b * q" using trailing_zeros_dvd[of n] r by (auto elim: dvdE)
  have "r div ?b < q" using r q by (metis less_mult_imp_div_less mult.commute)
  then have "rd_peer k r div ?b < q" using rd_peer_drop[OF k] by simp
  then show ?thesis using q div_less_iff_less_mult[of ?b "rd_peer k r" q] by (simp add: mult.commute)
qed

lemma rd_peer_neq: "rd_peer k r \<noteq> r"
proof
  assume "rd_peer k r = r"
  then have "bit (r XOR push_bit k 1) k = bit r k" by (simp add: rd_peer_def)
  then show False by (simp add: bit_simps)
qed

text \<open>With an endpoint to every other rank no round fails.\<close>

lemma rd_endpoint_known:
  assumes "k < trailing_zeros n" "rank < n" "\<And>p. p < n \<Longrightarrow> p \<noteq> rank \<Longrightarrow> has_endpoint p"
  shows "rd_endpoint has_endpoint rank k = Inr (rd_peer k rank)"
  using assms(3)[OF rd_peer_less[OF assms(1,2)] rd_peer_neq] by (simp add: rd_endpoint_def Let_def)

lemma trailing_zeros_bound: "0 < n \<Longrightarrow> n \<le> 2 ^ m \<Longrightarrow> trailing_zeros n \<le> m"
  using dvd_imp_le[OF trailing_zeros_dvd] by (metis le_trans power_le_imp_le_exp one_less_numeral_iff semiring_norm(76))

lemma rd_protocol_simps [simp]:
  "pr_size (rd_protocol f n) = n" "pr_rounds (rd_protocol f n) = trailing_zeros n"
  "pr_next (rd_protocol f n) = rd_peer" "pr_prev (rd_protocol f n) = rd_peer"
  "pr_out (rd_protocol f n) k r buf = buf" "pr_upd (rd_protocol f n) k r buf tmp = reduce_in_place f buf tmp"
  by (simp_all add: rd_protocol_def)

interpretation rd: tagged_rounds "rd_protocol f n"
proof
  let ?P = "rd_protocol f n"
  fix r k assume r: "r < pr_size ?P" "k < pr_rounds ?P"
  then show "pr_next ?P k r < pr_size ?P \<and> pr_prev ?P k r < pr_size ?P" "pr_prev ?P k (pr_next ?P k r) = r"
    "pr_next ?P k (pr_prev ?P k r) = r" by (simp_all add: rd_peer_less)
  show "pr_rtag ?P k r = pr_stag ?P k (pr_prev ?P k r)" by (simp add: rd_protocol_def)
  fix r' k' assume small: "pr_size ?P \<le> 2 ^ 16" and r': "r' < pr_size ?P" "k' < pr_rounds ?P"
    and eq: "pr_stag ?P k r = pr_stag ?P k' r'"
  have "r < 2 ^ 16" "r' < 2 ^ 16" using r(1) r'(1) small by simp_all
  from tag_fields_eq[OF this] eq have "r = r'" "(of_nat k :: u16) = of_nat k'" by (auto simp: rd_protocol_def)
  moreover have "k < 2 ^ 16" "k' < 2 ^ 16"
    using r r'(2) trailing_zeros_bound[of n 16] small by auto
  ultimately show "k = k' \<and> r = r'" by (simp add: u16_of_nat_inj)
qed

subsection \<open>The result\<close>

lemma fold1_append:
  assumes comm: "\<And>a b. f a b = f b a" and assoc: "\<And>a b c. f (f a b) c = f a (f b c)"
    and "xs \<noteq> []" "ys \<noteq> []"
  shows "fold1 f (xs @ ys) = f (fold1 f xs) (fold1 f ys)"
  using assms(4)
proof (induction ys rule: rev_induct)
  case (snoc y ys)
  show ?case
  proof (cases "ys = []")
    case True
    then show ?thesis using assms(3) fold1_snoc[of xs f y] comm by (simp add: fold1_def)
  next
    case False
    then have "fold1 f (xs @ ys @ [y]) = f y (f (fold1 f xs) (fold1 f ys))"
      using snoc.IH fold1_snoc[of "xs @ ys" f y] by simp
    also have "\<dots> = f (fold1 f xs) (f y (fold1 f ys))" by (metis comm assoc)
    finally show ?thesis using False by (simp add: fold1_snoc)
  qed
qed simp

text \<open>The ranks whose numbers agree with \<open>r\<close> above bit \<open>k\<close>.\<close>

definition rd_block :: "nat \<Rightarrow> nat \<Rightarrow> nat list" where
  "rd_block k r = [r div 2 ^ k * 2 ^ k..<Suc (r div 2 ^ k) * 2 ^ k]"

lemma upt_split: "i \<le> j \<Longrightarrow> j \<le> k \<Longrightarrow> [i..<j] @ [j..<k] = [i..<k]"
  by (metis le_Suc_ex upt_add_eq_append)

lemma rd_block_ne: "rd_block k r \<noteq> []"
  by (simp add: rd_block_def)

lemma rd_peer_quot: "rd_peer k r div 2 ^ k = (r div 2 ^ k) XOR 1"
proof -
  have "drop_bit k (push_bit k (1::nat)) = 1" by (simp add: drop_bit_eq_div push_bit_eq_mult)
  then show ?thesis unfolding rd_peer_def drop_bit_eq_div[symmetric] drop_bit_xor by simp
qed

lemma rd_block_Suc: "mset (rd_block (Suc k) r) = mset (rd_block k r) + mset (rd_block k (rd_peer k r))"
proof -
  let ?b = "2 ^ k :: nat" and ?blk = "\<lambda>q. [q * 2 ^ k..<Suc q * 2 ^ k :: nat]"
  define q where "q = r div 2 ^ k"
  have q2: "r div 2 ^ Suc k = q div 2" unfolding q_def power_Suc2 by (rule div_mult2_eq)
  have "rd_block (Suc k) r = [2 * (q div 2) * ?b..<Suc (Suc (2 * (q div 2))) * ?b]"
    unfolding rd_block_def q2 by (simp add: algebra_simps)
  also have "\<dots> = ?blk (2 * (q div 2)) @ ?blk (Suc (2 * (q div 2)))"
    by (rule upt_split[symmetric]) simp_all
  finally have whole: "rd_block (Suc k) r = ?blk (2 * (q div 2)) @ ?blk (Suc (2 * (q div 2)))" .
  have parts: "rd_block k r = ?blk q" "rd_block k (rd_peer k r) = ?blk (q XOR 1)"
    unfolding rd_block_def rd_peer_quot q_def by (rule refl)+
  have "q = 2 * (q div 2) \<and> q XOR 1 = Suc (2 * (q div 2)) \<or> q = Suc (2 * (q div 2)) \<and> q XOR 1 = 2 * (q div 2)"
    by (cases "even q") (auto simp: xor_Suc_0_eq)
  then show ?thesis unfolding whole parts mset_append by (metis add.commute)
qed

lemma rd_lockstep:
  assumes comm: "\<And>a b. f a b = f b a" and assoc: "\<And>a b c. f (f a b) c = f a (f b c)"
    and len: "\<And>r. r < n \<Longrightarrow> length (B r) = l"
  shows "k \<le> trailing_zeros n \<Longrightarrow> r < n \<Longrightarrow>
    lockstep (rd_protocol f n) B k r = map (\<lambda>i. fold1 f (map (\<lambda>q. B q ! i) (rd_block k r))) [0..<l]"
proof (induction k arbitrary: r)
  case 0
  then show ?case using len[of r] map_nth[of "B r"] by (simp add: rd_block_def fold1_def)
next
  case (Suc k)
  let ?p = "rd_peer k r" and ?g = "\<lambda>k r i. fold1 f (map (\<lambda>q. B q ! i) (rd_block k r))"
  have p: "?p < n" using Suc.prems rd_peer_less by simp
  have "fold1 f (map (\<lambda>q. B q ! i) (rd_block (Suc k) r)) =
      fold1 f (map (\<lambda>q. B q ! i) (rd_block k r) @ map (\<lambda>q. B q ! i) (rd_block k ?p))" for i
    using rd_block_Suc[of k r] rd_block_ne by (intro fold1_mset[OF comm assoc]) simp_all
  then have blk: "?g (Suc k) r i = f (?g k r i) (?g k ?p i)" for i
    using fold1_append[OF comm assoc] rd_block_ne by simp
  have "lockstep (rd_protocol f n) B (Suc k) r = map2 f (map (?g k r) [0..<l]) (map (?g k ?p) [0..<l])"
    using Suc.IH[of r] Suc.IH[of ?p] Suc.prems p by (simp add: Let_def reduce_in_place_eq)
  also have "\<dots> = map (?g (Suc k) r) [0..<l]" unfolding blk by (simp add: zip_map_map zip_same_conv_map)
  finally show ?case .
qed

lemma rd_result:
  assumes "\<And>a b. f a b = f b a" "\<And>a b c. f (f a b) c = f a (f b c)" "is_power_of_two n" "\<And>r. r < n \<Longrightarrow> length (B r) = l" "r < n"
  shows "lockstep (rd_protocol f n) B (trailing_zeros n) r = reduced f n l B"
proof -
  have "rd_block (trailing_zeros n) r = [0..<n]" using assms(5) power_of_two_eq[OF assms(3)] by (simp add: rd_block_def)
  with rd_lockstep[where f = f and n = n and B = B and l = l and k = "trailing_zeros n", OF assms(1,2,4)] assms(5)
  show ?thesis by (simp add: reduced_def)
qed

text \<open>
  C22 (functional). Recursive-doubling allreduce on a power of two of ranks, up to \<open>2^16\<close>, with a
  commutative and associative operator, under every interleaving: the peer of every round is another
  rank of the communicator, the execution cannot deadlock, every run ends within \<open>2 n log n\<close> moves,
  and at the end every rank holds, at each index, the reduction of the elements of all ranks.
\<close>

theorem recursive_doubling_correct:
  fixes B :: "nat \<Rightarrow> 'a list" and T :: "('n, 'a list, u64) transport"
  assumes comm: "\<And>a b. f a b = f b a" and assoc: "\<And>a b c. f (f a b) c = f a (f b c)"
    and n: "is_power_of_two n" "n \<le> 2 ^ 16" and len: "\<And>r. r < n \<Longrightarrow> length (B r) = l"
    and T: "transport_ok T" "tr_empty T net"
    and run: "(async_step (rd_protocol f n) T ^^ moves) (async_init (rd_protocol f n) B net) (rs, net')"
  shows "(\<forall>r < n. \<forall>k < trailing_zeros n. rd_peer k r < n \<and> rd_peer k r \<noteq> r) \<and>
    moves \<le> 2 * n * trailing_zeros n \<and>
    ((\<exists>r < n. rk_pc (rs ! r) < trailing_zeros n) \<longrightarrow> (\<exists>c'. async_step (rd_protocol f n) T (rs, net') c')) \<and>
    ((\<nexists>c'. async_step (rd_protocol f n) T (rs, net') c') \<longrightarrow>
       (\<forall>r < n. rk_state (rs ! r) = map (\<lambda>i. fold1 f (map (\<lambda>q. B q ! i) [0..<n])) [0..<l]))"
proof -
  have "pr_size (rd_protocol f n) \<le> 2 ^ 16" using n(2) by simp
  note out = rd.outcome[OF this T run]
  have "lockstep (rd_protocol f n) B (trailing_zeros n) r = map (\<lambda>i. fold1 f (map (\<lambda>q. B q ! i) [0..<n])) [0..<l]"
    if "r < n" for r using rd_result[OF comm assoc n(1) len that] by (simp add: reduced_def)
  with out show ?thesis by (auto simp: rd_peer_less rd_peer_neq)
qed

text \<open>Four ranks, one element each.\<close>

theorem recursive_doubling_correct_witness:
  "\<exists>moves rs net'. (async_step (rd_protocol sum_u32_apply 4) list_transport ^^ moves)
      (async_init (rd_protocol sum_u32_apply 4) (\<lambda>r. [of_nat r]) []) (rs, net') \<and> rk_state (rs ! 3) = [6]"
proof -
  let ?P = "rd_protocol sum_u32_apply 4" and ?B = "\<lambda>r. [of_nat r :: u32]"
  let ?c = "async_init ?P ?B []" and ?S = "async_step ?P list_transport"
  have empty: "tr_empty list_transport []" by (simp add: tr_empty_def list_transport_def)
  have tz: "trailing_zeros 4 = 2" "is_power_of_two 4" by code_simp+
  have correct: "moves \<le> 16 \<and> ((\<nexists>c'. ?S (rs, net') c') \<longrightarrow> rk_state (rs ! 3) = [6])"
    if "(?S ^^ moves) ?c (rs, net')" for moves rs net'
    using recursive_doubling_correct[where n = 4 and l = 1 and B = ?B, OF _ _ tz(2) _ _ transport_ok_list empty that] tz(1)
    by (simp add: sum_u32_apply_def ac_simps fold1_def upt_rec)
  then have "\<And>k c. (?S ^^ k) ?c c \<Longrightarrow> k \<le> 16" by (metis prod.collapse)
  then obtain k rs net' where "(?S ^^ k) ?c (rs, net')" "\<nexists>c'. ?S (rs, net') c'"
    using relpowp_terminal[of ?S ?c 16] by (metis prod.collapse)
  with correct show ?thesis by blast
qed

end
