(* ===== verification/Am_Router.thy ===== *)
theory Am_Router
  imports Op Rounds
begin

section \<open>The active-message router (\<open>pluvio_collective/src/ucx_backend/am_router.rs\<close>)\<close>

text \<open>
  Headers, the table of receive slots, the dispatcher and the receive future. The slots are an
  association list in place of the \<open>HashMap\<close>; the raw target pointers of the source are addresses of
  an explicit memory, the shared \<open>Rc<Cell<bool>>\<close> flags are cells named by numbers, and waking a
  waker appends it to a log. \<open>debug_assert!\<close> is not compiled into a release build and has no
  effect here. Incoming messages are data of the UCX library: a message is its header, its length
  and the outcome of \<open>recv_data_single\<close> on a buffer.
\<close>

unbundle bit_operations_syntax

subsection \<open>Headers\<close>

record am_header =
  ah_src :: u16
  ah_step :: u16
  ah_phase :: u8
  ah_micro_chunk :: u8

definition AM_BYTES :: nat where
  "AM_BYTES = 8"

definition u16_to_le_bytes :: "u16 \<Rightarrow> u8 list" where
  "u16_to_le_bytes x = [ucast x, ucast (drop_bit 8 x)]"

definition u16_from_le_bytes :: "u8 \<Rightarrow> u8 \<Rightarrow> u16" where
  "u16_from_le_bytes lo hi = ucast lo OR push_bit 8 (ucast hi)"

definition am_encode :: "am_header \<Rightarrow> u8 list" where
  "am_encode h =
     u16_to_le_bytes (ah_src h) @ u16_to_le_bytes (ah_step h) @ [ah_phase h, ah_micro_chunk h] @ [0, 0]"

definition am_decode :: "u8 list \<Rightarrow> collective_error + am_header" where
  "am_decode bytes =
     (if length bytes < AM_BYTES then Inl (BadHeader (length bytes) AM_BYTES)
      else Inr \<lparr>ah_src = u16_from_le_bytes (bytes ! 0) (bytes ! 1),
                ah_step = u16_from_le_bytes (bytes ! 2) (bytes ! 3),
                ah_phase = bytes ! 4, ah_micro_chunk = bytes ! 5\<rparr>)"

record recv_key =
  rk_src :: u16
  rk_step :: u16
  rk_phase :: u8
  rk_micro_chunk :: u8

definition recv_key_from :: "am_header \<Rightarrow> recv_key" where
  "recv_key_from h = \<lparr>rk_src = ah_src h, rk_step = ah_step h, rk_phase = ah_phase h, rk_micro_chunk = ah_micro_chunk h\<rparr>"

subsection \<open>The router\<close>

record 'w pending_recv =
  pd_target :: nat
  pd_len :: nat
  pd_done :: nat
  pd_waker :: "'w option"

datatype 'w slot = SlotPending "'w pending_recv" | SlotEarly "u8 list"

record 'w am_router =
  ar_slots :: "(recv_key \<times> 'w slot) list"
  ar_mem :: "nat \<Rightarrow> u8"
  ar_done :: "nat \<Rightarrow> bool"
  ar_wakes :: "'w list"

definition copy_to :: "(nat \<Rightarrow> u8) \<Rightarrow> nat \<Rightarrow> u8 list \<Rightarrow> nat \<Rightarrow> u8" where
  "copy_to mem target bytes a = (if target \<le> a \<and> a < target + length bytes then bytes ! (a - target) else mem a)"

definition am_router_new :: "(nat \<Rightarrow> u8) \<Rightarrow> 'w am_router" where
  "am_router_new mem = \<lparr>ar_slots = [], ar_mem = mem, ar_done = \<lambda>_. False, ar_wakes = []\<rparr>"

definition take_early :: "recv_key \<Rightarrow> 'w am_router \<Rightarrow> u8 list option \<times> 'w am_router" where
  "take_early key w =
     (case map_of (ar_slots w) key of
        Some (SlotEarly bytes) \<Rightarrow> (Some bytes, w\<lparr>ar_slots := AList.delete key (ar_slots w)\<rparr>)
      | _ \<Rightarrow> (None, w))"

definition register_pending :: "recv_key \<Rightarrow> 'w pending_recv \<Rightarrow> 'w am_router \<Rightarrow> 'w am_router" where
  "register_pending key p w = w\<lparr>ar_slots := AList.update key (SlotPending p) (ar_slots w)\<rparr>"

definition update_waker :: "recv_key \<Rightarrow> 'w \<Rightarrow> 'w am_router \<Rightarrow> 'w am_router" where
  "update_waker key k w =
     (case map_of (ar_slots w) key of
        Some (SlotPending p) \<Rightarrow> w\<lparr>ar_slots := AList.update key (SlotPending (p\<lparr>pd_waker := Some k\<rparr>)) (ar_slots w)\<rparr>
      | _ \<Rightarrow> w)"

definition cancel_pending :: "recv_key \<Rightarrow> 'w am_router \<Rightarrow> 'w am_router" where
  "cancel_pending key w = w\<lparr>ar_slots := AList.delete key (ar_slots w)\<rparr>"

definition deliver :: "recv_key \<Rightarrow> u8 list \<Rightarrow> 'w am_router \<Rightarrow> 'w am_router" where
  "deliver key bytes w =
     (let rest = AList.delete key (ar_slots w)
      in case map_of (ar_slots w) key of
           Some (SlotPending p) \<Rightarrow>
             (let copy_len = min (length bytes) (pd_len p)
              in w\<lparr>ar_slots := rest,
                   ar_mem := copy_to (ar_mem w) (pd_target p) (take copy_len bytes),
                   ar_done := (ar_done w)(pd_done p := True),
                   ar_wakes := ar_wakes w @ (case pd_waker p of Some k \<Rightarrow> [k] | None \<Rightarrow> [])\<rparr>)
         | None \<Rightarrow> w\<lparr>ar_slots := AList.update key (SlotEarly bytes) rest\<rparr>
         | Some (SlotEarly _) \<Rightarrow> w\<lparr>ar_slots := rest\<rparr>)"

definition pending_count :: "'w am_router \<Rightarrow> nat" where
  "pending_count w = length (filter (\<lambda>(_, s). case s of SlotPending _ \<Rightarrow> True | SlotEarly _ \<Rightarrow> False) (ar_slots w))"

subsection \<open>The dispatcher\<close>

record am_msg =
  am_head :: "u8 list"
  am_data_len :: nat
  am_recv_data_single :: "u8 list \<Rightarrow> string + (nat \<times> u8 list)"

definition dispatch_msg :: "am_msg \<Rightarrow> 'w am_router \<Rightarrow> 'w am_router" where
  "dispatch_msg msg w =
     (case am_decode (am_head msg) of
        Inl _ \<Rightarrow> w
      | Inr header \<Rightarrow>
          (case am_recv_data_single msg (replicate (am_data_len msg) 0) of
             Inl _ \<Rightarrow> w
           | Inr (n, buf) \<Rightarrow> deliver (recv_key_from header) (take n buf) w))"

text \<open>The messages \<open>wait_msg\<close> yields until the stream closes.\<close>

fun dispatcher_loop :: "am_msg list \<Rightarrow> 'w am_router \<Rightarrow> 'w am_router" where
  "dispatcher_loop [] w = w"
| "dispatcher_loop (msg # stream) w = dispatcher_loop stream (dispatch_msg msg w)"

subsection \<open>The receive future\<close>

record recv_future =
  rf_key :: recv_key
  rf_done :: nat
  rf_registered :: bool
  rf_target :: nat
  rf_len :: nat

text \<open>\<open>done\<close> names the fresh cell that \<open>Rc::new(Cell::new(false))\<close> allocates.\<close>

definition recv_new :: "nat \<Rightarrow> recv_key \<Rightarrow> nat \<Rightarrow> nat \<Rightarrow> 'w am_router \<Rightarrow> recv_future \<times> 'w am_router" where
  "recv_new cell key target len w =
     (\<lparr>rf_key = key, rf_done = cell, rf_registered = False, rf_target = target, rf_len = len\<rparr>,
      w\<lparr>ar_done := (ar_done w)(cell := False)\<rparr>)"

definition recv_poll :: "'w \<Rightarrow> recv_future \<Rightarrow> 'w am_router \<Rightarrow> unit poll \<times> recv_future \<times> 'w am_router" where
  "recv_poll k f w =
     (if ar_done w (rf_done f) then (Ready (), f, w)
      else if \<not> rf_registered f then
        (case take_early (rf_key f) w of
           (Some bytes, w1) \<Rightarrow>
             (let copy_len = min (length bytes) (rf_len f)
              in (Ready (), f, w1\<lparr>ar_mem := copy_to (ar_mem w1) (rf_target f) (take copy_len bytes),
                                  ar_done := (ar_done w1)(rf_done f := True)\<rparr>))
         | (None, w1) \<Rightarrow>
             (Pending, f\<lparr>rf_registered := True\<rparr>,
              register_pending (rf_key f)
                \<lparr>pd_target = rf_target f, pd_len = rf_len f, pd_done = rf_done f, pd_waker = Some k\<rparr> w1))
      else (Pending, f, update_waker (rf_key f) k w))"

definition recv_drop :: "recv_future \<Rightarrow> 'w am_router \<Rightarrow> 'w am_router" where
  "recv_drop f w = (if rf_registered f \<and> \<not> ar_done w (rf_done f) then cancel_pending (rf_key f) w else w)"

text \<open>What a completed receive leaves in its target.\<close>

definition recv_into :: "'a list \<Rightarrow> 'a list \<Rightarrow> 'a list" where
  "recv_into buf msg = take (length buf) msg @ drop (length msg) buf"

lemma recv_into_eq [simp]: "length msg = length buf \<Longrightarrow> recv_into buf msg = msg"
  by (simp add: recv_into_def)

subsection \<open>Headers survive the wire\<close>

lemma u16_le_roundtrip: "u16_from_le_bytes (ucast x) (ucast (drop_bit 8 x)) = x"
  unfolding u16_from_le_bytes_def by (rule bit_word_eqI) (auto simp: bit_simps)

text \<open>
  A header is encoded in exactly 8 bytes and decodes to itself, whatever follows it;
  decoding fails exactly on fewer than 8 bytes, and the error names the length it got and 8.
\<close>

theorem am_header_roundtrip:
  fixes h :: am_header
  shows "length (am_encode h) = AM_BYTES \<and> am_decode (am_encode h @ rest) = Inr h \<and>
    (am_decode bytes = Inl e \<longleftrightarrow> length bytes < AM_BYTES \<and> e = BadHeader (length bytes) AM_BYTES)"
proof (intro conjI)
  show "length (am_encode h) = AM_BYTES" by (simp add: am_encode_def u16_to_le_bytes_def AM_BYTES_def)
  show "am_decode (am_encode h @ rest) = Inr h"
    by (simp add: am_decode_def am_encode_def u16_to_le_bytes_def AM_BYTES_def u16_le_roundtrip)
  show "am_decode bytes = Inl e \<longleftrightarrow> length bytes < AM_BYTES \<and> e = BadHeader (length bytes) AM_BYTES"
    by (auto simp: am_decode_def)
qed

subsection \<open>Histories\<close>

text \<open>
  The operations the dispatcher and the receive futures perform on one router, in any order. A future
  is named by its cell; dropping it ends the borrow of its target.
\<close>

datatype 'w router_op = RNew recv_key nat nat | RPoll nat 'w | RDrop nat | RDeliver recv_key "u8 list"

record 'w router_hist =
  rh_router :: "'w am_router"
  rh_futs :: "nat \<rightharpoonup> recv_future"
  rh_next :: nat

definition hist_new :: "(nat \<Rightarrow> u8) \<Rightarrow> 'w router_hist" where
  "hist_new mem = \<lparr>rh_router = am_router_new mem, rh_futs = Map.empty, rh_next = 0\<rparr>"

fun router_step :: "'w router_op \<Rightarrow> 'w router_hist \<Rightarrow> 'w router_hist" where
  "router_step (RNew key target len) h =
     (let (f, w) = recv_new (rh_next h) key target len (rh_router h)
      in h\<lparr>rh_router := w, rh_futs := (rh_futs h)(rh_next h \<mapsto> f), rh_next := Suc (rh_next h)\<rparr>)"
| "router_step (RPoll i k) h =
     (case rh_futs h i of None \<Rightarrow> h
      | Some f \<Rightarrow> (let (r, f', w) = recv_poll k f (rh_router h) in h\<lparr>rh_router := w, rh_futs := (rh_futs h)(i \<mapsto> f')\<rparr>))"
| "router_step (RDrop i) h =
     (case rh_futs h i of None \<Rightarrow> h
      | Some f \<Rightarrow> h\<lparr>rh_router := recv_drop f (rh_router h), rh_futs := (rh_futs h)(i := None)\<rparr>)"
| "router_step (RDeliver key bytes) h = h\<lparr>rh_router := deliver key bytes (rh_router h)\<rparr>"

abbreviation router_steps :: "'w router_op list \<Rightarrow> 'w router_hist \<Rightarrow> 'w router_hist" where
  "router_steps ops h \<equiv> fold router_step ops h"

abbreviation slot_of :: "'w router_hist \<Rightarrow> recv_key \<Rightarrow> 'w slot option" where
  "slot_of h \<equiv> map_of (ar_slots (rh_router h))"

abbreviation fut_done :: "'w router_hist \<Rightarrow> nat \<Rightarrow> bool" where
  "fut_done h \<equiv> ar_done (rh_router h)"

text \<open>A pending slot belongs to a live, registered, unfinished future for its key and has a waker.\<close>

definition slot_owned :: "'w router_hist \<Rightarrow> recv_key \<Rightarrow> 'w pending_recv \<Rightarrow> bool" where
  "slot_owned h key p \<longleftrightarrow> (\<exists>f. rh_futs h (pd_done p) = Some f \<and> rf_key f = key \<and> rf_registered f \<and>
     rf_target f = pd_target p \<and> rf_len f = pd_len p \<and> \<not> fut_done h (pd_done p) \<and> pd_waker p \<noteq> None)"

definition router_ok :: "'w router_hist \<Rightarrow> bool" where
  "router_ok h \<longleftrightarrow> distinct (map fst (ar_slots (rh_router h))) \<and>
     (\<forall>key p. slot_of h key = Some (SlotPending p) \<longrightarrow> slot_owned h key p) \<and>
     (\<forall>i f. rh_futs h i = Some f \<longrightarrow> rf_done f = i \<and> i < rh_next h)"

lemma router_okD:
  assumes "router_ok h"
  shows "distinct (map fst (ar_slots (rh_router h)))"
    and "slot_of h key = Some (SlotPending p) \<Longrightarrow> slot_owned h key p"
    and "rh_futs h i = Some f \<Longrightarrow> rf_done f = i \<and> i < rh_next h"
  using assms by (auto simp: router_ok_def)

lemma slots_delete [simp]: "distinct (map fst xs) \<Longrightarrow> map_of (AList.delete k xs) k' = (if k' = k then None else map_of xs k')"
  by (simp add: delete_conv)

lemma slots_update [simp]: "map_of (AList.update k v xs) k' = (if k' = k then Some v else map_of xs k')"
  by (simp add: update_conv)

declare distinct_update [simp] distinct_delete [simp] map_of_eq_Some_iff [simp del]

lemma router_ok_new: "router_ok (hist_new mem)"
  by (simp add: router_ok_def hist_new_def am_router_new_def)

lemma owner_unique:
  "slot_owned h key p \<Longrightarrow> slot_owned h key' p' \<Longrightarrow> pd_done p = pd_done p' \<Longrightarrow> key = key'"
  by (auto simp: slot_owned_def)

text \<open>The branches of a poll and of a delivery.\<close>

lemma recv_poll_done: "ar_done w (rf_done f) \<Longrightarrow> recv_poll k f w = (Ready (), f, w)"
  by (simp add: recv_poll_def)

lemma recv_poll_early:
  "\<not> ar_done w (rf_done f) \<Longrightarrow> \<not> rf_registered f \<Longrightarrow> map_of (ar_slots w) (rf_key f) = Some (SlotEarly bytes) \<Longrightarrow>
   recv_poll k f w = (Ready (), f, w\<lparr>ar_slots := AList.delete (rf_key f) (ar_slots w),
     ar_mem := copy_to (ar_mem w) (rf_target f) (take (rf_len f) bytes), ar_done := (ar_done w)(rf_done f := True)\<rparr>)"
  by (simp add: recv_poll_def take_early_def Let_def min_def)

lemma recv_poll_register:
  "\<not> ar_done w (rf_done f) \<Longrightarrow> \<not> rf_registered f \<Longrightarrow> \<nexists>bytes. map_of (ar_slots w) (rf_key f) = Some (SlotEarly bytes) \<Longrightarrow>
   recv_poll k f w = (Pending, f\<lparr>rf_registered := True\<rparr>, w\<lparr>ar_slots := AList.update (rf_key f)
     (SlotPending \<lparr>pd_target = rf_target f, pd_len = rf_len f, pd_done = rf_done f, pd_waker = Some k\<rparr>) (ar_slots w)\<rparr>)"
  by (auto simp: recv_poll_def take_early_def register_pending_def split: option.splits slot.splits)

lemma recv_poll_refresh:
  "\<not> ar_done w (rf_done f) \<Longrightarrow> rf_registered f \<Longrightarrow> map_of (ar_slots w) (rf_key f) = Some (SlotPending p) \<Longrightarrow>
   recv_poll k f w = (Pending, f, w\<lparr>ar_slots := AList.update (rf_key f) (SlotPending (p\<lparr>pd_waker := Some k\<rparr>)) (ar_slots w)\<rparr>)"
  by (simp add: recv_poll_def update_waker_def)

lemma recv_poll_stale:
  "\<not> ar_done w (rf_done f) \<Longrightarrow> rf_registered f \<Longrightarrow> \<nexists>p. map_of (ar_slots w) (rf_key f) = Some (SlotPending p) \<Longrightarrow>
   recv_poll k f w = (Pending, f, w)"
  by (auto simp: recv_poll_def update_waker_def split: option.splits slot.splits)

lemma deliver_pending:
  "map_of (ar_slots w) key = Some (SlotPending p) \<Longrightarrow>
   deliver key bytes w = w\<lparr>ar_slots := AList.delete key (ar_slots w),
     ar_mem := copy_to (ar_mem w) (pd_target p) (take (pd_len p) bytes), ar_done := (ar_done w)(pd_done p := True),
     ar_wakes := ar_wakes w @ (case pd_waker p of Some k \<Rightarrow> [k] | None \<Rightarrow> [])\<rparr>"
  by (simp add: deliver_def Let_def min_def)

lemma deliver_free:
  "map_of (ar_slots w) key = None \<Longrightarrow>
   deliver key bytes w = w\<lparr>ar_slots := AList.update key (SlotEarly bytes) (AList.delete key (ar_slots w))\<rparr>"
  by (simp add: deliver_def)

lemma deliver_early:
  "map_of (ar_slots w) key = Some (SlotEarly b) \<Longrightarrow> deliver key bytes w = w\<lparr>ar_slots := AList.delete key (ar_slots w)\<rparr>"
  by (simp add: deliver_def)

lemma recv_poll_branch:
  obtains (finished) "ar_done w (rf_done f)"
  | (early) bytes where "\<not> ar_done w (rf_done f)" "\<not> rf_registered f" "map_of (ar_slots w) (rf_key f) = Some (SlotEarly bytes)"
  | (register) "\<not> ar_done w (rf_done f)" "\<not> rf_registered f" "\<nexists>bytes. map_of (ar_slots w) (rf_key f) = Some (SlotEarly bytes)"
  | (refresh) p where "\<not> ar_done w (rf_done f)" "rf_registered f" "map_of (ar_slots w) (rf_key f) = Some (SlotPending p)"
  | (stale) "\<not> ar_done w (rf_done f)" "rf_registered f" "\<nexists>p. map_of (ar_slots w) (rf_key f) = Some (SlotPending p)"
  by blast

lemma deliver_branch:
  obtains (free) "map_of (ar_slots w) key = None"
  | (pending) p where "map_of (ar_slots w) key = Some (SlotPending p)"
  | (early) b where "map_of (ar_slots w) key = Some (SlotEarly b)"
  by (metis not_None_eq slot.exhaust)

lemma slot_ownedE:
  assumes "slot_owned h key p"
  obtains f where "rh_futs h (pd_done p) = Some f" "rf_key f = key" "rf_registered f" "rf_target f = pd_target p"
    "rf_len f = pd_len p" "\<not> fut_done h (pd_done p)" "pd_waker p \<noteq> None"
  using assms by (auto simp: slot_owned_def)

lemma router_okI:
  assumes "distinct (map fst (ar_slots (rh_router h)))"
    and "\<And>key p. slot_of h key = Some (SlotPending p) \<Longrightarrow> slot_owned h key p"
    and "\<And>i f. rh_futs h i = Some f \<Longrightarrow> rf_done f = i \<and> i < rh_next h"
  shows "router_ok h"
  using assms by (simp add: router_ok_def)

lemma router_ok_poll:
  assumes ok: "router_ok h" and f: "rh_futs h i = Some f"
  shows "router_ok (router_step (RPoll i k) h)"
proof -
  note D = router_okD[OF ok]
  have i: "rf_done f = i" "i < rh_next h" using D(3)[OF f] by simp_all
  show ?thesis
  proof (cases rule: recv_poll_branch[of "rh_router h" f])
    case finished
    then show ?thesis using ok f by (simp add: recv_poll_done fun_upd_idem)
  next
    case (early bytes)
    have own: "slot_owned h key p \<Longrightarrow> pd_done p \<noteq> i" for key p using early(2) f by (auto simp: slot_owned_def)
    show ?thesis
    proof (rule router_okI)
      fix key p assume "slot_of (router_step (RPoll i k) h) key = Some (SlotPending p)"
      with f early i D(1) show "slot_owned (router_step (RPoll i k) h) key p"
        using D(2)[of key p] own[of key p] by (auto simp: recv_poll_early slot_owned_def split: if_splits)
    qed (use f early i D in \<open>auto simp: recv_poll_early split: if_splits\<close>)
  next
    case register
    have own: "slot_owned h key p \<Longrightarrow> pd_done p \<noteq> i" for key p using register(2) f by (auto simp: slot_owned_def)
    show ?thesis
    proof (rule router_okI)
      fix key p assume "slot_of (router_step (RPoll i k) h) key = Some (SlotPending p)"
      with f register i show "slot_owned (router_step (RPoll i k) h) key p"
        using D(2)[of key p] own[of key p] by (auto simp: recv_poll_register slot_owned_def split: if_splits)
    qed (use f register i D in \<open>auto simp: recv_poll_register split: if_splits\<close>)
  next
    case (refresh p)
    show ?thesis
    proof (rule router_okI)
      fix key q assume "slot_of (router_step (RPoll i k) h) key = Some (SlotPending q)"
      then show "slot_owned (router_step (RPoll i k) h) key q"
        using f refresh i D(2)[of key] by (fastforce simp: recv_poll_refresh fun_upd_idem slot_owned_def split: if_splits)
    qed (use f refresh i D in \<open>auto simp: recv_poll_refresh split: if_splits\<close>)
  next
    case stale
    then show ?thesis using ok f by (simp add: recv_poll_stale fun_upd_idem)
  qed
qed

lemma router_ok_deliver:
  assumes ok: "router_ok h"
  shows "router_ok (router_step (RDeliver key bytes) h)"
proof -
  note D = router_okD[OF ok]
  show ?thesis
  proof (cases rule: deliver_branch[of "rh_router h" key])
    case free
    with D show ?thesis by (intro router_okI) (auto simp: deliver_free slot_owned_def split: if_splits)
  next
    case (pending p)
    have own: "slot_owned h key' p' \<Longrightarrow> key' \<noteq> key \<Longrightarrow> pd_done p' \<noteq> pd_done p" for key' p'
      using owner_unique[OF _ D(2)[OF pending]] by blast
    show ?thesis
    proof (rule router_okI)
      fix key' p' assume "slot_of (router_step (RDeliver key bytes) h) key' = Some (SlotPending p')"
      then show "slot_owned (router_step (RDeliver key bytes) h) key' p'"
        using pending D(1) D(2)[of key' p'] own[of key' p'] by (auto simp: deliver_pending slot_owned_def split: if_splits)
    qed (use pending D in \<open>auto simp: deliver_pending\<close>)
  next
    case (early b)
    with D show ?thesis by (intro router_okI) (auto simp: deliver_early slot_owned_def split: if_splits)
  qed
qed

lemma router_ok_new_recv:
  assumes ok: "router_ok h"
  shows "router_ok (router_step (RNew key target len) h)"
proof (rule router_okI)
  note D = router_okD[OF ok]
  let ?h = "router_step (RNew key target len) h"
  fix key' p assume "slot_of ?h key' = Some (SlotPending p)"
  then have "slot_owned h key' p" using D(2) by (simp add: recv_new_def)
  moreover from this have "pd_done p < rh_next h" using D(3) by (auto elim: slot_ownedE)
  ultimately show "slot_owned ?h key' p" by (auto simp: recv_new_def slot_owned_def)
qed (use router_okD[OF ok] in \<open>auto simp: recv_new_def less_Suc_eq split: if_splits\<close>)

lemma router_ok_drop:
  assumes ok: "router_ok h" and f: "rh_futs h i = Some f"
  shows "router_ok (router_step (RDrop i) h)"
proof (rule router_okI)
  note D = router_okD[OF ok]
  let ?h = "router_step (RDrop i) h"
  fix key p assume s: "slot_of ?h key = Some (SlotPending p)"
  then have old: "slot_of h key = Some (SlotPending p)"
    using f D(1) by (auto simp: recv_drop_def cancel_pending_def split: if_splits)
  obtain g where g: "rh_futs h (pd_done p) = Some g" "rf_key g = key" "rf_registered g" "\<not> fut_done h (pd_done p)"
    using D(2)[OF old] by (auto elim: slot_ownedE)
  have "pd_done p \<noteq> i" using s f g D(1) D(3)[OF f] by (auto simp: recv_drop_def cancel_pending_def split: if_splits)
  then show "slot_owned ?h key p" using D(2)[OF old] f by (auto simp: slot_owned_def recv_drop_def cancel_pending_def)
qed (use f router_okD[OF ok] in \<open>auto simp: recv_drop_def cancel_pending_def split: if_splits\<close>)

lemma router_ok_step:
  assumes ok: "router_ok h"
  shows "router_ok (router_step op h)"
proof (cases op)
  case (RNew key target len)
  then show ?thesis using router_ok_new_recv[OF ok] by simp
next
  case (RPoll i k)
  then show ?thesis using ok router_ok_poll[OF ok] by (cases "rh_futs h i") simp_all
next
  case (RDrop i)
  then show ?thesis using ok router_ok_drop[OF ok] by (cases "rh_futs h i") simp_all
next
  case (RDeliver key bytes)
  then show ?thesis using router_ok_deliver[OF ok] by simp
qed

lemma router_ok_steps: "router_ok h \<Longrightarrow> router_ok (router_steps ops h)"
  by (induction ops arbitrary: h) (simp_all add: router_ok_step)

subsection \<open>Memory safety\<close>

lemma copy_to_change: "copy_to m t bs a \<noteq> m a \<Longrightarrow> t \<le> a \<and> a < t + length bs"
  by (auto simp: copy_to_def split: if_splits)

lemma copy_to_take_change: "copy_to m t (take n bs) a \<noteq> m a \<Longrightarrow> t \<le> a \<and> a < t + n"
  using copy_to_change by fastforce

lemma write_in_live_target:
  assumes ok: "router_ok h" and a: "ar_mem (rh_router (router_step op h)) a \<noteq> ar_mem (rh_router h) a"
  shows "\<exists>i f. rh_futs h i = Some f \<and> \<not> fut_done h i \<and> rf_target f \<le> a \<and> a < rf_target f + rf_len f"
proof (cases op)
  case (RPoll i k)
  with a obtain f where f: "rh_futs h i = Some f" by (auto split: option.splits)
  have i: "rf_done f = i" using router_okD(3)[OF ok f] by simp
  show ?thesis
  proof (cases rule: recv_poll_branch[of "rh_router h" f])
    case (early bytes)
    then have "rf_target f \<le> a \<and> a < rf_target f + rf_len f"
      using a RPoll f by (intro copy_to_take_change[of "ar_mem (rh_router h)" _ _ bytes]) (simp add: recv_poll_early)
    with f early(1) i show ?thesis by auto
  qed (use a RPoll f in \<open>auto simp: recv_poll_done recv_poll_register recv_poll_refresh recv_poll_stale\<close>)
next
  case (RDeliver key bytes)
  show ?thesis
  proof (cases rule: deliver_branch[of "rh_router h" key])
    case (pending p)
    then have "pd_target p \<le> a \<and> a < pd_target p + pd_len p"
      using a RDeliver by (intro copy_to_take_change[of "ar_mem (rh_router h)" _ _ bytes]) (simp add: deliver_pending)
    with router_okD(2)[OF ok pending] show ?thesis by (metis slot_ownedE)
  qed (use a RDeliver in \<open>simp_all add: deliver_free deliver_early\<close>)
qed (use a in \<open>auto simp: recv_new_def recv_drop_def cancel_pending_def split: option.splits if_splits\<close>)

text \<open>
  C14 (safety). In every history of receive futures and deliveries on a router, with any keys and any
  message lengths, a pending slot belongs to a live future, and every byte an operation writes through
  a raw target pointer lies inside the target of a future that is alive and not yet complete: nothing
  is written past a target, after completion, or through a pointer whose future was dropped.
\<close>

theorem router_history_safe:
  fixes ops :: "'w router_op list"
  shows "\<forall>h a. h = router_steps ops (hist_new mem) \<longrightarrow>
    (\<forall>key p. slot_of h key = Some (SlotPending p) \<longrightarrow> slot_owned h key p) \<and>
    (ar_mem (rh_router (router_step op h)) a \<noteq> ar_mem (rh_router h) a \<longrightarrow>
      (\<exists>i f. rh_futs h i = Some f \<and> \<not> fut_done h i \<and> rf_target f \<le> a \<and> a < rf_target f + rf_len f))"
  using router_ok_steps[OF router_ok_new, of ops mem] router_okD(2) write_in_live_target by blast

definition demo_key :: recv_key where
  "demo_key = \<lparr>rk_src = 1, rk_step = 0, rk_phase = 2, rk_micro_chunk = 0\<rparr>"

text \<open>A message of three bytes arrives for a target of two: the second byte is written, into the target.\<close>

theorem router_history_safe_witness:
  "ar_mem (rh_router (router_step (RDeliver demo_key [7, 8, 9])
     (router_steps [RNew demo_key 10 2, RPoll 0 ''w''] (hist_new (\<lambda>_. 0))))) 11 = 8 \<and>
   (\<exists>i f. rh_futs (router_steps [RNew demo_key 10 2, RPoll 0 ''w''] (hist_new (\<lambda>_. 0))) i = Some f \<and>
      rf_target f \<le> 11 \<and> 11 < rf_target f + rf_len f)"
proof -
  let ?h = "router_steps [RNew demo_key 10 2, RPoll 0 ''w''] (hist_new (\<lambda>_. 0))"
  have w: "ar_mem (rh_router (router_step (RDeliver demo_key [7, 8, 9]) ?h)) 11 = 8" by code_simp
  have z: "ar_mem (rh_router ?h) 11 = 0" by code_simp
  have "ar_mem (rh_router (router_step (RDeliver demo_key [7, 8, 9]) ?h)) 11 \<noteq> ar_mem (rh_router ?h) 11"
    unfolding w z by simp
  then have "\<exists>i f. rh_futs ?h i = Some f \<and> \<not> fut_done ?h i \<and> rf_target f \<le> 11 \<and> 11 < rf_target f + rf_len f"
    using router_history_safe[of "[RNew demo_key 10 2, RPoll 0 ''w'']" "\<lambda>_. 0"] by blast
  with w show ?thesis by blast
qed

subsection \<open>Delivery\<close>

text \<open>
  A future that is alone on its key, and the operations that leave its key alone: polls (its own
  included), other receives, and messages and drops that concern other keys.
\<close>

definition sole :: "nat \<Rightarrow> recv_key \<Rightarrow> 'w router_hist \<Rightarrow> bool" where
  "sole i key h \<longleftrightarrow> (\<forall>j g. rh_futs h j = Some g \<longrightarrow> rf_key g = key \<longrightarrow> j = i)"

fun foreign :: "nat \<Rightarrow> recv_key \<Rightarrow> 'w router_op \<Rightarrow> bool" where
  "foreign i key (RNew key' t l) \<longleftrightarrow> key' \<noteq> key"
| "foreign i key (RPoll j k) \<longleftrightarrow> True"
| "foreign i key (RDrop j) \<longleftrightarrow> j \<noteq> i"
| "foreign i key (RDeliver key' bs) \<longleftrightarrow> key' \<noteq> key"

fun last_waker :: "nat \<Rightarrow> 'w \<Rightarrow> 'w router_op list \<Rightarrow> 'w" where
  "last_waker i k [] = k"
| "last_waker i k (RPoll j k' # ops) = last_waker i (if j = i then k' else k) ops"
| "last_waker i k (_ # ops) = last_waker i k ops"

definition waiting :: "nat \<Rightarrow> recv_future \<Rightarrow> 'w \<Rightarrow> 'w router_hist \<Rightarrow> bool" where
  "waiting i f k h \<longleftrightarrow> router_ok h \<and> sole i (rf_key f) h \<and> rh_futs h i = Some f \<and> rf_registered f \<and> \<not> fut_done h i \<and>
     slot_of h (rf_key f) = Some (SlotPending \<lparr>pd_target = rf_target f, pd_len = rf_len f, pd_done = i, pd_waker = Some k\<rparr>)"

lemma recv_poll_key: "rf_key (fst (snd (recv_poll k f w))) = rf_key f"
  by (cases rule: recv_poll_branch[of w f])
    (simp_all add: recv_poll_done recv_poll_early recv_poll_register recv_poll_refresh recv_poll_stale)

lemma sole_poll: "sole i key h \<Longrightarrow> sole i key (router_step (RPoll j k) h)"
proof (cases "rh_futs h j")
  case (Some f)
  obtain r f' w where p: "recv_poll k f (rh_router h) = (r, f', w)" by (metis surj_pair)
  with recv_poll_key[of k f "rh_router h"] have "rf_key f' = rf_key f" by simp
  moreover assume "sole i key h"
  ultimately show ?thesis using Some p by (auto simp: sole_def split: if_splits)
qed simp

lemma sole_step: "sole i key h \<Longrightarrow> foreign i key op \<Longrightarrow> sole i key (router_step op h)"
proof (cases op)
  case (RPoll j k)
  then show "sole i key h \<Longrightarrow> ?thesis" by (simp only: sole_poll)
qed (auto simp: sole_def recv_new_def split: option.splits if_splits)

lemma poll_other_key:
  assumes "recv_poll k g w = (r, g', w')" "distinct (map fst (ar_slots w))"
  shows "key \<noteq> rf_key g \<Longrightarrow> map_of (ar_slots w') key = map_of (ar_slots w) key"
    and "j \<noteq> rf_done g \<Longrightarrow> ar_done w' j = ar_done w j"
  using assms by (cases rule: recv_poll_branch[of w g];
    auto simp: recv_poll_done recv_poll_early recv_poll_register recv_poll_refresh recv_poll_stale)+

lemma deliver_other_key:
  assumes "distinct (map fst (ar_slots w))" "key' \<noteq> key"
  shows "map_of (ar_slots (deliver key bs w)) key' = map_of (ar_slots w) key'"
  using assms by (cases rule: deliver_branch[of w key]) (auto simp: deliver_free deliver_pending deliver_early)

lemma waiting_poll:
  assumes w: "waiting i f k h"
  shows "waiting i f (if j = i then k' else k) (router_step (RPoll j k') h)"
proof (cases "rh_futs h j")
  case None
  then show ?thesis using w by (auto simp: waiting_def)
next
  case (Some g)
  from w have ok: "router_ok h" and so: "sole i (rf_key f) h" and f: "rh_futs h i = Some f" "rf_registered f" "\<not> fut_done h i"
    and sl: "slot_of h (rf_key f) = Some (SlotPending \<lparr>pd_target = rf_target f, pd_len = rf_len f, pd_done = i, pd_waker = Some k\<rparr>)"
    by (auto simp: waiting_def)
  have ok': "router_ok (router_step (RPoll j k') h)" "sole i (rf_key f) (router_step (RPoll j k') h)"
    using router_ok_step[OF ok] sole_poll[OF so] by blast+
  have d: "rf_done f = i" "rf_done g = j" using router_okD(3)[OF ok] f(1) Some by auto
  show ?thesis
  proof (cases "j = i")
    case True
    then have "recv_poll k' f (rh_router h) = (Pending, f, (rh_router h)\<lparr>ar_slots := AList.update (rf_key f)
        (SlotPending \<lparr>pd_target = rf_target f, pd_len = rf_len f, pd_done = i, pd_waker = Some k'\<rparr>) (ar_slots (rh_router h))\<rparr>)"
      using recv_poll_refresh[OF _ f(2) sl] f(3) d by simp
    then show ?thesis using ok' f True unfolding waiting_def by (simp add: fun_upd_idem)
  next
    case False
    obtain r g' w' where p: "recv_poll k' g (rh_router h) = (r, g', w')" by (metis surj_pair)
    have "rf_key f \<noteq> rf_key g" using so Some False unfolding sole_def by metis
    with poll_other_key[OF p router_okD(1)[OF ok]] False d
    have "map_of (ar_slots w') (rf_key f) = slot_of h (rf_key f)" "ar_done w' i = fut_done h i" by auto
    then show ?thesis using ok' f sl False Some p unfolding waiting_def by simp
  qed
qed

lemma waiting_step:
  assumes w: "waiting i f k h" and op: "foreign i (rf_key f) op"
  shows "waiting i f (last_waker i k [op]) (router_step op h)"
proof (cases op)
  case (RPoll j k')
  then show ?thesis using waiting_poll[OF w] by simp
next
  case (RNew key t l)
  have "i < rh_next h" using w router_okD(3) by (auto simp: waiting_def)
  then show ?thesis using w RNew router_ok_step[of h op] sole_step[of i _ h op] op by (auto simp: waiting_def recv_new_def)
next
  case (RDrop j)
  have "rf_key g \<noteq> rf_key f" if "rh_futs h j = Some g" for g using that w RDrop op by (auto simp: waiting_def sole_def)
  then show ?thesis using w RDrop router_ok_step[of h op] sole_step[of i _ h op] op router_okD(1)[of h]
    by (auto simp: waiting_def recv_drop_def cancel_pending_def split: option.splits)
next
  case (RDeliver key bs)
  have key: "key \<noteq> rf_key f" using RDeliver op by simp
  from w have ok: "router_ok h"
    and sl: "slot_of h (rf_key f) = Some (SlotPending \<lparr>pd_target = rf_target f, pd_len = rf_len f, pd_done = i, pd_waker = Some k\<rparr>)"
    by (auto simp: waiting_def)
  have "ar_done (deliver key bs (rh_router h)) i = fut_done h i"
  proof (cases rule: deliver_branch[of "rh_router h" key])
    case (pending p)
    have "pd_done p \<noteq> i" using owner_unique[OF router_okD(2)[OF ok pending] router_okD(2)[OF ok sl]] key by auto
    with pending show ?thesis by (simp add: deliver_pending)
  qed (simp_all add: deliver_free deliver_early)
  with deliver_other_key[OF router_okD(1)[OF ok], of "rf_key f" key bs] key
  show ?thesis using w RDeliver router_ok_step[of h op] sole_step[of i _ h op] op by (auto simp: waiting_def)
qed

lemma last_waker_Cons: "last_waker i k (op # ops) = last_waker i (last_waker i k [op]) ops"
  by (cases op) simp_all

lemma waiting_steps:
  "waiting i f k h \<Longrightarrow> list_all (foreign i (rf_key f)) ops \<Longrightarrow> waiting i f (last_waker i k ops) (router_steps ops h)"
proof (induction ops arbitrary: k h)
  case (Cons op ops)
  then show ?case using waiting_step[of i f k h op] by (simp add: last_waker_Cons[of i k op ops])
qed simp

lemma read_copy: "length bs = n \<Longrightarrow> map (copy_to m t bs) [t..<t + n] = bs"
  by (rule nth_equalityI) (simp_all add: copy_to_def)

text \<open>
  C15 (liveness). A receive that is alone on its key gets the message sent to it, in both orders. Polled
  before the message it waits, whatever happens on other keys; the delivery wakes the waker of its last
  poll, fills its target, and its next poll is ready. A message that comes first is kept and the first
  poll is ready with the target filled.
\<close>

theorem recv_gets_message:
  assumes h: "h = router_steps hist (hist_new mem)" and f: "rh_futs h i = Some f" "\<not> rf_registered f" "\<not> fut_done h i"
    and alone: "sole i (rf_key f) h" "slot_of h (rf_key f) = None"
    and ops: "list_all (foreign i (rf_key f)) ops" and len: "length bytes = rf_len f"
  shows "(let h1 = router_step (RDeliver (rf_key f) bytes) (router_steps (RPoll i k # ops) h)
      in fst (recv_poll k f (rh_router h)) = Pending \<and>
         ar_wakes (rh_router h1) = ar_wakes (rh_router (router_steps (RPoll i k # ops) h)) @ [last_waker i k ops] \<and>
         map (ar_mem (rh_router h1)) [rf_target f..<rf_target f + rf_len f] = bytes \<and>
         (\<exists>g. rh_futs h1 i = Some g \<and> fst (recv_poll k' g (rh_router h1)) = Ready ())) \<and>
    (let h1 = router_step (RDeliver (rf_key f) bytes) h; (r, g, w) = recv_poll k f (rh_router h1)
      in r = Ready () \<and> map (ar_mem w) [rf_target f..<rf_target f + rf_len f] = bytes)"
proof -
  have ok: "router_ok h" using router_ok_steps[OF router_ok_new] h by blast
  have d: "rf_done f = i" using router_okD(3)[OF ok f(1)] by simp
  let ?f = "f\<lparr>rf_registered := True\<rparr>"
  have reg: "recv_poll k f (rh_router h) = (Pending, ?f, (rh_router h)\<lparr>ar_slots := AList.update (rf_key f)
      (SlotPending \<lparr>pd_target = rf_target f, pd_len = rf_len f, pd_done = i, pd_waker = Some k\<rparr>) (ar_slots (rh_router h))\<rparr>)"
    using recv_poll_register[of "rh_router h" f k] f d alone(2) by simp
  have "waiting i ?f k (router_step (RPoll i k) h)"
    using router_ok_step[OF ok, of "RPoll i k"] sole_poll[OF alone(1), of i k] f reg by (simp add: waiting_def)
  then have "waiting i ?f (last_waker i k ops) (router_steps (RPoll i k # ops) h)"
    using waiting_steps[of i ?f k _ ops] ops by simp
  then obtain h2 where h2: "h2 = router_steps (RPoll i k # ops) h" "rh_futs h2 i = Some ?f"
    "slot_of h2 (rf_key f) = Some (SlotPending \<lparr>pd_target = rf_target f, pd_len = rf_len f, pd_done = i, pd_waker = Some (last_waker i k ops)\<rparr>)"
    by (auto simp: waiting_def)
  have "let h1 = router_step (RDeliver (rf_key f) bytes) (router_steps (RPoll i k # ops) h)
      in fst (recv_poll k f (rh_router h)) = Pending \<and>
         ar_wakes (rh_router h1) = ar_wakes (rh_router (router_steps (RPoll i k # ops) h)) @ [last_waker i k ops] \<and>
         map (ar_mem (rh_router h1)) [rf_target f..<rf_target f + rf_len f] = bytes \<and>
         (\<exists>g. rh_futs h1 i = Some g \<and> fst (recv_poll k' g (rh_router h1)) = Ready ())"
    unfolding h2(1)[symmetric] Let_def using h2(2) deliver_pending[OF h2(3), of bytes] reg len d
    by (simp add: read_copy recv_poll_done)
  moreover
  have "recv_poll k f (deliver (rf_key f) bytes (rh_router h)) = (Ready (), f, (rh_router h)\<lparr>ar_slots := AList.delete (rf_key f)
      (AList.update (rf_key f) (SlotEarly bytes) (AList.delete (rf_key f) (ar_slots (rh_router h)))),
      ar_mem := copy_to (ar_mem (rh_router h)) (rf_target f) bytes, ar_done := (fut_done h)(i := True)\<rparr>)"
    using recv_poll_early[of "deliver (rf_key f) bytes (rh_router h)" f bytes k] f d len by (simp add: deliver_free[OF alone(2)])
  then have "let h1 = router_step (RDeliver (rf_key f) bytes) h; (r, g, w) = recv_poll k f (rh_router h1)
      in r = Ready () \<and> map (ar_mem w) [rf_target f..<rf_target f + rf_len f] = bytes"
    using len by (simp add: read_copy)
  ultimately show ?thesis by blast
qed

text \<open>A two-byte receive that is polled twice, while another receive is posted, before its message.\<close>

theorem recv_gets_message_witness:
  "ar_wakes (rh_router (router_steps [RNew demo_key 10 2, RPoll 0 ''a'', RNew (demo_key\<lparr>rk_step := 1\<rparr>) 20 2, RPoll 0 ''b'',
      RDeliver demo_key [7, 8]] (hist_new (\<lambda>_. 0)))) = [''b'']"
proof -
  let ?h = "router_steps [RNew demo_key 10 2] (hist_new (\<lambda>_. 0) :: string router_hist)"
  let ?f = "\<lparr>rf_key = demo_key, rf_done = 0, rf_registered = False, rf_target = 10, rf_len = 2\<rparr>"
  let ?ops = "[RNew (demo_key\<lparr>rk_step := 1\<rparr>) 20 2, RPoll 0 ''b'']"
  have f: "rh_futs ?h 0 = Some ?f" "\<not> fut_done ?h 0" "sole 0 demo_key ?h" "slot_of ?h demo_key = None"
    by (auto simp: hist_new_def am_router_new_def recv_new_def sole_def split: if_splits)
  have "list_all (foreign 0 demo_key) ?ops" by (simp add: demo_key_def)
  note m = recv_gets_message[where h = ?h and hist = "[RNew demo_key 10 2]" and mem = "\<lambda>_. 0" and f = ?f and i = 0
      and ops = ?ops and bytes = "[7, 8]" and k = "''a''" and k' = "''b''"]
  have "ar_wakes (rh_router (router_step (RDeliver demo_key [7, 8]) (router_steps (RPoll 0 ''a'' # ?ops) ?h))) =
      ar_wakes (rh_router (router_steps (RPoll 0 ''a'' # ?ops) ?h)) @ [last_waker 0 ''a'' ?ops]"
    using m f \<open>list_all (foreign 0 demo_key) ?ops\<close> unfolding Let_def by simp
  moreover have "ar_wakes (rh_router (router_steps (RPoll 0 ''a'' # ?ops) ?h)) = []" by code_simp
  ultimately show ?thesis by simp
qed

text \<open>
  Two messages with the same key that both arrive before their receive are both lost: the
  second finds the first in the slot, and the slot is emptied. A receive for the key then waits, and
  stays without a message until a third one is sent. (Two scatters or broadcasts in a row from the same
  root use the same keys.)
\<close>

theorem deliver_twice_loses:
  assumes "distinct (map fst (ar_slots w))" "map_of (ar_slots w) key = None"
    and "rf_key f = key" "\<not> rf_registered f" "\<not> ar_done w (rf_done f)"
  shows "map_of (ar_slots (deliver key bytes' (deliver key bytes w))) key = None \<and>
    fst (recv_poll k f (deliver key bytes' (deliver key bytes w))) = Pending"
proof -
  let ?w1 = "deliver key bytes w"
  have 1: "map_of (ar_slots ?w1) key = Some (SlotEarly bytes)" "distinct (map fst (ar_slots ?w1))" "ar_done ?w1 = ar_done w"
    using assms(1,2) by (simp_all add: deliver_free)
  then have 2: "map_of (ar_slots (deliver key bytes' ?w1)) key = None" "ar_done (deliver key bytes' ?w1) = ar_done w"
    by (simp_all add: deliver_early)
  with assms(3-5) recv_poll_register[of "deliver key bytes' ?w1" f k] show ?thesis by simp
qed

theorem deliver_twice_loses_witness:
  "map_of (ar_slots (deliver demo_key [2] (deliver demo_key [1] (am_router_new (\<lambda>_. 0) :: string am_router)))) demo_key = None"
  using deliver_twice_loses[of "am_router_new (\<lambda>_. 0) :: string am_router" demo_key
      "\<lparr>rf_key = demo_key, rf_done = 0, rf_registered = False, rf_target = 10, rf_len = 1\<rparr>" "[2]" "[1]"]
  by (simp add: am_router_new_def)

end
