(* ===== verification/Pipelined.thy ===== *)
theory Pipelined
  imports Ring Am_Router
begin

section \<open>Pipelined ring allreduce (\<open>ucx_backend/pipelined_ring.rs\<close>)\<close>

text \<open>
  Every chunk of the ring is cut into micro-chunks, and the steps of a phase run as one chain of
  send-and-receive rounds per micro-chunk. A rank pushes its chains one by one into a
  \<open>FuturesUnordered\<close>; once \<open>max_in_flight\<close> are pushed it awaits one completion after each push; a phase
  ends when all chains have been awaited. Chains only run while the rank awaits. A chain reads and
  writes the buffer of the rank through its slots. The theory shows that the chains never meet, that
  the windows of different ranks cannot block each other, and that the result is that of the plain ring.
\<close>

declare map_of_eq_Some_iff [simp del]

subsection \<open>The call\<close>

record pipeline_config =
  micro_chunks :: nat
  max_in_flight :: nat

definition pipeline_default :: pipeline_config where
  "pipeline_default = \<lparr>micro_chunks = 4, max_in_flight = 8\<rparr>"

text \<open>What a call that passes the checks works with; \<open>pl_default\<close> is \<open>T::default()\<close>.\<close>

record 'a pipe_call =
  pl_op :: "'a \<Rightarrow> 'a \<Rightarrow> 'a"
  pl_default :: 'a
  pl_n :: nat
  pl_config :: pipeline_config
  pl_chunk :: nat
  pl_micro :: nat

definition pipelined_ring ::
  "('a \<Rightarrow> 'a \<Rightarrow> 'a) \<Rightarrow> 'a \<Rightarrow> nat \<Rightarrow> nat \<Rightarrow> (nat \<Rightarrow> bool) \<Rightarrow> 'a list \<Rightarrow> pipeline_config \<Rightarrow>
   collective_error + 'a pipe_call option" where
  "pipelined_ring f d n rank has_endpoint buf config =
     (if n \<le> 1 then Inr None
      else if micro_chunks config = 0 \<or> max_in_flight config = 0
      then Inl (Protocol ''pipelined ring: micro_chunks and max_in_flight must be > 0'')
      else if micro_chunks config > 255
      then Inl (Protocol ''pipelined ring: micro_chunks > 255 (does not fit in AmHeader::micro_chunk)'')
      else if length buf mod n \<noteq> 0 then Inl BadShape
      else let chunk = length buf div n
           in if chunk mod micro_chunks config \<noteq> 0 then Inl BadShape
              else let micro_size = chunk div micro_chunks config; nxt = (rank + 1) mod n
                   in if \<not> has_endpoint nxt then Inl (Protocol ''no endpoint to next rank'')
                      else Inr (Some \<lparr>pl_op = f, pl_default = d, pl_n = n, pl_config = config,
                                      pl_chunk = chunk, pl_micro = micro_size\<rparr>))"

abbreviation pl_M :: "'a pipe_call \<Rightarrow> nat" where
  "pl_M p \<equiv> micro_chunks (pl_config p)"

abbreviation pl_F :: "'a pipe_call \<Rightarrow> nat" where
  "pl_F p \<equiv> max_in_flight (pl_config p)"

text \<open>A \<open>Slot\<close> is an offset into the buffer and a length; the table is flat.\<close>

definition pipe_slots :: "'a pipe_call \<Rightarrow> (nat \<times> nat) list" where
  "pipe_slots p =
     map (\<lambda>i. let chunk_idx = i div pl_M p; m = i mod pl_M p
              in (chunk_idx * pl_chunk p + m * pl_micro p, pl_micro p)) [0..<pl_n p * pl_M p]"

subsection \<open>One round of a chain\<close>

text \<open>The phase is 0 (reduce-scatter) or 1 (allgather).\<close>

definition chain_send_idx :: "nat \<Rightarrow> nat \<Rightarrow> nat \<Rightarrow> nat \<Rightarrow> nat" where
  "chain_send_idx n phase rank step = (if phase = 0 then (rank + n - step) mod n else (rank + n - step + 1) mod n)"

definition chain_recv_idx :: "nat \<Rightarrow> nat \<Rightarrow> nat \<Rightarrow> nat \<Rightarrow> nat" where
  "chain_recv_idx n phase rank step = (if phase = 0 then (rank + n - step - 1) mod n else (rank + n - step) mod n)"

definition chain_key :: "nat \<Rightarrow> nat \<Rightarrow> nat \<Rightarrow> nat \<Rightarrow> recv_key" where
  "chain_key src step phase m =
     recv_key_from \<lparr>ah_src = of_nat src, ah_step = of_nat step, ah_phase = of_nat phase, ah_micro_chunk = of_nat m\<rparr>"

definition chain_out :: "'a pipe_call \<Rightarrow> nat \<Rightarrow> nat \<Rightarrow> nat \<Rightarrow> nat \<Rightarrow> 'a list \<Rightarrow> 'a list" where
  "chain_out p phase rank step m buf =
     (case pipe_slots p ! (chain_send_idx (pl_n p) phase rank step * pl_M p + m) of (off, len) \<Rightarrow> slice off len buf)"

text \<open>What a chain does with a message: the new buffer and the new scratch buffer of the chain.\<close>

definition chain_upd :: "'a pipe_call \<Rightarrow> nat \<Rightarrow> nat \<Rightarrow> nat \<Rightarrow> nat \<Rightarrow> 'a list \<Rightarrow> 'a list \<Rightarrow> 'a list \<Rightarrow> 'a list \<times> 'a list" where
  "chain_upd p phase rank step m buf tmp msg =
     (case pipe_slots p ! (chain_recv_idx (pl_n p) phase rank step * pl_M p + m) of (off, len) \<Rightarrow>
        if phase = 0
        then let tmp = recv_into tmp msg
             in (write_slice off (reduce_in_place (pl_op p) (slice off len buf) tmp) buf, tmp)
        else (write_slice off (recv_into (slice off len buf) msg) buf, tmp))"

subsection \<open>The window of chains of a rank\<close>

record chain_st =
  ch_step :: nat
  ch_sent :: bool

text \<open>
  The chains pushed in the current phase, the completions awaited in it, and the phase (2: returned).
\<close>

record 'a pipe_st =
  pp_buf :: "'a list"
  pp_tmp :: "'a list list"
  pp_phase :: nat
  pp_chains :: "chain_st list"
  pp_taken :: nat

type_synonym ('a, 'n) pipe_conf = "'a pipe_st list \<times> 'n"

definition pipe_start :: "'a pipe_call \<Rightarrow> 'a list \<Rightarrow> 'a pipe_st" where
  "pipe_start p buf =
     \<lparr>pp_buf = buf, pp_tmp = replicate (pl_M p) (replicate (pl_micro p) (pl_default p)), pp_phase = 0, pp_chains = [], pp_taken = 0\<rparr>"

definition pipe_completed :: "'a pipe_call \<Rightarrow> 'a pipe_st \<Rightarrow> nat" where
  "pipe_completed p s = length (filter (\<lambda>ch. ch_step ch = pl_n p - 1) (pp_chains s))"

text \<open>
  The rank awaits \<open>chains.next()\<close>: after a push once \<open>launched\<close> has reached \<open>max_in_flight\<close>, until one more
  completion is taken, and after the last push.
\<close>

definition pipe_awaiting :: "'a pipe_call \<Rightarrow> 'a pipe_st \<Rightarrow> bool" where
  "pipe_awaiting p s =
     (let launched = length (pp_chains s)
      in launched = pl_M p \<or> launched \<ge> pl_F p \<and> pp_taken s < launched - pl_F p + 1)"

definition pipe_launch :: "'a pipe_call \<Rightarrow> 'a pipe_st \<Rightarrow> 'a pipe_st option" where
  "pipe_launch p s =
     (if pp_phase s < 2 \<and> \<not> pipe_awaiting p s
      then Some (s\<lparr>pp_chains := pp_chains s @ [\<lparr>ch_step = 0, ch_sent = False\<rparr>]\<rparr>) else None)"

definition pipe_take :: "'a pipe_call \<Rightarrow> 'a pipe_st \<Rightarrow> 'a pipe_st option" where
  "pipe_take p s =
     (if pp_phase s < 2 \<and> pipe_awaiting p s \<and> pp_taken s < pipe_completed p s
      then Some (s\<lparr>pp_taken := pp_taken s + 1\<rparr>) else None)"

text \<open>\<open>chains.next()\<close> answers \<open>None\<close>: the phase is over.\<close>

definition pipe_next_phase :: "'a pipe_call \<Rightarrow> 'a pipe_st \<Rightarrow> 'a pipe_st option" where
  "pipe_next_phase p s =
     (if pp_phase s < 2 \<and> length (pp_chains s) = pl_M p \<and> pp_taken s = pl_M p
      then Some (s\<lparr>pp_phase := pp_phase s + 1, pp_chains := [], pp_taken := 0\<rparr>) else None)"

definition pipe_send :: "'a pipe_call \<Rightarrow> ('n, 'a list, recv_key) transport \<Rightarrow> nat \<Rightarrow> nat \<Rightarrow> ('a, 'n) pipe_conf \<Rightarrow> ('a, 'n) pipe_conf option" where
  "pipe_send p T r m c =
     (case c of (rs, net) \<Rightarrow>
        let s = rs ! r; ch = pp_chains s ! m; step = ch_step ch
        in if r < length rs \<and> pp_phase s < 2 \<and> pipe_awaiting p s \<and> m < length (pp_chains s) \<and> step < pl_n p - 1 \<and> \<not> ch_sent ch
           then Some (rs[r := s\<lparr>pp_chains := (pp_chains s)[m := ch\<lparr>ch_sent := True\<rparr>]\<rparr>],
                      tr_send T net (ring_next (pl_n p) r) (chain_key r step (pp_phase s) m)
                        (chain_out p (pp_phase s) r step m (pp_buf s)))
           else None)"

definition pipe_recv :: "'a pipe_call \<Rightarrow> ('n, 'a list, recv_key) transport \<Rightarrow> nat \<Rightarrow> nat \<Rightarrow> ('a, 'n) pipe_conf \<Rightarrow> ('a, 'n) pipe_conf option" where
  "pipe_recv p T r m c =
     (case c of (rs, net) \<Rightarrow>
        let s = rs ! r; ch = pp_chains s ! m; step = ch_step ch
        in if r < length rs \<and> pp_phase s < 2 \<and> pipe_awaiting p s \<and> m < length (pp_chains s) \<and> step < pl_n p - 1 \<and> ch_sent ch
           then (case tr_recv T net r (chain_key (ring_prev (pl_n p) r) step (pp_phase s) m) of
                   None \<Rightarrow> None
                 | Some (msg, net') \<Rightarrow>
                     (case chain_upd p (pp_phase s) r step m (pp_buf s) (pp_tmp s ! m) msg of (buf, tmp) \<Rightarrow>
                        Some (rs[r := s\<lparr>pp_buf := buf, pp_tmp := (pp_tmp s)[m := tmp],
                                        pp_chains := (pp_chains s)[m := \<lparr>ch_step = Suc step, ch_sent = False\<rparr>]\<rparr>], net')))
           else None)"

inductive pipe_step ::
  "'a pipe_call \<Rightarrow> ('n, 'a list, recv_key) transport \<Rightarrow> ('a, 'n) pipe_conf \<Rightarrow> ('a, 'n) pipe_conf \<Rightarrow> bool" for p T where
  launch: "r < length rs \<Longrightarrow> pipe_launch p (rs ! r) = Some s \<Longrightarrow> pipe_step p T (rs, net) (rs[r := s], net)"
| take: "r < length rs \<Longrightarrow> pipe_take p (rs ! r) = Some s \<Longrightarrow> pipe_step p T (rs, net) (rs[r := s], net)"
| next_phase: "r < length rs \<Longrightarrow> pipe_next_phase p (rs ! r) = Some s \<Longrightarrow> pipe_step p T (rs, net) (rs[r := s], net)"
| send: "pipe_send p T r m c = Some c' \<Longrightarrow> pipe_step p T c c'"
| recv: "pipe_recv p T r m c = Some c' \<Longrightarrow> pipe_step p T c c'"

definition pipe_init :: "'a pipe_call \<Rightarrow> (nat \<Rightarrow> 'a list) \<Rightarrow> 'n \<Rightarrow> ('a, 'n) pipe_conf" where
  "pipe_init p B net = (map (\<lambda>r. pipe_start p (B r)) [0..<pl_n p], net)"

subsection \<open>The rows of the buffer\<close>

text \<open>The buffer of a chain: its micro-chunks, one of each chunk, one after the other.\<close>

definition pipe_row :: "'a pipe_call \<Rightarrow> nat \<Rightarrow> 'a list \<Rightarrow> 'a list" where
  "pipe_row p m buf = concat (map (\<lambda>c. chunk_at (pl_micro p) (c * pl_M p + m) buf) [0..<pl_n p])"

definition pipe_ok :: "'a pipe_call \<Rightarrow> bool" where
  "pipe_ok p \<longleftrightarrow> 2 \<le> pl_n p \<and> 0 < pl_M p \<and> pl_M p \<le> 255 \<and> 0 < pl_F p \<and> pl_chunk p = pl_M p * pl_micro p"

lemma pipelined_ring_ok:
  assumes "pipelined_ring f d n rank has_endpoint buf config = Inr (Some p)"
  shows "pipe_ok p \<and> pl_n p = n \<and> pl_op p = f \<and> pl_config p = config \<and> length buf = n * pl_chunk p"
  using assms by (auto simp: pipelined_ring_def pipe_ok_def Let_def mod_eq_0_iff_dvd split: if_splits)

lemma chunks_eqI:
  assumes "length xs = n * l" "length ys = n * l" "\<And>c. c < n \<Longrightarrow> chunk_at l c xs = chunk_at l c ys"
  shows "xs = ys"
proof -
  have "map (\<lambda>c. chunk_at l c xs) [0..<n] = map (\<lambda>c. chunk_at l c ys) [0..<n]" using assms(3) by simp
  then show ?thesis using chunks_concat[OF assms(1)] chunks_concat[OF assms(2)] by metis
qed

lemma block_less: "c < n \<Longrightarrow> m < M \<Longrightarrow> c * M + m < n * (M :: nat)"
  using chunk_bound[of c n M] by linarith

lemma block_eq: "m < M \<Longrightarrow> m' < M \<Longrightarrow> c * M + m = c' * M + m' \<longleftrightarrow> c = c' \<and> m = (m' :: nat)"
  by (metis add.commute div_mult_self1 div_less mod_mult_self1 mod_less less_nat_zero_code add_cancel_right_left)

lemma length_block:
  assumes "length buf = pl_n p * pl_M p * pl_micro p" "c < pl_n p" "m < pl_M p"
  shows "length (chunk_at (pl_micro p) (c * pl_M p + m) buf) = pl_micro p"
  using length_chunk_at[OF assms(1) block_less[OF assms(2,3)]] .

lemma length_row:
  assumes "length buf = pl_n p * pl_M p * pl_micro p" "m < pl_M p"
  shows "length (pipe_row p m buf) = pl_n p * pl_micro p"
  unfolding pipe_row_def by (rule length_concat_map) (use length_block[OF assms(1) _ assms(2)] in auto)

lemma chunk_at_row:
  assumes "length buf = pl_n p * pl_M p * pl_micro p" "m < pl_M p" "c < pl_n p"
  shows "chunk_at (pl_micro p) c (pipe_row p m buf) = chunk_at (pl_micro p) (c * pl_M p + m) buf"
  unfolding pipe_row_def by (rule chunk_at_concat) (use assms length_block in auto)

text \<open>A write to a slot of chain \<open>m\<close> is a write to its row and leaves the other rows alone.\<close>

lemma row_write:
  assumes buf: "length buf = pl_n p * pl_M p * pl_micro p" and m: "m < pl_M p" "m' < pl_M p" and c: "c < pl_n p"
    and v: "length v = pl_micro p"
  shows "pipe_row p m' (write_slice ((c * pl_M p + m) * pl_micro p) v buf) =
    (if m' = m then write_slice (c * pl_micro p) v (pipe_row p m buf) else pipe_row p m' buf)"
    and "length (write_slice ((c * pl_M p + m) * pl_micro p) v buf) = length buf"
proof -
  let ?w = "write_slice ((c * pl_M p + m) * pl_micro p) v buf"
  have b: "c * pl_M p + m < pl_n p * pl_M p" using block_less[OF c m(1)] .
  show len: "length ?w = length buf"
    using chunk_bound[OF b, of "pl_micro p"] v buf by (intro length_write_slice) (simp add: mult.assoc)
  note lw = len[unfolded buf] and lr = length_row[OF buf m(1)]
  have lv: "length (write_slice (c * pl_micro p) v (pipe_row p m buf)) = pl_n p * pl_micro p"
    using chunk_bound[OF c, of "pl_micro p"] v lr by (simp add: length_write_slice)
  show "pipe_row p m' ?w = (if m' = m then write_slice (c * pl_micro p) v (pipe_row p m buf) else pipe_row p m' buf)"
  proof (rule chunks_eqI[of _ "pl_n p" "pl_micro p"])
    show "length (pipe_row p m' ?w) = pl_n p * pl_micro p" using length_row[OF lw m(2)] .
    show "length (if m' = m then write_slice (c * pl_micro p) v (pipe_row p m buf) else pipe_row p m' buf) = pl_n p * pl_micro p"
      using lv length_row[OF buf m(2)] by simp
    fix d assume d: "d < pl_n p"
    show "chunk_at (pl_micro p) d (pipe_row p m' ?w) =
        chunk_at (pl_micro p) d (if m' = m then write_slice (c * pl_micro p) v (pipe_row p m buf) else pipe_row p m' buf)"
      using chunk_at_row[OF lw m(2) d] chunk_at_row[OF buf m(2) d] chunk_at_write[OF buf v block_less[OF d m(2)] b]
        chunk_at_write[OF lr v d c] block_eq[OF m(2,1), of d c] by auto
  qed
qed

lemma pipe_slot:
  assumes "pipe_ok p" "c < pl_n p" "m < pl_M p"
  shows "pipe_slots p ! (c * pl_M p + m) = ((c * pl_M p + m) * pl_micro p, pl_micro p)"
  using assms block_less[OF assms(2,3)] by (simp add: pipe_slots_def Let_def pipe_ok_def algebra_simps)

subsection \<open>A chain is a ring of its own\<close>

definition chain_protocol :: "'a pipe_call \<Rightarrow> nat \<Rightarrow> ('a list, 'a list, recv_key) protocol" where
  "chain_protocol p m =
     (let n = pl_n p
      in \<lparr>pr_size = n, pr_rounds = 2 * (n - 1),
          pr_out = ring_out n (pl_micro p),
          pr_next = \<lambda>k r. ring_next n r, pr_prev = \<lambda>k r. ring_prev n r,
          pr_stag = \<lambda>k r. chain_key r (ring_step n k) (if k < n - 1 then 0 else 1) m,
          pr_rtag = \<lambda>k r. chain_key (ring_prev n r) (ring_step n k) (if k < n - 1 then 0 else 1) m,
          pr_upd = ring_upd (pl_op p) n (pl_micro p)\<rparr>)"

lemma chain_protocol_simps [simp]:
  "pr_size (chain_protocol p m) = pl_n p" "pr_rounds (chain_protocol p m) = 2 * (pl_n p - 1)"
  "pr_out (chain_protocol p m) = ring_out (pl_n p) (pl_micro p)"
  "pr_upd (chain_protocol p m) = ring_upd (pl_op p) (pl_n p) (pl_micro p)"
  "pr_next (chain_protocol p m) k r = ring_next (pl_n p) r" "pr_prev (chain_protocol p m) k r = ring_prev (pl_n p) r"
  by (simp_all add: chain_protocol_def Let_def)

lemma chain_key_eq:
  assumes "src < 2 ^ 16" "src' < 2 ^ 16" "step < 2 ^ 16" "step' < 2 ^ 16" "phase < 2" "phase' < 2" "m \<le> 255" "m' \<le> 255"
  shows "chain_key src step phase m = chain_key src' step' phase' m' \<longleftrightarrow> src = src' \<and> step = step' \<and> phase = phase' \<and> m = m'"
proof -
  have u8: "(of_nat a :: u8) = of_nat b \<longleftrightarrow> a = b" if "a < 256" "b < 256" for a b :: nat
    using that by (auto simp: of_nat_inverse dest!: arg_cong[of _ _ unat])
  show ?thesis using assms u8[of phase phase'] u8[of m m'] u16_of_nat_inj[of src src'] u16_of_nat_inj[of step step']
    by (auto simp: chain_key_def recv_key_from_def)
qed

lemma chain_lockstep: "lockstep (chain_protocol p m) B k r = lockstep (ring_protocol (pl_op p) (pl_n p) (pl_micro p)) B k r"
  by (induction k arbitrary: r) (simp_all add: Let_def)

interpretation chain: tagged_rounds "chain_protocol p m"
proof
  let ?P = "chain_protocol p m"
  fix r k assume r: "r < pr_size ?P" "k < pr_rounds ?P"
  then have n: "2 \<le> pl_n p" by simp
  show "pr_next ?P k r < pr_size ?P \<and> pr_prev ?P k r < pr_size ?P" "pr_prev ?P k (pr_next ?P k r) = r"
    "pr_next ?P k (pr_prev ?P k r) = r" using r n ring_peers[of r "pl_n p"] by simp_all
  show "pr_rtag ?P k r = pr_stag ?P k (pr_prev ?P k r)" by (simp add: chain_protocol_def Let_def)
  fix r' k' assume small: "pr_size ?P \<le> 2 ^ 16" and r': "r' < pr_size ?P" "k' < pr_rounds ?P"
    and eq: "pr_stag ?P k r = pr_stag ?P k' r'"
  have st: "ring_step (pl_n p) k < 2 ^ 16" "ring_step (pl_n p) k' < 2 ^ 16" using r r' small by (auto simp: ring_step_def)
  have src: "(of_nat r :: u16) = of_nat r'" and step: "(of_nat (ring_step (pl_n p) k) :: u16) = of_nat (ring_step (pl_n p) k')"
    and ph: "ring_phase (pl_n p) k = ring_phase (pl_n p) k'"
    using eq by (auto simp: chain_protocol_def Let_def chain_key_def recv_key_from_def ring_phase_def split: if_splits)
  have "r = r'" using src r r' small u16_of_nat_inj[of r r'] by simp
  moreover have "k = k'" using ring_step_phase_inj[OF _ _ _ step ph] r r' small by simp
  ultimately show "k = k' \<and> r = r'" by simp
qed

subsection \<open>The view of a chain\<close>

definition chain_of :: "'a pipe_st \<Rightarrow> nat \<Rightarrow> chain_st" where
  "chain_of s m = (if m < length (pp_chains s) then pp_chains s ! m else \<lparr>ch_step = 0, ch_sent = False\<rparr>)"

definition chain_view :: "'a pipe_call \<Rightarrow> nat \<Rightarrow> 'a pipe_st \<Rightarrow> 'a list rank_st" where
  "chain_view p m s =
     \<lparr>rk_state = pipe_row p m (pp_buf s), rk_pc = pp_phase s * (pl_n p - 1) + ch_step (chain_of s m), rk_sent = ch_sent (chain_of s m)\<rparr>"

text \<open>The invariant of a rank.\<close>

definition pipe_wf :: "'a pipe_call \<Rightarrow> 'a pipe_st \<Rightarrow> bool" where
  "pipe_wf p s \<longleftrightarrow>
     length (pp_buf s) = pl_n p * pl_M p * pl_micro p \<and> length (pp_tmp s) = pl_M p \<and> (\<forall>t \<in> set (pp_tmp s). length t = pl_micro p) \<and>
     pp_phase s \<le> 2 \<and> (pp_phase s = 2 \<longrightarrow> pp_chains s = []) \<and> length (pp_chains s) \<le> pl_M p \<and>
     (\<forall>ch \<in> set (pp_chains s). ch_step ch \<le> pl_n p - 1 \<and> (ch_sent ch \<longrightarrow> ch_step ch < pl_n p - 1)) \<and>
     pp_taken s \<le> pipe_completed p s \<and> length (pp_chains s) \<le> pp_taken s + pl_F p"

lemma pipe_start_wf: "pipe_ok p \<Longrightarrow> length buf = pl_n p * pl_chunk p \<Longrightarrow> pipe_wf p (pipe_start p buf)"
  by (simp add: pipe_wf_def pipe_start_def pipe_ok_def pipe_completed_def mult.assoc)

lemma completed_le: "pipe_completed p s \<le> length (pp_chains s)"
  by (simp add: pipe_completed_def)

lemma phase_round:
  assumes "step < n - 1" "phase < 2"
  shows "phase * (n - 1) + step < 2 * (n - 1)" "ring_step n (phase * (n - 1) + step) = step"
    "(if phase * (n - 1) + step < n - 1 then 0 else 1) = phase"
    "ring_send_idx n (phase * (n - 1) + step) r = chain_send_idx n phase r step"
    "ring_recv_idx n (phase * (n - 1) + step) r = chain_recv_idx n phase r step"
    "phase * (n - 1) + step < n - 1 \<longleftrightarrow> phase = 0"
proof -
  consider "phase = 0" | "phase = 1" using assms(2) by linarith
  then have "phase * (n - 1) + step < 2 * (n - 1) \<and> ring_step n (phase * (n - 1) + step) = step \<and>
    (if phase * (n - 1) + step < n - 1 then 0 else 1) = phase \<and>
    ring_send_idx n (phase * (n - 1) + step) r = chain_send_idx n phase r step \<and>
    ring_recv_idx n (phase * (n - 1) + step) r = chain_recv_idx n phase r step \<and>
    (phase * (n - 1) + step < n - 1 \<longleftrightarrow> phase = 0)"
    by cases (use assms(1) in \<open>auto simp: ring_step_def ring_send_idx_def ring_recv_idx_def chain_send_idx_def chain_recv_idx_def\<close>)
  then show "phase * (n - 1) + step < 2 * (n - 1)" "ring_step n (phase * (n - 1) + step) = step"
    "(if phase * (n - 1) + step < n - 1 then 0 else 1) = phase"
    "ring_send_idx n (phase * (n - 1) + step) r = chain_send_idx n phase r step"
    "ring_recv_idx n (phase * (n - 1) + step) r = chain_recv_idx n phase r step"
    "phase * (n - 1) + step < n - 1 \<longleftrightarrow> phase = 0" by blast+
qed

lemma chain_idx_less: "0 < n \<Longrightarrow> chain_send_idx n phase r step < n" "0 < n \<Longrightarrow> chain_recv_idx n phase r step < n"
  by (simp_all add: chain_send_idx_def chain_recv_idx_def)

lemma chain_out_view:
  assumes p: "pipe_ok p" and buf: "length buf = pl_n p * pl_M p * pl_micro p" and m: "m < pl_M p" and k: "step < pl_n p - 1" "phase < 2"
  shows "chain_out p phase r step m buf = ring_out (pl_n p) (pl_micro p) (phase * (pl_n p - 1) + step) r (pipe_row p m buf)"
proof -
  have c: "chain_send_idx (pl_n p) phase r step < pl_n p" using p by (intro chain_idx_less) (auto simp: pipe_ok_def)
  show ?thesis using pipe_slot[OF p c m] chunk_at_row[OF buf m c] phase_round[OF k] by (simp add: chain_out_def ring_out_def)
qed

lemma chain_upd_view:
  assumes p: "pipe_ok p" and buf: "length buf = pl_n p * pl_M p * pl_micro p" and m: "m < pl_M p" and k: "step < pl_n p - 1" "phase < 2"
    and msg: "length msg = pl_micro p" "length tmp = pl_micro p"
    and upd: "chain_upd p phase r step m buf tmp msg = (buf', tmp')"
  shows "length buf' = length buf" "length tmp' = pl_micro p"
    and "m' < pl_M p \<Longrightarrow> pipe_row p m' buf' = (if m' = m
      then ring_upd (pl_op p) (pl_n p) (pl_micro p) (phase * (pl_n p - 1) + step) r (pipe_row p m buf) msg else pipe_row p m' buf)"
proof -
  let ?c = "chain_recv_idx (pl_n p) phase r step"
  have c: "?c < pl_n p" using p by (intro chain_idx_less) (auto simp: pipe_ok_def)
  let ?old = "chunk_at (pl_micro p) (?c * pl_M p + m) buf"
  let ?v = "if phase = 0 then reduce_in_place (pl_op p) ?old msg else msg"
  have old: "length ?old = pl_micro p" using length_block[OF buf c m] .
  then have v: "length ?v = pl_micro p" using msg reduce_in_place_eq[of ?old msg "pl_op p"] by (cases "phase = 0") simp_all
  have u: "buf' = write_slice ((?c * pl_M p + m) * pl_micro p) ?v buf" "tmp' = (if phase = 0 then msg else tmp)"
    using upd pipe_slot[OF p c m] msg old by (auto simp: chain_upd_def Let_def split: if_splits)
  have ru: "ring_upd (pl_op p) (pl_n p) (pl_micro p) (phase * (pl_n p - 1) + step) r (pipe_row p m buf) msg =
      write_slice (?c * pl_micro p) ?v (pipe_row p m buf)"
    using phase_round[OF k] chunk_at_row[OF buf m c] by (cases "phase = 0") (simp_all add: ring_upd_def Let_def)
  show "length buf' = length buf" using row_write(2)[OF buf m m c v] u(1) by simp
  show "length tmp' = pl_micro p" using u(2) msg by simp
  show "pipe_row p m' buf' = (if m' = m
      then ring_upd (pl_op p) (pl_n p) (pl_micro p) (phase * (pl_n p - 1) + step) r (pipe_row p m buf) msg else pipe_row p m' buf)"
    if "m' < pl_M p"
    unfolding ru u(1) by (rule row_write(1)[OF buf m that c v])
qed

subsection \<open>Moves of the pipeline are moves of a chain\<close>

lemma chain_view_simps [simp]:
  "rk_state (chain_view p m s) = pipe_row p m (pp_buf s)" "rk_sent (chain_view p m s) = ch_sent (chain_of s m)"
  "rk_pc (chain_view p m s) = pp_phase s * (pl_n p - 1) + ch_step (chain_of s m)"
  by (simp_all add: chain_view_def)

lemma map_chain_update:
  "r < length rs \<Longrightarrow> chain_view p m s = chain_view p m (rs ! r) \<Longrightarrow> map (chain_view p m) (rs[r := s]) = map (chain_view p m) rs"
  by (metis length_map list_update_id map_update nth_map)

lemma control_views:
  assumes "pipe_launch p s = Some s' \<or> pipe_take p s = Some s' \<or> pipe_next_phase p s = Some s'" "pipe_wf p s" "pipe_ok p" "m < pl_M p"
  shows "chain_view p m s' = chain_view p m s"
  using assms(1)
proof (elim disjE)
  assume "pipe_next_phase p s = Some s'"
  then have s': "length (pp_chains s) = pl_M p" "pp_taken s = pl_M p" "s' = s\<lparr>pp_phase := pp_phase s + 1, pp_chains := [], pp_taken := 0\<rparr>"
    by (auto simp: pipe_next_phase_def split: if_splits)
  have "pipe_completed p s = length (pp_chains s)"
    using assms(2) s'(1,2) completed_le[of p s] by (simp add: pipe_wf_def)
  then have "\<forall>ch \<in> set (pp_chains s). ch_step ch = pl_n p - 1"
    unfolding pipe_completed_def by (metis (mono_tags, lifting) length_filter_less less_irrefl)
  then have all: "ch_step (pp_chains s ! m) = pl_n p - 1" using s'(1) assms(4) by simp
  moreover have "\<not> ch_sent (pp_chains s ! m)" using assms(2,4) s'(1) all by (auto simp: pipe_wf_def dest!: bspec[of _ _ "pp_chains s ! m"])
  ultimately show ?thesis using s' assms(4) by (simp add: chain_view_def chain_of_def)
qed (auto simp: pipe_launch_def pipe_take_def chain_view_def chain_of_def nth_append split: if_splits)

lemma ring_lockstep_length:
  assumes "\<And>r. r < n \<Longrightarrow> length (B r) = n * l" "2 \<le> n" "k \<le> 2 * (n - 1)" "r < n"
  shows "length (lockstep (ring_protocol f n l) B k r) = n * l"
proof (cases "k \<le> n - 1")
  case True
  then show ?thesis using reduce_scatter_inv[of n B l k r f] assms by blast
next
  case False
  then have "k = n - 1 + (k - (n - 1))" "k - (n - 1) \<le> n - 1" using assms(3) by auto
  then show ?thesis using allgather_inv[of n B l "k - (n - 1)" r f] assms by metis
qed

definition pipe_inv :: "'a pipe_call \<Rightarrow> ('n, 'a list, recv_key) transport \<Rightarrow> (nat \<Rightarrow> 'a list) \<Rightarrow> ('a, 'n) pipe_conf \<Rightarrow> bool" where
  "pipe_inv p T B c \<longleftrightarrow> (case c of (rs, net) \<Rightarrow>
     length rs = pl_n p \<and> (\<forall>r < pl_n p. pipe_wf p (rs ! r)) \<and> tr_inv T net \<and>
     (\<forall>m < pl_M p. tagged_rounds.async_inv (chain_protocol p m) T (\<lambda>r. pipe_row p m (B r)) (map (chain_view p m) rs, net)))"

lemma pipe_invD:
  assumes "pipe_inv p T B (rs, net)"
  shows "length rs = pl_n p" "r < pl_n p \<Longrightarrow> pipe_wf p (rs ! r)" "tr_inv T net"
    "m < pl_M p \<Longrightarrow> tagged_rounds.async_inv (chain_protocol p m) T (\<lambda>r. pipe_row p m (B r)) (map (chain_view p m) rs, net)"
  using assms by (auto simp: pipe_inv_def)

lemma pipe_wfD:
  assumes "pipe_wf p s"
  shows "length (pp_buf s) = pl_n p * pl_M p * pl_micro p" "length (pp_tmp s) = pl_M p"
    "m < pl_M p \<Longrightarrow> length (pp_tmp s ! m) = pl_micro p" "pp_phase s \<le> 2" "length (pp_chains s) \<le> pl_M p"
    "m < length (pp_chains s) \<Longrightarrow> ch_step (pp_chains s ! m) \<le> pl_n p - 1"
    "pp_taken s \<le> pipe_completed p s" "length (pp_chains s) \<le> pp_taken s + pl_F p"
  using assms by (auto simp: pipe_wf_def)

lemma pipe_sendE:
  assumes "pipe_send p T r m (rs, net) = Some c'"
  obtains "r < length rs" "pp_phase (rs ! r) < 2" "pipe_awaiting p (rs ! r)" "m < length (pp_chains (rs ! r))"
    "ch_step (pp_chains (rs ! r) ! m) < pl_n p - 1" "\<not> ch_sent (pp_chains (rs ! r) ! m)"
    "c' = (rs[r := (rs ! r)\<lparr>pp_chains := (pp_chains (rs ! r))[m := (pp_chains (rs ! r) ! m)\<lparr>ch_sent := True\<rparr>]\<rparr>],
       tr_send T net (ring_next (pl_n p) r) (chain_key r (ch_step (pp_chains (rs ! r) ! m)) (pp_phase (rs ! r)) m)
         (chain_out p (pp_phase (rs ! r)) r (ch_step (pp_chains (rs ! r) ! m)) m (pp_buf (rs ! r))))"
  using assms by (auto simp: pipe_send_def Let_def split: if_splits)

lemma pipe_recvE:
  assumes "pipe_recv p T r m (rs, net) = Some c'"
  obtains msg net' buf tmp where "r < length rs" "pp_phase (rs ! r) < 2" "pipe_awaiting p (rs ! r)" "m < length (pp_chains (rs ! r))"
    "ch_step (pp_chains (rs ! r) ! m) < pl_n p - 1" "ch_sent (pp_chains (rs ! r) ! m)"
    "tr_recv T net r (chain_key (ring_prev (pl_n p) r) (ch_step (pp_chains (rs ! r) ! m)) (pp_phase (rs ! r)) m) = Some (msg, net')"
    "chain_upd p (pp_phase (rs ! r)) r (ch_step (pp_chains (rs ! r) ! m)) m (pp_buf (rs ! r)) (pp_tmp (rs ! r) ! m) msg = (buf, tmp)"
    "c' = (rs[r := (rs ! r)\<lparr>pp_buf := buf, pp_tmp := (pp_tmp (rs ! r))[m := tmp],
       pp_chains := (pp_chains (rs ! r))[m := \<lparr>ch_step = Suc (ch_step (pp_chains (rs ! r) ! m)), ch_sent = False\<rparr>]\<rparr>], net')"
  using assms by (auto simp: pipe_recv_def Let_def split: if_splits option.splits prod.splits)

lemma chain_tags:
  assumes "step < pl_n p - 1" "phase < 2"
  shows "pr_stag (chain_protocol p m) (phase * (pl_n p - 1) + step) r = chain_key r step phase m"
    "pr_rtag (chain_protocol p m) (phase * (pl_n p - 1) + step) r = chain_key (ring_prev (pl_n p) r) step phase m"
  using phase_round(2,3)[OF assms] by (simp_all add: chain_protocol_def Let_def)

text \<open>The tags of different chains differ.\<close>

lemma chain_tag_other:
  assumes "m \<noteq> m'" "m < pl_M p" "m' < pl_M p" "pipe_ok p"
  shows "pr_stag (chain_protocol p m') k r \<noteq> chain_key src step phase m"
proof -
  have "(of_nat m :: u8) \<noteq> of_nat m'" using assms by (auto simp: pipe_ok_def of_nat_inverse dest!: arg_cong[of _ _ unat])
  then show ?thesis by (auto simp: chain_protocol_def Let_def chain_key_def recv_key_from_def)
qed

subsection \<open>The invariant is kept\<close>

lemma completed_same:
  assumes "m < length chs" "ch_step ch = ch_step (chs ! m)"
  shows "length (filter (\<lambda>ch. ch_step ch = k) (chs[m := ch])) = length (filter (\<lambda>ch. ch_step ch = k) chs)"
proof -
  have "map ch_step (chs[m := ch]) = map ch_step chs" using assms by (metis list_update_id map_update nth_map length_map)
  moreover have "length (filter (\<lambda>ch. ch_step ch = k) xs) = length (filter (\<lambda>x. x = k) (map ch_step xs))" for xs
    by (induction xs) auto
  ultimately show ?thesis by metis
qed

lemma completed_mono:
  assumes "m < length chs" "ch_step (chs ! m) \<noteq> k"
  shows "length (filter (\<lambda>ch. ch_step ch = k) chs) \<le> length (filter (\<lambda>ch. ch_step ch = k) (chs[m := ch]))"
  using assms by (induction chs arbitrary: m) (auto simp: nth_Cons split: nat.splits)

lemma wf_send:
  assumes wf: "pipe_wf p s" and "m < length (pp_chains s)" "ch_step (pp_chains s ! m) < pl_n p - 1"
  shows "pipe_wf p (s\<lparr>pp_chains := (pp_chains s)[m := (pp_chains s ! m)\<lparr>ch_sent := True\<rparr>]\<rparr>)"
  using assms completed_same[OF assms(2), of "(pp_chains s ! m)\<lparr>ch_sent := True\<rparr>" "pl_n p - 1"]
  by (auto simp: pipe_wf_def pipe_completed_def dest: set_update_subset_insert[THEN subsetD])

lemma wf_recv:
  assumes wf: "pipe_wf p s" and m: "m < length (pp_chains s)" "ch_step (pp_chains s ! m) < pl_n p - 1"
    and "length buf = length (pp_buf s)" "length tmp = pl_micro p"
  shows "pipe_wf p (s\<lparr>pp_buf := buf, pp_tmp := (pp_tmp s)[m := tmp],
    pp_chains := (pp_chains s)[m := \<lparr>ch_step = Suc (ch_step (pp_chains s ! m)), ch_sent = False\<rparr>]\<rparr>)"
  using assms completed_mono[OF m(1), of "pl_n p - 1" "\<lparr>ch_step = Suc (ch_step (pp_chains s ! m)), ch_sent = False\<rparr>"]
  by (auto simp: pipe_wf_def pipe_completed_def dest: set_update_subset_insert[THEN subsetD])

lemma wf_control:
  assumes "pipe_launch p s = Some s' \<or> pipe_take p s = Some s' \<or> pipe_next_phase p s = Some s'" "pipe_wf p s" "pipe_ok p"
  shows "pipe_wf p s'"
  using assms(1)
proof (elim disjE)
  assume "pipe_launch p s = Some s'"
  then show ?thesis using assms(2,3)
    by (auto simp: pipe_launch_def pipe_awaiting_def pipe_wf_def pipe_completed_def Let_def split: if_splits)
next
  assume "pipe_take p s = Some s'"
  then show ?thesis using assms(2) by (auto simp: pipe_take_def pipe_wf_def pipe_completed_def split: if_splits)
next
  assume "pipe_next_phase p s = Some s'"
  then show ?thesis using assms(2) by (auto simp: pipe_next_phase_def pipe_wf_def pipe_completed_def split: if_splits)
qed

lemma pipe_invI:
  assumes "pipe_inv p T B (rs, net)" "pipe_wf p s" "tr_inv T net'"
    "\<And>m. m < pl_M p \<Longrightarrow> tagged_rounds.async_inv (chain_protocol p m) T (\<lambda>r. pipe_row p m (B r)) (map (chain_view p m) (rs[r := s]), net')"
  shows "pipe_inv p T B (rs[r := s], net')"
proof -
  note D = pipe_invD[OF assms(1)]
  have "pipe_wf p (rs[r := s] ! i)" if "i < pl_n p" for i using D(1,2) assms(2) that by (cases "i = r") simp_all
  then show ?thesis using D(1) assms(3,4) by (simp add: pipe_inv_def)
qed

lemma inv_control:
  assumes p: "pipe_ok p" and inv: "pipe_inv p T B (rs, net)" and r: "r < length rs"
    and c: "pipe_launch p (rs ! r) = Some s \<or> pipe_take p (rs ! r) = Some s \<or> pipe_next_phase p (rs ! r) = Some s"
  shows "pipe_inv p T B (rs[r := s], net)"
proof (rule pipe_invI[OF inv])
  note D = pipe_invD[OF inv]
  have wf: "pipe_wf p (rs ! r)" using D(1,2) r by simp
  show "pipe_wf p s" by (rule wf_control[OF c wf p])
  show "tagged_rounds.async_inv (chain_protocol p m) T (\<lambda>r. pipe_row p m (B r)) (map (chain_view p m) (rs[r := s]), net)" if "m < pl_M p" for m
    using D(4)[OF that] map_chain_update[OF r control_views[OF c wf p that]] by simp
qed (use pipe_invD[OF inv] in simp)

lemma view_send:
  assumes p: "pipe_ok p" and inv: "pipe_inv p T B (rs, net)" and step: "pipe_send p T r m (rs, net) = Some (rs', net')"
  shows "rank_send (chain_protocol p m) T r (map (chain_view p m) rs, net) = Some (map (chain_view p m) rs', net')"
  using step
proof (cases rule: pipe_sendE)
  case 1
  note D = pipe_invD[OF inv]
  have wf: "pipe_wf p (rs ! r)" using D(1,2) 1(1) by simp
  have m: "m < pl_M p" using pipe_wfD(5)[OF wf] 1(4) by simp
  have ch: "chain_of (rs ! r) m = pp_chains (rs ! r) ! m" using 1(4) by (simp add: chain_of_def)
  have "chain_view p m ((rs ! r)\<lparr>pp_chains := (pp_chains (rs ! r))[m := (pp_chains (rs ! r) ! m)\<lparr>ch_sent := True\<rparr>]\<rparr>) =
      (chain_view p m (rs ! r))\<lparr>rk_sent := True\<rparr>"
    using 1(4) by (simp add: chain_view_def chain_of_def)
  then show ?thesis
    using 1 phase_round(1)[OF 1(5,2)] chain_tags[OF 1(5,2)] chain_out_view[OF p pipe_wfD(1)[OF wf] m 1(5,2)]
    by (simp add: rank_send_def Let_def ch map_update)
qed

lemma view_recv:
  assumes p: "pipe_ok p" and inv: "pipe_inv p T B (rs, net)" and T: "transport_ok T"
    and B: "\<forall>r < pl_n p. length (B r) = pl_n p * pl_M p * pl_micro p"
    and step: "pipe_recv p T r m (rs, net) = Some (rs', net')"
  shows "rank_recv (chain_protocol p m) T r (map (chain_view p m) rs, net) = Some (map (chain_view p m) rs', net')"
    and "m' < pl_M p \<Longrightarrow> m' \<noteq> m \<Longrightarrow> map (chain_view p m') rs' = map (chain_view p m') rs"
    and "pipe_wf p (rs' ! r)"
proof -
  note D = pipe_invD[OF inv]
  from step obtain msg buf tmp where 1: "r < length rs" "pp_phase (rs ! r) < 2" "m < length (pp_chains (rs ! r))"
    "ch_step (pp_chains (rs ! r) ! m) < pl_n p - 1" "ch_sent (pp_chains (rs ! r) ! m)"
    "tr_recv T net r (chain_key (ring_prev (pl_n p) r) (ch_step (pp_chains (rs ! r) ! m)) (pp_phase (rs ! r)) m) = Some (msg, net')"
    "chain_upd p (pp_phase (rs ! r)) r (ch_step (pp_chains (rs ! r) ! m)) m (pp_buf (rs ! r)) (pp_tmp (rs ! r) ! m) msg = (buf, tmp)"
    "rs' = rs[r := (rs ! r)\<lparr>pp_buf := buf, pp_tmp := (pp_tmp (rs ! r))[m := tmp],
       pp_chains := (pp_chains (rs ! r))[m := \<lparr>ch_step = Suc (ch_step (pp_chains (rs ! r) ! m)), ch_sent = False\<rparr>]\<rparr>]"
    by (auto elim!: pipe_recvE)
  have r: "r < pl_n p" "2 \<le> pl_n p" using 1(1) D(1) p by (auto simp: pipe_ok_def)
  have wf: "pipe_wf p (rs ! r)" using D(2) r by simp
  have m: "m < pl_M p" using pipe_wfD(5)[OF wf] 1(3) by simp
  have ch: "chain_of (rs ! r) m = pp_chains (rs ! r) ! m" using 1(3) by (simp add: chain_of_def)
  let ?k = "pp_phase (rs ! r) * (pl_n p - 1) + ch_step (pp_chains (rs ! r) ! m)" and ?q = "ring_prev (pl_n p) r"
  have k: "?k < 2 * (pl_n p - 1)" using phase_round(1)[OF 1(4,2)] .
  have q: "?q < pl_n p" using ring_peers(2)[OF r] .
  have "msg = ring_out (pl_n p) (pl_micro p) ?k ?q (lockstep (chain_protocol p m) (\<lambda>r. pipe_row p m (B r)) ?k ?q)"
    using chain.recv_msg[OF D(4)[OF m] T, of r msg net'] 1(1,6) r k ch chain_tags(2)[OF 1(4,2)] by simp
  moreover have L: "length (lockstep (chain_protocol p m) (\<lambda>r. pipe_row p m (B r)) ?k ?q) = pl_n p * pl_micro p"
    unfolding chain_lockstep by (rule ring_lockstep_length) (use length_row[OF _ m] B r k q in auto)
  ultimately have msg: "length msg = pl_micro p"
    using length_chunk_at[OF L chain_idx_less(1), of "pp_phase (rs ! r)" ?q "ch_step (pp_chains (rs ! r) ! m)"] r
      phase_round(4)[OF 1(4,2), of ?q] by (simp add: ring_out_def)
  note u = chain_upd_view[OF p pipe_wfD(1)[OF wf] m 1(4,2) msg pipe_wfD(3)[OF wf m] 1(7)]
  let ?s = "(rs ! r)\<lparr>pp_buf := buf, pp_tmp := (pp_tmp (rs ! r))[m := tmp],
       pp_chains := (pp_chains (rs ! r))[m := \<lparr>ch_step = Suc (ch_step (pp_chains (rs ! r) ! m)), ch_sent = False\<rparr>]\<rparr>"
  show "pipe_wf p (rs' ! r)" using wf_recv[OF wf 1(3,4) u(1,2)] 1(1,8) by simp
  have v: "chain_view p m ?s = \<lparr>rk_state = ring_upd (pl_op p) (pl_n p) (pl_micro p) ?k r (pipe_row p m (pp_buf (rs ! r))) msg,
      rk_pc = Suc ?k, rk_sent = False\<rparr>" using u(3)[OF m] 1(3) by (simp add: chain_view_def chain_of_def)
  show "rank_recv (chain_protocol p m) T r (map (chain_view p m) rs, net) = Some (map (chain_view p m) rs', net')"
    using 1(1,5,6) k v chain_tags(2)[OF 1(4,2)] by (simp add: rank_recv_def Let_def ch map_update 1(8))
  show "map (chain_view p m') rs' = map (chain_view p m') rs" if "m' < pl_M p" "m' \<noteq> m"
    unfolding 1(8) by (rule map_chain_update[OF 1(1)]) (use u(3)[OF that(1)] that(2) in \<open>simp add: chain_view_def chain_of_def\<close>)
qed

lemma inv_pipe_send:
  assumes p: "pipe_ok p" "pl_n p \<le> 2 ^ 16" and T: "transport_ok T" and inv: "pipe_inv p T B (rs, net)"
    and step: "pipe_send p T r m (rs, net) = Some c'"
  shows "pipe_inv p T B c'"
  using step
proof (cases rule: pipe_sendE)
  case 1
  note D = pipe_invD[OF inv]
  let ?s = "(rs ! r)\<lparr>pp_chains := (pp_chains (rs ! r))[m := (pp_chains (rs ! r) ! m)\<lparr>ch_sent := True\<rparr>]\<rparr>"
  let ?key = "chain_key r (ch_step (pp_chains (rs ! r) ! m)) (pp_phase (rs ! r)) m"
  let ?net = "tr_send T net (ring_next (pl_n p) r) ?key
    (chain_out p (pp_phase (rs ! r)) r (ch_step (pp_chains (rs ! r) ! m)) m (pp_buf (rs ! r)))"
  have r: "r < pl_n p" using 1(1) D(1) by simp
  have wf: "pipe_wf p (rs ! r)" using D(2) r .
  have m: "m < pl_M p" using pipe_wfD(5)[OF wf] 1(4) by simp
  have ch: "chain_of (rs ! r) m = pp_chains (rs ! r) ! m" using 1(4) by (simp add: chain_of_def)
  have free: "tr_pend T net (ring_next (pl_n p) r) ?key = []"
    using chain.send_free[OF D(4)[OF m], of r] r 1 ch phase_round(1)[OF 1(5,2)] chain_tags(1)[OF 1(5,2)] by simp
  note sent = transport_send[OF T D(3) free]
  have "tagged_rounds.async_inv (chain_protocol p j) T (\<lambda>r. pipe_row p j (B r)) (map (chain_view p j) (rs[r := ?s]), ?net)"
    if j: "j < pl_M p" for j
  proof (cases "j = m")
    case True
    have "rank_send (chain_protocol p m) T r (map (chain_view p m) rs, net) = Some (map (chain_view p m) (rs[r := ?s]), ?net)"
      by (rule view_send[OF p(1) inv]) (use step 1(7) in simp)
    from chain.inv_send[OF _ T D(4)[OF m] this] p(2) True show ?thesis by simp
  next
    case False
    have "map (chain_view p j) (rs[r := ?s]) = map (chain_view p j) rs"
      by (rule map_chain_update[OF 1(1)]) (use False in \<open>simp add: chain_view_def chain_of_def\<close>)
    moreover have "tagged_rounds.async_inv (chain_protocol p j) T (\<lambda>r. pipe_row p j (B r)) (map (chain_view p j) rs, ?net)"
      by (rule chain.async_inv_frame[OF D(4)[OF j] sent(1)]) (use chain_tag_other[OF _ m j p(1)] False sent(2) in auto)
    ultimately show ?thesis by simp
  qed
  then show ?thesis unfolding 1(7) using wf_send[OF wf 1(4,5)] sent(1) by (intro pipe_invI[OF inv])
qed

lemma inv_pipe_recv:
  assumes p: "pipe_ok p" "pl_n p \<le> 2 ^ 16" and T: "transport_ok T" and inv: "pipe_inv p T B (rs, net)"
    and B: "\<forall>r < pl_n p. length (B r) = pl_n p * pl_M p * pl_micro p"
    and step: "pipe_recv p T r m (rs, net) = Some c'"
  shows "pipe_inv p T B c'"
proof -
  note D = pipe_invD[OF inv]
  obtain rs' net' where c': "c' = (rs', net')" by fastforce
  from step[unfolded c'] obtain msg s where 1: "r < length rs" "m < length (pp_chains (rs ! r))"
    "tr_recv T net r (chain_key (ring_prev (pl_n p) r) (ch_step (pp_chains (rs ! r) ! m)) (pp_phase (rs ! r)) m) = Some (msg, net')"
    "rs' = rs[r := s]" by (auto elim!: pipe_recvE)
  have wf: "pipe_wf p (rs ! r)" using D(1,2) 1(1) by simp
  have m: "m < pl_M p" using pipe_wfD(5)[OF wf] 1(2) by simp
  note v = view_recv[OF p(1) inv T B step[unfolded c']]
  have "tagged_rounds.async_inv (chain_protocol p j) T (\<lambda>r. pipe_row p j (B r)) (map (chain_view p j) rs', net')"
    if j: "j < pl_M p" for j
  proof (cases "j = m")
    case True
    from chain.inv_recv[OF _ T D(4)[OF m] v(1)] p(2) True show ?thesis by simp
  next
    case False
    have "tagged_rounds.async_inv (chain_protocol p j) T (\<lambda>r. pipe_row p j (B r)) (map (chain_view p j) rs, net')"
      by (rule chain.async_inv_frame[OF D(4)[OF j] transport_recv(1)[OF T D(3) 1(3)]])
        (use chain_tag_other[OF _ m j p(1)] False transport_recv(3)[OF T D(3) 1(3)] in auto)
    then show ?thesis using v(2)[OF j False] by simp
  qed
  then show ?thesis unfolding c' 1(4)
    using v(3) 1(1,4) transport_recv(1)[OF T D(3) 1(3)] by (intro pipe_invI[OF inv]) simp_all
qed

lemma pipe_step_inv:
  assumes "pipe_step p T c c'" "pipe_ok p" "pl_n p \<le> 2 ^ 16" "transport_ok T" "pipe_inv p T B c"
    and "\<forall>r < pl_n p. length (B r) = pl_n p * pl_M p * pl_micro p"
  shows "pipe_inv p T B c'"
proof -
  obtain rs net where c: "c = (rs, net)" by fastforce
  note inv = assms(5)[unfolded c]
  from assms(1)[unfolded c] show ?thesis
  proof cases
    case (launch r s)
    then show ?thesis using inv_control[OF assms(2) inv] by simp
  next
    case (take r s)
    then show ?thesis using inv_control[OF assms(2) inv] by simp
  next
    case (next_phase r s)
    then show ?thesis using inv_control[OF assms(2) inv] by simp
  next
    case (send r m)
    then show ?thesis by (rule inv_pipe_send[OF assms(2-4) inv])
  next
    case (recv r m)
    then show ?thesis by (rule inv_pipe_recv[OF assms(2-4) inv assms(6)])
  qed
qed

lemma pipe_init_inv:
  assumes "pipe_ok p" "tr_empty T net" "\<forall>r < pl_n p. length (B r) = pl_n p * pl_M p * pl_micro p"
  shows "pipe_inv p T B (pipe_init p B net)"
proof -
  have "map (chain_view p m) (map (\<lambda>r. pipe_start p (B r)) [0..<pl_n p]) =
      fst (async_init (chain_protocol p m) (\<lambda>r. pipe_row p m (B r)) net)" for m
    by (simp add: async_init_def chain_view_def chain_of_def pipe_start_def)
  moreover have "snd (async_init (chain_protocol p m) (\<lambda>r. pipe_row p m (B r)) net) = net" for m by (simp add: async_init_def)
  ultimately have "tagged_rounds.async_inv (chain_protocol p m) T (\<lambda>r. pipe_row p m (B r))
      (map (chain_view p m) (map (\<lambda>r. pipe_start p (B r)) [0..<pl_n p]), net)" for m
    using chain.async_inv_init[OF assms(2), of p m "\<lambda>r. pipe_row p m (B r)"] by (metis prod.collapse)
  moreover have "pipe_wf p (pipe_start p (B r))" if "r < pl_n p" for r
    using pipe_start_wf[OF assms(1)] assms(1,3) that by (simp add: pipe_ok_def mult.assoc)
  ultimately show ?thesis using assms(2) by (simp add: pipe_inv_def pipe_init_def tr_empty_def)
qed

subsection \<open>Every move is work done\<close>

definition pipe_done :: "'a pipe_st \<Rightarrow> nat" where
  "pipe_done s = length (pp_chains s) + pp_taken s + (\<Sum>ch \<leftarrow> pp_chains s. 2 * ch_step ch + (if ch_sent ch then 1 else 0))"

definition pipe_left :: "'a pipe_call \<Rightarrow> 'a pipe_st \<Rightarrow> nat" where
  "pipe_left p s = (2 - pp_phase s) * (2 * pl_M p * pl_n p + 1) - pipe_done s"

definition pipe_work :: "'a pipe_call \<Rightarrow> ('a, 'n) pipe_conf \<Rightarrow> nat" where
  "pipe_work p c = (\<Sum>s \<leftarrow> fst c. pipe_left p s)"

lemma sum_list_le: "(\<And>x. x \<in> set xs \<Longrightarrow> f x \<le> b) \<Longrightarrow> sum_list (map f xs) \<le> length xs * (b :: nat)"
  by (induction xs) (auto intro: add_mono)

lemma pipe_done_bound:
  assumes "pipe_wf p s" "pipe_ok p"
  shows "pipe_done s \<le> 2 * pl_M p * pl_n p"
proof -
  have "(\<Sum>ch \<leftarrow> pp_chains s. 2 * ch_step ch + (if ch_sent ch then 1 else 0)) \<le> length (pp_chains s) * (2 * (pl_n p - 1))"
    by (rule sum_list_le) (use assms(1) in \<open>auto simp: pipe_wf_def\<close>)
  also have "\<dots> \<le> pl_M p * (2 * (pl_n p - 1))" using pipe_wfD(5)[OF assms(1)] by (intro mult_le_mono1)
  finally have "pipe_done s \<le> pl_M p + pl_M p + pl_M p * (2 * (pl_n p - 1))"
    using pipe_wfD(5,7)[OF assms(1)] completed_le[of p s] by (simp add: pipe_done_def)
  also have "\<dots> = 2 * pl_M p * pl_n p" using assms(2) by (cases "pl_n p") (auto simp: pipe_ok_def algebra_simps)
  finally show ?thesis .
qed

lemma pipe_left_less:
  assumes "pipe_wf p s" "pipe_wf p s'" "pipe_ok p" "pp_phase s < 2" "pp_phase s' = pp_phase s" "pipe_done s' = Suc (pipe_done s)"
  shows "pipe_left p s' < pipe_left p s"
proof -
  have "1 * (2 * pl_M p * pl_n p + 1) \<le> (2 - pp_phase s) * (2 * pl_M p * pl_n p + 1)"
    using assms(4) by (intro mult_le_mono1) simp
  then show ?thesis using pipe_done_bound[OF assms(2,3)] assms(5,6) unfolding pipe_left_def by simp
qed

lemma control_left:
  assumes c: "pipe_launch p s = Some s' \<or> pipe_take p s = Some s' \<or> pipe_next_phase p s = Some s'" and wf: "pipe_wf p s" and p: "pipe_ok p"
  shows "pipe_left p s' < pipe_left p s"
  using c
proof (elim disjE)
  note wf' = wf_control[OF c wf p]
  show ?thesis if "pipe_launch p s = Some s'"
    by (rule pipe_left_less[OF wf wf' p]) (use that in \<open>auto simp: pipe_launch_def pipe_done_def split: if_splits\<close>)
  show ?thesis if "pipe_take p s = Some s'"
    by (rule pipe_left_less[OF wf wf' p]) (use that in \<open>auto simp: pipe_take_def pipe_done_def split: if_splits\<close>)
  show ?thesis if "pipe_next_phase p s = Some s'"
  proof -
    have ph: "pp_phase s < 2" "s' = s\<lparr>pp_phase := pp_phase s + 1, pp_chains := [], pp_taken := 0\<rparr>"
      using that by (auto simp: pipe_next_phase_def split: if_splits)
    have "(2 - pp_phase s) * (2 * pl_M p * pl_n p + 1) = (2 * pl_M p * pl_n p + 1) + (2 - pp_phase s') * (2 * pl_M p * pl_n p + 1)"
    proof -
      have "2 - pp_phase s = Suc (2 - pp_phase s')" using ph by simp
      then show ?thesis by simp
    qed
    moreover have "pipe_done s' = 0" using ph by (simp add: pipe_done_def)
    ultimately show ?thesis using pipe_done_bound[OF wf p] unfolding pipe_left_def by linarith
  qed
qed

lemma pipe_step_work:
  assumes step: "pipe_step p T (rs, net) (rs', net')" and p: "pipe_ok p" and inv: "pipe_inv p T B (rs, net)" "pipe_inv p T B (rs', net')"
  shows "pipe_work p (rs', net') < pipe_work p (rs, net)"
proof -
  note D = pipe_invD[OF inv(1)] and D' = pipe_invD[OF inv(2)]
  have upd: "pipe_work p (rs', net') < pipe_work p (rs, net)" if "rs' = rs[r := s]" "r < length rs" "pipe_left p s < pipe_left p (rs ! r)" for r s
    using sum_list_update_less[OF that(2,3)] that(1) by (simp add: pipe_work_def)
  have chain: "pipe_work p (rs', net') < pipe_work p (rs, net)"
    if r: "r < length rs" "rs' = rs[r := s]" "pp_phase (rs ! r) < 2" "pp_phase s = pp_phase (rs ! r)" "pp_taken s = pp_taken (rs ! r)"
      and m: "m < length (pp_chains (rs ! r))" "pp_chains s = (pp_chains (rs ! r))[m := ch]"
      "2 * ch_step ch + (if ch_sent ch then 1 else 0) =
         Suc (2 * ch_step (pp_chains (rs ! r) ! m) + (if ch_sent (pp_chains (rs ! r) ! m) then 1 else 0))" for r s m ch
  proof (rule upd[OF r(2,1)])
    let ?f = "\<lambda>ch. 2 * ch_step ch + (if ch_sent ch then 1 else 0)"
    have "sum_list (map ?f ((pp_chains (rs ! r))[m := ch])) = Suc (sum_list (map ?f (pp_chains (rs ! r))))"
      using m(1,3) elem_le_sum_list[of m "map ?f (pp_chains (rs ! r))"] by (simp add: map_update sum_list_update)
    then have "pipe_done s = Suc (pipe_done (rs ! r))" using r(5) m(2) by (simp add: pipe_done_def)
    moreover have "pipe_wf p (rs ! r)" "pipe_wf p s" using D(1,2) D'(2)[of r] r(1,2) by simp_all
    ultimately show "pipe_left p s < pipe_left p (rs ! r)" using pipe_left_less p r(3,4) by blast
  qed
  have control: "pipe_left p s < pipe_left p (rs ! r)" if "r < length rs"
    "pipe_launch p (rs ! r) = Some s \<or> pipe_take p (rs ! r) = Some s \<or> pipe_next_phase p (rs ! r) = Some s" for r s
    using control_left[OF that(2) _ p] D(1,2) that(1) by simp
  from step show ?thesis
  proof cases
    case (launch r s)
    then show ?thesis using upd control by blast
  next
    case (take r s)
    then show ?thesis using upd control by blast
  next
    case (next_phase r s)
    then show ?thesis using upd control by blast
  next
    case (send r m)
    then show ?thesis
    proof (cases rule: pipe_sendE)
      case 1
      then have "rs' = rs[r := (rs ! r)\<lparr>pp_chains := (pp_chains (rs ! r))[m := (pp_chains (rs ! r) ! m)\<lparr>ch_sent := True\<rparr>]\<rparr>]" by simp
      from chain[OF 1(1) this 1(2) _ _ 1(4), where ch = "(pp_chains (rs ! r) ! m)\<lparr>ch_sent := True\<rparr>"] 1(6) show ?thesis by simp
    qed
  next
    case (recv r m)
    then show ?thesis
    proof (cases rule: pipe_recvE)
      case (1 msg net'' buf tmp)
      let ?ch = "\<lparr>ch_step = Suc (ch_step (pp_chains (rs ! r) ! m)), ch_sent = False\<rparr>"
      from 1 have "rs' = rs[r := (rs ! r)\<lparr>pp_buf := buf, pp_tmp := (pp_tmp (rs ! r))[m := tmp], pp_chains := (pp_chains (rs ! r))[m := ?ch]\<rparr>]"
        by simp
      from chain[OF 1(1) this 1(2) _ _ 1(4), where ch = ?ch] 1(6) show ?thesis by simp
    qed
  qed
qed

subsection \<open>The windows cannot block each other\<close>

lemma all_completed:
  assumes "\<And>m. m < length (pp_chains s) \<Longrightarrow> ch_step (pp_chains s ! m) = pl_n p - 1"
  shows "pipe_completed p s = length (pp_chains s)"
proof -
  have "filter (\<lambda>ch. ch_step ch = pl_n p - 1) (pp_chains s) = pp_chains s"
    using assms by (metis (mono_tags, lifting) filter_True in_set_conv_nth)
  then show ?thesis by (simp add: pipe_completed_def)
qed

text \<open>In a rank that waits although all its completions are taken, the first unfinished chain is running.\<close>

lemma window_open:
  assumes p: "pipe_ok p" and wf: "pipe_wf p s" and wait: "pipe_awaiting p s" "pp_taken s = pipe_completed p s"
    and m: "m < pl_M p" "\<And>j. j < m \<Longrightarrow> ch_step (chain_of s j) = pl_n p - 1"
  shows "m < length (pp_chains s)"
proof (rule ccontr)
  assume "\<not> m < length (pp_chains s)"
  then have l: "length (pp_chains s) \<le> m" by simp
  have "pipe_completed p s = length (pp_chains s)"
  proof (rule all_completed)
    fix j assume j: "j < length (pp_chains s)"
    then show "ch_step (pp_chains s ! j) = pl_n p - 1" using m(2)[of j] l by (simp add: chain_of_def)
  qed
  then show False using wait l m(1) p by (auto simp: pipe_awaiting_def Let_def pipe_ok_def)
qed

text \<open>The move of a chain that its own ring allows is a move of the pipeline, if the rank runs the chain.\<close>

lemma chain_moves:
  assumes p: "pipe_ok p" and s: "i < length rs" "pp_phase (rs ! i) < 2" "pipe_awaiting p (rs ! i)" "m < length (pp_chains (rs ! i))"
      "ch_step (pp_chains (rs ! i) ! m) < pl_n p - 1"
    and mv: "rank_send (chain_protocol p m) T i (map (chain_view p m) rs, net) = Some c \<or>
      rank_recv (chain_protocol p m) T i (map (chain_view p m) rs, net) = Some c"
  shows "\<exists>c'. pipe_step p T (rs, net) c'"
proof -
  have ch: "chain_of (rs ! i) m = pp_chains (rs ! i) ! m" using s(4) by (simp add: chain_of_def)
  from mv show ?thesis
  proof
    assume "rank_send (chain_protocol p m) T i (map (chain_view p m) rs, net) = Some c"
    then have "\<not> ch_sent (pp_chains (rs ! i) ! m)" using s(1) ch by (auto simp: rank_send_def Let_def split: if_splits)
    then have "\<exists>c'. pipe_send p T i m (rs, net) = Some c'" using s by (simp add: pipe_send_def Let_def)
    then show ?thesis by (auto intro: pipe_step.send)
  next
    assume "rank_recv (chain_protocol p m) T i (map (chain_view p m) rs, net) = Some c"
    then obtain msg net' where "ch_sent (pp_chains (rs ! i) ! m)"
      "tr_recv T net i (chain_key (ring_prev (pl_n p) i) (ch_step (pp_chains (rs ! i) ! m)) (pp_phase (rs ! i)) m) = Some (msg, net')"
      using s(1) ch chain_tags(2)[OF s(5,2)] by (auto simp: rank_recv_def Let_def split: if_splits option.splits)
    then have "\<exists>c'. pipe_recv p T i m (rs, net) = Some c'" using s by (simp add: pipe_recv_def Let_def split: prod.splits)
    then show ?thesis by (auto intro: pipe_step.recv)
  qed
qed

lemma pipe_progress:
  assumes p: "pipe_ok p" and T: "transport_ok T" and inv: "pipe_inv p T B (rs, net)" and r0: "r0 < pl_n p" "pp_phase (rs ! r0) < 2"
  shows "\<exists>c'. pipe_step p T (rs, net) c'"
proof (rule ccontr)
  assume stuck: "\<nexists>c'. pipe_step p T (rs, net) c'"
  note D = pipe_invD[OF inv]
  let ?n = "pl_n p - 1"
  have n: "0 < ?n" using p by (simp add: pipe_ok_def)
  have wait: "pipe_awaiting p (rs ! r)" "pp_taken (rs ! r) = pipe_completed p (rs ! r)"
    "\<not> (length (pp_chains (rs ! r)) = pl_M p \<and> pp_taken (rs ! r) = pl_M p)" if "r < pl_n p" "pp_phase (rs ! r) < 2" for r
  proof -
    have r: "r < length rs" using that(1) D(1) by simp
    have none: "pipe_launch p (rs ! r) = None" "pipe_take p (rs ! r) = None" "pipe_next_phase p (rs ! r) = None"
      using stuck pipe_step.intros(1-3)[OF r, of p _ T net] by (metis not_None_eq)+
    show aw: "pipe_awaiting p (rs ! r)"
      using none that(2) by (auto simp: pipe_launch_def split: if_splits)
    have "\<not> pp_taken (rs ! r) < pipe_completed p (rs ! r)"
      using none that(2) aw by (auto simp: pipe_take_def split: if_splits)
    then show "pp_taken (rs ! r) = pipe_completed p (rs ! r)" using pipe_wfD(7)[OF D(2)[OF that(1)]] by simp
    show "\<not> (length (pp_chains (rs ! r)) = pl_M p \<and> pp_taken (rs ! r) = pl_M p)"
      using none that(2) by (auto simp: pipe_next_phase_def split: if_splits)
  qed
  obtain r1 where r1: "r1 < pl_n p" "\<And>r. r < pl_n p \<Longrightarrow> pp_phase (rs ! r1) \<le> pp_phase (rs ! r)"
    using ex_has_least_nat[of "\<lambda>r. r < pl_n p" r0 "\<lambda>r. pp_phase (rs ! r)"] r0(1) by blast
  let ?ph = "pp_phase (rs ! r1)"
  let ?open = "\<lambda>m r. r < pl_n p \<and> pp_phase (rs ! r) = ?ph \<and> ch_step (chain_of (rs ! r) m) < ?n"
  have ph: "?ph < 2" using r1(2)[OF r0(1)] r0(2) by simp
  have "\<exists>m < pl_M p. ?open m r1"
  proof (rule ccontr)
    assume "\<not> (\<exists>m < pl_M p. ?open m r1)"
    then have all: "?n \<le> ch_step (chain_of (rs ! r1) m)" if "m < pl_M p" for m using that r1(1) by (meson not_less)
    have len: "length (pp_chains (rs ! r1)) = pl_M p"
    proof (rule ccontr)
      assume "length (pp_chains (rs ! r1)) \<noteq> pl_M p"
      then have "length (pp_chains (rs ! r1)) < pl_M p" using pipe_wfD(5)[OF D(2)[OF r1(1)]] by simp
      from all[OF this] n show False by (simp add: chain_of_def)
    qed
    then have "pipe_completed p (rs ! r1) = pl_M p"
      using all_completed[of "rs ! r1" p] all pipe_wfD(6)[OF D(2)[OF r1(1)]] by (fastforce simp: chain_of_def intro: le_antisym)
    then show False using wait(2,3)[OF r1(1) ph] len by simp
  qed
  then obtain m0 where m0: "m0 < pl_M p" "\<exists>r. ?open m0 r" by blast
  let ?m = "LEAST m. \<exists>r. ?open m r"
  have m: "\<exists>r. ?open ?m r" "?m \<le> m0" using m0(2) LeastI[of "\<lambda>m. \<exists>r. ?open m r" m0] Least_le[of "\<lambda>m. \<exists>r. ?open m r" m0] by blast+
  have mM: "?m < pl_M p" using m(2) m0(1) by simp
  obtain r where r: "?open ?m r" using m(1) by blast
  have before: "ch_step (chain_of (rs ! i) j) = ?n" if i: "i < pl_n p" "pp_phase (rs ! i) = ?ph" and "j < ?m" for i j
  proof -
    have "\<not> ch_step (chain_of (rs ! i) j) < ?n" using not_less_Least[OF that(3)] i by blast
    moreover have "ch_step (chain_of (rs ! i) j) \<le> ?n" using pipe_wfD(6)[OF D(2)[OF i(1)]] by (simp add: chain_of_def)
    ultimately show ?thesis by simp
  qed
  have "rk_pc (map (chain_view p ?m) rs ! r) < pr_rounds (chain_protocol p ?m)"
    using r D(1) ph phase_round(1)[of "ch_step (chain_of (rs ! r) ?m)" "pl_n p" ?ph] by simp
  then obtain i c where i: "i < pl_n p" "\<And>j. j < pl_n p \<Longrightarrow> rk_pc (map (chain_view p ?m) rs ! i) \<le> rk_pc (map (chain_view p ?m) rs ! j)"
    and mv: "rank_send (chain_protocol p ?m) T i (map (chain_view p ?m) rs, net) = Some c \<or>
      rank_recv (chain_protocol p ?m) T i (map (chain_view p ?m) rs, net) = Some c"
    using chain.least_moves[OF T D(4)[OF mM], of r] r by auto
  have pc: "pp_phase (rs ! i) * ?n + ch_step (chain_of (rs ! i) ?m) < Suc ?ph * ?n"
  proof -
    have "pp_phase (rs ! i) * ?n + ch_step (chain_of (rs ! i) ?m) \<le> ?ph * ?n + ch_step (chain_of (rs ! r) ?m)"
      using i(2)[of r] i(1) r D(1) by simp
    moreover have "ch_step (chain_of (rs ! r) ?m) < ?n" using r by blast
    ultimately show ?thesis unfolding mult_Suc by linarith
  qed
  have phi: "pp_phase (rs ! i) = ?ph"
  proof (rule ccontr)
    assume "pp_phase (rs ! i) \<noteq> ?ph"
    then have "Suc ?ph \<le> pp_phase (rs ! i)" using r1(2)[OF i(1)] by simp
    then have "Suc ?ph * ?n \<le> pp_phase (rs ! i) * ?n" by (rule mult_le_mono1)
    with pc show False by linarith
  qed
  have open_i: "?m < length (pp_chains (rs ! i))"
    by (rule window_open[OF p D(2)[OF i(1)] wait(1,2)[OF i(1)] mM]) (use phi ph before[OF i(1)] in auto)
  have "ch_step (pp_chains (rs ! i) ! ?m) < ?n" using pc phi open_i by (simp add: chain_of_def)
  from chain_moves[OF p _ _ wait(1)[OF i(1)] open_i this mv] show False using stuck i(1) D(1) phi ph by simp
qed

subsection \<open>The result\<close>

lemma slice_slice: "m < M \<Longrightarrow> chunk_at l m (chunk_at (M * l) c xs) = chunk_at l (c * M + m) xs"
proof -
  assume "m < M"
  then have "m * l + l \<le> M * l" by (rule chunk_bound)
  then have "min l (M * l - m * l) = l" by simp
  then show ?thesis by (simp add: slice_def drop_take algebra_simps)
qed

lemma slice_map2: "slice off l (map2 f xs ys) = map2 f (slice off l xs) (slice off l ys)"
  by (simp add: slice_def take_map drop_map take_zip drop_zip)

lemma ring_acc_row:
  assumes B: "\<forall>r < pl_n p. length (B r) = pl_n p * pl_M p * pl_micro p" and c: "c < pl_n p" "m < pl_M p"
  shows "ring_acc f (pl_n p) (pl_micro p) (\<lambda>r. pipe_row p m (B r)) c j =
    chunk_at (pl_micro p) m (ring_acc f (pl_n p) (pl_M p * pl_micro p) B c j)"
proof (induction j)
  case 0
  then show ?case using B c chunk_at_row[of "B c" p m c] by (simp add: slice_slice[OF c(2)])
next
  case (Suc j)
  have "(c + Suc j) mod pl_n p < pl_n p" using c by simp
  then show ?case using Suc B c chunk_at_row[of "B ((c + Suc j) mod pl_n p)" p m c]
    by (simp add: slice_map2 slice_slice[OF c(2)])
qed

lemma rows_result:
  assumes p: "pipe_ok p" and B: "\<forall>r < pl_n p. length (B r) = pl_n p * pl_M p * pl_micro p"
    and buf: "length buf = pl_n p * pl_M p * pl_micro p"
    and rows: "\<And>m. m < pl_M p \<Longrightarrow> pipe_row p m buf = ring_result f (pl_n p) (pl_micro p) (\<lambda>r. pipe_row p m (B r))"
  shows "buf = ring_result f (pl_n p) (pl_chunk p) B"
proof -
  let ?n = "pl_n p" and ?M = "pl_M p" and ?l = "pl_micro p"
  have ch: "pl_chunk p = ?M * ?l" "0 < ?M" using p by (auto simp: pipe_ok_def)
  have len: "length (ring_acc f ?n (?M * ?l) B c j) = ?M * ?l" if "c < ?n" for c j
    by (rule length_ring_acc) (use B that in \<open>auto simp: mult.assoc\<close>)
  have lenr: "length (ring_result f ?n (?M * ?l) B) = ?n * (?M * ?l)"
    unfolding ring_result_def by (rule length_concat_map) (rule len)
  have "buf = ring_result f ?n (?M * ?l) B"
  proof (rule chunks_eqI[of _ "?n * ?M" ?l])
    show "length buf = ?n * ?M * ?l" "length (ring_result f ?n (?M * ?l) B) = ?n * ?M * ?l" using buf lenr by simp_all
    fix i assume "i < ?n * ?M"
    then have i: "i div ?M < ?n" "i mod ?M < ?M" "i = i div ?M * ?M + i mod ?M"
      using ch(2) by (simp_all add: less_mult_imp_div_less)
    let ?c = "i div ?M" and ?m = "i mod ?M"
    have "chunk_at ?l i buf = chunk_at ?l ?c (pipe_row p ?m buf)" using chunk_at_row[OF buf i(2,1)] i(3) by simp
    also have "\<dots> = ring_acc f ?n ?l (\<lambda>r. pipe_row p ?m (B r)) ?c (?n - 1)"
      unfolding rows[OF i(2)] ring_result_def
      by (rule chunk_at_concat[OF _ i(1)], rule length_ring_acc) (use length_row[OF _ i(2)] B in auto)
    also have "\<dots> = chunk_at ?l ?m (ring_acc f ?n (?M * ?l) B ?c (?n - 1))" by (rule ring_acc_row[OF B i(1,2)])
    also have "\<dots> = chunk_at ?l ?m (chunk_at (?M * ?l) ?c (ring_result f ?n (?M * ?l) B))"
      unfolding ring_result_def by (subst chunk_at_concat[OF _ i(1)]) (use len in auto)
    also have "\<dots> = chunk_at ?l i (ring_result f ?n (?M * ?l) B)" 
      using slice_slice[OF i(2), of ?l ?c "ring_result f ?n (?M * ?l) B"] i(3) by simp
    finally show "chunk_at ?l i buf = chunk_at ?l i (ring_result f ?n (?M * ?l) B)" .
  qed
  then show ?thesis using ch(1) by simp
qed

lemma pipe_steps_inv:
  assumes p: "pipe_ok p" "pl_n p \<le> 2 ^ 16" and T: "transport_ok T" "tr_empty T net"
    and B: "\<forall>r < pl_n p. length (B r) = pl_n p * pl_M p * pl_micro p"
  shows "(pipe_step p T ^^ moves) (pipe_init p B net) c \<Longrightarrow>
    pipe_inv p T B c \<and> moves + pipe_work p c \<le> pipe_work p (pipe_init p B net)"
proof (induction moves arbitrary: c)
  case 0
  then show ?case using pipe_init_inv[OF p(1) T(2)] B by auto
next
  case (Suc k)
  then obtain d where d: "(pipe_step p T ^^ k) (pipe_init p B net) d" "pipe_step p T d c" by auto
  note IH = Suc.IH[OF d(1)]
  have inv: "pipe_inv p T B c" using pipe_step_inv[OF d(2) p T(1) _ B] IH by blast
  have "pipe_work p c < pipe_work p d"
    using pipe_step_work[of p T "fst d" "snd d" "fst c" "snd c" B] d(2) p(1) IH inv by simp
  with IH inv show ?case by simp
qed

lemma pipe_outcome:
  fixes B :: "nat \<Rightarrow> 'a list" and T :: "('n, 'a list, recv_key) transport"
  assumes n: "n \<le> 2 ^ 16" and start: "\<And>r. r < n \<Longrightarrow> pipelined_ring f d n r (has_endpoint r) (B r) config = Inr (Some p)"
    and n0: "0 < n" and T: "transport_ok T" "tr_empty T net"
    and run: "(pipe_step p T ^^ moves) (pipe_init p B net) (rs, net')"
  shows "(\<forall>r < n. length (pp_chains (rs ! r)) \<le> pp_taken (rs ! r) + max_in_flight config) \<and>
    moves \<le> 2 * n * (2 * micro_chunks config * n + 1) \<and>
    ((\<exists>r < n. pp_phase (rs ! r) < 2) \<longrightarrow> (\<exists>c'. pipe_step p T (rs, net') c')) \<and>
    ((\<nexists>c'. pipe_step p T (rs, net') c') \<longrightarrow>
       (\<forall>r < n. pp_phase (rs ! r) = 2 \<and> pp_buf (rs ! r) = ring_result f n (length (B r) div n) B))"
proof -
  have ok: "pipe_ok p" "pl_n p = n" "pl_op p = f" "pl_config p = config" and len: "\<And>r. r < n \<Longrightarrow> length (B r) = n * pl_chunk p"
    using pipelined_ring_ok[OF start] n0 by blast+
  have B: "\<forall>r < pl_n p. length (B r) = pl_n p * pl_M p * pl_micro p" using len ok(1,2) by (simp add: pipe_ok_def mult.assoc)
  from pipe_steps_inv[OF ok(1) _ T B run] n ok(2)
  have inv: "pipe_inv p T B (rs, net')" and work: "moves + pipe_work p (rs, net') \<le> pipe_work p (pipe_init p B net)" by auto
  note D = pipe_invD[OF inv]
  have "pipe_work p (pipe_init p B net) = 2 * n * (2 * micro_chunks config * n + 1)"
    using ok(2,4) by (simp add: pipe_work_def pipe_init_def pipe_left_def pipe_done_def pipe_start_def o_def sum_list_triv)
  with work have moves: "moves \<le> 2 * n * (2 * micro_chunks config * n + 1)" by simp
  have window: "length (pp_chains (rs ! r)) \<le> pp_taken (rs ! r) + max_in_flight config" if "r < n" for r
    using pipe_wfD(8)[OF D(2)] that ok(2,4) by simp
  have progress: "\<exists>c'. pipe_step p T (rs, net') c'" if "\<exists>r < n. pp_phase (rs ! r) < 2"
    using that pipe_progress[OF ok(1) T(1) inv] ok(2) by blast
  have result: "pp_phase (rs ! r) = 2 \<and> pp_buf (rs ! r) = ring_result f n (length (B r) div n) B"
    if stop: "\<nexists>c'. pipe_step p T (rs, net') c'" and r: "r < n" for r
  proof -
    have wf: "pipe_wf p (rs ! r)" using D(2) r ok(2) by simp
    have ph: "pp_phase (rs ! r) = 2" using progress stop r pipe_wfD(4)[OF wf] by (meson le_neq_implies_less)
    then have none: "pp_chains (rs ! r) = []" using wf by (simp add: pipe_wf_def)
    have "pipe_row p m (pp_buf (rs ! r)) = ring_result f (pl_n p) (pl_micro p) (\<lambda>r. pipe_row p m (B r))" if m: "m < pl_M p" for m
    proof -
      have "pipe_row p m (pp_buf (rs ! r)) = lockstep (chain_protocol p m) (\<lambda>r. pipe_row p m (B r)) (2 * (pl_n p - 1)) r"
        using chain.async_invD(2)[OF D(4)[OF m], of r] r ok(2) D(1) ph none by (simp add: chain_of_def)
      also have "\<dots> = ring_result f (pl_n p) (pl_micro p) (\<lambda>r. pipe_row p m (B r))"
        unfolding chain_lockstep ok(3) by (rule ring_lockstep_result) (use length_row[OF _ m] B r ok(1,2) in \<open>auto simp: pipe_ok_def\<close>)
      finally show ?thesis .
    qed
    from rows_result[OF ok(1) B pipe_wfD(1)[OF wf] this] show ?thesis using ph ok(2) len[OF r] n0 by simp
  qed
  show ?thesis using window moves progress result by blast
qed

text \<open>
  C25 (equivalence). The pipelined ring, on up to \<open>2^16\<close> ranks, with any number of micro-chunks up to
  255 and any positive window, under every interleaving: a rank never has more than
  \<open>max_in_flight\<close> chains that are not awaited; no execution deadlocks (while a rank has not returned some
  rank can move, whatever the windows of the others); every execution is bounded; and when nothing
  can move every rank has returned with exactly the buffer the plain ring computes.
\<close>

theorem pipelined_ring_correct:
  fixes B :: "nat \<Rightarrow> 'a list" and T :: "('n, 'a list, recv_key) transport"
  assumes n: "n \<le> 2 ^ 16" and start: "\<And>r. r < n \<Longrightarrow> pipelined_ring f d n r (has_endpoint r) (B r) config = Inr (Some p)"
    and n0: "0 < n" and T: "transport_ok T" "tr_empty T net"
    and run: "(pipe_step p T ^^ moves) (pipe_init p B net) (rs, net')"
  shows "(\<forall>r < n. length (pp_chains (rs ! r)) \<le> pp_taken (rs ! r) + max_in_flight config) \<and>
    moves \<le> 2 * n * (2 * micro_chunks config * n + 1) \<and>
    ((\<exists>r < n. pp_phase (rs ! r) < 2) \<longrightarrow> (\<exists>c'. pipe_step p T (rs, net') c')) \<and>
    ((\<nexists>c'. pipe_step p T (rs, net') c') \<longrightarrow>
       (\<forall>r < n. pp_phase (rs ! r) = 2 \<and> pp_buf (rs ! r) = ring_result f n (length (B r) div n) B))"
  by (rule pipe_outcome[OF n start n0 T run])

text \<open>Two ranks, two micro-chunks to a chunk, a window of one chain.\<close>

definition demo_pipe :: "u32 pipe_call" where
  "demo_pipe = \<lparr>pl_op = sum_u32_apply, pl_default = 0, pl_n = 2, pl_config = \<lparr>micro_chunks = 2, max_in_flight = 1\<rparr>, pl_chunk = 2, pl_micro = 1\<rparr>"

theorem pipelined_ring_correct_witness:
  "\<exists>moves rs net'. (pipe_step demo_pipe list_transport ^^ moves)
      (pipe_init demo_pipe (\<lambda>r. if r = 0 then [1, 2, 3, 4] else [10, 20, 30, 40]) []) (rs, net') \<and>
    pp_buf (rs ! 0) = [11, 22, 33, 44] \<and> pp_buf (rs ! 1) = [11, 22, 33, 44]"
proof -
  let ?B = "\<lambda>r. if r = (0::nat) then [1, 2, 3, 4] else [10, 20, 30, 40 :: u32]"
  let ?c = "pipe_init demo_pipe ?B []" and ?S = "pipe_step demo_pipe list_transport"
  let ?N = "2 * 2 * (2 * 2 * 2 + 1) :: nat"
  have empty: "tr_empty list_transport []" by (simp add: tr_empty_def list_transport_def)
  have start: "pipelined_ring sum_u32_apply 0 2 r (\<lambda>_. True) (?B r) \<lparr>micro_chunks = 2, max_in_flight = 1\<rparr> = Inr (Some demo_pipe)" for r
    by (simp add: pipelined_ring_def demo_pipe_def)
  have len: "length (?B r) div 2 = 2" for r by simp
  have correct: "moves \<le> ?N \<and> ((\<nexists>c'. ?S (rs, net') c') \<longrightarrow> (\<forall>r < 2. pp_buf (rs ! r) = ring_result sum_u32_apply 2 2 ?B))"
    if "(?S ^^ moves) ?c (rs, net')" for moves rs net'
    using pipelined_ring_correct[where n = 2 and B = ?B and has_endpoint = "\<lambda>_ _. True", OF _ start _ transport_ok_list empty that]
    unfolding len by simp
  then have "\<And>k c. (?S ^^ k) ?c c \<Longrightarrow> k \<le> ?N" by (metis prod.collapse)
  then obtain k rs net' where fin: "(?S ^^ k) ?c (rs, net')" "\<nexists>c'. ?S (rs, net') c'"
    using relpowp_terminal[of ?S ?c ?N] by (metis prod.collapse)
  have "ring_result sum_u32_apply 2 2 ?B = [11, 22, 33, 44]"
    by (simp add: ring_result_def sum_u32_apply_def numeral_2_eq_2 slice_def)
  with correct[OF fin(1)] fin(2) have "pp_buf (rs ! 0) = [11, 22, 33, 44] \<and> pp_buf (rs ! 1) = [11, 22, 33, 44]" by simp
  with fin(1) show ?thesis by blast
qed

end
