(* ===== verification/Trees.thy ===== *)
theory Trees
  imports Rounds
begin

section \<open>Rooted collectives: every rank receives once, then sends\<close>

text \<open>
  Scatter and broadcast (\<open>ucx_backend/scatter.rs\<close>, \<open>ucx_backend/broadcast.rs\<close>) run a different program
  on every rank: the root only sends, every other rank waits for one message and may then send. A
  program is a list of actions, each rank runs its own at its own pace. The locale \<open>one_to_all\<close> states
  when the programs form a tree and proves once that no execution deadlocks, that every execution ends,
  and what each rank holds then.
\<close>

subsection \<open>Programs and their execution\<close>

datatype ('s, 'p, 't) action = ASend nat 't "'s \<Rightarrow> 'p" | ARecv 't "'s \<Rightarrow> 'p \<Rightarrow> 's"

record 's prog_st =
  pg_state :: 's
  pg_pc :: nat

type_synonym ('s, 'n) prog_conf = "'s prog_st list \<times> 'n"

definition prog_move ::
  "(nat \<Rightarrow> ('s, 'p, 't) action list) \<Rightarrow> ('n, 'p, 't) transport \<Rightarrow> nat \<Rightarrow> ('s, 'n) prog_conf \<Rightarrow> ('s, 'n) prog_conf option" where
  "prog_move prog T r c =
     (case c of (rs, net) \<Rightarrow>
        let s = rs ! r; k = pg_pc s
        in if r < length rs \<and> k < length (prog r)
           then (case prog r ! k of
                   ASend d t out \<Rightarrow> Some (rs[r := s\<lparr>pg_pc := Suc k\<rparr>], tr_send T net d t (out (pg_state s)))
                 | ARecv t upd \<Rightarrow>
                     (case tr_recv T net r t of None \<Rightarrow> None
                      | Some (p, net') \<Rightarrow> Some (rs[r := \<lparr>pg_state = upd (pg_state s) p, pg_pc = Suc k\<rparr>], net')))
           else None)"

inductive prog_step ::
  "(nat \<Rightarrow> ('s, 'p, 't) action list) \<Rightarrow> ('n, 'p, 't) transport \<Rightarrow> ('s, 'n) prog_conf \<Rightarrow> ('s, 'n) prog_conf \<Rightarrow> bool" for prog T where
  move: "prog_move prog T r c = Some c' \<Longrightarrow> prog_step prog T c c'"

definition prog_init :: "nat \<Rightarrow> (nat \<Rightarrow> 's) \<Rightarrow> 'n \<Rightarrow> ('s, 'n) prog_conf" where
  "prog_init n init net = (map (\<lambda>r. \<lparr>pg_state = init r, pg_pc = 0\<rparr>) [0..<n], net)"

definition prog_left :: "(nat \<Rightarrow> ('s, 'p, 't) action list) \<Rightarrow> ('s, 'n) prog_conf \<Rightarrow> nat" where
  "prog_left prog c = (\<Sum>r < length (fst c). length (prog r) - pg_pc (fst c ! r))"

lemma prog_moveE:
  assumes "prog_move prog T r (rs, net) = Some c'"
  obtains (send) d t out where "r < length rs" "pg_pc (rs ! r) < length (prog r)" "prog r ! pg_pc (rs ! r) = ASend d t out"
      "c' = (rs[r := (rs ! r)\<lparr>pg_pc := Suc (pg_pc (rs ! r))\<rparr>], tr_send T net d t (out (pg_state (rs ! r))))"
  | (recv) t upd p net' where "r < length rs" "pg_pc (rs ! r) < length (prog r)" "prog r ! pg_pc (rs ! r) = ARecv t upd"
      "tr_recv T net r t = Some (p, net')" "c' = (rs[r := \<lparr>pg_state = upd (pg_state (rs ! r)) p, pg_pc = Suc (pg_pc (rs ! r))\<rparr>], net')"
  using assms by (auto simp: prog_move_def Let_def split: if_splits action.splits option.splits)

lemma prog_left_move:
  assumes "prog_move prog T r (rs, net) = Some c'"
  shows "Suc (prog_left prog c') = prog_left prog (rs, net)"
proof -
  let ?f = "\<lambda>xs i. length (prog i) - pg_pc (xs ! i)"
  obtain x where x: "r < length rs" "pg_pc (rs ! r) < length (prog r)" "fst c' = rs[r := x]" "pg_pc x = Suc (pg_pc (rs ! r))"
    using assms by (auto elim: prog_moveE)
  have "(\<Sum>i < length rs. ?f (rs[r := x]) i) = ?f (rs[r := x]) r + (\<Sum>i \<in> {..<length rs} - {r}. ?f (rs[r := x]) i)"
    using x(1) by (intro sum.remove) auto
  also have "(\<Sum>i \<in> {..<length rs} - {r}. ?f (rs[r := x]) i) = (\<Sum>i \<in> {..<length rs} - {r}. ?f rs i)"
    by (intro sum.cong) auto
  finally have "Suc (\<Sum>i < length rs. ?f (rs[r := x]) i) = (\<Sum>i < length rs. ?f rs i)"
    using x sum.remove[of "{..<length rs}" r "?f rs"] by simp
  then show ?thesis using x(3) by (simp add: prog_left_def)
qed

lemma prog_steps_left: "(prog_step prog T ^^ k) c c' \<Longrightarrow> k + prog_left prog c' = prog_left prog c"
proof (induction k arbitrary: c')
  case (Suc k)
  then obtain c1 r where "(prog_step prog T ^^ k) c c1" "prog_move prog T r c1 = Some c'" by (auto elim: prog_step.cases)
  then show ?case using Suc.IH[of c1] prog_left_move[of prog T r "fst c1" "snd c1" c'] by simp
qed simp

text \<open>Only the programs of existing ranks matter.\<close>

lemma prog_step_cong:
  assumes "\<And>r. r < n \<Longrightarrow> prog r = prog' r" "length (fst c) = n"
  shows "prog_step prog T c c' \<longleftrightarrow> prog_step prog' T c c'"
proof -
  have "prog_move prog T r c = prog_move prog' T r c" for r
    using assms by (cases c; cases "r < n") (simp_all add: prog_move_def Let_def)
  then show ?thesis by (simp add: prog_step.simps)
qed

lemma prog_step_length: "prog_step prog T c c' \<Longrightarrow> length (fst c') = length (fst c)"
  by (cases c) (auto elim!: prog_step.cases prog_moveE)

lemma prog_steps_cong:
  assumes "\<And>r. r < n \<Longrightarrow> prog r = prog' r" "length (fst c) = n"
  shows "(prog_step prog T ^^ k) c c' \<Longrightarrow> (prog_step prog' T ^^ k) c c' \<and> length (fst c') = n"
proof (induction k arbitrary: c')
  case (Suc k)
  then obtain c1 where c1: "(prog_step prog T ^^ k) c c1" "prog_step prog T c1 c'" by auto
  with Suc.IH[OF c1(1)] prog_step_cong[where n = n and prog = prog and prog' = prog' and c = c1 and T = T and c' = c', OF assms(1)] prog_step_length[OF c1(2)] show ?case by auto
qed (use assms in simp)

subsection \<open>Trees\<close>

text \<open>
  \<open>children r\<close> are the ranks \<open>r\<close> sends to, in order; \<open>key d\<close> is the key of the one message to \<open>d\<close>,
  \<open>out d\<close> its contents in the sender's state, \<open>upd d\<close> what the receiver does with it; \<open>final\<close> is the
  state each rank should end in, \<open>depth\<close> decreases towards the root.
\<close>

definition tree_prog ::
  "nat \<Rightarrow> (nat \<Rightarrow> nat list) \<Rightarrow> (nat \<Rightarrow> 't) \<Rightarrow> (nat \<Rightarrow> 's \<Rightarrow> 'p) \<Rightarrow> (nat \<Rightarrow> 's \<Rightarrow> 'p \<Rightarrow> 's) \<Rightarrow> nat \<Rightarrow> ('s, 'p, 't) action list" where
  "tree_prog root children key out upd r =
     (if r = root then [] else [ARecv (key r) (upd r)]) @ map (\<lambda>d. ASend d (key d) (out d)) (children r)"

locale one_to_all =
  fixes n root :: nat and parent :: "nat \<Rightarrow> nat" and children :: "nat \<Rightarrow> nat list" and depth :: "nat \<Rightarrow> nat"
    and key :: "nat \<Rightarrow> 't" and out :: "nat \<Rightarrow> 's \<Rightarrow> 'p" and upd :: "nat \<Rightarrow> 's \<Rightarrow> 'p \<Rightarrow> 's"
    and init final :: "nat \<Rightarrow> 's"
  assumes child: "root < n \<Longrightarrow> r < n \<Longrightarrow> d \<in> set (children r) \<Longrightarrow> d < n \<and> d \<noteq> root \<and> parent d = r"
    and parent: "root < n \<Longrightarrow> d < n \<Longrightarrow> d \<noteq> root \<Longrightarrow> parent d < n \<and> d \<in> set (children (parent d)) \<and> depth (parent d) < depth d"
    and distinct: "root < n \<Longrightarrow> r < n \<Longrightarrow> distinct (children r)"
    and final_root: "root < n \<Longrightarrow> final root = init root"
    and final_child: "root < n \<Longrightarrow> d < n \<Longrightarrow> d \<noteq> root \<Longrightarrow> upd d (init d) (out d (final (parent d))) = final d"
begin

abbreviation "prog \<equiv> tree_prog root children key out upd"

definition sent :: "'s prog_st list \<Rightarrow> nat \<Rightarrow> bool" where
  "sent rs d \<longleftrightarrow> d \<in> set (take (pg_pc (rs ! parent d) - (if parent d = root then 0 else 1)) (children (parent d)))"

definition tree_inv :: "('n, 'p, 't) transport \<Rightarrow> ('s, 'n) prog_conf \<Rightarrow> bool" where
  "tree_inv T c \<longleftrightarrow> (case c of (rs, net) \<Rightarrow> length rs = n \<and> tr_inv T net \<and>
     (\<forall>r < n. pg_pc (rs ! r) \<le> length (prog r) \<and>
        pg_state (rs ! r) = (if r = root \<or> 0 < pg_pc (rs ! r) then final r else init r)) \<and>
     (\<forall>d < n. d \<noteq> root \<longrightarrow> (0 < pg_pc (rs ! d) \<longrightarrow> sent rs d) \<and>
        tr_pend T net d (key d) = (if sent rs d \<and> pg_pc (rs ! d) = 0 then [out d (final (parent d))] else [])))"

lemma tree_invD:
  assumes "tree_inv T (rs, net)"
  shows "length rs = n" "tr_inv T net"
    and "r < n \<Longrightarrow> pg_pc (rs ! r) \<le> length (prog r)"
    and "r < n \<Longrightarrow> pg_state (rs ! r) = (if r = root \<or> 0 < pg_pc (rs ! r) then final r else init r)"
    and "d < n \<Longrightarrow> d \<noteq> root \<Longrightarrow> 0 < pg_pc (rs ! d) \<Longrightarrow> sent rs d"
    and "d < n \<Longrightarrow> d \<noteq> root \<Longrightarrow>
      tr_pend T net d (key d) = (if sent rs d \<and> pg_pc (rs ! d) = 0 then [out d (final (parent d))] else [])"
  using assms by (auto simp: tree_inv_def)

lemma tree_invI:
  assumes "length rs = n" "tr_inv T net"
    and "\<And>r. r < n \<Longrightarrow> pg_pc (rs ! r) \<le> length (prog r) \<and>
        pg_state (rs ! r) = (if r = root \<or> 0 < pg_pc (rs ! r) then final r else init r)"
    and "\<And>d. d < n \<Longrightarrow> d \<noteq> root \<Longrightarrow> 0 < pg_pc (rs ! d) \<Longrightarrow> sent rs d"
    and "\<And>d. d < n \<Longrightarrow> d \<noteq> root \<Longrightarrow>
      tr_pend T net d (key d) = (if sent rs d \<and> pg_pc (rs ! d) = 0 then [out d (final (parent d))] else [])"
  shows "tree_inv T (rs, net)"
  using assms by (simp add: tree_inv_def)

lemma tree_inv_init: "root < n \<Longrightarrow> tr_empty T net \<Longrightarrow> tree_inv T (prog_init n init net)"
  unfolding prog_init_def
  by (rule tree_invI) (use parent in \<open>auto simp: tr_empty_def final_root sent_def\<close>)

lemma prog_recv: "prog r ! k = ARecv t u \<Longrightarrow> k < length (prog r) \<Longrightarrow> r \<noteq> root \<and> k = 0 \<and> t = key r \<and> u = upd r"
  by (cases k) (auto simp: tree_prog_def nth_append split: if_splits)

lemma prog_send:
  assumes "prog r ! k = ASend d t u" "k < length (prog r)"
  shows "(r = root \<or> 0 < k) \<and> k - (if r = root then 0 else 1) < length (children r) \<and>
    d = children r ! (k - (if r = root then 0 else 1)) \<and> t = key d \<and> u = out d"
  using assms by (cases k) (auto simp: tree_prog_def split: if_splits)

lemma sent_after_recv:
  assumes "r < length rs" "r \<noteq> root" "pg_pc (rs ! r) = 0" "pg_pc x = Suc 0"
  shows "sent (rs[r := x]) d = sent rs d"
  using assms by (cases "parent d = r") (simp_all add: sent_def)

lemma sent_after_send:
  assumes r: "r < length rs" and k: "k = pg_pc (rs ! r)" "pg_pc x = Suc k" "r = root \<or> 0 < k"
    and i: "i = k - (if r = root then 0 else 1)" "i < length (children r)"
  shows "sent (rs[r := x]) d \<longleftrightarrow> sent rs d \<or> parent d = r \<and> d = children r ! i"
proof (cases "parent d = r")
  case True
  have "Suc k - (if r = root then 0 else 1) = Suc i" using k(3) i(1) by auto
  then have "sent (rs[r := x]) d \<longleftrightarrow> d \<in> set (take (Suc i) (children r))" using True r k by (simp add: sent_def)
  also have "\<dots> \<longleftrightarrow> d \<in> set (take i (children r)) \<or> d = children r ! i" using i(2) by (auto simp: take_Suc_conv_app_nth)
  also have "d \<in> set (take i (children r)) \<longleftrightarrow> sent rs d" using True i(1) k(1) by (simp add: sent_def)
  finally show ?thesis using True by blast
qed (simp add: sent_def)

lemma inv_move_send:
  assumes root: "root < n" and T: "transport_ok T" and inv: "tree_inv T (rs, net)" and r: "r < length rs" "pg_pc (rs ! r) < length (prog r)"
    and a: "prog r ! pg_pc (rs ! r) = ASend d t u"
  shows "tree_inv T (rs[r := (rs ! r)\<lparr>pg_pc := Suc (pg_pc (rs ! r))\<rparr>], tr_send T net d t (u (pg_state (rs ! r))))"
proof -
  note D = tree_invD[OF inv]
  let ?k = "pg_pc (rs ! r)" and ?x = "(rs ! r)\<lparr>pg_pc := Suc (pg_pc (rs ! r))\<rparr>"
  let ?i = "?k - (if r = root then 0 else 1)" and ?net = "tr_send T net d t (u (pg_state (rs ! r)))"
  have rn: "r < n" using r(1) D(1) by simp
  note s = prog_send[OF a r(2)]
  have d: "d < n" "d \<noteq> root" "parent d = r" using child[OF root rn, of d] s by auto
  have i: "?i < length (children r)" "d = children r ! ?i" "t = key d" "u = out d" "r = root \<or> 0 < ?k" using s by auto
  have state: "pg_state (rs ! r) = final r" using D(4)[OF rn] i(5) by auto
  have sn: "sent (rs[r := ?x]) e \<longleftrightarrow> sent rs e \<or> e = d" for e
    using sent_after_send[of r rs ?k ?x ?i e] r(1) i d(3) by auto
  have "d \<notin> set (take ?i (children r))"
    using distinct[OF root rn] i(1,2) by (auto simp: in_set_conv_nth nth_eq_iff_index_eq)
  then have new: "\<not> sent rs d" using d(3) by (simp add: sent_def)
  then have pc0: "pg_pc (rs ! d) = 0" and free: "tr_pend T net d t = []" using D(5,6)[OF d(1,2)] i(3) by auto
  have "d \<noteq> r" using parent[OF root d(1,2)] d(3) by auto
  have pend: "tr_pend T ?net e (key e) = (if sent (rs[r := ?x]) e \<and> pg_pc (rs[r := ?x] ! e) = 0 then [out e (final (parent e))] else [])"
    if e: "e < n" "e \<noteq> root" for e
  proof (cases "e = d")
    case True
    then show ?thesis using transport_send(2)[OF T D(2) free] i(3,4) state d(3) sn pc0 \<open>d \<noteq> r\<close> by simp
  next
    case False
    then have "pg_pc (rs[r := ?x] ! e) = 0 \<longleftrightarrow> pg_pc (rs ! e) = 0" if "e = r \<Longrightarrow> 0 < ?k"
      using that r(1) by (cases "e = r") auto
    moreover have "e = r \<Longrightarrow> 0 < ?k" using i(5) e(2) by auto
    ultimately show ?thesis using transport_send(2)[OF T D(2) free] D(6)[OF e] sn False by auto
  qed
  show ?thesis
  proof (rule tree_invI)
    fix e assume e: "e < n"
    show "pg_pc (rs[r := ?x] ! e) \<le> length (prog e) \<and>
        pg_state (rs[r := ?x] ! e) = (if e = root \<or> 0 < pg_pc (rs[r := ?x] ! e) then final e else init e)"
      using D(3,4)[OF e] r state i(5) by (cases "e = r") auto
    assume "e \<noteq> root" "0 < pg_pc (rs[r := ?x] ! e)"
    then show "sent (rs[r := ?x]) e" using D(5)[OF e] sn i(5) r(1) by (cases "e = r") auto
  qed (use D(1) transport_send(1)[OF T D(2) free] pend in simp_all)
qed

lemma inv_move_recv:
  assumes root: "root < n" and T: "transport_ok T" and inv: "tree_inv T (rs, net)" and r: "r < length rs" "pg_pc (rs ! r) < length (prog r)"
    and a: "prog r ! pg_pc (rs ! r) = ARecv t u" and rv: "tr_recv T net r t = Some (p, net')"
  shows "tree_inv T (rs[r := \<lparr>pg_state = u (pg_state (rs ! r)) p, pg_pc = Suc (pg_pc (rs ! r))\<rparr>], net')"
proof -
  note D = tree_invD[OF inv]
  let ?x = "\<lparr>pg_state = u (pg_state (rs ! r)) p, pg_pc = Suc (pg_pc (rs ! r))\<rparr>"
  have s: "r \<noteq> root" "pg_pc (rs ! r) = 0" "t = key r" "u = upd r" using prog_recv[OF a r(2)] by auto
  have rn: "r < n" using r(1) D(1) by simp
  note tr = transport_recv[OF T D(2) rv]
  have m: "sent rs r" "p = out r (final (parent r))" "tr_pend T net' r (key r) = []"
    using tr(2) D(6)[OF rn s(1)] s(2,3) by (auto split: if_splits)
  have st: "pg_state ?x = final r" using final_child[OF root rn s(1)] D(4)[OF rn] s m(2) by simp
  have sn: "sent (rs[r := ?x]) e = sent rs e" for e using sent_after_recv[OF r(1) s(1,2), of ?x e] s(2) by simp
  show ?thesis
  proof (rule tree_invI)
    fix e assume e: "e < n"
    show "pg_pc (rs[r := ?x] ! e) \<le> length (prog e) \<and>
        pg_state (rs[r := ?x] ! e) = (if e = root \<or> 0 < pg_pc (rs[r := ?x] ! e) then final e else init e)"
      using D(3,4)[OF e] r st by (cases "e = r") auto
    assume ne: "e \<noteq> root"
    show "sent (rs[r := ?x]) e" if "0 < pg_pc (rs[r := ?x] ! e)" using that D(5)[OF e ne] sn m(1) r(1) by (cases "e = r") auto
    show "tr_pend T net' e (key e) = (if sent (rs[r := ?x]) e \<and> pg_pc (rs[r := ?x] ! e) = 0 then [out e (final (parent e))] else [])"
      using D(6)[OF e ne] tr(3)[of e "key e"] m(3) sn r(1) by (cases "e = r") auto
  qed (use D(1) tr(1) in simp_all)
qed

lemma tree_inv_steps:
  assumes root: "root < n" and T: "transport_ok T" and inv: "tree_inv T c"
  shows "(prog_step prog T ^^ k) c c' \<Longrightarrow> tree_inv T c'"
proof (induction k arbitrary: c')
  case (Suc k)
  then obtain rs net r where c1: "(prog_step prog T ^^ k) c (rs, net)" "prog_move prog T r (rs, net) = Some c'"
    by (auto elim: prog_step.cases)
  from c1(2) Suc.IH[OF c1(1)] show ?case
    by (cases rule: prog_moveE) (auto intro: inv_move_send[OF root T] inv_move_recv[OF root T])
qed (use inv in simp)

text \<open>The unfinished rank closest to the root can move.\<close>

lemma tree_progress:
  assumes root: "root < n" and T: "transport_ok T" and inv: "tree_inv T (rs, net)" and r: "r < n" "pg_pc (rs ! r) < length (prog r)"
  shows "\<exists>c'. prog_step prog T (rs, net) c'"
proof -
  note D = tree_invD[OF inv]
  obtain q where q: "q < n" "pg_pc (rs ! q) < length (prog q)"
    and least: "\<And>e. e < n \<Longrightarrow> pg_pc (rs ! e) < length (prog e) \<Longrightarrow> depth q \<le> depth e"
    using ex_has_least_nat[of "\<lambda>e. e < n \<and> pg_pc (rs ! e) < length (prog e)" r depth] r by blast
  show ?thesis
  proof (cases "prog q ! pg_pc (rs ! q)")
    case (ASend d t u)
    then have "prog_move prog T q (rs, net) \<noteq> None" using q D(1) by (simp add: prog_move_def Let_def)
    then show ?thesis by (blast intro: prog_step.move)
  next
    case (ARecv t u)
    then have s: "q \<noteq> root" "pg_pc (rs ! q) = 0" "t = key q" using prog_recv q(2) by blast+
    note p = parent[OF root q(1) s(1)]
    have "pg_pc (rs ! parent q) = length (prog (parent q))"
      using D(3)[of "parent q"] least[of "parent q"] p by (meson le_neq_implies_less not_le)
    then have "sent rs q" using p by (simp add: sent_def tree_prog_def)
    then have "tr_pend T net q t \<noteq> []" using D(6)[OF q(1) s(1)] s by simp
    then obtain x net' where "tr_recv T net q t = Some (x, net')" by (rule transport_ready[OF T D(2)])
    then have "prog_move prog T q (rs, net) \<noteq> None" using ARecv q D(1) by (simp add: prog_move_def Let_def)
    then show ?thesis by (blast intro: prog_step.move)
  qed
qed

lemma tree_edges:
  assumes root: "root < n"
  shows "(\<Sum>r < n. length (children r)) = n - 1"
proof -
  have "(\<Sum>r < n. length (children r)) = (\<Sum>r < n. card (set (children r)))"
    by (intro sum.cong refl) (simp add: distinct[OF root] distinct_card)
  also have "\<dots> = card (\<Union>r < n. set (children r))"
  proof (rule card_UN_disjoint[symmetric])
    show "\<forall>r \<in> {..<n}. \<forall>r' \<in> {..<n}. r \<noteq> r' \<longrightarrow> set (children r) \<inter> set (children r') = {}"
      using child[OF root] by (metis disjoint_iff lessThan_iff)
  qed auto
  also have "(\<Union>r < n. set (children r)) = {..<n} - {root}"
  proof (intro equalityI subsetI)
    fix d assume "d \<in> {..<n} - {root}"
    then have "parent d < n" "d \<in> set (children (parent d))" using parent[OF root, of d] by auto
    then show "d \<in> (\<Union>r < n. set (children r))" by blast
  qed (use child[OF root] in auto)
  finally show ?thesis using root by simp
qed

lemma tree_moves:
  assumes root: "root < n"
  shows "(\<Sum>r < n. length (prog r)) = 2 * (n - 1)"
proof -
  have "(\<Sum>r < n. length (prog r)) = (\<Sum>r < n. (if r = root then 0 else 1) + length (children r))"
    by (intro sum.cong refl) (simp add: tree_prog_def)
  also have "\<dots> = (\<Sum>r < n. if r = root then 0 else 1) + (n - 1)" by (simp add: sum.distrib tree_edges[OF root])
  also have "(\<Sum>r < n. if r = root then 0 else 1) = card ({..<n} - {root})"
    by (subst sum.remove[of _ root]) (use root in auto)
  finally show ?thesis using root by simp
qed

lemma tree_outcome:
  assumes root: "root < n" and T: "transport_ok T" and empty: "tr_empty T net"
    and run: "(prog_step prog T ^^ moves) (prog_init n init net) (rs, net')"
  shows "moves \<le> 2 * (n - 1) \<and>
    ((\<exists>r < n. pg_pc (rs ! r) < length (prog r)) \<longrightarrow> (\<exists>c'. prog_step prog T (rs, net') c')) \<and>
    ((\<nexists>c'. prog_step prog T (rs, net') c') \<longrightarrow> (\<forall>r < n. pg_state (rs ! r) = final r))"
proof -
  have inv: "tree_inv T (rs, net')" using tree_inv_steps[OF root T tree_inv_init[OF root empty] run] .
  have "prog_left prog (prog_init n init net) = (\<Sum>r < n. length (prog r))" by (simp add: prog_left_def prog_init_def)
  with prog_steps_left[OF run] tree_moves[OF root] have "moves \<le> 2 * (n - 1)" by simp
  moreover have "pg_state (rs ! r) = final r" if "\<nexists>c'. prog_step prog T (rs, net') c'" "r < n" for r
  proof -
    have "\<not> pg_pc (rs ! r) < length (prog r)" using tree_progress[OF root T inv] that by blast
    then have "r \<noteq> root \<Longrightarrow> 0 < pg_pc (rs ! r)" by (auto simp: tree_prog_def split: if_splits)
    then show ?thesis using tree_invD(4)[OF inv that(2)] by auto
  qed
  ultimately show ?thesis using tree_progress[OF root T inv] by blast
qed

end

end
