(* ===== verification/Bruck.thy ===== *)
theory Bruck
  imports Ring Am_Router
begin

section \<open>Bruck allgather (\<open>pluvio_collective/src/ucx_backend/bruck.rs\<close>)\<close>

text \<open>
  In each round a rank sends the slots it owns to the rank \<open>count\<close> below it and appends what the rank
  \<open>count\<close> above it owns; when all slots are owned a local rotation puts them in rank order. The rounds
  are a \<open>protocol\<close> over receive keys, so they inherit the execution lemmas of \<open>tagged_rounds\<close>; the
  routers of all ranks are a transport for them.
\<close>

declare map_of_eq_Some_iff [simp del]

subsection \<open>The routers as a transport\<close>

text \<open>
  A send is the delivery at the router of the receiving rank; a receive is the first poll of a receive
  future, which takes the message that is there. (A future polled earlier gets the same message.)
\<close>

definition router_send :: "(nat \<Rightarrow> 'w am_router) \<Rightarrow> nat \<Rightarrow> recv_key \<Rightarrow> u8 list \<Rightarrow> nat \<Rightarrow> 'w am_router" where
  "router_send net d key bytes = net(d := deliver key bytes (net d))"

definition router_recv :: "(nat \<Rightarrow> 'w am_router) \<Rightarrow> nat \<Rightarrow> recv_key \<Rightarrow> (u8 list \<times> (nat \<Rightarrow> 'w am_router)) option" where
  "router_recv net d key =
     (case take_early key (net d) of (Some bytes, w) \<Rightarrow> Some (bytes, net(d := w)) | (None, w) \<Rightarrow> None)"

definition router_pend :: "(nat \<Rightarrow> 'w am_router) \<Rightarrow> nat \<Rightarrow> recv_key \<Rightarrow> u8 list list" where
  "router_pend net d key = (case map_of (ar_slots (net d)) key of Some (SlotEarly bytes) \<Rightarrow> [bytes] | _ \<Rightarrow> [])"

definition router_idle :: "'w am_router \<Rightarrow> bool" where
  "router_idle w \<longleftrightarrow> distinct (map fst (ar_slots w)) \<and> (\<forall>key p. map_of (ar_slots w) key \<noteq> Some (SlotPending p))"

definition router_transport :: "(nat \<Rightarrow> 'w am_router, u8 list, recv_key) transport" where
  "router_transport = \<lparr>tr_send = router_send, tr_recv = router_recv, tr_pend = router_pend,
     tr_inv = \<lambda>net. \<forall>d. router_idle (net d)\<rparr>"

lemma router_transport_simps [simp]:
  "tr_send router_transport = router_send" "tr_recv router_transport = router_recv"
  "tr_pend router_transport = router_pend" "tr_inv router_transport net \<longleftrightarrow> (\<forall>d. router_idle (net d))"
  by (simp_all add: router_transport_def)

lemma router_pend_None: "router_idle (net d) \<Longrightarrow> router_pend net d key = [] \<longleftrightarrow> map_of (ar_slots (net d)) key = None"
  by (auto simp: router_pend_def router_idle_def split: option.splits slot.splits)

lemma router_recv_cases:
  assumes "router_idle (net d)"
  shows "router_recv net d key = (case map_of (ar_slots (net d)) key of Some (SlotEarly bytes) \<Rightarrow>
     Some (bytes, net(d := (net d)\<lparr>ar_slots := AList.delete key (ar_slots (net d))\<rparr>)) | _ \<Rightarrow> None)"
  by (simp add: router_recv_def take_early_def split: option.splits slot.splits)

lemma transport_ok_router: "transport_ok (router_transport :: (nat \<Rightarrow> 'w am_router, u8 list, recv_key) transport)"
  unfolding transport_ok_def router_transport_simps
proof (intro conjI allI impI)
  fix net :: "nat \<Rightarrow> 'w am_router" and d t p
  assume inv: "\<forall>d. router_idle (net d)" and free: "router_pend net d t = []"
  have slot: "map_of (ar_slots (net d)) t = None" using free router_pend_None inv by blast
  show "router_idle (router_send net d t p d')" for d'
    using inv deliver_free[OF slot] by (auto simp: router_send_def router_idle_def split: if_splits)
  show "router_pend (router_send net d t p) d' t' = (if d' = d \<and> t' = t then [p] else router_pend net d' t')" for d' t'
    using inv deliver_free[OF slot] by (auto simp: router_send_def router_pend_def router_idle_def)
next
  fix net :: "nat \<Rightarrow> 'w am_router" and d t
  assume inv: "\<forall>d. router_idle (net d)"
  then show "(router_recv net d t = None) = (router_pend net d t = [])"
    by (auto simp: router_recv_cases router_pend_def split: option.splits slot.splits)
  fix p net' assume "router_recv net d t = Some (p, net')"
  then have r: "map_of (ar_slots (net d)) t = Some (SlotEarly p)"
    "net' = net(d := (net d)\<lparr>ar_slots := AList.delete t (ar_slots (net d))\<rparr>)"
    using inv by (auto simp: router_recv_cases split: option.splits slot.splits)
  show "router_idle (net' d')" for d' using inv r(2) by (auto simp: router_idle_def split: if_splits)
  show "router_pend net d t = p # router_pend net' d t" using inv r by (auto simp: router_pend_def router_idle_def)
  show "router_pend net' d' t' = router_pend net d' t'" if "(d', t') \<noteq> (d, t)" for d' t'
    using that inv r(2) by (auto simp: router_pend_def router_idle_def)
qed

subsection \<open>The protocol\<close>

definition PHASE_BRUCK :: u8 where
  "PHASE_BRUCK = 4"

text \<open>The contributions owned after \<open>k\<close> rounds, and the number of rounds of the loop from \<open>count\<close>.\<close>

fun bruck_count :: "nat \<Rightarrow> nat \<Rightarrow> nat" where
  "bruck_count n 0 = 1"
| "bruck_count n (Suc k) = (let cnt = bruck_count n k; to_send = min cnt (n - cnt) in cnt + to_send)"

function bruck_rounds :: "nat \<Rightarrow> nat \<Rightarrow> nat" where
  "bruck_rounds n cnt =
     (if 0 < cnt \<and> cnt < n then Suc (bruck_rounds n (cnt + min cnt (n - cnt))) else 0)"
  by pat_completeness auto
termination by (relation "measure (\<lambda>(n, cnt). n - cnt)") auto

declare bruck_rounds.simps [simp del]

definition bruck_key :: "nat \<Rightarrow> nat \<Rightarrow> recv_key" where
  "bruck_key src k = recv_key_from \<lparr>ah_src = of_nat src, ah_step = of_nat k, ah_phase = PHASE_BRUCK, ah_micro_chunk = 0\<rparr>"

definition bruck_protocol :: "nat \<Rightarrow> nat \<Rightarrow> ('a list, 'a list, recv_key) protocol" where
  "bruck_protocol n l =
     \<lparr>pr_size = n, pr_rounds = bruck_rounds n 1,
      pr_out = \<lambda>k r buf. slice 0 (min (bruck_count n k) (n - bruck_count n k) * l) buf,
      pr_next = \<lambda>k r. (r + n - bruck_count n k) mod n,
      pr_prev = \<lambda>k r. (r + bruck_count n k) mod n,
      pr_stag = \<lambda>k r. bruck_key r k,
      pr_rtag = \<lambda>k r. bruck_key ((r + bruck_count n k) mod n) k,
      pr_upd = \<lambda>k r buf msg. write_slice (bruck_count n k * l) msg buf\<rparr>"

definition bruck_endpoint :: "(nat \<Rightarrow> bool) \<Rightarrow> nat \<Rightarrow> nat \<Rightarrow> nat \<Rightarrow> collective_error + nat" where
  "bruck_endpoint has_endpoint n rank k =
     (let send_peer = (rank + n - bruck_count n k) mod n
      in if has_endpoint send_peer then Inr send_peer else Inl (Protocol ''bruck: missing endpoint''))"

text \<open>The final rotation; \<open>send_buf[0]\<close> is evaluated to fill the temporary buffer.\<close>

definition bruck_rotate :: "nat \<Rightarrow> nat \<Rightarrow> 'a list \<Rightarrow> 'a list \<Rightarrow> 'a list run" where
  "bruck_rotate n rank send_buf recv_buf =
     (let l = length send_buf
      in case send_buf of [] \<Rightarrow> Inl (Panic ''index out of bounds'')
         | x # _ \<Rightarrow> Inr (fold (\<lambda>k rotated. write_slice ((rank + k) mod n * l) (slice (k * l) l recv_buf) rotated)
                          [0..<n] (replicate (length recv_buf) x)))"

text \<open>
  The start: \<open>Inr (Inl buf)\<close> returns at once with \<open>buf\<close>, \<open>Inr (Inr (buf, P))\<close> runs the rounds of
  \<open>P\<close> from \<open>buf\<close>.
\<close>

definition bruck_allgather ::
  "nat \<Rightarrow> nat \<Rightarrow> 'a list \<Rightarrow> 'a list \<Rightarrow> collective_error + ('a list + 'a list \<times> ('a list, 'a list, recv_key) protocol)" where
  "bruck_allgather n rank send_buf recv_buf =
     (let l = length send_buf
      in if length recv_buf \<noteq> l * n then Inl BadShape
         else if n = 1 then Inr (Inl send_buf)
         else Inr (Inr (write_slice 0 send_buf recv_buf, bruck_protocol n l)))"

subsection \<open>Rounds\<close>

lemma bruck_count_bounds: "0 < n \<Longrightarrow> 0 < bruck_count n k \<and> bruck_count n k \<le> n"
  by (induction k) (auto simp: Let_def)

lemma bruck_rounds_le: "bruck_rounds n c \<le> n - c"
  by (induction n c rule: bruck_rounds.induct) (subst bruck_rounds.simps, auto)

lemma bruck_rounds_count:
  assumes "0 < n"
  shows "(\<forall>k < bruck_rounds n (bruck_count n j). bruck_count n (j + k) < n) \<and>
    bruck_count n (j + bruck_rounds n (bruck_count n j)) = n"
proof (induction "n - bruck_count n j" arbitrary: j rule: less_induct)
  case less
  note b = bruck_count_bounds[OF assms, of j]
  show ?case
  proof (cases "bruck_count n j < n")
    case False
    then show ?thesis using b by (subst (1 2) bruck_rounds.simps) simp
  next
    case True
    let ?R = "bruck_rounds n (bruck_count n (Suc j))"
    have R: "bruck_rounds n (bruck_count n j) = Suc ?R" using True b by (subst bruck_rounds.simps) (simp add: Let_def)
    have "n - bruck_count n (Suc j) < n - bruck_count n j" using True b by (simp add: Let_def)
    note IH = less[OF this]
    have "bruck_count n (j + k) < n" if "k < Suc ?R" for k
      using that True IH by (cases k) auto
    then show ?thesis using IH unfolding R by simp
  qed
qed

lemma bruck_round_count: "0 < n \<Longrightarrow> k < bruck_rounds n 1 \<Longrightarrow> bruck_count n k < n"
  and bruck_last_count: "0 < n \<Longrightarrow> bruck_count n (bruck_rounds n 1) = n"
  using bruck_rounds_count[of n 0] by simp_all

lemma bruck_endpoint_known:
  assumes n: "rank < n" and k: "k < bruck_rounds n 1" and ep: "\<And>p. p < n \<Longrightarrow> p \<noteq> rank \<Longrightarrow> has_endpoint p"
  shows "bruck_endpoint has_endpoint n rank k = Inr ((rank + n - bruck_count n k) mod n)"
proof -
  let ?c = "bruck_count n k"
  have c: "0 < ?c" "?c < n" using bruck_count_bounds[of n k] bruck_round_count[OF _ k] n by auto
  have "(rank + n - ?c) mod n \<noteq> rank"
  proof
    assume a: "(rank + n - ?c) mod n = rank"
    show False
    proof (cases "?c \<le> rank")
      case True
      then have "(rank + n - ?c) mod n = rank - ?c" using n by (simp add: mod_if)
      then show False using a c True by simp
    next
      case False
      then have "(rank + n - ?c) mod n = rank + n - ?c" using c by simp
      then show False using a c by simp
    qed
  qed
  then show ?thesis using ep[of "(rank + n - ?c) mod n"] n by (simp add: bruck_endpoint_def Let_def)
qed

lemma bruck_key_inj:
  assumes "r < 2 ^ 16" "r' < 2 ^ 16" "k < 2 ^ 16" "k' < 2 ^ 16"
  shows "bruck_key r k = bruck_key r' k' \<longleftrightarrow> r = r' \<and> k = k'"
  using assms by (auto simp: bruck_key_def recv_key_from_def u16_of_nat_inj)

lemma bruck_protocol_simps [simp]:
  "pr_size (bruck_protocol n l) = n" "pr_rounds (bruck_protocol n l) = bruck_rounds n 1"
  "pr_next (bruck_protocol n l) k r = (r + n - bruck_count n k) mod n"
  "pr_prev (bruck_protocol n l) k r = (r + bruck_count n k) mod n"
  "pr_stag (bruck_protocol n l) k r = bruck_key r k"
  "pr_rtag (bruck_protocol n l) k r = bruck_key ((r + bruck_count n k) mod n) k"
  "pr_out (bruck_protocol n l) k r buf = slice 0 (min (bruck_count n k) (n - bruck_count n k) * l) buf"
  "pr_upd (bruck_protocol n l) k r buf msg = write_slice (bruck_count n k * l) msg buf"
  by (simp_all add: bruck_protocol_def)

lemma mod_shift_back:
  assumes "r < n" "c \<le> (n :: nat)"
  shows "((r + n - c) mod n + c) mod n = r" "((r + c) mod n + n - c) mod n = r"
proof -
  have "((r + n - c) mod n + c) mod n = (r + n - c + c) mod n" by (simp add: mod_add_left_eq)
  with assms show "((r + n - c) mod n + c) mod n = r" by simp
  have "((r + c) mod n + n - c) mod n = ((r + c) mod n + (n - c)) mod n" using assms by simp
  also have "\<dots> = (r + c + (n - c)) mod n" by (simp add: mod_add_left_eq)
  finally show "((r + c) mod n + n - c) mod n = r" using assms by simp
qed

interpretation bruck: tagged_rounds "bruck_protocol n l"
proof
  let ?P = "bruck_protocol n l"
  fix r k assume r: "r < pr_size ?P" "k < pr_rounds ?P"
  then have n: "0 < n" "bruck_count n k \<le> n" using bruck_count_bounds[of n k] by auto
  show "pr_next ?P k r < pr_size ?P \<and> pr_prev ?P k r < pr_size ?P" using n by simp
  show "pr_prev ?P k (pr_next ?P k r) = r" "pr_next ?P k (pr_prev ?P k r) = r" using mod_shift_back[of r n] r n by simp_all
  show "pr_rtag ?P k r = pr_stag ?P k (pr_prev ?P k r)" by simp
  fix r' k' assume small: "pr_size ?P \<le> 2 ^ 16" and r': "r' < pr_size ?P" "k' < pr_rounds ?P"
    and eq: "pr_stag ?P k r = pr_stag ?P k' r'"
  have "k < 2 ^ 16" "k' < 2 ^ 16" using r(2) r'(2) bruck_rounds_le[of n 1] small by simp_all
  then show "k = k' \<and> r = r'" using eq r(1) r'(1) small bruck_key_inj[of r r' k k'] by simp
qed

lemma chunk_at_write_block:
  assumes l: "length xs = n * l" "length v = m * l" and c: "c + m \<le> n" "j < c + m"
  shows "chunk_at l j (write_slice (c * l) v xs) = (if j < c then chunk_at l j xs else chunk_at l (j - c) v)"
proof -
  have cl: "c * l \<le> n * l" using c by (intro mult_le_mono1) simp
  show ?thesis
  proof (cases "j < c")
    case True
    have "j * l + l \<le> c * l" using chunk_bound[OF True, of l] .
    then have "chunk_at l j (take (c * l) xs @ v @ drop (c * l + length v) xs) = take l (drop (j * l) (take (c * l) xs))"
      using l(1) cl by (simp add: slice_def)
    also have "\<dots> = chunk_at l j xs" using \<open>j * l + l \<le> c * l\<close> by (simp add: slice_def drop_take min_def)
    finally show ?thesis using True by (simp add: write_slice_def)
  next
    case False
    then have jm: "j - c < m" "j * l = c * l + (j - c) * l" using c by (auto simp: algebra_simps)
    then show ?thesis using l cl chunk_bound[OF jm(1), of l] False by (simp add: slice_def write_slice_def)
  qed
qed

lemma chunk_at_prefix: "j < m \<Longrightarrow> chunk_at l j (slice 0 (m * l) xs) = chunk_at l j xs"
  using chunk_bound[of j m l] by (simp add: slice_def drop_take)

text \<open>After \<open>k\<close> rounds rank \<open>r\<close> owns the contributions of the ranks from \<open>r\<close> on.\<close>

lemma bruck_lockstep:
  assumes n: "0 < n" and B: "\<And>r. r < n \<Longrightarrow> length (B r) = n * l \<and> chunk_at l 0 (B r) = S r"
  shows "k \<le> bruck_rounds n 1 \<Longrightarrow> r < n \<Longrightarrow> length (lockstep (bruck_protocol n l) B k r) = n * l \<and>
    (\<forall>j < bruck_count n k. chunk_at l j (lockstep (bruck_protocol n l) B k r) = S ((r + j) mod n))"
proof (induction k arbitrary: r)
  case 0
  then show ?case using B by simp
next
  case (Suc k)
  let ?L = "lockstep (bruck_protocol n l) B k" and ?c = "bruck_count n k"
  let ?m = "min ?c (n - ?c)" and ?p = "(r + ?c) mod n"
  note b = bruck_count_bounds[OF n, of k]
  have IH: "length (?L q) = n * l" "\<And>j. j < ?c \<Longrightarrow> chunk_at l j (?L q) = S ((q + j) mod n)" if "q < n" for q
    using Suc.IH[OF _ that] Suc.prems(1) by auto
  have p: "?p < n" and m: "?c + ?m \<le> n" "?m \<le> ?c" using n b by auto
  have v: "length (slice 0 (?m * l) (?L ?p)) = ?m * l" using IH(1)[OF p] m mult_le_mono1[of ?m n l] by (simp add: slice_def)
  have step: "lockstep (bruck_protocol n l) B (Suc k) r = write_slice (?c * l) (slice 0 (?m * l) (?L ?p)) (?L r)"
    by (simp add: Let_def)
  have "?c * l + ?m * l \<le> n * l" using m(1) by (simp flip: add_mult_distrib)
  then have "length (lockstep (bruck_protocol n l) B (Suc k) r) = n * l"
    unfolding step using v IH(1)[OF Suc.prems(2)] by (simp add: length_write_slice)
  moreover have "chunk_at l j (lockstep (bruck_protocol n l) B (Suc k) r) = S ((r + j) mod n)" if j: "j < bruck_count n (Suc k)" for j
  proof (cases "j < ?c")
    case True
    then show ?thesis unfolding step using chunk_at_write_block[OF IH(1)[OF Suc.prems(2)] v m(1), of j] IH(2)[OF Suc.prems(2)] by simp
  next
    case False
    have jc: "j - ?c < ?m" using False j by (auto simp: Let_def)
    then have "chunk_at l j (lockstep (bruck_protocol n l) B (Suc k) r) = chunk_at l (j - ?c) (?L ?p)"
      unfolding step using chunk_at_write_block[OF IH(1)[OF Suc.prems(2)] v m(1), of j] False j
      by (simp add: chunk_at_prefix Let_def)
    also have "\<dots> = S ((?p + (j - ?c)) mod n)" using IH(2)[OF p] jc m(2) by simp
    also have "(?p + (j - ?c)) mod n = (r + ?c + (j - ?c)) mod n" by (rule mod_add_left_eq)
    also have "r + ?c + (j - ?c) = r + j" using False by simp
    finally show ?thesis .
  qed
  ultimately show ?case by blast
qed

subsection \<open>The rotation\<close>

lemma rotate_chunks:
  assumes x: "length x = n * l" and b: "length buf = n * l" and rank: "rank < n"
  shows "m \<le> n \<Longrightarrow>
    length (fold (\<lambda>k rot. write_slice ((rank + k) mod n * l) (slice (k * l) l buf) rot) [0..<m] x) = n * l \<and>
    (\<forall>k < m. chunk_at l ((rank + k) mod n) (fold (\<lambda>k rot. write_slice ((rank + k) mod n * l) (slice (k * l) l buf) rot) [0..<m] x)
       = chunk_at l k buf)"
proof (induction m)
  case (Suc m)
  let ?rot = "fold (\<lambda>k rot. write_slice ((rank + k) mod n * l) (slice (k * l) l buf) rot) [0..<m] x" and ?g = "(rank + m) mod n"
  have IH: "length ?rot = n * l" "\<And>k. k < m \<Longrightarrow> chunk_at l ((rank + k) mod n) ?rot = chunk_at l k buf" using Suc by auto
  have g: "?g < n" and c: "length (chunk_at l m buf) = l" using rank length_chunk_at[OF b, of m] Suc.prems by auto
  note w = chunk_at_write[OF IH(1) c _ g]
  have "length (write_slice (?g * l) (chunk_at l m buf) ?rot) = n * l"
    using IH(1) c chunk_bound[OF g, of l] by (simp add: length_write_slice)
  moreover have "chunk_at l ((rank + k) mod n) (write_slice (?g * l) (chunk_at l m buf) ?rot) = chunk_at l k buf" if "k < Suc m" for k
  proof (cases "k = m")
    case True
    then show ?thesis using w[OF g] by simp
  next
    case False
    then have "k < m" using that by simp
    moreover from this have "(rank + k) mod n \<noteq> ?g" using mod_add_inj[of k n m rank] Suc.prems by auto
    ultimately show ?thesis using w[of "(rank + k) mod n"] IH(2) rank by simp
  qed
  ultimately show ?case by simp
qed (simp add: x)

lemma bruck_rotate_correct:
  assumes n: "rank < n" and s: "send_buf \<noteq> []" and b: "length buf = n * length send_buf"
    and own: "\<And>j. j < n \<Longrightarrow> chunk_at (length send_buf) j buf = S ((rank + j) mod n)"
  shows "bruck_rotate n rank send_buf buf = Inr (concat (map S [0..<n]))"
proof -
  let ?l = "length send_buf" and ?x = "replicate (length buf) (hd send_buf)"
  let ?rot = "fold (\<lambda>k rot. write_slice ((rank + k) mod n * ?l) (slice (k * ?l) ?l buf) rot) [0..<n] ?x"
  have rot: "length ?rot = n * ?l" "\<And>k. k < n \<Longrightarrow> chunk_at ?l ((rank + k) mod n) ?rot = S ((rank + k) mod n)"
    using rotate_chunks[of ?x n ?l buf rank n] b n own by auto
  have "chunk_at ?l g ?rot = S g" if g: "g < n" for g
    using rot(2)[of "(g + n - rank) mod n"] mod_shift_back(1)[OF g, of rank] n by (simp add: add.commute)
  then have "?rot = concat (map S [0..<n])"
    using chunks_concat[OF rot(1)] by (metis (no_types, lifting) atLeastLessThan_iff map_eq_conv set_upt)
  then show ?thesis using s by (cases send_buf) (simp_all add: bruck_rotate_def Let_def)
qed

text \<open>
  C21 (functional). Bruck allgather, on any number of ranks from 2 to \<open>2^16\<close> with contributions of
  equal, non-zero length, over every transport with the receive contract and under every
  interleaving: no deadlock, every run ends within its round budget, and at the end the rotated buffer
  of every rank holds the contributions of all ranks in rank order.
\<close>

theorem bruck_allgather_correct:
  fixes S :: "nat \<Rightarrow> 'a list" and T :: "('n, 'a list, recv_key) transport"
  assumes n: "2 \<le> n" "n \<le> 2 ^ 16" and S: "\<And>r. r < n \<Longrightarrow> length (S r) = l" "0 < l"
    and R: "\<And>r. r < n \<Longrightarrow> length (R r) = l * n"
    and start: "\<And>r. r < n \<Longrightarrow> bruck_allgather n r (S r) (R r) = Inr (Inr (B r, bruck_protocol n l))"
    and T: "transport_ok T" "tr_empty T net"
    and run: "(async_step (bruck_protocol n l) T ^^ moves) (async_init (bruck_protocol n l) B net) (rs, net')"
  shows "moves \<le> 2 * n * bruck_rounds n 1 \<and>
    ((\<exists>r < n. rk_pc (rs ! r) < bruck_rounds n 1) \<longrightarrow> (\<exists>c'. async_step (bruck_protocol n l) T (rs, net') c')) \<and>
    ((\<nexists>c'. async_step (bruck_protocol n l) T (rs, net') c') \<longrightarrow>
       (\<forall>r < n. bruck_rotate n r (S r) (rk_state (rs ! r)) = Inr (concat (map S [0..<n]))))"
proof -
  have "B r = write_slice 0 (S r) (R r)" if "r < n" for r
    using start[OF that] S(1)[OF that] R[OF that] n by (simp add: bruck_allgather_def Let_def)
  then have B: "length (B r) = n * l \<and> chunk_at l 0 (B r) = S r" if "r < n" for r
    using that S(1)[OF that] R[OF that] n by (simp add: write_slice_def slice_def mult.commute)
  have n0: "0 < n" using n by simp
  have "bruck_rotate n r (S r) (lockstep (bruck_protocol n l) B (bruck_rounds n 1) r) = Inr (concat (map S [0..<n]))"
    if r: "r < n" for r
  proof (rule bruck_rotate_correct[OF r])
    show "S r \<noteq> []" using S(1)[OF r] S(2) by auto
  qed (use bruck_lockstep[OF n0 B, where k = "bruck_rounds n 1" and r = r] r S(1)[OF r] bruck_last_count[OF n0] in auto)
  moreover have "pr_size (bruck_protocol n l) \<le> 2 ^ 16" using n(2) by simp
  note bruck.outcome[OF this T run]
  ultimately show ?thesis by auto
qed

text \<open>Three ranks over their routers, one byte each.\<close>

theorem bruck_allgather_correct_witness:
  "\<exists>moves rs net'. (async_step (bruck_protocol 3 1) router_transport ^^ moves)
      (async_init (bruck_protocol 3 1) (\<lambda>r. [of_nat r, 0, 0]) (\<lambda>_. am_router_new (\<lambda>_. 0) :: string am_router)) (rs, net') \<and>
    bruck_rotate 3 2 [2] (rk_state (rs ! 2)) = Inr [0, 1, 2]"
proof -
  let ?P = "bruck_protocol 3 1" and ?S = "\<lambda>r. [of_nat r :: u8]" and ?B = "\<lambda>r. [of_nat r, 0, 0 :: u8]"
  let ?net = "\<lambda>_. am_router_new (\<lambda>_. 0) :: string am_router"
  let ?c = "async_init ?P ?B ?net" and ?step = "async_step ?P router_transport"
  have empty: "tr_empty router_transport ?net"
    by (simp add: tr_empty_def router_idle_def router_pend_def am_router_new_def)
  have rounds: "bruck_rounds 3 1 = 2" by (simp add: bruck_rounds.simps)
  have correct: "moves \<le> 12 \<and> ((\<nexists>c'. ?step (rs, net') c') \<longrightarrow> bruck_rotate 3 2 (?S 2) (rk_state (rs ! 2)) = Inr [0, 1, 2])"
    if "(?step ^^ moves) ?c (rs, net')" for moves rs net'
    using bruck_allgather_correct[where n = 3 and l = 1 and S = ?S and R = "\<lambda>_. [0, 0, 0]" and B = ?B,
        OF _ _ _ _ _ _ transport_ok_router empty that] rounds
    by (auto simp add: bruck_allgather_def Let_def write_slice_def upt_rec dest: spec[where x = 2])
  then have "\<And>k c. (?step ^^ k) ?c c \<Longrightarrow> k \<le> 12" by (metis prod.collapse)
  then obtain k rs net' where "(?step ^^ k) ?c (rs, net')" "\<nexists>c'. ?step (rs, net') c'"
    using relpowp_terminal[of ?step ?c 12] by (metis prod.collapse)
  with correct show ?thesis by fastforce
qed

text \<open>
  An allgather of empty contributions passes the shape check but, on two or more ranks,
  panics in the final rotation, on every rank, whatever was exchanged.
\<close>

theorem bruck_empty_panics:
  assumes "2 \<le> n"
  shows "(\<exists>buf P. bruck_allgather n rank [] ([] :: 'a list) = Inr (Inr (buf, P))) \<and>
    bruck_rotate n rank [] (recv_buf :: 'a list) = Inl (Panic ''index out of bounds'')"
  using assms by (simp add: bruck_allgather_def bruck_rotate_def Let_def)

theorem bruck_empty_panics_witness: "bruck_rotate 2 0 [] ([] :: u8 list) = Inl (Panic ''index out of bounds'')"
  using bruck_empty_panics[of 2 0 "[] :: u8 list"] by simp

end
