(* ===== verification/Rooted.thy ===== *)
theory Rooted
  imports Trees Bruck
begin

section \<open>Scatter and broadcast (\<open>ucx_backend/scatter.rs\<close>, \<open>ucx_backend/broadcast.rs\<close>)\<close>

text \<open>
  Both translate to the program of each rank: its sends and receives in the order of the code. The
  programs are shown to be trees, so they inherit the execution lemmas of \<open>one_to_all\<close>. A receive copies
  as many bytes as fit the target buffer.
\<close>

unbundle bit_operations_syntax

subsection \<open>Scatter\<close>

definition PHASE_SCATTER :: u8 where
  "PHASE_SCATTER = 2"

definition scatter_key :: "nat \<Rightarrow> recv_key" where
  "scatter_key root = recv_key_from \<lparr>ah_src = of_nat root, ah_step = of_nat root, ah_phase = PHASE_SCATTER, ah_micro_chunk = 0\<rparr>"

text \<open>The buffer after the local part and the actions that follow, or the error.\<close>

definition scatter ::
  "nat \<Rightarrow> nat \<Rightarrow> nat \<Rightarrow> (nat \<Rightarrow> bool) \<Rightarrow> 'a list option \<Rightarrow> 'a list \<Rightarrow>
   collective_error + 'a list \<times> ('a list, 'a list, recv_key) action list" where
  "scatter n rank root has_endpoint send_buf recv_buf =
     (if root \<ge> n then Inl (Protocol ''scatter: root out of range'')
      else if n = 1 then
        (case send_buf of None \<Rightarrow> Inl (Protocol ''scatter: send_buf required at root'')
         | Some sb \<Rightarrow> if length sb \<noteq> length recv_buf then Inl BadShape else Inr (sb, []))
      else let chunk = length recv_buf in
        if rank = root then
          (case send_buf of None \<Rightarrow> Inl (Protocol ''scatter: send_buf required at root'')
           | Some sb \<Rightarrow>
               if length sb \<noteq> chunk * n then Inl BadShape
               else if \<exists>r \<in> set [0..<n]. r \<noteq> root \<and> \<not> has_endpoint r then Inl (Protocol ''scatter: missing endpoint'')
               else Inr (slice (rank * chunk) chunk sb,
                         map (\<lambda>r. ASend r (scatter_key root) (\<lambda>_. slice (r * chunk) chunk sb)) (filter (\<lambda>r. r \<noteq> root) [0..<n])))
        else Inr (recv_buf, [ARecv (scatter_key root) recv_into]))"

text \<open>The state every rank starts with and ends with; \<open>R\<close> are the receive buffers.\<close>

definition scatter_start :: "nat \<Rightarrow> nat \<Rightarrow> 'a list \<Rightarrow> (nat \<Rightarrow> 'a list) \<Rightarrow> nat \<Rightarrow> 'a list" where
  "scatter_start root chunk sb R r = (if r = root then slice (r * chunk) chunk sb else R r)"

definition scatter_end :: "nat \<Rightarrow> nat \<Rightarrow> 'a list \<Rightarrow> (nat \<Rightarrow> 'a list) \<Rightarrow> nat \<Rightarrow> 'a list" where
  "scatter_end root chunk sb R r =
     (if r = root then slice (r * chunk) chunk sb else recv_into (R r) (slice (r * chunk) chunk sb))"

definition scatter_children :: "nat \<Rightarrow> nat \<Rightarrow> nat \<Rightarrow> nat list" where
  "scatter_children n root r = (if r = root then filter (\<lambda>r. r \<noteq> root) [0..<n] else [])"

interpretation scatter: one_to_all n root "\<lambda>_. root" "scatter_children n root" "\<lambda>r. if r = root then 0 else 1"
    "\<lambda>_. scatter_key root" "\<lambda>d _. slice (d * chunk) chunk sb" "\<lambda>_. recv_into"
    "scatter_start root chunk sb R" "scatter_end root chunk sb R"
  by unfold_locales (auto simp: scatter_children_def scatter_start_def scatter_end_def split: if_splits)

text \<open>
  Scatter, over every transport with the receive contract and under every interleaving:
  the shape check accepts exactly a send buffer of \<open>n\<close> chunks; no execution deadlocks, every execution
  ends within \<open>2 (n - 1)\<close> moves, and then every rank holds its own chunk of the root's buffer.
\<close>

theorem scatter_correct:
  fixes sb :: "'a list" and T :: "('n, 'a list, recv_key) transport"
  assumes n: "2 \<le> n" "root < n" and sb: "length sb = chunk * n" and R: "\<And>r. r < n \<Longrightarrow> length (R r) = chunk"
    and ep: "\<And>r. r < n \<Longrightarrow> r \<noteq> root \<Longrightarrow> has_endpoint r"
    and T: "transport_ok T" "tr_empty T net"
    and prog: "\<And>r. scatter n r root has_endpoint (if r = root then Some sb else None) (R r) = Inr (start r, prog r)"
    and run: "(prog_step prog T ^^ moves) (prog_init n start net) (rs, net')"
  shows "moves \<le> 2 * (n - 1) \<and>
    ((\<exists>r < n. pg_pc (rs ! r) < length (prog r)) \<longrightarrow> (\<exists>c'. prog_step prog T (rs, net') c')) \<and>
    ((\<nexists>c'. prog_step prog T (rs, net') c') \<longrightarrow> (\<forall>r < n. pg_state (rs ! r) = slice (r * chunk) chunk sb))"
proof -
  let ?tree = "tree_prog root (scatter_children n root) (\<lambda>_. scatter_key root) (\<lambda>d _. slice (d * chunk) chunk sb) (\<lambda>_. recv_into)"
  have n1: "n \<noteq> 1" "\<not> n \<le> root" using n by auto
  have eq: "start r = scatter_start root chunk sb R r \<and> prog r = ?tree r" for r
  proof (cases "r = root")
    case True
    have "\<not> (\<exists>r \<in> set [0..<n]. r \<noteq> root \<and> \<not> has_endpoint r)" using ep by (metis atLeastLessThan_iff set_upt)
    with True have "scatter n r root has_endpoint (Some sb) (R r) = Inr (slice (r * chunk) chunk sb,
        map (\<lambda>r. ASend r (scatter_key root) (\<lambda>_. slice (r * chunk) chunk sb)) (filter (\<lambda>r. r \<noteq> root) [0..<n]))"
      using R[OF n(2)] sb n1 by (simp add: scatter_def Let_def)
    then show ?thesis using prog[of r] True by (simp add: tree_prog_def scatter_children_def scatter_start_def)
  next
    case False
    then show ?thesis using prog[of r] n1 by (simp add: scatter_def Let_def tree_prog_def scatter_children_def scatter_start_def)
  qed
  then have p: "prog = ?tree" and st: "start = scatter_start root chunk sb R" by auto
  note out = scatter.tree_outcome[OF n(2) T run[unfolded p st]]
  have "scatter_end root chunk sb R r = slice (r * chunk) chunk sb" if "r < n" for r
    using length_chunk_at[of sb n chunk r] sb R[OF that] that by (simp add: scatter_end_def mult.commute)
  then show ?thesis using out unfolding p by auto
qed

text \<open>Three ranks, root 1, over a list of messages in flight.\<close>

definition demo_scatter :: "nat \<Rightarrow> (u8 list, u8 list, recv_key) action list" where
  "demo_scatter r = (if r = 1 then map (\<lambda>r. ASend r (scatter_key 1) (\<lambda>_. slice (r * 1) 1 [7, 8, 9])) [0, 2]
     else [ARecv (scatter_key 1) recv_into])"

definition demo_buffers :: "nat \<Rightarrow> u8 list" where
  "demo_buffers r = (if r = 1 then [8] else [0])"

theorem scatter_correct_witness:
  "\<exists>moves rs net'. (prog_step demo_scatter list_transport ^^ moves) (prog_init 3 demo_buffers []) (rs, net') \<and> pg_state (rs ! 2) = [9]"
proof -
  let ?c = "prog_init 3 demo_buffers []" and ?step = "prog_step demo_scatter list_transport"
  have empty: "tr_empty list_transport []" by (simp add: tr_empty_def list_transport_def)
  have "[0..<3] = [0, 1, 2 :: nat]" by (simp add: upt_rec)
  then have prog: "scatter 3 r 1 (\<lambda>_. True) (if r = 1 then Some [7, 8, 9] else None) [0] = Inr (demo_buffers r, demo_scatter r)" for r
    by (simp add: scatter_def slice_def demo_scatter_def demo_buffers_def)
  have correct: "moves \<le> 2 * (3 - 1) \<and> ((\<nexists>c'. ?step (rs, net') c') \<longrightarrow> (\<forall>r < 3. pg_state (rs ! r) = slice (r * 1) 1 [7, 8, 9]))"
    if "(?step ^^ moves) ?c (rs, net')" for moves rs net'
    using scatter_correct[where n = 3 and root = 1 and chunk = 1 and sb = "[7, 8, 9]" and R = "\<lambda>_. [0]" and has_endpoint = "\<lambda>_. True",
        OF _ _ _ _ _ transport_ok_list empty prog that] by simp
  then have "\<And>k c. (?step ^^ k) ?c c \<Longrightarrow> k \<le> 2 * (3 - 1)" by (metis prod.collapse)
  then obtain k rs net' where run: "(?step ^^ k) ?c (rs, net')" "\<nexists>c'. ?step (rs, net') c'"
    using relpowp_terminal[of ?step ?c "2 * (3 - 1)"] by (metis prod.collapse)
  from correct[OF run(1)] run(2) have "pg_state (rs ! 2) = slice (2 * 1) 1 [7, 8, 9]" by simp
  with run(1) show ?thesis by (auto simp: slice_def)
qed

subsection \<open>Broadcast\<close>

definition PHASE_BCAST :: u8 where
  "PHASE_BCAST = 5"

definition bcast_key :: "nat \<Rightarrow> nat \<Rightarrow> recv_key" where
  "bcast_key src k = recv_key_from \<lparr>ah_src = of_nat src, ah_step = of_nat k, ah_phase = PHASE_BCAST, ah_micro_chunk = 0\<rparr>"

text \<open>\<open>usize::BITS - x.leading_zeros()\<close>.\<close>

fun bit_len :: "nat \<Rightarrow> nat" where
  "bit_len x = (if x = 0 then 0 else Suc (bit_len (x div 2)))"

declare bit_len.simps [simp del]

definition logical_highest_bit :: "nat \<Rightarrow> nat" where
  "logical_highest_bit x = bit_len x - 1"

definition bcast_logical :: "nat \<Rightarrow> nat \<Rightarrow> nat \<Rightarrow> nat" where
  "bcast_logical n root rank = (rank + n - root) mod n"

definition bcast_rounds :: "nat \<Rightarrow> nat" where
  "bcast_rounds n = max (bit_len (n - 1)) 1"

text \<open>The loop over the rounds, as the actions of one rank.\<close>

fun bcast_loop :: "nat \<Rightarrow> nat \<Rightarrow> nat \<Rightarrow> nat \<Rightarrow> bool \<Rightarrow> nat list \<Rightarrow> ('a list, 'a list, recv_key) action list" where
  "bcast_loop n root rank logical have_data [] = []"
| "bcast_loop n root rank logical have_data (round # rest) =
     (if have_data then
        (let peer_logical = logical OR push_bit round 1
         in (if peer_logical \<noteq> logical \<and> peer_logical < n
             then [ASend ((peer_logical + root) mod n) (bcast_key rank round) (\<lambda>buf. buf)] else []) @
            bcast_loop n root rank logical have_data rest)
      else if round = logical_highest_bit logical then
        (let parent = (unset_bit round logical + root) mod n
         in ARecv (bcast_key parent round) recv_into # bcast_loop n root rank logical True rest)
      else bcast_loop n root rank logical have_data rest)"

text \<open>The endpoint of a peer is looked up before the send; without it the call ends there with an error.\<close>

fun bcast_lookups :: "(nat \<Rightarrow> bool) \<Rightarrow> ('s, 'p, 't) action list \<Rightarrow> ('s, 'p, 't) action list \<times> (collective_error + unit)" where
  "bcast_lookups has_endpoint [] = ([], Inr ())"
| "bcast_lookups has_endpoint (ARecv key upd # acts) = apfst (Cons (ARecv key upd)) (bcast_lookups has_endpoint acts)"
| "bcast_lookups has_endpoint (ASend peer key out # acts) =
     (if has_endpoint peer then apfst (Cons (ASend peer key out)) (bcast_lookups has_endpoint acts)
      else ([], Inl (Protocol ''bcast: missing endpoint'')))"

text \<open>The actions of a rank and what the call returns after them.\<close>

definition broadcast ::
  "nat \<Rightarrow> nat \<Rightarrow> nat \<Rightarrow> (nat \<Rightarrow> bool) \<Rightarrow> ('a list, 'a list, recv_key) action list \<times> (collective_error + unit)" where
  "broadcast n rank root has_endpoint =
     (if n = 1 then ([], Inr ())
      else if root \<ge> n then ([], Inl (Protocol ''broadcast: root out of range''))
      else let logical = bcast_logical n root rank
           in bcast_lookups has_endpoint (bcast_loop n root rank logical (logical = 0) [0..<bcast_rounds n]))"

lemma bcast_lookups_ok:
  assumes "\<And>d t u. ASend d t u \<in> set acts \<Longrightarrow> has_endpoint d"
  shows "bcast_lookups has_endpoint acts = (acts, Inr ())"
  using assms by (induction has_endpoint acts rule: bcast_lookups.induct) fastforce+

lemma bit_len_bounds: "0 < x \<Longrightarrow> 2 ^ (bit_len x - 1) \<le> x \<and> x < 2 ^ bit_len x \<and> 0 < bit_len x"
proof (induction x rule: bit_len.induct)
  case (1 x)
  show ?case
  proof (cases "x div 2 = 0")
    case True
    then have "x = 1" using 1(2) by linarith
    then show ?thesis by (simp add: bit_len.simps)
  next
    case False
    let ?b = "bit_len (x div 2)"
    from 1(1) 1(2) False have IH: "2 ^ (?b - 1) \<le> x div 2" "x div 2 < 2 ^ ?b" "0 < ?b" by auto
    have "bit_len x = Suc ?b" using 1(2) by (simp add: bit_len.simps[of x])
    moreover have "2 * 2 ^ (?b - 1) = (2 :: nat) ^ ?b" using IH(3) by (metis Suc_diff_1 power_Suc)
    ultimately show ?thesis using IH(1,2) by (simp, linarith)
  qed
qed

lemma highest_bit_unique: "2 ^ k \<le> x \<Longrightarrow> x < 2 ^ Suc k \<Longrightarrow> logical_highest_bit x = k"
proof -
  assume x: "2 ^ k \<le> x" "x < (2 :: nat) ^ Suc k"
  have "0 < x" using x(1) by (rule order_less_le_trans[rotated]) simp
  note b = bit_len_bounds[OF this]
  have "2 ^ k < (2 :: nat) ^ bit_len x" "2 ^ (bit_len x - 1) < (2 :: nat) ^ Suc k" using x b by linarith+
  then have "k < bit_len x" "bit_len x - 1 < Suc k" by (simp_all del: power_Suc)
  then show ?thesis by (simp add: logical_highest_bit_def)
qed

lemma highest_bit_bounds: "0 < x \<Longrightarrow> 2 ^ logical_highest_bit x \<le> x \<and> x < 2 ^ Suc (logical_highest_bit x)"
  using bit_len_bounds[of x] by (simp add: logical_highest_bit_def del: power_Suc)

lemma highest_bit_round: "0 < x \<Longrightarrow> x < n \<Longrightarrow> logical_highest_bit x < bcast_rounds n"
proof -
  assume x: "0 < x" "x < n"
  have "2 ^ logical_highest_bit x \<le> n - 1" "n - 1 < 2 ^ bit_len (n - 1)"
    using highest_bit_bounds[OF x(1)] bit_len_bounds[of "n - 1"] x by auto
  then have "2 ^ logical_highest_bit x < (2 :: nat) ^ bit_len (n - 1)" by linarith
  then show ?thesis by (simp add: bcast_rounds_def)
qed

lemma or_new_bit: "l < 2 ^ k \<Longrightarrow> l OR push_bit k 1 = l + (2 :: nat) ^ k"
proof -
  assume "l < 2 ^ k"
  then have "\<not> bit l k" by (simp add: bit_iff_odd)
  then have "set_bit k l = l + 2 ^ k" by (simp add: set_bit_eq)
  then show ?thesis by (simp add: set_bit_eq_or)
qed

lemma unset_new_bit: "m < 2 ^ k \<Longrightarrow> unset_bit k (m + 2 ^ k) = (m :: nat)"
proof -
  assume m: "m < 2 ^ k"
  then have "\<not> bit m k" by (simp add: bit_iff_odd)
  then have "unset_bit k (m OR push_bit k 1) = m" by (intro bit_eqI) (auto simp: bit_simps)
  with or_new_bit[OF m] show ?thesis by simp
qed

lemma unset_highest: "0 < l \<Longrightarrow> unset_bit (logical_highest_bit l) l = l - 2 ^ logical_highest_bit l"
proof -
  assume "0 < l"
  note b = highest_bit_bounds[OF this]
  then have "l - 2 ^ logical_highest_bit l < 2 ^ logical_highest_bit l" by simp linarith
  from unset_new_bit[OF this] b show ?thesis by simp
qed

lemma highest_bit_add: "l < 2 ^ k \<Longrightarrow> logical_highest_bit (l + 2 ^ k) = k"
  by (rule highest_bit_unique) simp_all

text \<open>The tree: ranks by their logical number, and what they send.\<close>

definition bcast_rank :: "nat \<Rightarrow> nat \<Rightarrow> nat \<Rightarrow> nat" where
  "bcast_rank n root l = (l + root) mod n"

definition bcast_parent :: "nat \<Rightarrow> nat \<Rightarrow> nat \<Rightarrow> nat" where
  "bcast_parent n root r =
     (let l = bcast_logical n root r in bcast_rank n root (l - 2 ^ logical_highest_bit l))"

definition bcast_from :: "nat \<Rightarrow> nat" where
  "bcast_from l = (if l = 0 then 0 else Suc (logical_highest_bit l))"

definition bcast_children :: "nat \<Rightarrow> nat \<Rightarrow> nat \<Rightarrow> nat list" where
  "bcast_children n root r =
     (let l = bcast_logical n root r
      in map (\<lambda>k. bcast_rank n root (l + 2 ^ k)) (filter (\<lambda>k. l + 2 ^ k < n) [bcast_from l..<bcast_rounds n]))"

definition bcast_key_of :: "nat \<Rightarrow> nat \<Rightarrow> nat \<Rightarrow> recv_key" where
  "bcast_key_of n root d = bcast_key (bcast_parent n root d) (logical_highest_bit (bcast_logical n root d))"

lemma logical_rank: "root < n \<Longrightarrow> l < n \<Longrightarrow> bcast_logical n root (bcast_rank n root l) = l"
  using mod_shift_back(2)[of l n root] by (simp add: bcast_logical_def bcast_rank_def)

lemma rank_logical: "root < n \<Longrightarrow> r < n \<Longrightarrow> bcast_rank n root (bcast_logical n root r) = r"
  using mod_shift_back(1)[of r n root] by (simp add: bcast_logical_def bcast_rank_def)

lemma logical_less: "root < n \<Longrightarrow> bcast_logical n root r < n"
  by (simp add: bcast_logical_def)

lemma rank_less: "root < n \<Longrightarrow> bcast_rank n root l < n"
  by (simp add: bcast_rank_def)

lemma logical_0: "root < n \<Longrightarrow> r < n \<Longrightarrow> bcast_logical n root r = 0 \<longleftrightarrow> r = root"
  using rank_logical[of root n r] by (auto simp: bcast_rank_def bcast_logical_def)

lemma bcast_from_less: "bcast_from l \<le> k \<Longrightarrow> l < 2 ^ k"
proof (cases "l = 0")
  case False
  assume "bcast_from l \<le> k"
  then have "2 ^ Suc (logical_highest_bit l) \<le> (2 :: nat) ^ k" using False by (simp add: bcast_from_def del: power_Suc)
  with highest_bit_bounds[of l] False show ?thesis by linarith
qed simp

text \<open>A child of logical \<open>l\<close> in round \<open>k\<close> is logical \<open>l + 2^k\<close>, whose highest bit is \<open>k\<close>.\<close>

lemma bcast_child:
  assumes n: "root < n" "r < n" and d: "d \<in> set (bcast_children n root r)"
  obtains k where "bcast_from (bcast_logical n root r) \<le> k" "k < bcast_rounds n" "bcast_logical n root r + 2 ^ k < n"
    "bcast_logical n root d = bcast_logical n root r + 2 ^ k" "d = bcast_rank n root (bcast_logical n root r + 2 ^ k)"
    "logical_highest_bit (bcast_logical n root d) = k" "bcast_parent n root d = r"
proof -
  let ?l = "bcast_logical n root r"
  from d obtain k where k: "bcast_from ?l \<le> k" "k < bcast_rounds n" "?l + 2 ^ k < n" "d = bcast_rank n root (?l + 2 ^ k)"
    by (auto simp: bcast_children_def Let_def)
  have ld: "bcast_logical n root d = ?l + 2 ^ k" using logical_rank[OF n(1) k(3)] k(4) by simp
  have hb: "logical_highest_bit (?l + 2 ^ k) = k" using highest_bit_add bcast_from_less[OF k(1)] by blast
  have "bcast_parent n root d = r" using ld hb rank_logical[OF n] by (simp add: bcast_parent_def)
  with that k ld hb show thesis by simp
qed

lemma bcast_parent_child:
  assumes n: "root < n" "d < n" "d \<noteq> root"
  shows "bcast_parent n root d < n \<and> d \<in> set (bcast_children n root (bcast_parent n root d)) \<and>
    bcast_logical n root (bcast_parent n root d) < bcast_logical n root d"
proof -
  let ?l = "bcast_logical n root d" and ?k = "logical_highest_bit (bcast_logical n root d)"
  have l: "0 < ?l" "?l < n" using logical_0[OF n(1,2)] n(3) logical_less[OF n(1)] by auto
  note b = highest_bit_bounds[OF l(1)]
  let ?m = "?l - 2 ^ ?k"
  have m: "?m < 2 ^ ?k" "?m + 2 ^ ?k = ?l" "?m < n" using b l unfolding power_Suc by linarith+
  have lp: "bcast_logical n root (bcast_parent n root d) = ?m"
    using logical_rank[OF n(1) m(3)] by (simp add: bcast_parent_def Let_def)
  have "bcast_from ?m \<le> ?k"
  proof (cases "?m = 0")
    case False
    then have "2 ^ logical_highest_bit ?m < (2 :: nat) ^ ?k" using highest_bit_bounds[of ?m] m(1) by linarith
    then show ?thesis using False by (simp add: bcast_from_def)
  qed (simp add: bcast_from_def)
  then have "?k \<in> set (filter (\<lambda>k. ?m + 2 ^ k < n) [bcast_from ?m..<bcast_rounds n])"
    using highest_bit_round[OF l] m(2) l(2) by simp
  then have "bcast_rank n root (?m + 2 ^ ?k) \<in> set (bcast_children n root (bcast_parent n root d))"
    unfolding bcast_children_def lp Let_def set_map by (rule imageI)
  moreover have "bcast_rank n root (?m + 2 ^ ?k) = d" using rank_logical[OF n(1,2)] m(2) by simp
  moreover have "bcast_parent n root d < n" by (simp add: bcast_parent_def Let_def rank_less[OF n(1)])
  moreover have "?m < ?l" using m(2) by (metis less_add_same_cancel1 zero_less_numeral zero_less_power)
  ultimately show ?thesis using lp by simp
qed

lemma bcast_children_distinct: "root < n \<Longrightarrow> distinct (bcast_children n root r)"
proof -
  assume n: "root < n"
  let ?l = "bcast_logical n root r"
  have "inj_on (\<lambda>k. bcast_rank n root (?l + 2 ^ k)) (set (filter (\<lambda>k. ?l + 2 ^ k < n) [bcast_from ?l..<bcast_rounds n]))"
  proof (rule inj_onI)
    fix k k' assume k: "k \<in> set (filter (\<lambda>k. ?l + 2 ^ k < n) [bcast_from ?l..<bcast_rounds n])"
      "k' \<in> set (filter (\<lambda>k. ?l + 2 ^ k < n) [bcast_from ?l..<bcast_rounds n])"
      and eq: "bcast_rank n root (?l + 2 ^ k) = bcast_rank n root (?l + 2 ^ k')"
    then have "?l + 2 ^ k < n" "?l + 2 ^ k' < n" by simp_all
    then have "?l + 2 ^ k = ?l + 2 ^ k'" using logical_rank[OF n] eq by metis
    then show "k = k'" by simp
  qed
  then show ?thesis by (simp add: bcast_children_def Let_def distinct_map)
qed

text \<open>What logical rank \<open>l\<close> ends with, for receive buffers of any length.\<close>

function bcast_end :: "nat \<Rightarrow> nat \<Rightarrow> (nat \<Rightarrow> 'a list) \<Rightarrow> nat \<Rightarrow> 'a list" where
  "bcast_end n root B l =
     (if l = 0 then B root else recv_into (B (bcast_rank n root l)) (bcast_end n root B (l - 2 ^ logical_highest_bit l)))"
  by pat_completeness auto
termination by (relation "measure (\<lambda>(n, root, B, l). l)") auto

declare bcast_end.simps [simp del]

lemma bcast_end_same:
  assumes "root < n" "\<And>r. r < n \<Longrightarrow> length (B r) = length (B root)"
  shows "bcast_end n root B l = B root"
proof (induction l rule: less_induct)
  case (less l)
  have "bcast_end n root B (l - 2 ^ logical_highest_bit l) = B root" if "0 < l" using that by (intro less) simp
  then show ?case using assms(2)[OF rank_less[OF assms(1), of l]] by (simp add: bcast_end.simps[of n root B l])
qed

interpretation bcast: one_to_all n root "bcast_parent n root" "bcast_children n root" "bcast_logical n root"
    "bcast_key_of n root" "\<lambda>_ buf. buf" "\<lambda>_. recv_into" B "\<lambda>r. bcast_end n root B (bcast_logical n root r)"
proof unfold_locales
  fix r d assume n: "root < n" "r < n" and d: "d \<in> set (bcast_children n root r)"
  from bcast_child[OF this] obtain k where k: "bcast_logical n root d = bcast_logical n root r + 2 ^ k"
    "d = bcast_rank n root (bcast_logical n root r + 2 ^ k)" "bcast_parent n root d = r" by blast
  have "bcast_logical n root root = 0" by (simp add: bcast_logical_def)
  then have "d \<noteq> root" using k(1) by auto
  with k(2,3) rank_less[OF n(1)] show "d < n \<and> d \<noteq> root \<and> bcast_parent n root d = r" by simp
next
  fix d assume n: "root < n" "d < n" "d \<noteq> root"
  let ?l = "bcast_logical n root d"
  have l: "0 < ?l" "?l < n" using logical_0[OF n(1,2)] n(3) logical_less[OF n(1)] by auto
  have "bcast_logical n root (bcast_parent n root d) = ?l - 2 ^ logical_highest_bit ?l"
    using logical_rank[OF n(1)] l(2) by (simp add: bcast_parent_def Let_def)
  then show "recv_into (B d) (bcast_end n root B (bcast_logical n root (bcast_parent n root d))) = bcast_end n root B ?l"
    using l(1) rank_logical[OF n(1,2)] by (simp add: bcast_end.simps[of n root B ?l])
  show "bcast_parent n root d < n \<and> d \<in> set (bcast_children n root (bcast_parent n root d)) \<and>
      bcast_logical n root (bcast_parent n root d) < ?l" by (rule bcast_parent_child[OF n])
qed (simp_all add: bcast_children_distinct bcast_end.simps bcast_logical_def)

text \<open>The loop of the code gives the programs of this tree.\<close>

lemma bcast_loop_send:
  assumes "\<And>k. k \<in> set ks \<Longrightarrow> l < 2 ^ k"
  shows "bcast_loop n root rank l True ks =
    map (\<lambda>k. ASend (bcast_rank n root (l + 2 ^ k)) (bcast_key rank k) (\<lambda>buf. buf)) (filter (\<lambda>k. l + 2 ^ k < n) ks)"
  using assms
proof (induction ks)
  case (Cons k ks)
  then have "l OR push_bit k 1 = l + 2 ^ k" by (intro or_new_bit) simp
  with Cons show ?case by (simp add: bcast_rank_def Let_def)
qed simp

lemma bcast_loop_wait:
  "logical_highest_bit l \<notin> set ks \<Longrightarrow> bcast_loop n root rank l False (ks @ ks') = bcast_loop n root rank l False ks'"
  by (induction ks) auto

lemma bcast_sends:
  assumes n: "root < n" "r < n"
  shows "map (\<lambda>k. ASend (bcast_rank n root (bcast_logical n root r + 2 ^ k)) (bcast_key r k) (\<lambda>buf. buf))
      (filter (\<lambda>k. bcast_logical n root r + 2 ^ k < n) [bcast_from (bcast_logical n root r)..<bcast_rounds n]) =
    map (\<lambda>d. ASend d (bcast_key_of n root d) (\<lambda>buf. buf)) (bcast_children n root r)"
proof -
  let ?l = "bcast_logical n root r"
  have "bcast_key_of n root (bcast_rank n root (?l + 2 ^ k)) = bcast_key r k"
    if k: "bcast_from ?l \<le> k" "?l + 2 ^ k < n" for k
  proof -
    have "logical_highest_bit (?l + 2 ^ k) = k" using highest_bit_add bcast_from_less[OF k(1)] by blast
    then show ?thesis using logical_rank[OF n(1) k(2)] rank_logical[OF n] by (simp add: bcast_key_of_def bcast_parent_def Let_def)
  qed
  then show ?thesis by (auto simp: bcast_children_def Let_def)
qed

lemma bcast_loop_prog:
  assumes n: "2 \<le> n" "root < n" "r < n"
  shows "bcast_loop n root r (bcast_logical n root r) (bcast_logical n root r = 0) [0..<bcast_rounds n] =
    (tree_prog root (bcast_children n root) (bcast_key_of n root) (\<lambda>_ buf. buf) (\<lambda>_. recv_into) r
    :: ('a list, 'a list, recv_key) action list)"
proof (cases "r = root")
  case True
  then have l: "bcast_logical n root r = 0" using logical_0[OF n(2,3)] by simp
  then show ?thesis using n True bcast_sends[OF n(2,3)]
    by (simp add: bcast_loop_send tree_prog_def bcast_from_def)
next
  case False
  let ?l = "bcast_logical n root r" and ?k = "logical_highest_bit (bcast_logical n root r)"
  have l: "0 < ?l" "?l < n" using logical_0[OF n(2,3)] False logical_less[OF n(2)] by auto
  have k: "?k < bcast_rounds n" using highest_bit_round[OF l] .
  then have "[0..<bcast_rounds n] = [0..<?k] @ ?k # [Suc ?k..<bcast_rounds n]"
    by (metis less_imp_le_nat upt_add_eq_append[OF le0, of ?k "bcast_rounds n - ?k"] le_add_diff_inverse upt_conv_Cons)
  then have "(bcast_loop n root r ?l False [0..<bcast_rounds n] :: ('a list, 'a list, recv_key) action list) =
      ARecv (bcast_key ((unset_bit ?k ?l + root) mod n) ?k) recv_into # bcast_loop n root r ?l True [Suc ?k..<bcast_rounds n]"
    by (simp add: bcast_loop_wait Let_def)
  moreover have "(unset_bit ?k ?l + root) mod n = bcast_parent n root r"
    using unset_highest[OF l(1)] by (simp add: bcast_parent_def bcast_rank_def Let_def)
  moreover have "[Suc ?k..<bcast_rounds n] = [bcast_from ?l..<bcast_rounds n]" using l(1) by (simp add: bcast_from_def)
  moreover have "(bcast_loop n root r ?l True [bcast_from ?l..<bcast_rounds n] :: ('a list, 'a list, recv_key) action list) =
      map (\<lambda>d. ASend d (bcast_key_of n root d) (\<lambda>buf. buf)) (bcast_children n root r)"
    by (rule trans[OF bcast_loop_send bcast_sends[OF n(2,3)]]) (simp add: bcast_from_less)
  ultimately show ?thesis using n False l(1) by (simp add: tree_prog_def bcast_key_of_def)
qed

text \<open>Only the endpoints of other ranks are looked up.\<close>

lemma bcast_prog_peer:
  assumes n: "root < n" "r < n"
    and a: "ASend d t u \<in> set (tree_prog root (bcast_children n root) (bcast_key_of n root) (\<lambda>_ buf. buf) (\<lambda>_. recv_into) r)"
  shows "d < n \<and> d \<noteq> r"
proof -
  have "d \<in> set (bcast_children n root r)" using a by (auto simp: tree_prog_def split: if_splits)
  from bcast_child[OF n this] obtain k where "bcast_logical n root d = bcast_logical n root r + 2 ^ k"
    "d = bcast_rank n root (bcast_logical n root r + 2 ^ k)" by blast
  then show ?thesis using rank_less[OF n(1)] by auto
qed

lemma broadcast_prog:
  assumes n: "2 \<le> n" "root < n" "r < n" and ep: "\<And>p. p < n \<Longrightarrow> p \<noteq> r \<Longrightarrow> has_endpoint p"
  shows "broadcast n r root has_endpoint =
    (tree_prog root (bcast_children n root) (bcast_key_of n root) (\<lambda>_ buf. buf) (\<lambda>_. recv_into) r
    :: ('a list, 'a list, recv_key) action list, Inr ())"
  using n bcast_lookups_ok[OF ep[OF bcast_prog_peer[THEN conjunct1] bcast_prog_peer[THEN conjunct2]]]
  by (simp add: broadcast_def Let_def bcast_loop_prog)

text \<open>
  C23 (functional). Broadcast, on any number of ranks from 2 on, from any root, over every transport with
  the receive contract and under every interleaving: every peer is another rank of the communicator, no
  execution deadlocks, every execution ends within \<open>2 (n - 1)\<close> moves, and then every rank holds the
  buffer of the root. When the endpoints of the other ranks are known, no call fails.
\<close>

theorem broadcast_correct:
  fixes B :: "nat \<Rightarrow> 'a list" and T :: "('n, 'a list, recv_key) transport"
    and prog :: "nat \<Rightarrow> ('a list, 'a list, recv_key) action list"
  assumes n: "2 \<le> n" "root < n" and B: "\<And>r. r < n \<Longrightarrow> length (B r) = length (B root)"
    and T: "transport_ok T" "tr_empty T net"
    and ep: "\<And>r p. r < n \<Longrightarrow> p < n \<Longrightarrow> p \<noteq> r \<Longrightarrow> has_endpoint r p"
    and prog: "\<And>r. r < n \<Longrightarrow> prog r = fst (broadcast n r root (has_endpoint r))"
    and run: "(prog_step prog T ^^ moves) (prog_init n B net) (rs, net')"
  shows "(\<forall>r < n. snd (broadcast n r root (has_endpoint r) :: ('a list, 'a list, recv_key) action list \<times> _) = Inr ()) \<and>
    (\<forall>r < n. \<forall>d t u. ASend d t u \<in> set (prog r) \<longrightarrow> d < n \<and> d \<noteq> r) \<and>
    moves \<le> 2 * (n - 1) \<and>
    ((\<exists>r < n. pg_pc (rs ! r) < length (prog r)) \<longrightarrow> (\<exists>c'. prog_step prog T (rs, net') c')) \<and>
    ((\<nexists>c'. prog_step prog T (rs, net') c') \<longrightarrow> (\<forall>r < n. pg_state (rs ! r) = B root))"
proof -
  let ?tree = "tree_prog root (bcast_children n root) (bcast_key_of n root) (\<lambda>_ buf. buf) (\<lambda>_. recv_into)
    :: nat \<Rightarrow> ('a list, 'a list, recv_key) action list"
  have call: "broadcast n r root (has_endpoint r) = (?tree r, Inr ())" if "r < n" for r
    by (rule broadcast_prog[OF n that]) (rule ep[OF that])
  have eq: "prog r = ?tree r" if "r < n" for r using prog[OF that] call[OF that] by simp
  have len: "length (fst (prog_init n B net)) = n" by (simp add: prog_init_def)
  from prog_steps_cong[OF eq len run] have run': "(prog_step ?tree T ^^ moves) (prog_init n B net) (rs, net')" "length rs = n" by auto
  note out = bcast.tree_outcome[OF n(2) T run'(1)]
  have step: "prog_step prog T (rs, net') c' \<longleftrightarrow> prog_step ?tree T (rs, net') c'" for c'
    using prog_step_cong[where n = n and prog = prog and prog' = ?tree and c = "(rs, net')" and T = T and c' = c', OF eq] run'(2) by simp
  have final: "bcast_end n root B (bcast_logical n root r) = B root" for r
    by (rule bcast_end_same[where B = B and n = n and root = root, OF n(2)]) (rule B)
  have unfinished: "(\<exists>r < n. pg_pc (rs ! r) < length (prog r)) \<longleftrightarrow> (\<exists>r < n. pg_pc (rs ! r) < length (?tree r))"
    by (intro ex_cong1 conj_cong refl) (simp add: eq)
  show ?thesis
  proof (intro conjI)
    show "\<forall>r < n. snd (broadcast n r root (has_endpoint r) :: ('a list, 'a list, recv_key) action list \<times> _) = Inr ()"
      using call by simp
    show "\<forall>r < n. \<forall>d t u. ASend d t u \<in> set (prog r) \<longrightarrow> d < n \<and> d \<noteq> r" using bcast_prog_peer[OF n(2)] eq by metis
    show "moves \<le> 2 * (n - 1)" using out by blast
    show "(\<exists>r < n. pg_pc (rs ! r) < length (prog r)) \<longrightarrow> (\<exists>c'. prog_step prog T (rs, net') c')"
      unfolding unfinished step using out by blast
    show "(\<nexists>c'. prog_step prog T (rs, net') c') \<longrightarrow> (\<forall>r < n. pg_state (rs ! r) = B root)"
      unfolding step using out final by simp
  qed
qed

text \<open>Three ranks, root 2.\<close>

definition demo_bcast :: "nat \<Rightarrow> (u8 list, u8 list, recv_key) action list" where
  "demo_bcast r = fst (broadcast 3 r 2 (\<lambda>_. True))"

definition demo_bcast_buf :: "nat \<Rightarrow> u8 list" where
  "demo_bcast_buf r = (if r = 2 then [9] else [0])"

theorem broadcast_correct_witness:
  "\<exists>moves rs net'. (prog_step demo_bcast list_transport ^^ moves) (prog_init 3 demo_bcast_buf []) (rs, net') \<and> pg_state (rs ! 0) = [9]"
proof -
  let ?c = "prog_init 3 demo_bcast_buf []" and ?step = "prog_step demo_bcast list_transport"
  let ?N = "2 * (3 - 1) :: nat"
  have empty: "tr_empty list_transport []" by (simp add: tr_empty_def list_transport_def)
  have len: "length (demo_bcast_buf r) = length (demo_bcast_buf 2)" for r by (simp add: demo_bcast_buf_def)
  have correct: "moves \<le> ?N \<and> ((\<nexists>c'. ?step (rs, net') c') \<longrightarrow> (\<forall>r < 3. pg_state (rs ! r) = demo_bcast_buf 2))"
    if "(?step ^^ moves) ?c (rs, net')" for moves rs net'
    
    using broadcast_correct[where has_endpoint = "\<lambda>_ _. True", OF _ _ len transport_ok_list empty _ demo_bcast_def that] by simp
  then have "\<And>k c. (?step ^^ k) ?c c \<Longrightarrow> k \<le> ?N" by (metis prod.collapse)
  then obtain k rs net' where run: "(?step ^^ k) ?c (rs, net')" "\<nexists>c'. ?step (rs, net') c'"
    using relpowp_terminal[of ?step ?c ?N] by (metis prod.collapse)
  from correct[OF run(1)] run(2) have "pg_state (rs ! 0) = demo_bcast_buf 2" by simp
  with run(1) show ?thesis by (auto simp: demo_bcast_buf_def)
qed

end
