(* ===== verification/Adaptive.thy ===== *)
theory Adaptive
  imports Recursive_Doubling Pipelined Rooted
begin

section \<open>Communicators and the choice of an algorithm (\<open>ucx_backend/communicator.rs\<close>, \<open>adaptive.rs\<close>)\<close>

text \<open>
  The communicator handle, the operations of the \<open>Collective\<close> trait it forwards, and the adaptive
  wrapper that picks the allreduce algorithm from the message size. An endpoint of the UCX library is any
  value. The locale \<open>allreduce_algorithm\<close> is the trait's promise about \<open>allreduce\<close>; each algorithm and the
  two communicators are interpretations of it.
\<close>

declare map_of_eq_Some_iff [simp del]

subsection \<open>The UCX communicator\<close>

record 'e ucx_communicator =
  uc_rank :: nat
  uc_size :: nat
  uc_endpoints :: "'e option list"

definition ucx_communicator_new :: "nat \<Rightarrow> nat \<Rightarrow> 'e option list \<Rightarrow> 'e ucx_communicator" where
  "ucx_communicator_new rank n endpoints = \<lparr>uc_rank = rank, uc_size = n, uc_endpoints = endpoints\<rparr>"

definition endpoint :: "'e ucx_communicator \<Rightarrow> nat \<Rightarrow> 'e option" where
  "endpoint c rank = (if rank < length (uc_endpoints c) then uc_endpoints c ! rank else None)"

abbreviation known :: "'e ucx_communicator \<Rightarrow> nat \<Rightarrow> bool" where
  "known c r \<equiv> endpoint c r \<noteq> None"

text \<open>How a call of \<open>allreduce\<close> goes on after its checks.\<close>

datatype 'a allreduce_call =
  CallDone
| CallTagged "('a list, 'a list, u64) protocol"
| CallPipelined "'a pipe_call"

definition tagged_call :: "collective_error + ('a list, 'a list, u64) protocol option \<Rightarrow> collective_error + 'a allreduce_call" where
  "tagged_call x = map_sum id (\<lambda>P. case P of None \<Rightarrow> CallDone | Some P \<Rightarrow> CallTagged P) x"

definition pipelined_call :: "collective_error + 'a pipe_call option \<Rightarrow> collective_error + 'a allreduce_call" where
  "pipelined_call x = map_sum id (\<lambda>p. case p of None \<Rightarrow> CallDone | Some p \<Rightarrow> CallPipelined p) x"

text \<open>The operations of \<open>Collective for UcxCommunicator\<close> and their explicit variants.\<close>

definition ucx_allreduce :: "('a \<Rightarrow> 'a \<Rightarrow> 'a) \<Rightarrow> 'e ucx_communicator \<Rightarrow> 'a list \<Rightarrow> collective_error + 'a allreduce_call" where
  "ucx_allreduce f c buf = tagged_call (ring_allreduce f (uc_size c) (uc_rank c) (known c) buf)"

definition ucx_allreduce_pipelined ::
  "('a \<Rightarrow> 'a \<Rightarrow> 'a) \<Rightarrow> 'a \<Rightarrow> 'e ucx_communicator \<Rightarrow> 'a list \<Rightarrow> pipeline_config \<Rightarrow> collective_error + 'a allreduce_call" where
  "ucx_allreduce_pipelined f d c buf config = pipelined_call (pipelined_ring f d (uc_size c) (uc_rank c) (known c) buf config)"

definition ucx_allreduce_recursive_doubling ::
  "('a \<Rightarrow> 'a \<Rightarrow> 'a) \<Rightarrow> 'e ucx_communicator \<Rightarrow> 'a list \<Rightarrow> collective_error + 'a allreduce_call" where
  "ucx_allreduce_recursive_doubling f c buf = tagged_call (recursive_doubling f (uc_size c) (uc_rank c) (known c) buf)"

definition ucx_scatter where
  "ucx_scatter c send_buf recv_buf root = scatter (uc_size c) (uc_rank c) root (known c) send_buf recv_buf"

definition ucx_allgather where
  "ucx_allgather c send_buf recv_buf = bruck_allgather (uc_size c) (uc_rank c) send_buf recv_buf"

definition ucx_broadcast where
  "ucx_broadcast c root = broadcast (uc_size c) (uc_rank c) root (known c)"

subsection \<open>The adaptive wrapper\<close>

datatype allreduce_algo = PlainRing | PipelinedRing pipeline_config | RecursiveDoubling

record adaptive_policy =
  small_threshold :: nat
  large_threshold :: nat
  policy_config :: pipeline_config

definition policy_default :: adaptive_policy where
  "policy_default = \<lparr>small_threshold = 2 * 1024, large_threshold = 64 * 1024, policy_config = pipeline_default\<rparr>"

definition choose_allreduce :: "adaptive_policy \<Rightarrow> nat \<Rightarrow> nat \<Rightarrow> allreduce_algo" where
  "choose_allreduce policy msg_bytes n =
     (if msg_bytes < small_threshold policy \<and> is_power_of_two n \<and> n \<ge> 2 then RecursiveDoubling
      else if msg_bytes \<ge> large_threshold policy then PipelinedRing (policy_config policy)
      else PlainRing)"

record 'e adaptive_communicator =
  ad_inner :: "'e ucx_communicator"
  ad_policy :: adaptive_policy

text \<open>\<open>size_of\<close> is the size of an element in bytes.\<close>

definition chosen_algo :: "'e adaptive_communicator \<Rightarrow> nat \<Rightarrow> nat \<Rightarrow> allreduce_algo" where
  "chosen_algo c size_of len = choose_allreduce (ad_policy c) (len * size_of) (uc_size (ad_inner c))"

definition adaptive_allreduce ::
  "('a \<Rightarrow> 'a \<Rightarrow> 'a) \<Rightarrow> 'a \<Rightarrow> nat \<Rightarrow> 'e adaptive_communicator \<Rightarrow> 'a list \<Rightarrow> collective_error + 'a allreduce_call" where
  "adaptive_allreduce f d size_of c buf =
     (let inner = ad_inner c
      in case choose_allreduce (ad_policy c) (length buf * size_of) (uc_size inner) of
           PlainRing \<Rightarrow> tagged_call (ring_allreduce f (uc_size inner) (uc_rank inner) (known inner) buf)
         | PipelinedRing config \<Rightarrow> pipelined_call (pipelined_ring f d (uc_size inner) (uc_rank inner) (known inner) buf config)
         | RecursiveDoubling \<Rightarrow> tagged_call (recursive_doubling f (uc_size inner) (uc_rank inner) (known inner) buf))"

definition adaptive_scatter where
  "adaptive_scatter c send_buf recv_buf root = ucx_scatter (ad_inner c) send_buf recv_buf root"

definition adaptive_allgather where
  "adaptive_allgather c send_buf recv_buf = ucx_allgather (ad_inner c) send_buf recv_buf"

definition adaptive_broadcast where
  "adaptive_broadcast c root = ucx_broadcast (ad_inner c) root"

subsection \<open>What an allreduce ends with\<close>

text \<open>
  \<open>call_ends call n T net U net' B X\<close>: some execution of \<open>call\<close> by \<open>n\<close> ranks from the buffers \<open>B\<close> stops, and
  then the buffers are \<open>X\<close>; tag-matched messages go over \<open>T\<close>, active messages over \<open>U\<close>.
\<close>

definition call_ends ::
  "'a allreduce_call \<Rightarrow> ('m, 'a list, u64) transport \<Rightarrow> 'm \<Rightarrow> ('n, 'a list, recv_key) transport \<Rightarrow> 'n \<Rightarrow>
   (nat \<Rightarrow> 'a list) \<Rightarrow> (nat \<Rightarrow> 'a list) \<Rightarrow> bool" where
  "call_ends call T net U net' B X = (case call of
     CallDone \<Rightarrow> X = B
   | CallTagged P \<Rightarrow> (\<exists>k rs w. (async_step P T ^^ k) (async_init P B net) (rs, w) \<and>
       (\<nexists>c'. async_step P T (rs, w) c') \<and> X = (\<lambda>r. rk_state (rs ! r)))
   | CallPipelined p \<Rightarrow> (\<exists>k rs w. (pipe_step p U ^^ k) (pipe_init p B net') (rs, w) \<and>
       (\<nexists>c'. pipe_step p U (rs, w) c') \<and> X = (\<lambda>r. pp_buf (rs ! r))))"

text \<open>
  The promise of \<open>Collective::allreduce\<close> for the algorithm \<open>start\<close>, given the rank and its buffer: ranks
  with buffers of one length whose calls pass their checks run the same call, some execution of it ends, and
  every execution that ends leaves the elementwise reduction on every rank.
\<close>

locale allreduce_algorithm =
  fixes f :: "'a \<Rightarrow> 'a \<Rightarrow> 'a" and n :: nat
    and start :: "nat \<Rightarrow> 'a list \<Rightarrow> collective_error + 'a allreduce_call"
    and T :: "('m, 'a list, u64) transport" and net :: 'm and U :: "('n, 'a list, recv_key) transport" and net' :: 'n
  assumes same: "0 < n \<Longrightarrow> r < n \<Longrightarrow> r' < n \<Longrightarrow> length buf = length buf' \<Longrightarrow>
      start r buf = Inr call \<Longrightarrow> start r' buf' = Inr call' \<Longrightarrow> call = call'"
    and ends: "(\<And>a b. f a b = f b a) \<Longrightarrow> (\<And>a b c. f (f a b) c = f a (f b c)) \<Longrightarrow> 0 < n \<Longrightarrow> n \<le> 2 ^ 16 \<Longrightarrow>
      transport_ok T \<Longrightarrow> tr_empty T net \<Longrightarrow> transport_ok U \<Longrightarrow> tr_empty U net' \<Longrightarrow>
      (\<And>r. r < n \<Longrightarrow> length (B r) = l) \<Longrightarrow> (\<And>r. r < n \<Longrightarrow> start r (B r) = Inr call) \<Longrightarrow>
      (\<exists>X. call_ends call T net U net' B X) \<and>
      (\<forall>X. call_ends call T net U net' B X \<longrightarrow> (\<forall>r < n. X r = reduced f n l B))"
begin

text \<open>From calls that pass their checks on every rank.\<close>

lemma allreduce:
  assumes "\<And>a b. f a b = f b a" "\<And>a b c. f (f a b) c = f a (f b c)" "0 < n" "n \<le> 2 ^ 16"
    and "transport_ok T" "tr_empty T net" "transport_ok U" "tr_empty U net'"
    and len: "\<And>r. r < n \<Longrightarrow> length (B r) = l" and ok: "\<And>r. r < n \<Longrightarrow> start r (B r) = Inr (call r)"
  shows "(\<forall>r < n. call r = call 0) \<and> (\<exists>X. call_ends (call 0) T net U net' B X) \<and>
    (\<forall>X. call_ends (call 0) T net U net' B X \<longrightarrow> (\<forall>r < n. X r = reduced f n l B))"
proof -
  have eq: "call r = call 0" if "r < n" for r using same[OF assms(3) that assms(3) _ ok[OF that] ok[OF assms(3)]] len that assms(3) by simp
  have all: "start r (B r) = Inr (call 0)" if "r < n" for r using ok[OF that] unfolding eq[OF that] .
  note out = ends[OF assms(1-8) len all]
  have "\<forall>r < n. call r = call 0" using eq by blast
  then show ?thesis by (rule conjI[OF _ out])
qed

end

subsection \<open>The algorithms\<close>

lemma run_ends: "(\<And>k rs w. (S ^^ k) a (rs, w) \<Longrightarrow> k \<le> N) \<Longrightarrow> \<exists>k rs w. (S ^^ k) a (rs, w) \<and> (\<nexists>c'. S (rs, w) c')"
  using relpowp_terminal[of S a N] by (metis prod.collapse)

lemma reduced_one: "length (B 0) = l \<Longrightarrow> reduced f 1 l B = B 0"
  by (rule nth_equalityI) (simp_all add: reduced_def fold1_def)

text \<open>What each algorithm's checks let through.\<close>

lemma tagged_call_ring:
  assumes "tagged_call (ring_allreduce f n r ep buf) = Inr call"
  shows "n \<le> 1 \<and> call = CallDone \<or> 2 \<le> n \<and> length buf = n * (length buf div n) \<and> call = CallTagged (ring_protocol f n (length buf div n))"
  using assms by (auto simp: tagged_call_def ring_allreduce_def Let_def split: if_splits)

lemma tagged_call_rd:
  assumes "tagged_call (recursive_doubling f n r ep buf) = Inr call"
  shows "n \<le> 1 \<and> call = CallDone \<or> 2 \<le> n \<and> is_power_of_two n \<and> call = CallTagged (rd_protocol f n) \<or>
    2 \<le> n \<and> \<not> is_power_of_two n \<and> tagged_call (ring_allreduce f n r ep buf) = Inr call"
  using assms by (auto simp: tagged_call_def recursive_doubling_def split: if_splits)

lemma pipelined_call_ok:
  assumes "pipelined_call (pipelined_ring f d n r ep buf config) = Inr call"
  shows "n \<le> 1 \<and> call = CallDone \<or> 2 \<le> n \<and> (\<exists>p. pipelined_ring f d n r ep buf config = Inr (Some p) \<and> call = CallPipelined p)"
  using assms by (cases "pipelined_ring f d n r ep buf config") (auto simp: pipelined_call_def pipelined_ring_def Let_def split: if_splits option.splits)

lemma done_ends:
  assumes "0 < n" "n \<le> 1" "\<And>r. r < n \<Longrightarrow> length (B r) = l"
  shows "(\<exists>X. call_ends CallDone T net U net' B X) \<and> (\<forall>X. call_ends CallDone T net U net' B X \<longrightarrow> (\<forall>r < n. X r = reduced f n l B))"
proof -
  have "n = 1" using assms(1,2) by simp
  then show ?thesis using reduced_one[of B l f] assms(3) by (simp add: call_ends_def)
qed

lemma ring_ends:
  fixes f :: "'a \<Rightarrow> 'a \<Rightarrow> 'a" and B :: "nat \<Rightarrow> 'a list" and T :: "('m, 'a list, u64) transport"
  assumes op: "\<And>a b. f a b = f b a" "\<And>a b c. f (f a b) c = f a (f b c)" and n: "0 < n" "n \<le> 2 ^ 16"
    and T: "transport_ok T" "tr_empty T net" and len: "\<And>r. r < n \<Longrightarrow> length (B r) = l"
    and ok: "\<And>r. r < n \<Longrightarrow> tagged_call (ring_allreduce f n r (ep r) (B r)) = Inr call"
  shows "(\<exists>X. call_ends call T net U net' B X) \<and> (\<forall>X. call_ends call T net U net' B X \<longrightarrow> (\<forall>r < n. X r = reduced f n l B))"
proof (cases "n \<le> 1")
  case True
  then have "call = CallDone" using tagged_call_ring[OF ok[OF n(1)]] by auto
  then show ?thesis using done_ends[where B = B and l = l, OF n(1) True len] by simp
next
  case False
  let ?chunk = "l div n"
  have n2: "2 \<le> n" using False by simp
  have call: "call = CallTagged (ring_protocol f n ?chunk)" and l: "l = n * ?chunk"
    using tagged_call_ring[OF ok[OF n(1)]] False len[OF n(1)] by auto
  have len': "\<And>r. r < n \<Longrightarrow> length (B r) = n * ?chunk" using len l by simp
  have out: "k \<le> 4 * n * (n - 1)"
    "(\<nexists>c'. async_step (ring_protocol f n ?chunk) T (rs, w) c') \<Longrightarrow> r < n \<Longrightarrow> rk_state (rs ! r) = reduced f n l B"
    if "(async_step (ring_protocol f n ?chunk) T ^^ k) (async_init (ring_protocol f n ?chunk) B net) (rs, w)" for k rs w r
  proof -
    have "pr_size (ring_protocol f n ?chunk) \<le> 2 ^ 16" using n(2) by simp
    from ring.outcome[OF this T that] ring_lockstep_result[OF len' n2] ring_reduced[OF op n2 len'] l
    show "k \<le> 4 * n * (n - 1)"
      "(\<nexists>c'. async_step (ring_protocol f n ?chunk) T (rs, w) c') \<Longrightarrow> r < n \<Longrightarrow> rk_state (rs ! r) = reduced f n l B" by simp_all
  qed
  have ex: "\<exists>X. call_ends call T net U net' B X"
    unfolding call call_ends_def using run_ends[OF out(1)] by fastforce
  show ?thesis
  proof (intro conjI ex allI impI)
    fix X r assume X: "call_ends call T net U net' B X" and r: "r < n"
    then obtain k rs w where k: "(async_step (ring_protocol f n ?chunk) T ^^ k) (async_init (ring_protocol f n ?chunk) B net) (rs, w)"
      "\<nexists>c'. async_step (ring_protocol f n ?chunk) T (rs, w) c'" "X = (\<lambda>r. rk_state (rs ! r))"
      by (auto simp: call call_ends_def)
    from out(2)[OF k(1,2) r] show "X r = reduced f n l B" unfolding k(3) .
  qed
qed

lemma rd_ends:
  fixes f :: "'a \<Rightarrow> 'a \<Rightarrow> 'a" and B :: "nat \<Rightarrow> 'a list" and T :: "('m, 'a list, u64) transport"
  assumes op: "\<And>a b. f a b = f b a" "\<And>a b c. f (f a b) c = f a (f b c)" and n: "0 < n" "n \<le> 2 ^ 16"
    and T: "transport_ok T" "tr_empty T net" and len: "\<And>r. r < n \<Longrightarrow> length (B r) = l"
    and ok: "\<And>r. r < n \<Longrightarrow> tagged_call (recursive_doubling f n r (ep r) (B r)) = Inr call"
  shows "(\<exists>X. call_ends call T net U net' B X) \<and> (\<forall>X. call_ends call T net U net' B X \<longrightarrow> (\<forall>r < n. X r = reduced f n l B))"
proof (cases "2 \<le> n \<and> is_power_of_two n")
  case True
  have call: "call = CallTagged (rd_protocol f n)" using tagged_call_rd[OF ok[OF n(1)]] True by auto
  have out: "k \<le> 2 * n * trailing_zeros n"
    "(\<nexists>c'. async_step (rd_protocol f n) T (rs, w) c') \<Longrightarrow> r < n \<Longrightarrow> rk_state (rs ! r) = reduced f n l B"
    if "(async_step (rd_protocol f n) T ^^ k) (async_init (rd_protocol f n) B net) (rs, w)" for k rs w r
  proof -
    have "pr_size (rd_protocol f n) \<le> 2 ^ 16" using n(2) by simp
    from rd.outcome[OF this T that] rd_result[OF op conjunct2[OF True] len]
    show "k \<le> 2 * n * trailing_zeros n"
      "(\<nexists>c'. async_step (rd_protocol f n) T (rs, w) c') \<Longrightarrow> r < n \<Longrightarrow> rk_state (rs ! r) = reduced f n l B" by simp_all
  qed
  have ex: "\<exists>X. call_ends call T net U net' B X"
    unfolding call call_ends_def using run_ends[OF out(1)] by fastforce
  show ?thesis
  proof (intro conjI ex allI impI)
    fix X r assume X: "call_ends call T net U net' B X" and r: "r < n"
    then obtain k rs w where k: "(async_step (rd_protocol f n) T ^^ k) (async_init (rd_protocol f n) B net) (rs, w)"
      "\<nexists>c'. async_step (rd_protocol f n) T (rs, w) c'" "X = (\<lambda>r. rk_state (rs ! r))"
      by (auto simp: call call_ends_def)
    from out(2)[OF k(1,2) r] show "X r = reduced f n l B" unfolding k(3) .
  qed
next
  case False
  show ?thesis
  proof (cases "n \<le> 1")
    case True
    then have "call = CallDone" using tagged_call_rd[OF ok[OF n(1)]] by auto
    then show ?thesis using done_ends[where B = B and l = l, OF n(1) True len] by simp
  next
    case large: False
    have "tagged_call (ring_allreduce f n r (ep r) (B r)) = Inr call" if "r < n" for r
      using tagged_call_rd[OF ok[OF that]] False large by auto
    from ring_ends[OF op n T len this] show ?thesis .
  qed
qed

lemma pipe_ends:
  fixes f :: "'a \<Rightarrow> 'a \<Rightarrow> 'a" and B :: "nat \<Rightarrow> 'a list" and U :: "('n, 'a list, recv_key) transport"
  assumes op: "\<And>a b. f a b = f b a" "\<And>a b c. f (f a b) c = f a (f b c)" and n: "0 < n" "n \<le> 2 ^ 16"
    and U: "transport_ok U" "tr_empty U net'" and len: "\<And>r. r < n \<Longrightarrow> length (B r) = l"
    and ok: "\<And>r. r < n \<Longrightarrow> pipelined_call (pipelined_ring f d n r (ep r) (B r) config) = Inr call"
  shows "(\<exists>X. call_ends call T net U net' B X) \<and> (\<forall>X. call_ends call T net U net' B X \<longrightarrow> (\<forall>r < n. X r = reduced f n l B))"
proof (cases "n \<le> 1")
  case True
  then have "call = CallDone" using pipelined_call_ok[OF ok[OF n(1)]] by auto
  then show ?thesis using done_ends[where B = B and l = l, OF n(1) True len] by simp
next
  case False
  have n2: "2 \<le> n" using False by simp
  obtain p where call: "call = CallPipelined p" using pipelined_call_ok[OF ok[OF n(1)]] False by auto
  have start: "pipelined_ring f d n r (ep r) (B r) config = Inr (Some p)" if "r < n" for r
    using pipelined_call_ok[OF ok[OF that]] False call by auto
  have "length (B 0) = n * pl_chunk p" using pipelined_ring_ok[OF start[OF n(1)]] by simp
  then have l: "l = n * (l div n)" using len[OF n(1)] n(1) by simp
  have len': "\<And>r. r < n \<Longrightarrow> length (B r) = n * (l div n)" using len l by simp
  have out: "k \<le> 2 * n * (2 * micro_chunks config * n + 1)"
    "(\<nexists>c'. pipe_step p U (rs, w) c') \<Longrightarrow> r < n \<Longrightarrow> pp_buf (rs ! r) = reduced f n l B"
    if "(pipe_step p U ^^ k) (pipe_init p B net') (rs, w)" for k rs w r
    using pipe_outcome[OF n(2) start n(1) U that] ring_reduced[OF op n2 len'] len l by auto
  have ex: "\<exists>X. call_ends call T net U net' B X"
    unfolding call call_ends_def using run_ends[OF out(1)] by fastforce
  show ?thesis
  proof (intro conjI ex allI impI)
    fix X r assume X: "call_ends call T net U net' B X" and r: "r < n"
    then obtain k rs w where k: "(pipe_step p U ^^ k) (pipe_init p B net') (rs, w)"
      "\<nexists>c'. pipe_step p U (rs, w) c'" "X = (\<lambda>r. pp_buf (rs ! r))"
      by (auto simp: call call_ends_def)
    from out(2)[OF k(1,2) r] show "X r = reduced f n l B" unfolding k(3) .
  qed
qed

subsection \<open>The promise is kept\<close>

lemma ucx_communicator_simps [simp]:
  "uc_rank (ucx_communicator_new r n eps) = r" "uc_size (ucx_communicator_new r n eps) = n"
  by (simp_all add: ucx_communicator_new_def)

text \<open>The call depends on the length of the buffer only, not on the rank.\<close>

lemma ring_same:
  assumes "tagged_call (ring_allreduce f n r ep buf) = Inr call" "tagged_call (ring_allreduce f n r' ep' buf') = Inr call'" "length buf = length buf'"
  shows "call = call'"
  using tagged_call_ring[OF assms(1)] tagged_call_ring[OF assms(2)] assms(3) by auto

lemma rd_same:
  assumes "tagged_call (recursive_doubling f n r ep buf) = Inr call" "tagged_call (recursive_doubling f n r' ep' buf') = Inr call'" "length buf = length buf'"
  shows "call = call'"
  using tagged_call_rd[OF assms(1)] tagged_call_rd[OF assms(2)] ring_same[OF _ _ assms(3)] by auto

lemma pipe_same:
  assumes "pipelined_call (pipelined_ring f d n r ep buf config) = Inr call" "pipelined_call (pipelined_ring f d n r' ep' buf' config) = Inr call'"
    "length buf = length buf'"
  shows "call = call'"
proof (cases "n \<le> 1")
  case True
  then show ?thesis using pipelined_call_ok[OF assms(1)] pipelined_call_ok[OF assms(2)] by auto
next
  case False
  then obtain p q where "pipelined_ring f d n r ep buf config = Inr (Some p)" "pipelined_ring f d n r' ep' buf' config = Inr (Some q)"
    "call = CallPipelined p" "call' = CallPipelined q"
    using pipelined_call_ok[OF assms(1)] pipelined_call_ok[OF assms(2)] by auto
  then show ?thesis using assms(3) False by (simp add: pipelined_ring_def Let_def split: if_splits)
qed

interpretation ring_alg: allreduce_algorithm f n "\<lambda>r. ucx_allreduce f (ucx_communicator_new r n (eps r))" T net U net'
proof (unfold_locales, goal_cases)
  case (1 r r' buf buf' call call')
  show ?case by (rule ring_same[OF 1(5,6)[unfolded ucx_allreduce_def ucx_communicator_simps] 1(4)])
next
  case (2 B l call)
  show ?case
    by (rule ring_ends[where B = B and l = l and ep = "\<lambda>r. known (ucx_communicator_new r n (eps r))", OF 2(1-6)], erule 2(9), erule 2(10)[unfolded ucx_allreduce_def ucx_communicator_simps])
qed

interpretation rd_alg: allreduce_algorithm f n "\<lambda>r. ucx_allreduce_recursive_doubling f (ucx_communicator_new r n (eps r))" T net U net'
proof (unfold_locales, goal_cases)
  case (1 r r' buf buf' call call')
  show ?case by (rule rd_same[OF 1(5,6)[unfolded ucx_allreduce_recursive_doubling_def ucx_communicator_simps] 1(4)])
next
  case (2 B l call)
  show ?case
    by (rule rd_ends[where B = B and l = l and ep = "\<lambda>r. known (ucx_communicator_new r n (eps r))", OF 2(1-6)], erule 2(9), erule 2(10)[unfolded ucx_allreduce_recursive_doubling_def ucx_communicator_simps])
qed

interpretation pipe_alg: allreduce_algorithm f n
    "\<lambda>r buf. ucx_allreduce_pipelined f d (ucx_communicator_new r n (eps r)) buf config" T net U net'
proof (unfold_locales, goal_cases)
  case (1 r r' buf buf' call call')
  show ?case by (rule pipe_same[OF 1(5,6)[unfolded ucx_allreduce_pipelined_def ucx_communicator_simps] 1(4)])
next
  case (2 B l call)
  show ?case
    by (rule pipe_ends[where B = B and l = l and ep = "\<lambda>r. known (ucx_communicator_new r n (eps r))", OF 2(1-4,7,8)], erule 2(9), erule 2(10)[unfolded ucx_allreduce_pipelined_def ucx_communicator_simps])
qed

definition adaptive_communicator_new :: "'e ucx_communicator \<Rightarrow> adaptive_policy \<Rightarrow> 'e adaptive_communicator" where
  "adaptive_communicator_new inner policy = \<lparr>ad_inner = inner, ad_policy = policy\<rparr>"

lemma adaptive_allreduce_cases:
  "adaptive_allreduce f d size_of (adaptive_communicator_new (ucx_communicator_new r n eps) policy) buf =
    (case choose_allreduce policy (length buf * size_of) n of
       PlainRing \<Rightarrow> tagged_call (ring_allreduce f n r (known (ucx_communicator_new r n eps)) buf)
     | PipelinedRing config \<Rightarrow> pipelined_call (pipelined_ring f d n r (known (ucx_communicator_new r n eps)) buf config)
     | RecursiveDoubling \<Rightarrow> tagged_call (recursive_doubling f n r (known (ucx_communicator_new r n eps)) buf))"
  by (simp add: adaptive_allreduce_def adaptive_communicator_new_def Let_def split: allreduce_algo.split)

interpretation adaptive_alg: allreduce_algorithm f n
    "\<lambda>r. adaptive_allreduce f d size_of (adaptive_communicator_new (ucx_communicator_new r n (eps r)) policy)" T net U net'
proof (unfold_locales, goal_cases)
  case (1 r r' buf buf' call call')
  note starts = 1(5,6)[unfolded adaptive_allreduce_cases]
  show ?case
  proof (cases "choose_allreduce policy (length buf * size_of) n")
    case PlainRing
    with starts 1(4) show ?thesis using ring_same by fastforce
  next
    case (PipelinedRing config)
    with starts 1(4) show ?thesis using pipe_same by fastforce
  next
    case RecursiveDoubling
    with starts 1(4) show ?thesis using rd_same by fastforce
  qed
next
  case (2 B l call)
  let ?ep = "\<lambda>r. known (ucx_communicator_new r n (eps r))"
  have start: "(case choose_allreduce policy (l * size_of) n of
       PlainRing \<Rightarrow> tagged_call (ring_allreduce f n r (?ep r) (B r))
     | PipelinedRing config \<Rightarrow> pipelined_call (pipelined_ring f d n r (?ep r) (B r) config)
     | RecursiveDoubling \<Rightarrow> tagged_call (recursive_doubling f n r (?ep r) (B r))) = Inr call" if "r < n" for r
    using 2(10)[OF that] 2(9)[OF that] unfolding adaptive_allreduce_cases by simp
  show ?case
  proof (cases "choose_allreduce policy (l * size_of) n")
    case PlainRing
    show ?thesis
      by (rule ring_ends[where B = B and l = l and ep = ?ep, OF 2(1-6)], erule 2(9)) (use start PlainRing in simp)
  next
    case (PipelinedRing config)
    show ?thesis
      by (rule pipe_ends[where B = B and l = l and ep = ?ep and config = config and d = d, OF 2(1-4,7,8)], erule 2(9))
        (use start PipelinedRing in simp)
  next
    case RecursiveDoubling
    show ?thesis
      by (rule rd_ends[where B = B and l = l and ep = ?ep, OF 2(1-6)], erule 2(9)) (use start RecursiveDoubling in simp)
  qed
qed

subsection \<open>Properties\<close>

text \<open>
  C24 (refinement). Allreduce on the adaptive communicator, with any policy and any commutative and
  associative operator, whatever algorithm it picks: when the call passes its checks on every rank, all
  ranks run the same algorithm with the same parameters, some execution ends, and every execution that
  stops leaves on every rank, at every index, the reduction of the elements of all ranks.
\<close>

theorem adaptive_allreduce_correct:
  fixes T :: "('m, 'a list, u64) transport" and U :: "('n, 'a list, recv_key) transport"
  assumes "\<And>a b. f a b = f b a" "\<And>a b c. f (f a b) c = f a (f b c)" "0 < n" "n \<le> 2 ^ 16"
    and "transport_ok T" "tr_empty T net" "transport_ok U" "tr_empty U net'"
    and "\<And>r. r < n \<Longrightarrow> length (B r) = l"
    and "\<And>r. r < n \<Longrightarrow>
      adaptive_allreduce f d size_of (adaptive_communicator_new (ucx_communicator_new r n (eps r)) policy) (B r) = Inr (call r)"
  shows "(\<forall>r < n. call r = call 0) \<and> (\<exists>X. call_ends (call 0) T net U net' B X) \<and>
    (\<forall>X. call_ends (call 0) T net U net' B X \<longrightarrow> (\<forall>r < n. X r = reduced f n l B))"
  by (rule adaptive_alg.allreduce[OF assms])

theorem adaptive_allreduce_correct_witness:
  "\<exists>call X. (\<forall>r < 2. adaptive_allreduce sum_u32_apply 0 4 (adaptive_communicator_new (ucx_communicator_new r 2 [Some (), Some ()]) policy_default)
      (if r = 0 then [1, 2] else [10, 20]) = Inr call) \<and>
    call_ends call list_transport [] list_transport [] (\<lambda>r. if r = 0 then [1, 2] else [10, 20]) X \<and> X 0 = [11, 22] \<and> X 1 = [11, 22]"
proof -
  let ?B = "\<lambda>r. if r = (0::nat) then [1, 2] else [10, 20 :: u32]"
  let ?call = "CallTagged (rd_protocol sum_u32_apply 2)"
  have empty: "tr_empty list_transport []" by (simp add: tr_empty_def list_transport_def)
  have pow: "is_power_of_two 2" by (simp add: is_power_of_two_def count_ones.simps)
  have start: "adaptive_allreduce sum_u32_apply 0 4 (adaptive_communicator_new (ucx_communicator_new r 2 [Some (), Some ()]) policy_default) (?B r)
      = Inr ?call" for r
    using pow by (simp add: adaptive_allreduce_cases choose_allreduce_def policy_default_def tagged_call_def recursive_doubling_def)
  have op: "sum_u32_apply a b = sum_u32_apply b a" "sum_u32_apply (sum_u32_apply a b) c = sum_u32_apply a (sum_u32_apply b c)" for a b c
    by (simp_all add: sum_u32_apply_def ac_simps)
  have len: "length (?B r) = 2" for r by simp
  from adaptive_allreduce_correct[where B = ?B and l = 2 and n = 2 and call = "\<lambda>_. ?call" and eps = "\<lambda>_. [Some (), Some ()]",
      OF op _ _ transport_ok_list empty transport_ok_list empty len start]
  obtain X where "call_ends ?call list_transport [] list_transport [] ?B X" "\<forall>r < 2. X r = reduced sum_u32_apply 2 2 ?B" by auto
  moreover have "reduced sum_u32_apply 2 2 ?B = [11, 22]" by (simp add: reduced_def fold1_def sum_u32_apply_def numeral_2_eq_2)
  ultimately show ?thesis using start by (intro exI[of _ ?call] exI[of _ X]) simp
qed

text \<open>
  The adaptive communicator refuses buffers the plain ring takes: with the default policy, a
  buffer of at least 64 KiB that divides evenly among the ranks but whose chunks do not divide into four
  micro-chunks is answered with \<open>BadShape\<close>, although ring allreduce would run on it.
\<close>

theorem adaptive_bad_shape:
  assumes "2 \<le> n" "64 * 1024 \<le> length buf * size_of" "length buf mod n = 0" "length buf div n mod 4 \<noteq> 0"
    and "known (ucx_communicator_new r n eps) ((r + 1) mod n)"
  shows "adaptive_allreduce f d size_of (adaptive_communicator_new (ucx_communicator_new r n eps) policy_default) buf = Inl BadShape \<and>
    ucx_allreduce f (ucx_communicator_new r n eps) buf = Inr (CallTagged (ring_protocol f n (length buf div n)))"
proof -
  have "choose_allreduce policy_default (length buf * size_of) n = PipelinedRing pipeline_default"
    using assms(2) by (simp add: choose_allreduce_def policy_default_def)
  then show ?thesis using assms
    by (simp add: adaptive_allreduce_cases pipelined_call_def pipelined_ring_def pipeline_default_def Let_def
      ucx_allreduce_def tagged_call_def ring_allreduce_def ring_next_def)
qed

theorem adaptive_bad_shape_witness:
  "adaptive_allreduce sum_u32_apply 0 4 (adaptive_communicator_new (ucx_communicator_new 0 2 [None, Some ()]) policy_default)
    (replicate 16386 1) = Inl BadShape"
  using adaptive_bad_shape[of 2 "replicate 16386 1" 4 0 "[None, Some ()]" sum_u32_apply 0]
  by (simp add: endpoint_def ucx_communicator_new_def)

end
