(* ===== verification/Bootstrap.thy ===== *)
theory Bootstrap
  imports Op
begin

section \<open>Bootstrap of a communicator (\<open>ucx_backend/bootstrap.rs\<close>)\<close>

text \<open>
  Rank 0 listens; every other rank connects and sends its rank and its worker address; rank 0 answers
  every rank with all addresses, from which each rank makes its endpoints. TCP is a parameter: the bytes
  that arrive on each connection, and which calls fail. A blocking read that finds the stream closed
  fails; a write is buffered. The texts of I/O errors are those of the system.
\<close>

subsection \<open>Length-prefixed messages\<close>

definition u32_to_le_bytes :: "u32 \<Rightarrow> u8 list" where
  "u32_to_le_bytes x = [ucast x, ucast (drop_bit 8 x), ucast (drop_bit 16 x), ucast (drop_bit 24 x)]"

definition u32_from_le_bytes :: "u8 list \<Rightarrow> u32" where
  "u32_from_le_bytes bs =
     (ucast (bs ! 0) OR push_bit 8 (ucast (bs ! 1)) OR push_bit 16 (ucast (bs ! 2)) OR push_bit 24 (ucast (bs ! 3)))"

definition read_exact :: "nat \<Rightarrow> u8 list \<Rightarrow> collective_error + u8 list \<times> u8 list" where
  "read_exact n s =
     (if length s < n then Inl (collective_error.Bootstrap ''failed to fill whole buffer'') else Inr (take n s, drop n s))"

definition write_u32_len_prefixed :: "u8 list \<Rightarrow> u8 list" where
  "write_u32_len_prefixed buf = u32_to_le_bytes (of_nat (length buf)) @ buf"

definition read_u32_len_prefixed :: "u8 list \<Rightarrow> collective_error + u8 list \<times> u8 list" where
  "read_u32_len_prefixed s =
     (case read_exact 4 s of Inl e \<Rightarrow> Inl e
      | Inr (len_buf, s) \<Rightarrow> read_exact (unat (u32_from_le_bytes len_buf)) s)"

subsection \<open>Configuration\<close>

record bootstrap_config =
  bo_rank :: nat
  bo_size :: nat
  bo_root_host :: string
  bo_root_port :: u16

text \<open>\<open>str::parse\<close> of an unsigned integer of \<open>w\<close> bits: an optional plus sign and digits, without overflow.\<close>

fun parse_digits :: "nat \<Rightarrow> nat \<Rightarrow> string \<Rightarrow> nat option" where
  "parse_digits w acc [] = Some acc"
| "parse_digits w acc (c # cs) =
     (case digit_value c of None \<Rightarrow> None
      | Some d \<Rightarrow> if acc * 10 + d < 2 ^ w then parse_digits w (acc * 10 + d) cs else None)"

definition parse_unsigned :: "nat \<Rightarrow> string \<Rightarrow> nat option" where
  "parse_unsigned w s =
     (let ds = (if s \<noteq> [] \<and> hd s = CHR ''+'' then tl s else s) in if ds = [] then None else parse_digits w 0 ds)"

text \<open>\<open>Result::or_else\<close> over environment variables: the first that is set.\<close>

fun first_set :: "(string \<Rightarrow> string option) \<Rightarrow> string list \<Rightarrow> string option" where
  "first_set env [] = None"
| "first_set env (key # keys) = (case env key of None \<Rightarrow> first_set env keys | Some v \<Rightarrow> Some v)"

definition parse_required :: "string option \<Rightarrow> string \<Rightarrow> string \<Rightarrow> collective_error + nat" where
  "parse_required v missing bad =
     (case v of None \<Rightarrow> Inl (Protocol missing)
      | Some s \<Rightarrow> (case parse_unsigned 64 s of None \<Rightarrow> Inl (Protocol bad) | Some n \<Rightarrow> Inr n))"

definition from_env :: "(string \<Rightarrow> string option) \<Rightarrow> collective_error + bootstrap_config" where
  "from_env env =
     (case parse_required (first_set env [''PLUVIO_COLL_RANK'', ''OMPI_COMM_WORLD_RANK'', ''PMI_RANK''])
             ''rank not provided'' ''rank parse error'' of
        Inl e \<Rightarrow> Inl e
      | Inr rank \<Rightarrow>
          (case parse_required (first_set env [''PLUVIO_COLL_SIZE'', ''OMPI_COMM_WORLD_SIZE'', ''PMI_SIZE''])
                  ''size not provided'' ''size parse error'' of
             Inl e \<Rightarrow> Inl e
           | Inr n \<Rightarrow>
               (let root_host = (case env ''PLUVIO_COLL_ROOT_HOST'' of None \<Rightarrow> ''localhost'' | Some s \<Rightarrow> s);
                    root_port = (case env ''PLUVIO_COLL_ROOT_PORT'' of None \<Rightarrow> ''13337'' | Some s \<Rightarrow> s)
                in case parse_unsigned 16 root_port of
                     None \<Rightarrow> Inl (Protocol ''port parse error'')
                   | Some port \<Rightarrow> Inr \<lparr>bo_rank = rank, bo_size = n, bo_root_host = root_host, bo_root_port = of_nat port\<rparr>)))"

subsection \<open>The exchange\<close>

text \<open>
  The network as one rank sees it. \<open>accept i\<close> is the \<open>i\<close>th connection rank 0 accepts: an error, or the bytes
  that arrive on it; a write to connection \<open>i\<close> may fail. A peer sees which of its attempts to connect
  succeed, whether its own writes fail, and the bytes of the answer.
\<close>

record tcp =
  tcp_bind :: "string option"
  tcp_accept :: "nat \<Rightarrow> string + u8 list"
  tcp_write_error :: "nat \<Rightarrow> string option"
  tcp_connect :: "nat \<Rightarrow> bool"
  tcp_send_error :: "string option"
  tcp_answer :: "u8 list"

text \<open>Rank 0 collects: the addresses by rank, and the connection of each rank.\<close>

fun root_collect :: "tcp \<Rightarrow> nat list \<Rightarrow> u8 list list \<Rightarrow> (nat \<rightharpoonup> nat) \<Rightarrow> (collective_error + u8 list list \<times> (nat \<rightharpoonup> nat)) run" where
  "root_collect net [] addresses conns = Inr (Inr (addresses, conns))"
| "root_collect net (i # is) addresses conns =
     (case tcp_accept net i of Inl e \<Rightarrow> Inr (Inl (collective_error.Bootstrap e))
      | Inr stream \<Rightarrow>
          (case read_exact 4 stream of Inl e \<Rightarrow> Inr (Inl e)
           | Inr (hdr, stream) \<Rightarrow>
               (let peer_rank = unat (u32_from_le_bytes hdr)
                in case read_u32_len_prefixed stream of Inl e \<Rightarrow> Inr (Inl e)
                   | Inr (peer_addr, stream) \<Rightarrow>
                       if peer_rank < length addresses
                       then root_collect net is (addresses[peer_rank := peer_addr]) (conns(peer_rank \<mapsto> i))
                       else Inl (Panic ''index out of bounds''))))"

text \<open>Rank 0 answers: the bytes written to each connection.\<close>

definition answer_bytes :: "nat \<Rightarrow> u8 list list \<Rightarrow> u8 list" where
  "answer_bytes n addresses = u32_to_le_bytes (of_nat n) @ concat (map write_u32_len_prefixed addresses)"

fun root_answer :: "tcp \<Rightarrow> nat \<Rightarrow> u8 list list \<Rightarrow> nat list \<Rightarrow> (nat \<rightharpoonup> nat) \<Rightarrow> (nat \<Rightarrow> u8 list) \<Rightarrow>
    (collective_error + (nat \<Rightarrow> u8 list)) run" where
  "root_answer net n addresses [] conns out = Inr (Inr out)"
| "root_answer net n addresses (rank # ranks) conns out =
     (case conns rank of None \<Rightarrow> Inl (Panic ''missing connection'')
      | Some i \<Rightarrow>
          (case tcp_write_error net i of Some e \<Rightarrow> Inr (Inl (collective_error.Bootstrap e))
           | None \<Rightarrow> root_answer net n addresses ranks (conns(rank := None)) (out(i := answer_bytes n addresses))))"

definition exchange_root :: "bootstrap_config \<Rightarrow> u8 list \<Rightarrow> tcp \<Rightarrow> (collective_error + u8 list list \<times> (nat \<Rightarrow> u8 list)) run" where
  "exchange_root config my_addr net =
     (case tcp_bind net of Some e \<Rightarrow> Inr (Inl (collective_error.Bootstrap e))
      | None \<Rightarrow>
          if bo_size config = 0 then Inl (Panic ''index out of bounds'')
          else run_bind (root_collect net [1..<bo_size config] ((replicate (bo_size config) [])[0 := my_addr]) Map.empty) (\<lambda>res.
            case res of Inl e \<Rightarrow> Inr (Inl e)
            | Inr (addresses, conns) \<Rightarrow>
                run_bind (root_answer net (bo_size config) addresses [1..<bo_size config] conns (\<lambda>_. [])) (\<lambda>res.
                  Inr (map_sum id (\<lambda>out. (addresses, out)) res))))"

text \<open>A peer: what it sends, and how it reads the answer.\<close>

definition peer_hello :: "nat \<Rightarrow> u8 list \<Rightarrow> u8 list" where
  "peer_hello rank my_addr = u32_to_le_bytes (of_nat rank) @ write_u32_len_prefixed my_addr"

fun read_addresses :: "nat \<Rightarrow> u8 list \<Rightarrow> collective_error + u8 list list" where
  "read_addresses 0 s = Inr []"
| "read_addresses (Suc n) s =
     (case read_u32_len_prefixed s of Inl e \<Rightarrow> Inl e
      | Inr (addr, s) \<Rightarrow> map_sum id (\<lambda>rest. addr # rest) (read_addresses n s))"

definition exchange_peer :: "bootstrap_config \<Rightarrow> u8 list \<Rightarrow> tcp \<Rightarrow> collective_error + u8 list list" where
  "exchange_peer config my_addr net =
     (if \<not> list_ex (tcp_connect net) [0..<200] then Inl (Protocol ''bootstrap: failed to connect to rank 0'')
      else case tcp_send_error net of Some e \<Rightarrow> Inl (collective_error.Bootstrap e)
      | None \<Rightarrow>
          (case read_exact 4 (tcp_answer net) of Inl e \<Rightarrow> Inl e
           | Inr (count_buf, s) \<Rightarrow>
               (let count = unat (u32_from_le_bytes count_buf)
                in if count \<noteq> bo_size config then Inl (Protocol ''bootstrap: size mismatch'')
                   else read_addresses count s)))"

definition exchange_addresses :: "bootstrap_config \<Rightarrow> u8 list \<Rightarrow> tcp \<Rightarrow> (collective_error + u8 list list) run" where
  "exchange_addresses config my_addr net =
     (if bo_rank config = 0 then run_bind (exchange_root config my_addr net) (\<lambda>res. Inr (map_sum id fst res))
      else Inr (exchange_peer config my_addr net))"

subsection \<open>Endpoints\<close>

fun show_nat :: "nat \<Rightarrow> string" where
  "show_nat n = (if n < 10 then [char_of (48 + n)] else show_nat (n div 10) @ [char_of (48 + n mod 10)])"

declare show_nat.simps [simp del]

text \<open>The loop over the addresses; \<open>connect\<close> answers the text of an error or an endpoint.\<close>

fun connect_all :: "(u8 list \<Rightarrow> string + 'e) \<Rightarrow> nat \<Rightarrow> nat \<Rightarrow> u8 list list \<Rightarrow> collective_error + 'e option list" where
  "connect_all connect own rank [] = Inr []"
| "connect_all connect own rank (addr # addrs) =
     (if rank = own then map_sum id (\<lambda>eps. None # eps) (connect_all connect own (rank + 1) addrs)
      else case connect addr of
        Inl e \<Rightarrow> Inl (Ucx (''connect_addr('' @ show_nat rank @ ''): '' @ e))
      | Inr ep \<Rightarrow> map_sum id (\<lambda>eps. Some ep # eps) (connect_all connect own (rank + 1) addrs))"

definition bootstrap_communicator ::
  "(string + u8 list) \<Rightarrow> (u8 list \<Rightarrow> string + 'e) \<Rightarrow> bootstrap_config \<Rightarrow> tcp \<Rightarrow> (collective_error + 'e option list) run" where
  "bootstrap_communicator address connect config net =
     (case address of Inl e \<Rightarrow> Inr (Inl (Ucx (''Worker::address: '' @ e)))
      | Inr my_addr \<Rightarrow>
          run_bind (exchange_addresses config my_addr net) (\<lambda>res.
            case res of Inl e \<Rightarrow> Inr (Inl e)
            | Inr addresses \<Rightarrow> Inr (connect_all connect (bo_rank config) 0 addresses)))"

subsection \<open>Round trips\<close>

lemma u32_le_roundtrip: "u32_from_le_bytes (u32_to_le_bytes x @ rest) = x"
proof (rule bit_word_eqI)
  fix n assume "n < LENGTH(32)"
  then consider "n < 8" | "8 \<le> n" "n < 16" | "16 \<le> n" "n < 24" | "24 \<le> n" "n < 32" by fastforce
  then show "bit (u32_from_le_bytes (u32_to_le_bytes x @ rest)) n \<longleftrightarrow> bit x n"
    by cases (auto simp: u32_from_le_bytes_def u32_to_le_bytes_def bit_simps less_diff_conv2)
qed

lemma length_u32_le [simp]: "length (u32_to_le_bytes x) = 4"
  by (simp add: u32_to_le_bytes_def)

lemma read_exact_append: "length s = n \<Longrightarrow> read_exact n (s @ rest) = Inr (s, rest)"
  by (simp add: read_exact_def)

lemma read_u32_append: "read_exact 4 (u32_to_le_bytes x @ rest) = Inr (u32_to_le_bytes x, rest)"
  by (simp add: read_exact_append)

lemma prefixed_append: "length buf < 2 ^ 32 \<Longrightarrow> read_u32_len_prefixed (write_u32_len_prefixed buf @ rest) = Inr (buf, rest)"
  using u32_le_roundtrip[of "of_nat (length buf)" "[]"]
  by (simp add: read_u32_len_prefixed_def write_u32_len_prefixed_def read_u32_append read_exact_append unat_of_nat)

lemma read_addresses_append:
  "(\<And>a. a \<in> set addrs \<Longrightarrow> length a < 2 ^ 32) \<Longrightarrow>
    read_addresses (length addrs) (concat (map write_u32_len_prefixed addrs) @ rest) = Inr addrs"
  by (induction addrs) (simp_all add: prefixed_append)

subsection \<open>Collecting and answering\<close>

lemma collect_step:
  assumes "tcp_accept net i = Inr (peer_hello rank a)" "rank < 2 ^ 32" "length a < 2 ^ 32"
  shows "root_collect net (i # is) addresses conns =
    (if rank < length addresses then root_collect net is (addresses[rank := a]) (conns(rank \<mapsto> i)) else Inl (Panic ''index out of bounds''))"
  using assms u32_le_roundtrip[of "of_nat rank" "[]"] prefixed_append[OF assms(3), of "[]"]
  by (simp add: peer_hello_def read_u32_append unat_of_nat)

text \<open>Connection \<open>i\<close> of \<open>is\<close> brings the hello of rank \<open>g i\<close> with the address \<open>a i\<close>.\<close>

definition hellos :: "tcp \<Rightarrow> nat list \<Rightarrow> (nat \<Rightarrow> nat) \<Rightarrow> (nat \<Rightarrow> u8 list) \<Rightarrow> bool" where
  "hellos net is g a \<longleftrightarrow> (\<forall>i \<in> set is. tcp_accept net i = Inr (peer_hello (g i) (a i)) \<and> g i < 2 ^ 32 \<and> length (a i) < 2 ^ 32)"

definition collected :: "(nat \<Rightarrow> nat) \<Rightarrow> (nat \<Rightarrow> u8 list) \<Rightarrow> nat list \<Rightarrow> u8 list list \<Rightarrow> (nat \<rightharpoonup> nat) \<Rightarrow> u8 list list \<Rightarrow> (nat \<rightharpoonup> nat) \<Rightarrow> bool" where
  "collected g a is addresses conns A C \<longleftrightarrow> length A = length addresses \<and> dom C = dom conns \<union> g ` set is \<and>
     (\<forall>r. r \<notin> g ` set is \<longrightarrow> A ! r = addresses ! r \<and> C r = conns r) \<and>
     (inj_on g (set is) \<longrightarrow> distinct is \<longrightarrow> (\<forall>i \<in> set is. A ! g i = a i \<and> C (g i) = Some i))"

lemma collected_Cons:
  assumes "collected g a is (addresses[g i := a i]) (conns(g i \<mapsto> i)) A C" "g i < length addresses"
  shows "collected g a (i # is) addresses conns A C"
proof -
  note c = assms(1)[unfolded collected_def]
  have "A ! g j = a j \<and> C (g j) = Some j" if "inj_on g (set (i # is))" "distinct (i # is)" "j \<in> set (i # is)" for j
  proof (cases "j = i")
    case True
    then have "g i \<notin> g ` set is" using that(1,2) by auto
    then have "A ! g i = addresses[g i := a i] ! g i \<and> C (g i) = (conns(g i \<mapsto> i)) (g i)" using c by blast
    with assms(2) True show ?thesis by simp
  next
    case False
    then have "j \<in> set is" "inj_on g (set is)" "distinct is" using that by (auto simp: inj_on_def)
    then show ?thesis using c by blast
  qed
  moreover have "dom C = dom conns \<union> g ` set (i # is)" using c by auto
  moreover have "A ! r = addresses ! r \<and> C r = conns r" if "r \<notin> g ` set (i # is)" for r
  proof -
    have "r \<notin> g ` set is" "r \<noteq> g i" using that by auto
    then have "A ! r = addresses[g i := a i] ! r \<and> C r = (conns(g i \<mapsto> i)) r" using c by blast
    then show ?thesis using \<open>r \<noteq> g i\<close> by simp
  qed
  moreover have "length A = length addresses" using c by simp
  ultimately show ?thesis unfolding collected_def by blast
qed

lemma collect_ok:
  "hellos net is g a \<Longrightarrow> \<forall>i \<in> set is. g i < length addresses \<Longrightarrow>
    \<exists>A C. root_collect net is addresses conns = Inr (Inr (A, C)) \<and> collected g a is addresses conns A C"
proof (induction "is" arbitrary: addresses conns)
  case (Cons i "is")
  have hi: "tcp_accept net i = Inr (peer_hello (g i) (a i))" "g i < 2 ^ 32" "length (a i) < 2 ^ 32" "g i < length addresses"
    and rest: "hellos net is g a" "\<forall>j \<in> set is. g j < length (addresses[g i := a i])"
    using Cons.prems by (simp_all add: hellos_def)
  from Cons.IH[OF rest, of "conns(g i \<mapsto> i)"] obtain A C where AC:
    "root_collect net is (addresses[g i := a i]) (conns(g i \<mapsto> i)) = Inr (Inr (A, C))"
    "collected g a is (addresses[g i := a i]) (conns(g i \<mapsto> i)) A C" by blast
  from AC(1) collected_Cons[OF AC(2) hi(4)] hi(4) show ?case unfolding collect_step[OF hi(1-3)] by simp
qed (simp add: collected_def)

lemma collect_bad:
  "hellos net is g a \<Longrightarrow> \<exists>i \<in> set is. length addresses \<le> g i \<Longrightarrow>
    root_collect net is addresses conns = Inl (Panic ''index out of bounds'')"
proof (induction "is" arbitrary: addresses conns)
  case (Cons i "is")
  have hi: "tcp_accept net i = Inr (peer_hello (g i) (a i))" "g i < 2 ^ 32" "length (a i) < 2 ^ 32" and rest: "hellos net is g a"
    using Cons.prems(1) by (simp_all add: hellos_def)
  show ?case unfolding collect_step[OF hi] using Cons.IH[OF rest, of "addresses[g i := a i]"] Cons.prems(2) by auto
qed simp

lemma answer_ok:
  "distinct ranks \<Longrightarrow> \<forall>r \<in> set ranks. conns r = Some (c r) \<Longrightarrow> inj_on c (set ranks) \<Longrightarrow> \<forall>i. tcp_write_error net i = None \<Longrightarrow>
    \<exists>out'. root_answer net n addresses ranks conns out = Inr (Inr out') \<and> (\<forall>r \<in> set ranks. out' (c r) = answer_bytes n addresses) \<and>
      (\<forall>i. i \<notin> c ` set ranks \<longrightarrow> out' i = out i)"
proof (induction ranks arbitrary: conns out)
  case (Cons r ranks)
  have d: "distinct ranks" "\<forall>r' \<in> set ranks. (conns(r := None)) r' = Some (c r')" "inj_on c (set ranks)"
    using Cons.prems(1,2,3) by auto
  from Cons.IH[OF d Cons.prems(4), of "out(c r := answer_bytes n addresses)"]
  obtain out' where out': "root_answer net n addresses ranks (conns(r := None)) (out(c r := answer_bytes n addresses)) = Inr (Inr out')"
    "\<forall>r \<in> set ranks. out' (c r) = answer_bytes n addresses"
    "\<forall>i. i \<notin> c ` set ranks \<longrightarrow> out' i = (out(c r := answer_bytes n addresses)) i" by blast
  have "c r \<notin> c ` set ranks" using Cons.prems(1,3) by auto
  then have "out' (c r) = answer_bytes n addresses" using out'(3) by simp
  then show ?case using out' Cons.prems(2,4) by simp
qed simp

lemma answer_missing:
  "distinct ranks \<Longrightarrow> \<exists>r \<in> set ranks. conns r = None \<Longrightarrow> \<forall>i. tcp_write_error net i = None \<Longrightarrow>
    root_answer net n addresses ranks conns out = Inl (Panic ''missing connection'')"
proof (induction ranks arbitrary: conns out)
  case (Cons r ranks)
  show ?case
  proof (cases "conns r")
    case (Some i)
    have "\<exists>r' \<in> set ranks. (conns(r := None)) r' = None" using Cons.prems(1,2) Some by auto
    from Cons.IH[OF _ this Cons.prems(3), of "out(i := answer_bytes n addresses)"] have "root_answer net n addresses ranks (conns(r := None)) (out(i := answer_bytes n addresses)) = Inl (Panic ''missing connection'')"
      using Cons.prems(1) by (simp del: fun_upd_apply)
    then show ?thesis using Cons.prems(3) Some by (simp del: fun_upd_apply)
  qed simp
qed simp

subsection \<open>The exchange as a whole\<close>

text \<open>Rank 0, when every connection brings a well-formed hello and no I/O fails.\<close>

definition clean_net :: "tcp \<Rightarrow> nat \<Rightarrow> (nat \<Rightarrow> nat) \<Rightarrow> (nat \<Rightarrow> u8 list) \<Rightarrow> bool" where
  "clean_net net n g a \<longleftrightarrow> tcp_bind net = None \<and> (\<forall>i. tcp_write_error net i = None) \<and> hellos net [1..<n] g a"

lemma bij_iff_covers:
  assumes "\<And>i. i \<in> {1..<n} \<Longrightarrow> g i < (n :: nat)"
  shows "bij_betw g {1..<n} {1..<n} \<longleftrightarrow> {1..<n} \<subseteq> g ` {1..<n}"
proof
  assume sub: "{1..<n} \<subseteq> g ` {1..<n}"
  have "card (g ` {1..<n}) \<le> card {1..<n}" by (rule card_image_le) simp
  then have eq: "g ` {1..<n} = {1..<n}" using sub card_seteq[OF _ sub] by auto
  then have "inj_on g {1..<n}" by (intro eq_card_imp_inj_on) simp_all
  with eq show "bij_betw g {1..<n} {1..<n}" by (simp add: bij_betw_def)
qed (auto simp: bij_betw_def)

lemma root_bijective:
  assumes net: "clean_net net n g (\<lambda>i. addr (g i))" and n: "0 < n" "bo_size config = n" and g: "bij_betw g {1..<n} {1..<n}"
  shows "\<exists>out. exchange_root config (addr 0) net = Inr (Inr (map addr [0..<n], out)) \<and>
    (\<forall>i \<in> {1..<n}. out i = answer_bytes n (map addr [0..<n]))"
proof -
  let ?A = "(replicate n [])[0 := addr 0]"
  have img: "g ` {1..<n} = {1..<n}" and inj: "inj_on g {1..<n}" using g by (simp_all add: bij_betw_def)
  have "\<forall>i \<in> set [1..<n]. g i < length ?A" using img by auto
  from collect_ok[OF _ this, of net "\<lambda>i. addr (g i)" Map.empty] net
  obtain A C where AC0: "root_collect net [1..<n] ?A Map.empty = Inr (Inr (A, C))" "collected g (\<lambda>i. addr (g i)) [1..<n] ?A Map.empty A C"
    by (auto simp: clean_net_def)
  have AC: "root_collect net [1..<n] ?A Map.empty = Inr (Inr (A, C))" "length A = n"
    "\<And>r. r \<notin> {1..<n} \<Longrightarrow> A ! r = ?A ! r" "\<And>i. i \<in> {1..<n} \<Longrightarrow> A ! g i = addr (g i) \<and> C (g i) = Some i"
    using AC0 inj img by (simp_all add: collected_def)
  have A: "A = map addr [0..<n]"
  proof (rule nth_equalityI)
    fix r assume r: "r < length A"
    show "A ! r = map addr [0..<n] ! r"
    proof (cases "r = 0")
      case False
      then have "r \<in> g ` {1..<n}" using r AC(2) img by simp
      then obtain i where "i \<in> {1..<n}" "r = g i" by blast
      then show ?thesis using AC(4) r AC(2) by simp
    qed (use AC(3)[of 0] n(1) in simp)
  qed (simp add: AC(2))
  define c where "c = inv_into {1..<n} g"
  have c: "C r = Some (c r)" if "r \<in> {1..<n}" for r
  proof -
    have "r \<in> g ` {1..<n}" using that img by simp
    then have "c r \<in> {1..<n}" "g (c r) = r" unfolding c_def by (rule inv_into_into, rule f_inv_into_f)
    then show ?thesis using AC(4)[of "c r"] by simp
  qed
  have "inj_on c (set [1..<n])" using inj_on_inv_into[of "{1..<n}" g "{1..<n}"] img by (simp add: c_def)
  from answer_ok[OF _ _ this, of C net n A "\<lambda>_. []"] c net obtain out where out:
    "root_answer net n A [1..<n] C (\<lambda>_. []) = Inr (Inr out)" "\<forall>r \<in> {1..<n}. out (c r) = answer_bytes n A"
    by (auto simp: clean_net_def)
  have "out i = answer_bytes n A" if "i \<in> {1..<n}" for i
  proof -
    have "c (g i) = i" using inj that by (simp add: c_def inv_into_f_f)
    moreover have "g i \<in> {1..<n}" using img that by blast
    ultimately show ?thesis using out(2) by metis
  qed
  then show ?thesis using AC(1) out(1) n net A by (simp add: exchange_root_def clean_net_def)
qed

lemma root_not_bijective:
  assumes net: "clean_net net n g a" and n: "0 < n" "bo_size config = n" and g: "\<not> bij_betw g {1..<n} {1..<n}"
  shows "\<exists>msg. exchange_root config my_addr net = Inl (Panic msg)"
proof (cases "\<exists>i \<in> {1..<n}. n \<le> g i")
  case True
  then have "root_collect net [1..<n] ((replicate n [])[0 := my_addr]) Map.empty = Inl (Panic ''index out of bounds'')"
    using net by (intro collect_bad) (auto simp: clean_net_def)
  then show ?thesis using n net by (simp add: exchange_root_def clean_net_def)
next
  case False
  then obtain A C where AC: "root_collect net [1..<n] ((replicate n [])[0 := my_addr]) Map.empty = Inr (Inr (A, C))" "dom C = g ` {1..<n}"
    using collect_ok[of net "[1..<n]" g a "(replicate n [])[0 := my_addr]" Map.empty] net
    by (fastforce simp: clean_net_def collected_def not_le)
  have small: "\<And>i. i \<in> {1..<n} \<Longrightarrow> g i < n" using False by (meson not_le)
  have "\<not> {1..<n} \<subseteq> g ` {1..<n}" using g bij_iff_covers[of n g, OF small] by blast
  then have "\<exists>r \<in> set [1..<n]. C r = None" using AC(2) by auto
  then have "root_answer net n A [1..<n] C (\<lambda>_. []) = Inl (Panic ''missing connection'')"
    using net by (intro answer_missing) (auto simp: clean_net_def)
  then show ?thesis using AC(1) n net by (simp add: exchange_root_def clean_net_def)
qed

lemma peer_reads:
  assumes "\<And>a. a \<in> set addrs \<Longrightarrow> length a < 2 ^ 32" "length addrs < 2 ^ 32" "bo_size config = length addrs"
    and "list_ex (tcp_connect net) [0..<200]" "tcp_send_error net = None" "tcp_answer net = answer_bytes (length addrs) addrs"
  shows "exchange_peer config my_addr net = Inr addrs"
  using assms read_addresses_append[of addrs "[]"] u32_le_roundtrip[of "of_nat (length addrs)" "[]"]
  by (simp add: exchange_peer_def answer_bytes_def read_u32_append unat_of_nat)

lemma addresses_short:
  assumes net: "clean_net net n g (\<lambda>i. addr (g i))" and g: "bij_betw g {1..<n} {1..<n}" and short: "length (addr 0) < 2 ^ 32"
    and x: "x \<in> set (map addr [0..<n])"
  shows "length x < 2 ^ 32"
proof -
  from x obtain r where r: "r < n" "x = addr r" by auto
  show ?thesis
  proof (cases "r = 0")
    case False
    then have "r \<in> g ` {1..<n}" using g r(1) by (simp add: bij_betw_def)
    then obtain i where "i \<in> {1..<n}" "r = g i" by blast
    then show ?thesis using net r(2) by (auto simp: clean_net_def hellos_def)
  qed (use short r in simp)
qed

text \<open>
  C29 (roundtrip). Whatever order the other ranks connect in: when no I/O fails and the connections come from
  the ranks 1 to n - 1, rank 0 ends with the address of every rank at its index, and a peer that reads its
  answer ends with the same addresses. When the ranks the connections name are anything else than 1 to
  n - 1 once each, rank 0 panics.
\<close>

theorem exchange_agrees:
  assumes net: "clean_net net n g (\<lambda>i. addr (g i))" and n: "0 < n" "n < 2 ^ 32" "bo_size config = n" "length (addr 0) < 2 ^ 32"
  shows "(bij_betw g {1..<n} {1..<n} \<longrightarrow>
      (\<exists>out. exchange_root config (addr 0) net = Inr (Inr (map addr [0..<n], out)) \<and>
        (\<forall>i \<in> {1..<n}. \<forall>peer pnet. bo_size peer = n \<and> list_ex (tcp_connect pnet) [0..<200] \<and> tcp_send_error pnet = None \<and>
           tcp_answer pnet = out i \<longrightarrow> exchange_peer peer (addr (g i)) pnet = Inr (map addr [0..<n])))) \<and>
    (\<not> bij_betw g {1..<n} {1..<n} \<longrightarrow> (\<exists>msg. exchange_root config (addr 0) net = Inl (Panic msg)))"
proof (intro conjI impI)
  show "\<exists>msg. exchange_root config (addr 0) net = Inl (Panic msg)" if "\<not> bij_betw g {1..<n} {1..<n}"
    by (rule root_not_bijective[OF net n(1,3) that])
  assume g: "bij_betw g {1..<n} {1..<n}"
  from root_bijective[OF net n(1,3) g] obtain out where out: "exchange_root config (addr 0) net = Inr (Inr (map addr [0..<n], out))"
    "\<forall>i \<in> {1..<n}. out i = answer_bytes n (map addr [0..<n])" by blast
  have "exchange_peer peer (addr (g i)) pnet = Inr (map addr [0..<n])"
    if "i \<in> {1..<n}" "bo_size peer = n" "list_ex (tcp_connect pnet) [0..<200]" "tcp_send_error pnet = None" "tcp_answer pnet = out i"
    for i peer pnet
    by (rule peer_reads[OF addresses_short[OF net g n(4)]]) (use that n out(2) in simp_all)
  with out(1) show "\<exists>out. exchange_root config (addr 0) net = Inr (Inr (map addr [0..<n], out)) \<and>
      (\<forall>i \<in> {1..<n}. \<forall>peer pnet. bo_size peer = n \<and> list_ex (tcp_connect pnet) [0..<200] \<and> tcp_send_error pnet = None \<and>
         tcp_answer pnet = out i \<longrightarrow> exchange_peer peer (addr (g i)) pnet = Inr (map addr [0..<n]))" by blast
qed

text \<open>Three ranks; rank 2 connects first.\<close>

definition demo_config :: bootstrap_config where
  "demo_config = \<lparr>bo_rank = 0, bo_size = 3, bo_root_host = ''localhost'', bo_root_port = 13337\<rparr>"

definition demo_tcp :: tcp where
  "demo_tcp = \<lparr>tcp_bind = None, tcp_accept = \<lambda>i. Inr (peer_hello (3 - i) [of_nat (3 - i)]), tcp_write_error = \<lambda>_. None,
     tcp_connect = \<lambda>i. i = 3, tcp_send_error = None, tcp_answer = []\<rparr>"

theorem exchange_agrees_witness:
  "\<exists>out. exchange_root demo_config [7] demo_tcp = Inr (Inr ([[7], [1], [2]], out)) \<and>
     exchange_peer (demo_config\<lparr>bo_rank := 2\<rparr>) [2] (demo_tcp\<lparr>tcp_answer := out 1\<rparr>) = Inr [[7], [1], [2]]"
proof -
  let ?addr = "\<lambda>r. if r = 0 then [7] else [of_nat r :: u8]"
  let ?g = "\<lambda>i. 3 - i :: nat"
  have iv: "{1..<3} = {1, 2 :: nat}" by auto
  have net: "clean_net demo_tcp 3 ?g (\<lambda>i. ?addr (?g i))" by (auto simp: clean_net_def hellos_def demo_tcp_def)
  have "bij_betw ?g {1..<3} {1..<3}" unfolding iv by (simp add: bij_betw_def insert_commute)
  then obtain out where out: "exchange_root demo_config (?addr 0) demo_tcp = Inr (Inr (map ?addr [0..<3], out))"
    "\<forall>i \<in> {1..<3}. \<forall>peer pnet. bo_size peer = 3 \<and> list_ex (tcp_connect pnet) [0..<200] \<and> tcp_send_error pnet = None \<and>
       tcp_answer pnet = out i \<longrightarrow> exchange_peer peer (?addr (?g i)) pnet = Inr (map ?addr [0..<3])"
    using exchange_agrees[where net = demo_tcp and n = 3 and g = ?g and addr = ?addr and config = demo_config, OF net]
    by (auto simp: demo_config_def)
  have m: "map ?addr [0..<3] = [[7], [1], [2]]" by (simp add: upt_rec)
  have "list_ex (tcp_connect demo_tcp) [0..<200]" by (auto simp: demo_tcp_def list_ex_iff)
  then have "exchange_peer (demo_config\<lparr>bo_rank := 2\<rparr>) (?addr (?g 1)) (demo_tcp\<lparr>tcp_answer := out 1\<rparr>) = Inr (map ?addr [0..<3])"
    using out(2)[rule_format, of 1 "demo_config\<lparr>bo_rank := 2\<rparr>" "demo_tcp\<lparr>tcp_answer := out 1\<rparr>"]
    by (simp add: demo_config_def demo_tcp_def)
  then show ?thesis using out(1) m by (intro exI[of _ out]) simp
qed

subsection \<open>All endpoints\<close>

lemma connect_all_ok:
  "(\<And>addr. addr \<in> set addrs \<Longrightarrow> connect addr = Inr (ep addr)) \<Longrightarrow>
    connect_all connect own k addrs = Inr (map (\<lambda>r. if r = own then None else Some (ep (addrs ! (r - k)))) [k..<k + length addrs])"
proof (induction addrs arbitrary: k)
  case (Cons addr addrs)
  have "connect_all connect own (k + 1) addrs =
      Inr (map (\<lambda>r. if r = own then None else Some (ep (addrs ! (r - (k + 1))))) [k + 1..<k + 1 + length addrs])"
    using Cons by simp
  moreover have "[k..<k + length (addr # addrs)] = k # [k + 1..<k + 1 + length addrs]" by (simp add: upt_rec)
  ultimately show ?case using Cons.prems by (auto simp: nth_Cons' intro!: map_cong)
qed simp

lemma bootstrap_ok:
  assumes "exchange_addresses config my_addr net = Inr (Inr (map addr [0..<n]))"
    and "\<And>r. r < n \<Longrightarrow> connect (addr r) = Inr (ep (addr r))"
  shows "bootstrap_communicator (Inr my_addr) connect config net =
    Inr (Inr (map (\<lambda>r. if r = bo_rank config then None else Some (ep (addr r))) [0..<n]))"
proof -
  have "connect_all connect (bo_rank config) 0 (map addr [0..<n]) =
      Inr (map (\<lambda>r. if r = bo_rank config then None else Some (ep (map addr [0..<n] ! (r - 0)))) [0..<0 + length (map addr [0..<n])])"
    by (rule connect_all_ok) (use assms(2) in auto)
  also have "\<dots> = Inr (map (\<lambda>r. if r = bo_rank config then None else Some (ep (addr r))) [0..<n])" by simp
  finally show ?thesis using assms(1) by (simp add: bootstrap_communicator_def)
qed

end
