(* ===== verification/Mpi_Backend.thy ===== *)
theory Mpi_Backend
  imports Reactor Op
begin

section \<open>The MPI backend (\<open>pluvio_collective/src/mpi_backend\<close>)\<close>

text \<open>
  A collective is one non-blocking MPI call made by the first poll of its future; the reactor tests the
  pending requests, and the future is ready once its request is complete. The MPI library is a parameter:
  what a call answers, and what \<open>MPI_Test\<close> answers about a request. Buffers are addresses. A completion slot
  (\<open>Rc<CompletionSlot>\<close>) is a cell of the reactor's store; waking appends to a log.
\<close>

type_synonym i32 = "32 word"

subsection \<open>The library\<close>

datatype mpi_datatype = MPI_FLOAT | MPI_DOUBLE | MPI_UINT32_T

datatype mpi_op = MPI_SUM | MPI_MAX | MPI_MIN | MPI_PROD | MPI_BXOR

text \<open>The element types with an \<open>MPI_Datatype\<close>, and the operators.\<close>

datatype scalar = F32 | F64 | U32

fun dtype :: "scalar \<Rightarrow> mpi_datatype" where
  "dtype F32 = MPI_FLOAT"
| "dtype F64 = MPI_DOUBLE"
| "dtype U32 = MPI_UINT32_T"

datatype op_type = Sum | Max | Min | Prod | BitXor

fun op_mpi :: "op_type \<Rightarrow> mpi_op" where
  "op_mpi Sum = MPI_SUM"
| "op_mpi Max = MPI_MAX"
| "op_mpi Min = MPI_MIN"
| "op_mpi Prod = MPI_PROD"
| "op_mpi BitXor = MPI_BXOR"

text \<open>The environment variables set before \<open>MPI_Init\<close>.\<close>

definition disable_async_progress :: "(string \<Rightarrow> string option) \<Rightarrow> string \<Rightarrow> string option" where
  "disable_async_progress vars =
     vars(''MPICH_ASYNC_PROGRESS'' \<mapsto> ''0'', ''MPIR_CVAR_ASYNC_PROGRESS'' \<mapsto> ''0'', ''OMPI_MCA_pml_ucx_progress_iterations'' \<mapsto> ''0'')"

text \<open>The non-blocking calls with their arguments; the send buffer of \<open>Iallreduce\<close> is \<open>MPI_IN_PLACE\<close>.\<close>

datatype mpi_call =
  Iallreduce nat i32 mpi_datatype mpi_op
| Iscatter "nat option" i32 mpi_datatype nat i32 mpi_datatype i32
| Iallgather nat i32 mpi_datatype nat i32 mpi_datatype
| Ibcast nat i32 mpi_datatype i32

text \<open>A call answers an error code or a request; \<open>MPI_Test\<close> answers its flag.\<close>

record 'q mpi_lib =
  mpi_comm_rank :: "int + i32"
  mpi_comm_size :: "int + i32"
  mpi_start :: "mpi_call \<Rightarrow> 'q \<Rightarrow> (int + nat) \<times> 'q"
  mpi_test :: "nat \<Rightarrow> 'q \<Rightarrow> bool \<times> 'q"

subsection \<open>The reactor\<close>

record 'w pending_req =
  pq_req :: nat
  pq_waker :: 'w
  pq_slot :: nat

text \<open>\<open>mr_done\<close> holds the slots; \<open>mr_active\<close> is the counter the status reads.\<close>

record 'w mpi_reactor =
  mr_pending :: "'w pending_req list"
  mr_active :: u64
  mr_done :: "nat \<Rightarrow> bool"
  mr_next_slot :: nat
  mr_wakes :: "'w list"

definition mpi_reactor_new :: "'w mpi_reactor" where
  "mpi_reactor_new = \<lparr>mr_pending = [], mr_active = 0, mr_done = \<lambda>_. False, mr_next_slot = 0, mr_wakes = []\<rparr>"

definition mpi_register :: "nat \<Rightarrow> 'w \<Rightarrow> 'w mpi_reactor \<Rightarrow> nat \<times> 'w mpi_reactor" where
  "mpi_register req waker r =
     (let slot = mr_next_slot r
      in (slot, r\<lparr>mr_pending := mr_pending r @ [\<lparr>pq_req = req, pq_waker = waker, pq_slot = slot\<rparr>],
                  mr_active := mr_active r + 1, mr_done := (mr_done r)(slot := False), mr_next_slot := Suc slot\<rparr>))"

definition mpi_status :: "'w mpi_reactor \<Rightarrow> reactor_status" where
  "mpi_status r = (if 0 < mr_active r then Running else Stopped)"

text \<open>\<open>Vec::swap_remove\<close>: the last element takes the place of the removed one.\<close>

definition swap_remove :: "nat \<Rightarrow> 'a list \<Rightarrow> 'a list" where
  "swap_remove i xs = butlast (xs[i := last xs])"

definition mpi_complete :: "nat \<Rightarrow> 'w mpi_reactor \<Rightarrow> 'w mpi_reactor" where
  "mpi_complete i r =
     (let entry = mr_pending r ! i
      in r\<lparr>mr_pending := swap_remove i (mr_pending r), mr_done := (mr_done r)(pq_slot entry := True),
           mr_wakes := mr_wakes r @ [pq_waker entry], mr_active := mr_active r - 1\<rparr>)"

function mpi_poll_from :: "'q mpi_lib \<Rightarrow> nat \<Rightarrow> 'q \<Rightarrow> 'w mpi_reactor \<Rightarrow> 'q \<times> 'w mpi_reactor" where
  "mpi_poll_from lib i q r =
     (if i < length (mr_pending r)
      then (case mpi_test lib (pq_req (mr_pending r ! i)) q of
              (True, q) \<Rightarrow> mpi_poll_from lib i q (mpi_complete i r)
            | (False, q) \<Rightarrow> mpi_poll_from lib (i + 1) q r)
      else (q, r))"
  by pat_completeness auto
termination
  by (relation "measure (\<lambda>(lib, i, q, r). length (mr_pending r) - i)") (auto simp: mpi_complete_def Let_def swap_remove_def)

declare mpi_poll_from.simps [simp del]

definition mpi_poll :: "'q mpi_lib \<Rightarrow> 'q \<Rightarrow> 'w mpi_reactor \<Rightarrow> 'q \<times> 'w mpi_reactor" where
  "mpi_poll lib q r = mpi_poll_from lib 0 q r"

subsection \<open>The futures\<close>

datatype mpi_state = NotStarted | InFlight nat | MpiDone

text \<open>The part the four polls share: start the call and register it, or look at the slot.\<close>

definition request_poll ::
  "'q mpi_lib \<Rightarrow> mpi_call \<Rightarrow> 'w \<Rightarrow> mpi_state \<Rightarrow> 'q \<Rightarrow> 'w mpi_reactor \<Rightarrow>
   (collective_error + unit) poll \<times> mpi_state \<times> 'q \<times> 'w mpi_reactor" where
  "request_poll lib call k st q r =
     (case st of
        NotStarted \<Rightarrow>
          (case mpi_start lib call q of
             (Inl rc, q) \<Rightarrow> (Ready (Inl (Mpi rc)), NotStarted, q, r)
           | (Inr req, q) \<Rightarrow> (case mpi_register req k r of (slot, r) \<Rightarrow> (Pending, InFlight slot, q, r)))
      | InFlight slot \<Rightarrow> if mr_done r slot then (Ready (Inr ()), MpiDone, q, r) else (Pending, InFlight slot, q, r)
      | MpiDone \<Rightarrow> (Ready (Inr ()), MpiDone, q, r))"

record allreduce_future =
  ar_buf :: nat
  ar_len :: nat
  ar_op :: mpi_op
  ar_state :: mpi_state

definition allreduce_new :: "nat \<Rightarrow> nat \<Rightarrow> mpi_op \<Rightarrow> allreduce_future" where
  "allreduce_new buf len op = \<lparr>ar_buf = buf, ar_len = len, ar_op = op, ar_state = NotStarted\<rparr>"

definition allreduce_poll where
  "allreduce_poll lib t k f q r =
     (case request_poll lib (Iallreduce (ar_buf f) (of_nat (ar_len f)) (dtype t) (ar_op f)) k (ar_state f) q r of
        (p, st, q, r) \<Rightarrow> (p, f\<lparr>ar_state := st\<rparr>, q, r))"

record scatter_future =
  sc_send_ptr :: "nat option"
  sc_send_count :: i32
  sc_recv_ptr :: nat
  sc_recv_count :: i32
  sc_root :: i32
  sc_state :: mpi_state

text \<open>A slice is its address and its length.\<close>

definition scatter_new :: "(nat \<times> nat) option \<Rightarrow> nat \<times> nat \<Rightarrow> nat \<Rightarrow> nat \<Rightarrow> nat \<Rightarrow> collective_error + scatter_future" where
  "scatter_new send recv root rank n =
     (let recv_count = of_nat (snd recv);
          mk = \<lambda>send_ptr send_count. \<lparr>sc_send_ptr = send_ptr, sc_send_count = send_count, sc_recv_ptr = fst recv,
                 sc_recv_count = recv_count, sc_root = of_nat root, sc_state = NotStarted\<rparr>
      in if rank = root
         then (case send of
                 None \<Rightarrow> Inl (Protocol ''scatter: send_buf required at root'')
               | Some sb \<Rightarrow> if snd sb \<noteq> snd recv * n then Inl BadShape else Inr (mk (Some (fst sb)) recv_count))
         else Inr (mk None 0))"

definition scatter_poll where
  "scatter_poll lib t k f q r =
     (case request_poll lib (Iscatter (sc_send_ptr f) (sc_send_count f) (dtype t) (sc_recv_ptr f) (sc_recv_count f) (dtype t) (sc_root f))
             k (sc_state f) q r of
        (p, st, q, r) \<Rightarrow> (p, f\<lparr>sc_state := st\<rparr>, q, r))"

record allgather_future =
  ag_send_ptr :: nat
  ag_send_count :: i32
  ag_recv_ptr :: nat
  ag_recv_count :: i32
  ag_state :: mpi_state

definition allgather_new :: "nat \<times> nat \<Rightarrow> nat \<times> nat \<Rightarrow> nat \<Rightarrow> collective_error + allgather_future" where
  "allgather_new send recv n =
     (if snd recv \<noteq> snd send * n then Inl BadShape
      else Inr \<lparr>ag_send_ptr = fst send, ag_send_count = of_nat (snd send), ag_recv_ptr = fst recv,
                ag_recv_count = of_nat (snd send), ag_state = NotStarted\<rparr>)"

definition allgather_poll where
  "allgather_poll lib t k f q r =
     (case request_poll lib (Iallgather (ag_send_ptr f) (ag_send_count f) (dtype t) (ag_recv_ptr f) (ag_recv_count f) (dtype t))
             k (ag_state f) q r of
        (p, st, q, r) \<Rightarrow> (p, f\<lparr>ag_state := st\<rparr>, q, r))"

record broadcast_future =
  bc_buf_ptr :: nat
  bc_count :: i32
  bc_root :: i32
  bc_state :: mpi_state

definition broadcast_new :: "nat \<times> nat \<Rightarrow> nat \<Rightarrow> broadcast_future" where
  "broadcast_new buf root = \<lparr>bc_buf_ptr = fst buf, bc_count = of_nat (snd buf), bc_root = of_nat root, bc_state = NotStarted\<rparr>"

definition broadcast_poll where
  "broadcast_poll lib t k f q r =
     (case request_poll lib (Ibcast (bc_buf_ptr f) (bc_count f) (dtype t) (bc_root f)) k (bc_state f) q r of
        (p, st, q, r) \<Rightarrow> (p, f\<lparr>bc_state := st\<rparr>, q, r))"

subsection \<open>The communicator\<close>

record mpi_communicator =
  mc_rank :: nat
  mc_size :: nat

text \<open>\<open>as usize\<close> of an \<open>i32\<close> extends the sign.\<close>

definition mpi_world :: "'q mpi_lib \<Rightarrow> collective_error + mpi_communicator" where
  "mpi_world lib =
     (case mpi_comm_rank lib of Inl rc \<Rightarrow> Inl (Mpi rc)
      | Inr rank \<Rightarrow> (case mpi_comm_size lib of Inl rc \<Rightarrow> Inl (Mpi rc)
          | Inr n \<Rightarrow> Inr \<lparr>mc_rank = unat (scast rank :: u64), mc_size = unat (scast n :: u64)\<rparr>))"

text \<open>A call in progress: \<open>scatter\<close> and \<open>allgather\<close> are \<open>async\<close> blocks that make their future at the first poll.\<close>

datatype mpi_fut =
  FutAllreduce allreduce_future
| FutScatter scatter_future
| FutAllgather allgather_future
| FutBroadcast broadcast_future
| FutScatterBlock "(nat \<times> nat) option" "nat \<times> nat" nat nat nat
| FutAllgatherBlock "nat \<times> nat" "nat \<times> nat" nat
| FutFinished

definition mpi_allreduce :: "mpi_communicator \<Rightarrow> nat \<times> nat \<Rightarrow> op_type \<Rightarrow> mpi_fut" where
  "mpi_allreduce c buf op = FutAllreduce (allreduce_new (fst buf) (snd buf) (op_mpi op))"

definition mpi_scatter :: "mpi_communicator \<Rightarrow> (nat \<times> nat) option \<Rightarrow> nat \<times> nat \<Rightarrow> nat \<Rightarrow> mpi_fut" where
  "mpi_scatter c send_buf recv_buf root = FutScatterBlock send_buf recv_buf root (mc_rank c) (mc_size c)"

definition mpi_allgather :: "mpi_communicator \<Rightarrow> nat \<times> nat \<Rightarrow> nat \<times> nat \<Rightarrow> mpi_fut" where
  "mpi_allgather c send_buf recv_buf = FutAllgatherBlock send_buf recv_buf (mc_size c)"

definition mpi_broadcast :: "mpi_communicator \<Rightarrow> nat \<times> nat \<Rightarrow> nat \<Rightarrow> mpi_fut" where
  "mpi_broadcast c buf root = FutBroadcast (broadcast_new buf root)"

text \<open>The \<open>.await\<close> of an \<open>async\<close> block: when the inner future is ready, the block has finished.\<close>

definition await_block where
  "await_block wrap x = (case x of (Ready v, f, q, r) \<Rightarrow> (Ready v, FutFinished, q, r) | (Pending, f, q, r) \<Rightarrow> (Pending, wrap f, q, r))"

fun mpi_fut_poll :: "'q mpi_lib \<Rightarrow> scalar \<Rightarrow> 'w \<Rightarrow> mpi_fut \<Rightarrow> 'q \<Rightarrow> 'w mpi_reactor \<Rightarrow>
    ((collective_error + unit) poll \<times> mpi_fut \<times> 'q \<times> 'w mpi_reactor) run" where
  "mpi_fut_poll lib t k (FutAllreduce f) q r = (case allreduce_poll lib t k f q r of (p, f, q, r) \<Rightarrow> Inr (p, FutAllreduce f, q, r))"
| "mpi_fut_poll lib t k (FutBroadcast f) q r = (case broadcast_poll lib t k f q r of (p, f, q, r) \<Rightarrow> Inr (p, FutBroadcast f, q, r))"
| "mpi_fut_poll lib t k (FutScatter f) q r = Inr (await_block FutScatter (scatter_poll lib t k f q r))"
| "mpi_fut_poll lib t k (FutAllgather f) q r = Inr (await_block FutAllgather (allgather_poll lib t k f q r))"
| "mpi_fut_poll lib t k (FutScatterBlock send recv root rank n) q r =
     (case scatter_new send recv root rank n of
        Inl e \<Rightarrow> Inr (Ready (Inl e), FutFinished, q, r)
      | Inr f \<Rightarrow> Inr (await_block FutScatter (scatter_poll lib t k f q r)))"
| "mpi_fut_poll lib t k (FutAllgatherBlock send recv n) q r =
     (case allgather_new send recv n of
        Inl e \<Rightarrow> Inr (Ready (Inl e), FutFinished, q, r)
      | Inr f \<Rightarrow> Inr (await_block FutAllgather (allgather_poll lib t k f q r)))"
| "mpi_fut_poll lib t k FutFinished q r = Inl (Panic ''`async fn` resumed after completion'')"

subsection \<open>One poll of the reactor\<close>

text \<open>
  What MPI promises about requests: \<open>MPI_Test\<close> reports a request that is complete and reports no other; a
  request that is complete stays so while others are tested.
\<close>

definition mpi_lib_ok :: "'q mpi_lib \<Rightarrow> ('q \<Rightarrow> nat \<Rightarrow> bool) \<Rightarrow> bool" where
  "mpi_lib_ok lib complete \<longleftrightarrow>
     (\<forall>q req. case mpi_test lib req q of (flag, q') \<Rightarrow>
        (complete q req \<longrightarrow> flag) \<and> (flag \<longrightarrow> complete q' req) \<and> (\<forall>req'. complete q req' \<longrightarrow> complete q' req'))"

lemma mpi_lib_okD:
  assumes "mpi_lib_ok lib complete" "mpi_test lib req q = (flag, q')"
  shows "complete q req \<Longrightarrow> flag" "flag \<Longrightarrow> complete q' req" "complete q req' \<Longrightarrow> complete q' req'"
proof -
  note law = assms(1)[unfolded mpi_lib_ok_def, THEN spec[of _ q], THEN spec[of _ req], unfolded assms(2) prod.case]
  show "complete q req \<Longrightarrow> flag" "flag \<Longrightarrow> complete q' req" "complete q req' \<Longrightarrow> complete q' req'"
    using law by blast+
qed

text \<open>The reactor's invariant: \<open>m\<close> requests have been registered.\<close>

definition mpi_inv :: "nat \<Rightarrow> 'w mpi_reactor \<Rightarrow> bool" where
  "mpi_inv m r \<longleftrightarrow>
     unat (mr_active r) = length (mr_pending r) \<and> distinct (map pq_slot (mr_pending r)) \<and> mr_next_slot r = m \<and>
     (\<forall>slot. slot \<in> pq_slot ` set (mr_pending r) \<longleftrightarrow> slot < m \<and> \<not> mr_done r slot) \<and>
     (\<forall>slot. mr_done r slot \<longrightarrow> slot < m) \<and> length (mr_wakes r) + length (mr_pending r) = m"

lemma swap_remove_snoc: "i \<le> length xs \<Longrightarrow> swap_remove i (xs @ [x]) = (if i < length xs then xs[i := x] else xs)"
  by (auto simp: swap_remove_def list_update_append)

lemma length_swap_remove: "i < length xs \<Longrightarrow> length (swap_remove i xs) = length xs - 1"
  by (simp add: swap_remove_def)

lemma mset_swap_remove:
  assumes "i < length xs"
  shows "mset xs = add_mset (xs ! i) (mset (swap_remove i xs))"
proof (cases xs rule: rev_cases)
  case (snoc ys y)
  show ?thesis
  proof (cases "i < length ys")
    case True
    have "mset ys = add_mset (ys ! i) (mset ys - {#ys ! i#})" using True by simp
    then show ?thesis using snoc True by (simp add: swap_remove_snoc Multiset.mset_update nth_append)
  qed (use snoc assms in \<open>simp add: swap_remove_snoc nth_append\<close>)
qed (use assms in simp)

lemma filter_key_single: "distinct (map g xs) \<Longrightarrow> s \<in> g ` set xs \<longleftrightarrow> (\<exists>e. filter (\<lambda>e. g e = s) xs = [e])"
proof (induction xs)
  case (Cons x xs)
  show ?case
  proof (cases "g x = s")
    case True
    then have "filter (\<lambda>e. g e = s) xs = []" using Cons.prems by (auto simp: filter_empty_conv image_iff)
    with True show ?thesis by auto
  qed (use Cons in auto)
qed simp

lemma take_swap_remove: "i < length xs \<Longrightarrow> take i (swap_remove i xs) = take i xs"
  by (cases xs rule: rev_cases) (auto simp: swap_remove_snoc)

text \<open>One completion.\<close>

lemma complete_simps [simp]:
  "mr_pending (mpi_complete i r) = swap_remove i (mr_pending r)" "mr_active (mpi_complete i r) = mr_active r - 1"
  "mr_done (mpi_complete i r) = (mr_done r)(pq_slot (mr_pending r ! i) := True)"
  "mr_wakes (mpi_complete i r) = mr_wakes r @ [pq_waker (mr_pending r ! i)]" "mr_next_slot (mpi_complete i r) = mr_next_slot r"
  by (simp_all add: mpi_complete_def Let_def)

lemma mpi_inv_complete:
  assumes inv: "mpi_inv m r" and i: "i < length (mr_pending r)"
  shows "mpi_inv m (mpi_complete i r)"
proof -
  let ?e = "mr_pending r ! i"
  note ms = mset_swap_remove[OF i]
  have slots: "mset (map pq_slot (mr_pending r)) = add_mset (pq_slot ?e) (mset (map pq_slot (swap_remove i (mr_pending r))))"
    using arg_cong[OF ms, of "image_mset pq_slot"] by simp
  have "distinct (pq_slot ?e # map pq_slot (swap_remove i (mr_pending r)))"
    using inv mset_eq_imp_distinct_iff[of "map pq_slot (mr_pending r)" "pq_slot ?e # map pq_slot (swap_remove i (mr_pending r))"] slots
    by (simp add: mpi_inv_def)
  then have d: "distinct (map pq_slot (swap_remove i (mr_pending r)))" "pq_slot ?e \<notin> pq_slot ` set (swap_remove i (mr_pending r))"
    by auto
  have set: "pq_slot ` set (mr_pending r) = insert (pq_slot ?e) (pq_slot ` set (swap_remove i (mr_pending r)))"
    using arg_cong[OF ms, of set_mset] by simp
  have len: "Suc (length (swap_remove i (mr_pending r))) = length (mr_pending r)" using i by (simp add: length_swap_remove)
  then have "unat (mr_active r) = Suc (length (swap_remove i (mr_pending r)))" using inv by (simp add: mpi_inv_def)
  then have act: "unat (mr_active r - 1) = length (swap_remove i (mr_pending r))" by (simp add: unat_sub word_le_nat_alt)
  show ?thesis using inv d set len act by (auto simp: mpi_inv_def)
qed

text \<open>What the loop does from index \<open>i\<close>: the requests it removes, and those it leaves.\<close>

definition poll_result ::
  "('q \<Rightarrow> nat \<Rightarrow> bool) \<Rightarrow> nat \<Rightarrow> nat \<Rightarrow> 'q \<Rightarrow> 'w mpi_reactor \<Rightarrow> 'q \<Rightarrow> 'w mpi_reactor \<Rightarrow> 'w pending_req list \<Rightarrow> bool" where
  "poll_result complete m i q r q' r' rem \<longleftrightarrow>
     mpi_inv m r' \<and> mset (mr_pending r) = mset rem + mset (mr_pending r') \<and> mr_wakes r' = mr_wakes r @ map pq_waker rem \<and>
     mr_done r' = (\<lambda>s. mr_done r s \<or> s \<in> pq_slot ` set rem) \<and>
     (\<forall>e \<in> set rem. complete q' (pq_req e)) \<and> (\<forall>req. complete q req \<longrightarrow> complete q' req) \<and>
     (\<forall>e \<in> set (mr_pending r'). e \<in> set (take i (mr_pending r)) \<or> \<not> complete q (pq_req e))"

lemma result_remove:
  assumes i: "i < length (mr_pending r)" and res: "poll_result complete m i q1 (mpi_complete i r) q' r' rem"
    and law: "complete q1 (pq_req (mr_pending r ! i))" "\<And>req. complete q req \<Longrightarrow> complete q1 req"
  shows "poll_result complete m i q r q' r' (mr_pending r ! i # rem)"
proof -
  have "mset (mr_pending r) = add_mset (mr_pending r ! i) (mset rem + mset (mr_pending r'))"
    using mset_swap_remove[OF i] res by (simp add: poll_result_def)
  moreover have "e \<in> set (take i (mr_pending r)) \<or> \<not> complete q (pq_req e)" if "e \<in> set (mr_pending r')" for e
    using res that law(2) take_swap_remove[OF i] by (auto simp: poll_result_def)
  ultimately show ?thesis using res law by (auto simp: poll_result_def fun_eq_iff)
qed

lemma result_keep:
  assumes i: "i < length (mr_pending r)" and res: "poll_result complete m (i + 1) q1 r q' r' rem"
    and law: "\<not> complete q (pq_req (mr_pending r ! i))" "\<And>req. complete q req \<Longrightarrow> complete q1 req"
  shows "poll_result complete m i q r q' r' rem"
proof -
  have "e \<in> set (take i (mr_pending r)) \<or> \<not> complete q (pq_req e)" if "e \<in> set (mr_pending r')" for e
    using res that law take_Suc_conv_app_nth[OF i] by (auto simp: poll_result_def)
  then show ?thesis using res law by (auto simp: poll_result_def)
qed

lemma poll_from_result:
  "mpi_lib_ok lib complete \<Longrightarrow> mpi_inv m r \<Longrightarrow> mpi_poll_from lib i q r = (q', r') \<Longrightarrow> \<exists>rem. poll_result complete m i q r q' r' rem"
proof (induction lib i q r rule: mpi_poll_from.induct)
  case (1 lib i q r)
  show ?case
  proof (cases "i < length (mr_pending r)")
    case False
    then have "q' = q" "r' = r" using "1.prems"(3) by (simp_all add: mpi_poll_from.simps)
    with False "1.prems"(2) show ?thesis by (intro exI[of _ "[]"]) (simp add: poll_result_def)
  next
    case True
    let ?e = "mr_pending r ! i"
    obtain flag q1 where t: "mpi_test lib (pq_req ?e) q = (flag, q1)" by fastforce
    note law = mpi_lib_okD[OF "1.prems"(1) t]
    show ?thesis
    proof (cases flag)
      case flag: True
      have "mpi_poll_from lib i q1 (mpi_complete i r) = (q', r')"
        using "1.prems"(3) True t flag by (subst (asm) mpi_poll_from.simps) simp
      from "1.IH"(1)[OF True t[symmetric] _ "1.prems"(1) mpi_inv_complete[OF "1.prems"(2) True] this] flag
      obtain rem where "poll_result complete m i q1 (mpi_complete i r) q' r' rem" by auto
      from result_remove[OF True this] law flag show ?thesis by blast
    next
      case flag: False
      have "mpi_poll_from lib (i + 1) q1 r = (q', r')"
        using "1.prems"(3) True t flag by (subst (asm) mpi_poll_from.simps) simp
      from "1.IH"(2)[OF True t[symmetric] _ "1.prems"(1,2) this] flag
      obtain rem where "poll_result complete m (i + 1) q1 r q' r' rem" by auto
      from result_keep[OF True this] law flag show ?thesis by blast
    qed
  qed
qed

text \<open>
  C27 (functional). One poll of the reactor, whatever order the requests complete in and however the
  list is rearranged on the way: the requests that were complete before the poll are taken off the
  list, their slots are marked and their wakers woken once each; no request is taken that is not
  complete; all others stay, with their slots unmarked.
\<close>

theorem mpi_poll_exact:
  assumes "mpi_lib_ok lib complete" and inv: "mpi_inv m r" and "mpi_poll lib q r = (q', r')"
  shows "\<exists>rem. mset (mr_pending r) = mset rem + mset (mr_pending r') \<and> mr_wakes r' = mr_wakes r @ map pq_waker rem \<and>
    (\<forall>e \<in> set rem. mr_done r' (pq_slot e) \<and> complete q' (pq_req e)) \<and>
    (\<forall>e \<in> set (mr_pending r'). \<not> mr_done r' (pq_slot e) \<and> \<not> complete q (pq_req e)) \<and>
    mpi_inv m r'"
proof -
  obtain rem where res: "poll_result complete m 0 q r q' r' rem"
    using poll_from_result[OF assms(1,2) assms(3)[unfolded mpi_poll_def]] by blast
  then have inv': "mpi_inv m r'" by (simp add: poll_result_def)
  then have "\<not> mr_done r' (pq_slot e)" if "e \<in> set (mr_pending r')" for e using that by (auto simp: mpi_inv_def)
  with res inv' show ?thesis by (intro exI[of _ rem]) (auto simp: poll_result_def)
qed

subsection \<open>The contract of a reactor\<close>

lemma poll_from_inv: "mpi_inv m r \<Longrightarrow> mpi_inv m (snd (mpi_poll_from lib i q r))"
proof (induction lib i q r rule: mpi_poll_from.induct)
  case (1 lib i q r)
  then show ?case
    by (subst mpi_poll_from.simps) (auto simp: mpi_inv_complete split: prod.splits bool.splits)
qed

lemma status_iff: "mpi_inv m r \<Longrightarrow> mpi_status r = Running \<longleftrightarrow> mr_pending r \<noteq> []"
  by (auto simp: mpi_status_def mpi_inv_def u64_less_iff)

lemma poll_idle: "mr_pending r = [] \<Longrightarrow> mpi_poll lib q r = (q, r)"
  by (simp add: mpi_poll_def mpi_poll_from.simps)

text \<open>The wakers one poll wakes.\<close>

definition mpi_poll_wakes :: "'q mpi_lib \<Rightarrow> 'q \<Rightarrow> 'w mpi_reactor \<Rightarrow> 'w list \<times> 'w mpi_reactor" where
  "mpi_poll_wakes lib q r = (let r' = snd (mpi_poll lib q r) in (drop (length (mr_wakes r)) (mr_wakes r'), r'))"

interpretation mpi_re: reactor_contract "\<lambda>r. \<exists>m. mpi_inv m r" "\<lambda>r. length (mr_pending r)" mpi_status "mpi_poll_wakes lib"
proof
  fix r :: "'w mpi_reactor" and q
  show "\<exists>m. mpi_inv m r \<Longrightarrow> mpi_status r = Running \<longleftrightarrow> 0 < length (mr_pending r)" using status_iff by auto
  show "\<exists>m. mpi_inv m r \<Longrightarrow> \<exists>m. mpi_inv m (snd (mpi_poll_wakes lib q r))"
    using poll_from_inv by (fastforce simp: mpi_poll_wakes_def mpi_poll_def Let_def)
  show "length (mr_pending r) = 0 \<Longrightarrow> mpi_poll_wakes lib q r = ([], r)" by (simp add: mpi_poll_wakes_def poll_idle)
qed

subsection \<open>Histories\<close>

text \<open>Calls are made, polled and dropped, the reactor is polled, and MPI makes progress of its own.\<close>

datatype ('q, 'w) mpi_event = MCall mpi_fut | MPoll nat 'w | MDrop nat | MReactor | MProgress 'q

record ('q, 'w) mpi_hist =
  mh_mpi :: 'q
  mh_reactor :: "'w mpi_reactor"
  mh_futs :: "(nat \<times> mpi_fut) list"
  mh_next :: nat

definition mpi_hist_start :: "'q \<Rightarrow> ('q, 'w) mpi_hist" where
  "mpi_hist_start q = \<lparr>mh_mpi = q, mh_reactor = mpi_reactor_new, mh_futs = [], mh_next = 0\<rparr>"

text \<open>The calls the communicator makes.\<close>

definition fresh_call :: "mpi_fut \<Rightarrow> bool" where
  "fresh_call f \<longleftrightarrow> (\<exists>c buf op. f = mpi_allreduce c buf op) \<or> (\<exists>c s r root. f = mpi_scatter c s r root) \<or>
     (\<exists>c s r. f = mpi_allgather c s r) \<or> (\<exists>c buf root. f = mpi_broadcast c buf root)"

lemma fresh_calls [simp]:
  "fresh_call (mpi_allreduce c buf op)" "fresh_call (mpi_scatter c send recv root)"
  "fresh_call (mpi_allgather c sbuf rbuf)" "fresh_call (mpi_broadcast c buf root)"
  unfolding fresh_call_def by blast+

fun mpi_step :: "'q mpi_lib \<Rightarrow> scalar \<Rightarrow> ('q, 'w) mpi_event \<Rightarrow> ('q, 'w) mpi_hist \<Rightarrow> ('q, 'w) mpi_hist run" where
  "mpi_step lib t (MCall f) h = Inr (h\<lparr>mh_futs := (mh_next h, f) # mh_futs h, mh_next := Suc (mh_next h)\<rparr>)"
| "mpi_step lib t (MPoll i k) h =
     (case map_of (mh_futs h) i of None \<Rightarrow> Inr h
      | Some f \<Rightarrow> run_bind (mpi_fut_poll lib t k f (mh_mpi h) (mh_reactor h)) (\<lambda>(p, f, q, r).
          Inr (h\<lparr>mh_mpi := q, mh_reactor := r,
                 mh_futs := (case p of Pending \<Rightarrow> AList.update i f (mh_futs h) | Ready v \<Rightarrow> AList.delete i (mh_futs h))\<rparr>)))"
| "mpi_step lib t (MDrop i) h = Inr (h\<lparr>mh_futs := AList.delete i (mh_futs h)\<rparr>)"
| "mpi_step lib t MReactor h = (case mpi_poll lib (mh_mpi h) (mh_reactor h) of (q, r) \<Rightarrow> Inr (h\<lparr>mh_mpi := q, mh_reactor := r\<rparr>))"
| "mpi_step lib t (MProgress q) h = Inr (h\<lparr>mh_mpi := q\<rparr>)"

fun mpi_run :: "'q mpi_lib \<Rightarrow> scalar \<Rightarrow> ('q, 'w) mpi_event list \<Rightarrow> ('q, 'w) mpi_hist \<Rightarrow> ('q, 'w) mpi_hist run" where
  "mpi_run lib t [] h = Inr h"
| "mpi_run lib t (ev # evs) h = run_bind (mpi_step lib t ev h) (mpi_run lib t evs)"

text \<open>The state of the request of a call.\<close>

fun fut_state_of :: "mpi_fut \<Rightarrow> mpi_state" where
  "fut_state_of (FutAllreduce f) = ar_state f"
| "fut_state_of (FutScatter f) = sc_state f"
| "fut_state_of (FutAllgather f) = ag_state f"
| "fut_state_of (FutBroadcast f) = bc_state f"
| "fut_state_of (FutScatterBlock send recv root rank n) = NotStarted"
| "fut_state_of (FutAllgatherBlock send recv n) = NotStarted"
| "fut_state_of FutFinished = MpiDone"

text \<open>A call that is live is not finished, and its request is one of those registered.\<close>

definition call_ok :: "nat \<Rightarrow> mpi_fut \<Rightarrow> bool" where
  "call_ok m f \<longleftrightarrow> f \<noteq> FutFinished \<and> fut_state_of f \<noteq> MpiDone \<and> (\<forall>slot. fut_state_of f = InFlight slot \<longrightarrow> slot < m)"

definition mpi_hist_ok :: "nat \<Rightarrow> ('q, 'w) mpi_hist \<Rightarrow> bool" where
  "mpi_hist_ok m h \<longleftrightarrow> mpi_inv m (mh_reactor h) \<and> (\<forall>(i, f) \<in> set (mh_futs h). call_ok m f)"

lemma call_ok_mono: "call_ok m f \<Longrightarrow> m \<le> m' \<Longrightarrow> call_ok m' f"
  by (auto simp: call_ok_def)

lemma mpi_inv_register:
  assumes inv: "mpi_inv m r" and m: "Suc m < 2 ^ 64" and reg: "mpi_register req k r = (slot, r')"
  shows "mpi_inv (Suc m) r' \<and> slot = m"
proof -
  have "length (mr_pending r) \<le> m" using inv by (simp add: mpi_inv_def)
  then have act: "unat (mr_active r + 1) = Suc (length (mr_pending r))" using inv m by (simp add: mpi_inv_def unat_u64_Suc)
  have r': "mr_pending r' = mr_pending r @ [\<lparr>pq_req = req, pq_waker = k, pq_slot = m\<rparr>]" "mr_active r' = mr_active r + 1"
    "mr_done r' = (mr_done r)(m := False)" "mr_next_slot r' = Suc m" "mr_wakes r' = mr_wakes r" "slot = m"
    using inv reg by (auto simp: mpi_inv_def mpi_register_def Let_def)
  have slots: "pq_slot ` set (mr_pending r) = {s. s < m \<and> \<not> mr_done r s}" using inv unfolding mpi_inv_def by blast
  have "pq_slot ` set (mr_pending r') = insert m (pq_slot ` set (mr_pending r))" by (simp add: r')
  also have "\<dots> = {s. s < Suc m \<and> \<not> mr_done r' s}" unfolding slots r' by auto
  finally have new: "s \<in> pq_slot ` set (mr_pending r') \<longleftrightarrow> s < Suc m \<and> \<not> mr_done r' s" for s by blast
  have "m \<notin> pq_slot ` set (mr_pending r)" unfolding slots by simp
  then have "distinct (map pq_slot (mr_pending r'))" using inv by (simp add: r' mpi_inv_def)
  moreover have "mr_done r' s \<longrightarrow> s < Suc m" for s using inv by (auto simp: r' mpi_inv_def less_Suc_eq)
  moreover have "length (mr_wakes r') + length (mr_pending r') = Suc m" using inv by (simp add: r' mpi_inv_def)
  moreover have "unat (mr_active r') = length (mr_pending r')" using act by (simp add: r')
  ultimately show ?thesis using new by (simp add: mpi_inv_def r'(4,6))
qed

text \<open>A poll of the part the futures share.\<close>

lemma request_poll_ok:
  assumes inv: "mpi_inv m r" and m: "Suc m < 2 ^ 64" and st: "\<And>slot. st = InFlight slot \<Longrightarrow> slot < m"
    and poll: "request_poll lib call k st q r = (p, st', q', r')"
  shows "\<exists>m' \<le> Suc m. m \<le> m' \<and> mpi_inv m' r' \<and> (p = Pending \<longrightarrow> (\<exists>slot < m'. st' = InFlight slot))"
proof (cases st)
  case NotStarted
  show ?thesis
  proof (cases "mpi_start lib call q")
    case (Pair res q1)
    show ?thesis
    proof (cases res)
      case (Inl rc)
      then show ?thesis using poll NotStarted Pair inv by (intro exI[of _ m]) (auto simp: request_poll_def)
    next
      case (Inr req)
      obtain slot r1 where reg: "mpi_register req k r = (slot, r1)" by fastforce
      from mpi_inv_register[OF inv m reg] show ?thesis using poll NotStarted Pair Inr reg
        by (intro exI[of _ "Suc m"]) (auto simp: request_poll_def)
    qed
  qed
next
  case (InFlight slot)
  then show ?thesis using poll inv st by (intro exI[of _ m]) (auto simp: request_poll_def split: if_splits)
next
  case MpiDone
  then show ?thesis using poll inv by (intro exI[of _ m]) (auto simp: request_poll_def)
qed

lemma scatter_request:
  obtains call p st q' r' f' where "request_poll lib call k (sc_state x) q r = (p, st, q', r')"
    "await_block FutScatter (scatter_poll lib t k x q r) = (p, f', q', r')" "p = Pending \<longrightarrow> fut_state_of f' = st \<and> f' \<noteq> FutFinished"
proof -
  obtain p st q' r' where R: "request_poll lib (Iscatter (sc_send_ptr x) (sc_send_count x) (dtype t) (sc_recv_ptr x) (sc_recv_count x) (dtype t) (sc_root x))
      k (sc_state x) q r = (p, st, q', r')" by (metis prod_cases4)
  show thesis
    by (rule that[OF R, of "if p = Pending then FutScatter (x\<lparr>sc_state := st\<rparr>) else FutFinished"])
      (use R in \<open>simp_all add: scatter_poll_def await_block_def split: poll.split\<close>)
qed

lemma allgather_request:
  obtains call p st q' r' f' where "request_poll lib call k (ag_state x) q r = (p, st, q', r')"
    "await_block FutAllgather (allgather_poll lib t k x q r) = (p, f', q', r')" "p = Pending \<longrightarrow> fut_state_of f' = st \<and> f' \<noteq> FutFinished"
proof -
  obtain p st q' r' where R: "request_poll lib (Iallgather (ag_send_ptr x) (ag_send_count x) (dtype t) (ag_recv_ptr x) (ag_recv_count x) (dtype t))
      k (ag_state x) q r = (p, st, q', r')" by (metis prod_cases4)
  show thesis
    by (rule that[OF R, of "if p = Pending then FutAllgather (x\<lparr>ag_state := st\<rparr>) else FutFinished"])
      (use R in \<open>simp_all add: allgather_poll_def await_block_def split: poll.split\<close>)
qed

text \<open>A poll of a live call either fails before it starts a request, or is a poll of its request.\<close>

lemma fut_poll_cases:
  assumes "f \<noteq> FutFinished"
  obtains (refused) e where "mpi_fut_poll lib t k f q r = Inr (Ready (Inl e), FutFinished, q, r)" "fut_state_of f = NotStarted"
  | (request) call p st q' r' f' where "request_poll lib call k (fut_state_of f) q r = (p, st, q', r')"
      "mpi_fut_poll lib t k f q r = Inr (p, f', q', r')" "p = Pending \<longrightarrow> fut_state_of f' = st \<and> f' \<noteq> FutFinished"
proof (cases f)
  case (FutAllreduce x)
  obtain p st q' r' where R: "request_poll lib (Iallreduce (ar_buf x) (of_nat (ar_len x)) (dtype t) (ar_op x)) k (fut_state_of f) q r = (p, st, q', r')"
    by (metis prod_cases4)
  show thesis
    by (rule request[OF R, of "FutAllreduce (x\<lparr>ar_state := st\<rparr>)"]) (use R in \<open>simp_all add: FutAllreduce allreduce_poll_def\<close>)
next
  case (FutBroadcast x)
  obtain p st q' r' where R: "request_poll lib (Ibcast (bc_buf_ptr x) (bc_count x) (dtype t) (bc_root x)) k (fut_state_of f) q r = (p, st, q', r')"
    by (metis prod_cases4)
  show thesis
    by (rule request[OF R, of "FutBroadcast (x\<lparr>bc_state := st\<rparr>)"]) (use R in \<open>simp_all add: FutBroadcast broadcast_poll_def\<close>)
next
  case (FutScatter x)
  obtain call p st q' r' f' where R: "request_poll lib call k (sc_state x) q r = (p, st, q', r')"
    "await_block FutScatter (scatter_poll lib t k x q r) = (p, f', q', r')" "p = Pending \<longrightarrow> fut_state_of f' = st \<and> f' \<noteq> FutFinished"
    by (rule scatter_request[where x = x and lib = lib and t = t and k = k and q = q and r = r])
  show thesis by (rule request[of call p st q' r' f']) (use R FutScatter in simp_all)
next
  case (FutAllgather x)
  obtain call p st q' r' f' where R: "request_poll lib call k (ag_state x) q r = (p, st, q', r')"
    "await_block FutAllgather (allgather_poll lib t k x q r) = (p, f', q', r')" "p = Pending \<longrightarrow> fut_state_of f' = st \<and> f' \<noteq> FutFinished"
    by (rule allgather_request[where x = x and lib = lib and t = t and k = k and q = q and r = r])
  show thesis by (rule request[of call p st q' r' f']) (use R FutAllgather in simp_all)
next
  case (FutScatterBlock send recv root rank n)
  show thesis
  proof (cases "scatter_new send recv root rank n")
    case (Inl e)
    then show thesis using refused[of e] FutScatterBlock by simp
  next
    case (Inr x)
    have "sc_state x = NotStarted" using Inr by (auto simp: scatter_new_def Let_def split: if_splits option.splits)
    obtain call p st q' r' f' where R: "request_poll lib call k (sc_state x) q r = (p, st, q', r')"
      "await_block FutScatter (scatter_poll lib t k x q r) = (p, f', q', r')" "p = Pending \<longrightarrow> fut_state_of f' = st \<and> f' \<noteq> FutFinished"
      by (rule scatter_request[where x = x and lib = lib and t = t and k = k and q = q and r = r])
    show thesis by (rule request[of call p st q' r' f']) (use R FutScatterBlock Inr \<open>sc_state x = NotStarted\<close> in simp_all)
  qed
next
  case (FutAllgatherBlock send recv n)
  show thesis
  proof (cases "allgather_new send recv n")
    case (Inl e)
    then show thesis using refused[of e] FutAllgatherBlock by simp
  next
    case (Inr x)
    have "ag_state x = NotStarted" using Inr by (auto simp: allgather_new_def split: if_splits)
    obtain call p st q' r' f' where R: "request_poll lib call k (ag_state x) q r = (p, st, q', r')"
      "await_block FutAllgather (allgather_poll lib t k x q r) = (p, f', q', r')" "p = Pending \<longrightarrow> fut_state_of f' = st \<and> f' \<noteq> FutFinished"
      by (rule allgather_request[where x = x and lib = lib and t = t and k = k and q = q and r = r])
    show thesis by (rule request[of call p st q' r' f']) (use R FutAllgatherBlock Inr \<open>ag_state x = NotStarted\<close> in simp_all)
  qed
qed (use assms in simp)

lemma fut_poll_ok:
  assumes inv: "mpi_inv m r" and m: "Suc m < 2 ^ 64" and ok: "call_ok m f"
  shows "\<exists>p f' q' r' m'. mpi_fut_poll lib t k f q r = Inr (p, f', q', r') \<and> m \<le> m' \<and> m' \<le> Suc m \<and> mpi_inv m' r' \<and>
    (p = Pending \<longrightarrow> call_ok m' f')"
proof -
  have "f \<noteq> FutFinished" using ok by (simp add: call_ok_def)
  then show ?thesis
  proof (cases rule: fut_poll_cases[of f lib t k q r])
    case (refused e)
    then show ?thesis using inv by (intro exI[of _ "Ready (Inl e)"] exI[of _ FutFinished] exI[of _ q] exI[of _ r] exI[of _ m]) simp
  next
    case (request call p st q' r' f')
    have "fut_state_of f = InFlight slot \<Longrightarrow> slot < m" for slot using ok by (simp add: call_ok_def)
    from request_poll_ok[OF inv m this request(1)] obtain m' where m': "m' \<le> Suc m" "m \<le> m'" "mpi_inv m' r'"
      "p = Pending \<longrightarrow> (\<exists>slot < m'. st = InFlight slot)" by blast
    then have "p = Pending \<longrightarrow> call_ok m' f'" using request(3) by (auto simp: call_ok_def)
    then show ?thesis using request(2) m' by blast
  qed
qed

lemma mpi_step_ok:
  assumes ok: "mpi_hist_ok m h" and m: "Suc m < 2 ^ 64" and fresh: "\<And>f. ev = MCall f \<Longrightarrow> fresh_call f"
  shows "\<exists>h'. mpi_step lib t ev h = Inr h' \<and> (\<exists>m' \<le> Suc m. mpi_hist_ok m' h')"
proof -
  have inv: "mpi_inv m (mh_reactor h)" and futs: "\<And>i f. (i, f) \<in> set (mh_futs h) \<Longrightarrow> call_ok m f"
    using ok by (auto simp: mpi_hist_ok_def)
  show ?thesis
  proof (cases ev)
    case (MCall f)
    have "call_ok m f" using fresh[OF MCall]
      by (auto simp: fresh_call_def call_ok_def mpi_allreduce_def allreduce_new_def mpi_scatter_def mpi_allgather_def
          mpi_broadcast_def broadcast_new_def)
    then show ?thesis using ok MCall by (auto simp: mpi_hist_ok_def intro!: exI[of _ m])
  next
    case (MPoll i k)
    show ?thesis
    proof (cases "map_of (mh_futs h) i")
      case None
      then show ?thesis using ok MPoll by (intro exI[of _ h] conjI exI[of _ m]) simp_all
    next
      case (Some f)
      have "call_ok m f" using futs map_of_SomeD[OF Some] by blast
      from fut_poll_ok[OF inv m this, of lib t k "mh_mpi h"] obtain p f' q' r' m' where
        poll: "mpi_fut_poll lib t k f (mh_mpi h) (mh_reactor h) = Inr (p, f', q', r')"
        and m': "m \<le> m'" "m' \<le> Suc m" "mpi_inv m' r'" "p = Pending \<longrightarrow> call_ok m' f'" by blast
      let ?futs = "case p of Pending \<Rightarrow> AList.update i f' (mh_futs h) | Ready v \<Rightarrow> AList.delete i (mh_futs h)"
      have "call_ok m' g" if "(j, g) \<in> set ?futs" for j g
      proof (cases "(j, g) \<in> set (mh_futs h)")
        case True
        then show ?thesis using futs call_ok_mono[OF _ m'(1)] by blast
      next
        case False
        then have "p = Pending \<and> g = f'" using that set_update_sub[of i f' "mh_futs h"] set_delete_sub[of i "mh_futs h"]
          by (auto split: poll.splits)
        then show ?thesis using m'(4) by simp
      qed
      then show ?thesis using MPoll Some poll m' by (auto simp: mpi_hist_ok_def)
    qed
  next
    case (MDrop i)
    then show ?thesis using ok set_delete_sub[of i "mh_futs h"] by (intro exI[of _ "h\<lparr>mh_futs := AList.delete i (mh_futs h)\<rparr>"] conjI exI[of _ m])
      (auto simp: mpi_hist_ok_def)
  next
    case MReactor
    obtain q r where p: "mpi_poll lib (mh_mpi h) (mh_reactor h) = (q, r)" by fastforce
    have "mpi_inv m r" using poll_from_inv[OF inv, of lib 0 "mh_mpi h"] p by (simp add: mpi_poll_def)
    then show ?thesis using MReactor p ok by (intro exI[of _ "h\<lparr>mh_mpi := q, mh_reactor := r\<rparr>"] conjI exI[of _ m]) (auto simp: mpi_hist_ok_def)
  next
    case (MProgress q)
    then show ?thesis using ok by (intro exI[of _ "h\<lparr>mh_mpi := q\<rparr>"] conjI exI[of _ m]) (auto simp: mpi_hist_ok_def)
  qed
qed

lemma mpi_run_ok:
  "mpi_hist_ok m h \<Longrightarrow> m + length evs < 2 ^ 64 \<Longrightarrow> (\<And>f. MCall f \<in> set evs \<Longrightarrow> fresh_call f) \<Longrightarrow>
    \<exists>h'. mpi_run lib t evs h = Inr h' \<and> (\<exists>m' \<le> m + length evs. mpi_hist_ok m' h')"
proof (induction evs arbitrary: m h)
  case (Cons ev evs)
  have "Suc m < 2 ^ 64" "\<And>f. ev = MCall f \<Longrightarrow> fresh_call f" using Cons.prems by auto
  from mpi_step_ok[OF Cons.prems(1) this] obtain h1 m1 where h1: "mpi_step lib t ev h = Inr h1" "m1 \<le> Suc m" "mpi_hist_ok m1 h1" by blast
  have "m1 + length evs < 2 ^ 64" using h1(2) Cons.prems(2) by simp
  from Cons.IH[OF h1(3) this] Cons.prems(3) obtain h' m' where "mpi_run lib t evs h1 = Inr h'" "m' \<le> m1 + length evs" "mpi_hist_ok m' h'" by auto
  then show ?case using h1 by (auto intro!: exI[of _ m'])
qed auto

lemma mpi_start_ok: "mpi_hist_ok 0 (mpi_hist_start q)"
  by (simp add: mpi_hist_ok_def mpi_hist_start_def mpi_inv_def mpi_reactor_new_def)

text \<open>
  C28 (invariant). In every history of collectives made, polled and dropped, reactor polls and progress
  of MPI, nothing panics; the counter the status reads is the number of pending requests and never
  underflows, so the reactor is running exactly while a request is pending; every request was
  completed with one wake-up or is pending; and a call in flight has its slot marked or one pending entry.
\<close>

theorem mpi_history_safe:
  assumes "\<And>f. MCall f \<in> set evs \<Longrightarrow> fresh_call f" "length evs < 2 ^ 64"
  shows "\<exists>h. mpi_run lib t evs (mpi_hist_start q) = Inr h \<and>
    unat (mr_active (mh_reactor h)) = length (mr_pending (mh_reactor h)) \<and>
    (mpi_status (mh_reactor h) = Running \<longleftrightarrow> mr_pending (mh_reactor h) \<noteq> []) \<and>
    length (mr_wakes (mh_reactor h)) + length (mr_pending (mh_reactor h)) = mr_next_slot (mh_reactor h) \<and>
    (\<forall>i f slot. (i, f) \<in> set (mh_futs h) \<and> fut_state_of f = InFlight slot \<longrightarrow>
       mr_done (mh_reactor h) slot \<noteq> (\<exists>e. filter (\<lambda>e. pq_slot e = slot) (mr_pending (mh_reactor h)) = [e]))"
proof -
  from mpi_run_ok[OF mpi_start_ok _ assms(1), of evs lib t q] assms(2)
  obtain h m where h: "mpi_run lib t evs (mpi_hist_start q) = Inr h" "mpi_hist_ok m h" by auto
  then have inv: "mpi_inv m (mh_reactor h)" by (simp add: mpi_hist_ok_def)
  have "mr_done (mh_reactor h) slot \<noteq> (\<exists>e. filter (\<lambda>e. pq_slot e = slot) (mr_pending (mh_reactor h)) = [e])"
    if "(i, f) \<in> set (mh_futs h)" "fut_state_of f = InFlight slot" for i f slot
  proof -
    have "slot < m" using that h(2) by (auto simp: mpi_hist_ok_def call_ok_def)
    then have "slot \<in> pq_slot ` set (mr_pending (mh_reactor h)) \<longleftrightarrow> \<not> mr_done (mh_reactor h) slot" using inv by (simp add: mpi_inv_def)
    moreover have "distinct (map pq_slot (mr_pending (mh_reactor h)))" using inv by (simp add: mpi_inv_def)
    ultimately show ?thesis using filter_key_single[of pq_slot "mr_pending (mh_reactor h)" slot] by blast
  qed
  with h status_iff[OF inv] inv show ?thesis by (intro exI[of _ h] conjI) (auto simp: mpi_inv_def)
qed

text \<open>A library for the witnesses: calls answer fresh requests, a request is complete once its number is listed.\<close>

definition demo_mpi :: "(nat \<times> nat list) mpi_lib" where
  "demo_mpi = \<lparr>mpi_comm_rank = Inr 0, mpi_comm_size = Inr 2,
     mpi_start = \<lambda>call (n, fin). (Inr n, (Suc n, fin)), mpi_test = \<lambda>req (n, fin). (req \<in> set fin, (n, fin))\<rparr>"

lemma demo_mpi_ok: "mpi_lib_ok demo_mpi (\<lambda>(n, fin) req. req \<in> set fin)"
  by (auto simp: mpi_lib_ok_def demo_mpi_def)

definition demo_world :: mpi_communicator where
  "demo_world = \<lparr>mc_rank = 0, mc_size = 2\<rparr>"

lemma demo_world: "mpi_world demo_mpi = Inr demo_world"
  by (simp add: mpi_world_def demo_mpi_def demo_world_def)

text \<open>A broadcast and an allgather in flight; the broadcast completes.\<close>

definition demo_events :: "((nat \<times> nat list), string) mpi_event list" where
  "demo_events = [MCall (mpi_broadcast demo_world (0, 4) 0), MCall (mpi_allgather demo_world (8, 1) (16, 2)),
     MPoll 0 ''a'', MPoll 1 ''b'', MProgress (2, [0]), MReactor]"

lemmas demo_mpi_simps = demo_mpi_def demo_world_def mpi_hist_start_def mpi_reactor_new_def mpi_broadcast_def broadcast_new_def
  broadcast_poll_def mpi_allgather_def allgather_new_def allgather_poll_def await_block_def request_poll_def mpi_register_def
  Let_def mpi_poll_def mpi_poll_from.simps mpi_complete_def swap_remove_def

theorem mpi_history_safe_witness:
  "\<exists>h. mpi_run demo_mpi U32 demo_events (mpi_hist_start (0, [])) = Inr h \<and> mpi_status (mh_reactor h) = Running \<and>
     mr_wakes (mh_reactor h) = [''a''] \<and> unat (mr_active (mh_reactor h)) = 1"
proof -
  have "fresh_call f" if "MCall f \<in> set demo_events" for f using that by (auto simp: demo_events_def)
  moreover have "length demo_events < 2 ^ 64" by (simp add: demo_events_def)
  ultimately obtain h where "mpi_run demo_mpi U32 demo_events (mpi_hist_start (0, [])) = Inr h"
    "unat (mr_active (mh_reactor h)) = length (mr_pending (mh_reactor h))"
    "mpi_status (mh_reactor h) = Running \<longleftrightarrow> mr_pending (mh_reactor h) \<noteq> []"
    using mpi_history_safe[of demo_events demo_mpi U32 "(0, [])"] by blast
  moreover have "\<exists>h. mpi_run demo_mpi U32 demo_events (mpi_hist_start (0, [])) = Inr h \<and>
      mr_pending (mh_reactor h) = [\<lparr>pq_req = 1, pq_waker = ''b'', pq_slot = 1\<rparr>] \<and> mr_wakes (mh_reactor h) = [''a'']"
    by (simp add: demo_events_def demo_mpi_simps)
  ultimately show ?thesis by auto
qed

text \<open>
  A collective returns. In every history, a call in flight whose slot is not marked has a
  pending entry; once MPI has completed its request, the next poll of the reactor wakes the waker of the
  entry, and the next poll of the call answers \<open>Ok\<close>.
\<close>

theorem mpi_call_returns:
  assumes "\<And>f. MCall f \<in> set evs \<Longrightarrow> fresh_call f" "length evs < 2 ^ 64" and lib: "mpi_lib_ok lib complete"
    and h: "mpi_run lib t evs (mpi_hist_start q) = Inr h"
    and f: "map_of (mh_futs h) i = Some f" "fut_state_of f = InFlight slot" "\<not> mr_done (mh_reactor h) slot"
  shows "\<exists>e \<in> set (mr_pending (mh_reactor h)). pq_slot e = slot \<and>
    (complete (mh_mpi h) (pq_req e) \<longrightarrow>
       (\<exists>ws q' r' f'. mpi_poll lib (mh_mpi h) (mh_reactor h) = (q', r') \<and> mr_wakes r' = mr_wakes (mh_reactor h) @ ws \<and>
          pq_waker e \<in> set ws \<and> mpi_fut_poll lib t k f q' r' = Inr (Ready (Inr ()), f', q', r')))"
proof -
  from mpi_run_ok[OF mpi_start_ok _ assms(1), of evs lib t q] assms(2) h obtain m where ok: "mpi_hist_ok m h" by auto
  then have inv: "mpi_inv m (mh_reactor h)" by (simp add: mpi_hist_ok_def)
  have live: "f \<noteq> FutFinished" "slot < m" using ok map_of_SomeD[OF f(1)] f(2) by (auto simp: mpi_hist_ok_def call_ok_def)
  have "slot \<in> pq_slot ` set (mr_pending (mh_reactor h))" using inv f(3) live(2) by (simp add: mpi_inv_def)
  then obtain e where e: "e \<in> set (mr_pending (mh_reactor h))" "pq_slot e = slot" by blast
  obtain q' r' where p: "mpi_poll lib (mh_mpi h) (mh_reactor h) = (q', r')" by fastforce
  then obtain rem where res: "poll_result complete m 0 (mh_mpi h) (mh_reactor h) q' r' rem"
    using poll_from_result[OF lib inv] unfolding mpi_poll_def by blast
  have "pq_waker e \<in> set (map pq_waker rem) \<and> mr_done r' slot" if "complete (mh_mpi h) (pq_req e)"
  proof -
    have "e \<notin> set (mr_pending r')" using res that by (auto simp: poll_result_def)
    moreover have "e \<in># mset rem + mset (mr_pending r')" using res e(1) unfolding poll_result_def by (metis set_mset_mset)
    ultimately have "e \<in> set rem" by simp
    then show ?thesis using res e(2) by (auto simp: poll_result_def)
  qed
  moreover have "\<exists>f'. mpi_fut_poll lib t k f q' r' = Inr (Ready (Inr ()), f', q', r')" if "mr_done r' slot"
    using live(1)
  proof (cases rule: fut_poll_cases[of f lib t k q' r'])
    case (refused x)
    then show ?thesis using f(2) by simp
  next
    case (request call p st q1 r1 f')
    then show ?thesis using f(2) that by (auto simp: request_poll_def)
  qed
  moreover have "mr_wakes r' = mr_wakes (mh_reactor h) @ map pq_waker rem" using res by (simp add: poll_result_def)
  ultimately show ?thesis using p e by blast
qed

theorem mpi_call_returns_witness:
  "\<exists>h q' r' f'. mpi_run demo_mpi U32 (take 5 demo_events) (mpi_hist_start (0, [])) = Inr h \<and>
     mpi_poll demo_mpi (mh_mpi h) (mh_reactor h) = (q', r') \<and> ''a'' \<in> set (mr_wakes r') \<and>
     mpi_fut_poll demo_mpi U32 ''c'' (FutBroadcast \<lparr>bc_buf_ptr = 0, bc_count = 4, bc_root = 0, bc_state = InFlight 0\<rparr>) q' r' =
       Inr (Ready (Inr ()), f', q', r')"
proof -
  let ?f = "FutBroadcast \<lparr>bc_buf_ptr = 0, bc_count = 4, bc_root = 0, bc_state = InFlight 0\<rparr>"
  have fresh: "fresh_call f" if "MCall f \<in> set (take 5 demo_events)" for f using that by (auto simp: demo_events_def)
  have len: "length (take 5 demo_events) < 2 ^ 64" by (simp add: demo_events_def)
  have "\<exists>h. mpi_run demo_mpi U32 (take 5 demo_events) (mpi_hist_start (0, [])) = Inr h \<and> map_of (mh_futs h) 0 = Some ?f \<and>
      mr_pending (mh_reactor h) = [\<lparr>pq_req = 0, pq_waker = ''a'', pq_slot = 0\<rparr>, \<lparr>pq_req = 1, pq_waker = ''b'', pq_slot = 1\<rparr>] \<and>
      mh_mpi h = (2, [0]) \<and> \<not> mr_done (mh_reactor h) 0"
    by (simp add: demo_events_def demo_mpi_simps)
  then obtain h where h: "mpi_run demo_mpi U32 (take 5 demo_events) (mpi_hist_start (0, [])) = Inr h" "map_of (mh_futs h) 0 = Some ?f"
    "mr_pending (mh_reactor h) = [\<lparr>pq_req = 0, pq_waker = ''a'', pq_slot = 0\<rparr>, \<lparr>pq_req = 1, pq_waker = ''b'', pq_slot = 1\<rparr>]"
    "mh_mpi h = (2, [0])" "\<not> mr_done (mh_reactor h) 0" by blast
  from mpi_call_returns[OF fresh len demo_mpi_ok h(1,2) _ h(5), where k = "''c''"] h(3,4)
  show ?thesis using h(1) by auto
qed

text \<open>
  A collective keeps the waker of its first poll: polled again in flight with another waker,
  it changes nothing, and when its request completes only the first waker is woken.
\<close>

theorem mpi_keeps_first_waker:
  assumes lib: "mpi_lib_ok lib complete" and inv: "mpi_inv m r" "Suc m < 2 ^ 64" "fresh_call f"
    and first: "mpi_fut_poll lib t k f q r = Inr (Pending, f1, q1, r1)"
    and other: "k' \<noteq> k" "k' \<notin> pq_waker ` set (mr_pending r)"
  shows "\<exists>f2. mpi_fut_poll lib t k' f1 q1 r1 = Inr (Pending, f2, q1, r1) \<and>
    k' \<notin> set (fst (mpi_poll_wakes lib q2 r1))"
proof -
  have "f \<noteq> FutFinished" "fut_state_of f = NotStarted" using inv(3)
    by (auto simp: fresh_call_def mpi_allreduce_def allreduce_new_def mpi_scatter_def mpi_allgather_def mpi_broadcast_def broadcast_new_def)
  then obtain slot req where reg: "mpi_register req k r = (slot, r1)" "fut_state_of f1 = InFlight slot" "f1 \<noteq> FutFinished"
    by (cases rule: fut_poll_cases[of f lib t k q r])
      (use first in \<open>auto simp: request_poll_def split: prod.splits sum.splits\<close>)
  have inv1: "mpi_inv (Suc m) r1" using mpi_inv_register[OF inv(1,2) reg(1)] by blast
  have r1: "\<not> mr_done r1 slot" "pq_waker ` set (mr_pending r1) = insert k (pq_waker ` set (mr_pending r))"
    using reg(1) by (auto simp: mpi_register_def Let_def)
  have "\<exists>f2. mpi_fut_poll lib t k' f1 q1 r1 = Inr (Pending, f2, q1, r1)"
    by (cases rule: fut_poll_cases[OF reg(3), of lib t k' q1 r1]) (use reg(2) r1(1) in \<open>auto simp: request_poll_def\<close>)
  moreover have "k' \<notin> set (fst (mpi_poll_wakes lib q2 r1))"
  proof -
    obtain q3 r3 where p: "mpi_poll_from lib 0 q2 r1 = (q3, r3)" by fastforce
    from poll_from_result[OF lib inv1 this] obtain rem where res: "poll_result complete (Suc m) 0 q2 r1 q3 r3 rem" by blast
    have "set rem \<subseteq> set (mr_pending r1)" using res unfolding poll_result_def by (metis set_mset_mset set_mset_union Un_upper1)
    then show ?thesis using res p r1(2) other by (auto simp: mpi_poll_wakes_def mpi_poll_def Let_def poll_result_def)
  qed
  ultimately show ?thesis by blast
qed

theorem mpi_keeps_first_waker_witness:
  "\<exists>f1 r1. mpi_fut_poll demo_mpi U32 ''a'' (mpi_broadcast demo_world (0, 4) 0) (0, []) mpi_reactor_new = Inr (Pending, f1, (1, []), r1) \<and>
     ''b'' \<notin> set (fst (mpi_poll_wakes demo_mpi (1, [0]) r1))"
proof -
  have inv: "mpi_inv 0 (mpi_reactor_new :: string mpi_reactor)" by (simp add: mpi_inv_def mpi_reactor_new_def)
  have fresh: "fresh_call (mpi_broadcast demo_world (0, 4) 0)" by simp
  obtain f1 r1 where first: "mpi_fut_poll demo_mpi U32 ''a'' (mpi_broadcast demo_world (0, 4) 0) (0, []) mpi_reactor_new =
      Inr (Pending, f1, (1, []), r1)" by (simp add: demo_mpi_simps)
  from mpi_keeps_first_waker[OF demo_mpi_ok inv _ fresh first, of "''b''" "(1, [0])"] first show ?thesis
    by (auto simp: mpi_reactor_new_def)
qed

text \<open>Three requests, the first and the last complete: the last takes the place of the first and is not missed.\<close>

definition demo_pending :: "string mpi_reactor" where
  "demo_pending = \<lparr>mr_pending = [\<lparr>pq_req = 0, pq_waker = ''a'', pq_slot = 0\<rparr>, \<lparr>pq_req = 1, pq_waker = ''b'', pq_slot = 1\<rparr>,
     \<lparr>pq_req = 2, pq_waker = ''c'', pq_slot = 2\<rparr>], mr_active = 3, mr_done = \<lambda>_. False, mr_next_slot = 3, mr_wakes = []\<rparr>"

theorem mpi_poll_exact_witness:
  "\<exists>q' r'. mpi_poll demo_mpi (3, [0, 2]) demo_pending = (q', r') \<and> mpi_inv 3 r' \<and> mr_wakes r' = [''a'', ''c''] \<and>
     map pq_req (mr_pending r') = [1]"
proof -
  have inv: "mpi_inv 3 demo_pending" by (auto simp: mpi_inv_def demo_pending_def)
  obtain q' r' where p: "mpi_poll demo_mpi (3, [0, 2]) demo_pending = (q', r')" by fastforce
  from mpi_poll_exact[OF demo_mpi_ok inv p] have "mpi_inv 3 r'" by blast
  moreover have "mr_wakes r' = [''a'', ''c''] \<and> map pq_req (mr_pending r') = [1]"
    using p by (auto simp: demo_pending_def demo_mpi_simps)
  ultimately show ?thesis using p by (intro exI[of _ q'] exI[of _ r']) simp
qed

end
