(* ===== verification/Uring_Socket.thy ===== *)
theory Uring_Socket
  imports Uring_Files
begin

unbundle bit_operations_syntax

section \<open>UDP sockets on the io_uring reactor (\<open>pluvio_uring/src/socket.rs\<close>)\<close>

text \<open>
  Addresses in the layout of \<open>sockaddr_in\<close>, binding with its error paths, and the send and receive futures.
  Unlike a file operation, \<open>send_to\<close> and \<open>recv_from\<close> push their entry when they are called; the future holds
  the box with the message header the kernel reads and fills. Integers are those of a little-endian
  host. Text is parsed as the standard library does. The system calls are parameters; the descriptors the process has open are a list.
\<close>

declare map_of_eq_Some_iff [simp del]

subsection \<open>Addresses\<close>

text \<open>\<open>to_be\<close> and \<open>from_be\<close> of a little-endian host.\<close>

definition swap_u16 :: "u16 \<Rightarrow> u16" where
  "swap_u16 x = (push_bit 8 x OR drop_bit 8 x)"

definition swap_u32 :: "u32 \<Rightarrow> u32" where
  "swap_u32 x = (push_bit 24 x OR (push_bit 8 x AND 0xff0000) OR (drop_bit 8 x AND 0xff00) OR drop_bit 24 x)"

text \<open>\<open>Ipv4Addr::octets\<close> and \<open>Ipv4Addr::from\<close>.\<close>

type_synonym ipv4 = "u8 \<times> u8 \<times> u8 \<times> u8"

fun u32_from_be_octets :: "ipv4 \<Rightarrow> u32" where
  "u32_from_be_octets (a, b, c, d) = (push_bit 24 (ucast a) OR push_bit 16 (ucast b) OR push_bit 8 (ucast c) OR ucast d)"

definition ipv4_from :: "u32 \<Rightarrow> ipv4" where
  "ipv4_from x = (ucast (drop_bit 24 x), ucast (drop_bit 16 x), ucast (drop_bit 8 x), ucast x)"

record socket_addr_v4 =
  sa_ip :: ipv4
  sa_port :: u16

record sockaddr_in =
  sin_family :: u16
  sin_port :: u16
  sin_addr :: u32

definition AF_INET :: u16 where
  "AF_INET = 2"

definition sockaddr_in_from_v4 :: "socket_addr_v4 \<Rightarrow> sockaddr_in" where
  "sockaddr_in_from_v4 addr =
     \<lparr>sin_family = AF_INET, sin_port = swap_u16 (sa_port addr), sin_addr = swap_u32 (u32_from_be_octets (sa_ip addr))\<rparr>"

definition sockaddr_in_to_v4 :: "sockaddr_in \<Rightarrow> socket_addr_v4" where
  "sockaddr_in_to_v4 sa = \<lparr>sa_ip = ipv4_from (swap_u32 (sin_addr sa)), sa_port = swap_u16 (sin_port sa)\<rparr>"

text \<open>The bytes of an integer in memory.\<close>

definition mem_u16 :: "u16 \<Rightarrow> u8 list" where
  "mem_u16 x = [ucast x, ucast (drop_bit 8 x)]"

definition mem_u32 :: "u32 \<Rightarrow> u8 list" where
  "mem_u32 x = [ucast x, ucast (drop_bit 8 x), ucast (drop_bit 16 x), ucast (drop_bit 24 x)]"

subsection \<open>Addresses as text\<close>

text \<open>
  The parser of \<open>std::net\<close> for an IPv4 address and a port: four numbers of at most three digits without a leading zero,
  and a port of any number of digits. What parses as an IPv6 address is refused as well; the texts of the
  errors are left out.
\<close>

definition number_of_digits :: "string \<Rightarrow> nat" where
  "number_of_digits ds = foldl (\<lambda>v c. v * 10 + the (digit_value c)) 0 ds"

definition read_number :: "nat option \<Rightarrow> bool \<Rightarrow> nat \<Rightarrow> string \<Rightarrow> (nat \<times> string) option" where
  "read_number max_digits allow_zero_prefix cap s =
     (let ds = takeWhile (\<lambda>c. digit_value c \<noteq> None) s
      in if ds = [] \<or> (case max_digits of Some m \<Rightarrow> m < length ds | None \<Rightarrow> False) \<or> cap \<le> number_of_digits ds \<or>
            (\<not> allow_zero_prefix \<and> hd ds = CHR ''0'' \<and> 1 < length ds)
         then None else Some (number_of_digits ds, dropWhile (\<lambda>c. digit_value c \<noteq> None) s))"

definition read_given_char :: "char \<Rightarrow> string \<Rightarrow> string option" where
  "read_given_char c s = (case s of d # r \<Rightarrow> if d = c then Some r else None | [] \<Rightarrow> None)"

definition read_octet :: "string \<Rightarrow> (u8 \<times> string) option" where
  "read_octet s = map_option (map_prod of_nat id) (read_number (Some 3) False 256 s)"

definition read_ipv4_addr :: "string \<Rightarrow> (ipv4 \<times> string) option" where
  "read_ipv4_addr s =
     Option.bind (read_octet s) (\<lambda>(a, s). Option.bind (read_given_char CHR ''.'' s) (\<lambda>s.
     Option.bind (read_octet s) (\<lambda>(b, s). Option.bind (read_given_char CHR ''.'' s) (\<lambda>s.
     Option.bind (read_octet s) (\<lambda>(c, s). Option.bind (read_given_char CHR ''.'' s) (\<lambda>s.
     Option.bind (read_octet s) (\<lambda>(d, s). Some ((a, b, c, d), s))))))))"

definition parse_v4 :: "string \<Rightarrow> io_error + socket_addr_v4" where
  "parse_v4 s =
     (case Option.bind (read_ipv4_addr s) (\<lambda>(ip, s). Option.bind (read_given_char CHR '':'' s) (\<lambda>s.
             Option.bind (read_number None True (2 ^ 16) s) (\<lambda>(port, s).
             if s = [] then Some \<lparr>sa_ip = ip, sa_port = of_nat port\<rparr> else None))) of
        Some v4 \<Rightarrow> Inr v4
      | None \<Rightarrow> Inl (InvalidInput []))"

text \<open>The text of an address, as \<open>Display\<close> writes it.\<close>

fun decimal :: "nat \<Rightarrow> string" where
  "decimal n = (if n < 10 then [char_of (48 + n)] else decimal (n div 10) @ [char_of (48 + n mod 10)])"

declare decimal.simps [simp del]

definition show_v4 :: "socket_addr_v4 \<Rightarrow> string" where
  "show_v4 addr =
     (case sa_ip addr of (a, b, c, d) \<Rightarrow>
        decimal (unat a) @ ''.'' @ decimal (unat b) @ ''.'' @ decimal (unat c) @ ''.'' @ decimal (unat d) @ '':'' @
        decimal (unat (sa_port addr)))"

lemma digit_value_char: "d < 10 \<Longrightarrow> digit_value (char_of (48 + d)) = Some d"
  by (simp add: digit_value_def of_char_of)

lemma decimal_digits: "list_all (\<lambda>c. digit_value c \<noteq> None) (decimal n)" "decimal n \<noteq> []"
proof (induction n rule: decimal.induct)
  case (1 n)
  { case 1 show ?case using "1.IH"(1) by (subst decimal.simps) (simp add: digit_value_char)
  next
    case 2 show ?case by (subst decimal.simps) simp }
qed

lemma number_decimal: "number_of_digits (decimal n) = n"
proof (induction n rule: decimal.induct)
  case (1 n)
  then show ?case by (subst decimal.simps) (simp add: number_of_digits_def digit_value_char)
qed

lemma hd_decimal: "0 < n \<Longrightarrow> hd (decimal n) \<noteq> CHR ''0''"
proof (induction n rule: decimal.induct)
  case (1 n)
  show ?case
  proof (cases "n < 10")
    case True
    have "digit_value (char_of (48 + n)) \<noteq> digit_value (CHR ''0'')" using True 1(2) by (simp add: digit_value_char) (simp add: digit_value_def)
    then show ?thesis using True by (subst decimal.simps) auto
  next
    case False
    then show ?thesis using 1 decimal_digits(2)[of "n div 10"] by (subst decimal.simps) simp
  qed
qed

lemma length_decimal: "n < 10 ^ k \<Longrightarrow> 0 < k \<Longrightarrow> length (decimal n) \<le> k"
proof (induction k arbitrary: n)
  case (Suc k)
  show ?case
  proof (cases "n < 10")
    case False
    then have "0 < k" using Suc.prems(1) by (cases k) auto
    with Suc have "length (decimal (n div 10)) \<le> k" by (simp add: div_less_iff_less_mult mult.commute)
    with False show ?thesis by (subst decimal.simps) simp
  qed (subst decimal.simps, simp)
qed simp

lemma read_decimal:
  assumes "n < cap" "case max_digits of Some m \<Rightarrow> 0 < m \<and> n < 10 ^ m | None \<Rightarrow> True" "s = [] \<or> digit_value (hd s) = None"
  shows "read_number max_digits z cap (decimal n @ s) = Some (n, s)"
proof -
  have s: "takeWhile (\<lambda>c. digit_value c \<noteq> None) s = []" "dropWhile (\<lambda>c. digit_value c \<noteq> None) s = s"
    using assms(3) by (cases s; simp)+
  have t: "takeWhile (\<lambda>c. digit_value c \<noteq> None) (decimal n @ s) = decimal n" "dropWhile (\<lambda>c. digit_value c \<noteq> None) (decimal n @ s) = s"
    using decimal_digits(1)[of n] s by (simp_all add: takeWhile_append2 dropWhile_append2 list_all_iff)
  have "\<not> (hd (decimal n) = CHR ''0'' \<and> 1 < length (decimal n))"
    using hd_decimal[of n] length_decimal[of n 1] by (cases "n = 0") auto
  moreover have "m < length (decimal n) \<Longrightarrow> max_digits \<noteq> Some m" for m using assms(2) length_decimal[of n m] by auto
  ultimately show ?thesis
    unfolding read_number_def t Let_def using assms(1) by (auto simp: number_decimal decimal_digits(2) split: option.split)
qed

lemma read_octet_decimal: "s = [] \<or> digit_value (hd s) = None \<Longrightarrow> read_octet (decimal (unat x) @ s) = Some (x, s)"
  using unsigned_less[of x, where ?'a = nat] by (simp add: read_octet_def read_decimal)

text \<open>
  Every address is parsed from its text.
\<close>

theorem parse_v4_show: "parse_v4 (show_v4 addr) = Inr addr"
proof -
  have d: "digit_value CHR ''.'' = None" "digit_value CHR '':'' = None" by (simp_all add: digit_value_def)
  have "read_number None True (2 ^ 16) (decimal (unat (sa_port addr))) = Some (unat (sa_port addr), [])"
    using read_decimal[of "unat (sa_port addr)" "2 ^ 16" None "[]" True] unsigned_less[of "sa_port addr"] by simp
  then show ?thesis
    by (cases "sa_ip addr") (simp add: parse_v4_def show_v4_def read_ipv4_addr_def read_octet_decimal read_given_char_def d)
qed

subsection \<open>Binding\<close>

text \<open>What the system calls answer: a descriptor or an error, return codes, and the bound address.\<close>

record socket_sys =
  sk_socket :: int
  sk_setsockopt :: "int \<Rightarrow> int"
  sk_bind :: "int \<Rightarrow> sockaddr_in \<Rightarrow> int"
  sk_getsockname :: "int \<Rightarrow> int \<times> sockaddr_in"
  sk_errno :: int

record udp_socket =
  us_fd :: int
  us_local :: socket_addr_v4

definition read_local_addr :: "socket_sys \<Rightarrow> int \<Rightarrow> io_error + socket_addr_v4" where
  "read_local_addr sys fd =
     (case sk_getsockname sys fd of (rc, sa) \<Rightarrow>
        if rc \<noteq> 0 then Inl (OsError (sk_errno sys)) else Inr (sockaddr_in_to_v4 sa))"

text \<open>Dropping an \<open>OwnedFd\<close>.\<close>

definition close_fd :: "int \<Rightarrow> int list \<Rightarrow> int list" where
  "close_fd fd fds = remove1 fd fds"

definition bind_with_reactor :: "socket_sys \<Rightarrow> socket_addr_v4 \<Rightarrow> int list \<Rightarrow> (io_error + udp_socket) \<times> int list" where
  "bind_with_reactor sys addr fds =
     (let raw_fd = sk_socket sys
      in if raw_fd < 0 then (Inl (OsError (sk_errno sys)), fds)
         else let fds = raw_fd # fds
              in if sk_setsockopt sys raw_fd \<noteq> 0 then (Inl (OsError (sk_errno sys)), close_fd raw_fd fds)
                 else if sk_bind sys raw_fd (sockaddr_in_from_v4 addr) \<noteq> 0 then (Inl (OsError (sk_errno sys)), close_fd raw_fd fds)
                 else case read_local_addr sys raw_fd of
                        Inl e \<Rightarrow> (Inl e, close_fd raw_fd fds)
                      | Inr local \<Rightarrow> (Inr \<lparr>us_fd = raw_fd, us_local = local\<rparr>, fds))"

definition from_raw_fd :: "socket_sys \<Rightarrow> int \<Rightarrow> int list \<Rightarrow> (io_error + udp_socket) \<times> int list" where
  "from_raw_fd sys fd fds =
     (case read_local_addr sys fd of Inl e \<Rightarrow> (Inl e, close_fd fd fds) | Inr local \<Rightarrow> (Inr \<lparr>us_fd = fd, us_local = local\<rparr>, fds))"

subsection \<open>Sending and receiving\<close>

text \<open>The boxed storage: the peer's address, the buffer, and the length of the name field.\<close>

record msg_storage =
  ms_sockaddr :: sockaddr_in
  ms_iov_base :: nat
  ms_iov_len :: nat
  ms_namelen :: u32

definition SOCKADDR_IN_SIZE :: u32 where
  "SOCKADDR_IN_SIZE = 16"

definition SOCKADDR_STORAGE_SIZE :: u32 where
  "SOCKADDR_STORAGE_SIZE = 128"

record msg_future =
  mg_storage :: nat
  mg_handle :: nat

type_synonym 'w sock_world = "('w, msg_storage) io_world"

definition push_msg :: "msg_storage \<Rightarrow> (nat \<Rightarrow> sqe) \<Rightarrow> 'w sock_world \<Rightarrow> (msg_future \<times> 'w sock_world) run" where
  "push_msg st mk w =
     (case new_box (SocketBox st) w of (b, w) \<Rightarrow>
        run_bind (push_sqe (mk b) (iw_reactor w)) (\<lambda>(cell, r). Inr (\<lparr>mg_storage = b, mg_handle = cell\<rparr>, w\<lparr>iw_reactor := r\<rparr>)))"

definition send_to :: "udp_socket \<Rightarrow> nat \<times> nat \<Rightarrow> socket_addr_v4 \<Rightarrow> 'w sock_world \<Rightarrow> (msg_future \<times> 'w sock_world) run" where
  "send_to s buf peer w =
     push_msg \<lparr>ms_sockaddr = sockaddr_in_from_v4 peer, ms_iov_base = fst buf, ms_iov_len = snd buf, ms_namelen = SOCKADDR_IN_SIZE\<rparr>
       (SqeSendMsg (us_fd s)) w"

definition recv_from :: "udp_socket \<Rightarrow> nat \<times> nat \<Rightarrow> 'w sock_world \<Rightarrow> (msg_future \<times> 'w sock_world) run" where
  "recv_from s buf w =
     push_msg \<lparr>ms_sockaddr = \<lparr>sin_family = 0, sin_port = 0, sin_addr = 0\<rparr>, ms_iov_base = fst buf, ms_iov_len = snd buf,
               ms_namelen = SOCKADDR_STORAGE_SIZE\<rparr> (SqeRecvMsg (us_fd s)) w"

definition udp_send_poll :: "'w \<Rightarrow> msg_future \<Rightarrow> 'w sock_world \<Rightarrow> (io_error + nat) poll \<times> 'w sock_world" where
  "udp_send_poll k f w =
     (case wait_poll k (mg_handle f) (iw_reactor w) of
        (Pending, r) \<Rightarrow> (Pending, w\<lparr>iw_reactor := r\<rparr>)
      | (Ready (Inl e), r) \<Rightarrow> (Ready (Inl (OsError e)), w\<lparr>iw_reactor := r\<rparr>)
      | (Ready (Inr n), r) \<Rightarrow> (Ready (Inr (nat n)), w\<lparr>iw_reactor := r\<rparr>))"

text \<open>The result of a receive, from what the kernel left in the storage.\<close>

definition recv_result :: "int \<Rightarrow> msg_storage \<Rightarrow> io_error + nat \<times> socket_addr_v4" where
  "recv_result n st =
     (if sin_family (ms_sockaddr st) \<noteq> AF_INET then Inl (InvalidData (sin_family (ms_sockaddr st)))
      else Inr (nat n, sockaddr_in_to_v4 (ms_sockaddr st)))"

definition udp_recv_poll :: "'w \<Rightarrow> msg_future \<Rightarrow> 'w sock_world \<Rightarrow> ((io_error + nat \<times> socket_addr_v4) poll \<times> 'w sock_world) run" where
  "udp_recv_poll k f w =
     (case wait_poll k (mg_handle f) (iw_reactor w) of
        (Pending, r) \<Rightarrow> Inr (Pending, w\<lparr>iw_reactor := r\<rparr>)
      | (Ready (Inl e), r) \<Rightarrow> Inr (Ready (Inl (OsError e)), w\<lparr>iw_reactor := r\<rparr>)
      | (Ready (Inr n), r) \<Rightarrow>
          (case iw_boxes w (mg_storage f) of
             Some (SocketBox st) \<Rightarrow> Inr (Ready (recv_result n st), w\<lparr>iw_reactor := r\<rparr>)
           | _ \<Rightarrow> Inl (UB ''storage freed'')))"

text \<open>Dropping a future frees its box.\<close>

definition msg_drop :: "msg_future \<Rightarrow> 'w sock_world \<Rightarrow> 'w sock_world" where
  "msg_drop f w = free_box (mg_storage f) w"

text \<open>
  The kernel's part of a receive: the bytes of the datagram, as many as the buffer holds, go to the buffer
  and the sender to the storage. A socket's world has the bytes of the program's buffers beside the boxes.
\<close>

type_synonym memory = "nat \<Rightarrow> u8"

definition write_bytes :: "nat \<Rightarrow> u8 list \<Rightarrow> memory \<Rightarrow> memory" where
  "write_bytes a bs mem = (\<lambda>i. if a \<le> i \<and> i < a + length bs then bs ! (i - a) else mem i)"

definition read_bytes :: "nat \<Rightarrow> nat \<Rightarrow> memory \<Rightarrow> u8 list" where
  "read_bytes a n mem = map mem [a..<a + n]"

type_synonym 'w sock_sys = "'w sock_world \<times> memory"

definition kernel_fill :: "nat \<Rightarrow> u8 list \<Rightarrow> sockaddr_in \<Rightarrow> 'w sock_sys \<Rightarrow> (nat \<times> 'w sock_sys) run" where
  "kernel_fill b d sa S =
     (case S of (w, mem) \<Rightarrow>
       case iw_boxes w b of
         Some (SocketBox st) \<Rightarrow>
           (let bs = take (ms_iov_len st) d
            in Inr (length bs, w\<lparr>iw_boxes := (iw_boxes w)(b \<mapsto> SocketBox (st\<lparr>ms_sockaddr := sa\<rparr>))\<rparr>,
                    write_bytes (ms_iov_base st) bs mem))
       | _ \<Rightarrow> Inl (UB ''the kernel writes to freed memory''))"

subsection \<open>Histories of a program with sockets\<close>

text \<open>
  What happens in a program that uses sockets, one step at a time: calls of \<open>send_to\<close> and \<open>recv_from\<close> on any socket, whose
  futures need not be polled afterwards; drops of such futures; writes of the program to its buffers; boxes of other
  operations; and, as \<open>SIo\<close>, the steps of \<open>io_step\<close> that concern no message header: polls of handles (so of the futures),
  other operations that are awaited, polls of the reactor, and the kernel taking entries, completing them or going to sleep. The kernel completes a receive
  with the datagram, which it writes, or with an error.
\<close>

datatype 'w sock_op =
    SSend udp_socket "nat \<times> nat" socket_addr_v4 | SRecv udp_socket "nat \<times> nat" | SDrop msg_future
  | SNew "msg_storage storage" | SSet nat "msg_storage storage" | SFree nat | SWrite nat u8
  | SIo "('w, sqe) io_op" | KRecv nat "u8 list" sockaddr_in

fun is_msg :: "sqe \<Rightarrow> bool" where
  "is_msg (SqeSendMsg fd b) = True"
| "is_msg (SqeRecvMsg fd b) = True"
| "is_msg e = False"

fun is_socket_box :: "msg_storage storage \<Rightarrow> bool" where
  "is_socket_box (SocketBox st) = True"
| "is_socket_box s = False"

text \<open>Entries with a message are pushed by the calls only, and a receive succeeds with a datagram only.\<close>

definition plain_io :: "('w, sqe) io_op \<Rightarrow> ('w, sqe) io_reactor \<Rightarrow> bool" where
  "plain_io op r \<longleftrightarrow> (case op of
       IAwait e k \<Rightarrow> \<not> is_msg e
     | KComplete i res \<Rightarrow> i < length (io_inflight r) \<and> (\<forall>fd b. snd (io_inflight r ! i) = SqeRecvMsg fd b \<longrightarrow> res < 0)
     | _ \<Rightarrow> True)"

inductive sock_step :: "'w sock_op \<Rightarrow> 'w sock_sys \<Rightarrow> 'w sock_sys \<Rightarrow> bool" where
  Send: "send_to s buf peer w = Inr (f, w') \<Longrightarrow> sock_step (SSend s buf peer) (w, mem) (w', mem)"
| Recv: "recv_from s buf w = Inr (f, w') \<Longrightarrow> sock_step (SRecv s buf) (w, mem) (w', mem)"
| Drop: "sock_step (SDrop f) (w, mem) (msg_drop f w, mem)"
| New: "\<not> is_socket_box x \<Longrightarrow> new_box x w = (b, w') \<Longrightarrow> sock_step (SNew x) (w, mem) (w', mem)"
| Set: "iw_boxes w b = Some y \<Longrightarrow> \<not> is_socket_box y \<Longrightarrow> \<not> is_socket_box x \<Longrightarrow>
     sock_step (SSet b x) (w, mem) (w\<lparr>iw_boxes := (iw_boxes w)(b \<mapsto> x)\<rparr>, mem)"
| Free: "iw_boxes w b = Some y \<Longrightarrow> \<not> is_socket_box y \<Longrightarrow> sock_step (SFree b) (w, mem) (free_box b w, mem)"
| Write: "sock_step (SWrite a x) (w, mem) (w, mem(a := x))"
| Io: "plain_io op (iw_reactor w) \<Longrightarrow> io_step op (iw_reactor w) = Inr r \<Longrightarrow> sock_step (SIo op) (w, mem) (w\<lparr>iw_reactor := r\<rparr>, mem)"
| Datagram: "i < length (io_inflight (iw_reactor w)) \<Longrightarrow> snd (io_inflight (iw_reactor w) ! i) = SqeRecvMsg fd b \<Longrightarrow>
     kernel_fill b d sa (w, mem) = Inr (n, w', mem') \<Longrightarrow> io_step (KComplete i (int n)) (iw_reactor w') = Inr r \<Longrightarrow>
     sock_step (KRecv i d sa) (w, mem) (w'\<lparr>iw_reactor := r\<rparr>, mem')"

inductive sock_run :: "'w sock_op list \<Rightarrow> 'w sock_sys \<Rightarrow> 'w sock_sys \<Rightarrow> bool" where
  Done: "sock_run [] S S"
| More: "sock_step op S S1 \<Longrightarrow> sock_run ops S1 S2 \<Longrightarrow> sock_run (op # ops) S S2"

text \<open>
  What a live receive future \<open>f\<close> on \<open>buf\<close> rules out: it is not dropped, and its exclusive borrow of the buffer
  keeps the program and other calls away from it.
\<close>

definition apart_bufs :: "nat \<times> nat \<Rightarrow> nat \<times> nat \<Rightarrow> bool" where
  "apart_bufs x y \<longleftrightarrow> fst x + snd x \<le> fst y \<or> fst y + snd y \<le> fst x"

definition spares :: "msg_future \<Rightarrow> nat \<times> nat \<Rightarrow> 'w sock_op \<Rightarrow> bool" where
  "spares f buf op \<longleftrightarrow> (case op of
       SSend s x peer \<Rightarrow> apart_bufs x buf
     | SRecv s x \<Rightarrow> apart_bufs x buf
     | SDrop g \<Rightarrow> mg_storage g \<noteq> mg_storage f
     | SWrite a x \<Rightarrow> a < fst buf \<or> fst buf + snd buf \<le> a
     | _ \<Rightarrow> True)"

text \<open>The kernel's answer to the entry \<open>u\<close>, and what the future makes of it.\<close>

definition answers :: "u64 \<Rightarrow> 'w sock_op \<Rightarrow> ('w, sqe) io_reactor \<Rightarrow> bool" where
  "answers u ev r \<longleftrightarrow> (case ev of
       KRecv i d sa \<Rightarrow> i < length (io_inflight r) \<and> fst (io_inflight r ! i) = u
     | SIo (KComplete i res) \<Rightarrow> i < length (io_inflight r) \<and> fst (io_inflight r ! i) = u
     | _ \<Rightarrow> False)"

fun recv_answer :: "nat \<Rightarrow> 'w sock_op \<Rightarrow> (io_error + nat \<times> socket_addr_v4) option" where
  "recv_answer n (KRecv i d sa) = Some
     (if sin_family sa \<noteq> AF_INET then Inl (InvalidData (sin_family sa)) else Inr (min n (length d), sockaddr_in_to_v4 sa))"
| "recv_answer n (SIo (KComplete i res)) = Some (Inl (OsError (- res)))"
| "recv_answer n ev = None"

subsection \<open>Layout of an address\<close>

lemma swap_u16_twice [simp]: "swap_u16 (swap_u16 x) = x"
  unfolding swap_u16_def by (rule bit_word_eqI) (auto simp: bit_simps)

lemma mask_bits: "bit (0xff0000 :: int) n \<longleftrightarrow> 16 \<le> n \<and> n < 24" "bit (0xff00 :: int) n \<longleftrightarrow> 8 \<le> n \<and> n < 16"
proof -
  have e: "(0xff0000 :: int) = push_bit 16 (mask 8)" "(0xff00 :: int) = push_bit 8 (mask 8)" by (simp_all add: mask_eq_exp_minus_1 push_bit_eq_mult)
  show "bit (0xff0000 :: int) n \<longleftrightarrow> 16 \<le> n \<and> n < 24" "bit (0xff00 :: int) n \<longleftrightarrow> 8 \<le> n \<and> n < 16"
    unfolding e by (auto simp: bit_simps)
qed

lemma bit_swap_u32: "bit (swap_u32 x) n \<longleftrightarrow>
  n < 32 \<and> bit x (if n < 8 then n + 24 else if n < 16 then n + 8 else if n < 24 then n - 8 else n - 24)"
proof (cases "n < 32")
  case True
  consider "n < 8" | "8 \<le> n" "n < 16" | "16 \<le> n" "n < 24" | "24 \<le> n" using True by linarith
  then show ?thesis
    using True by cases (auto simp: swap_u32_def bit_simps mask_bits add.commute dest: bit_imp_le_length)
next
  case False
  then show ?thesis using bit_imp_le_length[of "swap_u32 x" n] by auto
qed

lemma swap_u32_twice [simp]: "swap_u32 (swap_u32 x) = x"
proof (rule bit_word_eqI)
  fix n assume "n < LENGTH(32)"
  then show "bit (swap_u32 (swap_u32 x)) n = bit x n" by (auto simp: bit_swap_u32)
qed

lemma ipv4_of_octets [simp]: "ipv4_from (u32_from_be_octets ip) = ip"
proof -
  obtain a b c d where "ip = (a, b, c, d)" using prod_cases4 by blast
  moreover have "ucast (drop_bit 24 (u32_from_be_octets (a, b, c, d))) = a" "ucast (drop_bit 16 (u32_from_be_octets (a, b, c, d))) = b"
    "ucast (drop_bit 8 (u32_from_be_octets (a, b, c, d))) = c" "ucast (u32_from_be_octets (a, b, c, d)) = d"
    by (rule bit_word_eqI; auto simp: bit_simps dest: bit_imp_le_length)+
  ultimately show ?thesis by (simp add: ipv4_from_def)
qed

lemma octets_of_ipv4 [simp]: "u32_from_be_octets (ipv4_from x) = x"
proof (rule bit_word_eqI)
  fix n assume n: "n < LENGTH(32)"
  then consider "n < 8" | "8 \<le> n" "n < 16" | "16 \<le> n" "n < 24" | "24 \<le> n" by linarith
  then show "bit (u32_from_be_octets (ipv4_from x)) n = bit x n"
    using n by cases (auto simp: ipv4_from_def bit_simps)
qed

text \<open>The bytes of a swapped integer in memory are its octets in network order.\<close>

lemma mem_swap_u16: "mem_u16 (swap_u16 p) = [ucast (drop_bit 8 p), ucast p]"
proof -
  have "(ucast (swap_u16 p) :: u8) = ucast (drop_bit 8 p)" "(ucast (drop_bit 8 (swap_u16 p)) :: u8) = ucast p"
    by (rule bit_word_eqI; auto simp: swap_u16_def bit_simps dest: bit_imp_le_length)+
  then show ?thesis by (simp add: mem_u16_def)
qed

lemma mem_swap_u32: "mem_u32 (swap_u32 (u32_from_be_octets (a, b, c, d))) = [a, b, c, d]"
proof -
  let ?x = "u32_from_be_octets (a, b, c, d)"
  have "(ucast (swap_u32 ?x) :: u8) = ucast (drop_bit 24 ?x)" "(ucast (drop_bit 8 (swap_u32 ?x)) :: u8) = ucast (drop_bit 16 ?x)"
    "(ucast (drop_bit 16 (swap_u32 ?x)) :: u8) = ucast (drop_bit 8 ?x)" "(ucast (drop_bit 24 (swap_u32 ?x)) :: u8) = ucast ?x"
    by (rule bit_word_eqI; simp add: bit_swap_u32 bit_simps add.commute del: u32_from_be_octets.simps)+
  then show ?thesis using ipv4_of_octets[of "(a, b, c, d)"] by (simp add: mem_u32_def ipv4_from_def)
qed

text \<open>
  The conversions between an address and a \<open>sockaddr_in\<close> are inverse to each other, up to the
  family that is set to IPv4, and in memory the port and the octets stand in network order.
\<close>

theorem sockaddr_layout:
  "sockaddr_in_to_v4 (sockaddr_in_from_v4 addr) = addr \<and>
   sockaddr_in_from_v4 (sockaddr_in_to_v4 sa) = sa\<lparr>sin_family := AF_INET\<rparr> \<and>
   mem_u16 (sin_port (sockaddr_in_from_v4 addr)) = [ucast (drop_bit 8 (sa_port addr)), ucast (sa_port addr)] \<and>
   (case sa_ip addr of (a, b, c, d) \<Rightarrow> mem_u32 (sin_addr (sockaddr_in_from_v4 addr)) = [a, b, c, d])"
  by (cases "sa_ip addr")
    (simp add: sockaddr_in_to_v4_def sockaddr_in_from_v4_def mem_swap_u16 mem_swap_u32 del: u32_from_be_octets.simps)

lemma to_from_v4 [simp]: "sockaddr_in_to_v4 (sockaddr_in_from_v4 addr) = addr" "sin_family (sockaddr_in_from_v4 addr) = AF_INET"
  by (simp_all add: sockaddr_in_to_v4_def sockaddr_in_from_v4_def del: u32_from_be_octets.simps)

subsection \<open>Binding leaks no descriptor\<close>

text \<open>
  \<open>bind\<close> either fails with the system's error and leaves the open descriptors as they were, whichever
  call failed, or adds the one descriptor of the socket; the local address is then the one the system
  reports. \<open>from_raw_fd\<close> keeps the descriptor it is given, or closes it when it fails.
\<close>

theorem bind_leaks_nothing:
  "(case bind_with_reactor sys addr fds of
      (Inl e, fds') \<Rightarrow> e = OsError (sk_errno sys) \<and> fds' = fds
    | (Inr s, fds') \<Rightarrow> fds' = sk_socket sys # fds \<and> us_fd s = sk_socket sys \<and> 0 \<le> us_fd s \<and>
        fst (sk_getsockname sys (us_fd s)) = 0 \<and> us_local s = sockaddr_in_to_v4 (snd (sk_getsockname sys (us_fd s)))) \<and>
   (case from_raw_fd sys fd (fd # fds) of
      (Inl e, fds') \<Rightarrow> e = OsError (sk_errno sys) \<and> fds' = fds
    | (Inr s, fds') \<Rightarrow> fds' = fd # fds \<and> us_fd s = fd \<and> us_local s = sockaddr_in_to_v4 (snd (sk_getsockname sys fd)))"
  by (simp add: bind_with_reactor_def from_raw_fd_def read_local_addr_def close_fd_def Let_def split: prod.split)

subsection \<open>Messages on the reactor\<close>

lemma push_msg_cases:
  assumes "push_msg st mk w = Inr (f, w1)"
  obtains r where "push_sqe (mk (iw_next_box w)) (iw_reactor w) = Inr (mg_handle f, r)" "mg_storage f = iw_next_box w"
    "w1 = w\<lparr>iw_boxes := (iw_boxes w)(iw_next_box w \<mapsto> SocketBox st), iw_next_box := Suc (iw_next_box w), iw_reactor := r\<rparr>"
  using assms by (auto simp: push_msg_def new_box_def run_simps split: sum.splits)

text \<open>
  The bookkeeping of the reactor, without what \<open>io_ok\<close> says of wakers: handles need not have been polled.
\<close>

definition ring_ok :: "nat \<Rightarrow> ('w, 'e) io_reactor \<Rightarrow> bool" where
  "ring_ok m r \<longleftrightarrow> distinct (under_way r) \<and> distinct (map fst (io_completions r)) \<and> distinct (map snd (io_completions r)) \<and>
     set (under_way r) = fst ` set (io_completions r) \<and> unat (io_counter r) = m \<and>
     (\<forall>e \<in> set (io_completions r). fst e < io_counter r \<and> snd e < io_next_cell r)"

text \<open>A step that pushes nothing.\<close>

definition quiet_step :: "('w, 'e) io_reactor \<Rightarrow> ('w, 'e) io_reactor \<Rightarrow> bool" where
  "quiet_step r r' \<longleftrightarrow> io_counter r' = io_counter r \<and> io_next_cell r' = io_next_cell r \<and>
     set (io_completions r') \<subseteq> set (io_completions r) \<and> set (entries r') \<subseteq> set (entries r) \<and>
     (\<forall>v x. (v, x) \<in> set (io_cq r') \<longrightarrow> (v, x) \<in> set (io_cq r) \<or> v \<in> fst ` set (entries r))"

lemma quiet_refl [simp]: "quiet_step r r"
  by (simp add: quiet_step_def)

lemma quiet_trans:
  assumes "quiet_step r r1" "quiet_step r1 r2"
  shows "quiet_step r r2"
proof -
  have "(v, x) \<in> set (io_cq r) \<or> v \<in> fst ` set (entries r)" if "(v, x) \<in> set (io_cq r2)" for v x
  proof -
    from assms(2) that have "(v, x) \<in> set (io_cq r1) \<or> v \<in> fst ` set (entries r1)" unfolding quiet_step_def by blast
    with assms(1) show ?thesis unfolding quiet_step_def by (meson image_mono subsetD)
  qed
  moreover have "set (io_completions r2) \<subseteq> set (io_completions r)" "set (entries r2) \<subseteq> set (entries r)"
    using assms unfolding quiet_step_def by (meson subset_trans)+
  ultimately show ?thesis using assms by (simp add: quiet_step_def)
qed

lemma ring_ok_move:
  assumes ok: "ring_ok m r" and perm: "mset (under_way r') = mset (under_way r)"
    and same: "io_completions r' = io_completions r" "io_next_cell r' = io_next_cell r" "io_counter r' = io_counter r"
  shows "ring_ok m r'"
proof -
  have "distinct (under_way r')" using ok mset_eq_imp_distinct_iff[OF perm] by (simp add: ring_ok_def)
  moreover have "set (under_way r') = fst ` set (io_completions r')" using ok mset_eq_setD[OF perm] same by (simp add: ring_ok_def)
  ultimately show ?thesis using ok same by (simp add: ring_ok_def)
qed

lemma ring_ok_handles [simp]: "ring_ok m (r\<lparr>io_handles := h\<rparr>) = ring_ok m r"
  by (simp add: ring_ok_def)

lemma wait_poll_handles: "\<exists>h. snd (wait_poll k cell r) = r\<lparr>io_handles := h\<rparr>"
  by (auto simp: wait_poll_def Let_def split: option.split)

lemma ring_push:
  assumes ok: "ring_ok m r" and m: "Suc m < 2 ^ 64" and push: "push_sqe e r = Inr (cell, r')"
  shows "ring_ok (Suc m) r'" "io_completions r' = io_completions r @ [(io_counter r, cell)]" "entries r' = io_sq r @ (io_counter r, e) # io_inflight r"
    "io_cq r' = io_cq r" "io_counter r < io_counter r'" "io_handles r' cell = handle_state_new"
    "io_counter r \<notin> fst ` set (io_completions r)"
proof -
  let ?C = "io_completions r" and ?u = "io_counter r" and ?c = "io_next_cell r"
  show fresh: "?u \<notin> fst ` set ?C" using ok by (fastforce simp: ring_ok_def)
  have fc: "?c \<notin> snd ` set ?C" using ok by (fastforce simp: ring_ok_def)
  have r': "cell = ?c" "r' = r\<lparr>io_counter := ?u + 1, io_next_cell := Suc ?c, io_handles := (io_handles r)(?c := handle_state_new),
      io_completions := ?C @ [(?u, ?c)], io_sq := io_sq r @ [(?u, e)]\<rparr>"
    using push update_absent[OF fresh] by (auto simp: push_sqe_def Let_def split: if_splits)
  have inc: "unat (?u + 1) = Suc m" using ok m unat_u64_Suc[of ?u] by (simp add: ring_ok_def)
  then have less: "?u < ?u + 1" using ok by (simp add: u64_less_iff ring_ok_def)
  have all: "fst x < ?u + 1 \<and> snd x < Suc ?c" if "x \<in> set ?C" for x using ok that less by (fastforce simp: ring_ok_def)
  have "?u \<notin> set (under_way r)" using ok fresh unfolding ring_ok_def by blast
  then show "ring_ok (Suc m) r'" using ok fresh fc inc less all unfolding r' by (simp add: ring_ok_def)
  show "io_completions r' = ?C @ [(?u, cell)]" "entries r' = io_sq r @ (?u, e) # io_inflight r"
    "io_cq r' = io_cq r" "?u < io_counter r'" "io_handles r' cell = handle_state_new"
    using less unfolding r' by (simp_all add: entries_def)
qed

text \<open>Reading completions: each result goes to the cell of its operation, if every cell has a waker.\<close>

lemma handle_cqe_ring:
  assumes step: "handle_cqe (ud, res) r = Inr r'" and ok: "ring_ok m (r\<lparr>io_cq := (ud, res) # cq\<rparr>)"
  obtains c k where "map_of (io_completions r) ud = Some c" "hs_waker (io_handles r c) = Some k"
    "r' = r\<lparr>io_completions := AList.delete ud (io_completions r), io_completed := io_completed r + 1,
       io_handles := (io_handles r)(c := \<lparr>hs_waker = None, hs_result = Some (io_result res)\<rparr>), io_wakes := io_wakes r @ [k]\<rparr>"
    "ring_ok m (r'\<lparr>io_cq := cq\<rparr>)" "\<And>u d. u \<noteq> ud \<Longrightarrow> map_of (io_completions r) u = Some d \<Longrightarrow>
       d \<noteq> c \<and> map_of (io_completions r') u = Some d" "c \<notin> snd ` set (io_completions r')"
proof -
  let ?C = "io_completions r"
  obtain c k where ck: "map_of ?C ud = Some c" "hs_waker (io_handles r c) = Some k"
    "r' = r\<lparr>io_completions := AList.delete ud ?C, io_completed := io_completed r + 1,
       io_handles := (io_handles r)(c := \<lparr>hs_waker = None, hs_result = Some (io_result res)\<rparr>), io_wakes := io_wakes r @ [k]\<rparr>"
    using step by (auto simp: handle_cqe_def Let_def split: option.splits)
  have D: "distinct (map fst ?C)" "distinct (map snd ?C)" using ok by (simp_all add: ring_ok_def)
  have "set (under_way (r'\<lparr>io_cq := cq\<rparr>)) = fst ` set (AList.delete ud ?C)"
    using ok fst_delete[of ud ?C] unfolding ck(3) by (auto simp: ring_ok_def)
  then have ok': "ring_ok m (r'\<lparr>io_cq := cq\<rparr>)"
    using ok D set_delete_sub[of ud ?C] unfolding ck(3)
    by (auto simp: ring_ok_def distinct_delete distinct_snd_delete)
  have other: "d \<noteq> c \<and> map_of (io_completions r') u = Some d" if "u \<noteq> ud" "map_of ?C u = Some d" for u d
  proof
    show "d \<noteq> c"
    proof
      assume "d = c"
      with map_of_SomeD[OF that(2)] map_of_SomeD[OF ck(1)] D(2) that(1) show False
        by (metis distinct_map inj_onD prod.inject snd_conv)
    qed
    show "map_of (io_completions r') u = Some d" using that by (simp add: ck(3) delete_conv')
  qed
  have "c \<notin> snd ` set (io_completions r')"
  proof
    assume "c \<in> snd ` set (io_completions r')"
    then obtain v where v: "(v, c) \<in> set (AList.delete ud ?C)" by (auto simp: ck(3))
    then have "(v, c) \<in> set ?C" "v \<noteq> ud" using set_delete_sub[of ud ?C] fst_delete[of ud ?C] by force+
    with map_of_SomeD[OF ck(1)] D(2) show False by (metis distinct_map inj_onD prod.inject snd_conv)
  qed
  from that[OF ck ok' other this] show thesis .
qed

lemma handle_cqes_other:
  "handle_cqes cqs r = Inr r' \<Longrightarrow> c \<notin> snd ` set (io_completions r) \<Longrightarrow> io_handles r' c = io_handles r c"
proof (induction cqs arbitrary: r)
  case (Cons cqe cqs)
  obtain ud res where cqe: "cqe = (ud, res)" by fastforce
  from Cons.prems(1) obtain r1 where r1: "handle_cqe (ud, res) r = Inr r1" "handle_cqes cqs r1 = Inr r'"
    by (auto simp: cqe run_simps)
  then obtain d where d: "map_of (io_completions r) ud = Some d" "io_completions r1 = AList.delete ud (io_completions r)"
    "\<And>e. e \<noteq> d \<Longrightarrow> io_handles r1 e = io_handles r e"
    by (auto simp: handle_cqe_def Let_def split: option.splits)
  have "d \<noteq> c" using map_of_SomeD[OF d(1)] Cons.prems(2) by force
  moreover have "c \<notin> snd ` set (io_completions r1)" using Cons.prems(2) set_delete_sub[of ud "io_completions r"] by (auto simp: d(2))
  ultimately show ?case using Cons.IH[OF r1(2)] d(3) by metis
qed simp

lemma handle_cqes_ring:
  "handle_cqes cqs r = Inr r' \<Longrightarrow> ring_ok m (r\<lparr>io_cq := cqs\<rparr>) \<Longrightarrow>
    ring_ok m (r'\<lparr>io_cq := []\<rparr>) \<and> quiet_step r r' \<and> io_cq r' = io_cq r \<and>
    (\<forall>u c res. map_of (io_completions r) u = Some c \<longrightarrow> (u, res) \<in> set cqs \<longrightarrow>
       io_handles r' c = \<lparr>hs_waker = None, hs_result = Some (io_result res)\<rparr>)"
proof (induction cqs arbitrary: r)
  case Nil
  then show ?case by simp
next
  case (Cons cqe cqs)
  obtain ud res where cqe: "cqe = (ud, res)" by fastforce
  from Cons.prems(1) obtain r1 where r1: "handle_cqe (ud, res) r = Inr r1" "handle_cqes cqs r1 = Inr r'"
    by (auto simp: cqe run_simps)
  from handle_cqe_ring[OF r1(1) Cons.prems(2)[unfolded cqe]] obtain c k where
    c: "map_of (io_completions r) ud = Some c" "hs_waker (io_handles r c) = Some k"
    "r1 = r\<lparr>io_completions := AList.delete ud (io_completions r), io_completed := io_completed r + 1,
       io_handles := (io_handles r)(c := \<lparr>hs_waker = None, hs_result = Some (io_result res)\<rparr>), io_wakes := io_wakes r @ [k]\<rparr>"
    "ring_ok m (r1\<lparr>io_cq := cqs\<rparr>)" and other: "\<And>u d. u \<noteq> ud \<Longrightarrow> map_of (io_completions r) u = Some d \<Longrightarrow>
       d \<noteq> c \<and> map_of (io_completions r1) u = Some d" and gone: "c \<notin> snd ` set (io_completions r1)" by metis
  from Cons.IH[OF r1(2) c(4)] have IH: "ring_ok m (r'\<lparr>io_cq := []\<rparr>)" "quiet_step r1 r'" "io_cq r' = io_cq r1"
    "\<forall>u c res. map_of (io_completions r1) u = Some c \<longrightarrow> (u, res) \<in> set cqs \<longrightarrow>
       io_handles r' c = \<lparr>hs_waker = None, hs_result = Some (io_result res)\<rparr>" by blast+
  have "quiet_step r r1" using set_delete_sub[of ud "io_completions r"] by (auto simp: c(3) quiet_step_def entries_def)
  then have q: "quiet_step r r'" using IH(2) by (rule quiet_trans)
  have ud: "ud \<notin> fst ` set cqs" using Cons.prems(2) cqe by (auto simp: ring_ok_def)
  have there: "io_handles r' d = \<lparr>hs_waker = None, hs_result = Some (io_result x)\<rparr>"
    if "map_of (io_completions r) u = Some d" "(u, x) \<in> set (cqe # cqs)" for u d x
  proof (cases "u = ud")
    case True
    then have x: "d = c" "x = res" using that c(1) cqe ud by (auto simp: image_iff)
    have "io_handles r' c = io_handles r1 c" by (rule handle_cqes_other[OF r1(2) gone])
    then show ?thesis by (simp add: x c(3))
  next
    case False
    with that(2) cqe have "(u, x) \<in> set cqs" by simp
    with IH(4) other[OF False that(1)] show ?thesis by blast
  qed
  show ?case using IH(1,3) q there by (simp add: c(3))
qed

lemma handle_cqes_runs:
  "ring_ok m (r\<lparr>io_cq := cqs\<rparr>) \<Longrightarrow> \<forall>ud \<in> fst ` set cqs. hs_waker (io_handles r (cqe_cell r ud)) \<noteq> None \<Longrightarrow>
    \<exists>r'. handle_cqes cqs r = Inr r'"
proof (induction cqs arbitrary: r)
  case (Cons cqe cqs)
  obtain ud res where cqe: "cqe = (ud, res)" by fastforce
  have sub: "fst ` set (cqe # cqs) \<subseteq> fst ` set (io_completions r)" using Cons.prems(1) by (auto simp: ring_ok_def)
  then obtain c where "map_of (io_completions r) ud = Some c" using map_of_eq_None_iff[of "io_completions r" ud] cqe by fastforce
  then obtain r1 where r1: "handle_cqe (ud, res) r = Inr r1"
    using Cons.prems(2) cqe by (auto simp: handle_cqe_def cqe_cell_def Let_def)
  from handle_cqe_ring[OF r1 Cons.prems(1)[unfolded cqe]] obtain c k where
    c: "r1 = r\<lparr>io_completions := AList.delete ud (io_completions r), io_completed := io_completed r + 1,
       io_handles := (io_handles r)(c := \<lparr>hs_waker = None, hs_result = Some (io_result res)\<rparr>), io_wakes := io_wakes r @ [k]\<rparr>"
    "ring_ok m (r1\<lparr>io_cq := cqs\<rparr>)" and other: "\<And>u d. u \<noteq> ud \<Longrightarrow> map_of (io_completions r) u = Some d \<Longrightarrow>
       d \<noteq> c \<and> map_of (io_completions r1) u = Some d" by metis
  have "hs_waker (io_handles r1 (cqe_cell r1 u)) \<noteq> None" if u: "u \<in> fst ` set cqs" for u
  proof -
    have ne: "u \<noteq> ud" using Cons.prems(1) cqe u by (auto simp: ring_ok_def)
    obtain d where d: "map_of (io_completions r) u = Some d"
      using u sub map_of_eq_None_iff[of "io_completions r" u] by fastforce
    have "hs_waker (io_handles r (cqe_cell r u)) \<noteq> None" using Cons.prems(2) u by auto
    with other[OF ne d] d show ?thesis by (simp add: cqe_cell_def c(1))
  qed
  with Cons.IH[OF c(2)] r1 show ?case by (auto simp: cqe)
qed simp

lemma poll_submit_ring:
  assumes ok: "ring_ok m r" and sub: "poll_submit now ok' r = Inr r1"
  shows "ring_ok m r1" "quiet_step r r1" "io_completions r1 = io_completions r" "io_handles r1 = io_handles r" "io_cq r1 = io_cq r"
proof -
  from sub have r1: "mset (under_way r1) = mset (under_way r)" "io_completions r1 = io_completions r" "io_handles r1 = io_handles r"
    "io_cq r1 = io_cq r" "io_next_cell r1 = io_next_cell r" "io_counter r1 = io_counter r" "set (entries r1) = set (entries r)"
    by (auto simp: poll_submit_def ring_submit_def entries_def run_simps Let_def split: if_splits option.splits)
  from r1 show "ring_ok m r1" by (intro ring_ok_move[OF ok])
  from r1 show "quiet_step r r1" "io_completions r1 = io_completions r" "io_handles r1 = io_handles r" "io_cq r1 = io_cq r"
    by (simp_all add: quiet_step_def)
qed

lemma reactor_poll_ring:
  assumes ok: "ring_ok m r" and poll: "poll_submit_and_completions now ok' r = Inr r'"
  shows "ring_ok m r'" "quiet_step r r'" "map_of (io_completions r) u = Some c \<Longrightarrow> (u, res) \<in> set (io_cq r) \<Longrightarrow>
    io_handles r' c = \<lparr>hs_waker = None, hs_result = Some (io_result res)\<rparr>"
proof -
  obtain r1 where r1: "poll_submit now ok' r = Inr r1" "handle_cqes (io_cq r1) (r1\<lparr>io_cq := []\<rparr>) = Inr r'"
    using poll by (auto simp: poll_submit_and_completions_def run_simps)
  note p = poll_submit_ring[OF ok r1(1)]
  have "ring_ok m (r1\<lparr>io_cq := [], io_cq := io_cq r1\<rparr>)" using p(1) by simp
  note h = handle_cqes_ring[OF r1(2) this]
  then have "ring_ok m (r'\<lparr>io_cq := []\<rparr>)" "io_cq r' = []" by simp_all
  then show "ring_ok m r'" by (metis io_reactor.surjective io_reactor.update_convs(4))
  have "quiet_step r (r1\<lparr>io_cq := []\<rparr>)" using p(2) by (simp add: quiet_step_def entries_def)
  with h show "quiet_step r r'" using quiet_trans by blast
  show "map_of (io_completions r) u = Some c \<Longrightarrow> (u, res) \<in> set (io_cq r) \<Longrightarrow>
    io_handles r' c = \<lparr>hs_waker = None, hs_result = Some (io_result res)\<rparr>" using h p(3,5) by simp
qed

lemma reactor_poll_runs:
  assumes ok: "ring_ok m r" and w: "\<forall>ud \<in> fst ` set (io_cq r). hs_waker (io_handles r (cqe_cell r ud)) \<noteq> None"
  shows "\<exists>r'. poll_submit_and_completions now True r = Inr r'"
proof -
  obtain r1 where r1: "poll_submit now True r = Inr r1" using poll_submit_runs by blast
  note p = poll_submit_ring[OF ok r1]
  have "ring_ok m (r1\<lparr>io_cq := [], io_cq := io_cq r1\<rparr>)" using p(1) by simp
  moreover have "cqe_cell (r1\<lparr>io_cq := []\<rparr>) = cqe_cell r" using p(3) by (simp add: cqe_cell_def fun_eq_iff)
  ultimately have "\<exists>r'. handle_cqes (io_cq r1) (r1\<lparr>io_cq := []\<rparr>) = Inr r'"
    using w p(4,5) by (intro handle_cqes_runs) simp_all
  with r1 show ?thesis by (simp add: poll_submit_and_completions_def)
qed

lemma io_step_ring:
  assumes ok: "ring_ok m r" and step: "io_step op r = Inr r'" and op: "\<forall>e k. op \<noteq> IAwait e k"
  shows "ring_ok m r' \<and> quiet_step r r'"
proof (cases op)
  case (IAwait e k)
  with op show ?thesis by blast
next
  case (IRepoll cell k)
  with step ok wait_poll_handles[of k cell r] show ?thesis by (auto simp: quiet_step_def entries_def)
next
  case (IReactor now ok')
  with step reactor_poll_ring(1,2)[OF ok] show ?thesis by auto
next
  case (KTake n)
  have "mset (map fst (take n (io_sq r)) @ map fst (drop n (io_sq r))) = mset (map fst (io_sq r))"
    by (simp only: append_take_drop_id flip: map_append)
  then have "mset (under_way r') = mset (under_way r)" using KTake step by (auto simp: ac_simps)
  moreover have "quiet_step r r'" using KTake step set_take_subset[of n "io_sq r"] set_drop_subset[of n "io_sq r"]
    by (auto simp: quiet_step_def entries_def)
  ultimately show ?thesis using KTake step by (auto intro!: ring_ok_move[OF ok])
next
  case (KComplete i res)
  show ?thesis
  proof (cases "i < length (io_inflight r)")
    case True
    let ?I = "io_inflight r"
    have I: "?I = take i ?I @ ?I ! i # drop (Suc i) ?I" by (rule id_take_nth_drop[OF True])
    have "map fst ?I = map fst (take i ?I) @ fst (?I ! i) # map fst (drop (Suc i) ?I)"
      using arg_cong[OF I, of "map fst"] by simp
    then have "mset (under_way r') = mset (under_way r)" using step KComplete True by auto
    then have "ring_ok m r'" using step KComplete True by (intro ring_ok_move[OF ok]) auto
    moreover have "quiet_step r r'" using step KComplete True set_take_subset[of i ?I] set_drop_subset[of "Suc i" ?I]
      by (auto simp: quiet_step_def entries_def)
    ultimately show ?thesis ..
  qed (use KComplete step ok in auto)
next
  case KSleep
  with step ok show ?thesis by (auto simp: quiet_step_def entries_def intro!: ring_ok_move[OF ok])
qed

subsection \<open>A receive that is under way\<close>

text \<open>On the reactor: the entry \<open>u\<close> has the cell \<open>c\<close> and is the only one with the header \<open>b\<close>.\<close>

definition boxes_below :: "nat \<Rightarrow> ('w, sqe) io_reactor \<Rightarrow> bool" where
  "boxes_below n r \<longleftrightarrow> (\<forall>v fd b. (v, SqeRecvMsg fd b) \<in> set (entries r) \<longrightarrow> b < n)"

definition own_cell :: "u64 \<Rightarrow> nat \<Rightarrow> ('w, 'e) io_reactor \<Rightarrow> bool" where
  "own_cell u c r \<longleftrightarrow> u < io_counter r \<and> (\<forall>d. map_of (io_completions r) u = Some d \<longrightarrow> d = c)"

definition entry_known :: "u64 \<Rightarrow> nat \<Rightarrow> nat \<Rightarrow> ('w, sqe) io_reactor \<Rightarrow> bool" where
  "entry_known u c b r \<longleftrightarrow> own_cell u c r \<and>
     (\<forall>v fd b'. (v, SqeRecvMsg fd b') \<in> set (entries r) \<longrightarrow> (b' = b \<longleftrightarrow> v = u)) \<and>
     (\<forall>e. (u, e) \<in> set (entries r) \<longrightarrow> (\<exists>fd. e = SqeRecvMsg fd b))"

text \<open>The kernel is done with the entry: its completion, if not read yet, has the result \<open>res\<close>.\<close>

definition answered :: "u64 \<Rightarrow> int \<Rightarrow> ('w, 'e) io_reactor \<Rightarrow> bool" where
  "answered u res r \<longleftrightarrow> u \<notin> fst ` set (entries r) \<and> (\<forall>x. (u, x) \<in> set (io_cq r) \<longrightarrow> x = res)"

text \<open>In memory: the header's buffer, which no other message has, and what the kernel has written.\<close>

definition buffer_lent :: "nat \<Rightarrow> nat \<times> nat \<Rightarrow> 'w sock_world \<Rightarrow> bool" where
  "buffer_lent b buf w \<longleftrightarrow> (\<exists>st. iw_boxes w b = Some (SocketBox st) \<and> ms_iov_base st = fst buf \<and> ms_iov_len st = snd buf) \<and>
     (\<forall>b' st. b' \<noteq> b \<longrightarrow> iw_boxes w b' = Some (SocketBox st) \<longrightarrow> apart_bufs (ms_iov_base st, ms_iov_len st) buf)"

definition filled :: "nat \<Rightarrow> nat \<times> nat \<Rightarrow> u8 list \<Rightarrow> sockaddr_in \<Rightarrow> 'w sock_sys \<Rightarrow> bool" where
  "filled b buf bs sa S \<longleftrightarrow> (\<exists>st. iw_boxes (fst S) b = Some (SocketBox st) \<and> ms_sockaddr st = sa) \<and>
     length bs \<le> snd buf \<and> read_bytes (fst buf) (length bs) (snd S) = bs"

lemma boxes_below_quiet: "boxes_below n r \<Longrightarrow> quiet_step r r' \<Longrightarrow> n \<le> n' \<Longrightarrow> boxes_below n' r'"
  unfolding boxes_below_def quiet_step_def by (meson less_le_trans subsetD)

lemma own_cell_quiet:
  assumes ok: "ring_ok m r" and q: "quiet_step r r'" and tr: "own_cell u c r"
  shows "own_cell u c r'"
proof -
  have "d = c" if "map_of (io_completions r') u = Some d" for d
  proof -
    have "(u, d) \<in> set (io_completions r)" using map_of_SomeD[OF that] q by (auto simp: quiet_step_def)
    then have "map_of (io_completions r) u = Some d" using ok by (simp add: ring_ok_def)
    with tr show ?thesis by (simp add: own_cell_def)
  qed
  moreover have "u < io_counter r'" using q tr by (simp add: quiet_step_def own_cell_def)
  ultimately show ?thesis by (simp add: own_cell_def)
qed

lemma entry_known_quiet:
  assumes ok: "ring_ok m r" and q: "quiet_step r r'" and tr: "entry_known u c b r"
  shows "entry_known u c b r'"
proof -
  have "own_cell u c r'" using own_cell_quiet[OF ok q] tr by (simp add: entry_known_def)
  moreover have "set (entries r') \<subseteq> set (entries r)" using q by (simp add: quiet_step_def)
  moreover then have "\<forall>v fd b'. (v, SqeRecvMsg fd b') \<in> set (entries r') \<longrightarrow> (b' = b) = (v = u)"
    "\<forall>e. (u, e) \<in> set (entries r') \<longrightarrow> (\<exists>fd. e = SqeRecvMsg fd b)" using tr unfolding entry_known_def by blast+
  ultimately show ?thesis unfolding entry_known_def by blast
qed

lemma answered_quiet: "quiet_step r r' \<Longrightarrow> answered u res r \<Longrightarrow> answered u res r'"
  unfolding answered_def quiet_step_def by (meson image_mono subsetD)

lemma push_known:
  assumes ok: "ring_ok m r" and m: "Suc m < 2 ^ 64" and push: "push_sqe e r = Inr (cell, r')"
    and below: "boxes_below n r" and e: "\<forall>fd b'. e = SqeRecvMsg fd b' \<longrightarrow> b' = n \<and> n < n'" and n': "n \<le> n'"
  shows "ring_ok (Suc m) r'" "boxes_below n' r'" "entry_known u c b r \<Longrightarrow> b < n \<Longrightarrow> entry_known u c b r'"
    "entry_known u c b r \<Longrightarrow> answered u res r \<Longrightarrow> answered u res r'" "own_cell u c r \<Longrightarrow> own_cell u c r'"
proof -
  note p = ring_push[OF ok m push]
  show "ring_ok (Suc m) r'" by (rule p(1))
  have en: "(v, x) \<in> set (entries r') \<longleftrightarrow> (v, x) \<in> set (entries r) \<or> v = io_counter r \<and> x = e" for v x
    unfolding p(3) by (auto simp: entries_def)
  show "boxes_below n' r'" unfolding boxes_below_def en
  proof (intro allI impI)
    fix v fd b' assume "(v, SqeRecvMsg fd b') \<in> set (entries r) \<or> v = io_counter r \<and> SqeRecvMsg fd b' = e"
    then show "b' < n'"
    proof
      assume "(v, SqeRecvMsg fd b') \<in> set (entries r)"
      with below n' show ?thesis unfolding boxes_below_def by (meson less_le_trans)
    qed (use e in auto)
  qed
  show own: "own_cell u c r'" if "own_cell u c r" for u c
  proof -
    have u: "u < io_counter r" "u \<noteq> io_counter r" using that by (auto simp: own_cell_def)
    have "map_of (io_completions r') u = map_of (io_completions r) u" using u(2) by (auto simp: p(2) map_add_def split: option.split)
    moreover have "u < io_counter r'" using u(1) p(5) by (rule less_trans)
    ultimately show ?thesis using that by (simp add: own_cell_def)
  qed
  show "entry_known u c b r'" if tr: "entry_known u c b r" "b < n"
  proof -
    have u: "u \<noteq> io_counter r" using tr(1) by (auto simp: entry_known_def own_cell_def)
    moreover have "(b' = b) = (v = u)" if "(v, SqeRecvMsg fd b') \<in> set (entries r) \<or> v = io_counter r \<and> SqeRecvMsg fd b' = e" for v fd b'
      using that
    proof
      assume "(v, SqeRecvMsg fd b') \<in> set (entries r)"
      with tr(1) show ?thesis by (simp add: entry_known_def)
    next
      assume x: "v = io_counter r \<and> SqeRecvMsg fd b' = e"
      then have "b' = n" using e by blast
      with x u tr(2) show ?thesis by simp
    qed
    ultimately show ?thesis using tr(1) own[of u c] u unfolding entry_known_def en by auto
  qed
  show "answered u res r'" if tr: "entry_known u c b r" "answered u res r"
  proof -
    have "u \<noteq> io_counter r" using tr(1) by (auto simp: entry_known_def own_cell_def)
    then have "u \<notin> fst ` set (entries r')" using tr(2) unfolding answered_def p(3) by (auto simp: entries_def)
    with tr(2) show ?thesis by (simp add: answered_def p(4))
  qed
qed

text \<open>Writes elsewhere leave what was received.\<close>

lemma read_write_apart:
  assumes "apart_bufs (a, length bs) (x, n)" "k \<le> n"
  shows "read_bytes x k (write_bytes a bs mem) = read_bytes x k mem"
  using assms by (auto simp: read_bytes_def write_bytes_def apart_bufs_def)

lemma read_write_same: "read_bytes a (length bs) (write_bytes a bs mem) = bs"
  by (rule nth_equalityI) (auto simp: read_bytes_def write_bytes_def)

lemma apart_shorter: "apart_bufs (a, n) y \<Longrightarrow> m \<le> n \<Longrightarrow> apart_bufs (a, m) y"
  by (auto simp: apart_bufs_def)

lemma filled_same_mem:
  "filled b buf bs sa (w, mem) \<Longrightarrow> iw_boxes w' b = iw_boxes w b \<Longrightarrow> filled b buf bs sa (w', mem)"
  by (simp add: filled_def)

subsection \<open>Every step of a program keeps a receive that is under way\<close>

definition sock_ok :: "nat \<Rightarrow> 'w sock_sys \<Rightarrow> bool" where
  "sock_ok m S \<longleftrightarrow> ring_ok m (iw_reactor (fst S)) \<and> boxes_below (iw_next_box (fst S)) (iw_reactor (fst S))"

definition under_recv :: "u64 \<Rightarrow> msg_future \<Rightarrow> nat \<times> nat \<Rightarrow> 'w sock_sys \<Rightarrow> bool" where
  "under_recv u f buf S \<longleftrightarrow> entry_known u (mg_handle f) (mg_storage f) (iw_reactor (fst S)) \<and> mg_storage f < iw_next_box (fst S) \<and>
     buffer_lent (mg_storage f) buf (fst S)"

text \<open>What one step keeps, for every receive that the step spares.\<close>

definition sock_keeps :: "'w sock_op \<Rightarrow> 'w sock_sys \<Rightarrow> 'w sock_sys \<Rightarrow> bool" where
  "sock_keeps op S S' \<longleftrightarrow> (\<forall>u c. own_cell u c (iw_reactor (fst S)) \<longrightarrow> own_cell u c (iw_reactor (fst S'))) \<and> (\<forall>u f buf. under_recv u f buf S \<longrightarrow> spares f buf op \<longrightarrow> under_recv u f buf S' \<and>
     (\<forall>res. answered u res (iw_reactor (fst S)) \<longrightarrow> answered u res (iw_reactor (fst S')) \<and>
       (\<forall>bs sa. filled (mg_storage f) buf bs sa S \<longrightarrow> filled (mg_storage f) buf bs sa S')))"

lemma quiet_keeps:
  assumes ok: "sock_ok m (w, mem)" and q: "quiet_step (iw_reactor w) (iw_reactor w')" and ok': "ring_ok m (iw_reactor w')"
    and boxes: "iw_next_box w \<le> iw_next_box w'"
      "\<And>u f buf. under_recv u f buf (w, mem) \<Longrightarrow> spares f buf op \<Longrightarrow> buffer_lent (mg_storage f) buf w'"
      "\<And>u f buf res bs sa. under_recv u f buf (w, mem) \<Longrightarrow> spares f buf op \<Longrightarrow> answered u res (iw_reactor w) \<Longrightarrow>
        filled (mg_storage f) buf bs sa (w, mem) \<Longrightarrow> filled (mg_storage f) buf bs sa (w', mem')"
  shows "sock_ok m (w', mem') \<and> sock_keeps op (w, mem) (w', mem')"
proof
  show "sock_ok m (w', mem')" using ok ok' boxes_below_quiet[OF _ q boxes(1)] by (simp add: sock_ok_def)
  have ring: "ring_ok m (iw_reactor w)" using ok by (simp add: sock_ok_def)
  show "sock_keeps op (w, mem) (w', mem')"
    unfolding sock_keeps_def
  proof (intro allI impI conjI)
    show "own_cell u c (iw_reactor (fst (w', mem')))" if "own_cell u c (iw_reactor (fst (w, mem)))" for u c
      using own_cell_quiet[OF ring q] that by simp
    fix u f buf assume u: "under_recv u f buf (w, mem)" and s: "spares f buf op"
    show "under_recv u f buf (w', mem')" using u entry_known_quiet[OF ring q] boxes(1) boxes(2)[OF u s] by (auto simp: under_recv_def)
    fix res assume a: "answered u res (iw_reactor (fst (w, mem)))"
    then show "answered u res (iw_reactor (fst (w', mem')))" using answered_quiet[OF q] by simp
    fix bs sa assume "filled (mg_storage f) buf bs sa (w, mem)"
    then show "filled (mg_storage f) buf bs sa (w', mem')" using boxes(3)[OF u s] a by simp
  qed
qed

lemma push_keeps:
  assumes ok: "sock_ok m (w, mem)" and m: "Suc m < 2 ^ 64" and push: "push_sqe e (iw_reactor w) = Inr (cell, r)"
    and r': "\<exists>h. iw_reactor w' = r\<lparr>io_handles := h\<rparr>"
    and e: "\<forall>fd b'. e = SqeRecvMsg fd b' \<longrightarrow> b' = iw_next_box w \<and> iw_next_box w < iw_next_box w'"
    and boxes: "iw_next_box w \<le> iw_next_box w'" "\<And>b. b < iw_next_box w \<Longrightarrow> iw_boxes w' b = iw_boxes w b"
      "\<And>u f buf. under_recv u f buf (w, mem) \<Longrightarrow> spares f buf op \<Longrightarrow> buffer_lent (mg_storage f) buf w'"
  shows "sock_ok (Suc m) (w', mem) \<and> sock_keeps op (w, mem) (w', mem)"
proof -
  have ring: "ring_ok m (iw_reactor w)" "boxes_below (iw_next_box w) (iw_reactor w)" using ok by (simp_all add: sock_ok_def)
  note p = push_known[OF ring(1) m push ring(2) e boxes(1)]
  obtain h where h: "iw_reactor w' = r\<lparr>io_handles := h\<rparr>" using r' by blast
  have same: "boxes_below n (r\<lparr>io_handles := h\<rparr>) = boxes_below n r" "entry_known u c b (r\<lparr>io_handles := h\<rparr>) = entry_known u c b r"
    "own_cell u c (r\<lparr>io_handles := h\<rparr>) = own_cell u c r" "answered u res (r\<lparr>io_handles := h\<rparr>) = answered u res r" for n u c b res
    by (simp_all add: boxes_below_def entry_known_def own_cell_def answered_def entries_def)
  have "sock_ok (Suc m) (w', mem)" using p(1,2) by (simp add: sock_ok_def h same)
  moreover have "sock_keeps op (w, mem) (w', mem)"
    unfolding sock_keeps_def
  proof (intro allI impI conjI)
    show "own_cell u c (iw_reactor (fst (w', mem)))" if "own_cell u c (iw_reactor (fst (w, mem)))" for u c
      using p(5) that by (simp add: h same)
    fix u f buf assume u: "under_recv u f buf (w, mem)" and s: "spares f buf op"
    then have t: "entry_known u (mg_handle f) (mg_storage f) (iw_reactor w)" "mg_storage f < iw_next_box w" by (simp_all add: under_recv_def)
    show "under_recv u f buf (w', mem)"
      using p(3)[OF t] t(2) boxes(1) boxes(3)[OF u s] by (simp add: under_recv_def h same)
    fix res assume a: "answered u res (iw_reactor (fst (w, mem)))"
    then show "answered u res (iw_reactor (fst (w', mem)))" using p(4)[OF t(1)] by (simp add: h same)
    fix bs sa assume "filled (mg_storage f) buf bs sa (w, mem)"
    then show "filled (mg_storage f) buf bs sa (w', mem)" by (rule filled_same_mem) (rule boxes(2)[OF t(2)])
  qed
  ultimately show ?thesis ..
qed

lemma buffer_lent_same: "buffer_lent b buf w \<Longrightarrow> (\<And>b' st. iw_boxes w' b' = Some (SocketBox st) \<longleftrightarrow> iw_boxes w b' = Some (SocketBox st)) \<Longrightarrow> buffer_lent b buf w'"
  unfolding buffer_lent_def by simp

lemma call_keeps:
  assumes ok: "sock_ok m (w, mem)" and m: "Suc m < 2 ^ 64" and push: "push_msg st mk w = Inr (g, w')"
    and e: "\<forall>fd b'. mk (iw_next_box w) = SqeRecvMsg fd b' \<longrightarrow> b' = iw_next_box w"
    and ap: "\<And>f buf. spares f buf op \<Longrightarrow> apart_bufs (ms_iov_base st, ms_iov_len st) buf"
  shows "sock_ok (Suc m) (w', mem) \<and> sock_keeps op (w, mem) (w', mem)"
proof -
  from push obtain r where r: "push_sqe (mk (iw_next_box w)) (iw_reactor w) = Inr (mg_handle g, r)"
    and w': "w' = w\<lparr>iw_boxes := (iw_boxes w)(iw_next_box w \<mapsto> SocketBox st), iw_next_box := Suc (iw_next_box w), iw_reactor := r\<rparr>"
    by (rule push_msg_cases)
  show ?thesis
  proof (rule push_keeps[OF ok m r])
    show "\<exists>h. iw_reactor w' = r\<lparr>io_handles := h\<rparr>" by (rule exI[of _ "io_handles r"]) (simp add: w')
    show "\<forall>fd b'. mk (iw_next_box w) = SqeRecvMsg fd b' \<longrightarrow> b' = iw_next_box w \<and> iw_next_box w < iw_next_box w'"
      using e by (simp add: w')
    fix u f buf assume u: "under_recv u f buf (w, mem)" and s: "spares f buf op"
    then show "buffer_lent (mg_storage f) buf w'" using ap[OF s] by (auto simp: under_recv_def buffer_lent_def w')
  qed (simp_all add: w')
qed

lemma datagram_keeps:
  assumes ok: "sock_ok m (w, mem)" and i: "i < length (io_inflight (iw_reactor w))"
    and b: "snd (io_inflight (iw_reactor w) ! i) = SqeRecvMsg fd b" and fill: "kernel_fill b d sa (w, mem) = Inr (n, w1, mem')"
    and r: "io_step (KComplete i (int n)) (iw_reactor w1) = Inr r"
  shows "sock_ok m (w1\<lparr>iw_reactor := r\<rparr>, mem') \<and> sock_keeps op (w, mem) (w1\<lparr>iw_reactor := r\<rparr>, mem')"
proof -
  from fill obtain st where st: "iw_boxes w b = Some (SocketBox st)" and n: "n = length (take (ms_iov_len st) d)"
    and w1: "w1 = w\<lparr>iw_boxes := (iw_boxes w)(b \<mapsto> SocketBox (st\<lparr>ms_sockaddr := sa\<rparr>))\<rparr>"
    and mem': "mem' = write_bytes (ms_iov_base st) (take (ms_iov_len st) d) mem"
    by (auto simp: kernel_fill_def Let_def split: option.splits storage.splits)
  have "ring_ok m (iw_reactor w)" using ok by (simp add: sock_ok_def)
  moreover have "io_step (KComplete i (int n)) (iw_reactor w) = Inr r" using r by (simp add: w1)
  ultimately have q: "ring_ok m r" "quiet_step (iw_reactor w) r" using io_step_ring by blast+
  have inf: "(fst (io_inflight (iw_reactor w) ! i), SqeRecvMsg fd b) \<in> set (entries (iw_reactor w))"
    using nth_mem[OF i] b by (simp add: entries_def) (metis prod.collapse)
  show ?thesis
  proof (rule quiet_keeps[OF ok])
    show "quiet_step (iw_reactor w) (iw_reactor (w1\<lparr>iw_reactor := r\<rparr>))" "ring_ok m (iw_reactor (w1\<lparr>iw_reactor := r\<rparr>))"
      "iw_next_box w \<le> iw_next_box (w1\<lparr>iw_reactor := r\<rparr>)"
      using q by (simp_all add: w1)
    fix u f buf assume u: "under_recv u f buf (w, mem)"
    then have "\<forall>b' st. b' \<noteq> mg_storage f \<longrightarrow> iw_boxes w b' = Some (SocketBox st) \<longrightarrow> apart_bufs (ms_iov_base st, ms_iov_len st) buf"
      unfolding under_recv_def buffer_lent_def fst_conv by blast
    then have ap: "mg_storage f \<noteq> b \<Longrightarrow> apart_bufs (ms_iov_base st, ms_iov_len st) buf" using st by metis
    show "buffer_lent (mg_storage f) buf (w1\<lparr>iw_reactor := r\<rparr>)" using u st ap by (auto simp: under_recv_def buffer_lent_def w1)
    fix res bs sa' assume a: "answered u res (iw_reactor w)" and fl: "filled (mg_storage f) buf bs sa' (w, mem)"
    have ne: "b \<noteq> mg_storage f"
    proof
      assume "b = mg_storage f"
      with inf u have "fst (io_inflight (iw_reactor w) ! i) = u" by (auto simp: under_recv_def entry_known_def)
      then have "u \<in> fst ` set (entries (iw_reactor w))" using inf by (metis fst_conv image_eqI)
      with a show False by (simp add: answered_def)
    qed
    have "apart_bufs (ms_iov_base st, ms_iov_len st) (fst buf, snd buf)" using u st ne by (auto simp: under_recv_def buffer_lent_def)
    then have "apart_bufs (ms_iov_base st, length (take (ms_iov_len st) d)) (fst buf, snd buf)" by (rule apart_shorter) simp
    from read_write_apart[OF this, of "length bs"] fl ne show "filled (mg_storage f) buf bs sa' (w1\<lparr>iw_reactor := r\<rparr>, mem')"
      by (simp add: filled_def w1 mem')
  qed
qed

lemma sock_step_keeps:
  assumes step: "sock_step op S S'" and ok: "sock_ok m S" and m: "Suc m < 2 ^ 64"
  shows "\<exists>m' \<le> Suc m. sock_ok m' S' \<and> sock_keeps op S S'"
  using step
proof cases
  case (Send s buf peer w f w' mem)
  have "sock_ok (Suc m) (w', mem) \<and> sock_keeps op (w, mem) (w', mem)"
    by (rule call_keeps[OF ok[unfolded Send] m Send(4)[unfolded send_to_def]]) (simp_all add: Send spares_def)
  with Send show ?thesis by blast
next
  case (Recv s buf w f w' mem)
  have "sock_ok (Suc m) (w', mem) \<and> sock_keeps op (w, mem) (w', mem)"
    by (rule call_keeps[OF ok[unfolded Recv] m Recv(4)[unfolded recv_from_def]]) (simp_all add: Recv spares_def)
  with Recv show ?thesis by blast
next
  case (Drop f w mem)
  have "sock_ok m (msg_drop f w, mem) \<and> sock_keeps op (w, mem) (msg_drop f w, mem)"
  proof (rule quiet_keeps[OF ok[unfolded Drop]])
    fix u g buf assume "under_recv u g buf (w, mem)" "spares g buf op"
    then show "buffer_lent (mg_storage g) buf (msg_drop f w)"
      by (auto simp: Drop spares_def under_recv_def buffer_lent_def msg_drop_def free_box_def)
    fix bs sa assume "filled (mg_storage g) buf bs sa (w, mem)"
    then show "filled (mg_storage g) buf bs sa (msg_drop f w, mem)" using \<open>spares g buf op\<close>
      by (auto simp: Drop spares_def filled_def msg_drop_def free_box_def)
  qed (use ok Drop in \<open>simp_all add: sock_ok_def msg_drop_def free_box_def\<close>)
  with Drop show ?thesis by (intro exI[of _ m]) simp
next
  case (New x w b w' mem)
  have w': "w' = w\<lparr>iw_boxes := (iw_boxes w)(iw_next_box w \<mapsto> x), iw_next_box := Suc (iw_next_box w)\<rparr>"
    using New(5) by (auto simp: new_box_def)
  have "sock_ok m (w', mem) \<and> sock_keeps op (w, mem) (w', mem)"
  proof (rule quiet_keeps[OF ok[unfolded New]])
    fix u g buf assume u: "under_recv u g buf (w, mem)"
    then show "buffer_lent (mg_storage g) buf w'" using New(4) by (auto simp: under_recv_def buffer_lent_def w')
    fix bs sa assume "filled (mg_storage g) buf bs sa (w, mem)"
    then show "filled (mg_storage g) buf bs sa (w', mem)" using u by (auto simp: filled_def w' under_recv_def)
  qed (use ok New in \<open>simp_all add: sock_ok_def w'\<close>)
  with New show ?thesis by (intro exI[of _ m]) simp
next
  case (Set w b y x mem)
  let ?w = "w\<lparr>iw_boxes := (iw_boxes w)(b \<mapsto> x)\<rparr>"
  have "sock_ok m (?w, mem) \<and> sock_keeps op (w, mem) (?w, mem)"
  proof (rule quiet_keeps[OF ok[unfolded Set]])
    fix u g buf assume u: "under_recv u g buf (w, mem)"
    then show "buffer_lent (mg_storage g) buf ?w" using Set(4-6) by (auto simp: under_recv_def buffer_lent_def)
    fix bs sa assume "filled (mg_storage g) buf bs sa (w, mem)"
    then show "filled (mg_storage g) buf bs sa (?w, mem)" using Set(4,5) by (auto simp: filled_def)
  qed (use ok Set in \<open>simp_all add: sock_ok_def\<close>)
  with Set show ?thesis by (intro exI[of _ m]) simp
next
  case (Free w b y mem)
  have "sock_ok m (free_box b w, mem) \<and> sock_keeps op (w, mem) (free_box b w, mem)"
  proof (rule quiet_keeps[OF ok[unfolded Free]])
    fix u g buf assume u: "under_recv u g buf (w, mem)"
    then show "buffer_lent (mg_storage g) buf (free_box b w)" using Free(4,5) by (auto simp: under_recv_def buffer_lent_def free_box_def)
    fix bs sa assume "filled (mg_storage g) buf bs sa (w, mem)"
    then show "filled (mg_storage g) buf bs sa (free_box b w, mem)" using Free(4,5) by (auto simp: filled_def free_box_def)
  qed (use ok Free in \<open>simp_all add: sock_ok_def free_box_def\<close>)
  with Free show ?thesis by (intro exI[of _ m]) simp
next
  case (Write a x w mem)
  have "sock_ok m (w, mem(a := x)) \<and> sock_keeps op (w, mem) (w, mem(a := x))"
  proof (rule quiet_keeps[OF ok[unfolded Write]])
    fix u g buf assume u: "under_recv u g buf (w, mem)" "spares g buf op"
    then show "buffer_lent (mg_storage g) buf w" by (simp add: under_recv_def)
    fix bs sa assume "filled (mg_storage g) buf bs sa (w, mem)"
    moreover have "read_bytes (fst buf) (length bs) (mem(a := x)) = read_bytes (fst buf) (length bs) mem" if "length bs \<le> snd buf"
      using u(2) that by (auto simp: Write spares_def read_bytes_def)
    ultimately show "filled (mg_storage g) buf bs sa (w, mem(a := x))" by (simp add: filled_def)
  qed (use ok Write in \<open>simp_all add: sock_ok_def\<close>)
  with Write show ?thesis by (intro exI[of _ m]) simp
next
  case (Io op' w r mem)
  let ?w = "w\<lparr>iw_reactor := r\<rparr>"
  have l: "buffer_lent b buf ?w = buffer_lent b buf w" "filled b buf bs sa (?w, mem) = filled b buf bs sa (w, mem)" for b buf bs sa
    by (simp_all add: buffer_lent_def filled_def)
  show ?thesis
  proof (cases "\<exists>e k. op' = IAwait e k")
    case True
    then obtain e k where e: "op' = IAwait e k" by blast
    with Io(5) obtain cell r1 where p: "push_sqe e (iw_reactor w) = Inr (cell, r1)" "r = snd (wait_poll k cell r1)"
      by (auto simp: run_simps)
    have "\<exists>h. iw_reactor ?w = r1\<lparr>io_handles := h\<rparr>" using wait_poll_handles[of k cell r1] p(2) by simp
    moreover have "\<forall>fd b'. e = SqeRecvMsg fd b' \<longrightarrow> b' = iw_next_box w \<and> iw_next_box w < iw_next_box ?w"
      using Io(4) e by (auto simp: plain_io_def)
    ultimately have "sock_ok (Suc m) (?w, mem) \<and> sock_keeps op (w, mem) (?w, mem)"
      by (rule push_keeps[OF ok[unfolded Io] m p(1)]) (simp_all add: l under_recv_def)
    with Io show ?thesis by blast
  next
    case False
    have "ring_ok m (iw_reactor w)" using ok Io by (simp add: sock_ok_def)
    from io_step_ring[OF this Io(5)] False have q: "ring_ok m r" "quiet_step (iw_reactor w) r" by blast+
    have "sock_ok m (?w, mem) \<and> sock_keeps op (w, mem) (?w, mem)"
      by (rule quiet_keeps[OF ok[unfolded Io]]) (use q in \<open>simp_all add: l under_recv_def\<close>)
    with Io show ?thesis by (intro exI[of _ m]) simp
  qed
next
  case (Datagram i w fd b d sa mem n w' mem' r)
  from datagram_keeps[OF ok[unfolded Datagram] Datagram(4-7)] Datagram show ?thesis by (intro exI[of _ m]) simp
qed

lemma sock_run_keeps:
  "sock_run ops S S' \<Longrightarrow> sock_ok m S \<Longrightarrow> m + length ops < 2 ^ 64 \<Longrightarrow>
    \<exists>m' \<le> m + length ops. sock_ok m' S' \<and>
      (\<forall>u c. own_cell u c (iw_reactor (fst S)) \<longrightarrow> own_cell u c (iw_reactor (fst S'))) \<and>
      (\<forall>u f buf. under_recv u f buf S \<longrightarrow> list_all (spares f buf) ops \<longrightarrow> under_recv u f buf S' \<and>
        (\<forall>res. answered u res (iw_reactor (fst S)) \<longrightarrow> answered u res (iw_reactor (fst S')) \<and>
          (\<forall>bs sa. filled (mg_storage f) buf bs sa S \<longrightarrow> filled (mg_storage f) buf bs sa S')))"
proof (induction arbitrary: m rule: sock_run.induct)
  case (Done S)
  then show ?case by (intro exI[of _ m]) simp
next
  case (More op S S1 ops S2)
  have "Suc m < 2 ^ 64" using More.prems(2) by simp
  from sock_step_keeps[OF More.hyps(1) More.prems(1) this] obtain m1 where
    m1: "m1 \<le> Suc m" "sock_ok m1 S1" "sock_keeps op S S1" by blast
  have lim: "m1 + length ops < 2 ^ 64" using m1(1) More.prems(2) by simp
  from More.IH[OF m1(2) lim] obtain m2 where
    m2: "m2 \<le> m1 + length ops" "sock_ok m2 S2" "\<forall>u c. own_cell u c (iw_reactor (fst S1)) \<longrightarrow> own_cell u c (iw_reactor (fst S2))"
    and k2: "\<forall>u f buf. under_recv u f buf S1 \<longrightarrow> list_all (spares f buf) ops \<longrightarrow> under_recv u f buf S2 \<and>
        (\<forall>res. answered u res (iw_reactor (fst S1)) \<longrightarrow> answered u res (iw_reactor (fst S2)) \<and>
          (\<forall>bs sa. filled (mg_storage f) buf bs sa S1 \<longrightarrow> filled (mg_storage f) buf bs sa S2))" by blast
  have "m2 \<le> m + length (op # ops)" using m1(1) m2(1) by simp
  moreover have "under_recv u f buf S2 \<and> (\<forall>res. answered u res (iw_reactor (fst S)) \<longrightarrow> answered u res (iw_reactor (fst S2)) \<and>
        (\<forall>bs sa. filled (mg_storage f) buf bs sa S \<longrightarrow> filled (mg_storage f) buf bs sa S2))"
    if "under_recv u f buf S" "list_all (spares f buf) (op # ops)" for u f buf
  proof -
    have sp: "spares f buf op" using that(2) by simp
    have u1: "under_recv u f buf S1" "\<forall>res. answered u res (iw_reactor (fst S)) \<longrightarrow> answered u res (iw_reactor (fst S1)) \<and>
          (\<forall>bs sa. filled (mg_storage f) buf bs sa S \<longrightarrow> filled (mg_storage f) buf bs sa S1)"
      using m1(3) that(1) sp unfolding sock_keeps_def by blast+
    have "list_all (spares f buf) ops" using that(2) by simp
    with k2 u1 show ?thesis by blast
  qed
  moreover have "own_cell u c (iw_reactor (fst S2))" if "own_cell u c (iw_reactor (fst S))" for u c
    using m1(3) m2(3) that unfolding sock_keeps_def by blast
  ultimately show ?case using m2(2) by blast
qed

subsection \<open>Calls and their results\<close>

definition sock_new :: "('w, sqe) io_reactor \<Rightarrow> 'w allocator \<Rightarrow> memory \<Rightarrow> 'w sock_sys" where
  "sock_new r al mem = (\<lparr>iw_reactor = r, iw_alloc = al, iw_boxes = \<lambda>_. None, iw_next_box = 0\<rparr>, mem)"

lemma sock_ok_built:
  "io_build sys create env taken now b = Inr (r0 :: ('w, sqe) io_reactor, al) \<Longrightarrow> sock_ok 0 (sock_new r0 al mem)"
  by (auto simp: io_build_def run_simps Let_def sock_ok_def sock_new_def ring_ok_def boxes_below_def entries_def
      split: option.splits if_splits)

text \<open>The first poll of a call that was just made waits, and the entry is under way.\<close>

lemma recv_starts:
  assumes ok: "sock_ok m (w, mem)" and m: "Suc m < 2 ^ 64" and recv: "recv_from s buf w = Inr (f, w1)"
    and buf: "\<forall>b st. iw_boxes w b = Some (SocketBox st) \<longrightarrow> apart_bufs (ms_iov_base st, ms_iov_len st) buf"
    and poll: "udp_recv_poll k f w1 = Inr (p, w2)"
  shows "p = Pending \<and> sock_ok (Suc m) (w2, mem) \<and> under_recv (io_counter (iw_reactor w)) f buf (w2, mem)"
proof -
  let ?st = "\<lparr>ms_sockaddr = \<lparr>sin_family = 0, sin_port = 0, sin_addr = 0\<rparr>, ms_iov_base = fst buf, ms_iov_len = snd buf,
               ms_namelen = SOCKADDR_STORAGE_SIZE\<rparr>" and ?u = "io_counter (iw_reactor w)"
  from recv[unfolded recv_from_def] obtain r where
    r: "push_sqe (SqeRecvMsg (us_fd s) (iw_next_box w)) (iw_reactor w) = Inr (mg_handle f, r)" "mg_storage f = iw_next_box w"
    and w1: "w1 = w\<lparr>iw_boxes := (iw_boxes w)(iw_next_box w \<mapsto> SocketBox ?st), iw_next_box := Suc (iw_next_box w), iw_reactor := r\<rparr>"
    by (rule push_msg_cases)
  have ring: "ring_ok m (iw_reactor w)" "boxes_below (iw_next_box w) (iw_reactor w)" using ok by (simp_all add: sock_ok_def)
  note p = ring_push[OF ring(1) m r(1)]
  have wp: "wait_poll k (mg_handle f) r = (Pending, r\<lparr>io_handles := (io_handles r)(mg_handle f := handle_state_new\<lparr>hs_waker := Some k\<rparr>)\<rparr>)"
    by (simp add: wait_poll_def p(6) handle_state_new_def)
  obtain h where w2: "p = Pending" "w2 = w1\<lparr>iw_reactor := r\<lparr>io_handles := h\<rparr>\<rparr>"
    using poll wp by (auto simp: udp_recv_poll_def w1)
  have "?u \<notin> set (under_way (iw_reactor w))" using ring(1) p(7) unfolding ring_ok_def by blast
  then have fresh: "(?u, e) \<notin> set (entries (iw_reactor w))" for e by (force simp: entries_def)
  have other: "(b' = mg_storage f) = (v = ?u)" if "(v, SqeRecvMsg fd b') \<in> set (entries (iw_reactor w))" for v fd b'
  proof -
    have "v \<noteq> ?u" using that fresh by blast
    moreover have "b' < iw_next_box w" using ring(2) that unfolding boxes_below_def by blast
    ultimately show ?thesis using r(2) by simp
  qed
  have cell: "map_of (io_completions r) ?u = Some (mg_handle f)"
  proof -
    have "map_of (io_completions (iw_reactor w)) ?u = None" using p(7) by (simp only: map_of_eq_None_iff not_False_eq_True)
    then show ?thesis by (simp add: p(2) map_add_def)
  qed
  have en: "(v, x) \<in> set (entries (r\<lparr>io_handles := h\<rparr>)) \<longleftrightarrow>
      (v, x) \<in> set (entries (iw_reactor w)) \<or> v = ?u \<and> x = SqeRecvMsg (us_fd s) (mg_storage f)" for v x
    using p(3) r(2) by (auto simp: entries_def)
  have "entry_known ?u (mg_handle f) (mg_storage f) (r\<lparr>io_handles := h\<rparr>)"
    unfolding entry_known_def en
  proof (intro conjI allI impI)
    show "own_cell ?u (mg_handle f) (r\<lparr>io_handles := h\<rparr>)" using p(5) cell by (simp add: own_cell_def)
    show "(b' = mg_storage f) = (v = ?u)"
      if "(v, SqeRecvMsg fd b') \<in> set (entries (iw_reactor w)) \<or> v = ?u \<and> SqeRecvMsg fd b' = SqeRecvMsg (us_fd s) (mg_storage f)" for v fd b'
      using that other by auto
    show "\<exists>fd. e = SqeRecvMsg fd (mg_storage f)"
      if "(?u, e) \<in> set (entries (iw_reactor w)) \<or> ?u = ?u \<and> e = SqeRecvMsg (us_fd s) (mg_storage f)" for e
      using that fresh by blast
  qed
  moreover have "boxes_below (iw_next_box w1) (r\<lparr>io_handles := h\<rparr>)"
    using ring(2) r(2) unfolding boxes_below_def en by (auto simp: w1 intro: less_SucI)
  moreover have "buffer_lent (mg_storage f) buf w2" using buf by (auto simp: buffer_lent_def w2(2) w1 r(2))
  ultimately show ?thesis using w2(1) p(1) by (simp add: sock_ok_def under_recv_def w2(2)) (simp add: w1 r(2))
qed

text \<open>The step in which the kernel answers.\<close>

lemma kernel_answers:
  assumes ok: "sock_ok m S" and u: "under_recv u f buf S" and step: "sock_step ev S S'" and ans: "answers u ev (iw_reactor (fst S))"
  shows "\<exists>res v. recv_answer (snd buf) ev = Some v \<and> answered u res (iw_reactor (fst S')) \<and>
    (\<forall>i d sa. ev = KRecv i d sa \<longrightarrow> filled (mg_storage f) buf (take (snd buf) d) sa S' \<and>
       res = int (min (snd buf) (length d))) \<and>
    (\<forall>i x. ev = SIo (KComplete i x) \<longrightarrow> res = x \<and> x < 0)"
proof -
  obtain w mem where S: "S = (w, mem)" by fastforce
  let ?r = "iw_reactor w" and ?I = "io_inflight (iw_reactor w)"
  have comp: "answered u res r'" if "i < length ?I" "fst (?I ! i) = u" "io_step (KComplete i res) ?r = Inr r'" for i res r'
  proof -
    have r': "r' = ?r\<lparr>io_cq := io_cq ?r @ [(u, res)], io_inflight := take i ?I @ drop (Suc i) ?I\<rparr>" using that by auto
    have "map fst ?I = map fst (take i ?I) @ u # map fst (drop (Suc i) ?I)"
      using arg_cong[OF id_take_nth_drop[OF that(1)], of "map fst"] that(2) by simp
    moreover have "distinct (under_way ?r)" using ok by (simp add: sock_ok_def ring_ok_def S)
    ultimately have "u \<notin> fst ` set (io_sq ?r @ take i ?I @ drop (Suc i) ?I)" and cq: "u \<notin> fst ` set (io_cq ?r)" by auto
    moreover have "x = res" if "(u, x) \<in> set (io_cq ?r @ [(u, res)])" for x
    proof -
      have "(u, x) \<notin> set (io_cq ?r)" using cq by (metis fst_conv image_eqI)
      with that show ?thesis by simp
    qed
    ultimately show ?thesis unfolding r' answered_def entries_def by simp
  qed
  have recv: "\<exists>fd. snd (?I ! i) = SqeRecvMsg fd (mg_storage f)" if "i < length ?I" "fst (?I ! i) = u" for i
  proof -
    have "(u, snd (?I ! i)) \<in> set (entries ?r)" using nth_mem[OF that(1)] that(2) unfolding entries_def by (metis UnCI prod.collapse set_append)
    with u show ?thesis by (auto simp: under_recv_def entry_known_def S)
  qed
  from step[unfolded S] show ?thesis
  proof cases
    case (Io op r)
    then obtain i x where op: "op = KComplete i x" "i < length ?I" "fst (?I ! i) = u"
      using ans by (auto simp: answers_def S split: io_op.splits)
    then have "x < 0" using Io(4) recv[of i] Io by (auto simp: plain_io_def)
    with Io op comp[OF op(2,3)] show ?thesis by auto
  next
    case (Datagram i fd b d sa n w' mem' r)
    have i: "i < length ?I" "fst (?I ! i) = u" using ans Datagram(1) by (simp_all add: answers_def S)
    with recv Datagram(4) have b: "b = mg_storage f" by fastforce
    from u obtain st where st: "iw_boxes w b = Some (SocketBox st)" "ms_iov_base st = fst buf" "ms_iov_len st = snd buf"
      by (auto simp: under_recv_def buffer_lent_def S b)
    then have fill: "n = min (snd buf) (length d)" "w' = w\<lparr>iw_boxes := (iw_boxes w)(b \<mapsto> SocketBox (st\<lparr>ms_sockaddr := sa\<rparr>))\<rparr>"
      "mem' = write_bytes (fst buf) (take (snd buf) d) mem"
      using Datagram(5) by (auto simp: kernel_fill_def Let_def min.commute)
    have "answered u (int n) r" using comp[OF i, of "int n" r] Datagram(6) by (simp add: fill(2))
    moreover have "filled (mg_storage f) buf (take (snd buf) d) sa S'"
      using read_write_same[of "fst buf" "take (snd buf) d" mem] by (simp add: Datagram(2) filled_def fill b)
    ultimately show ?thesis using Datagram(1,2) fill(1) by auto
  qed (use ans in \<open>simp_all add: answers_def\<close>)
qed

text \<open>The poll of the reactor that reads the completion puts the result in the future's cell.\<close>

lemma answer_read:
  assumes ok: "sock_ok m (w, mem)" and u: "under_recv u f buf (w, mem)" and a: "answered u res (iw_reactor w)"
    and unread: "u \<in> fst ` set (io_cq (iw_reactor w))" and poll: "poll_submit_and_completions t ok' (iw_reactor w) = Inr r"
  shows "io_handles r (mg_handle f) = \<lparr>hs_waker = None, hs_result = Some (io_result res)\<rparr>"
proof -
  have ring: "ring_ok m (iw_reactor w)" using ok by (simp add: sock_ok_def)
  from unread obtain x where "(u, x) \<in> set (io_cq (iw_reactor w))" by (metis imageE prod.collapse)
  with a have cq: "(u, res) \<in> set (io_cq (iw_reactor w))" unfolding answered_def by blast
  have "u \<in> set (under_way (iw_reactor w))" using unread by simp
  then have "u \<in> fst ` set (io_completions (iw_reactor w))" using ring unfolding ring_ok_def by blast
  then obtain c where "map_of (io_completions (iw_reactor w)) u = Some c" by (metis map_of_eq_None_iff option.exhaust)
  then have "map_of (io_completions (iw_reactor w)) u = Some (mg_handle f)"
    using u by (simp add: under_recv_def entry_known_def own_cell_def)
  from reactor_poll_ring(3)[OF ring poll this cq] show ?thesis .
qed

text \<open>
  C30 (functional). A receive that is polled when it is made gets its datagram. Take a reactor built by the builder and any history of
  the program: sends, receives and other operations, awaited, pushed and not polled, or dropped, polls of the reactor, and the kernel. A receive is
  then made into a buffer that no live message has, and polled: it waits. Whatever happens next, as long as the future is not dropped and its
  exclusive borrow of the buffer is respected, let the kernel answer it, with a datagram or with an error, and let anything
  happen until the completion is read. If the poll of the reactor that reads it returns, the next poll of the future
  is ready with the number of bytes and the sender of the datagram, with \<open>InvalidData\<close> for a sender that is not of IPv4, or with the error; and
  the buffer starts with the bytes of the datagram, as many as it holds. The poll of the reactor does return when every
  completion it finds is of an operation that has been polled; otherwise it panics.
\<close>

theorem recv_from_gets_datagram:
  assumes built: "io_build sys create env taken now b = Inr (r0 :: ('w, sqe) io_reactor, al)"
    and before: "sock_run ops (sock_new r0 al mem0) (w, mem)"
    and recv: "recv_from s buf w = Inr (f, w1)" and poll: "udp_recv_poll k f w1 = Inr (p, w2)"
    and buf: "\<forall>b st. iw_boxes w b = Some (SocketBox st) \<longrightarrow> apart_bufs (ms_iov_base st, ms_iov_len st) buf"
    and waiting: "sock_run ops1 (w2, mem) S3" "list_all (spares f buf) ops1"
    and kernel: "sock_step ev S3 S4" "answers (io_counter (iw_reactor w)) ev (iw_reactor (fst S3))"
    and after: "sock_run ops2 S4 (w5, mem5)" "list_all (spares f buf) ops2"
    and unread: "io_counter (iw_reactor w) \<in> fst ` set (io_cq (iw_reactor w5))"
    and bound: "length ops + length ops1 + length ops2 + 3 < 2 ^ 64"
  shows "p = Pending \<and> (\<exists>v. recv_answer (snd buf) ev = Some v \<and>
    (\<forall>t ok r k'. poll_submit_and_completions t ok (iw_reactor w5) = Inr r \<longrightarrow>
      (\<exists>w6. udp_recv_poll k' f (w5\<lparr>iw_reactor := r\<rparr>) = Inr (Ready v, w6))) \<and>
    (\<forall>i d sa. ev = KRecv i d sa \<longrightarrow> read_bytes (fst buf) (min (snd buf) (length d)) mem5 = take (snd buf) d) \<and>
    (\<forall>t. (\<forall>ud \<in> fst ` set (io_cq (iw_reactor w5)). hs_waker (io_handles (iw_reactor w5) (cqe_cell (iw_reactor w5) ud)) \<noteq> None) \<longrightarrow>
      (\<exists>r. poll_submit_and_completions t True (iw_reactor w5) = Inr r)))"
proof -
  let ?u = "io_counter (iw_reactor w)"
  from sock_run_keeps[OF before sock_ok_built[OF built]] bound obtain m where m: "m \<le> length ops" "sock_ok m (w, mem)" by auto
  have "Suc m < 2 ^ 64" using m(1) bound by simp
  from recv_starts[OF m(2) this recv buf poll] have pend: "p = Pending" and s2: "sock_ok (Suc m) (w2, mem)" "under_recv ?u f buf (w2, mem)" by simp_all
  have "Suc m + length ops1 < 2 ^ 64" using m(1) bound by simp
  from sock_run_keeps[OF waiting(1) s2(1) this] s2(2) waiting(2) obtain m3 where
    m3: "m3 \<le> Suc m + length ops1" "sock_ok m3 S3" "under_recv ?u f buf S3" by blast
  from kernel_answers[OF m3(2,3) kernel] obtain res v where v: "recv_answer (snd buf) ev = Some v" "answered ?u res (iw_reactor (fst S4))"
    "\<forall>i d sa. ev = KRecv i d sa \<longrightarrow> filled (mg_storage f) buf (take (snd buf) d) sa S4 \<and> res = int (min (snd buf) (length d))"
    "\<forall>i x. ev = SIo (KComplete i x) \<longrightarrow> res = x \<and> x < 0" by blast
  have sp: "spares f buf ev" using kernel(2) by (auto simp: answers_def spares_def split: sock_op.splits)
  have "Suc m3 < 2 ^ 64" using m3(1) m(1) bound by simp
  from sock_step_keeps[OF kernel(1) m3(2) this] m3(3) sp obtain m4 where
    m4: "m4 \<le> Suc m3" "sock_ok m4 S4" "under_recv ?u f buf S4" unfolding sock_keeps_def by blast
  have "m4 + length ops2 < 2 ^ 64" using m4(1) m3(1) m(1) bound by simp
  from sock_run_keeps[OF after(1) m4(2) this, unfolded fst_conv] m4(3) after(2) v(2) obtain m5 where
    s5: "sock_ok m5 (w5, mem5)" "under_recv ?u f buf (w5, mem5)" "answered ?u res (iw_reactor w5)"
    "\<forall>bs sa. filled (mg_storage f) buf bs sa S4 \<longrightarrow> filled (mg_storage f) buf bs sa (w5, mem5)" by blast
  have deliver: "\<exists>w6. udp_recv_poll k' f (w5\<lparr>iw_reactor := r\<rparr>) = Inr (Ready v, w6)"
    if "poll_submit_and_completions t ok r' = Inr r" "r' = iw_reactor w5" for t ok r r' k'
  proof -
    have h: "io_handles r (mg_handle f) = \<lparr>hs_waker = None, hs_result = Some (io_result res)\<rparr>"
      by (rule answer_read[OF s5(1-3) unread that(1)[unfolded that(2)]])
    show ?thesis
    proof (cases "\<exists>i d sa. ev = KRecv i d sa")
      case True
      then obtain i d sa where ev: "ev = KRecv i d sa" by blast
      with v(3) s5(4) have "filled (mg_storage f) buf (take (snd buf) d) sa (w5, mem5)" "res = int (min (snd buf) (length d))" by blast+
      with h v(1) ev show ?thesis
        by (auto simp: udp_recv_poll_def wait_poll_def io_result_def recv_result_def filled_def)
    next
      case False
      then obtain i x where "ev = SIo (KComplete i x)" using kernel(2) by (auto simp: answers_def split: sock_op.splits io_op.splits)
      with v(1,4) h show ?thesis by (auto simp: udp_recv_poll_def wait_poll_def io_result_def)
    qed
  qed
  have bytes: "read_bytes (fst buf) (min (snd buf) (length d)) mem5 = take (snd buf) d" if "ev = KRecv i d sa" for i d sa
  proof -
    have "filled (mg_storage f) buf (take (snd buf) d) sa (w5, mem5)" using v(3) s5(4) that by blast
    then show ?thesis by (simp add: filled_def min.commute)
  qed
  have "ring_ok m5 (iw_reactor w5)" using s5(1) by (simp add: sock_ok_def)
  from reactor_poll_runs[OF this] show ?thesis using pend v(1) deliver bytes by blast
qed

text \<open>A send that is polled when it is made gets the kernel's result, under the same histories.\<close>

lemma send_to_result:
  assumes ok: "sock_ok m (w, mem)" and m: "Suc m + length ops < 2 ^ 64" and send: "send_to s buf peer w = Inr (f, w1)"
    and poll: "udp_send_poll k f w1 = (p, w2)" and run: "sock_run ops (w2, mem) (w3, mem3)"
    and cq: "(io_counter (iw_reactor w), res) \<in> set (io_cq (iw_reactor w3))"
    and reactor: "poll_submit_and_completions t True (iw_reactor w3) = Inr r"
  shows "p = Pending \<and> (\<exists>w4. udp_send_poll k' f (w3\<lparr>iw_reactor := r\<rparr>) =
    (Ready (if res < 0 then Inl (OsError (- res)) else Inr (nat res)), w4))"
proof -
  let ?u = "io_counter (iw_reactor w)"
  have m1: "Suc m < 2 ^ 64" using m by simp
  have "sock_ok (Suc m) (w1, mem)"
    using call_keeps[OF ok m1 send[unfolded send_to_def], of "SSend s buf peer"] by (simp add: spares_def)
  obtain r1 where r1: "push_sqe (SqeSendMsg (us_fd s) (iw_next_box w)) (iw_reactor w) = Inr (mg_handle f, r1)" "iw_reactor w1 = r1"
    using send[unfolded send_to_def] by (rule push_msg_cases) simp
  have ring: "ring_ok m (iw_reactor w)" using ok by (simp add: sock_ok_def)
  note q = ring_push[OF ring m1 r1(1)]
  obtain h where w2: "p = Pending" "w2 = w1\<lparr>iw_reactor := r1\<lparr>io_handles := h\<rparr>\<rparr>"
    using poll q(6) r1(2) by (auto simp: udp_send_poll_def wait_poll_def handle_state_new_def)
  have ok2: "sock_ok (Suc m) (w2, mem)" using \<open>sock_ok (Suc m) (w1, mem)\<close>
    by (simp add: sock_ok_def w2(2) r1(2) boxes_below_def entries_def)
  have "map_of (io_completions (iw_reactor w)) ?u = None" using q(7) by (simp only: map_of_eq_None_iff not_False_eq_True)
  then have "own_cell ?u (mg_handle f) (iw_reactor w2)" using q(2,5) by (simp add: own_cell_def w2(2) map_add_def)
  with sock_run_keeps[OF run ok2 m] obtain m3 where m3: "sock_ok m3 (w3, mem3)" "own_cell ?u (mg_handle f) (iw_reactor w3)" by auto
  have ring3: "ring_ok m3 (iw_reactor w3)" using m3(1) by (simp add: sock_ok_def)
  have "?u \<in> set (under_way (iw_reactor w3))" using cq by force
  then have "?u \<in> fst ` set (io_completions (iw_reactor w3))" using ring3 unfolding ring_ok_def by blast
  then obtain c where "map_of (io_completions (iw_reactor w3)) ?u = Some c" by (metis map_of_eq_None_iff option.exhaust)
  then have "map_of (io_completions (iw_reactor w3)) ?u = Some (mg_handle f)" using m3(2) by (simp add: own_cell_def)
  from reactor_poll_ring(3)[OF ring3 reactor this cq] w2(1) show ?thesis
    by (simp add: udp_send_poll_def wait_poll_def io_result_def)
qed

subsection \<open>A future that is not polled\<close>

definition no_poll_of :: "nat \<Rightarrow> ('w, 'e) io_op \<Rightarrow> bool" where
  "no_poll_of c op = (case op of IRepoll cell _ \<Rightarrow> cell \<noteq> c | _ \<Rightarrow> True)"

definition not_polled :: "nat \<Rightarrow> 'w sock_op \<Rightarrow> bool" where
  "not_polled c op = (case op of SIo op \<Rightarrow> no_poll_of c op | _ \<Rightarrow> True)"

text \<open>The entry is under way and its cell has no waker; \<open>n\<close> operations were pushed since.\<close>

definition unpolled :: "u64 \<Rightarrow> nat \<Rightarrow> nat \<Rightarrow> ('w, 'e) io_reactor \<Rightarrow> bool" where
  "unpolled u c n r \<longleftrightarrow> map_of (io_completions r) u = Some c \<and> hs_waker (io_handles r c) = None \<and> c < io_next_cell r \<and>
     io_counter r = u + 1 + of_nat n"

lemma handle_cqe_unpolled:
  assumes "handle_cqe cqe r = Inr r'" "unpolled u c n r"
  shows "unpolled u c n r' \<and> fst cqe \<noteq> u"
proof -
  obtain ud res where cqe: "cqe = (ud, res)" by fastforce
  then obtain cell k where ck: "map_of (io_completions r) ud = Some cell" "hs_waker (io_handles r cell) = Some k"
    using assms(1) by (auto simp: handle_cqe_def Let_def split: option.splits)
  with assms(2) have "cell \<noteq> c" "ud \<noteq> u" by (auto simp: unpolled_def)
  with ck assms cqe show ?thesis by (auto simp: handle_cqe_def unpolled_def delete_conv')
qed

lemma handle_cqes_unpolled:
  "handle_cqes cqs r = Inr r' \<Longrightarrow> unpolled u c n r \<Longrightarrow> unpolled u c n r' \<and> u \<notin> fst ` set cqs"
proof (induction cqs arbitrary: r)
  case (Cons cqe cqs)
  then obtain r1 where r1: "handle_cqe cqe r = Inr r1" "handle_cqes cqs r1 = Inr r'" by (auto simp: run_simps)
  from handle_cqe_unpolled[OF r1(1) Cons.prems(2)] Cons.IH[OF r1(2)] show ?case by auto
qed simp

lemma poll_submit_unpolled:
  assumes "poll_submit now ok r = Inr r1"
  shows "unpolled u c n (r1\<lparr>io_cq := []\<rparr>) = unpolled u c n r" "io_cq r1 = io_cq r"
  using assms by (auto simp: unpolled_def poll_submit_def ring_submit_def run_simps Let_def split: if_splits option.splits)

lemma poll_unpolled:
  assumes "poll_submit_and_completions now ok r = Inr r'" "unpolled u c n r"
  shows "unpolled u c n r' \<and> u \<notin> fst ` set (io_cq r)"
proof -
  obtain r1 where r1: "poll_submit now ok r = Inr r1" "handle_cqes (io_cq r1) (r1\<lparr>io_cq := []\<rparr>) = Inr r'"
    using assms(1) by (auto simp: poll_submit_and_completions_def run_simps)
  from handle_cqes_unpolled[OF r1(2)] show ?thesis using poll_submit_unpolled[OF r1(1)] assms(2) by simp
qed

lemma u64_of_nat_zero_iff: "n < 2 ^ 64 \<Longrightarrow> (of_nat n :: u64) = 0 \<longleftrightarrow> n = 0"
  by (auto simp: word_of_nat_eq_0_iff dest: dvd_imp_le)

lemma push_unpolled: "push_sqe e r = Inr (c, r1) \<Longrightarrow> unpolled (io_counter r) c 0 r1"
  by (clarsimp simp: push_sqe_def Let_def split: if_splits) (simp add: unpolled_def handle_state_new_def update_conv')

lemma push_keeps_unpolled:
  assumes push: "push_sqe e r = Inr (cell, r1)" and n: "Suc n < 2 ^ 64" and un: "unpolled u c n r"
  shows "unpolled u c (Suc n) r1"
proof -
  have "io_counter r - u = of_nat (Suc n)" using un by (simp add: unpolled_def)
  then have "io_counter r \<noteq> u" using u64_of_nat_zero_iff[OF n] by auto
  with push un show ?thesis by (auto simp: push_sqe_def unpolled_def handle_state_new_def update_conv' Let_def split: if_splits)
qed

lemma step_unpolled:
  assumes step: "io_step op r = Inr r'" and op: "no_poll_of c op" and n: "Suc n < 2 ^ 64" and un: "unpolled u c n r"
  shows "\<exists>n' \<le> Suc n. unpolled u c n' r'"
proof (cases op)
  case (IAwait e k)
  with step obtain cell r1 where r1: "push_sqe e r = Inr (cell, r1)" "r' = snd (wait_poll k cell r1)" by (auto simp: run_simps)
  have c: "cell \<noteq> c" using r1(1) un by (auto simp: push_sqe_def unpolled_def Let_def split: if_splits)
  from push_keeps_unpolled[OF r1(1) n un] c r1(2) have "unpolled u c (Suc n) r'"
    by (auto simp: wait_poll_def unpolled_def Let_def split: option.splits)
  then show ?thesis by blast
next
  case (IRepoll cell k)
  then have "unpolled u c n r'" using step op un by (auto simp: no_poll_of_def wait_poll_def unpolled_def Let_def split: option.splits)
  then show ?thesis by (intro exI[of _ n]) simp
next
  case (IReactor now ok)
  then show ?thesis using poll_unpolled[OF _ un, of now ok r'] step by (intro exI[of _ n]) simp
qed (use step un in \<open>auto simp: unpolled_def intro!: exI[of _ n] split: if_splits\<close>)

lemma sock_step_unpolled:
  assumes step: "sock_step op S S'" and op: "not_polled c op" and n: "Suc n < 2 ^ 64" and un: "unpolled u c n (iw_reactor (fst S))"
  shows "\<exists>n' \<le> Suc n. unpolled u c n' (iw_reactor (fst S'))"
proof -
  have push: "unpolled u c (Suc n) (iw_reactor w')" if "push_msg st mk w = Inr (f, w')" "fst S = w" for st mk f w w'
  proof -
    from that(1) obtain r where "push_sqe (mk (iw_next_box w)) (iw_reactor w) = Inr (mg_handle f, r)" "iw_reactor w' = r"
      by (rule push_msg_cases) simp
    with push_keeps_unpolled[OF _ n] un that(2) show ?thesis by auto
  qed
  from step show ?thesis
  proof cases
    case (Send s buf peer w f w' mem)
    with push[OF Send(4)[unfolded send_to_def]] show ?thesis by auto
  next
    case (Recv s buf w f w' mem)
    with push[OF Recv(4)[unfolded recv_from_def]] show ?thesis by auto
  next
    case (Io op' w r mem)
    with step_unpolled[OF Io(5) _ n] op un show ?thesis by (simp add: not_polled_def)
  next
    case (Datagram i w fd b d sa mem m w' mem' r)
    then have "iw_reactor w' = iw_reactor w" by (auto simp: kernel_fill_def Let_def split: option.splits storage.splits)
    with Datagram step_unpolled[OF Datagram(7) _ n] un show ?thesis by (simp add: no_poll_of_def)
  qed (use un in \<open>auto simp: msg_drop_def free_box_def new_box_def intro!: exI[of _ n]\<close>)
qed

lemma run_unpolled:
  "sock_run ops S S' \<Longrightarrow> list_all (not_polled c) ops \<Longrightarrow> n + length ops < 2 ^ 64 \<Longrightarrow> unpolled u c n (iw_reactor (fst S)) \<Longrightarrow>
    \<exists>n'. unpolled u c n' (iw_reactor (fst S'))"
proof (induction arbitrary: n rule: sock_run.induct)
  case (More op S S1 ops S2)
  have "not_polled c op" "Suc n < 2 ^ 64" using More.prems(1,2) by simp_all
  from sock_step_unpolled[OF More.hyps(1) this More.prems(3)] obtain n1 where n1: "n1 \<le> Suc n" "unpolled u c n1 (iw_reactor (fst S1))" by blast
  have "list_all (not_polled c) ops" "n1 + length ops < 2 ^ 64" using n1(1) More.prems(1,2) by simp_all
  from More.IH[OF this n1(2)] show ?case .
qed auto

lemma handle_cqes_fails: "handle_cqes cqs r = Inl e \<Longrightarrow> \<exists>msg. e = Panic msg"
  by (induction cqs arbitrary: r) (auto simp: handle_cqe_def run_simps Let_def split: prod.splits option.splits sum.splits)

text \<open>
  The entry of a message is submitted when \<open>send_to\<close> or \<open>recv_from\<close> is called, not when its future is first
  polled: if the completion is there before the first poll of the future, the next poll of the
  reactor panics, whatever else the program and the kernel did in between.
\<close>

theorem unpolled_message_panics:
  assumes call: "send_to s buf peer w = Inr (f, w1) \<or> recv_from s buf w = Inr (f, w1)"
    and run: "sock_run ops (w1, mem) (w2, mem2)" "list_all (not_polled (mg_handle f)) ops" "length ops < 2 ^ 64"
    and cq: "(io_counter (iw_reactor w), res) \<in> set (io_cq (iw_reactor w2))"
  shows "\<exists>msg. poll_submit_and_completions t ok (iw_reactor w2) = Inl (Panic msg)"
proof -
  obtain st mk where "push_msg st mk w = Inr (f, w1)" using call by (auto simp: send_to_def recv_from_def)
  then obtain r1 where r1: "push_sqe (mk (iw_next_box w)) (iw_reactor w) = Inr (mg_handle f, r1)" "iw_reactor w1 = r1"
    by (rule push_msg_cases) simp
  have "unpolled (io_counter (iw_reactor w)) (mg_handle f) 0 (iw_reactor (fst (w1, mem)))"
    using push_unpolled[OF r1(1)] r1(2) by simp
  from run_unpolled[OF run(1,2) _ this] run(3) obtain n where un: "unpolled (io_counter (iw_reactor w)) (mg_handle f) n (iw_reactor w2)" by auto
  show ?thesis
  proof (cases "poll_submit_and_completions t ok (iw_reactor w2)")
    case (Inl e)
    then show ?thesis using handle_cqes_fails
      by (fastforce simp: poll_submit_and_completions_def poll_submit_def ring_submit_def run_simps Let_def split: if_splits option.splits sum.splits)
  next
    case (Inr r')
    from poll_unpolled[OF this un] cq show ?thesis by force
  qed
qed

subsection \<open>A future that is dropped\<close>

text \<open>
  The future owns the memory of its message. Dropped while the entry is queued or with the kernel, it frees the
  header the kernel still writes to: nothing cancels the entry.
\<close>

theorem dropped_recv_frees_header:
  assumes recv: "recv_from s buf w = Inr (f, w1)"
  shows "(io_counter (iw_reactor w), SqeRecvMsg (us_fd s) (mg_storage f)) \<in> set (entries (iw_reactor (msg_drop f w1))) \<and>
    kernel_fill (mg_storage f) d sa (msg_drop f w1, mem) = Inl (UB ''the kernel writes to freed memory'') \<and>
    (\<exists>x. kernel_fill (mg_storage f) d sa (w1, mem) = Inr x)"
proof -
  obtain r where r: "push_sqe (SqeRecvMsg (us_fd s) (iw_next_box w)) (iw_reactor w) = Inr (mg_handle f, r)" "mg_storage f = iw_next_box w"
    and w1: "iw_reactor w1 = r" "\<exists>st. iw_boxes w1 (mg_storage f) = Some (SocketBox st)"
    by (rule push_msg_cases[OF recv[unfolded recv_from_def]]) auto
  have "(io_counter (iw_reactor w), SqeRecvMsg (us_fd s) (mg_storage f)) \<in> set (entries r)"
    using r by (auto simp: push_sqe_def entries_def Let_def split: if_splits)
  then show ?thesis using w1 by (auto simp: msg_drop_def free_box_def kernel_fill_def Let_def)
qed

subsection \<open>Runs\<close>

definition demo_sock :: "string sock_world" where
  "demo_sock = \<lparr>iw_reactor = demo_uring, iw_alloc = demo_pool, iw_boxes = \<lambda>_. None, iw_next_box = 0\<rparr>"

definition demo_peer :: socket_addr_v4 where
  "demo_peer = \<lparr>sa_ip = (127, 0, 0, 1), sa_port = 8080\<rparr>"

definition demo_udp :: udp_socket where
  "demo_udp = \<lparr>us_fd = 5, us_local = demo_peer\<rparr>"

lemmas sock_run_simps = demo_sock_def demo_uring_def recv_from_def send_to_def push_msg_def new_box_def push_sqe_def udp_recv_poll_def
  wait_poll_def handle_state_new_def kernel_fill_def poll_submit_and_completions_def poll_submit_def ring_submit_def demo_udp_def Let_def

text \<open>
  A send that is never polled, then a receive: both are submitted, the kernel completes the receive first.
\<close>

theorem recv_from_gets_datagram_witness:
  "\<exists>w mem f w1 w2 S3 w5 mem5 r w6.
     sock_run [SSend demo_udp (0, 4) demo_peer] (sock_new demo_uring demo_pool (\<lambda>_. 0)) (w, mem) \<and>
     recv_from demo_udp (8192, 64) w = Inr (f, w1) \<and> udp_recv_poll ''a'' f w1 = Inr (Pending, w2) \<and>
     sock_run [SIo (IReactor 1 True)] (w2, mem) S3 \<and> sock_step (KRecv 1 [1, 2, 3] (sockaddr_in_from_v4 demo_peer)) S3 (w5, mem5) \<and>
     poll_submit_and_completions 2 True (iw_reactor w5) = Inr r \<and>
     udp_recv_poll ''a'' f (w5\<lparr>iw_reactor := r\<rparr>) = Inr (Ready (Inr (3, demo_peer)), w6) \<and> read_bytes 8192 3 mem5 = [1, 2, 3]"
proof -
  let ?sa = "sockaddr_in_from_v4 demo_peer" and ?d = "[1, 2, 3] :: u8 list"
  let ?mem = "(\<lambda>_. 0) :: memory" and ?w0 = "fst (sock_new demo_uring demo_pool (\<lambda>_. 0))"
  obtain g w f w1 p w2 r3 n w4 mem5 r5 where
    send: "send_to demo_udp (0, 4) demo_peer ?w0 = Inr (g, w)" and
    recv: "recv_from demo_udp (8192, 64) w = Inr (f, w1)" and poll: "udp_recv_poll ''a'' f w1 = Inr (p, w2)" and
    buf: "\<forall>b st. iw_boxes w b = Some (SocketBox st) \<longrightarrow> apart_bufs (ms_iov_base st, ms_iov_len st) (8192, 64)" and
    io: "io_step (IReactor 1 True) (iw_reactor w2) = Inr r3" and
    inf: "1 < length (io_inflight r3)" "io_inflight r3 ! 1 = (io_counter (iw_reactor w), SqeRecvMsg 5 1)" and
    fill: "kernel_fill 1 ?d ?sa (w2\<lparr>iw_reactor := r3\<rparr>, ?mem) = Inr (n, w4, mem5)" and
    comp: "io_step (KComplete 1 (int n)) (iw_reactor w4) = Inr r5" and
    cq: "fst ` set (io_cq r5) = {io_counter (iw_reactor w)}" "hs_waker (io_handles r5 (cqe_cell r5 (io_counter (iw_reactor w)))) \<noteq> None"
    by (simp add: sock_run_simps sock_new_def apart_bufs_def cqe_cell_def)
  let ?w5 = "w4\<lparr>iw_reactor := r5\<rparr>"
  have before: "sock_run [SSend demo_udp (0, 4) demo_peer] (sock_new demo_uring demo_pool ?mem) (w, ?mem)"
    using sock_run.More[OF sock_step.Send[OF send] sock_run.Done] by (simp add: sock_new_def)
  have waiting: "sock_run [SIo (IReactor 1 True)] (w2, ?mem) (w2\<lparr>iw_reactor := r3\<rparr>, ?mem)"
    by (rule sock_run.More[OF sock_step.Io[OF _ io] sock_run.Done]) (simp add: plain_io_def)
  have kernel: "sock_step (KRecv 1 ?d ?sa) (w2\<lparr>iw_reactor := r3\<rparr>, ?mem) (?w5, mem5)"
    by (rule sock_step.Datagram[OF _ _ fill comp]) (use inf in simp_all)
  have a: "answers (io_counter (iw_reactor w)) (KRecv 1 ?d ?sa) (iw_reactor (fst (w2\<lparr>iw_reactor := r3\<rparr>, ?mem)))"
    using inf by (simp add: answers_def)
  have sp: "list_all (spares f (8192, 64)) [SIo (IReactor 1 True)]" "list_all (spares f (8192, 64)) []" by (simp_all add: spares_def)
  have unread: "io_counter (iw_reactor w) \<in> fst ` set (io_cq (iw_reactor ?w5))" using cq(1) by simp
  note got = recv_from_gets_datagram[OF demo_uring_built before recv poll buf waiting sp(1) kernel a sock_run.Done sp(2) unread]
  have v: "recv_answer 64 (KRecv 1 ?d ?sa) = Some (Inr (3, demo_peer))" by simp
  have p: "p = Pending" and bytes: "read_bytes 8192 3 mem5 = [1, 2, 3]" using got by (simp_all add: numeral_3_eq_3)
  have "\<exists>r. poll_submit_and_completions 2 True (iw_reactor ?w5) = Inr r" using got cq by simp
  then obtain r where r: "poll_submit_and_completions 2 True (iw_reactor ?w5) = Inr r" by blast
  then have "\<exists>w6. udp_recv_poll ''a'' f (?w5\<lparr>iw_reactor := r\<rparr>) = Inr (Ready (Inr (3, demo_peer)), w6)"
    using got by (simp add: numeral_3_eq_3)
  then obtain w6 where "udp_recv_poll ''a'' f (?w5\<lparr>iw_reactor := r\<rparr>) = Inr (Ready (Inr (3, demo_peer)), w6)" by blast
  then show ?thesis using before recv poll p waiting kernel r bytes by blast
qed

theorem unpolled_message_panics_witness:
  "\<exists>f w1 r msg. send_to demo_udp (8192, 64) demo_peer demo_sock = Inr (f, w1) \<and>
     io_run [IReactor 1 True, KComplete 0 64] (iw_reactor w1) = Inr r \<and> poll_submit_and_completions 2 True r = Inl (Panic msg)"
proof -
  let ?mem = "(\<lambda>_. 0) :: memory"
  obtain f w1 r1 r where r: "send_to demo_udp (8192, 64) demo_peer demo_sock = Inr (f, w1)" "io_step (IReactor 1 True) (iw_reactor w1) = Inr r1"
    "io_step (KComplete 0 64) r1 = Inr r" "plain_io (KComplete 0 64) r1" "(io_counter (iw_reactor demo_sock), 64) \<in> set (io_cq r)"
    by (simp add: sock_run_simps plain_io_def)
  have "sock_run [SIo (IReactor 1 True), SIo (KComplete 0 64)] (w1, ?mem) (w1\<lparr>iw_reactor := r1\<rparr>\<lparr>iw_reactor := r\<rparr>, ?mem)"
    by (rule sock_run.More[OF sock_step.Io[OF _ r(2)] sock_run.More[OF sock_step.Io sock_run.Done]]) (use r in \<open>simp_all add: plain_io_def\<close>)
  from unpolled_message_panics[OF disjI1[OF r(1)] this, of 64 2 True] r show ?thesis
    by (auto simp: not_polled_def no_poll_of_def)
qed

theorem dropped_recv_frees_header_witness:
  "\<exists>f w1. recv_from demo_udp (8192, 64) demo_sock = Inr (f, w1) \<and>
     kernel_fill 0 [1] (sockaddr_in_from_v4 demo_peer) (msg_drop f w1, \<lambda>_. 0) = Inl (UB ''the kernel writes to freed memory'')"
proof -
  obtain f w1 where r: "recv_from demo_udp (8192, 64) demo_sock = Inr (f, w1)" "mg_storage f = 0" by (simp add: sock_run_simps)
  with dropped_recv_frees_header[OF r(1), of "[1]" "sockaddr_in_from_v4 demo_peer" "\<lambda>_. 0"] show ?thesis by auto
qed

end
