(* ===== verification/Uring_Local.thy ===== *)
theory Uring_Local
  imports Uring_Socket
begin

section \<open>The reactor of a thread (\<open>pluvio_uring/src\<close>: \<open>reactor.rs\<close>, \<open>builder.rs\<close>, \<open>file.rs\<close>, \<open>socket.rs\<close>)\<close>

text \<open>
  Each thread has a \<open>OnceCell\<close> with its reactor. \<open>IoUringReactorBuilder::build\<close> creates a reactor and puts it
  into the cell; \<open>IoUringReactor::get_or_init\<close> takes the one in the cell, or builds it. The calls that take no
  reactor (\<open>DmaFile::new\<close>, \<open>open\<close>, \<open>statx_path\<close>, \<open>UdpSocket::bind\<close>, \<open>register_file\<close>) go through \<open>get_or_init\<close>. An
  \<open>Rc\<close> is the address of a reactor in the store; a panic may be caught, so the state after it is a result too.
\<close>

declare map_of_eq_Some_iff [simp del]

subsection \<open>State\<close>

text \<open>
  The reactors of the thread with their pools by address, the cell, the descriptors registered with each ring,
  and the open descriptors. \<open>ring_sys\<close> is what the system answers while a reactor is built.
\<close>

record 'w local_world =
  lw_rings :: "nat \<Rightarrow> (('w, sqe) io_reactor \<times> 'w allocator) option"
  lw_next :: nat
  lw_cell :: "nat option"
  lw_registered :: "nat \<Rightarrow> int list"
  lw_fds :: "int list"

record ring_sys =
  rs_system :: system
  rs_create :: "nat option"
  rs_env :: "string option"
  rs_now :: nat

definition thread_start :: "int list \<Rightarrow> 'w local_world" where
  "thread_start fds = \<lparr>lw_rings = \<lambda>_. None, lw_next = 0, lw_cell = None, lw_registered = \<lambda>_. [], lw_fds = fds\<rparr>"

subsection \<open>Operations\<close>

abbreviation set_cell :: "nat \<Rightarrow> 'w local_world \<Rightarrow> 'w local_world" where
  "set_cell rc w \<equiv> w\<lparr>lw_cell := Some rc\<rparr>"

definition iouring_init :: "nat \<Rightarrow> 'w local_world \<Rightarrow> (string + unit) \<times> 'w local_world" where
  "iouring_init rc w =
     (case cell_set lw_cell set_cell rc w of (res, w) \<Rightarrow>
        (map_sum (\<lambda>_. ''Failed to set IoUringReactor in thread local storage'') id res, w))"

text \<open>The end of \<open>build\<close>; the reactor is dropped when the panic unwinds.\<close>

definition local_build :: "ring_sys \<Rightarrow> io_builder \<Rightarrow> 'w local_world \<Rightarrow> nat run \<times> 'w local_world" where
  "local_build bs b w =
     (case io_build (rs_system bs) (rs_create bs) (rs_env bs) False (rs_now bs) b of
        Inl e \<Rightarrow> (Inl e, w)
      | Inr ring \<Rightarrow>
          (let reactor = lw_next w;
               w = w\<lparr>lw_rings := (lw_rings w)(reactor \<mapsto> ring), lw_next := Suc reactor\<rparr>
           in case iouring_init reactor w of
                (Inl _, w) \<Rightarrow> (Inl (Panic ''Failed to initialize IoUringReactor''), w\<lparr>lw_rings := (lw_rings w)(reactor := None)\<rparr>)
              | (Inr _, w) \<Rightarrow> (Inr reactor, w)))"

definition iouring_new :: "ring_sys \<Rightarrow> 'w local_world \<Rightarrow> nat run \<times> 'w local_world" where
  "iouring_new bs = local_build bs io_builder_default"

definition reactor_get_or_init :: "ring_sys \<Rightarrow> 'w local_world \<Rightarrow> nat run \<times> 'w local_world" where
  "reactor_get_or_init bs = once_get_or_init lw_cell set_cell (local_build bs io_builder_default)"

text \<open>\<open>register_file\<close>: \<open>ok\<close> is the answer of the kernel, which takes one table of descriptors for a ring.\<close>

definition register_file :: "ring_sys \<Rightarrow> bool \<Rightarrow> int \<Rightarrow> 'w local_world \<Rightarrow> unit run \<times> 'w local_world" where
  "register_file bs ok fd w =
     (case reactor_get_or_init bs w of
        (Inl e, w) \<Rightarrow> (Inl e, w)
      | (Inr reactor, w) \<Rightarrow>
          if ok then (Inr (), w\<lparr>lw_registered := (lw_registered w)(reactor := [fd])\<rparr>)
          else (Inl (Panic ''Failed to register file''), w))"

text \<open>A \<open>DmaFile\<close> with its reactor.\<close>

record local_file = dma_file +
  lf_reactor :: nat

definition dma_with_reactor :: "int \<Rightarrow> nat \<Rightarrow> local_file" where
  "dma_with_reactor fd reactor = \<lparr>df_fd = fd, lf_reactor = reactor\<rparr>"

text \<open>\<open>DmaFile::new\<close>: the \<open>File\<close> is closed when the panic unwinds.\<close>

definition dma_file_new :: "ring_sys \<Rightarrow> int \<Rightarrow> 'w local_world \<Rightarrow> local_file run \<times> 'w local_world" where
  "dma_file_new bs fd w =
     (case reactor_get_or_init bs w of
        (Inl e, w) \<Rightarrow> (Inl e, w\<lparr>lw_fds := close_fd fd (lw_fds w)\<rparr>)
      | (Inr reactor, w) \<Rightarrow> (Inr (dma_with_reactor fd reactor), w))"

text \<open>\<open>DmaFile::open\<close> and \<open>statx_path\<close> up to their first await: the call with an explicit reactor.\<close>

definition dma_open :: "ring_sys \<Rightarrow> string \<Rightarrow> int \<Rightarrow> u32 \<Rightarrow> 'w local_world \<Rightarrow> (file_fut \<times> nat) run \<times> 'w local_world" where
  "dma_open bs path flags mode w =
     (case reactor_get_or_init bs w of
        (Inl e, w) \<Rightarrow> (Inl e, w)
      | (Inr reactor, w) \<Rightarrow> (Inr (file_call (ReqOpen path flags mode), reactor), w))"

definition dma_statx_path :: "ring_sys \<Rightarrow> string \<Rightarrow> int \<Rightarrow> u32 \<Rightarrow> 'w local_world \<Rightarrow> (file_fut \<times> nat) run \<times> 'w local_world" where
  "dma_statx_path bs path flags msk w =
     (case reactor_get_or_init bs w of
        (Inl e, w) \<Rightarrow> (Inl e, w)
      | (Inr reactor, w) \<Rightarrow> (Inr (file_call (ReqStatx path flags msk), reactor), w))"

text \<open>\<open>UdpSocket::bind\<close>: the argument \<open>get_or_init()\<close> is evaluated before the socket is created.\<close>

definition udp_bind :: "ring_sys \<Rightarrow> socket_sys \<Rightarrow> socket_addr_v4 \<Rightarrow> 'w local_world \<Rightarrow>
    ((io_error + udp_socket) \<times> nat) run \<times> 'w local_world" where
  "udp_bind bs sys addr w =
     (case reactor_get_or_init bs w of
        (Inl e, w) \<Rightarrow> (Inl e, w)
      | (Inr reactor, w) \<Rightarrow>
          (case bind_with_reactor sys addr (lw_fds w) of (res, fds) \<Rightarrow> (Inr (res, reactor), w\<lparr>lw_fds := fds\<rparr>)))"

subsection \<open>Histories\<close>

text \<open>
  The calls of one thread in any order; a call that panics is caught (\<open>catch_unwind\<close>). \<open>init\<close> can only be
  given a reactor that exists.
\<close>

datatype local_op =
  LBuild ring_sys io_builder | LNew ring_sys | LInit nat | LGet ring_sys | LFile ring_sys int
| LOpen ring_sys string int u32 | LStatx ring_sys string int u32 | LBind ring_sys socket_sys socket_addr_v4
| LRegister ring_sys bool int

datatype local_out =
  LoReactor nat | LoInit "string + unit" | LoFile local_file | LoCall file_fut nat | LoBind "io_error + udp_socket" nat | LoUnit

definition out_map :: "('a \<Rightarrow> local_out) \<Rightarrow> 'a run \<times> 'w local_world \<Rightarrow> local_out run \<times> 'w local_world" where
  "out_map f = map_prod (map_sum id f) id"

fun local_step :: "local_op \<Rightarrow> 'w local_world \<Rightarrow> local_out run \<times> 'w local_world" where
  "local_step (LBuild bs b) w = out_map LoReactor (local_build bs b w)"
| "local_step (LNew bs) w = out_map LoReactor (iouring_new bs w)"
| "local_step (LInit rc) w =
     (if lw_rings w rc = None then (Inr LoUnit, w) else case iouring_init rc w of (res, w) \<Rightarrow> (Inr (LoInit res), w))"
| "local_step (LGet bs) w = out_map LoReactor (reactor_get_or_init bs w)"
| "local_step (LFile bs fd) w = out_map LoFile (dma_file_new bs fd w)"
| "local_step (LOpen bs path flags mode) w = out_map (\<lambda>(f, rc). LoCall f rc) (dma_open bs path flags mode w)"
| "local_step (LStatx bs path flags msk) w = out_map (\<lambda>(f, rc). LoCall f rc) (dma_statx_path bs path flags msk w)"
| "local_step (LBind bs sys addr) w = out_map (\<lambda>(res, rc). LoBind res rc) (udp_bind bs sys addr w)"
| "local_step (LRegister bs ok fd) w = out_map (\<lambda>_. LoUnit) (register_file bs ok fd w)"

fun local_run :: "local_op list \<Rightarrow> 'w local_world \<Rightarrow> local_out run list \<times> 'w local_world" where
  "local_run [] w = ([], w)"
| "local_run (op # ops) w =
     (case local_step op w of (out, w) \<Rightarrow> case local_run ops w of (outs, w) \<Rightarrow> (out # outs, w))"

text \<open>The calls that create a reactor explicitly, and those that go through \<open>get_or_init\<close>.\<close>

fun builds :: "local_op \<Rightarrow> bool" where
  "builds (LBuild _ _) = True" | "builds (LNew _) = True" | "builds _ = False"

fun lazy_op :: "local_op \<Rightarrow> bool" where
  "lazy_op (LBuild _ _) = False" | "lazy_op (LNew _) = False" | "lazy_op (LInit _) = False" | "lazy_op _ = True"

text \<open>The reactor a result refers to.\<close>

fun out_reactor :: "local_out \<Rightarrow> nat option" where
  "out_reactor (LoReactor rc) = Some rc" | "out_reactor (LoFile f) = Some (lf_reactor f)"
| "out_reactor (LoCall _ rc) = Some rc" | "out_reactor (LoBind _ rc) = Some rc"
| "out_reactor (LoInit _) = None" | "out_reactor LoUnit = None"

text \<open>The call put a reactor into the cell.\<close>

definition installs :: "local_op \<Rightarrow> local_out run \<Rightarrow> bool" where
  "installs op out \<longleftrightarrow> (builds op \<and> (\<exists>rc. out = Inr (LoReactor rc))) \<or> (lazy_op op \<and> out = Inl (Panic ''reentrant init''))"

subsection \<open>Single calls\<close>

text \<open>\<open>build\<close> is the builder's model with the cell as its flag.\<close>

lemma local_build_result:
  fixes w :: "'w local_world"
  shows "map_sum id (\<lambda>_. ()) (fst (local_build bs b w)) =
   map_sum id (\<lambda>_. ()) (io_build (rs_system bs) (rs_create bs) (rs_env bs) (lw_cell w \<noteq> None) (rs_now bs) b
     :: (('w, sqe) io_reactor \<times> 'w allocator) run)"
  by (cases "lw_cell w")
    (auto simp: local_build_def io_build_def iouring_init_def cell_set_def run_bind_def Let_def split: option.split sum.split)

lemma local_build_cases:
  fixes w :: "'w local_world"
  assumes "lw_rings w (lw_next w) = None"
  obtains (fails) e where "local_build bs b w = (Inl e, w)"
  | (twice) rc w' where "lw_cell w = Some rc" "local_build bs b w = (Inl (Panic ''Failed to initialize IoUringReactor''), w')"
      "lw_rings w' = lw_rings w" "lw_cell w' = Some rc" "lw_next w' = Suc (lw_next w)"
  | (built) ring where "lw_cell w = None" "local_build bs b w =
      (Inr (lw_next w), w\<lparr>lw_rings := (lw_rings w)(lw_next w \<mapsto> ring), lw_next := Suc (lw_next w), lw_cell := Some (lw_next w)\<rparr>)"
proof (cases "io_build (rs_system bs) (rs_create bs) (rs_env bs) False (rs_now bs) b :: (('w, sqe) io_reactor \<times> 'w allocator) run")
  case (Inl e)
  then show ?thesis by (intro fails) (simp add: local_build_def)
next
  case (Inr ring)
  show ?thesis
  proof (cases "lw_cell w")
    case None
    with Inr show ?thesis by (intro built[of ring]) (simp_all add: local_build_def iouring_init_def cell_set_def Let_def)
  next
    case (Some rc)
    have "(lw_rings w)(lw_next w := None) = lw_rings w" using assms by auto
    with Some Inr show ?thesis
      by (intro twice[OF Some, of "w\<lparr>lw_next := Suc (lw_next w)\<rparr>"]) (simp_all add: local_build_def iouring_init_def cell_set_def Let_def)
  qed
qed

text \<open>
  The store holds the reactor in the cell and no other.
\<close>

definition local_ok :: "'w local_world \<Rightarrow> bool" where
  "local_ok w \<longleftrightarrow> dom (lw_rings w) = set_option (lw_cell w) \<and> (\<forall>rc \<in> dom (lw_rings w). rc < lw_next w)"

lemma local_ok_start [simp]: "local_ok (thread_start fds)"
  by (simp add: local_ok_def thread_start_def)

lemma local_ok_fresh: "local_ok w \<Longrightarrow> lw_rings w (lw_next w) = None"
  by (metis local_ok_def domIff less_irrefl)

lemma get_or_init_cases:
  assumes ok: "local_ok w"
  obtains (present) rc where "lw_cell w = Some rc" "reactor_get_or_init bs w = (Inr rc, w)"
  | (fails) e where "lw_cell w = None" "reactor_get_or_init bs w = (Inl e, w)"
  | (reentrant) w' where "lw_cell w = None" "reactor_get_or_init bs w = (Inl (Panic ''reentrant init''), w')"
      "local_ok w'" "lw_cell w' = Some (lw_next w)" "lw_registered w' = lw_registered w" "lw_fds w' = lw_fds w"
proof (cases "lw_cell w")
  case (Some rc)
  then show ?thesis by (intro present) (simp_all add: reactor_get_or_init_def once_get_or_init_def)
next
  case None
  with ok have empty: "lw_rings w = Map.empty" by (simp add: local_ok_def)
  from local_ok_fresh[OF ok] show ?thesis
  proof (cases rule: local_build_cases[where bs = bs and b = io_builder_default])
    case (fails e)
    with None that(2) show ?thesis by (simp add: reactor_get_or_init_def once_get_or_init_def)
  next
    case (twice rc w')
    with None show ?thesis by simp
  next
    case (built ring)
    let ?w = "w\<lparr>lw_rings := (lw_rings w)(lw_next w \<mapsto> ring), lw_next := Suc (lw_next w), lw_cell := Some (lw_next w)\<rparr>"
    have "local_ok ?w" using empty by (simp add: local_ok_def)
    with built show ?thesis
      by (intro reentrant[of ?w]) (simp_all add: reactor_get_or_init_def once_get_or_init_def cell_set_def)
  qed
qed

text \<open>What a call does to the cell, and how the cell shows in its result.\<close>

definition step_ok :: "local_op \<Rightarrow> local_out run \<Rightarrow> 'w local_world \<Rightarrow> 'w local_world \<Rightarrow> bool" where
  "step_ok op out w w' \<longleftrightarrow> local_ok w' \<and>
     (\<forall>rc. lw_cell w = Some rc \<longrightarrow> lw_cell w' = Some rc) \<and>
     (lw_cell w = None \<and> lw_cell w' \<noteq> None \<longrightarrow> installs op out) \<and>
     (\<forall>res rc. out = Inr res \<and> out_reactor res = Some rc \<longrightarrow> lw_cell w' = Some rc) \<and>
     (lazy_op op \<and> lw_cell w = None \<longrightarrow> (\<exists>e. out = Inl e))"

lemma build_step_ok:
  assumes ok: "local_ok w" and op: "builds op" "local_step op w = out_map LoReactor (local_build bs b w)"
  shows "case local_step op w of (out, w') \<Rightarrow> step_ok op out w w'"
  unfolding op(2) using local_ok_fresh[OF ok]
proof (cases rule: local_build_cases[where bs = bs and b = b])
  case (fails e)
  with ok show "case out_map LoReactor (local_build bs b w) of (out, w') \<Rightarrow> step_ok op out w w'"
    using op(1) by (cases op) (auto simp: out_map_def step_ok_def)
next
  case (twice rc w')
  then have "local_ok w'" using ok by (auto simp: local_ok_def)
  with twice show "case out_map LoReactor (local_build bs b w) of (out, w') \<Rightarrow> step_ok op out w w'"
    using op(1) by (cases op) (auto simp: out_map_def step_ok_def)
next
  case (built ring)
  with ok have "lw_rings w = Map.empty" by (simp add: local_ok_def)
  with built show "case out_map LoReactor (local_build bs b w) of (out, w') \<Rightarrow> step_ok op out w w'"
    using op(1) by (cases op) (auto simp: out_map_def step_ok_def local_ok_def installs_def)
qed

lemma local_ok_update [simp]:
  "local_ok (w\<lparr>lw_fds := fds\<rparr>) = local_ok w" "local_ok (w\<lparr>lw_registered := reg\<rparr>) = local_ok w"
  by (simp_all add: local_ok_def)

lemmas lazy_defs = register_file_def dma_file_new_def dma_open_def dma_statx_path_def udp_bind_def dma_with_reactor_def

lemma lazy_step_ok:
  assumes ok: "local_ok w" and op: "lazy_op op"
  shows "case local_step op w of (out, w') \<Rightarrow> step_ok op out w w'"
proof -
  obtain bs where bs: "bs = (case op of LGet bs \<Rightarrow> bs | LFile bs _ \<Rightarrow> bs | LOpen bs _ _ _ \<Rightarrow> bs | LStatx bs _ _ _ \<Rightarrow> bs
      | LBind bs _ _ \<Rightarrow> bs | LRegister bs _ _ \<Rightarrow> bs | LBuild bs _ \<Rightarrow> bs | LNew bs \<Rightarrow> bs | LInit _ \<Rightarrow> undefined)" by blast
  from ok show ?thesis
  proof (cases rule: get_or_init_cases[where bs = bs])
    case (present rc)
    then show ?thesis
      using op bs ok by (cases op) (auto simp: lazy_defs out_map_def step_ok_def split: prod.split)
  next
    case (fails e)
    then show ?thesis
      using op bs ok by (cases op) (auto simp: lazy_defs out_map_def step_ok_def)
  next
    case (reentrant w')
    then show ?thesis
      using op bs by (cases op) (auto simp: lazy_defs out_map_def step_ok_def installs_def)
  qed
qed

lemma local_step_ok:
  assumes ok: "local_ok w"
  shows "case local_step op w of (out, w') \<Rightarrow> step_ok op out w w'"
proof (cases op)
  case (LBuild bs b)
  then show ?thesis using build_step_ok[OF ok, of op bs b] by simp
next
  case (LNew bs)
  then show ?thesis using build_step_ok[OF ok, of op bs io_builder_default] by (simp add: iouring_new_def)
next
  case (LInit rc)
  then show ?thesis
  proof (cases "lw_rings w rc")
    case (Some ring)
    then have "lw_cell w = Some rc" using ok by (auto simp: local_ok_def dom_def)
    with LInit Some ok show ?thesis by (simp add: step_ok_def iouring_init_def cell_set_def)
  qed (use ok LInit in \<open>auto simp: step_ok_def\<close>)
qed (use lazy_step_ok[OF ok, of op] in simp_all)

subsection \<open>The first call of \<open>get_or_init\<close>\<close>

text \<open>
  On a thread without a reactor, \<open>get_or_init\<close> panics even when the system grants everything: \<open>build\<close> has filled
  the cell by itself. The reactor it built stays in the cell, and every later call returns it.
\<close>

lemma first_get_or_init:
  fixes w :: "'w local_world"
  assumes none: "lw_cell w = None"
    and built: "io_build (rs_system bs) (rs_create bs) (rs_env bs) False (rs_now bs) io_builder_default =
      (Inr ring :: (('w, sqe) io_reactor \<times> 'w allocator) run)"
  shows "\<exists>w'. reactor_get_or_init bs w = (Inl (Panic ''reentrant init''), w') \<and>
    reactor_get_or_init bs' w' = (Inr (lw_next w), w') \<and> lw_rings w' (lw_next w) = Some ring \<and>
    lw_cell w' = Some (lw_next w) \<and> lw_fds w' = lw_fds w"
  using assms by (simp add: reactor_get_or_init_def once_get_or_init_def cell_set_def local_build_def iouring_init_def Let_def)

subsection \<open>Every history\<close>

lemma local_run_ok:
  "local_ok w \<Longrightarrow> local_run ops w = (outs, w') \<Longrightarrow> local_ok w' \<and> length outs = length ops \<and>
    (\<forall>rc. lw_cell w = Some rc \<longrightarrow> lw_cell w' = Some rc) \<and>
    (\<forall>i < length ops. \<forall>res rc. outs ! i = Inr res \<and> out_reactor res = Some rc \<longrightarrow> lw_cell w' = Some rc) \<and>
    (lw_cell w = None \<longrightarrow> (\<forall>i < length ops. \<forall>res. outs ! i = Inr res \<and> lazy_op (ops ! i) \<longrightarrow>
       (\<exists>j < i. installs (ops ! j) (outs ! j))))"
proof (induction ops arbitrary: w outs)
  case (Cons op ops)
  obtain out w1 outs1 where run: "local_step op w = (out, w1)" "local_run ops w1 = (outs1, w')" "outs = out # outs1"
    using Cons.prems(2) by (auto split: prod.splits)
  have step: "step_ok op out w w1" using local_step_ok[OF Cons.prems(1), of op] run(1) by simp
  then have "local_ok w1" by (simp add: step_ok_def)
  note IH = Cons.IH[OF this run(2)]
  have "\<exists>j < i. installs ((op # ops) ! j) (outs ! j)"
    if "lw_cell w = None" "i < length (op # ops)" "outs ! i = Inr res" "lazy_op ((op # ops) ! i)" for i res
  proof (cases i)
    case 0
    then show ?thesis using that step run(3) by (auto simp: step_ok_def)
  next
    case (Suc k)
    show ?thesis
    proof (cases "lw_cell w1")
      case None
      with Suc that IH run(3) obtain j where "j < k" "installs (ops ! j) (outs1 ! j)" by auto
      with Suc run(3) show ?thesis by (intro exI[of _ "Suc j"]) simp
    next
      case (Some rc)
      with that(1) step have "installs op out" by (auto simp: step_ok_def)
      with Suc run(3) show ?thesis by (intro exI[of _ 0]) simp
    qed
  qed
  moreover have "lw_cell w' = Some rc"
    if "i < length (op # ops)" "outs ! i = Inr res" "out_reactor res = Some rc" for i res rc
    using that IH step run(3) by (cases i) (auto simp: step_ok_def)
  ultimately show ?case using IH step run(3) by (auto simp: step_ok_def)
qed simp

lemma alloc_granted:
  assumes "0 < len" "layout_ok len 4096"
  shows "\<exists>al. alloc_new demo_system n len = Inr (al :: 'w allocator)"
proof -
  have "\<exists>bs. alloc_buffers demo_system 4096 len is = Inr bs" for "is"
    using assms by (induction "is") (auto simp: new_aligned_buffer_def demo_system_def)
  then obtain bs where "alloc_buffers demo_system 4096 len [0..<n] = Inr bs" by blast
  then show ?thesis by (simp add: alloc_new_def new_without_uring_def page_size_def) (simp add: demo_system_def)
qed

definition demo_ring_sys :: ring_sys where
  "demo_ring_sys = \<lparr>rs_system = demo_system, rs_create = Some 1024, rs_env = None, rs_now = 0\<rparr>"

lemma demo_ring_built:
  "\<exists>ring. io_build (rs_system demo_ring_sys) (rs_create demo_ring_sys) (rs_env demo_ring_sys) False (rs_now demo_ring_sys)
     io_builder_default = (Inr ring :: (('w, 'e) io_reactor \<times> 'a allocator) run)"
proof -
  have "layout_ok 4096 4096" unfolding layout_ok_def by (rule conjI, rule bexI[of _ 12]) simp_all
  then obtain al :: "'a allocator" where "alloc_new demo_system 1024 4096 = Inr al"
    using alloc_granted[of 4096 1024] by auto
  then show ?thesis by (simp add: io_build_def demo_ring_sys_def io_builder_default_def enabled_by_env_def Let_def)
qed

text \<open>
  In every history of calls of one thread, panics caught, there is at most one reactor: the one in
  the cell, which never changes and is the reactor of every result that has one. A call that goes through
  \<open>get_or_init\<close> returns only after an earlier explicit build that succeeded, or after an earlier such call
  has panicked with the reentrant initialisation: no reactor is ever created lazily without a panic.
\<close>

theorem thread_reactor_history:
  assumes "local_run ops (thread_start fds) = (outs, w)"
  shows "dom (lw_rings w) = set_option (lw_cell w) \<and> length outs = length ops \<and>
    (\<forall>i < length ops. \<forall>res. outs ! i = Inr res \<longrightarrow>
       (\<forall>rc. out_reactor res = Some rc \<longrightarrow> lw_cell w = Some rc) \<and>
       (lazy_op (ops ! i) \<longrightarrow> (\<exists>j < i. installs (ops ! j) (outs ! j))))"
  using local_run_ok[OF local_ok_start assms] by (auto simp: local_ok_def thread_start_def)

text \<open>A file created twice: the first call panics, the second gets the reactor the first has left.\<close>

theorem thread_reactor_history_witness:
  "\<exists>w. local_run [LFile demo_ring_sys 7, LFile demo_ring_sys 8] (thread_start [7, 8] :: string local_world) =
     ([Inl (Panic ''reentrant init''), Inr (LoFile (dma_with_reactor 8 0))], w) \<and> lw_cell w = Some 0 \<and> lw_fds w = [8]"
proof -
  let ?ops = "[LFile demo_ring_sys 7, LFile demo_ring_sys 8]" and ?w = "thread_start [7, 8] :: string local_world"
  have start: "lw_cell ?w = None" "lw_next ?w = 0" "lw_fds ?w = [7, 8]" by (simp_all add: thread_start_def)
  from demo_ring_built obtain ring :: "(string, sqe) io_reactor \<times> string allocator" where
    "io_build (rs_system demo_ring_sys) (rs_create demo_ring_sys) (rs_env demo_ring_sys) False (rs_now demo_ring_sys)
       io_builder_default = Inr ring" by blast
  note first = first_get_or_init[OF start(1) this]
  obtain w1 where w1: "reactor_get_or_init demo_ring_sys ?w = (Inl (Panic ''reentrant init''), w1)" "lw_fds w1 = [7, 8]"
    "lw_cell w1 = Some 0"
    using first start(2,3) by auto
  then have "reactor_get_or_init demo_ring_sys (w1\<lparr>lw_fds := [8]\<rparr>) = (Inr 0, w1\<lparr>lw_fds := [8]\<rparr>)"
    by (simp add: reactor_get_or_init_def once_get_or_init_def)
  with w1 have run: "local_run ?ops ?w =
      ([Inl (Panic ''reentrant init''), Inr (LoFile (dma_with_reactor 8 0))], w1\<lparr>lw_fds := [8]\<rparr>)"
    by (simp add: dma_file_new_def close_fd_def out_map_def)
  have "lw_cell (w1\<lparr>lw_fds := [8]\<rparr>) = Some 0"
    using thread_reactor_history[OF run] by (auto simp: dma_with_reactor_def nth_Cons')
  with run show ?thesis by auto
qed

end
