(* ===== verification/Ucx_Worker.thy ===== *)
theory Ucx_Worker
  imports Reactor
begin

section \<open>UCX workers and their reactor (\<open>pluvio_ucx/src\<close>)\<close>

text \<open>
  The worker states, the transitions every call makes around its UCX operation, listeners and active
  message streams, and the reactor with its counter of workers that need polling. The workers are held
  by the reactor under the key the slab gave them; a listener is named by its address or its stream
  number (the two never print alike). UCX itself, the clock, the environment and the file system are
  parameters; an operation of UCX is the poll of an inner future.
\<close>

subsection \<open>Data\<close>

datatype worker_state = Active | WaitConnect | Inactive

datatype listener_id = ListenAddr string | ListenStream u16

record ucx_worker =
  uw_state :: worker_state
  uw_listeners :: "listener_id set"
  uw_wait_start :: "nat option"

record reactor_stats =
  rs_last_ns :: "u64 option"
  rs_start :: nat
  rs_count :: nat
  rs_csv :: "u64 list option"

record ucx_reactor =
  ur_workers :: "(nat \<times> ucx_worker) list"
  ur_last_polled :: nat
  ur_timeout :: u64
  ur_active :: u64
  ur_stats :: "reactor_stats option"
  ur_stats_enabled :: bool

subsection \<open>The reactor\<close>

text \<open>\<open>timeout_var\<close> is \<open>PLUVIO_CONNECTION_TIMEOUT\<close> parsed as a \<open>u64\<close>, if it is set and parses.\<close>

definition ucx_reactor_new :: "u64 option \<Rightarrow> nat \<Rightarrow> ucx_reactor" where
  "ucx_reactor_new timeout_var now =
     \<lparr>ur_workers = [], ur_last_polled = now, ur_timeout = (case timeout_var of Some t \<Rightarrow> t | None \<Rightarrow> 30),
      ur_active = 0, ur_stats = None, ur_stats_enabled = False\<rparr>"

text \<open>The slab answers a vacant key.\<close>

definition register_worker :: "nat \<Rightarrow> ucx_worker \<Rightarrow> ucx_reactor \<Rightarrow> ucx_reactor" where
  "register_worker key w u = u\<lparr>ur_workers := (key, w) # ur_workers u\<rparr>"

definition unregister_worker :: "nat \<Rightarrow> ucx_reactor \<Rightarrow> ucx_reactor run" where
  "unregister_worker key u =
     (if map_of (ur_workers u) key = None then Inl (Panic ''invalid key'')
      else Inr (u\<lparr>ur_workers := AList.delete key (ur_workers u)\<rparr>))"

definition increment_active_count :: "ucx_reactor \<Rightarrow> ucx_reactor" where
  "increment_active_count u = u\<lparr>ur_active := ur_active u + 1\<rparr>"

definition decrement_active_count :: "ucx_reactor \<Rightarrow> ucx_reactor" where
  "decrement_active_count u = u\<lparr>ur_active := ur_active u - 1\<rparr>"

text \<open>\<open>reactor_stats_new\<close> fails when the file cannot be created; the CSV is the list of written intervals.\<close>

definition reactor_stats_new :: "bool \<Rightarrow> bool \<Rightarrow> nat \<Rightarrow> string + reactor_stats" where
  "reactor_stats_new with_csv can_create now =
     (if with_csv \<and> \<not> can_create then Inl ''create''
      else Inr \<lparr>rs_last_ns = None, rs_start = now, rs_count = 0, rs_csv = (if with_csv then Some [] else None)\<rparr>)"

definition stats_record :: "nat \<Rightarrow> reactor_stats \<Rightarrow> reactor_stats" where
  "stats_record now s =
     (let now_ns = of_nat (now - rs_start s) :: u64
      in s\<lparr>rs_csv := (case (rs_last_ns s, rs_csv s) of
                        (Some prev, Some rows) \<Rightarrow> Some (rows @ [(now_ns - prev) div 1000])
                      | _ \<Rightarrow> rs_csv s),
           rs_last_ns := Some now_ns, rs_count := Suc (rs_count s)\<rparr>)"

definition enable_stats :: "bool \<Rightarrow> bool \<Rightarrow> nat \<Rightarrow> ucx_reactor \<Rightarrow> string + ucx_reactor" where
  "enable_stats with_csv can_create now u =
     (case reactor_stats_new with_csv can_create now of
        Inl e \<Rightarrow> Inl e
      | Inr s \<Rightarrow> Inr (u\<lparr>ur_stats := Some s, ur_stats_enabled := True\<rparr>))"

definition disable_stats :: "ucx_reactor \<Rightarrow> ucx_reactor" where
  "disable_stats u = u\<lparr>ur_stats_enabled := False\<rparr>"

definition stats_len :: "ucx_reactor \<Rightarrow> nat" where
  "stats_len u = (case ur_stats u of Some s \<Rightarrow> rs_count s | None \<Rightarrow> 0)"

definition ucx_status :: "ucx_reactor \<Rightarrow> reactor_status" where
  "ucx_status u = (if ur_active u > 0 then Running else Stopped)"

text \<open>A poll calls \<open>progress\<close> of every registered worker, in the order of their keys; the result lists them.\<close>

definition ucx_poll :: "nat \<Rightarrow> ucx_reactor \<Rightarrow> nat list \<times> ucx_reactor" where
  "ucx_poll now u =
     (let u1 = (if ur_stats_enabled u then u\<lparr>ur_stats := map_option (stats_record now) (ur_stats u)\<rparr> else u)
      in (sort (map fst (ur_workers u1)), u1))"

subsection \<open>Worker transitions\<close>

definition ucx_worker_new :: ucx_worker where
  "ucx_worker_new = \<lparr>uw_state = Inactive, uw_listeners = {}, uw_wait_start = None\<rparr>"

definition worker_new :: "nat \<Rightarrow> ucx_reactor \<Rightarrow> ucx_reactor" where
  "worker_new key u = register_worker key ucx_worker_new u"

text \<open>Change of the worker under a key; \<open>worker_of\<close> is the worker itself.\<close>

definition worker_of :: "ucx_reactor \<Rightarrow> nat \<Rightarrow> ucx_worker" where
  "worker_of u key = the (map_of (ur_workers u) key)"

definition put_worker :: "nat \<Rightarrow> ucx_worker \<Rightarrow> ucx_reactor \<Rightarrow> ucx_reactor" where
  "put_worker key w u = u\<lparr>ur_workers := AList.update key w (ur_workers u)\<rparr>"

definition activate :: "nat \<Rightarrow> ucx_reactor \<Rightarrow> ucx_reactor" where
  "activate key u =
     (let w = worker_of u key; old_state = uw_state w;
          u1 = put_worker key (w\<lparr>uw_state := Active, uw_wait_start := None\<rparr>) u
      in if old_state = Inactive then increment_active_count u1 else u1)"

definition deactivate :: "nat \<Rightarrow> nat \<Rightarrow> ucx_reactor \<Rightarrow> ucx_reactor" where
  "deactivate now key u =
     (let w = worker_of u key; old_state = uw_state w
      in if uw_listeners w = {} then
           (let u1 = put_worker key (w\<lparr>uw_state := Inactive, uw_wait_start := None\<rparr>) u
            in if old_state \<noteq> Inactive then decrement_active_count u1 else u1)
         else put_worker key (w\<lparr>uw_state := WaitConnect, uw_wait_start := Some now\<rparr>) u)"

definition wait_connect :: "nat \<Rightarrow> nat \<Rightarrow> ucx_reactor \<Rightarrow> ucx_reactor" where
  "wait_connect now key u =
     (let w = worker_of u key; old_state = uw_state w;
          u1 = put_worker key (w\<lparr>uw_state := WaitConnect, uw_wait_start := Some now\<rparr>) u
      in if old_state = Inactive then increment_active_count u1 else u1)"

definition insert_listener :: "listener_id \<Rightarrow> nat \<Rightarrow> ucx_reactor \<Rightarrow> ucx_reactor" where
  "insert_listener l key u =
     (let w = worker_of u key in put_worker key (w\<lparr>uw_listeners := insert l (uw_listeners w)\<rparr>) u)"

definition remove_listener :: "listener_id \<Rightarrow> nat \<Rightarrow> ucx_reactor \<Rightarrow> ucx_reactor" where
  "remove_listener l key u =
     (let w = worker_of u key in put_worker key (w\<lparr>uw_listeners := uw_listeners w - {l}\<rparr>) u)"

text \<open>\<open>ucx\<close> is the result of the UCX call: an error, or the UCX object.\<close>

definition create_listener :: "nat \<Rightarrow> string \<Rightarrow> ('e + 'l) \<Rightarrow> nat \<Rightarrow> ucx_reactor \<Rightarrow> ('e + 'l \<times> listener_id) \<times> ucx_reactor" where
  "create_listener now addr ucx key u =
     (case ucx of Inl e \<Rightarrow> (Inl e, u)
      | Inr listener \<Rightarrow>
          (let u1 = (if uw_state (worker_of u key) = Inactive then wait_connect now key u else u)
           in (Inr (listener, ListenAddr addr), insert_listener (ListenAddr addr) key u1)))"

definition listener_drop :: "nat \<Rightarrow> listener_id \<Rightarrow> nat \<Rightarrow> ucx_reactor \<Rightarrow> ucx_reactor" where
  "listener_drop now l key u = deactivate now key (remove_listener l key u)"

definition am_stream :: "u16 \<Rightarrow> ('e + 's) \<Rightarrow> nat \<Rightarrow> ucx_reactor \<Rightarrow> ('e + 's \<times> u16) \<times> ucx_reactor" where
  "am_stream i ucx key u =
     (case ucx of Inl e \<Rightarrow> (Inl e, u)
      | Inr stream \<Rightarrow> (Inr (stream, i), insert_listener (ListenStream i) key u))"

definition am_stream_drop :: "nat \<Rightarrow> u16 \<Rightarrow> nat \<Rightarrow> ucx_reactor \<Rightarrow> ucx_reactor" where
  "am_stream_drop now i key u = deactivate now key (remove_listener (ListenStream i) key u)"

subsection \<open>Calls\<close>

text \<open>
  The asynchronous methods of \<open>Worker\<close>, \<open>Endpoint\<close> and \<open>AmStream\<close>. Each changes the worker state when
  it is first polled, awaits the UCX future \<open>inner\<close>, and most change the state again at the end.
\<close>

datatype ucx_call =
    ConnectSocket | Accept | TagRecv | TagRecvMask | TagRecvVectored
  | Put | Get | StreamSend | StreamRecv | TagSend | TagSendVectored
  | AmSend | AmSendVectorized | WaitMsg

record ucx_future =
  uf_call :: ucx_call
  uf_worker :: nat
  uf_started :: bool

definition call_begin :: "ucx_call \<Rightarrow> nat \<Rightarrow> nat \<Rightarrow> ucx_reactor \<Rightarrow> ucx_reactor" where
  "call_begin c now key u = (if c = WaitMsg then wait_connect now key u else activate key u)"

definition call_end :: "ucx_call \<Rightarrow> nat \<Rightarrow> nat \<Rightarrow> ucx_reactor \<Rightarrow> ucx_reactor" where
  "call_end c now key u = (if c \<in> {AmSend, AmSendVectorized} then u else deactivate now key u)"

definition call_poll ::
  "(ucx_reactor \<Rightarrow> 'r poll \<times> ucx_reactor) \<Rightarrow> nat \<Rightarrow> ucx_future \<Rightarrow> ucx_reactor \<Rightarrow> 'r poll \<times> ucx_future \<times> ucx_reactor" where
  "call_poll inner now f u =
     (let u1 = (if uf_started f then u else call_begin (uf_call f) now (uf_worker f) u);
          f1 = f\<lparr>uf_started := True\<rparr>
      in case inner u1 of
           (Pending, u2) \<Rightarrow> (Pending, f1, u2)
         | (Ready r, u2) \<Rightarrow> (Ready r, f1, call_end (uf_call f) now (uf_worker f) u2))"

subsection \<open>The counter\<close>

definition counted :: "ucx_reactor \<Rightarrow> nat" where
  "counted u = length (filter (\<lambda>(_, w). uw_state w \<noteq> Inactive) (ur_workers u))"

text \<open>Steps of any tasks on any workers: the state changes of calls, listeners, streams and reactor polls.\<close>

datatype ucx_op =
    UNew nat | UBegin ucx_call nat nat | UEnd ucx_call nat nat
  | UListen nat string nat | UUnlisten nat listener_id nat | UStream u16 nat | UUnstream nat u16 nat | UPoll nat

fun op_worker :: "ucx_op \<Rightarrow> nat option" where
  "op_worker (UNew key) = None"
| "op_worker (UBegin c now key) = Some key"
| "op_worker (UEnd c now key) = Some key"
| "op_worker (UListen now addr key) = Some key"
| "op_worker (UUnlisten now l key) = Some key"
| "op_worker (UStream i key) = Some key"
| "op_worker (UUnstream now i key) = Some key"
| "op_worker (UPoll now) = None"

fun ucx_step :: "ucx_op \<Rightarrow> ucx_reactor \<Rightarrow> ucx_reactor" where
  "ucx_step (UNew key) u = worker_new key u"
| "ucx_step (UBegin c now key) u = call_begin c now key u"
| "ucx_step (UEnd c now key) u = call_end c now key u"
| "ucx_step (UListen now addr key) u = snd (create_listener now addr (Inr () :: unit + unit) key u)"
| "ucx_step (UUnlisten now l key) u = listener_drop now l key u"
| "ucx_step (UStream i key) u = snd (am_stream i (Inr () :: unit + unit) key u)"
| "ucx_step (UUnstream now i key) u = am_stream_drop now i key u"
| "ucx_step (UPoll now) u = snd (ucx_poll now u)"

text \<open>
  A step is orderly when the slab key of a new worker is vacant, every other step names a registered
  worker, and no step deactivates an inactive worker that keeps a listener.
\<close>

definition deact_ok :: "ucx_worker \<Rightarrow> listener_id set \<Rightarrow> bool" where
  "deact_ok w gone \<longleftrightarrow> uw_listeners w - gone = {} \<or> uw_state w \<noteq> Inactive"

fun orderly :: "ucx_op \<Rightarrow> ucx_reactor \<Rightarrow> bool" where
  "orderly (UNew key) u \<longleftrightarrow> map_of (ur_workers u) key = None"
| "orderly (UEnd c now key) u \<longleftrightarrow> map_of (ur_workers u) key \<noteq> None \<and>
     (c \<in> {AmSend, AmSendVectorized} \<or> deact_ok (worker_of u key) {})"
| "orderly (UUnlisten now l key) u \<longleftrightarrow> map_of (ur_workers u) key \<noteq> None \<and> deact_ok (worker_of u key) {l}"
| "orderly (UUnstream now i key) u \<longleftrightarrow> map_of (ur_workers u) key \<noteq> None \<and> deact_ok (worker_of u key) {ListenStream i}"
| "orderly (UPoll now) u \<longleftrightarrow> True"
| "orderly op u \<longleftrightarrow> map_of (ur_workers u) (the (op_worker op)) \<noteq> None"

fun orderly_run :: "ucx_op list \<Rightarrow> ucx_reactor \<Rightarrow> bool" where
  "orderly_run [] u \<longleftrightarrow> True"
| "orderly_run (op # ops) u \<longleftrightarrow> orderly op u \<and> orderly_run ops (ucx_step op u)"

definition count_ok :: "ucx_reactor \<Rightarrow> bool" where
  "count_ok u \<longleftrightarrow> distinct (map fst (ur_workers u)) \<and> length (ur_workers u) < 2 ^ 64 \<and> unat (ur_active u) = counted u"

lemma counted_mset: "counted u = size (filter_mset (\<lambda>(_, w). uw_state w \<noteq> Inactive) (mset (ur_workers u)))"
  by (simp add: counted_def flip: mset_filter)

lemma counted_le: "counted u \<le> length (ur_workers u)"
  by (simp add: counted_def)

lemma counted_active [simp]: "counted (u\<lparr>ur_active := a\<rparr>) = counted u"
  by (simp add: counted_def)

lemma length_alist_update: "map_of xs k = Some v \<Longrightarrow> length (AList.update k v' xs) = length xs"
  by (induction xs) auto

lemma counted_put:
  assumes "distinct (map fst (ur_workers u))" "map_of (ur_workers u) key = Some w"
  shows "counted (put_worker key w' u) + of_bool (uw_state w \<noteq> Inactive) = counted u + of_bool (uw_state w' \<noteq> Inactive)"
  unfolding counted_mset put_worker_def
  using mset_delete[OF assms] mset_update[OF assms, of w'] by simp

lemma put_worker_keep:
  assumes "count_ok u" "map_of (ur_workers u) key = Some w" "uw_state w' = Inactive \<longleftrightarrow> uw_state w = Inactive"
  shows "count_ok (put_worker key w' u)"
proof -
  have "counted (put_worker key w' u) = counted u"
    using counted_put[of u key w w'] assms by (auto simp: count_ok_def split: if_splits)
  then show ?thesis using assms by (simp add: count_ok_def put_worker_def distinct_update length_alist_update)
qed

lemma put_worker_inc:
  assumes "count_ok u" "map_of (ur_workers u) key = Some w" "uw_state w = Inactive" "uw_state w' \<noteq> Inactive"
  shows "count_ok (increment_active_count (put_worker key w' u))"
proof -
  have c: "counted (put_worker key w' u) = Suc (counted u)" using counted_put[of u key w w'] assms by (simp add: count_ok_def)
  moreover have "counted (put_worker key w' u) < 2 ^ 64"
    using counted_le[of "put_worker key w' u"] assms by (simp add: put_worker_def count_ok_def length_alist_update)
  ultimately have "unat (ur_active u + 1) = Suc (counted u)" using assms(1) unat_u64_Suc[of "ur_active u"] by (simp add: count_ok_def)
  with c assms show ?thesis
    by (simp add: count_ok_def increment_active_count_def put_worker_def distinct_update length_alist_update)
qed

lemma put_worker_dec:
  assumes "count_ok u" "map_of (ur_workers u) key = Some w" "uw_state w \<noteq> Inactive" "uw_state w' = Inactive"
  shows "count_ok (decrement_active_count (put_worker key w' u))"
proof -
  have c: "Suc (counted (put_worker key w' u)) = counted u" using counted_put[of u key w w'] assms by (simp add: count_ok_def)
  then have "ur_active u \<noteq> 0" using assms(1) by (auto simp: count_ok_def)
  then have "unat (ur_active u - 1) = counted (put_worker key w' u)" using c assms(1) by (simp add: count_ok_def unat_minus_one)
  with assms show ?thesis
    by (simp add: count_ok_def decrement_active_count_def put_worker_def distinct_update length_alist_update)
qed

lemma worker_of_Some: "map_of (ur_workers u) key = Some w \<Longrightarrow> worker_of u key = w"
  by (simp add: worker_of_def)

lemma worker_put: "worker_of (put_worker key w u) key = w" "map_of (ur_workers (put_worker key w u)) key = Some w"
  by (simp_all add: worker_of_def put_worker_def update_conv)

lemma activate_ok: "count_ok u \<Longrightarrow> map_of (ur_workers u) key = Some w \<Longrightarrow> count_ok (activate key u)"
  using put_worker_keep[of u key w] put_worker_inc[of u key w] by (simp add: activate_def worker_of_Some Let_def)

lemma wait_connect_ok: "count_ok u \<Longrightarrow> map_of (ur_workers u) key = Some w \<Longrightarrow> count_ok (wait_connect now key u)"
  using put_worker_keep[of u key w] put_worker_inc[of u key w] by (simp add: wait_connect_def worker_of_Some Let_def)

lemma deactivate_ok:
  "count_ok u \<Longrightarrow> map_of (ur_workers u) key = Some w \<Longrightarrow> deact_ok w {} \<Longrightarrow> count_ok (deactivate now key u)"
  using put_worker_keep[of u key w] put_worker_dec[of u key w] by (auto simp: deactivate_def worker_of_Some Let_def deact_ok_def)

lemma listeners_ok:
  "count_ok u \<Longrightarrow> map_of (ur_workers u) key = Some w \<Longrightarrow> count_ok (insert_listener l key u) \<and> count_ok (remove_listener l key u)"
  using put_worker_keep[of u key w] by (simp add: insert_listener_def remove_listener_def worker_of_Some Let_def)

lemma unlisten_ok:
  assumes "count_ok u" "map_of (ur_workers u) key = Some w" "deact_ok w {l}"
  shows "count_ok (deactivate now key (remove_listener l key u))"
proof -
  let ?w = "w\<lparr>uw_listeners := uw_listeners w - {l}\<rparr>"
  have r: "remove_listener l key u = put_worker key ?w u" using assms(2) by (simp add: remove_listener_def worker_of_Some)
  then have "map_of (ur_workers (remove_listener l key u)) key = Some ?w" by (simp add: worker_put)
  moreover have "deact_ok ?w {}" using assms(3) by (auto simp: deact_ok_def)
  ultimately show ?thesis using deactivate_ok listeners_ok[OF assms(1,2)] by blast
qed

lemma create_listener_ok:
  assumes ok: "count_ok u" and w: "map_of (ur_workers u) key = Some w"
  shows "count_ok (snd (create_listener now addr ucx key u))"
proof -
  have "\<exists>w'. map_of (ur_workers (wait_connect now key u)) key = Some w'"
    using w by (simp add: wait_connect_def Let_def increment_active_count_def worker_put)
  then show ?thesis using ok w wait_connect_ok[OF ok w, of now] listeners_ok by (auto simp: create_listener_def Let_def split: sum.split)
qed

lemma ucx_step_ok:
  assumes ok: "count_ok u" and op: "orderly op u" and room: "Suc (length (ur_workers u)) < 2 ^ 64"
  shows "count_ok (ucx_step op u)"
proof (cases op)
  case (UNew key)
  then show ?thesis using ok op room
    by (auto simp: count_ok_def worker_new_def register_worker_def ucx_worker_new_def counted_def map_of_eq_None_iff)
next
  case (UListen now addr key)
  then show ?thesis using ok op create_listener_ok by auto
next
  case (UPoll now)
  then show ?thesis using ok by (auto simp: ucx_poll_def count_ok_def counted_def)
qed (use ok op activate_ok wait_connect_ok deactivate_ok unlisten_ok listeners_ok in
  \<open>auto simp: call_begin_def call_end_def listener_drop_def am_stream_def am_stream_drop_def worker_of_def\<close>)

lemma length_step: "orderly op u \<Longrightarrow> length (ur_workers (ucx_step op u)) \<le> Suc (length (ur_workers u))"
  by (cases op) (auto simp: worker_new_def register_worker_def call_begin_def call_end_def listener_drop_def am_stream_def
      am_stream_drop_def create_listener_def activate_def deactivate_def wait_connect_def insert_listener_def remove_listener_def
      put_worker_def increment_active_count_def decrement_active_count_def ucx_poll_def length_alist_update worker_of_def
      update_conv Let_def)

lemma ucx_steps_ok:
  "count_ok u \<Longrightarrow> orderly_run ops u \<Longrightarrow> length (ur_workers u) + length ops < 2 ^ 64 \<Longrightarrow> count_ok (fold ucx_step ops u)"
proof (induction ops arbitrary: u)
  case (Cons op ops)
  then show ?case using ucx_step_ok[of u op] length_step[of op u] by simp
qed simp

text \<open>
  As long as no step deactivates an inactive worker that keeps a listener, the reactor's
  counter is exactly the number of registered workers that are active or waiting, after every sequence
  of calls, listeners, streams and polls on any number of workers; so the executor polls the reactor
  exactly while some worker needs it.
\<close>

theorem ucx_count_exact:
  assumes "orderly_run ops (ucx_reactor_new timeout now)" "length ops < 2 ^ 64"
    and "u = fold ucx_step ops (ucx_reactor_new timeout now)"
  shows "unat (ur_active u) = counted u \<and>
    (ucx_status u = Running \<longleftrightarrow> (\<exists>(key, w) \<in> set (ur_workers u). uw_state w \<noteq> Inactive))"
proof -
  have "count_ok (ucx_reactor_new timeout now)" by (simp add: count_ok_def ucx_reactor_new_def counted_def)
  with ucx_steps_ok[OF this assms(1)] assms(2,3) have c: "unat (ur_active u) = counted u"
    by (simp add: count_ok_def ucx_reactor_new_def)
  have "ur_active u > 0 \<longleftrightarrow> 0 < counted u" using c by (simp add: u64_less_iff)
  then show ?thesis using c by (auto simp: ucx_status_def counted_def filter_empty_conv split_beta)
qed

text \<open>Two workers, one with a stream that waits for a message while the other sends.\<close>

theorem ucx_count_exact_witness:
  "ucx_status (fold ucx_step [UNew 0, UNew 1, UStream 7 0, UBegin WaitMsg 5 0, UBegin TagSend 6 1, UEnd TagSend 7 1]
     (ucx_reactor_new None 0)) = Running"
proof -
  let ?ops = "[UNew 0, UNew 1, UStream 7 0, UBegin WaitMsg 5 0, UBegin TagSend 6 1, UEnd TagSend 7 1]"
  let ?u = "fold ucx_step ?ops (ucx_reactor_new None 0)"
  have "orderly_run ?ops (ucx_reactor_new None 0)" by code_simp
  moreover have "length ?ops < 2 ^ 64" by simp
  moreover have "\<exists>(key, w) \<in> set (ur_workers ?u). uw_state w \<noteq> Inactive" by code_simp
  ultimately show ?thesis using ucx_count_exact[OF _ _ refl, of ?ops None 0] by blast
qed

text \<open>
  Outside that discipline the counter goes wrong and stays wrong: two streams are opened on an
  idle worker and dropped again, with no message awaited in between. The first drop moves the worker to
  waiting without counting it, the second takes it back and decrements the counter below zero: every
  worker is inactive and the counter is \<open>2^64 - 1\<close>, so the reactor reports \<open>Running\<close>.
\<close>

theorem ucx_count_underflow:
  assumes "i \<noteq> j" "u = fold ucx_step [UNew 0, UStream i 0, UStream j 0, UUnstream t1 i 0, UUnstream t2 j 0] (ucx_reactor_new timeout now)"
  shows "counted u = 0 \<and> unat (ur_active u) = 2 ^ 64 - 1 \<and> ucx_status u = Running"
proof -
  have "ur_active u = -1" "counted u = 0"
    using assms by (auto simp: ucx_reactor_new_def worker_new_def register_worker_def ucx_worker_new_def am_stream_def insert_listener_def
        am_stream_drop_def deactivate_def remove_listener_def put_worker_def worker_of_def decrement_active_count_def Let_def counted_def)
  then show ?thesis by (simp add: ucx_status_def unsigned_minus_1_eq_mask mask_eq_exp_minus_1 u64_less_iff)
qed

theorem ucx_count_underflow_witness:
  "ucx_status (fold ucx_step [UNew 0, UStream 1 0, UStream 2 0, UUnstream 3 1 0, UUnstream 4 2 0] (ucx_reactor_new None 0)) = Running"
  using ucx_count_underflow[of 1 2, OF _ refl] by simp

end
