(* ===== verification/Ucx_Calls.thy ===== *)
theory Ucx_Calls
  imports Ucx_Worker "HOL-Library.Multiset"
begin

section \<open>UCX calls that overlap (\<open>pluvio_ucx/src/worker\<close>, \<open>ring.rs\<close>)\<close>

text \<open>
  The endpoints, the timing of active-message calls behind the global flag of \<open>stats.rs\<close>, the bracket that the collective
  rounds put around their joined send and receive, and what several pending calls on one worker do to each other:
  the worker has one state for all its calls, so the first call that ends takes the worker away from the others.
\<close>

subsection \<open>The reactor of the thread\<close>

text \<open>
  \<open>UCXReactor::current\<close>: the cell of the thread holds the address of its reactor in the store, which is created at the
  first call. Workers reach their reactor through it each time, so all of them count on the same counter.
\<close>

record ucx_thread =
  ut_reactors :: "ucx_reactor list"
  ut_cell :: "nat option"

definition ucx_current :: "u64 option \<Rightarrow> nat \<Rightarrow> ucx_thread \<Rightarrow> nat run \<times> ucx_thread" where
  "ucx_current timeout_var now =
     once_get_or_init ut_cell (\<lambda>rc s. s\<lparr>ut_cell := Some rc\<rparr>)
       (\<lambda>s. (Inr (length (ut_reactors s)), s\<lparr>ut_reactors := ut_reactors s @ [ucx_reactor_new timeout_var now]\<rparr>))"

text \<open>Unlike the reactor of io_uring this one is created lazily, once, whatever is done with it in between.\<close>

lemma ucx_current_once:
  assumes "ucx_current timeout_var now s = (res, s')"
  shows "\<exists>rc. res = Inr rc \<and> ut_cell s' = Some rc \<and> (ut_cell s = None \<longrightarrow> ut_reactors s' ! rc = ucx_reactor_new timeout_var now) \<and>
    (ut_cell s \<noteq> None \<longrightarrow> ut_cell s = Some rc \<and> s' = s) \<and>
    ucx_current timeout_var' now' (s'\<lparr>ut_reactors := us\<rparr>) = (Inr rc, s'\<lparr>ut_reactors := us\<rparr>)"
  using assms by (cases "ut_cell s") (auto simp: ucx_current_def once_get_or_init_def cell_set_def)

subsection \<open>Endpoints\<close>

record 'ep ucx_endpoint =
  ep_endpoint :: 'ep
  ep_worker :: nat

text \<open>\<open>ucx\<close> is what UCX answers; the worker state does not change.\<close>

definition endpoint_of :: "nat \<Rightarrow> 'e + 'ep \<Rightarrow> 'e + 'ep ucx_endpoint" where
  "endpoint_of key ucx = (case ucx of Inl e \<Rightarrow> Inl e | Inr endpoint \<Rightarrow> Inr \<lparr>ep_endpoint = endpoint, ep_worker = key\<rparr>)"

definition connect_addr :: "'e + 'ep \<Rightarrow> nat \<Rightarrow> ucx_reactor \<Rightarrow> ('e + 'ep ucx_endpoint) \<times> ucx_reactor" where
  "connect_addr ucx key u = (endpoint_of key ucx, u)"

text \<open>\<open>connect_socket\<close> and \<open>accept\<close> are calls whose result becomes an endpoint.\<close>

fun map_poll :: "('a \<Rightarrow> 'b) \<Rightarrow> 'a poll \<Rightarrow> 'b poll" where
  "map_poll g Pending = Pending"
| "map_poll g (Ready a) = Ready (g a)"

definition connect_socket_poll ::
  "(ucx_reactor \<Rightarrow> ('e + 'ep) poll \<times> ucx_reactor) \<Rightarrow> nat \<Rightarrow> ucx_future \<Rightarrow> ucx_reactor \<Rightarrow>
   ('e + 'ep ucx_endpoint) poll \<times> ucx_future \<times> ucx_reactor" where
  "connect_socket_poll inner now f u =
     (let (r, f, u) = call_poll inner now f u in (map_poll (endpoint_of (uf_worker f)) r, f, u))"

definition accept_poll ::
  "(ucx_reactor \<Rightarrow> ('e + 'ep) poll \<times> ucx_reactor) \<Rightarrow> nat \<Rightarrow> ucx_future \<Rightarrow> ucx_reactor \<Rightarrow>
   ('e + 'ep ucx_endpoint) poll \<times> ucx_future \<times> ucx_reactor" where
  "accept_poll inner now f u =
     (let (r, f, u) = call_poll inner now f u in (map_poll (endpoint_of (uf_worker f)) r, f, u))"

text \<open>\<open>flush\<close> and \<open>close\<close> of an endpoint and \<open>next\<close> of a listener await UCX and leave the worker as it is.\<close>

definition forward_poll :: "(ucx_reactor \<Rightarrow> 'r poll \<times> ucx_reactor) \<Rightarrow> ucx_reactor \<Rightarrow> 'r poll \<times> ucx_reactor" where
  "forward_poll inner u = inner u"

subsection \<open>Timing of active messages\<close>

text \<open>The process: the reactor of the thread, the global flag, and the lines logged (the operation and its microseconds).\<close>

record ucx_process =
  up_reactor :: ucx_reactor
  up_stats_enabled :: bool
  up_log :: "(ucx_call \<times> u64) list"

definition set_stats_enabled :: "bool \<Rightarrow> ucx_process \<Rightarrow> ucx_process" where
  "set_stats_enabled enabled p = p\<lparr>up_stats_enabled := enabled\<rparr>"

definition is_stats_enabled :: "ucx_process \<Rightarrow> bool" where
  "is_stats_enabled p = up_stats_enabled p"

text \<open>
  \<open>am_send\<close>, \<open>am_send_vectorized\<close> and \<open>wait_msg\<close>: a clock reading \<open>t0\<close> when the call starts, if the flag is set then, and
  a line with the time to \<open>t1\<close> when it ends.
\<close>

definition am_call_poll ::
  "(ucx_reactor \<Rightarrow> 'r poll \<times> ucx_reactor) \<Rightarrow> nat \<Rightarrow> nat \<Rightarrow> nat \<Rightarrow> ucx_future \<times> nat option \<Rightarrow> ucx_process \<Rightarrow>
   'r poll \<times> (ucx_future \<times> nat option) \<times> ucx_process" where
  "am_call_poll inner t0 now t1 fs p =
     (let (f, start) = fs;
          start = (if uf_started f then start else if is_stats_enabled p then Some t0 else None);
          (r, f, u) = call_poll inner now f (up_reactor p);
          line = (case (r, start) of (Ready _, Some s) \<Rightarrow> [(uf_call f, of_nat ((t1 - s) div 1000))] | _ \<Rightarrow> [])
      in (r, (f, start), p\<lparr>up_reactor := u, up_log := up_log p @ line\<rparr>))"

lemma am_call_poll_call:
  "am_call_poll inner t0 now t1 (f, start) p = (r, (f', start'), p') \<Longrightarrow>
   call_poll inner now f (up_reactor p) = (r, f', up_reactor p') \<and> up_stats_enabled p' = up_stats_enabled p"
  by (auto simp: am_call_poll_def Let_def split: prod.splits)

subsection \<open>The bracket of a round\<close>

text \<open>
  \<open>run_send_recv\<close>: one activation, the UCX send and receive joined without the wrappers, one deactivation.
  \<open>futures::join\<close> polls what is not done, the send first.
\<close>

record 'e round_future =
  rd_worker :: nat
  rd_started :: bool
  rd_send :: "('e + unit) option"
  rd_recv :: "('e + unit) option"

definition join_part ::
  "(ucx_reactor \<Rightarrow> 'r poll \<times> ucx_reactor) \<Rightarrow> 'r option \<Rightarrow> ucx_reactor \<Rightarrow> 'r option \<times> ucx_reactor" where
  "join_part p done u =
     (case done of Some r \<Rightarrow> (Some r, u)
      | None \<Rightarrow> (case p u of (Pending, u) \<Rightarrow> (None, u) | (Ready r, u) \<Rightarrow> (Some r, u)))"

definition round_poll ::
  "(ucx_reactor \<Rightarrow> ('e + unit) poll \<times> ucx_reactor) \<Rightarrow> (ucx_reactor \<Rightarrow> ('e + unit) poll \<times> ucx_reactor) \<Rightarrow> nat \<Rightarrow>
   'e round_future \<Rightarrow> ucx_reactor \<Rightarrow> ('e + unit) poll \<times> 'e round_future \<times> ucx_reactor" where
  "round_poll send recv now f u =
     (let u = (if rd_started f then u else activate (rd_worker f) u);
          (s, u) = join_part send (rd_send f) u;
          (r, u) = join_part recv (rd_recv f) u;
          f = f\<lparr>rd_started := True, rd_send := s, rd_recv := r\<rparr>
      in case (s, r) of
           (Some send_res, Some recv_res) \<Rightarrow>
             (Ready (case send_res of Inl e \<Rightarrow> Inl e | Inr _ \<Rightarrow> recv_res), f, deactivate now (rd_worker f) u)
         | _ \<Rightarrow> (Pending, f, u))"

subsection \<open>Which workers are polled\<close>

definition alive :: "ucx_reactor \<Rightarrow> nat \<Rightarrow> bool" where
  "alive u key \<longleftrightarrow> (\<exists>w. map_of (ur_workers u) key = Some w \<and> uw_state w \<noteq> Inactive)"

lemma alive_put [simp]: "alive (put_worker key w u) k \<longleftrightarrow> (if k = key then uw_state w \<noteq> Inactive else alive u k)"
  by (simp add: alive_def put_worker_def update_conv)

lemma alive_active [simp]: "alive (u\<lparr>ur_active := a\<rparr>) k = alive u k" "alive (increment_active_count u) k = alive u k"
  "alive (decrement_active_count u) k = alive u k"
  by (simp_all add: alive_def increment_active_count_def decrement_active_count_def)

lemma alive_activate [simp]: "alive (activate key u) k \<longleftrightarrow> k = key \<or> alive u k"
  by (simp add: activate_def Let_def)

lemma alive_wait_connect [simp]: "alive (wait_connect now key u) k \<longleftrightarrow> k = key \<or> alive u k"
  by (simp add: wait_connect_def Let_def)

lemma alive_deactivate [simp]:
  "alive (deactivate now key u) k \<longleftrightarrow> (if k = key then uw_listeners (worker_of u key) \<noteq> {} else alive u k)"
  by (simp add: deactivate_def Let_def)

lemma alive_worker_of: "alive u key \<Longrightarrow> uw_state (worker_of u key) \<noteq> Inactive"
  by (auto simp: alive_def worker_of_def)

lemma alive_listener: "alive u k \<Longrightarrow> alive (insert_listener l key u) k" "alive u k \<Longrightarrow> alive (remove_listener l key u) k"
  by (auto simp: insert_listener_def remove_listener_def Let_def dest: alive_worker_of)

lemma listeners_remove [simp]: "uw_listeners (worker_of (remove_listener l key u) key) = uw_listeners (worker_of u key) - {l}"
  by (simp add: remove_listener_def Let_def worker_put)

lemma alive_remove_other: "k \<noteq> key \<Longrightarrow> alive (remove_listener l key u) k = alive u k"
  by (simp add: remove_listener_def Let_def)

lemma alive_running:
  assumes "count_ok u" "alive u k"
  shows "ucx_status u = Running"
proof -
  obtain w where "(k, w) \<in> set (ur_workers u)" "uw_state w \<noteq> Inactive" using assms(2) by (auto simp: alive_def dest: map_of_SomeD)
  then have "counted u > 0" by (force simp: counted_def filter_empty_conv)
  then show ?thesis using assms(1) by (simp add: count_ok_def ucx_status_def u64_less_iff)
qed

lemma none_alive_stopped:
  assumes ok: "count_ok u" and dead: "\<And>k. \<not> alive u k"
  shows "ucx_status u = Stopped"
proof -
  have "uw_state w = Inactive" if "(k, w) \<in> set (ur_workers u)" for k w
    using dead[of k] that ok by (auto simp: alive_def count_ok_def)
  then have "counted u = 0" by (auto simp: counted_def filter_empty_conv)
  then have "ur_active u = 0" using ok by (simp add: count_ok_def unsigned_eq_0_iff)
  then show ?thesis by (simp add: ucx_status_def)
qed

subsection \<open>Pending calls\<close>

text \<open>
  The calls that are pending, each on a worker. A round counts as a call: it changes the worker as a bracketed call
  does. \<open>Cancel\<close> is the drop of a pending future, which does not touch the worker.
\<close>

datatype pending_call = Call ucx_call | Round

datatype call_event =
    Start pending_call nat nat | Finish pending_call nat nat | Cancel pending_call nat | Other ucx_op

fun op_of :: "pending_call \<Rightarrow> ucx_call" where
  "op_of (Call c) = c"
| "op_of Round = TagSend"

fun call_event_step :: "call_event \<Rightarrow> ucx_reactor \<times> (pending_call \<times> nat) multiset \<Rightarrow> ucx_reactor \<times> (pending_call \<times> nat) multiset" where
  "call_event_step (Start c now key) (u, pend) = (call_begin (op_of c) now key u, add_mset (c, key) pend)"
| "call_event_step (Finish c now key) (u, pend) = (call_end (op_of c) now key u, pend - {#(c, key)#})"
| "call_event_step (Cancel c key) (u, pend) = (u, pend - {#(c, key)#})"
| "call_event_step (Other op) (u, pend) = (ucx_step op u, pend)"

text \<open>
  A step is apart when it does not take a worker away from a pending call: what ends or is dropped leaves a listener or a
  stream on the worker, or no other call is pending there. The other conditions say that the calls are of
  registered workers and in the order of the types.
\<close>

definition serves_others :: "nat \<Rightarrow> listener_id set \<Rightarrow> (pending_call \<times> nat) multiset \<Rightarrow> bool" where
  "serves_others key listeners pend \<longleftrightarrow> listeners \<noteq> {} \<or> key \<notin># image_mset snd pend"

fun apart :: "call_event \<Rightarrow> ucx_reactor \<times> (pending_call \<times> nat) multiset \<Rightarrow> bool" where
  "apart (Start c now key) (u, pend) \<longleftrightarrow> map_of (ur_workers u) key \<noteq> None"
| "apart (Finish c now key) (u, pend) \<longleftrightarrow> (c, key) \<in># pend \<and>
     (op_of c \<in> {AmSend, AmSendVectorized} \<or> serves_others key (uw_listeners (worker_of u key)) (pend - {#(c, key)#}))"
| "apart (Cancel c key) (u, pend) \<longleftrightarrow> (c, key) \<in># pend"
| "apart (Other (UBegin c now key)) (u, pend) \<longleftrightarrow> False"
| "apart (Other (UEnd c now key)) (u, pend) \<longleftrightarrow> False"
| "apart (Other (UUnlisten now l key)) (u, pend) \<longleftrightarrow>
     orderly (UUnlisten now l key) u \<and> serves_others key (uw_listeners (worker_of u key) - {l}) pend"
| "apart (Other (UUnstream now i key)) (u, pend) \<longleftrightarrow>
     orderly (UUnstream now i key) u \<and> serves_others key (uw_listeners (worker_of u key) - {ListenStream i}) pend"
| "apart (Other op) (u, pend) \<longleftrightarrow> orderly op u"

fun apart_run :: "call_event list \<Rightarrow> ucx_reactor \<times> (pending_call \<times> nat) multiset \<Rightarrow> bool" where
  "apart_run [] s \<longleftrightarrow> True"
| "apart_run (ev # evs) s \<longleftrightarrow> apart ev s \<and> apart_run evs (call_event_step ev s)"

definition serving :: "ucx_reactor \<times> (pending_call \<times> nat) multiset \<Rightarrow> bool" where
  "serving s \<longleftrightarrow> count_ok (fst s) \<and> (\<forall>c key. (c, key) \<in># snd s \<longrightarrow> alive (fst s) key)"

lemma serves_othersD: "serves_others key ls pend \<Longrightarrow> (c, key) \<in># pend \<Longrightarrow> ls \<noteq> {}"
  by (force simp: serves_others_def)

lemma alive_keeps:
  assumes "alive u k" and other: "case op of UUnlisten _ l key \<Rightarrow> k = key \<longrightarrow> uw_listeners (worker_of u key) - {l} \<noteq> {}
      | UUnstream _ i key \<Rightarrow> k = key \<longrightarrow> uw_listeners (worker_of u key) - {ListenStream i} \<noteq> {}
      | UNew key \<Rightarrow> map_of (ur_workers u) key = None | UEnd _ _ _ \<Rightarrow> False | _ \<Rightarrow> True"
  shows "alive (ucx_step op u) k"
proof (cases op)
  case (UNew key)
  with assms have "k \<noteq> key" by (auto simp: alive_def)
  with assms(1) UNew show ?thesis by (simp add: alive_def worker_new_def register_worker_def)
next
  case (UListen now addr key)
  with assms(1) show ?thesis by (auto simp: create_listener_def Let_def intro: alive_listener)
next
  case (UStream i key)
  with assms(1) show ?thesis by (auto simp: am_stream_def intro: alive_listener)
next
  case (UPoll now)
  with assms(1) show ?thesis by (simp add: ucx_poll_def alive_def)
qed (use assms in \<open>auto simp: call_begin_def listener_drop_def am_stream_drop_def alive_remove_other split: if_splits\<close>)

lemma serving_start:
  assumes s: "serving (u, pend)" and key: "map_of (ur_workers u) key \<noteq> None" and room: "Suc (length (ur_workers u)) < 2 ^ 64"
  shows "serving (call_event_step (Start c now key) (u, pend))"
proof -
  have "count_ok (ucx_step (UBegin (op_of c) now key) u)" using s key room by (intro ucx_step_ok) (simp_all add: serving_def)
  moreover have "alive (call_begin (op_of c) now key u) k" if "k = key \<or> alive u k" for k using that by (auto simp: call_begin_def)
  ultimately show ?thesis using s by (auto simp: serving_def)
qed

lemma serving_finish:
  assumes s: "serving (u, pend)" and ap: "apart (Finish c now key) (u, pend)" and room: "Suc (length (ur_workers u)) < 2 ^ 64"
  shows "serving (call_event_step (Finish c now key) (u, pend))"
proof -
  have al: "alive u key" using s ap by (auto simp: serving_def)
  then have "orderly (UEnd (op_of c) now key) u" by (auto simp: alive_def deact_ok_def worker_of_def)
  then have "count_ok (ucx_step (UEnd (op_of c) now key) u)" using s room by (intro ucx_step_ok) (simp_all add: serving_def)
  moreover have "alive (call_end (op_of c) now key u) k" if k: "(c', k) \<in># pend - {#(c, key)#}" for c' k
  proof -
    have "alive u k" using s k by (auto simp: serving_def dest: in_diffD)
    then show ?thesis using k ap by (auto simp: call_end_def dest: serves_othersD)
  qed
  ultimately show ?thesis by (simp add: serving_def)
qed

lemma serving_step:
  assumes s: "serving (u, pend)" and ap: "apart ev (u, pend)" and room: "Suc (length (ur_workers u)) < 2 ^ 64"
  shows "serving (call_event_step ev (u, pend)) \<and> length (ur_workers (fst (call_event_step ev (u, pend)))) \<le> Suc (length (ur_workers u))"
proof (cases ev)
  case (Start c now key)
  then show ?thesis using serving_start[OF s _ room] ap length_step[of "UBegin (op_of c) now key" u] by simp
next
  case (Finish c now key)
  have "alive u key" using s ap Finish by (auto simp: serving_def)
  then have "orderly (UEnd (op_of c) now key) u" by (auto simp: alive_def deact_ok_def worker_of_def)
  then show ?thesis using serving_finish[OF s _ room] ap Finish length_step[of "UEnd (op_of c) now key" u] by simp
next
  case (Cancel c key)
  then show ?thesis using s by (auto simp: serving_def dest: in_diffD)
next
  case (Other op)
  have o: "orderly op u" using ap Other by (cases op) auto
  have "count_ok (ucx_step op u)" using ucx_step_ok[OF _ o room] s by (simp add: serving_def)
  moreover have "alive (ucx_step op u) k" if k: "(c, k) \<in># pend" for c k
  proof (rule alive_keeps)
    show "alive u k" using s k by (auto simp: serving_def)
  qed (use ap Other k in \<open>cases op; auto dest: serves_othersD\<close>)
  ultimately show ?thesis using length_step[OF o] Other by (auto simp: serving_def)
qed

lemma serving_run:
  "serving (u, pend) \<Longrightarrow> apart_run evs (u, pend) \<Longrightarrow> length (ur_workers u) + length evs < 2 ^ 64 \<Longrightarrow> serving (fold call_event_step evs (u, pend))"
proof (induction evs arbitrary: u pend)
  case (Cons ev evs)
  obtain u' pend' where s': "call_event_step ev (u, pend) = (u', pend')" by fastforce
  have "serving (u', pend')" "length (ur_workers u') \<le> Suc (length (ur_workers u))"
    using serving_step[of u pend ev] Cons.prems s' by auto
  then show ?case using Cons.IH[of u' pend'] Cons.prems s' by simp
qed simp

text \<open>
  C33 (liveness). While no call ends (and no listener or stream is dropped) under another call that is pending on the same
  worker without a listener or stream left, every worker with a pending call is active or waiting and the
  reactor reports \<open>Running\<close>, so the executor keeps progressing UCX for it: after every history of calls, collective rounds,
  cancelled futures, listeners and streams on any number of workers.
\<close>

theorem ucx_serves_pending:
  assumes "apart_run evs (ucx_reactor_new timeout now, {#})" "length evs < 2 ^ 64"
    and "(u, pend) = fold call_event_step evs (ucx_reactor_new timeout now, {#})" and "(c, key) \<in># pend"
  shows "(\<exists>w. map_of (ur_workers u) key = Some w \<and> uw_state w \<noteq> Inactive) \<and> ucx_status u = Running \<and> key \<in> set (fst (ucx_poll t u))"
proof -
  have "serving (ucx_reactor_new timeout now, {#})" by (simp add: serving_def count_ok_def ucx_reactor_new_def counted_def)
  from serving_run[OF this assms(1)] assms(2,3) have s: "serving (u, pend)" by (simp add: ucx_reactor_new_def)
  then have al: "alive u key" using assms(4) by (auto simp: serving_def)
  moreover have "ucx_status u = Running" using s al by (intro alive_running) (simp_all add: serving_def)
  moreover have "key \<in> set (fst (ucx_poll t u))"
    using al by (force simp: alive_def ucx_poll_def Let_def dest: map_of_SomeD)
  ultimately show ?thesis by (simp add: alive_def)
qed

text \<open>A worker with a stream serves a sender while its own message is awaited.\<close>

theorem ucx_serves_pending_witness:
  "ucx_status (fst (fold call_event_step
     [Other (UNew 0), Other (UStream 7 0), Start (Call WaitMsg) 1 0, Start Round 2 0, Finish Round 3 0] (ucx_reactor_new None 0, {#}))) = Running"
proof -
  let ?evs = "[Other (UNew 0), Other (UStream 7 0), Start (Call WaitMsg) 1 0, Start Round 2 0, Finish Round 3 0]"
  let ?s = "fold call_event_step ?evs (ucx_reactor_new None 0, {#})"
  have "apart_run ?evs (ucx_reactor_new None 0, {#})" by code_simp
  moreover have "(Call WaitMsg, 0) \<in># snd ?s" by simp
  ultimately show ?thesis using ucx_serves_pending[of ?evs None 0 "fst ?s" "snd ?s" "Call WaitMsg" 0] by simp
qed

subsection \<open>Overlapping calls\<close>

definition call_new :: "ucx_call \<Rightarrow> nat \<Rightarrow> ucx_future" where
  "call_new c key = \<lparr>uf_call = c, uf_worker = key, uf_started = False\<rparr>"

definition round_new :: "nat \<Rightarrow> 'e round_future" where
  "round_new key = \<lparr>rd_worker = key, rd_started = False, rd_send = None, rd_recv = None\<rparr>"

lemma begin_facts:
  assumes "count_ok u" "map_of (ur_workers u) key = Some w"
  shows "count_ok (call_begin c now key u)" "\<exists>w'. map_of (ur_workers (call_begin c now key u)) key = Some w'"
    "alive (call_begin c now key u) k \<longleftrightarrow> k = key \<or> alive u k"
    "uw_listeners (worker_of (call_begin c now key u) key) = uw_listeners (worker_of u key)"
proof -
  show "count_ok (call_begin c now key u)" using activate_ok[OF assms] wait_connect_ok[OF assms, of now] by (simp add: call_begin_def)
  show "alive (call_begin c now key u) k \<longleftrightarrow> k = key \<or> alive u k" by (simp add: call_begin_def)
  show "\<exists>w'. map_of (ur_workers (call_begin c now key u)) key = Some w'"
    "uw_listeners (worker_of (call_begin c now key u) key) = uw_listeners (worker_of u key)"
    by (simp_all add: call_begin_def activate_def wait_connect_def increment_active_count_def worker_of_def put_worker_def update_conv Let_def)
qed

text \<open>
  C37 (error). Two calls on one worker at the same time, no listener on it, no other worker in use: when the first of them
  ends, the worker becomes inactive and the reactor reports \<open>Stopped\<close> although the other call is pending, and it stays so
  when that call is polled again: the executor no longer progresses UCX for it. This is the race the comment of
  \<open>run_send_recv\<close> describes; its own bracket, with the send ready and the receive pending, keeps the reactor running.
\<close>

theorem ucx_overlap_stops:
  assumes ok: "count_ok u" and w: "map_of (ur_workers u) key = Some w" "uw_listeners w = {}"
    and idle: "\<And>k w'. map_of (ur_workers u) k = Some w' \<Longrightarrow> k \<noteq> key \<Longrightarrow> uw_state w' = Inactive"
    and c1: "c1 \<notin> {AmSend, AmSendVectorized}"
    and polls: "call_poll (\<lambda>u. (Pending, u)) t1 (call_new c1 key) u = (p1, f1, u1)"
      "call_poll (\<lambda>u. (Pending, u)) t2 (call_new c2 key) u1 = (p2, f2, u2)"
      "call_poll (\<lambda>u. (Ready x, u)) t3 f1 u2 = (p3, f1', u3)"
    and round: "round_poll (\<lambda>u. (Ready (Inr ()), u)) (\<lambda>u. (Pending, u)) t (round_new key) u = (q, g, v)"
  shows "ucx_status u2 = Running \<and> p3 = Ready x \<and> ucx_status u3 = Stopped \<and>
    call_poll (\<lambda>u. (Pending, u)) t4 f2 u3 = (p2, f2, u3) \<and> q = Pending \<and> ucx_status v = Running"
proof -
  have u: "u1 = call_begin c1 t1 key u" "u2 = call_begin c2 t2 key u1" "u3 = deactivate t3 key u2" "p3 = Ready x" "p2 = Pending"
      "uf_started f2" "f2\<lparr>uf_started := True\<rparr> = f2"
    using polls c1 by (auto simp: call_poll_def call_new_def call_end_def Let_def)
  have v: "q = Pending" "v = activate key u"
    using round by (auto simp: round_poll_def round_new_def join_part_def Let_def)
  note b1 = begin_facts[OF ok w(1), of c1 t1, folded u(1)]
  obtain w1 where w1: "map_of (ur_workers u1) key = Some w1" using b1(2) by blast
  note b2 = begin_facts[OF b1(1) w1, of c2 t2, folded u(2)]
  obtain w2 where w2: "map_of (ur_workers u2) key = Some w2" using b2(2) by blast
  have run: "ucx_status u2 = Running" using alive_running[OF b2(1)] b2(3) by blast
  have ls: "uw_listeners (worker_of u2 key) = {}" using b1(4) b2(4) w by (simp add: worker_of_def)
  then have "count_ok u3" unfolding u(3) using w2 by (intro deactivate_ok[OF b2(1) w2]) (simp add: deact_ok_def worker_of_def)
  moreover have "\<not> alive u3 k" for k
    using idle[of k] ls b1(3)[of k] b2(3)[of k] by (auto simp: u(3) alive_def[of u])
  ultimately have "ucx_status u3 = Stopped" by (rule none_alive_stopped)
  moreover have "ucx_status v = Running" using alive_running[of v key] activate_ok[OF ok w(1)] by (simp add: v)
  ultimately show ?thesis using run u v by (simp add: call_poll_def)
qed

text \<open>The send and the receive of a process with one worker.\<close>

theorem ucx_overlap_stops_witness:
  "let u = worker_new 0 (ucx_reactor_new None 0);
       (p1, f1, u1) = call_poll (\<lambda>u. (Pending, u)) 1 (call_new TagSend 0) u;
       (p2, f2, u2) = call_poll (\<lambda>u. (Pending, u)) 2 (call_new TagRecv 0) u1;
       (p3, f1', u3) = call_poll (\<lambda>u. (Ready (8 :: nat), u)) 3 f1 u2
   in p2 = (Pending :: nat poll) \<and> p1 = (Pending :: nat poll) \<and> p3 = Ready 8 \<and> ucx_status u3 = Stopped"
proof -
  let ?u = "worker_new 0 (ucx_reactor_new None 0)"
  have ok: "count_ok ?u" by (simp add: count_ok_def ucx_reactor_new_def worker_new_def register_worker_def counted_def ucx_worker_new_def)
  have w: "map_of (ur_workers ?u) 0 = Some ucx_worker_new" "uw_listeners ucx_worker_new = {}"
    by (simp_all add: ucx_reactor_new_def worker_new_def register_worker_def ucx_worker_new_def)
  have idle: "map_of (ur_workers ?u) k = Some w' \<Longrightarrow> k \<noteq> 0 \<Longrightarrow> uw_state w' = Inactive" for k w'
    by (simp add: ucx_reactor_new_def worker_new_def register_worker_def split: if_splits)
  obtain p1 f1 u1 p2 f2 u2 p3 f1' u3 q v and g :: "unit round_future" where r:
    "call_poll (\<lambda>u. (Pending :: nat poll, u)) 1 (call_new TagSend 0) ?u = (p1, f1, u1)"
    "call_poll (\<lambda>u. (Pending :: nat poll, u)) 2 (call_new TagRecv 0) u1 = (p2, f2, u2)"
    "call_poll (\<lambda>u. (Ready (8 :: nat), u)) 3 f1 u2 = (p3, f1', u3)"
    "round_poll (\<lambda>u. (Ready (Inr ()), u)) (\<lambda>u. (Pending, u)) 4 (round_new 0) ?u = (q, g, v)"
    by (metis prod_cases3)
  moreover have "p1 = Pending" "p2 = Pending" using r(1,2) by (simp_all add: call_poll_def)
  ultimately show ?thesis using ucx_overlap_stops[OF ok w idle _ r] by (simp add: Let_def)
qed

end
