(* ===== verification/Float_Ops.thy ===== *)
theory Float_Ops
  imports Recursive_Doubling
begin

section \<open>Floating-point reductions (\<open>pluvio_collective/src/op.rs\<close>)\<close>

text \<open>
  \<open>Max\<close> and \<open>Min\<close> of the macro on \<open>f32\<close> and \<open>f64\<close>, on the bits of the value: IEEE comparison is that of signed magnitudes,
  and false when a NaN takes part. \<open>p\<close> is the number of mantissa bits (23 and 52). \<open>Sum\<close> and \<open>Prod\<close> round to the nearest value,
  ties to even; all NaN results are one (Rust leaves their bits open). These are commutative, not associative, and
  recursive doubling is shown to need no more than that for its ranks to agree. \<open>Max\<close> with a NaN is not commutative, and
  there the ranks end with different values.
\<close>

subsection \<open>Comparison\<close>

definition fp_abs :: "'a::len word \<Rightarrow> 'a word" where
  "fp_abs x = take_bit (LENGTH('a) - Suc 0) x"

definition fp_neg :: "'a::len word \<Rightarrow> bool" where
  "fp_neg x \<longleftrightarrow> bit x (LENGTH('a) - Suc 0)"

text \<open>The exponent of infinity is all ones; a NaN has such an exponent and a mantissa that is not zero.\<close>

definition fp_inf :: "nat \<Rightarrow> 'a::len word" where
  "fp_inf p = push_bit p (mask (LENGTH('a) - Suc p))"

definition fp_nan :: "nat \<Rightarrow> 'a::len word \<Rightarrow> bool" where
  "fp_nan p x \<longleftrightarrow> fp_inf p < fp_abs x"

definition fp_key :: "'a::len word \<Rightarrow> int" where
  "fp_key x = (if fp_neg x then - uint (fp_abs x) else uint (fp_abs x))"

definition fp_less :: "nat \<Rightarrow> 'a::len word \<Rightarrow> 'a word \<Rightarrow> bool" where
  "fp_less p a b \<longleftrightarrow> \<not> fp_nan p a \<and> \<not> fp_nan p b \<and> fp_key a < fp_key b"

subsection \<open>Operators\<close>

definition max_float_apply :: "nat \<Rightarrow> 'a::len word \<Rightarrow> 'a word \<Rightarrow> 'a word" where
  "max_float_apply p a b = (if fp_less p b a then a else b)"

definition min_float_apply :: "nat \<Rightarrow> 'a::len word \<Rightarrow> 'a word \<Rightarrow> 'a word" where
  "min_float_apply p a b = (if fp_less p a b then a else b)"

text \<open>
  A finite value is a multiple of the least positive one: \<open>fp_units\<close> of them. \<open>fp_round p n s\<close> is the magnitude nearest to
  \<open>n / 2 ^ s\<close> units; with a quantum of \<open>2 ^ q\<close> units its bits are \<open>q * 2 ^ p\<close> plus the rounded quotient, also when the quotient
  carries into the next exponent and for subnormal values (\<open>q = 0\<close>).
\<close>

fun bit_len :: "nat \<Rightarrow> nat" where
  "bit_len n = (if n = 0 then 0 else Suc (bit_len (n div 2)))"

declare bit_len.simps [simp del]

definition round_half_even :: "nat \<Rightarrow> nat \<Rightarrow> nat" where
  "round_half_even n t =
     (let q = n div 2 ^ t; r = n mod 2 ^ t in if 2 ^ t < 2 * r \<or> 2 * r = 2 ^ t \<and> odd q then q + 1 else q)"

definition fp_round :: "nat \<Rightarrow> nat \<Rightarrow> nat \<Rightarrow> 'a::len word" where
  "fp_round p n s =
     (let q = bit_len n - (s + p + 1); bits = q * 2 ^ p + round_half_even n (s + q)
      in if unat (fp_inf p :: 'a word) \<le> bits then fp_inf p else of_nat bits)"

definition fp_signed :: "bool \<Rightarrow> 'a::len word \<Rightarrow> 'a word" where
  "fp_signed neg mag = (if neg then set_bit (LENGTH('a) - Suc 0) mag else mag)"

definition fp_units :: "nat \<Rightarrow> 'a::len word \<Rightarrow> nat" where
  "fp_units p x =
     (let bits = unat (fp_abs x); e = bits div 2 ^ p; f = bits mod 2 ^ p
      in if e = 0 then f else (2 ^ p + f) * 2 ^ (e - 1))"

definition fp_value :: "nat \<Rightarrow> 'a::len word \<Rightarrow> int" where
  "fp_value p x = (if fp_neg x then - int (fp_units p x) else int (fp_units p x))"

definition fp_is_inf :: "nat \<Rightarrow> 'a::len word \<Rightarrow> bool" where
  "fp_is_inf p x \<longleftrightarrow> fp_abs x = fp_inf p"

definition fp_qnan :: "nat \<Rightarrow> 'a::len word" where
  "fp_qnan p = set_bit (p - 1) (fp_inf p)"

definition sum_float_apply :: "nat \<Rightarrow> 'a::len word \<Rightarrow> 'a word \<Rightarrow> 'a word" where
  "sum_float_apply p a b =
     (if fp_nan p a \<or> fp_nan p b \<or> fp_is_inf p a \<and> fp_is_inf p b \<and> fp_neg a \<noteq> fp_neg b then fp_qnan p
      else if fp_is_inf p a then a else if fp_is_inf p b then b
      else let k = fp_value p a + fp_value p b
           in if k = 0 then fp_signed (fp_neg a \<and> fp_neg b) 0 else fp_signed (k < 0) (fp_round p (nat \<bar>k\<bar>) 0))"

text \<open>The units of a product: \<open>2 ^ fp_scale\<close> of them are the value 1.\<close>

definition fp_scale :: "nat \<Rightarrow> nat \<Rightarrow> nat" where
  "fp_scale len p = 2 ^ (len - p - 2) - 1 + p - 1"

definition prod_float_apply :: "nat \<Rightarrow> 'a::len word \<Rightarrow> 'a word \<Rightarrow> 'a word" where
  "prod_float_apply p a b =
     (let neg = (fp_neg a \<noteq> fp_neg b)
      in if fp_nan p a \<or> fp_nan p b \<or> fp_is_inf p a \<and> fp_abs b = 0 \<or> fp_abs a = 0 \<and> fp_is_inf p b then fp_qnan p
         else if fp_is_inf p a \<or> fp_is_inf p b then fp_signed neg (fp_inf p)
         else fp_signed neg (fp_round p (fp_units p a * fp_units p b) (fp_scale LENGTH('a) p)))"

text \<open>\<open>f32::MIN\<close>, \<open>f32::MAX\<close> and those of \<open>f64\<close> are the least and greatest finite values.\<close>

definition max_f32_identity :: u32 where
  "max_f32_identity = 0xff7fffff"

definition min_f32_identity :: u32 where
  "min_f32_identity = 0x7f7fffff"

definition max_f64_identity :: u64 where
  "max_f64_identity = 0xffefffffffffffff"

definition min_f64_identity :: u64 where
  "min_f64_identity = 0x7fefffffffffffff"

definition sum_f32_identity :: u32 where
  "sum_f32_identity = 0"

definition prod_f32_identity :: u32 where
  "prod_f32_identity = 0x3f800000"

definition sum_f64_identity :: u64 where
  "sum_f64_identity = 0"

definition prod_f64_identity :: u64 where
  "prod_f64_identity = 0x3ff0000000000000"

abbreviation f32_bits :: nat where
  "f32_bits \<equiv> 23"

text \<open>The numbers: neither NaN nor the negative zero. On them the comparison is a linear order.\<close>

definition fp_number :: "nat \<Rightarrow> 'a::len word \<Rightarrow> bool" where
  "fp_number p x \<longleftrightarrow> \<not> fp_nan p x \<and> \<not> (fp_neg x \<and> fp_abs x = 0)"

lemma fp_word_eq: "fp_abs a = fp_abs b \<Longrightarrow> fp_neg a = fp_neg b \<Longrightarrow> a = (b :: 'a::len word)"
proof (rule bit_word_eqI)
  fix n assume e: "fp_abs a = fp_abs b" "fp_neg a = fp_neg b" and n: "n < LENGTH('a)"
  show "bit a n = bit b n"
  proof (cases "n = LENGTH('a) - Suc 0")
    case True
    with e(2) show ?thesis by (simp add: fp_neg_def)
  next
    case False
    then have "n < LENGTH('a) - Suc 0" using n by simp
    with arg_cong[OF e(1), of "\<lambda>x. bit x n"] show ?thesis by (simp add: fp_abs_def bit_take_bit_iff)
  qed
qed

lemma signed_eq:
  "(if s then - x else x) = (if t then - y else y) \<Longrightarrow> (s \<Longrightarrow> x \<noteq> 0) \<Longrightarrow> (t \<Longrightarrow> y \<noteq> 0) \<Longrightarrow> 0 \<le> x \<Longrightarrow> 0 \<le> y \<Longrightarrow> s = t \<and> x = (y :: int)"
  by (auto split: if_splits)

lemma fp_key_inj:
  assumes "fp_key a = fp_key b" "fp_number p a" "fp_number p b"
  shows "a = (b :: 'a::len word)"
proof -
  have nz: "uint (fp_abs x) \<noteq> 0" if "fp_number p x" "fp_neg x" for x :: "'a word"
    using that by (metis fp_number_def unsigned_0 unsigned_word_eqI)
  have pos: "0 \<le> uint x" for x :: "'a word" by simp
  have key: "(if fp_neg a then - uint (fp_abs a) else uint (fp_abs a)) = (if fp_neg b then - uint (fp_abs b) else uint (fp_abs b))"
    using assms(1) by (simp only: fp_key_def)
  have "fp_neg a = fp_neg b \<and> uint (fp_abs a) = uint (fp_abs b)"
    by (rule signed_eq[OF key nz[OF assms(2)] nz[OF assms(3)] pos pos])
  then show ?thesis using fp_word_eq unsigned_word_eqI by metis
qed

lemma fp_signed_abs: "fp_signed (fp_neg x) (fp_abs x) = (x :: 'a::len word)"
proof (rule bit_word_eqI)
  fix n assume "n < LENGTH('a)"
  then show "bit (fp_signed (fp_neg x) (fp_abs x)) n = bit x n"
    by (cases "n = LENGTH('a) - Suc 0") (auto simp: fp_signed_def fp_neg_def fp_abs_def bit_simps)
qed

text \<open>Rounding is exact on what is representable.\<close>

lemma bit_len_0 [simp]: "bit_len 0 = 0"
  by (subst bit_len.simps) simp

lemma bit_len_le: "n < 2 ^ k \<Longrightarrow> bit_len n \<le> k"
proof (induction k arbitrary: n)
  case (Suc k)
  then have "n div 2 < 2 ^ k" by simp
  with Suc.IH[of "n div 2"] show ?case by (subst bit_len.simps) simp
qed simp

lemma bit_len_eq: "2 ^ k \<le> n \<Longrightarrow> n < 2 ^ Suc k \<Longrightarrow> bit_len n = Suc k"
proof (induction k arbitrary: n)
  case 0
  then have "n = 1" by simp
  then show ?case by (subst bit_len.simps) simp
next
  case (Suc k)
  then have "2 ^ k \<le> n div 2" "n div 2 < 2 ^ Suc k" by auto
  from Suc.IH[OF this] Suc.prems show ?case by (subst bit_len.simps) simp
qed

lemma bit_len_shift: "0 < n \<Longrightarrow> bit_len (n * 2 ^ t) = bit_len n + t"
proof (induction t)
  case (Suc t)
  have "n * 2 ^ Suc t div 2 = n * 2 ^ t" by simp
  with Suc show ?case by (subst bit_len.simps) simp
qed simp

lemma round_exact: "round_half_even (n * 2 ^ t) t = n"
  by (simp add: round_half_even_def)

lemma fp_round_units:
  fixes x :: "'a::len word"
  assumes "fp_abs x < fp_inf p"
  shows "fp_round p (fp_units p x * 2 ^ t) t = fp_abs x"
proof -
  let ?m = "unat (fp_abs x)" and ?U = "fp_units p x"
  let ?e = "?m div 2 ^ p" and ?f = "?m mod 2 ^ p"
  have f: "?f < 2 ^ p" by simp
  have m: "?m = ?e * 2 ^ p + ?f" by (rule div_mult_mod_eq[symmetric])
  have lt: "\<not> unat (fp_inf p :: 'a word) \<le> ?m" using assms by (simp add: word_less_nat_alt)
  have "(bit_len (?U * 2 ^ t) - (t + p + 1)) * 2 ^ p + round_half_even (?U * 2 ^ t) (t + (bit_len (?U * 2 ^ t) - (t + p + 1))) = ?m"
  proof (cases "?e = 0")
    case True
    then have U: "?U = ?f" "?m = ?f" using m by (simp_all add: fp_units_def Let_def)
    have "bit_len (?U * 2 ^ t) \<le> p + t" using f U by (intro bit_len_le) (simp add: power_add)
    then have "bit_len (?U * 2 ^ t) - (t + p + 1) = 0" by simp
    then show ?thesis using U by (simp add: round_exact)
  next
    case False
    then obtain e where e: "?e = Suc e" using not0_implies_Suc by blast
    then have U: "?U = (2 ^ p + ?f) * 2 ^ e" by (simp add: fp_units_def Let_def)
    have "bit_len (2 ^ p + ?f) = Suc p" using f by (intro bit_len_eq) simp_all
    then have "bit_len (?U * 2 ^ t) = Suc p + e + t" by (simp add: U bit_len_shift)
    then have q: "bit_len (?U * 2 ^ t) - (t + p + 1) = e" by simp
    have "?U * 2 ^ t = (2 ^ p + ?f) * 2 ^ (t + e)" by (simp add: U power_add)
    then have "round_half_even (?U * 2 ^ t) (t + e) = 2 ^ p + ?f" by (simp only: round_exact)
    with q m e show ?thesis by simp
  qed
  then show ?thesis using lt by (simp add: fp_round_def Let_def)
qed

lemma unat_push_mask:
  "p + k \<le> LENGTH('a) \<Longrightarrow> unat (push_bit p (mask k) :: 'a::len word) = (2 ^ k - 1) * 2 ^ p"
proof -
  assume l: "p + k \<le> LENGTH('a)"
  have "(2 ^ k - 1) * 2 ^ p < (2 :: nat) ^ (k + p)" by (simp add: power_add)
  also have "\<dots> \<le> 2 ^ LENGTH('a)" using l by (intro power_increasing) simp_all
  finally have lt: "(2 ^ k - 1) * 2 ^ p < (2 :: nat) ^ LENGTH('a)" .
  have "(push_bit p (mask k) :: 'a word) = of_nat ((2 ^ k - 1) * 2 ^ p)"
    by (simp add: push_bit_eq_mult mask_eq_exp_minus_1 of_nat_diff)
  with lt show ?thesis by (simp only: unat_of_nat mod_less)
qed

text \<open>The value 1.\<close>

definition fp_one :: "nat \<Rightarrow> 'a::len word" where
  "fp_one p = push_bit p (mask (LENGTH('a) - p - 2))"

lemma fp_one_facts:
  assumes "p + 3 \<le> LENGTH('a)"
  shows "\<not> fp_neg (fp_one p :: 'a::len word)" "fp_abs (fp_one p :: 'a word) = fp_one p" "(fp_one p :: 'a word) < fp_inf p"
    "(0 :: 'a word) < fp_one p" "fp_units p (fp_one p :: 'a word) = 2 ^ fp_scale LENGTH('a) p"
proof -
  define k where "k = LENGTH('a) - p - 2"
  then have k: "LENGTH('a) = p + Suc (Suc k)" "0 < k" using assms by simp_all
  have one: "fp_one p = (push_bit p (mask k) :: 'a word)" and inf: "fp_inf p = (push_bit p (mask (Suc k)) :: 'a word)"
    using k by (simp_all add: fp_one_def fp_inf_def)
  have u: "unat (fp_one p :: 'a word) = (2 ^ k - 1) * 2 ^ p" "unat (fp_inf p :: 'a word) = (2 ^ Suc k - 1) * 2 ^ p"
    unfolding one inf using k by (intro unat_push_mask; simp)+
  have bits: "bit (fp_one p :: 'a word) n \<longleftrightarrow> p \<le> n \<and> n < p + k" for n
    unfolding one using k by (auto simp: bit_simps)
  show "\<not> fp_neg (fp_one p :: 'a word)" using k by (simp add: fp_neg_def bits)
  show abs: "fp_abs (fp_one p :: 'a word) = fp_one p" using k by (intro bit_word_eqI) (auto simp: fp_abs_def bits bit_take_bit_iff)
  have "(1 :: nat) \<le> 2 ^ k" by simp
  then have "(2 :: nat) ^ k - 1 < 2 ^ Suc k - 1" unfolding power_Suc by linarith
  then show "(fp_one p :: 'a word) < fp_inf p" by (simp add: word_less_nat_alt u)
  have "(2 :: nat) ^ 1 \<le> 2 ^ k" using k(2) by (intro power_increasing) simp_all
  then have pos: "0 < (2 :: nat) ^ k - 1" by simp
  then show "(0 :: 'a word) < fp_one p" by (simp add: word_less_nat_alt u)
  have "fp_units p (fp_one p :: 'a word) = 2 ^ p * 2 ^ (2 ^ k - 1 - 1)" using pos by (simp add: fp_units_def abs u Let_def)
  also have "\<dots> = 2 ^ fp_scale LENGTH('a) p" using pos k by (simp add: fp_scale_def flip: power_add)
  finally show "fp_units p (fp_one p :: 'a word) = 2 ^ fp_scale LENGTH('a) p" .
qed

lemma fp_inf_pos: "p + 2 \<le> LENGTH('a) \<Longrightarrow> (0 :: 'a::len word) < fp_inf p"
proof -
  assume p: "p + 2 \<le> LENGTH('a)"
  then have "bit (fp_inf p :: 'a word) p" by (simp add: fp_inf_def bit_simps)
  then have "fp_inf p \<noteq> (0 :: 'a word)" by auto
  then show ?thesis by (simp add: word_neq_0_conv)
qed

lemma fp_zero [simp]: "fp_abs 0 = 0" "\<not> fp_neg 0" "fp_units p 0 = 0"
  by (simp_all add: fp_abs_def fp_neg_def fp_units_def)

lemma sum_float_comm: "sum_float_apply p a b = sum_float_apply p b (a :: 'a::len word)"
proof -
  have eq: "a = b" if "fp_is_inf p a" "fp_is_inf p b" "fp_neg a = fp_neg b"
    by (rule fp_word_eq) (use that in \<open>simp_all add: fp_is_inf_def\<close>)
  show ?thesis
  proof (cases "fp_is_inf p a \<and> fp_is_inf p b")
    case True
    then show ?thesis using eq by (cases "fp_neg a = fp_neg b") (auto simp: sum_float_apply_def)
  next
    case False
    then show ?thesis by (auto simp: sum_float_apply_def add.commute[of "fp_value p a"] conj_commute[of "fp_neg a"] Let_def)
  qed
qed

lemma prod_float_comm: "prod_float_apply p a b = prod_float_apply p b (a :: 'a::len word)"
proof -
  have "(fp_neg a \<noteq> fp_neg b) = (fp_neg b \<noteq> fp_neg a)" by blast
  then show ?thesis unfolding prod_float_apply_def Let_def mult.commute[of "fp_units p a"] by (simp only:) (rule if_cong, blast, simp_all add: disj_commute)
qed

lemma fp_units_zero: "fp_units p a = 0 \<longleftrightarrow> fp_abs a = (0 :: 'a::len word)"
proof -
  let ?m = "unat (fp_abs a)"
  have "fp_units p a = 0 \<longleftrightarrow> ?m div 2 ^ p = 0 \<and> ?m mod 2 ^ p = 0" by (simp add: fp_units_def Let_def)
  also have "\<dots> \<longleftrightarrow> ?m = 0" by (metis add.right_neutral div_0 div_mult_mod_eq mod_0 mult_zero_left)
  finally show ?thesis by (simp add: unsigned_eq_0_iff)
qed

lemma finite_abs: "\<not> fp_nan p a \<Longrightarrow> \<not> fp_is_inf p a \<Longrightarrow> fp_abs a < fp_inf p"
  by (simp add: fp_nan_def fp_is_inf_def)

lemma sum_float_zero:
  fixes a :: "'a::len word"
  assumes p: "p + 2 \<le> LENGTH('a)" and n: "\<not> fp_nan p a"
  shows "sum_float_apply p 0 a = (if fp_abs a = 0 then 0 else a)"
proof -
  have inf: "(0 :: 'a word) < fp_inf p" by (rule fp_inf_pos[OF p])
  then have z: "\<not> fp_nan p (0 :: 'a word)" "\<not> fp_is_inf p (0 :: 'a word)" "fp_value p (0 :: 'a word) = 0"
    by (auto simp: fp_nan_def fp_is_inf_def fp_value_def)
  show ?thesis
  proof (cases "fp_is_inf p a")
    case True
    then have "fp_abs a \<noteq> 0" using inf by (auto simp: fp_is_inf_def)
    with True n z show ?thesis by (simp add: sum_float_apply_def)
  next
    case False
    have s: "sum_float_apply p 0 a = (if fp_value p a = 0 then fp_signed False 0
        else fp_signed (fp_value p a < 0) (fp_round p (nat \<bar>fp_value p a\<bar>) 0))"
      using n z False by (simp add: sum_float_apply_def Let_def)
    show ?thesis
    proof (cases "fp_units p a = 0")
      case True
      then show ?thesis using s fp_units_zero[of p a] by (simp add: fp_value_def fp_signed_def)
    next
      case units: False
      then have v: "fp_value p a \<noteq> 0" "(fp_value p a < 0) = fp_neg a" "nat \<bar>fp_value p a\<bar> = fp_units p a"
        by (auto simp: fp_value_def)
      have "fp_round p (fp_units p a) 0 = fp_abs a" using fp_round_units[OF finite_abs[OF n False], of 0] by simp
      then show ?thesis using s v units fp_units_zero[of p a] by (simp add: fp_signed_abs)
    qed
  qed
qed

lemma prod_float_one:
  fixes a :: "'a::len word"
  assumes p: "p + 3 \<le> LENGTH('a)" and n: "\<not> fp_nan p a"
  shows "prod_float_apply p (fp_one p) a = a"
proof -
  note one = fp_one_facts[OF p]
  have o: "\<not> fp_nan p (fp_one p :: 'a word)" "\<not> fp_is_inf p (fp_one p :: 'a word)" "fp_abs (fp_one p :: 'a word) \<noteq> 0"
    using one(2-4) by (auto simp: fp_nan_def fp_is_inf_def)
  have s: "prod_float_apply p (fp_one p) a = (if fp_is_inf p a then fp_signed (fp_neg a) (fp_inf p)
      else fp_signed (fp_neg a) (fp_round p (2 ^ fp_scale LENGTH('a) p * fp_units p a) (fp_scale LENGTH('a) p)))"
    using n o one(1) by (simp add: prod_float_apply_def one(5) Let_def)
  show ?thesis
  proof (cases "fp_is_inf p a")
    case True
    then have "fp_inf p = fp_abs a" by (simp add: fp_is_inf_def)
    with True s show ?thesis by (simp add: fp_signed_abs)
  next
    case False
    then show ?thesis using s fp_round_units[OF finite_abs[OF n False], of "fp_scale LENGTH('a) p"]
      by (simp add: fp_signed_abs mult.commute)
  qed
qed

text \<open>
  \<open>Sum\<close> and \<open>Prod\<close> on floats, all values included (subnormal, infinite, NaN): both are commutative; 0 is neutral for the
  sum up to the sign of zero, 1 is neutral for the product, and NaN is absorbing.
\<close>

theorem float_sum_prod_spec:
  fixes a b :: "'a::len word"
  assumes "p + 3 \<le> LENGTH('a)"
  shows "sum_float_apply p a b = sum_float_apply p b a \<and> prod_float_apply p a b = prod_float_apply p b a \<and>
    (\<not> fp_nan p a \<longrightarrow> sum_float_apply p 0 a = (if fp_abs a = 0 then 0 else a) \<and> prod_float_apply p (fp_one p) a = a) \<and>
    (fp_nan p a \<longrightarrow> sum_float_apply p a b = fp_qnan p \<and> prod_float_apply p a b = fp_qnan p)"
proof (intro conjI impI)
  show "sum_float_apply p a b = sum_float_apply p b a" by (rule sum_float_comm)
  show "prod_float_apply p a b = prod_float_apply p b a" by (rule prod_float_comm)
qed (use sum_float_zero[of p a] prod_float_one[OF assms] assms in \<open>simp_all add: sum_float_apply_def prod_float_apply_def\<close>)

lemma prod_identities: "prod_f32_identity = fp_one f32_bits" "prod_f64_identity = fp_one 52"
  by (simp_all add: prod_f32_identity_def prod_f64_identity_def fp_one_def push_bit_eq_mult mask_eq_exp_minus_1)

theorem float_sum_prod_spec_witness:
  "\<forall>a b :: u32. sum_float_apply f32_bits a b = sum_float_apply f32_bits b a"
  using float_sum_prod_spec[where 'a = 32 and p = f32_bits] by simp

text \<open>
  \<open>Max\<close> on floats: a NaN on either side yields the right operand, so the operator is not commutative; on numbers it is the
  maximum in the order of the values, commutative and associative.
\<close>

theorem max_float_spec:
  fixes a b c :: "'a::len word"
  shows "(fp_nan p a \<or> fp_nan p b \<longrightarrow> max_float_apply p a b = b) \<and>
    (\<not> fp_nan p a \<and> \<not> fp_nan p b \<longrightarrow> fp_key (max_float_apply p a b) = max (fp_key a) (fp_key b)) \<and>
    (fp_number p a \<and> fp_number p b \<and> fp_number p c \<longrightarrow> max_float_apply p a b = max_float_apply p b a \<and>
       max_float_apply p (max_float_apply p a b) c = max_float_apply p a (max_float_apply p b c))"
proof (intro conjI impI)
  assume n: "fp_number p a \<and> fp_number p b \<and> fp_number p c"
  have eq: "max_float_apply p x y = (if fp_key y < fp_key x then x else y)" if "fp_number p x" "fp_number p y" for x y :: "'a word"
    using that by (simp add: max_float_apply_def fp_less_def fp_number_def)
  have num: "fp_number p (max_float_apply p x y)" if "fp_number p x" "fp_number p y" for x y :: "'a word"
    using that by (simp add: max_float_apply_def)
  show "max_float_apply p a b = max_float_apply p b a" using n eq[of a b] eq[of b a] fp_key_inj[of a b p] by auto
  show "max_float_apply p (max_float_apply p a b) c = max_float_apply p a (max_float_apply p b c)"
    using n num by (auto simp: eq)
qed (auto simp: max_float_apply_def fp_less_def max_def)

theorem max_float_spec_witness:
  "max_float_apply f32_bits 0x7fc00000 (0x3f800000 :: u32) = 0x3f800000 \<and> max_float_apply f32_bits 0x3f800000 (0x7fc00000 :: u32) = 0x7fc00000"
proof -
  have "fp_nan f32_bits (0x7fc00000 :: u32)" by (simp add: fp_nan_def fp_inf_def fp_abs_def take_bit_eq_mask mask_eq_exp_minus_1)
  then show ?thesis
    using max_float_spec[of f32_bits "0x7fc00000 :: u32" "0x3f800000"] max_float_spec[of f32_bits "0x3f800000 :: u32" "0x7fc00000"] by simp
qed

text \<open>The identity of \<open>Max\<close> is none for negative infinity: the reduction of \<open>-inf\<close> with it is the least finite value.\<close>

lemma max_f32_identity_wrong: "max_float_apply f32_bits max_f32_identity 0xff800000 = max_f32_identity"
  by (simp add: max_float_apply_def fp_less_def fp_nan_def fp_inf_def fp_abs_def fp_neg_def fp_key_def max_f32_identity_def
      take_bit_eq_mask mask_eq_exp_minus_1)

subsection \<open>Recursive doubling without associativity\<close>

lemma rd_peer_same_or_peer:
  assumes "r div 2 ^ Suc k = r' div 2 ^ Suc k"
  shows "r' div 2 ^ k = r div 2 ^ k \<or> r' div 2 ^ k = rd_peer k r div 2 ^ k"
proof -
  have "r div 2 ^ k div 2 = r' div 2 ^ k div 2" using assms by (simp add: power_Suc2 div_mult2_eq del: power_Suc)
  moreover have "q' = q \<or> q' = q XOR 1" if "q div 2 = q' div 2" for q q' :: nat
    using that by (cases "even q"; cases "even q'") (auto simp: xor_Suc_0_eq elim!: evenE oddE)
  ultimately show ?thesis unfolding rd_peer_quot by metis
qed

lemma rd_peer_cong: "r' div 2 ^ k = r div 2 ^ k \<Longrightarrow> rd_peer k r' div 2 ^ k = rd_peer k r div 2 ^ k"
  by (simp add: rd_peer_quot)

lemma rd_blocks_agree:
  assumes comm: "\<And>a b. f a b = f b a" and len: "\<And>r. r < n \<Longrightarrow> length (B r) = l"
  shows "k \<le> trailing_zeros n \<Longrightarrow> r < n \<Longrightarrow> r' < n \<Longrightarrow> r div 2 ^ k = r' div 2 ^ k \<Longrightarrow>
    lockstep (rd_protocol f n) B k r = lockstep (rd_protocol f n) B k r' \<and> length (lockstep (rd_protocol f n) B k r) = l"
proof (induction k arbitrary: r r')
  case (Suc k)
  let ?L = "lockstep (rd_protocol f n) B k" and ?p = "rd_peer k r" and ?p' = "rd_peer k r'"
  have p: "?p < n" "?p' < n" using Suc.prems rd_peer_less by simp_all
  have le: "k \<le> trailing_zeros n" using Suc.prems(1) by simp
  have ln: "length (?L q) = l" if "q < n" for q using Suc.IH[OF le that that] by simp
  have step: "lockstep (rd_protocol f n) B (Suc k) q = map2 f (?L q) (?L (rd_peer k q))" if "q < n" "rd_peer k q < n" for q
    using that ln by (simp add: Let_def reduce_in_place_eq)
  have sym: "map2 f xs ys = map2 f ys xs" if "length xs = length ys" for xs ys
    using that by (induction xs ys rule: list_induct2) (simp_all add: comm)
  consider "r' div 2 ^ k = r div 2 ^ k" | "r' div 2 ^ k = ?p div 2 ^ k" using rd_peer_same_or_peer[OF Suc.prems(4)] by blast
  then have "map2 f (?L r) (?L ?p) = map2 f (?L r') (?L ?p')"
  proof cases
    case 1
    with Suc.IH[OF le Suc.prems(2,3)] Suc.IH[OF le p] rd_peer_cong[OF 1] show ?thesis by simp
  next
    case 2
    have "?p' div 2 ^ k = r div 2 ^ k" using rd_peer_cong[OF 2] by simp
    with 2 Suc.IH[OF le Suc.prems(2) p(2)] Suc.IH[OF le p(1) Suc.prems(3)] have "?L r = ?L ?p'" "?L ?p = ?L r'" by simp_all
    then show ?thesis using sym[of "?L r'" "?L ?p'"] ln p Suc.prems by simp
  qed
  then show ?case using step Suc.prems p ln by simp
qed (use len in simp)

text \<open>
  C38 (safety). With an operator that is commutative, associative or not (the rounded sum and product of floats), recursive
  doubling on a power of two of ranks ends with the same buffer on all ranks, under every interleaving.
\<close>

theorem recursive_doubling_agrees:
  fixes B :: "nat \<Rightarrow> 'a list" and T :: "('n, 'a list, u64) transport"
  assumes comm: "\<And>a b. f a b = f b a" and n: "is_power_of_two n" "n \<le> 2 ^ 16" and len: "\<And>r. r < n \<Longrightarrow> length (B r) = l"
    and T: "transport_ok T" "tr_empty T net"
    and run: "(async_step (rd_protocol f n) T ^^ moves) (async_init (rd_protocol f n) B net) (rs, net')"
    and fin: "\<nexists>c'. async_step (rd_protocol f n) T (rs, net') c'" and r: "r < n" "r' < n"
  shows "rk_state (rs ! r) = rk_state (rs ! r') \<and> length (rk_state (rs ! r)) = l"
proof -
  have "pr_size (rd_protocol f n) \<le> 2 ^ 16" using n(2) by simp
  from rd.outcome[OF this T run] fin r have st: "rk_state (rs ! q) = lockstep (rd_protocol f n) B (trailing_zeros n) q" if "q < n" for q
    using that by simp
  have "r div 2 ^ trailing_zeros n = r' div 2 ^ trailing_zeros n" using r power_of_two_eq[OF n(1)] by (metis div_less)
  from rd_blocks_agree[where f = f and n = n and B = B and l = l, OF comm len le_refl r this] st[OF r(1)] st[OF r(2)] show ?thesis by metis
qed

text \<open>Four ranks sum floats.\<close>

theorem recursive_doubling_agrees_witness:
  "\<exists>moves rs net'. (async_step (rd_protocol (sum_float_apply f32_bits) 4) list_transport ^^ moves)
      (async_init (rd_protocol (sum_float_apply f32_bits) 4) (\<lambda>r. [of_nat r :: u32]) []) (rs, net') \<and> rk_state (rs ! 0) = rk_state (rs ! 3)"
proof -
  let ?f = "sum_float_apply f32_bits :: u32 \<Rightarrow> u32 \<Rightarrow> u32" and ?B = "\<lambda>r. [of_nat r :: u32]"
  let ?P = "rd_protocol ?f 4"
  let ?c = "async_init ?P ?B []" and ?S = "async_step ?P list_transport"
  have empty: "tr_empty list_transport []" by (simp add: tr_empty_def list_transport_def)
  have p2: "is_power_of_two 4" by code_simp
  have small: "pr_size ?P \<le> 2 ^ 16" by simp
  have "k \<le> 2 * 4 * trailing_zeros 4" if "(?S ^^ k) ?c c" for k c
    using rd.outcome[OF small transport_ok_list empty, of k ?B "fst c" "snd c"] that by simp
  then obtain k rs net' where k: "(?S ^^ k) ?c (rs, net')" "\<nexists>c'. ?S (rs, net') c'"
    using relpowp_terminal[of ?S ?c "2 * 4 * trailing_zeros 4"] by (metis prod.collapse)
  have "rk_state (rs ! 0) = rk_state (rs ! 3)"
    using recursive_doubling_agrees[where f = ?f and n = 4 and l = 1 and B = ?B and r = 0 and r' = 3, OF _ p2 _ _ transport_ok_list empty k]
    by (simp add: sum_float_comm)
  with k(1) show ?thesis by blast
qed



end
