(* ===== verification/Views.thy ===== *)
theory Views
  imports Ring
begin

section \<open>Disjoint views of a buffer (\<open>pluvio_collective/src/ucx_backend/util.rs\<close>)\<close>

text \<open>
  \<open>split_disjoint_mut\<close> makes mutable slices of one buffer. A slice is its range \<open>(start, len)\<close>; the contract the function
  leaves to its caller is what keeps it from undefined behaviour, and writes through the slices are then independent.
\<close>

definition overlaps :: "nat \<times> nat \<Rightarrow> nat \<times> nat \<Rightarrow> bool" where
  "overlaps a b \<longleftrightarrow> 0 < snd a \<and> 0 < snd b \<and> fst a < fst b + snd b \<and> fst b < fst a + snd a"

text \<open>
  The ranges are taken in order; a range beyond the buffer fails the \<open>debug_assert\<close> of a debug build and is undefined
  behaviour in a release build, as two live mutable slices that overlap are in both.
\<close>

fun split_views :: "bool \<Rightarrow> nat \<Rightarrow> (nat \<times> nat) list \<Rightarrow> (nat \<times> nat) list \<Rightarrow> (nat \<times> nat) list run" where
  "split_views debug cap parts [] = Inr parts"
| "split_views debug cap parts ((start, len) # ranges) =
     (if cap < start + len
      then Inl (if debug then Panic ''range out of bounds'' else UB ''slice beyond its allocation'')
      else if list_ex (overlaps (start, len)) parts then Inl (UB ''overlapping mutable slices'')
      else split_views debug cap (parts @ [(start, len)]) ranges)"

definition split_disjoint_mut :: "bool \<Rightarrow> 'a list \<Rightarrow> (nat \<times> nat) list \<Rightarrow> (nat \<times> nat) list run" where
  "split_disjoint_mut debug buf ranges = split_views debug (length buf) [] ranges"

text \<open>Each part is filled with the values of its user.\<close>

definition write_parts :: "((nat \<times> nat) \<times> 'a list) list \<Rightarrow> 'a list \<Rightarrow> 'a list" where
  "write_parts writes buf = fold (\<lambda>((start, len), vals). write_slice start vals) writes buf"

text \<open>The contract: every range within the buffer, no two overlap.\<close>

definition disjoint_ranges :: "nat \<Rightarrow> (nat \<times> nat) list \<Rightarrow> bool" where
  "disjoint_ranges cap ranges \<longleftrightarrow> (\<forall>(start, len) \<in> set ranges. start + len \<le> cap) \<and> sorted_wrt (\<lambda>a b. \<not> overlaps a b) ranges"

lemma overlaps_sym: "overlaps a b = overlaps b a"
  by (auto simp: overlaps_def)

lemma split_views_eq:
  "sorted_wrt (\<lambda>a b. \<not> overlaps a b) parts \<Longrightarrow>
   split_views debug cap parts ranges = Inr vs \<longleftrightarrow>
     vs = parts @ ranges \<and> (\<forall>(start, len) \<in> set ranges. start + len \<le> cap) \<and> sorted_wrt (\<lambda>a b. \<not> overlaps a b) (parts @ ranges)"
proof (induction ranges arbitrary: parts)
  case (Cons r ranges)
  obtain start len where r: "r = (start, len)" by fastforce
  have ex: "list_ex (overlaps r) parts \<longleftrightarrow> (\<exists>x \<in> set parts. overlaps x r)" by (simp add: list_ex_iff overlaps_sym)
  show ?case
  proof (cases "start + len \<le> cap \<and> \<not> list_ex (overlaps r) parts")
    case True
    then have "sorted_wrt (\<lambda>a b. \<not> overlaps a b) (parts @ [r])" using Cons.prems ex by (auto simp: sorted_wrt_append)
    from Cons.IH[OF this] True r show ?thesis by auto
  next
    case False
    then show ?thesis using r ex by (auto simp: sorted_wrt_append)
  qed
qed auto

lemma nth_write_slice:
  "off + length v \<le> length xs \<Longrightarrow> i < length xs \<Longrightarrow> write_slice off v xs ! i = (if off \<le> i \<and> i < off + length v then v ! (i - off) else xs ! i)"
  by (auto simp: write_slice_def nth_append min_def)

text \<open>The last writer of an index wins, and with disjoint ranges there is only one.\<close>

lemma write_parts_other:
  "(\<forall>((start, len), vals) \<in> set writes. length vals = len \<and> start + len \<le> length buf) \<Longrightarrow> i < length buf \<Longrightarrow>
   (\<forall>((start, len), vals) \<in> set writes. \<not> (start \<le> i \<and> i < start + len)) \<Longrightarrow>
   length (write_parts writes buf) = length buf \<and> write_parts writes buf ! i = buf ! i"
proof (induction writes arbitrary: buf)
  case (Cons w writes)
  obtain start len vals where w: "w = ((start, len), vals)" by (metis prod.collapse)
  have len: "length (write_slice start vals buf) = length buf" using Cons.prems(1) w by (simp add: length_write_slice)
  have "length (write_parts writes (write_slice start vals buf)) = length (write_slice start vals buf) \<and>
      write_parts writes (write_slice start vals buf) ! i = write_slice start vals buf ! i"
    by (rule Cons.IH) (use Cons.prems w len in auto)
  moreover have "write_slice start vals buf ! i = buf ! i" using Cons.prems w by (subst nth_write_slice) auto
  ultimately show ?case using len by (simp add: write_parts_def w)
qed (simp add: write_parts_def)

lemma write_parts_own:
  "(\<forall>((start, len), vals) \<in> set writes. length vals = len \<and> start + len \<le> length buf) \<Longrightarrow>
   sorted_wrt (\<lambda>a b. \<not> overlaps a b) (map fst writes) \<Longrightarrow> ((start, len), vals) \<in> set writes \<Longrightarrow> start \<le> i \<Longrightarrow> i < start + len \<Longrightarrow>
   write_parts writes buf ! i = vals ! (i - start)"
proof (induction writes arbitrary: buf)
  case (Cons w writes)
  obtain s' l' v' where w: "w = ((s', l'), v')" by (metis prod.collapse)
  let ?buf = "write_slice s' v' buf"
  have lb: "length ?buf = length buf" using Cons.prems(1) w by (simp add: length_write_slice)
  have step: "write_parts (w # writes) buf = write_parts writes ?buf" by (simp add: write_parts_def w)
  show ?case
  proof (cases "((start, len), vals) \<in> set writes")
    case True
    have "write_parts writes ?buf ! i = vals ! (i - start)" by (rule Cons.IH) (use Cons.prems True lb in auto)
    then show ?thesis by (simp add: step)
  next
    case False
    then have own: "w = ((start, len), vals)" using Cons.prems(3) by auto
    have ib: "i < length buf" "start + length vals \<le> length buf" "length vals = len" using Cons.prems own by auto
    have "write_parts writes ?buf ! i = ?buf ! i"
      using Cons.prems own lb ib by (intro write_parts_other[THEN conjunct2]) (fastforce simp: overlaps_def)+
    also have "?buf ! i = vals ! (i - start)" using w own ib Cons.prems(4,5) by (simp add: nth_write_slice)
    finally show ?thesis by (simp add: step)
  qed
qed simp

text \<open>
  \<open>split_disjoint_mut\<close> hands out the ranges exactly when the contract holds (in a debug build as in a
  release build); then what is written through a part is found at its indices and all other elements keep
  their value.
\<close>

theorem split_disjoint_mut_exact:
  "(split_disjoint_mut debug buf ranges = Inr parts \<longleftrightarrow> parts = ranges \<and> disjoint_ranges (length buf) ranges) \<and>
   (disjoint_ranges (length buf) ranges \<longrightarrow> map length vals = map snd ranges \<longrightarrow>
      (\<forall>k < length ranges. \<forall>j < snd (ranges ! k). write_parts (zip ranges vals) buf ! (fst (ranges ! k) + j) = vals ! k ! j) \<and>
      (\<forall>i < length buf. (\<forall>(start, len) \<in> set ranges. \<not> (start \<le> i \<and> i < start + len)) \<longrightarrow> write_parts (zip ranges vals) buf ! i = buf ! i))"
proof (intro conjI impI allI)
  show "split_disjoint_mut debug buf ranges = Inr parts \<longleftrightarrow> parts = ranges \<and> disjoint_ranges (length buf) ranges"
    using split_views_eq[of "[]" debug "length buf" ranges parts] by (simp add: split_disjoint_mut_def disjoint_ranges_def)
next
  assume d: "disjoint_ranges (length buf) ranges" and l: "map length vals = map snd ranges"
  have len: "length vals = length ranges" using l by (metis length_map)
  have wf: "\<forall>((start, len), vs) \<in> set (zip ranges vals). length vs = len \<and> start + len \<le> length buf"
  proof -
    have "length (vals ! k) = snd (ranges ! k) \<and> fst (ranges ! k) + snd (ranges ! k) \<le> length buf" if "k < length ranges" for k
    proof -
      have "length (vals ! k) = snd (ranges ! k)" using l that len by (metis nth_map)
      moreover have "ranges ! k \<in> set ranges" using that by simp
      ultimately show ?thesis using d by (force simp: disjoint_ranges_def)
    qed
    then have "\<forall>w \<in> set (zip ranges vals). length (snd w) = snd (fst w) \<and> fst (fst w) + snd (fst w) \<le> length buf"
      by (auto simp: set_zip len simp del: split_paired_All)
    then show ?thesis by (simp add: split_beta)
  qed
  { fix k j assume k: "k < length ranges" and j: "j < snd (ranges ! k)"
    have "((fst (ranges ! k), snd (ranges ! k)), vals ! k) \<in> set (zip ranges vals)" using k len by (force simp: set_zip)
    then show "write_parts (zip ranges vals) buf ! (fst (ranges ! k) + j) = vals ! k ! j"
      using write_parts_own[OF wf, of "fst (ranges ! k)" "snd (ranges ! k)" "vals ! k" "fst (ranges ! k) + j"] d len j
      by (simp add: disjoint_ranges_def) }
  { fix i assume i: "i < length buf" and out: "\<forall>(start, len) \<in> set ranges. \<not> (start \<le> i \<and> i < start + len)"
    have "\<forall>((start, len), vs) \<in> set (zip ranges vals). \<not> (start \<le> i \<and> i < start + len)" using out by (auto dest: set_zip_leftD)
    from write_parts_other[OF wf i this] show "write_parts (zip ranges vals) buf ! i = buf ! i" by simp }
qed

theorem split_disjoint_mut_exact_witness:
  "split_disjoint_mut False [1, 2, 3, 4 :: nat] [(0, 1), (2, 2)] = Inr [(0, 1), (2, 2)] \<and>
   write_parts (zip [(0, 1), (2, 2)] [[9], [8, 7]]) [1, 2, 3, 4 :: nat] ! 3 = 7"
  using split_disjoint_mut_exact[of False "[1, 2, 3, 4 :: nat]" "[(0, 1), (2, 2)]" "[(0, 1), (2, 2)]" "[[9], [8, 7]]"]
  by (auto simp: disjoint_ranges_def overlaps_def split_disjoint_mut_def write_parts_def write_slice_def)

end
