(* ===== verification/Spec2Isabelle.thy ===== *)
theory Spec2Isabelle
  imports Spsc Select Track Timer_Runtime Uring_Runtime Key_Reuse Submit_Thread Adaptive Bootstrap Mpi_Backend Uring_Local Ucx_Calls Float_Ops Views
begin

section \<open>The pluvio runtime\<close>

text \<open>
  Pluvio is a single-threaded asynchronous runtime in Rust with pluggable reactors. An executor
  (\<open>pluvio_runtime\<close>) polls tasks whose wakers feed run queues; reactors turn external events into
  wake-ups: timers (\<open>pluvio_timer\<close>), io_uring (\<open>pluvio_uring\<close>) and UCX (\<open>pluvio_ucx\<close>); and a library
  of collective operations runs on top of UCX (\<open>pluvio_collective\<close>). This development models these
  parts as executable HOL functions and proves what makes them correct. Paths below are relative to the
  repository.

  \<^bold>\<open>Conventions\<close> (\<open>Prelude\<close>). Counters, tags and header fields are words of the source's width whose
  arithmetic wraps; lengths and indices of collections in memory are \<open>nat\<close>. Panics, aborts and undefined
  behaviour (reading an uninitialised slot, touching a freed cell) are values of \<open>fault\<close>: code that can
  fault returns \<open>fault + 'a\<close>, so "never faults" is an equation about the result. An error the code
  returns is a value of its own error type. Shared cells (\<open>Rc<RefCell<_>>\<close>, \<open>Rc<Cell<_>>\<close>) and raw pointers
  are addresses in an explicit store. Waking a waker that belongs to another component is an entry of a
  log. Readings of the clock, the environment and the operating system are parameters.

  \<^bold>\<open>Runtime\<close> (\<open>pluvio_runtime/src\<close>).
  \<^item> \<open>Spsc\<close>: \<open>executor/spsc.rs\<close>. The record \<open>inner\<close> is the ring buffer, one definition per method of
    \<open>Inner\<close>, \<open>Sender\<close> and \<open>Receiver\<close>. \<open>spsc_wf\<close> is the representation invariant and \<open>contents\<close> the abstraction to
    a list; sends and receives refine the list queue, growth and failed growth included, histories are
    first-in-first-out, the spinning receives return exactly when there is something to return (they are
    \<open>partial_function\<close>s; \<open>None\<close> is spinning forever) and dropping the channel drops each message once. The
    locale \<open>task_channel\<close> is the interface the executor uses; it is interpreted by the ring buffer.
  \<^item> \<open>Select\<close>, \<open>Track\<close>: \<open>select.rs\<close>, \<open>track.rs\<close>. The first future to complete wins and both are dropped; track
    ids held at one time are distinct.
  \<^item> \<open>Reactor\<close>: \<open>reactor/mod.rs\<close>. The locale \<open>reactor_contract\<close> says when the executor may skip a reactor
    whose status is \<open>Stopped\<close>; it is interpreted by the timer reactor.
  \<^item> \<open>Task\<close>: \<open>task/mod.rs\<close>, \<open>task/stat.rs\<close>, \<open>task/waker.rs\<close>. Task wrapper, shared state, join handles, and the
    reference-counted waker cells behind the raw vtable, which are never touched after being freed.
  \<^item> \<open>Executor\<close>, \<open>Executor_Inv\<close>: \<open>executor/mod.rs\<close>, \<open>executor/stat.rs\<close>. The record \<open>machine\<close> is the runtime's
    state, the record \<open>env\<close> what is not code of the repository: the \<open>slab\<close> crate (laws \<open>slab_ok\<close>), user
    futures and reactors (laws \<open>env_ok\<close>: they act on the runtime through its interface, the steps of
    \<open>api_step\<close>), clock, environment, hash iteration order. One definition per phase of the event loop;
    \<open>run_queue\<close> and \<open>block_on\<close> are \<open>partial_function\<close>s. The loops keep the invariant and never fault, each
    iteration takes the tasks in queue order up to the batch size, a task that is ready delivers its
    result to its join handle and wakes the joiner, and the stuck check ends a loop that makes no progress.
  \<^item> \<open>Task_Types\<close>: the types of results. Each shared cell and result holder has the type its task was spawned with; the
    locale \<open>typed_futures\<close> assumes of user futures what the type checker gives and proves that every step keeps
    the typing, so the \<open>downcast\<close> of a join handle never fails. It is interpreted by the sleeping tasks.
  \<^item> \<open>Loop_Steps\<close>, \<open>Reactor_Loop\<close>: single polls and iterations as equations; and \<open>block_on\<close> on a runtime with one reactor. The
    locale \<open>waiting_on_reactor\<close> states what a reactor and a future that waits for it promise each other, and proves that
    \<open>block_on\<close> returns, with explicit limits. Interpreted by sleeping (\<open>Timer_Runtime\<close>) and file operations (\<open>Uring_Runtime\<close>).
  \<^item> \<open>Block_On\<close>, \<open>Key_Reuse\<close>: \<open>block_on\<close>. It returns only with the result of its future, of the right type, and panics
    only with the deadlock report. But it watches a slab key: a program is followed in which the key is
    reused in the iteration that stores the result, and \<open>block_on\<close> never returns it.

  \<^bold>\<open>Reactors\<close>.
  \<^item> \<open>Timer\<close>: \<open>pluvio_timer/src/lib.rs\<close>. Timers in a \<open>BTreeMap\<close> (an ascending association list), \<open>Delay\<close> and
    \<open>Timeout\<close>. Over every history each registered timer is pending, cancelled or woken, exactly one of
    them; a poll wakes exactly the expired timers in order of deadline.
  \<^item> \<open>Timer_Runtime\<close>: the executor's parameters instantiated with the timer reactor and sleeping tasks. They keep
    its contract; and \<open>block_on\<close> of a sleep is followed through both components to its return.
  \<^item> \<open>Uring_Alloc\<close>, \<open>Uring_Reactor\<close>: \<open>pluvio_uring/src/allocator.rs\<close>, \<open>reactor.rs\<close>, \<open>builder.rs\<close>. Buffers of the pool
    are lent to one holder and conserved, acquirers are woken in order; submission entries, the
    kernel's rings and completions: over every history each completion belongs to one handle that gets the
    result once. The kernel is a step of its own that may take entries and complete them in any order.
  \<^item> \<open>Submit_Thread\<close>: \<open>reactor.rs\<close>. The optional thread that submits, interleaved with the reactor one access at a time:
    no signal is lost, a set flag is served in three steps, and the accesses implement the reactor model.
  \<^item> \<open>Uring_Files\<close>: \<open>pluvio_uring/src/file.rs\<close>. Each file operation is a future that owns a heap box or a registered
    buffer; the entries it pushes point into that memory. As long as no call is dropped while it is under
    way, the memory of every entry with the kernel is live, exclusive and out of the pool.
  \<^item> \<open>Uring_Runtime\<close>: the executor's parameters instantiated with the io_uring reactor and file operations; \<open>block_on\<close> of a file
    operation returns what the kernel reports, in every mode of the reactor, whatever the status gate hides in between.
  \<^item> \<open>Uring_Socket\<close>: \<open>pluvio_uring/src/socket.rs\<close>. Addresses and their bytes, \<open>parse_v4\<close>, binding with its error
    paths, and the message futures: what a receive that is awaited at once returns, and what a future that
    is left unpolled or is dropped in flight does to the reactor and to the memory of the kernel.
  \<^item> \<open>Uring_Local\<close>: \<open>reactor.rs\<close>, \<open>builder.rs\<close>, and the calls of \<open>file.rs\<close> and \<open>socket.rs\<close> that take no reactor. The
    \<open>OnceCell\<close> of a thread, filled by \<open>build\<close> and read by \<open>get_or_init\<close>: a thread has one reactor at most, and
    \<open>get_or_init\<close> never creates one without a panic.
  \<^item> \<open>Ucx_Worker\<close>: \<open>pluvio_ucx/src/worker/*.rs\<close>, \<open>reactor.rs\<close>. Worker states, the bracket each call puts around
    its UCX operation, listeners, streams and the counter of active workers that is the reactor's status.
  \<^item> \<open>Ucx_Calls\<close>: the same files, \<open>stats.rs\<close>, and \<open>run_send_recv\<close> of the collectives. The reactor of a thread, endpoints, timing behind the global flag,
    and the calls that are pending on each worker: the reactor serves all of them as long as no call ends under
    another one on a worker without a listener; when one does, the other call is left alone.

  \<^bold>\<open>Collectives\<close> (\<open>pluvio_collective/src\<close>).
  \<^item> \<open>Op\<close>, \<open>Float_Ops\<close>: \<open>op.rs\<close>, \<open>error.rs\<close>, \<open>ucx_backend/tag.rs\<close>. Reduction operators, the 8-lane loop, tags; IEEE comparison,
    addition and multiplication on the bits of \<open>f32\<close> and \<open>f64\<close>. The collectives are verified for every operator with the laws
    they need; recursive doubling needs commutativity for its ranks to agree, which \<open>Max\<close> lacks on NaN.
  \<^item> \<open>Views\<close>: \<open>ucx_backend/util.rs\<close>. Disjoint mutable views of a buffer: when they are defined, and that writes stay apart.
  \<^item> \<open>Rounds\<close>: collectives in which every rank sends and receives once a round are values of \<open>protocol\<close>.
    \<open>async_step\<close> runs each rank at its own pace over a transport. The locale \<open>tagged_rounds\<close> proves once that
    every execution ends, none deadlocks and the result is that of the lockstep execution. Interpreted by
    \<open>Ring\<close> (\<open>ring.rs\<close>), \<open>Recursive_Doubling\<close> (\<open>recursive_doubling.rs\<close>) and \<open>Bruck\<close> (\<open>bruck.rs\<close>).
  \<^item> \<open>Pipelined\<close>: \<open>pipelined_ring.rs\<close>. Each rank runs a window of chains, one per micro-chunk, over the router.
    A chain sees a row of the buffer, and on its row it is a ring of its own (the locale again); the window
    of a rank cannot block another rank, and the result is that of the plain ring.
  \<^item> \<open>Adaptive\<close>: \<open>communicator.rs\<close>, \<open>adaptive.rs\<close>. The communicator handles and the choice of the algorithm. The
    locale \<open>allreduce_algorithm\<close> states what every allreduce promises; it is interpreted by the three
    algorithms and by the adaptive wrapper.
  \<^item> \<open>Trees\<close>: collectives with a root are one list of sends and receives per rank. The locale \<open>one_to_all\<close>
    proves once that programs that form a tree never deadlock and end in \<open>2 (n - 1)\<close> moves. Interpreted by
    scatter and broadcast in \<open>Rooted\<close> (\<open>scatter.rs\<close>, \<open>broadcast.rs\<close>).
  \<^item> \<open>Am_Router\<close>: \<open>am_router.rs\<close>. Header bytes, the slot table, the dispatcher, the receive future with its
    raw target pointer: no write ever goes to the target of a receive that is finished or dropped. \<open>Bruck\<close>
    shows that the routers of all ranks satisfy the transport contract.
  \<^item> \<open>Bootstrap\<close>: \<open>ucx_backend/bootstrap.rs\<close>. The configuration, the length-prefixed messages and both sides of the
    exchange of addresses. All ranks end with the same table in whatever order they connect. Below, the
    endpoints this gives are composed with ring allreduce, from the connections to the reduced buffers.
  \<^item> \<open>Mpi_Backend\<close>: \<open>mpi_backend/*.rs\<close>. The reactor that tests pending requests and removes them by
    \<open>swap_remove\<close>, the four futures and the communicator. Every request is pending exactly once until it is
    marked, and a poll marks and wakes what is complete, each once. \<open>reactor_contract\<close> is interpreted again.
    The MPI library (the answers of its calls and of \<open>MPI_Test\<close>) is a parameter.

  \<^bold>\<open>The transport parameter.\<close> UCX is not code of the repository. \<open>transport_ok\<close> states what tag matching
  promises: a message sent under a tag with none under way stays pending at the receiver until a receive
  for the tag takes it. An issued send completes: the rounds and trees do not model that a rendezvous send
  waits for its receiver, and errors of UCX operations end a call and are not followed further.

  \<^bold>\<open>Bounds.\<close> Ranks are below \<open>2^16\<close> where a header or tag holds them and steps below the width of their field;
  theorems that depend on it say so. Fuel is used nowhere: loops are structural, have a measure, or are
  \<open>partial_function (option)\<close>s with the proof that they return.

  \<^bold>\<open>Not modelled.\<close> Logging, tracing and the dump of running tasks; most debug
  assertions; the contents of files and datagrams; the bits of a NaN result (one NaN stands for all); the
  examples, benches and tests, which drive the library.
\<close>

section \<open>Properties that span components\<close>

text \<open>The endpoints of a rank after the bootstrap: one for every other rank.\<close>

lemma bootstrapped_known:
  assumes "r' < n"
  shows "known (ucx_communicator_new r n (map (\<lambda>k. if k = r then None else Some (ep k)) [0..<n])) r' \<longleftrightarrow> r' \<noteq> r"
  using assms by (simp add: endpoint_def ucx_communicator_new_def)

lemma bootstrap_ranks:
  assumes net: "clean_net (net 0) n g (\<lambda>i. addr (g i))" and g: "bij_betw g {1..<n} {1..<n}" and n: "0 < n" "n < 2 ^ 32" "length (addr 0) < 2 ^ 32"
    and config: "\<And>r. r < n \<Longrightarrow> bo_rank (config r) = r \<and> bo_size (config r) = n"
    and peers: "\<And>r. 0 < r \<Longrightarrow> r < n \<Longrightarrow> list_ex (tcp_connect (net r)) [0..<200] \<and> tcp_send_error (net r) = None"
    and answers: "\<And>addrs out i. exchange_root (config 0) (addr 0) (net 0) = Inr (Inr (addrs, out)) \<Longrightarrow> i \<in> {1..<n} \<Longrightarrow>
        tcp_answer (net (g i)) = out i"
    and r: "r < n"
  shows "exchange_addresses (config r) (addr r) (net r) = Inr (Inr (map addr [0..<n]))"
proof -
  from root_bijective[OF net n(1) conjunct2[OF config[OF n(1)]] g] obtain out where
    out: "exchange_root (config 0) (addr 0) (net 0) = Inr (Inr (map addr [0..<n], out))"
      "\<forall>i \<in> {1..<n}. out i = answer_bytes n (map addr [0..<n])" by blast
  show ?thesis
  proof (cases "r = 0")
    case True
    then show ?thesis using out(1) config[OF n(1)] by (simp add: exchange_addresses_def)
  next
    case False
    then have "r \<in> g ` {1..<n}" using g r by (simp add: bij_betw_def)
    then obtain i where i: "i \<in> {1..<n}" "r = g i" by blast
    have "tcp_answer (net r) = answer_bytes n (map addr [0..<n])" using answers[OF out(1) i(1)] out(2) i by simp
    then have "exchange_peer (config r) (addr r) (net r) = Inr (map addr [0..<n])"
      using peers[OF _ r] False config[OF r] n
      by (intro peer_reads[OF addresses_short[OF net g n(3)]]) simp_all
    then show ?thesis using False config[OF r] by (simp add: exchange_addresses_def)
  qed
qed

text \<open>
  C12 (functional). From the bootstrap to a reduction: ranks 1 to n - 1 connect to rank 0 in any order, no I/O
  fails and every address can be connected to. Then every rank bootstraps its communicator, allreduce
  on buffers that divide evenly passes its checks on every rank and starts the same rounds, some
  execution ends, and every execution that stops leaves the elementwise reduction on every rank.
\<close>

theorem bootstrap_then_allreduce:
  fixes T :: "('m, 'a list, u64) transport" and U :: "('n, 'a list, recv_key) transport"
  assumes net: "clean_net (net 0) n g (\<lambda>i. addr (g i))" "bij_betw g {1..<n} {1..<n}" and n: "0 < n" "n \<le> 2 ^ 16" "length (addr 0) < 2 ^ 32"
    and config: "\<And>r. r < n \<Longrightarrow> bo_rank (config r) = r \<and> bo_size (config r) = n"
    and peers: "\<And>r. 0 < r \<Longrightarrow> r < n \<Longrightarrow> list_ex (tcp_connect (net r)) [0..<200] \<and> tcp_send_error (net r) = None"
    and answers: "\<And>addrs out i. exchange_root (config 0) (addr 0) (net 0) = Inr (Inr (addrs, out)) \<Longrightarrow> i \<in> {1..<n} \<Longrightarrow>
        tcp_answer (net (g i)) = out i"
    and connect: "\<And>r. r < n \<Longrightarrow> connect (addr r) = Inr (ep r)"
    and op: "\<And>a b. f a b = f b a" "\<And>a b c. f (f a b) c = f a (f b c)"
    and T: "transport_ok T" "tr_empty T w" "transport_ok U" "tr_empty U w'"
    and B: "\<And>r. r < n \<Longrightarrow> length (B r) = l" "l mod n = 0"
  shows "\<exists>eps call. (\<forall>r < n. bootstrap_communicator (Inr (addr r)) connect (config r) (net r) = Inr (Inr (eps r)) \<and>
      ucx_allreduce f (ucx_communicator_new r n (eps r)) (B r) = Inr call) \<and>
    (\<exists>X. call_ends call T w U w' B X) \<and> (\<forall>X. call_ends call T w U w' B X \<longrightarrow> (\<forall>r < n. X r = reduced f n l B))"
proof -
  let ?eps = "\<lambda>r. map (\<lambda>k. if k = r then None else Some (ep k)) [0..<n]"
  have boot: "bootstrap_communicator (Inr (addr r)) connect (config r) (net r) = Inr (Inr (?eps r))" if r: "r < n" for r
  proof -
    have "exchange_addresses (config r) (addr r) (net r) = Inr (Inr (map addr [0..<n]))"
    proof (rule bootstrap_ranks[where g = g])
      show "n < 2 ^ 32" using n(2) by simp
    qed (fact net n config peers answers r)+
    from bootstrap_ok[OF this, of connect "\<lambda>a. projr (connect a)"] connect config[OF r] show ?thesis
      by (simp add: map_eq_conv)
  qed
  let ?call = "if n \<le> 1 then CallDone else CallTagged (ring_protocol f n (l div n))"
  have start: "ucx_allreduce f (ucx_communicator_new r n (?eps r)) (B r) = Inr ?call" if r: "r < n" for r
  proof -
    show ?thesis
    proof (cases "n \<le> 1")
      case False
      then have "ring_next n r < n" "ring_next n r \<noteq> r" using ring_peers[OF r] r by (auto simp: ring_next_def mod_Suc)
      then obtain y where "endpoint (ucx_communicator_new r n (?eps r)) (ring_next n r) = Some y"
        using bootstrapped_known[of "ring_next n r" n r ep] by blast
      then show ?thesis using B(1)[OF r] B(2) False by (simp add: ucx_allreduce_def ring_allreduce_def tagged_call_def Let_def)
    qed (simp add: ucx_allreduce_def ring_allreduce_def tagged_call_def)
  qed
  note out = ring_alg.allreduce[OF op n(1,2) T B(1) start, THEN conjunct2]
  show ?thesis
  proof (intro exI[of _ ?eps] exI[of _ ?call] conjI)
    show "\<forall>r < n. bootstrap_communicator (Inr (addr r)) connect (config r) (net r) = Inr (Inr (?eps r)) \<and>
        ucx_allreduce f (ucx_communicator_new r n (?eps r)) (B r) = Inr ?call"
      by (intro allI impI conjI boot start)
    show "\<exists>X. call_ends ?call T w U w' B X" by (rule out[THEN conjunct1])
    show "\<forall>X. call_ends ?call T w U w' B X \<longrightarrow> (\<forall>r < n. X r = reduced f n l B)" by (rule out[THEN conjunct2])
  qed
qed

text \<open>Two ranks with the addresses \<open>[7]\<close> and \<open>[1]\<close>.\<close>

definition demo_net :: "nat \<Rightarrow> tcp" where
  "demo_net r = \<lparr>tcp_bind = None, tcp_accept = \<lambda>i. Inr (peer_hello 1 [1]), tcp_write_error = \<lambda>_. None,
     tcp_connect = \<lambda>i. i = 3, tcp_send_error = None, tcp_answer = answer_bytes 2 [[7], [1]]\<rparr>"

theorem bootstrap_then_allreduce_witness:
  "\<exists>eps call X. (\<forall>r < 2. ucx_allreduce sum_u32_apply (ucx_communicator_new r 2 (eps r :: u8 list option list)) (if r = 0 then [1, 2] else [10, 20]) = Inr call) \<and>
     call_ends call list_transport [] list_transport [] (\<lambda>r. if r = 0 then [1, 2] else [10, 20]) X \<and> X 0 = [11, 22] \<and> X 1 = [11, 22]"
proof -
  let ?B = "\<lambda>r. if r = (0::nat) then [1, 2] else [10, 20 :: u32]"
  let ?addr = "\<lambda>r. if r = (0::nat) then [7] else [1 :: u8]"
  let ?config = "\<lambda>r. \<lparr>bo_rank = r, bo_size = 2, bo_root_host = ''localhost'', bo_root_port = 13337\<rparr>"
  have empty: "tr_empty list_transport []" by (simp add: tr_empty_def list_transport_def)
  have iv: "{1..<2} = {1 :: nat}" by auto
  have net: "clean_net (demo_net 0) 2 (\<lambda>i. i) (\<lambda>i. ?addr i)" by (simp add: clean_net_def hellos_def demo_net_def upt_rec)
  have g: "bij_betw (\<lambda>i. i) {1..<2} {1..<2 :: nat}" by (simp add: bij_betw_def)
  have addrs: "map ?addr [0..<2] = [[7], [1]]" by (simp add: upt_rec)
  have answers: "tcp_answer (demo_net i) = out i"
    if "exchange_root (?config 0) (?addr 0) (demo_net 0) = Inr (Inr (as, out))" "i \<in> {1..<2}" for as out i
    using root_bijective[OF net _ _ g, of "?config 0"] that addrs by (auto simp: demo_net_def)
  have peers: "list_ex (tcp_connect (demo_net r)) [0..<200] \<and> tcp_send_error (demo_net r) = None" for r
    by (auto simp: demo_net_def list_ex_iff)
  have op: "sum_u32_apply a b = sum_u32_apply b a" "sum_u32_apply (sum_u32_apply a b) c = sum_u32_apply a (sum_u32_apply b c)" for a b c
    by (simp_all add: sum_u32_apply_def ac_simps)
  have "\<exists>eps call. (\<forall>r < 2. bootstrap_communicator (Inr (?addr r)) (\<lambda>a. Inr a) (?config r) (demo_net r) = Inr (Inr (eps r)) \<and>
      ucx_allreduce sum_u32_apply (ucx_communicator_new r 2 (eps r)) (?B r) = Inr call) \<and>
    (\<exists>X. call_ends call list_transport [] list_transport [] ?B X) \<and>
    (\<forall>X. call_ends call list_transport [] list_transport [] ?B X \<longrightarrow> (\<forall>r < 2. X r = reduced sum_u32_apply 2 2 ?B))"
    by (rule bootstrap_then_allreduce[where net = demo_net and g = "\<lambda>i. i" and ep = ?addr, OF net g])
      (rule op transport_ok_list empty peers refl conjI | erule (1) answers | simp)+
  then obtain eps call where c: "\<forall>r < 2. bootstrap_communicator (Inr (?addr r)) (\<lambda>a. Inr a) (?config r) (demo_net r) = Inr (Inr (eps r)) \<and>
      ucx_allreduce sum_u32_apply (ucx_communicator_new r 2 (eps r)) (?B r) = Inr call"
    "\<exists>X. call_ends call list_transport [] list_transport [] ?B X"
    "\<forall>X. call_ends call list_transport [] list_transport [] ?B X \<longrightarrow> (\<forall>r < 2. X r = reduced sum_u32_apply 2 2 ?B)" by blast
  then obtain X where "call_ends call list_transport [] list_transport [] ?B X" by blast
  moreover have "reduced sum_u32_apply 2 2 ?B = [11, 22]" by (simp add: reduced_def fold1_def sum_u32_apply_def numeral_2_eq_2)
  ultimately show ?thesis using c by (intro exI[of _ eps] exI[of _ call] exI[of _ X]) simp
qed

end
